(* ===== verification/Prelude.thy ===== *)
theory Prelude
  imports Main "HOL-Library.Word"
begin

text \<open>
  What every theory of the development shares: names for the machine integers
  of the C code, the lemma collections the component proofs are run with, and
  in-place updates of byte arrays.

  A C array is a list of fixed length.  A write at an offset is
  \<open>buf_put\<close>, which stores the bytes one by one with \<open>xs[i := v]\<close>; a write
  outside the array leaves the list as it is, and the code that could do that
  records it in a flag of its own state (field \<open>oob\<close> of the driver state), so
  that memory safety is a statement about that flag.
\<close>

unbundle bit_operations_syntax

type_synonym u8 = "8 word"
type_synonym u16 = "16 word"
type_synonym u32 = "32 word"

text \<open>
  \<open>frame\<close> collects equations that say which fields an operation leaves alone,
  \<open>wf_intro\<close> the preservation lemmas of the well-formedness invariants.
\<close>

named_theorems frame "fields that an operation leaves unchanged"
named_theorems wf_intro "preservation of well-formedness"

section \<open>Byte arrays\<close>

fun buf_put :: "nat \<Rightarrow> 'a list \<Rightarrow> 'a list \<Rightarrow> 'a list" where
  "buf_put off [] b = b"
| "buf_put off (x # xs) b = buf_put (Suc off) xs (b[off := x])"

definition buf_get :: "nat \<Rightarrow> nat \<Rightarrow> 'a list \<Rightarrow> 'a list" where
  "buf_get off n b = take n (drop off b)"

lemma length_buf_put [simp]: "length (buf_put off xs b) = length b"
  by (induction off xs b rule: buf_put.induct) auto

lemma buf_put_append:
  "buf_put off (xs @ ys) b = buf_put (off + length xs) ys (buf_put off xs b)"
  by (induction off xs b rule: buf_put.induct) auto

lemma nth_buf_put:
  "i < length b \<Longrightarrow>
     buf_put off xs b ! i = (if off \<le> i \<and> i < off + length xs then xs ! (i - off) else b ! i)"
proof (induction off xs b rule: buf_put.induct)
  case (1 off b)
  then show ?case by auto
next
  case (2 off x xs b)
  then show ?case
    by (auto simp: nth_Cons' nth_list_update)
qed

lemma length_buf_get [simp]: "length (buf_get off n b) = min n (length b - off)"
  by (simp add: buf_get_def min.commute)

lemma nth_buf_get: "i < n \<Longrightarrow> off + i < length b \<Longrightarrow> buf_get off n b ! i = b ! (off + i)"
  by (simp add: buf_get_def)

text \<open>What was stored is read back, and a disjoint range is not disturbed.\<close>

lemma buf_get_put_same:
  "off + length xs \<le> length b \<Longrightarrow> buf_get off (length xs) (buf_put off xs b) = xs"
  by (rule nth_equalityI) (auto simp: nth_buf_get nth_buf_put)

lemma buf_get_put_prefix:
  assumes "n \<le> length xs" and "off + length xs \<le> length b"
  shows "buf_get off n (buf_put off xs b) = take n xs"
  using assms by (intro nth_equalityI) (auto simp: nth_buf_get nth_buf_put)

lemma buf_get_put_disjoint:
  assumes "off' + n \<le> off \<or> off + length xs \<le> off'"
  shows "buf_get off' n (buf_put off xs b) = buf_get off' n b"
  using assms by (intro nth_equalityI) (auto simp: nth_buf_get nth_buf_put)

section \<open>Small facts used across the components\<close>

lemma upt_split_first: "m < n \<Longrightarrow> [m..<n] = m # [Suc m..<n]"
  by (rule upt_conv_Cons)

lemma map_upt_Suc_shift: "map f [0..<Suc n] = f 0 # map (\<lambda>k. f (Suc k)) [0..<n]"
  by (simp only: upt_conv_Cons zero_less_Suc list.map map_Suc_upt [symmetric] map_map comp_def)

lemma unat_and_mask_le: "unat (x AND m) \<le> unat (m :: 'a::len word)"
  by (simp add: word_and_le1 word_le_nat_alt [symmetric])

text \<open>A byte written little endian, low byte first.\<close>

definition le32 :: "u32 \<Rightarrow> u8 list" where
  "le32 w = [ucast w, ucast (drop_bit 8 w), ucast (drop_bit 16 w), ucast (drop_bit 24 w)]"

definition get_le32 :: "u8 \<Rightarrow> u8 \<Rightarrow> u8 \<Rightarrow> u8 \<Rightarrow> u32" where
  "get_le32 b0 b1 b2 b3 =
     ucast b0 OR push_bit 8 (ucast b1) OR push_bit 16 (ucast b2) OR push_bit 24 (ucast b3)"

lemma length_le32 [simp]: "length (le32 w) = 4"
  by (simp add: le32_def)

lemma get_le32_le32:
  "le32 w = [b0, b1, b2, b3] \<Longrightarrow> get_le32 b0 b1 b2 b3 = w"
  unfolding le32_def get_le32_def
proof (rule bit_word_eqI)
  fix n
  assume b: "[ucast w, ucast (drop_bit 8 w), ucast (drop_bit 16 w), ucast (drop_bit 24 w)]
      = [b0, b1, b2, b3]" and n: "n < LENGTH(32)"
  consider "n < 8" | "8 \<le> n" "n < 16" | "16 \<le> n" "n < 24" | "24 \<le> n" by linarith
  then show "bit (ucast b0 OR push_bit 8 (ucast b1) OR push_bit 16 (ucast b2)
      OR push_bit 24 (ucast b3) :: u32) n = bit w n"
    by cases (use b n in \<open>auto simp: bit_simps\<close>)
qed

end
