(* ===== verification/Mpi_Bus.thy ===== *)
theory Mpi_Bus
  imports Prelude
begin

text \<open>
  The microprocessor interface of the PEF24628E modem chip: the register file of
  \<open>drv_pef24628e_api.h\<close> (\<open>PEF24628E_MPI_REG_t\<close>, \<open>REG_GET\<close>, \<open>REG_SET\<close>, \<open>BFLD\<close>) and the
  memory-mapped accesses of \<open>pef24628_drv.c\<close> (\<open>MPI_WriteReg\<close>, \<open>MPI_ReadReg\<close>).

  The chip itself is not part of the sources.  It is the parameter \<open>bus\<close>: a state
  type \<open>'h\<close> with one function that answers a byte read at a bus address (and may
  change the chip's state: FIFOs and interrupt registers do) and one that takes a
  byte written there.
\<close>

record 'h bus =
  bus_rd :: "u32 \<Rightarrow> 'h \<Rightarrow> u8 \<times> 'h"
  bus_wr :: "u32 \<Rightarrow> u8 \<Rightarrow> 'h \<Rightarrow> 'h"

datatype mpi_reg =
    MCR_0 | MCR_1 | MCR_2 | MCR_3 | MAOR_0 | MAOR_1 | MAOR_2 | MAOR_3
  | MPI_CON | MPI_EGRESS | MPI_INGRESS | MPI_EFSTAT
  | MPI_EINT | MPI_EINT_EN | MPI_IINT_EN | MPI_IINT
  | SCI_INGRESS | SCI_EGRESS | SCI_CTRL_L | SCI_CTRL_H
  | SCI_CFG_L | SCI_CFG_H | SCI_REPORT_L | SCI_REPORT_H
  | SCI_ACFG_0 | SCI_ACFG_1 | SCI_ACFG_2 | SCI_ACFG_3
  | SCI_1C_NOT_USED | SCI_CLKCFG | SCI_INTEN | SCI_INT

text \<open>The offset of a field in the packed register struct.\<close>

fun reg_off :: "mpi_reg \<Rightarrow> u32" where
  "reg_off MCR_0 = 0x00" | "reg_off MCR_1 = 0x01" | "reg_off MCR_2 = 0x02" | "reg_off MCR_3 = 0x03"
| "reg_off MAOR_0 = 0x04" | "reg_off MAOR_1 = 0x05" | "reg_off MAOR_2 = 0x06" | "reg_off MAOR_3 = 0x07"
| "reg_off MPI_CON = 0x08" | "reg_off MPI_EGRESS = 0x09" | "reg_off MPI_INGRESS = 0x0a"
| "reg_off MPI_EFSTAT = 0x0b" | "reg_off MPI_EINT = 0x0c" | "reg_off MPI_EINT_EN = 0x0d"
| "reg_off MPI_IINT_EN = 0x0e" | "reg_off MPI_IINT = 0x0f"
| "reg_off SCI_INGRESS = 0x10" | "reg_off SCI_EGRESS = 0x11" | "reg_off SCI_CTRL_L = 0x12"
| "reg_off SCI_CTRL_H = 0x13" | "reg_off SCI_CFG_L = 0x14" | "reg_off SCI_CFG_H = 0x15"
| "reg_off SCI_REPORT_L = 0x16" | "reg_off SCI_REPORT_H = 0x17"
| "reg_off SCI_ACFG_0 = 0x18" | "reg_off SCI_ACFG_1 = 0x19" | "reg_off SCI_ACFG_2 = 0x1a"
| "reg_off SCI_ACFG_3 = 0x1b" | "reg_off SCI_1C_NOT_USED = 0x1c" | "reg_off SCI_CLKCFG = 0x1d"
| "reg_off SCI_INTEN = 0x1e" | "reg_off SCI_INT = 0x1f"

definition Bank1_PEF_C :: u32 where
  "Bank1_PEF_C = 0x60000000"

text \<open>
  \<open>addr = Reg << 16; addr += Bank1_PEF_C\<close>, in 32 bits: of a register pointer only
  the low half reaches the bus.
\<close>

definition mpi_addr :: "u32 \<Rightarrow> u32" where
  "mpi_addr Reg = push_bit 16 Reg + Bank1_PEF_C"

definition MPI_WriteReg :: "'h bus \<Rightarrow> u32 \<Rightarrow> u8 \<Rightarrow> 'h \<Rightarrow> 'h" where
  "MPI_WriteReg b Reg RegValue h = bus_wr b (mpi_addr Reg) RegValue h"

definition MPI_ReadReg :: "'h bus \<Rightarrow> u32 \<Rightarrow> 'h \<Rightarrow> u8 \<times> 'h" where
  "MPI_ReadReg b Reg h = bus_rd b (mpi_addr Reg) h"

section \<open>Interrupt and control bits\<close>

definition MPI_MPINT_INTIDC :: u8 where "MPI_MPINT_INTIDC = 0x01"
definition MPI_MPINT_INTSCI :: u8 where "MPI_MPINT_INTSCI = 0x02"
definition MPI_MPINTEN_IDCEN :: u8 where "MPI_MPINTEN_IDCEN = 0x01"
definition MPI_MPINTEN_SCIEN :: u8 where "MPI_MPINTEN_SCIEN = 0x02"
definition MPI_MPINTEN_MPILEV :: u8 where "MPI_MPINTEN_MPILEV = 0x04"
definition MPI_INTERRUPT_R :: u8 where "MPI_INTERRUPT_R = 0x01"
definition MPI_INTERRUPT_ALL :: u8 where "MPI_INTERRUPT_ALL = 0x1F"
definition SCI_INTERRUPT_XDOV :: u8 where "SCI_INTERRUPT_XDOV = 0x40"
definition SCI_INTERRUPT_XPR :: u8 where "SCI_INTERRUPT_XPR = 0x20"
definition SCI_INTERRUPT_XDU :: u8 where "SCI_INTERRUPT_XDU = 0x08"
definition SCI_INTERRUPT_RPF :: u8 where "SCI_INTERRUPT_RPF = 0x04"
definition SCI_INTERRUPT_RME :: u8 where "SCI_INTERRUPT_RME = 0x02"
definition SCI_INTERRUPT_RFO :: u8 where "SCI_INTERRUPT_RFO = 0x01"
definition SCI_INTERRUPT_ALL :: u8 where "SCI_INTERRUPT_ALL = 0xFF"
definition SCI_CTRL_RMC :: u8 where "SCI_CTRL_RMC = 0x10"
definition SCI_CTRL_RRES :: u8 where "SCI_CTRL_RRES = 0x02"
definition SCI_CTRL_XRES :: u8 where "SCI_CTRL_XRES = 0x01"
definition SCI_CTRL_HIGH_XME :: u8 where "SCI_CTRL_HIGH_XME = 0x80"
definition SCI_CTRL_HIGH_XTF :: u8 where "SCI_CTRL_HIGH_XTF = 0x40"

lemmas mpi_bits =
  MPI_MPINT_INTIDC_def MPI_MPINT_INTSCI_def MPI_MPINTEN_IDCEN_def MPI_MPINTEN_SCIEN_def
  MPI_MPINTEN_MPILEV_def MPI_INTERRUPT_R_def MPI_INTERRUPT_ALL_def

lemmas sci_bits =
  SCI_INTERRUPT_XDOV_def SCI_INTERRUPT_XPR_def SCI_INTERRUPT_XDU_def SCI_INTERRUPT_RPF_def
  SCI_INTERRUPT_RME_def SCI_INTERRUPT_RFO_def SCI_INTERRUPT_ALL_def SCI_CTRL_RMC_def
  SCI_CTRL_RRES_def SCI_CTRL_XRES_def SCI_CTRL_HIGH_XME_def SCI_CTRL_HIGH_XTF_def

section \<open>Address decoding\<close>

text \<open>
  With the register file at \<open>0x60000000\<close> (what \<open>rt_shdsl_init\<close> passes), the shift
  drops the base and each register has its own bus address, 64 KiB apart.
\<close>

lemma mpi_addr_base: "mpi_addr (Bank1_PEF_C + reg_off r) = Bank1_PEF_C + push_bit 16 (reg_off r)"
  by (cases r) (simp_all add: mpi_addr_def Bank1_PEF_C_def)

lemma reg_off_inj: "reg_off r = reg_off r' \<longleftrightarrow> r = r'"
  by (cases r; cases r') simp_all

section \<open>Watching the bus\<close>

text \<open>
  The same chip with a record of every byte written to it, in order.  What the
  driver does to the chip is stated about that record, for every chip.
\<close>

definition logged :: "'h bus \<Rightarrow> ('h \<times> (u32 \<times> u8) list) bus" where
  "logged b =
     \<lparr>bus_rd = \<lambda>a s. let (v, h) = bus_rd b a (fst s) in (v, (h, snd s)),
      bus_wr = \<lambda>a v s. (bus_wr b a v (fst s), snd s @ [(a, v)])\<rparr>"

definition written :: "u32 \<Rightarrow> (u32 \<times> u8) list \<Rightarrow> u8 list" where
  "written a l = map snd (filter (\<lambda>w. fst w = a) l)"

definition reg_addr :: "mpi_reg \<Rightarrow> u32" where
  "reg_addr r = Bank1_PEF_C + push_bit 16 (reg_off r)"

lemma reg_addr_inj: "reg_addr r = reg_addr r' \<longleftrightarrow> r = r'"
  by (cases r; cases r') (simp_all add: reg_addr_def)

lemma written_append [simp]: "written a (l @ l') = written a l @ written a l'"
  by (simp add: written_def)

lemma written_one [simp]: "written a [(x, v)] = (if x = a then [v] else [])"
  by (simp add: written_def)

lemma written_pairs [simp]: "written a (map (Pair x) vs) = (if x = a then vs else [])"
  by (simp add: written_def filter_map comp_def)

lemma logged_wr [simp]:
  "snd (MPI_WriteReg (logged b) a v s) = snd s @ [(mpi_addr a, v)]"
  by (simp add: MPI_WriteReg_def logged_def)

lemma logged_rd [simp]: "snd (snd (MPI_ReadReg (logged b) a s)) = snd s"
  by (simp add: MPI_ReadReg_def logged_def case_prod_beta)

end
