(* ===== verification/Pef_Dev.thy ===== *)
theory Pef_Dev
  imports Mpi_Bus
begin

text \<open>
  The state of one modem driver instance (\<open>PEF24628E_DEV_t\<close> of
  \<open>drv_pef24628e_api.h\<close>) and register access through it.

  The receive FIFO is 20 blocks of 132 bytes that all lie in one array
  (\<open>g_FifoBuffer\<close>): \<open>pData\<close> of a block is its offset there, so a write past the end
  of a block would land in its neighbour.  The pointers \<open>pRxFifoWrite\<close> and
  \<open>pRxFifoRead\<close> are block indices \<open>wrI\<close> and \<open>rdI\<close>.  The transmit buffer \<open>TxBuf\<close> is
  the 132 bytes \<open>Pef24628e_MPI_Init\<close> allocates for \<open>TxFifo.pData\<close>.  \<open>hw\<close> is the chip;
  \<open>oob\<close> is set by a store outside one of the two arrays or a read outside \<open>TxBuf\<close>, and
  \<open>overread\<close> by a read outside the FIFO memory, which finds whatever lies there: \<open>beyond\<close>.  Fields the
  compiled code never reads or writes (the disabled HDLC interface, the
  SCI monitor, open counts) are left out.
\<close>

definition PEF24628E_MSG_SIZE :: nat where "PEF24628E_MSG_SIZE = 132"
definition PEF24628E_REC_FIFO_BLK_NUM :: nat where "PEF24628E_REC_FIFO_BLK_NUM = 20"
definition PEF24628E_SCI_FIFO_SIZE :: nat where "PEF24628E_SCI_FIFO_SIZE = 64"
definition SEND_MSG_MAX_REP_NUMBER :: nat where "SEND_MSG_MAX_REP_NUMBER = 2"
definition PEF24628E_IF_SCI :: nat where "PEF24628E_IF_SCI = 0"
definition PEF24628E_IF_MPI :: nat where "PEF24628E_IF_MPI = 1"
definition PEF24628E_IF_LAST :: nat where "PEF24628E_IF_LAST = 2"

lemmas pef_sizes [simp] =
  PEF24628E_MSG_SIZE_def PEF24628E_REC_FIFO_BLK_NUM_def PEF24628E_SCI_FIFO_SIZE_def
  SEND_MSG_MAX_REP_NUMBER_def PEF24628E_IF_SCI_def PEF24628E_IF_MPI_def PEF24628E_IF_LAST_def

definition PEF24628E_ADR_HOST :: u8 where "PEF24628E_ADR_HOST = 0xF3"
definition PEF24628E_ADR_RAMSHELL :: u8 where "PEF24628E_ADR_RAMSHELL = 0x05"
definition PEF24628E_ADR_AUX :: u8 where "PEF24628E_ADR_AUX = 0x09"
definition PEF24628E_ADR_IDC_CTRLR :: u8 where "PEF24628E_ADR_IDC_CTRLR = 0x01"
definition PEF24628E_ADR_IDC_RAMSHELL :: u8 where "PEF24628E_ADR_IDC_RAMSHELL = 0x08"

definition PEF24628E_ADR_DEVICE :: "u8 \<Rightarrow> u8" where
  "PEF24628E_ADR_DEVICE dev = push_bit 4 dev AND 0xF0"

lemmas pef_addrs =
  PEF24628E_ADR_HOST_def PEF24628E_ADR_RAMSHELL_def PEF24628E_ADR_AUX_def
  PEF24628E_ADR_IDC_CTRLR_def PEF24628E_ADR_IDC_RAMSHELL_def PEF24628E_ADR_DEVICE_def

record rx_blk =
  pData :: nat
  nBytes :: nat
  viaBridge :: bool

datatype sci_rx_state = SCI_RX_IDLE | SCI_RX_ACTIVE | SCI_RX_ERROR

record 'h dev =
  ActiveIf :: nat
  bInit :: bool
  wrI :: nat
  rdI :: nat
  bRxFifoFull :: bool
  RxFifo :: "rx_blk list"
  FifoBuffer :: "u8 list"
  SciRxState :: sci_rx_state
  TxBuf :: "u8 list"
  TxnBytes :: nat
  TxnSent :: nat
  txErr :: bool
  bTxAckReceived :: bool
  bNeedWakeUp :: bool
  TxOddEven :: int
  TxLastAckOddEven :: int
  RxOddEven :: int
  last_rs_value :: u32
  last_aux_value :: u32
  nDevAddress :: u8
  bSendIdcViaSciBridge :: bool
  irq_vector :: int
  uc_reg :: u32
  uLastCmdId :: u16
  uLastAckId :: u32
  uLastCmdTcId :: u16
  uStatistics :: u32
  bFwDownloaded :: bool
  hw :: 'h
  oob :: bool
  overread :: bool
  beyond :: "nat \<Rightarrow> u8"

section \<open>Register access\<close>

definition REG_GET :: "'h bus \<Rightarrow> mpi_reg \<Rightarrow> 'h dev \<Rightarrow> u8 \<times> 'h dev" where
  "REG_GET b r d =
     (let (v, h) = MPI_ReadReg b (uc_reg d + reg_off r) (hw d) in (v, d\<lparr>hw := h\<rparr>))"

definition REG_SET :: "'h bus \<Rightarrow> mpi_reg \<Rightarrow> u8 \<Rightarrow> 'h dev \<Rightarrow> 'h dev" where
  "REG_SET b r v d = d\<lparr>hw := MPI_WriteReg b (uc_reg d + reg_off r) v (hw d)\<rparr>"

definition BFLD :: "'h bus \<Rightarrow> mpi_reg \<Rightarrow> u8 \<Rightarrow> u8 \<Rightarrow> 'h dev \<Rightarrow> 'h dev" where
  "BFLD b r m val d =
     (let (v, d1) = REG_GET b r d in REG_SET b r ((v AND NOT m) OR (val AND m)) d1)"

text \<open>The loops that move \<open>n\<close> bytes through one FIFO register.\<close>

fun rd_n :: "'h bus \<Rightarrow> u32 \<Rightarrow> nat \<Rightarrow> 'h \<Rightarrow> u8 list \<times> 'h" where
  "rd_n b a 0 h = ([], h)"
| "rd_n b a (Suc n) h =
     (let (v, h1) = MPI_ReadReg b a h; (vs, h2) = rd_n b a n h1 in (v # vs, h2))"

fun wr_list :: "'h bus \<Rightarrow> u32 \<Rightarrow> u8 list \<Rightarrow> 'h \<Rightarrow> 'h" where
  "wr_list b a [] h = h"
| "wr_list b a (v # vs) h = wr_list b a vs (MPI_WriteReg b a v h)"

definition REG_GET_n :: "'h bus \<Rightarrow> mpi_reg \<Rightarrow> nat \<Rightarrow> 'h dev \<Rightarrow> u8 list \<times> 'h dev" where
  "REG_GET_n b r n d =
     (let (vs, h) = rd_n b (uc_reg d + reg_off r) n (hw d) in (vs, d\<lparr>hw := h\<rparr>))"

definition REG_SET_list :: "'h bus \<Rightarrow> mpi_reg \<Rightarrow> u8 list \<Rightarrow> 'h dev \<Rightarrow> 'h dev" where
  "REG_SET_list b r vs d = d\<lparr>hw := wr_list b (uc_reg d + reg_off r) vs (hw d)\<rparr>"

lemma length_rd_n [simp]: "length (fst (rd_n b a n h)) = n"
  by (induction n arbitrary: h) (auto split: prod.splits simp: prod_eq_iff)

lemma length_REG_GET_n [simp]: "length (fst (REG_GET_n b r n d)) = n"
  by (simp add: REG_GET_n_def split: prod.splits) (metis fst_conv length_rd_n)

text \<open>
  Every register access is a change of the chip's state and of nothing else.  The
  bundle turns accesses into explicit updates of \<open>hw\<close>.
\<close>

lemmas reg_access = REG_GET_def REG_SET_def BFLD_def REG_GET_n_def REG_SET_list_def case_prod_beta Let_def

section \<open>Blocks of the receive FIFO\<close>

definition next_blk :: "nat \<Rightarrow> nat" where
  "next_blk i = (if i + 1 \<ge> PEF24628E_REC_FIFO_BLK_NUM then 0 else i + 1)"

definition wr_blk :: "'h dev \<Rightarrow> rx_blk" where
  "wr_blk d = RxFifo d ! wrI d"

definition upd_wr_blk :: "(rx_blk \<Rightarrow> rx_blk) \<Rightarrow> 'h dev \<Rightarrow> 'h dev" where
  "upd_wr_blk f d = d\<lparr>RxFifo := (RxFifo d)[wrI d := f (wr_blk d)]\<rparr>"

text \<open>Stores into the FIFO memory; \<open>oob\<close> records a store past its end.\<close>

definition fifo_put :: "nat \<Rightarrow> u8 list \<Rightarrow> 'h dev \<Rightarrow> 'h dev" where
  "fifo_put off bs d =
     d\<lparr>FifoBuffer := buf_put off bs (FifoBuffer d),
       oob := (oob d \<or> length (FifoBuffer d) < off + length bs)\<rparr>"

text \<open>
  Reads of the FIFO memory: the byte at an offset, and the mark that the \<open>n\<close> bytes from \<open>off\<close> on are read.
\<close>

definition fifo_byte :: "'h dev \<Rightarrow> nat \<Rightarrow> u8" where
  "fifo_byte d i = (if i < length (FifoBuffer d) then FifoBuffer d ! i else beyond d i)"

definition fifo_look :: "nat \<Rightarrow> nat \<Rightarrow> 'h dev \<Rightarrow> 'h dev" where
  "fifo_look off n d = d\<lparr>overread := (overread d \<or> length (FifoBuffer d) < off + n)\<rparr>"

definition tx_put :: "nat \<Rightarrow> u8 list \<Rightarrow> 'h dev \<Rightarrow> 'h dev" where
  "tx_put off bs d =
     d\<lparr>TxBuf := buf_put off bs (TxBuf d),
       oob := (oob d \<or> length (TxBuf d) < off + length bs)\<rparr>"

lemma next_blk_less [simp]: "next_blk i < 20"
  by (simp add: next_blk_def)

lemma next_blk_mod: "i < 20 \<Longrightarrow> next_blk i = (i + 1) mod 20"
  by (cases "i = 19") (auto simp: next_blk_def)

section \<open>The well-formedness invariant\<close>

text \<open>
  Every block is the 132 bytes at its own place, holds at most 132 of them, the
  two pointers are blocks, what is still to be transmitted lies in the transmit
  buffer, and no store has left an array.
\<close>

definition dev_wf :: "'h dev \<Rightarrow> bool" where
  "dev_wf d \<longleftrightarrow>
     length (RxFifo d) = 20 \<and>
     (\<forall>i < 20. pData (RxFifo d ! i) = i * 132 \<and> nBytes (RxFifo d ! i) \<le> 132) \<and>
     length (FifoBuffer d) = 2640 \<and> wrI d < 20 \<and> rdI d < 20 \<and>
     length (TxBuf d) = 132 \<and> TxnSent d + TxnBytes d \<le> 132 \<and> \<not> oob d"

lemma dev_wfD:
  assumes "dev_wf d"
  shows "length (RxFifo d) = 20" "length (FifoBuffer d) = 2640" "wrI d < 20" "rdI d < 20"
    "length (TxBuf d) = 132" "TxnSent d + TxnBytes d \<le> 132" "\<not> oob d"
  using assms by (simp_all add: dev_wf_def)

lemma dev_wf_blk:
  assumes "dev_wf d" and "i < 20"
  shows "pData (RxFifo d ! i) = i * 132" "nBytes (RxFifo d ! i) \<le> 132"
  using assms by (simp_all add: dev_wf_def)

lemma dev_wf_wr_blk:
  assumes "dev_wf d"
  shows "pData (wr_blk d) = wrI d * 132" "nBytes (wr_blk d) \<le> 132"
    "pData (wr_blk d) + 132 \<le> 2640"
  using assms dev_wf_blk [OF assms, of "wrI d"] dev_wfD(3) [OF assms]
  by (simp_all add: wr_blk_def)

text \<open>Updates that cannot disturb the invariant, as rewrite rules.\<close>

lemma dev_wf_simps [simp]:
  "dev_wf (d\<lparr>hw := h\<rparr>) = dev_wf d" "dev_wf (d\<lparr>txErr := b\<rparr>) = dev_wf d"
  "dev_wf (d\<lparr>bTxAckReceived := b\<rparr>) = dev_wf d" "dev_wf (d\<lparr>bNeedWakeUp := b\<rparr>) = dev_wf d"
  "dev_wf (d\<lparr>TxOddEven := n\<rparr>) = dev_wf d" "dev_wf (d\<lparr>TxLastAckOddEven := n\<rparr>) = dev_wf d"
  "dev_wf (d\<lparr>RxOddEven := n\<rparr>) = dev_wf d" "dev_wf (d\<lparr>last_rs_value := w\<rparr>) = dev_wf d"
  "dev_wf (d\<lparr>last_aux_value := w\<rparr>) = dev_wf d" "dev_wf (d\<lparr>uStatistics := w\<rparr>) = dev_wf d"
  "dev_wf (d\<lparr>uLastCmdId := c\<rparr>) = dev_wf d" "dev_wf (d\<lparr>uLastCmdTcId := c\<rparr>) = dev_wf d"
  "dev_wf (d\<lparr>uLastAckId := w\<rparr>) = dev_wf d" "dev_wf (d\<lparr>SciRxState := s\<rparr>) = dev_wf d"
  "dev_wf (d\<lparr>bRxFifoFull := b\<rparr>) = dev_wf d" "dev_wf (d\<lparr>bSendIdcViaSciBridge := b\<rparr>) = dev_wf d"
  "dev_wf (d\<lparr>bFwDownloaded := b\<rparr>) = dev_wf d" "dev_wf (d\<lparr>bInit := b\<rparr>) = dev_wf d"
  "dev_wf (d\<lparr>ActiveIf := k\<rparr>) = dev_wf d" "dev_wf (d\<lparr>nDevAddress := a\<rparr>) = dev_wf d"
  "dev_wf (d\<lparr>irq_vector := n\<rparr>) = dev_wf d" "dev_wf (d\<lparr>uc_reg := w\<rparr>) = dev_wf d"
  "dev_wf (d\<lparr>overread := q\<rparr>) = dev_wf d" "dev_wf (d\<lparr>beyond := g\<rparr>) = dev_wf d"
  by (simp_all add: dev_wf_def)

lemma fifo_look_wf [simp]: "dev_wf (fifo_look off n d) = dev_wf d"
  by (simp add: fifo_look_def)

lemma fifo_look_sel [simp]:
  "RxFifo (fifo_look off n d) = RxFifo d" "FifoBuffer (fifo_look off n d) = FifoBuffer d" "wrI (fifo_look off n d) = wrI d"
  "rdI (fifo_look off n d) = rdI d" "bRxFifoFull (fifo_look off n d) = bRxFifoFull d" "bInit (fifo_look off n d) = bInit d"
  "wr_blk (fifo_look off n d) = wr_blk d" "ActiveIf (fifo_look off n d) = ActiveIf d" "hw (fifo_look off n d) = hw d"
  "uc_reg (fifo_look off n d) = uc_reg d" "SciRxState (fifo_look off n d) = SciRxState d" "oob (fifo_look off n d) = oob d"
  "bSendIdcViaSciBridge (fifo_look off n d) = bSendIdcViaSciBridge d" "irq_vector (fifo_look off n d) = irq_vector d"
  by (simp_all add: fifo_look_def wr_blk_def)

text \<open>A read inside the FIFO memory leaves no mark.\<close>

lemma overread_look [simp]: "overread (fifo_look off n d) \<longleftrightarrow> overread d \<or> length (FifoBuffer d) < off + n"
  by (simp add: fifo_look_def)

lemma fifo_look_inside: "off + n \<le> length (FifoBuffer d) \<Longrightarrow> fifo_look off n d = d"
  by (simp add: fifo_look_def)

lemma look_inside:
  assumes "dev_wf d" and "i < 20" and "k \<le> 132"
  shows "fifo_look (pData (RxFifo d ! i)) k d = d"
  using assms by (intro fifo_look_inside) (simp add: dev_wfD(2) dev_wf_blk(1))

lemma REG_GET_wf [simp]: "dev_wf (snd (REG_GET b r d)) = dev_wf d"
  by (simp add: reg_access)

lemma REG_GET_n_wf [simp]: "dev_wf (snd (REG_GET_n b r n d)) = dev_wf d"
  by (simp add: reg_access)

lemma REG_SET_wf [simp]: "dev_wf (REG_SET b r v d) = dev_wf d"
  by (simp add: reg_access)

lemma REG_SET_list_wf [simp]: "dev_wf (REG_SET_list b r vs d) = dev_wf d"
  by (simp add: reg_access)

lemma BFLD_wf [simp]: "dev_wf (BFLD b r m v d) = dev_wf d"
  by (simp add: reg_access)

text \<open>
  Handlers are chains of \<open>let\<close> and \<open>if\<close> over driver states; the invariant is carried
  through a chain link by link, without unfolding it.
\<close>

lemma dev_wf_let: "dev_wf x \<Longrightarrow> (\<And>y. dev_wf y \<Longrightarrow> dev_wf (f y)) \<Longrightarrow> dev_wf (let y = x in f y)"
  by (simp add: Let_def)

lemma dev_wf_let_pair:
  "dev_wf (snd x) \<Longrightarrow> (\<And>v y. dev_wf y \<Longrightarrow> dev_wf (f v y)) \<Longrightarrow> dev_wf (let (v, y) = x in f v y)"
  by (simp add: case_prod_beta)

lemma dev_wf_let_val: "(\<And>v. dev_wf (f v)) \<Longrightarrow> dev_wf (let v = x in f v)"
  by (simp add: Let_def)

lemma dev_wf_if: "(c \<Longrightarrow> dev_wf x) \<Longrightarrow> (\<not> c \<Longrightarrow> dev_wf y) \<Longrightarrow> dev_wf (if c then x else y)"
  by simp

lemmas wf_chain = dev_wf_let dev_wf_let_pair dev_wf_if

lemma upd_wr_blk_wf [wf_intro]:
  assumes "dev_wf d" and "pData (f (wr_blk d)) = pData (wr_blk d)" and "nBytes (f (wr_blk d)) \<le> 132"
  shows "dev_wf (upd_wr_blk f d)"
  using assms by (auto simp: dev_wf_def upd_wr_blk_def nth_list_update wr_blk_def)

lemma fifo_put_wf [wf_intro]:
  "dev_wf d \<Longrightarrow> off + length bs \<le> 2640 \<Longrightarrow> dev_wf (fifo_put off bs d)"
  by (auto simp: dev_wf_def fifo_put_def)

lemma tx_put_wf [wf_intro]:
  "dev_wf d \<Longrightarrow> off + length bs \<le> 132 \<Longrightarrow> dev_wf (tx_put off bs d)"
  by (auto simp: dev_wf_def tx_put_def)

lemma tx_len_wf [wf_intro]:
  "dev_wf d \<Longrightarrow> s + n \<le> 132 \<Longrightarrow> dev_wf (d\<lparr>TxnBytes := n, TxnSent := s\<rparr>)"
  by (auto simp: dev_wf_def)

lemma wr_ptr_wf [wf_intro]: "dev_wf d \<Longrightarrow> i < 20 \<Longrightarrow> dev_wf (d\<lparr>wrI := i\<rparr>)"
  by (auto simp: dev_wf_def)

lemma rd_ptr_wf [wf_intro]: "dev_wf d \<Longrightarrow> i < 20 \<Longrightarrow> dev_wf (d\<lparr>rdI := i\<rparr>)"
  by (auto simp: dev_wf_def)

end
