(* ===== verification/Pef_Sci.thy ===== *)
theory Pef_Sci
  imports Pef_Dev
begin

text \<open>
  The serial (SCI) side of the driver, \<open>drv_pef24628e_common.c\<close>: transmission of a
  frame in pieces of 64 bytes (\<open>Pef24628e_Sci_XprInt\<close>), the acknowledge of the
  transport protocol, the analysis of a received frame, and the interrupt handlers
  that fill the receive FIFO.  Log output is left out; the SCI monitor and the
  HDLC interface are compiled out in this build (\<open>#undef\<close> in
  \<open>drv_pef24628e_interface.h\<close> and at the top of \<open>drv_pef24628e_common.c\<close>).
\<close>

section \<open>Transmission\<close>

definition Pef24628e_Sci_XprInt :: "'h bus \<Rightarrow> 'h dev \<Rightarrow> 'h dev" where
  "Pef24628e_Sci_XprInt b d =
     (let len = (if TxnBytes d > PEF24628E_SCI_FIFO_SIZE then PEF24628E_SCI_FIFO_SIZE else TxnBytes d)
      in if len = 0 then d
         else let d1 = REG_SET_list b SCI_INGRESS (buf_get (TxnSent d) len (TxBuf d)) d;
                  d2 = d1\<lparr>TxnSent := TxnSent d + len, TxnBytes := TxnBytes d - len,
                          oob := (oob d \<or> length (TxBuf d) < TxnSent d + len)\<rparr>
              in if TxnBytes d2 \<noteq> 0 then REG_SET b SCI_CTRL_H SCI_CTRL_HIGH_XTF d2
                 else REG_SET b SCI_CTRL_H (SCI_CTRL_HIGH_XTF OR SCI_CTRL_HIGH_XME) d2)"

text \<open>
  \<open>Pef24628e_Send_TP_Ack\<close>: the acknowledge is built in the transmit buffer, over
  whatever frame is there.  The odd/even comparison at its start only logs.
\<close>

definition Pef24628e_Send_TP_Ack :: "'h bus \<Rightarrow> u8 \<Rightarrow> bool \<Rightarrow> 'h dev \<Rightarrow> bool \<times> 'h dev" where
  "Pef24628e_Send_TP_Ack b Odd nak d =
     (let d1 = tx_put 0 [PEF24628E_ADR_HOST,
                 PEF24628E_ADR_DEVICE (nDevAddress d) OR PEF24628E_ADR_IDC_CTRLR,
                 (if nak then 0x8E OR Odd else 0x88 OR Odd), 0x00] d;
          d2 = d1\<lparr>TxnBytes := 4, TxnSent := 0\<rparr>
      in if ActiveIf d2 = PEF24628E_IF_MPI
         then let d3 = Pef24628e_Sci_XprInt b d2
              in (True, if nak then d3 else d3\<lparr>RxOddEven := uint Odd\<rparr>)
         else (False, d2))"

section \<open>Analysis of a received frame\<close>

definition PEF24628E_VALID_RSTA :: u8 where
  "PEF24628E_VALID_RSTA = (0x20 OR 0x80) OR 0" \<comment> \<open>\<open>!(RSTA_RAB | RSTA_RDO)\<close> is 0\<close>

definition PEF24628E_TP_GET_HEADER :: "u8 \<Rightarrow> u8 \<Rightarrow> u8" where
  "PEF24628E_TP_GET_HEADER H0 H1 = drop_bit 1 H0 OR push_bit 7 (H1 AND 1)"

definition PEF24628E_TP_ACK_MSG :: u8 where "PEF24628E_TP_ACK_MSG = 0x04"
definition PEF24628E_TP_NFC_MSG :: u8 where "PEF24628E_TP_NFC_MSG = 0x84"
definition PEF24628E_TP_POS_ACK :: u8 where "PEF24628E_TP_POS_ACK = 0x44"
definition PEF24628E_TP_NEG_ACK :: u8 where "PEF24628E_TP_NEG_ACK = 0x47"
definition PEF24628E_TP_RES_ACK :: u8 where "PEF24628E_TP_RES_ACK = 0x03"

lemmas tp_codes =
  PEF24628E_TP_ACK_MSG_def PEF24628E_TP_NFC_MSG_def PEF24628E_TP_POS_ACK_def
  PEF24628E_TP_NEG_ACK_def PEF24628E_TP_RES_ACK_def

text \<open>Acknowledges of the RAMSHELL and AUX targets: \<open>p\<close> is the offset of the block, \<open>n\<close> its length.\<close>

definition sci_process_rs_ack :: "nat \<Rightarrow> nat \<Rightarrow> 'h dev \<Rightarrow> 'h dev" where
  "sci_process_rs_ack p n d =
     (let d1 =
        (if fifo_byte d (p + 2) AND 0xF0 \<noteq> PEF24628E_VALID_RSTA then (fifo_look (p + 2) 1 d)\<lparr>txErr := True\<rparr>
         else let d2 = (fifo_look (p + 2) 1 d)\<lparr>txErr := False\<rparr>;
                  d3 = (if fifo_byte d p AND 0xF = PEF24628E_ADR_AUX
                        then if n \<ge> 4 then (fifo_look (p + 3) 1 d2)\<lparr>last_aux_value := ucast (fifo_byte d (p + 3))\<rparr>
                             else d2\<lparr>last_aux_value := 0\<rparr>
                        else d2)
              in if n > 6
                 then (fifo_look (p + 3) 4 d3)\<lparr>last_rs_value := get_le32 (fifo_byte d (p + 3)) (fifo_byte d (p + 4))
                            (fifo_byte d (p + 5)) (fifo_byte d (p + 6))\<rparr>
                 else d3)
      in d1\<lparr>bTxAckReceived := True\<rparr>)"

text \<open>The transport protocol of the IDC controller.\<close>

definition sci_process_tp :: "'h bus \<Rightarrow> nat \<Rightarrow> nat \<Rightarrow> 'h dev \<Rightarrow> bool \<times> 'h dev" where
  "sci_process_tp b p n d0 =
     (let d = fifo_look (p + 2) 2 d0;
          h = PEF24628E_TP_GET_HEADER (fifo_byte d (p + 2)) (fifo_byte d (p + 3) AND NOT 0x0F);
          odd = fifo_byte d (p + 2) AND 0x01
      in if h = PEF24628E_TP_ACK_MSG \<or> h = PEF24628E_TP_NFC_MSG then
           (if n < 8 then (False, snd (Pef24628e_Send_TP_Ack b odd True d))
            else Pef24628e_Send_TP_Ack b odd False d)
         else if h = PEF24628E_TP_POS_ACK then
           (False, d\<lparr>txErr := False, bTxAckReceived := True, TxLastAckOddEven := uint odd\<rparr>)
         else if h = PEF24628E_TP_NEG_ACK then
           (False, d\<lparr>txErr := True, bTxAckReceived := True\<rparr>)
         else if h = PEF24628E_TP_RES_ACK then
           (False, d\<lparr>TxOddEven := 0, RxOddEven := -1\<rparr>)
         else (False, d))"

definition Pef24628e_Sci_Process_Frame :: "'h bus \<Rightarrow> 'h dev \<Rightarrow> bool \<times> 'h dev" where
  "Pef24628e_Sci_Process_Frame b d0 =
     (let p = pData (wr_blk d0); n = nBytes (wr_blk d0); d = fifo_look p 2 d0; src = fifo_byte d p AND 0xF
      in if fifo_byte d (p + 1) \<noteq> PEF24628E_ADR_HOST \<and> fifo_byte d (p + 1) \<noteq> 0xFF then (False, d)
         else if src = 0x02 \<or> src = 0x06 \<or> src = 0x0A \<or> src = 0x0E then (False, d)
         else if src = PEF24628E_ADR_RAMSHELL \<or> src = PEF24628E_ADR_AUX \<or> src = PEF24628E_ADR_IDC_RAMSHELL
           then (False, sci_process_rs_ack p n d)
         else if src = PEF24628E_ADR_IDC_CTRLR then sci_process_tp b p n d
         else (False, d))"

section \<open>Interrupt handlers\<close>

text \<open>
  \<open>pRxFifoWrite++\<close> with the wrap, the full test and the masking of the receive
  interrupts: the same lines in the SCI and in the MPI handler, with their own
  enable register and bits.
\<close>

definition rx_switch_block :: "'h bus \<Rightarrow> mpi_reg \<Rightarrow> u8 \<Rightarrow> 'h dev \<Rightarrow> 'h dev" where
  "rx_switch_block b r bits d =
     (let d1 = d\<lparr>wrI := next_blk (wrI d)\<rparr>
      in if wrI d1 = rdI d1 then BFLD b r bits 0x00 (d1\<lparr>bRxFifoFull := True\<rparr>)
         else d1\<lparr>bRxFifoFull := False\<rparr>)"

definition Pef24628e_Sci_RpfInt :: "'h bus \<Rightarrow> 'h dev \<Rightarrow> 'h dev" where
  "Pef24628e_Sci_RpfInt b d =
     (let len = PEF24628E_SCI_FIFO_SIZE; off = pData (wr_blk d) + nBytes (wr_blk d);
          d4 = (if (nBytes (wr_blk d) + 1) + PEF24628E_SCI_FIFO_SIZE < PEF24628E_MSG_SIZE
                then let d1 = upd_wr_blk (\<lambda>k. k\<lparr>viaBridge := True\<rparr>) (d\<lparr>SciRxState := SCI_RX_ACTIVE\<rparr>);
                         (bs, d2) = REG_GET_n b SCI_EGRESS len d1;
                         d3 = fifo_put off bs d2
                     in upd_wr_blk (\<lambda>k. k\<lparr>nBytes := (nBytes k + len) mod 65536\<rparr>) d3
                else upd_wr_blk (\<lambda>k. k\<lparr>nBytes := 0\<rparr>) (d\<lparr>SciRxState := SCI_RX_ERROR\<rparr>))
      in REG_SET b SCI_CTRL_L SCI_CTRL_RMC (REG_SET b SCI_INT SCI_INTERRUPT_RPF d4))"

definition rme_len :: "nat \<Rightarrow> nat" where
  "rme_len len =
     (if len \<ge> PEF24628E_SCI_FIFO_SIZE \<and> len mod PEF24628E_SCI_FIFO_SIZE = 0
      then PEF24628E_SCI_FIFO_SIZE else len mod PEF24628E_SCI_FIFO_SIZE)"

text \<open>The part of \<open>Pef24628e_Sci_RmeInt\<close> that stores the last piece and hands the frame on.\<close>

definition sci_rme_store :: "'h bus \<Rightarrow> nat \<Rightarrow> 'h dev \<Rightarrow> bool \<times> 'h dev" where
  "sci_rme_store b len d =
     (let off = pData (wr_blk d) + nBytes (wr_blk d);
          d1 = upd_wr_blk (\<lambda>k. k\<lparr>viaBridge := True\<rparr>) (d\<lparr>SciRxState := SCI_RX_ACTIVE\<rparr>);
          (bs, d2) = REG_GET_n b SCI_EGRESS len d1;
          d3 = upd_wr_blk (\<lambda>k. k\<lparr>nBytes := (nBytes k + len) mod 65536\<rparr>) (fifo_put off bs d2);
          (fwd, d4) = Pef24628e_Sci_Process_Frame b d3
      in if fwd then (True, rx_switch_block b SCI_INTEN (SCI_INTERRUPT_RPF OR SCI_INTERRUPT_RME) d4)
         else (False, upd_wr_blk (\<lambda>k. k\<lparr>nBytes := 0\<rparr>) d4))"

text \<open>A frame that does not fit is discarded.\<close>

definition sci_rme_accept :: "'h bus \<Rightarrow> nat \<Rightarrow> 'h dev \<Rightarrow> bool \<times> 'h dev" where
  "sci_rme_accept b len d =
     (if (nBytes (wr_blk d) + 1) + len < PEF24628E_MSG_SIZE then sci_rme_store b len d
      else (False, upd_wr_blk (\<lambda>k. k\<lparr>nBytes := 0\<rparr>) (d\<lparr>SciRxState := SCI_RX_ERROR\<rparr>)))"

definition Pef24628e_Sci_RmeInt :: "'h bus \<Rightarrow> 'h dev \<Rightarrow> 'h dev" where
  "Pef24628e_Sci_RmeInt b d0 =
     (let (rh, d1) = REG_GET b SCI_REPORT_H d0; (rl, d) = REG_GET b SCI_REPORT_L d1;
          len = rme_len (unat (rh AND 0x0F) * 256 + unat rl);
          (WakeUp, d2) = sci_rme_accept b len d;
          d3 = REG_SET b SCI_CTRL_L SCI_CTRL_RMC (REG_SET b SCI_INT SCI_INTERRUPT_RME d2);
          d4 = (if SciRxState d3 = SCI_RX_ERROR then REG_SET b SCI_CTRL_L SCI_CTRL_RRES d3 else d3);
          d5 = (if WakeUp \<and> bNeedWakeUp d4 then d4\<lparr>bNeedWakeUp := False\<rparr> else d4)
      in d5\<lparr>SciRxState := SCI_RX_IDLE\<rparr>)"

definition sci_tx_reset :: "'h bus \<Rightarrow> 'h dev \<Rightarrow> 'h dev" where
  "sci_tx_reset b d = (REG_SET b SCI_CTRL_L SCI_CTRL_XRES d)\<lparr>TxnBytes := 0, TxnSent := 0\<rparr>"

definition Pef24628e_Sci_IntHandler :: "'h bus \<Rightarrow> 'h dev \<Rightarrow> 'h dev" where
  "Pef24628e_Sci_IntHandler b d =
     (if uc_reg d = 0 then d
      else let (i, d0) = REG_GET b SCI_INT d; (en, d1) = REG_GET b SCI_INTEN d0; ista = i AND en
      in if ista = 0 then d1
         else let
           d2 = (if ista AND SCI_INTERRUPT_XDU \<noteq> 0
                 then let e = sci_tx_reset b d1
                      in REG_SET b SCI_INT SCI_INTERRUPT_XDU (e\<lparr>uStatistics := uStatistics e OR 0x80000000\<rparr>)
                 else d1);
           d3 = (if ista AND SCI_INTERRUPT_XPR \<noteq> 0
                 then REG_SET b SCI_INT SCI_INTERRUPT_XPR (Pef24628e_Sci_XprInt b d2) else d2);
           d4 = (if ista AND SCI_INTERRUPT_RPF \<noteq> 0 then Pef24628e_Sci_RpfInt b d3 else d3);
           d5 = (if ista AND SCI_INTERRUPT_RME \<noteq> 0 then Pef24628e_Sci_RmeInt b d4 else d4);
           d6 = (if ista AND SCI_INTERRUPT_RFO \<noteq> 0
                 then REG_SET b SCI_INT SCI_INTERRUPT_RFO
                        (upd_wr_blk (\<lambda>k. k\<lparr>nBytes := 0\<rparr>) (REG_SET b SCI_CTRL_L SCI_CTRL_RRES d5))
                 else d5)
         in if ista AND SCI_INTERRUPT_XDOV \<noteq> 0
            then REG_SET b SCI_INT SCI_INTERRUPT_XDOV (sci_tx_reset b d6) else d6)"

section \<open>The handlers keep the driver state well formed\<close>

lemma tx_progress_wf [wf_intro]:
  "dev_wf d \<Longrightarrow> s + n \<le> 132 \<Longrightarrow> \<not> q \<Longrightarrow> dev_wf (d\<lparr>TxnSent := s, TxnBytes := n, oob := q\<rparr>)"
  by (auto simp: dev_wf_def)

lemma XprInt_wf [wf_intro]:
  assumes "dev_wf d"
  shows "dev_wf (Pef24628e_Sci_XprInt b d)"
proof -
  note w = dev_wfD [OF assms]
  show ?thesis
    using assms w by (auto simp: Pef24628e_Sci_XprInt_def Let_def intro!: tx_progress_wf)
qed

lemma Send_TP_Ack_wf [wf_intro]: "dev_wf d \<Longrightarrow> dev_wf (snd (Pef24628e_Send_TP_Ack b p nak d))"
  by (auto simp: Pef24628e_Send_TP_Ack_def Let_def intro!: wf_intro)

lemma sci_process_rs_ack_wf [wf_intro]: "dev_wf d \<Longrightarrow> dev_wf (sci_process_rs_ack p n d)"
  by (auto simp: sci_process_rs_ack_def Let_def)

lemma sci_process_tp_wf [wf_intro]: "dev_wf d \<Longrightarrow> dev_wf (snd (sci_process_tp b p n d))"
  by (auto simp: sci_process_tp_def Let_def intro!: wf_intro)

lemma Process_Frame_wf [wf_intro]: "dev_wf d \<Longrightarrow> dev_wf (snd (Pef24628e_Sci_Process_Frame b d))"
  by (auto simp: Pef24628e_Sci_Process_Frame_def Let_def intro!: wf_intro)

lemma rx_switch_block_wf [wf_intro]: "dev_wf d \<Longrightarrow> dev_wf (rx_switch_block b r m d)"
  by (auto simp: rx_switch_block_def Let_def dest: dev_wfD(4) intro!: wf_intro)

text \<open>
  Appending to the current block: the position of the next byte does not depend on
  the chip, so the store of \<open>n\<close> received bytes stays in the block when there is room.
\<close>

lemma rx_store_wf:
  assumes "dev_wf d" and room: "nBytes (wr_blk d) + n \<le> 132" and "length bs = n"
  shows "dev_wf (upd_wr_blk (\<lambda>k. k\<lparr>nBytes := (nBytes k + n) mod 65536\<rparr>)
           (fifo_put (pData (wr_blk d) + nBytes (wr_blk d)) bs
             ((upd_wr_blk (\<lambda>k. k\<lparr>viaBridge := v\<rparr>) (d\<lparr>SciRxState := s\<rparr>))\<lparr>hw := h\<rparr>)))"
proof -
  note w = dev_wf_wr_blk [OF assms(1)] dev_wfD [OF assms(1)]
  let ?d1 = "(upd_wr_blk (\<lambda>k. k\<lparr>viaBridge := v\<rparr>) (d\<lparr>SciRxState := s\<rparr>))\<lparr>hw := h\<rparr>"
  let ?d2 = "fifo_put (pData (wr_blk d) + nBytes (wr_blk d)) bs ?d1"
  have "dev_wf ?d1"
    using assms(1) w by (simp add: upd_wr_blk_wf wr_blk_def)
  then have "dev_wf ?d2"
    by (rule fifo_put_wf) (use w room assms(3) in simp)
  moreover have "nBytes (wr_blk ?d2) = nBytes (wr_blk d)"
    using w by (simp add: wr_blk_def fifo_put_def upd_wr_blk_def)
  ultimately show ?thesis
    using room by (intro upd_wr_blk_wf) simp_all
qed

lemma upd_wr_blk_sel [simp]:
  "uc_reg (upd_wr_blk f d) = uc_reg d" "hw (upd_wr_blk f d) = hw d" "SciRxState (upd_wr_blk f d) = SciRxState d"
  by (simp_all add: upd_wr_blk_def)

lemma Sci_RpfInt_wf [wf_intro]:
  assumes "dev_wf d"
  shows "dev_wf (Pef24628e_Sci_RpfInt b d)"
proof -
  obtain bs h where bs: "rd_n b (uc_reg d + reg_off SCI_EGRESS) 64 (hw d) = (bs, h)"
    by fastforce
  then have n: "length bs = 64" by (metis fst_conv length_rd_n)
  show ?thesis
    using assms bs rx_store_wf [OF assms _ n, where v = True and s = SCI_RX_ACTIVE and h = h]
    by (auto simp: Pef24628e_Sci_RpfInt_def Let_def REG_GET_n_def wr_blk_def intro!: upd_wr_blk_wf)
qed

lemma sci_rme_store_wf:
  assumes "dev_wf d" and "nBytes (wr_blk d) + len \<le> 132"
  shows "dev_wf (snd (sci_rme_store b len d))"
proof -
  obtain bs h where bs: "rd_n b (uc_reg d + reg_off SCI_EGRESS) len (hw d) = (bs, h)"
    by fastforce
  then have n: "length bs = len" by (metis fst_conv length_rd_n)
  let ?d3 = "upd_wr_blk (\<lambda>k. k\<lparr>nBytes := (nBytes k + len) mod 65536\<rparr>)
      (fifo_put (pData (wr_blk d) + nBytes (wr_blk d)) bs
        ((upd_wr_blk (\<lambda>k. k\<lparr>viaBridge := True\<rparr>) (d\<lparr>SciRxState := SCI_RX_ACTIVE\<rparr>))\<lparr>hw := h\<rparr>))"
  have "dev_wf ?d3" using rx_store_wf [OF assms n] .
  then have "dev_wf (snd (Pef24628e_Sci_Process_Frame b ?d3))" by (rule Process_Frame_wf)
  then show ?thesis
    using bs by (auto simp: sci_rme_store_def Let_def REG_GET_n_def split: prod.splits
        intro!: wf_intro)
qed

lemma sci_rme_accept_wf [wf_intro]: "dev_wf d \<Longrightarrow> dev_wf (snd (sci_rme_accept b len d))"
  by (auto simp: sci_rme_accept_def wr_blk_def intro!: sci_rme_store_wf upd_wr_blk_wf)

lemma Sci_RmeInt_wf [wf_intro]: "dev_wf d \<Longrightarrow> dev_wf (Pef24628e_Sci_RmeInt b d)"
  by (auto simp: Pef24628e_Sci_RmeInt_def Let_def case_prod_beta intro!: sci_rme_accept_wf)

lemma sci_tx_reset_wf [wf_intro]: "dev_wf d \<Longrightarrow> dev_wf (sci_tx_reset b d)"
  by (auto simp: sci_tx_reset_def intro!: tx_len_wf)

lemma Sci_IntHandler_wf [wf_intro]: "dev_wf d \<Longrightarrow> dev_wf (Pef24628e_Sci_IntHandler b d)"
  unfolding Pef24628e_Sci_IntHandler_def
  by (intro wf_chain dev_wf_let_val XprInt_wf Sci_RpfInt_wf Sci_RmeInt_wf upd_wr_blk_wf
      sci_tx_reset_wf REG_SET_wf [THEN iffD2] dev_wf_simps [THEN iffD2] REG_GET_wf [THEN iffD2])
     (simp_all add: wr_blk_def)

end
