(* ===== verification/Queue_Iface.thy ===== *)
theory Queue_Iface
  imports Prelude
begin

text \<open>
  The contract of a bounded first-in first-out buffer.  The firmware has several
  (the receive FIFO of the modem driver, the mailbox between the polling thread
  and the state machine thread); each is a ring with its own representation, and
  what their users rely on is stated once here: a store below capacity appends,
  a fetch from a non-empty buffer takes the oldest entry, the emptiness test is
  exact.  The capacity is the number of entries up to which the laws hold.
\<close>

datatype 'a qop = Store 'a | Fetch

fun stored :: "'a qop list \<Rightarrow> 'a list" where
  "stored [] = []"
| "stored (Store x # ops) = x # stored ops"
| "stored (Fetch # ops) = stored ops"

text \<open>
  A run of stores and fetches over given operations; a fetch is made only when the
  test says there is an entry.  \<open>fits\<close> says that every stored entry is admitted and
  that the occupancy, \<open>n\<close> at the start, never passes the capacity.
\<close>

fun qrun :: "('a \<Rightarrow> 'q \<Rightarrow> 'q) \<Rightarrow> ('q \<Rightarrow> bool) \<Rightarrow> ('q \<Rightarrow> 'a \<times> 'q) \<Rightarrow> 'a qop list \<Rightarrow> 'q \<Rightarrow> 'a list \<times> 'q" where
  "qrun enq emp deq [] q = ([], q)"
| "qrun enq emp deq (Store x # ops) q = qrun enq emp deq ops (enq x q)"
| "qrun enq emp deq (Fetch # ops) q =
     (if emp q then qrun enq emp deq ops q
      else let (x, q') = deq q; (out, q'') = qrun enq emp deq ops q' in (x # out, q''))"

fun fits :: "('a \<Rightarrow> bool) \<Rightarrow> nat \<Rightarrow> 'a qop list \<Rightarrow> nat \<Rightarrow> bool" where
  "fits admit cap [] n \<longleftrightarrow> True"
| "fits admit cap (Store x # ops) n \<longleftrightarrow> admit x \<and> n < cap \<and> fits admit cap ops (Suc n)"
| "fits admit cap (Fetch # ops) n \<longleftrightarrow> fits admit cap ops (n - 1)"

locale bounded_queue =
  fixes inv :: "'q \<Rightarrow> bool"
    and contents :: "'q \<Rightarrow> 'a list"
    and cap :: nat
    and admit :: "'a \<Rightarrow> bool"
    and enq :: "'a \<Rightarrow> 'q \<Rightarrow> 'q"
    and is_empty :: "'q \<Rightarrow> bool"
    and deq :: "'q \<Rightarrow> 'a \<times> 'q"
  assumes enq_inv: "inv q \<Longrightarrow> admit x \<Longrightarrow> length (contents q) < cap \<Longrightarrow> inv (enq x q)"
    and enq_contents:
      "inv q \<Longrightarrow> admit x \<Longrightarrow> length (contents q) < cap \<Longrightarrow> contents (enq x q) = contents q @ [x]"
    and empty_iff: "inv q \<Longrightarrow> is_empty q \<longleftrightarrow> contents q = []"
    and deq_inv: "inv q \<Longrightarrow> length (contents q) \<le> cap \<Longrightarrow> contents q \<noteq> [] \<Longrightarrow> inv (snd (deq q))"
    and deq_contents:
      "inv q \<Longrightarrow> length (contents q) \<le> cap \<Longrightarrow> contents q \<noteq> [] \<Longrightarrow>
         fst (deq q) # contents (snd (deq q)) = contents q"
begin

lemma run_fifo:
  "inv q \<Longrightarrow> length (contents q) \<le> cap \<Longrightarrow> fits admit cap ops (length (contents q)) \<Longrightarrow>
     inv (snd (qrun enq is_empty deq ops q)) \<and>
     contents q @ stored ops = fst (qrun enq is_empty deq ops q) @ contents (snd (qrun enq is_empty deq ops q))"
proof (induction ops arbitrary: q)
  case Nil
  then show ?case by simp
next
  case (Cons a ops)
  show ?case
  proof (cases a)
    case (Store x)
    with Cons.prems have x: "admit x" "length (contents q) < cap"
        "fits admit cap ops (Suc (length (contents q)))"
      by auto
    have e: "contents (enq x q) = contents q @ [x]" "inv (enq x q)"
      using Cons.prems(1) x by (simp_all add: enq_contents enq_inv)
    show ?thesis using Cons.IH [OF e(2)] x e(1) Store by simp
  next
    case Fetch
    show ?thesis
    proof (cases "contents q = []")
      case True
      then show ?thesis
        using Cons.prems Cons.IH [of q] Fetch by (simp add: empty_iff)
    next
      case False
      obtain x q' where d: "deq q = (x, q')" by fastforce
      have q': "x # contents q' = contents q" "inv q'"
        using deq_contents [OF Cons.prems(1,2) False] deq_inv [OF Cons.prems(1,2) False] d
        by simp_all
      then have n: "length (contents q') = length (contents q) - 1"
        by (metis diff_Suc_1 length_Cons)
      have "inv (snd (qrun enq is_empty deq ops q')) \<and>
          contents q' @ stored ops = fst (qrun enq is_empty deq ops q') @ contents (snd (qrun enq is_empty deq ops q'))"
        using Cons.IH [OF q'(2)] Cons.prems(2,3) Fetch n by simp
      moreover have "qrun enq is_empty deq (a # ops) q = (x # fst (qrun enq is_empty deq ops q'), snd (qrun enq is_empty deq ops q'))"
        using Fetch d False Cons.prems(1) by (simp add: empty_iff split: prod.splits)
      ultimately show ?thesis
        using Fetch by (simp add: q'(1) [symmetric])
    qed
  qed
qed

text \<open>From an empty buffer the fetched entries are an initial part of the stored ones.\<close>

lemma run_prefix:
  assumes "inv q" and "contents q = []" and "fits admit cap ops 0"
  shows "stored ops = fst (qrun enq is_empty deq ops q) @ contents (snd (qrun enq is_empty deq ops q))"
  using run_fifo [of q ops] assms by simp

end

section \<open>Entries of a ring\<close>

text \<open>\<open>k\<close> entries of a buffer of \<open>n\<close> places from place \<open>r\<close> on, going round at the end.\<close>

definition ring_list :: "'a list \<Rightarrow> nat \<Rightarrow> nat \<Rightarrow> nat \<Rightarrow> 'a list" where
  "ring_list buf r k n = map (\<lambda>i. buf ! ((r + i) mod n)) [0..<k]"

lemma length_ring_list [simp]: "length (ring_list buf r k n) = k"
  by (simp add: ring_list_def)

lemma ring_list_Nil [simp]: "ring_list buf r 0 n = []"
  by (simp add: ring_list_def)

lemma mod_add_inj:
  assumes "(r + k) mod n = (r + j) mod n" and "k < n" and "j < n"
  shows "k = (j :: nat)"
  using assms
proof (induction k j rule: linorder_wlog)
  case (le k j)
  then have "n dvd (r + j) - (r + k)"
    by (metis mod_eq_dvd_iff_nat add_le_cancel_left)
  then show ?case using le by (auto dest: dvd_imp_le)
qed simp

lemma ring_list_store:
  assumes "k < n" and "length buf = n"
  shows "ring_list (buf[(r + k) mod n := v]) r (Suc k) n = ring_list buf r k n @ [v]"
proof (rule nth_equalityI)
  fix i assume "i < length (ring_list (buf[(r + k) mod n := v]) r (Suc k) n)"
  then have i: "i < Suc k" by simp
  have "(r + i) mod n \<noteq> (r + k) mod n" if "i < k"
    using mod_add_inj[of r i n k] that assms(1) by auto
  then show "ring_list (buf[(r + k) mod n := v]) r (Suc k) n ! i = (ring_list buf r k n @ [v]) ! i"
    using i assms by (cases "i = k") (auto simp: ring_list_def nth_append simp del: upt_Suc)
qed simp

lemma ring_list_fetch:
  assumes "r < n"
  shows "ring_list buf r (Suc k) n = buf ! r # ring_list buf (Suc r mod n) k n"
proof -
  have "(Suc r mod n + i) mod n = (r + Suc i) mod n" for i by (simp add: mod_simps)
  then show ?thesis
    using assms by (simp add: ring_list_def map_upt_Suc_shift del: upt_Suc)
qed

end
