(* ===== verification/Pef_Rx.thy ===== *)
theory Pef_Rx
  imports Pef_Sci Queue_Iface
begin

text \<open>
  The receive path of the driver (\<open>drv_pef24628e_common.c\<close>): the MPI receive
  interrupt, the top-level interrupt handler, the poll check and
  \<open>Pef24628e_Get_IDC_Msg\<close>.  The second half shows that the path keeps the driver
  state well formed and that, as long as it has not filled up, the FIFO of blocks is
  a first-in first-out queue of messages; the last section shows what happens after
  it did fill up.
\<close>

section \<open>MPI receive interrupt\<close>

definition idc_hdr_id :: "u8 \<Rightarrow> u8 \<Rightarrow> u16" where
  "idc_hdr_id p0 p1 = push_bit 3 (ucast p1) OR drop_bit 5 (ucast (p0 AND 0xE0))"

definition idc_hdr_tcid :: "u8 \<Rightarrow> u8 \<Rightarrow> u16" where
  "idc_hdr_tcid p2 p3 = push_bit 8 (ucast (p3 AND 0x07)) OR ucast p2"

text \<open>
  Bits of \<open>uStatistics\<close>: 0 a command waits for its acknowledge, 1 an acknowledge
  without a command, 2 an acknowledge with another transaction id.
\<close>

definition mpi_track_ack :: "u16 \<Rightarrow> u16 \<Rightarrow> 'h dev \<Rightarrow> 'h dev" where
  "mpi_track_ack nMsgId nTcId d =
     (if (nMsgId AND NOT 0x0600) = uLastCmdId d \<and> nMsgId < 0x500
      then let d1 = (if nTcId \<noteq> uLastCmdTcId d then d\<lparr>uStatistics := uStatistics d OR 4\<rparr>
                     else if uStatistics d AND 1 = 0 then d\<lparr>uStatistics := uStatistics d OR 2\<rparr>
                     else d\<lparr>uStatistics := uStatistics d AND NOT 1\<rparr>)
           in d1\<lparr>uLastAckId := ucast nMsgId\<rparr>
      else d)"

text \<open>
  The bytes \<open>bs\<close> that were read from \<open>MPI_EGRESS\<close> go into the write block, the
  acknowledge bookkeeping looks at their header, and the block is closed.  The header is the four bytes
  at the place the bytes were stored, also when fewer were stored: a block that is full is
  read behind its end.
\<close>

definition mpi_rx_commit :: "'h bus \<Rightarrow> u8 list \<Rightarrow> 'h dev \<Rightarrow> 'h dev" where
  "mpi_rx_commit b bs d =
     (let off = pData (wr_blk d) + nBytes (wr_blk d);
          d1 = fifo_put off bs (upd_wr_blk (\<lambda>k. k\<lparr>viaBridge := False\<rparr>) d);
          d2 = (if bFwDownloaded d1
                then mpi_track_ack (idc_hdr_id (fifo_byte d1 off) (fifo_byte d1 (off + 1)))
                       (idc_hdr_tcid (fifo_byte d1 (off + 2)) (fifo_byte d1 (off + 3))) (fifo_look off 4 d1)
                else d1);
          d3 = upd_wr_blk (\<lambda>k. k\<lparr>nBytes := (nBytes k + length bs) mod 65536\<rparr>) d2;
          d4 = rx_switch_block b MPI_EINT_EN MPI_MPINT_INTIDC d3
      in if bNeedWakeUp d4 then d4\<lparr>bNeedWakeUp := False\<rparr> else d4)"

text \<open>
  \<open>len\<close> is a C \<open>int\<close>: the tail of a message that does not fit is dropped.  The last
  branch is the one the source marks as never taken.
\<close>

definition mpi_rx_len :: "nat \<Rightarrow> nat \<Rightarrow> int" where
  "mpi_rx_len n len = (if int n + int len > int PEF24628E_MSG_SIZE
                       then int PEF24628E_MSG_SIZE - int n else int len)"

definition Pef24628e_Mpi_RxInt :: "'h bus \<Rightarrow> 'h dev \<Rightarrow> 'h dev" where
  "Pef24628e_Mpi_RxInt b d =
     (let (v, d1) = REG_GET b MPI_EFSTAT d; len0 = 4 * unat (v AND 0x3F)
      in if len0 = 0 then d1
         else let len = mpi_rx_len (nBytes (wr_blk d1)) len0
              in if int (nBytes (wr_blk d1)) + len \<le> int PEF24628E_MSG_SIZE
                 then let (bs, d2) = REG_GET_n b MPI_EGRESS (nat len) d1 in mpi_rx_commit b bs d2
                 else snd (REG_GET_n b MPI_EGRESS PEF24628E_MSG_SIZE
                             (upd_wr_blk (\<lambda>k. k\<lparr>nBytes := 0\<rparr>) d1)))"

section \<open>Interrupt handler and poll check\<close>

definition Pef24628e_IntHandler :: "'h bus \<Rightarrow> 'h dev \<Rightarrow> 'h dev" where
  "Pef24628e_IntHandler b d =
     (if uc_reg d = 0 then d
      else let (i, d0) = REG_GET b MPI_EINT d; (en, d1) = REG_GET b MPI_EINT_EN d0; ista = i AND en
      in if ista = 0 then d1
         else let d2 = (if ista AND MPI_MPINT_INTSCI \<noteq> 0 then Pef24628e_Sci_IntHandler b d1 else d1);
                  d3 = (if ista AND MPI_MPINT_INTIDC \<noteq> 0 then Pef24628e_Mpi_RxInt b d2 else d2)
              in REG_SET b MPI_EINT ista d3)"

definition Pef24628e_Poll_Check :: "'h bus \<Rightarrow> 'h dev \<Rightarrow> bool \<times> 'h dev" where
  "Pef24628e_Poll_Check b d =
     (if \<not> bInit d then (False, d)
      else if ActiveIf d = PEF24628E_IF_SCI then (False, d)
      else let d1 = (if ActiveIf d = PEF24628E_IF_MPI \<and> irq_vector d = 0
                     then Pef24628e_IntHandler b d else d);
               ret = (rdI d1 \<noteq> wrI d1 \<or> bRxFifoFull d1)
           in (ret, if \<not> ret then d1\<lparr>bNeedWakeUp := True\<rparr> else d1))"

section \<open>Fetching a message\<close>

text \<open>
  The result: the return value, the bytes copied to the caller's buffer, the new
  state.  A bridge frame of at most four bytes is counted but not copied.
\<close>

definition rd_copy :: "int \<Rightarrow> 'h dev \<Rightarrow> nat \<times> u8 list" where
  "rd_copy nLength d =
     (let k = RxFifo d ! rdI d;
          n = (if int (nBytes k) > nLength then nat (nLength mod 65536) else nBytes k)
      in if viaBridge k
         then (if n > 4 then (n - 4, buf_get (pData k + 4) (n - 4) (FifoBuffer d)) else (n, []))
         else (n, buf_get (pData k) n (FifoBuffer d)))"

text \<open>What is read of the block for that.\<close>

definition rd_look :: "int \<Rightarrow> 'h dev \<Rightarrow> 'h dev" where
  "rd_look nLength d =
     (let k = RxFifo d ! rdI d;
          n = (if int (nBytes k) > nLength then nat (nLength mod 65536) else nBytes k)
      in if viaBridge k \<and> n \<le> 4 then d else fifo_look (pData k) n d)"

definition rd_release :: "'h dev \<Rightarrow> 'h dev" where
  "rd_release d =
     d\<lparr>RxFifo := (RxFifo d)[rdI d := (RxFifo d ! rdI d)\<lparr>nBytes := 0\<rparr>], rdI := next_blk (rdI d)\<rparr>"

definition rx_unmask :: "'h bus \<Rightarrow> 'h dev \<Rightarrow> 'h dev" where
  "rx_unmask b d =
     (if ActiveIf d = PEF24628E_IF_MPI
      then if bSendIdcViaSciBridge d
           then BFLD b SCI_INTEN (SCI_INTERRUPT_RPF OR SCI_INTERRUPT_RME)
                  (SCI_INTERRUPT_RPF OR SCI_INTERRUPT_RME) d
           else let (v, d1) = REG_GET b MPI_EINT_EN d
                in if v AND MPI_INTERRUPT_R = 0 then BFLD b MPI_EINT_EN MPI_INTERRUPT_R MPI_INTERRUPT_R d1
                   else d1
      else d)"

definition Pef24628e_Get_IDC_Msg :: "'h bus \<Rightarrow> int \<Rightarrow> 'h dev \<Rightarrow> int \<times> u8 list \<times> 'h dev" where
  "Pef24628e_Get_IDC_Msg b nLength d =
     (if \<not> bInit d then (-1, [], d)
      else if wrI d \<noteq> rdI d \<or> bRxFifoFull d
           then let (n, bs) = rd_copy nLength d in (int n, bs, rx_unmask b (rd_release (rd_look nLength d)))
           else (0, [], rx_unmask b d))"

section \<open>The receive path keeps the state well formed\<close>

lemma mpi_track_ack_wf [wf_intro]: "dev_wf d \<Longrightarrow> dev_wf (mpi_track_ack m t d)"
  by (simp add: mpi_track_ack_def Let_def)

lemma mpi_track_ack_sel [simp]:
  "RxFifo (mpi_track_ack m t d) = RxFifo d" "wrI (mpi_track_ack m t d) = wrI d"
  "rdI (mpi_track_ack m t d) = rdI d" "FifoBuffer (mpi_track_ack m t d) = FifoBuffer d"
  "wr_blk (mpi_track_ack m t d) = wr_blk d" "bRxFifoFull (mpi_track_ack m t d) = bRxFifoFull d"
  by (simp_all add: mpi_track_ack_def Let_def wr_blk_def)

lemma mpi_rx_commit_wf:
  assumes "dev_wf d" and "nBytes (wr_blk d) + length bs \<le> 132"
  shows "dev_wf (mpi_rx_commit b bs d)"
proof -
  note w = dev_wf_wr_blk [OF assms(1)] dev_wfD [OF assms(1)]
  define d1 where "d1 = fifo_put (pData (wr_blk d) + nBytes (wr_blk d)) bs
      (upd_wr_blk (\<lambda>k. k\<lparr>viaBridge := False\<rparr>) d)"
  have "dev_wf (upd_wr_blk (\<lambda>k. k\<lparr>viaBridge := False\<rparr>) d)"
    using assms(1) w by (simp add: upd_wr_blk_wf)
  then have "dev_wf d1"
    unfolding d1_def by (rule fifo_put_wf) (use w assms(2) in simp)
  moreover have "nBytes (wr_blk d1) = nBytes (wr_blk d)"
    using w by (simp add: d1_def wr_blk_def fifo_put_def upd_wr_blk_def)
  ultimately show ?thesis
    using assms(2) unfolding mpi_rx_commit_def Let_def
    by (auto simp flip: d1_def intro!: rx_switch_block_wf upd_wr_blk_wf mpi_track_ack_wf)
qed

lemma mpi_rx_len_fits: "int n + mpi_rx_len n len \<le> 132"
  by (simp add: mpi_rx_len_def)

lemma mpi_rx_len_nonneg: "n \<le> 132 \<Longrightarrow> 0 \<le> mpi_rx_len n len"
  by (simp add: mpi_rx_len_def)

lemma mpi_rx_len_room: "n \<le> 132 \<Longrightarrow> n + nat (mpi_rx_len n len) \<le> 132"
  by (simp add: mpi_rx_len_def) linarith

lemma Mpi_RxInt_wf [wf_intro]:
  assumes "dev_wf d"
  shows "dev_wf (Pef24628e_Mpi_RxInt b d)"
proof -
  define d1 where "d1 = snd (REG_GET b MPI_EFSTAT d)"
  define len where "len = mpi_rx_len (nBytes (wr_blk d1)) (4 * unat (fst (REG_GET b MPI_EFSTAT d) AND 0x3F))"
  have d1: "dev_wf d1" using assms by (simp add: d1_def)
  define r where "r = REG_GET_n b MPI_EGRESS (nat len) d1"
  have blk: "wr_blk (snd r) = wr_blk d1" by (simp add: r_def reg_access wr_blk_def)
  have "dev_wf (mpi_rx_commit b (fst r) (snd r))"
  proof (rule mpi_rx_commit_wf)
    show "dev_wf (snd r)" using d1 by (simp add: r_def)
    show "nBytes (wr_blk (snd r)) + length (fst r) \<le> 132"
      using mpi_rx_len_room [OF dev_wf_wr_blk(2) [OF d1]] unfolding blk by (simp add: r_def len_def)
  qed
  moreover have "Pef24628e_Mpi_RxInt b d =
      (if 4 * unat (fst (REG_GET b MPI_EFSTAT d) AND 0x3F) = 0 then d1
       else mpi_rx_commit b (fst r) (snd r))"
    using mpi_rx_len_fits unfolding Pef24628e_Mpi_RxInt_def
    by (simp add: Let_def case_prod_beta d1_def r_def len_def)
  ultimately show ?thesis using d1 by simp
qed

lemma IntHandler_wf [wf_intro]: "dev_wf d \<Longrightarrow> dev_wf (Pef24628e_IntHandler b d)"
  by (simp add: Pef24628e_IntHandler_def Let_def case_prod_beta Sci_IntHandler_wf Mpi_RxInt_wf)

lemma Poll_Check_wf [wf_intro]: "dev_wf d \<Longrightarrow> dev_wf (snd (Pef24628e_Poll_Check b d))"
  by (auto simp: Pef24628e_Poll_Check_def Let_def intro!: IntHandler_wf)

lemma rd_look_sel [simp]:
  "dev_wf (rd_look n d) = dev_wf d" "RxFifo (rd_look n d) = RxFifo d" "FifoBuffer (rd_look n d) = FifoBuffer d"
  "wrI (rd_look n d) = wrI d" "rdI (rd_look n d) = rdI d" "bRxFifoFull (rd_look n d) = bRxFifoFull d"
  "bInit (rd_look n d) = bInit d"
  by (simp_all add: rd_look_def Let_def)

text \<open>The caller's buffer has a size, so what is read of a block lies in the block.\<close>

lemma rd_look_inside:
  assumes "dev_wf d" and "0 \<le> n"
  shows "rd_look n d = d"
proof -
  note w = dev_wf_blk[OF assms(1) dev_wfD(4)[OF assms(1)]]
  have "(if int (nBytes (RxFifo d ! rdI d)) > n then nat (n mod 65536) else nBytes (RxFifo d ! rdI d)) \<le> 132"
    using w(2) assms(2) by (auto simp: nat_mod_distrib)
  then show ?thesis
    using look_inside[OF assms(1) dev_wfD(4)[OF assms(1)]] by (simp add: rd_look_def Let_def)
qed

lemma rd_release_wf [wf_intro]: "dev_wf d \<Longrightarrow> dev_wf (rd_release d)"
  by (auto simp: dev_wf_def rd_release_def nth_list_update)

lemma rx_unmask_wf [wf_intro]: "dev_wf d \<Longrightarrow> dev_wf (rx_unmask b d)"
  by (simp add: rx_unmask_def Let_def case_prod_beta)

lemma Get_IDC_Msg_wf [wf_intro]: "dev_wf d \<Longrightarrow> dev_wf (snd (snd (Pef24628e_Get_IDC_Msg b n d)))"
  by (simp add: Pef24628e_Get_IDC_Msg_def Let_def case_prod_beta rx_unmask_wf rd_release_wf)

section \<open>The receive FIFO as a queue of messages\<close>

text \<open>
  The abstraction: the number of blocks waiting between the read and the write
  pointer, and the messages in them, oldest first.
\<close>

definition pend_count :: "'h dev \<Rightarrow> nat" where
  "pend_count d = (if bRxFifoFull d then 20 else (wrI d + 20 - rdI d) mod 20)"

definition blk_msg :: "'h dev \<Rightarrow> nat \<Rightarrow> u8 list" where
  "blk_msg d i = buf_get (pData (RxFifo d ! i)) (nBytes (RxFifo d ! i)) (FifoBuffer d)"

definition rx_contents :: "'h dev \<Rightarrow> u8 list list" where
  "rx_contents d = map (\<lambda>k. blk_msg d ((rdI d + k) mod 20)) [0..<pend_count d]"

text \<open>
  What holds between the fields in MPI operation: the state is well formed, the free
  blocks are empty, and no waiting block came over the bridge.
\<close>

definition rx_inv :: "'h dev \<Rightarrow> bool" where
  "rx_inv d \<longleftrightarrow> dev_wf d \<and> bInit d \<and> \<not> bRxFifoFull d \<and>
     (\<forall>k. pend_count d \<le> k \<longrightarrow> k < 20 \<longrightarrow> nBytes (RxFifo d ! ((rdI d + k) mod 20)) = 0) \<and>
     (\<forall>k < pend_count d. \<not> viaBridge (RxFifo d ! ((rdI d + k) mod 20)))"

definition rx_empty :: "'h dev \<Rightarrow> bool" where
  "rx_empty d \<longleftrightarrow> \<not> (wrI d \<noteq> rdI d \<or> bRxFifoFull d)"

definition rx_fetch :: "'h bus \<Rightarrow> 'h dev \<Rightarrow> u8 list \<times> 'h dev" where
  "rx_fetch b d = snd (Pef24628e_Get_IDC_Msg b (int PEF24628E_MSG_SIZE) d)"

text \<open>Ring arithmetic modulo 20.\<close>

lemma mod20: "x < 40 \<Longrightarrow> x mod 20 = (if x < 20 then x else x - (20::nat))"
  by (simp add: le_mod_geq)

lemma ring_wr:
  assumes "r < 20" and "w < (20::nat)"
  shows "(r + (w + 20 - r) mod 20) mod 20 = w"
  using assms by (simp add: mod20)

lemma ring_inj:
  assumes "r < 20" and "j < 20" and "k < 20" and "(r + j) mod 20 = (r + k) mod (20::nat)"
  shows "j = k"
  using assms by (simp add: mod20 split: if_splits)

lemma length_rx_contents: "length (rx_contents d) = pend_count d"
  by (simp add: rx_contents_def)

lemma pend_count_less: "rx_inv d \<Longrightarrow> pend_count d < 20"
  by (simp add: rx_inv_def pend_count_def)

lemma rx_inv_wr:
  assumes "rx_inv d"
  shows "wrI d = (rdI d + pend_count d) mod 20" "nBytes (wr_blk d) = 0"
proof -
  have w: "wrI d < 20" "rdI d < 20" "\<not> bRxFifoFull d"
    using assms by (auto simp: rx_inv_def dev_wf_def)
  show wr: "wrI d = (rdI d + pend_count d) mod 20"
    using w ring_wr [of "rdI d" "wrI d"] by (simp add: pend_count_def)
  show "nBytes (wr_blk d) = 0"
    using assms pend_count_less [OF assms] wr by (simp add: rx_inv_def wr_blk_def)
qed

text \<open>What a commit does to the fields the queue is made of.\<close>

lemma rx_switch_block_sel [simp]:
  "RxFifo (rx_switch_block b r m d) = RxFifo d" "FifoBuffer (rx_switch_block b r m d) = FifoBuffer d"
  "rdI (rx_switch_block b r m d) = rdI d" "wrI (rx_switch_block b r m d) = next_blk (wrI d)"
  "bRxFifoFull (rx_switch_block b r m d) = (next_blk (wrI d) = rdI d)"
  "bInit (rx_switch_block b r m d) = bInit d"
  by (simp_all add: rx_switch_block_def Let_def reg_access)

lemma mpi_track_ack_bInit [simp]: "bInit (mpi_track_ack m t d) = bInit d"
  by (simp add: mpi_track_ack_def Let_def)

lemma mpi_rx_commit_sel:
  fixes b :: "'h bus"
  assumes "dev_wf d" and "nBytes (wr_blk d) + length bs \<le> 132"
  defines "e \<equiv> mpi_rx_commit b bs d"
  shows "rdI e = rdI d" "wrI e = next_blk (wrI d)" "bRxFifoFull e = (next_blk (wrI d) = rdI d)"
    "bInit e = bInit d"
    "FifoBuffer e = buf_put (wrI d * 132 + nBytes (wr_blk d)) bs (FifoBuffer d)"
    "RxFifo e = (RxFifo d)[wrI d := (wr_blk d)\<lparr>viaBridge := False, nBytes := nBytes (wr_blk d) + length bs\<rparr>]"
  using assms(2) dev_wf_wr_blk(1) [OF assms(1)] dev_wfD(1,3) [OF assms(1)]
  unfolding e_def mpi_rx_commit_def Let_def
  by (auto simp: fifo_put_def upd_wr_blk_def wr_blk_def mpi_track_ack_def Let_def)

lemma next_blk_ring: "rx_inv d \<Longrightarrow> next_blk (wrI d) = (rdI d + Suc (pend_count d)) mod 20"
  using rx_inv_wr(1) [of d] by (simp add: next_blk_mod rx_inv_def dev_wf_def mod_simps)

lemma rx_commit_count:
  assumes "rx_inv d" and "length bs \<le> 132" and "pend_count d < 19"
  shows "pend_count (mpi_rx_commit b bs d) = Suc (pend_count d)"
    "\<not> bRxFifoFull (mpi_rx_commit b bs d)"
proof -
  have wf: "dev_wf d" and nb: "nBytes (wr_blk d) + length bs \<le> 132"
    using assms rx_inv_wr(2) [OF assms(1)] by (simp_all add: rx_inv_def)
  note sel = mpi_rx_commit_sel [OF wf nb, of b] next_blk_ring [OF assms(1)]
  have rd: "rdI d < 20" using wf by (rule dev_wfD)
  show "\<not> bRxFifoFull (mpi_rx_commit b bs d)"
    using ring_inj [OF rd, of "Suc (pend_count d)" 0] assms(3) rd by (auto simp: sel)
  then show "pend_count (mpi_rx_commit b bs d) = Suc (pend_count d)"
    using assms(3) rd by (simp add: pend_count_def [of "mpi_rx_commit b bs d"] sel mod20)
qed

text \<open>The blocks that were waiting are not touched, the written one holds the message.\<close>

lemma rx_commit_blk_other:
  assumes "dev_wf d" and "nBytes (wr_blk d) + length bs \<le> 132" and "i < 20" and "i \<noteq> wrI d"
  shows "blk_msg (mpi_rx_commit b bs d) i = blk_msg d i"
    "RxFifo (mpi_rx_commit b bs d) ! i = RxFifo d ! i"
proof -
  note sel = mpi_rx_commit_sel [OF assms(1,2), of b]
  show *: "RxFifo (mpi_rx_commit b bs d) ! i = RxFifo d ! i"
    using assms(4) by (simp add: sel)
  have "i * 132 + nBytes (RxFifo d ! i) \<le> wrI d * 132 + nBytes (wr_blk d) \<or>
      wrI d * 132 + nBytes (wr_blk d) + length bs \<le> i * 132"
    using assms(2-4) dev_wf_blk [OF assms(1,3)] by (cases "i < wrI d") linarith+
  then show "blk_msg (mpi_rx_commit b bs d) i = blk_msg d i"
    unfolding blk_msg_def * by (simp add: sel buf_get_put_disjoint dev_wf_blk [OF assms(1,3)])
qed

lemma rx_commit_blk_new:
  assumes "rx_inv d" and "length bs \<le> 132"
  shows "blk_msg (mpi_rx_commit b bs d) (wrI d) = bs"
    "\<not> viaBridge (RxFifo (mpi_rx_commit b bs d) ! wrI d)"
proof -
  have wf: "dev_wf d" and n0: "nBytes (wr_blk d) = 0"
    using assms rx_inv_wr(2) [OF assms(1)] by (simp_all add: rx_inv_def)
  then have nb: "nBytes (wr_blk d) + length bs \<le> 132" using assms(2) by simp
  note sel = mpi_rx_commit_sel [OF wf nb, of b] and w = dev_wfD [OF wf] dev_wf_wr_blk [OF wf]
  have *: "RxFifo (mpi_rx_commit b bs d) ! wrI d =
      (wr_blk d)\<lparr>viaBridge := False, nBytes := length bs\<rparr>"
    using w by (simp add: sel n0)
  then show "\<not> viaBridge (RxFifo (mpi_rx_commit b bs d) ! wrI d)" by simp
  show "blk_msg (mpi_rx_commit b bs d) (wrI d) = bs"
    unfolding blk_msg_def * using w assms(2) by (simp add: sel n0 buf_get_put_same)
qed

lemma rx_commit_queue:
  assumes "rx_inv d" and "length bs \<le> 132" and "pend_count d < 19"
  shows "rx_contents (mpi_rx_commit b bs d) = rx_contents d @ [bs]"
    and "rx_inv (mpi_rx_commit b bs d)"
proof -
  have wf: "dev_wf d" and nb: "nBytes (wr_blk d) + length bs \<le> 132" and rd: "rdI d < 20"
    using assms rx_inv_wr(2) [OF assms(1)] by (simp_all add: rx_inv_def dev_wf_def)
  note sel = mpi_rx_commit_sel [OF wf nb, of b] and wr = rx_inv_wr(1) [OF assms(1)]
  have ne: "(rdI d + k) mod 20 \<noteq> wrI d" if "k < 20" "k \<noteq> pend_count d" for k
    using ring_inj [OF rd that(1), of "pend_count d"] that assms(3) wr by auto
  have old: "blk_msg (mpi_rx_commit b bs d) ((rdI d + k) mod 20) = blk_msg d ((rdI d + k) mod 20)"
      "RxFifo (mpi_rx_commit b bs d) ! ((rdI d + k) mod 20) = RxFifo d ! ((rdI d + k) mod 20)"
    if "k < 20" "k \<noteq> pend_count d" for k
    using rx_commit_blk_other [OF wf nb _ ne [OF that], of b] by simp_all
  note new = rx_commit_blk_new [OF assms(1,2), of b, unfolded wr]
  show "rx_contents (mpi_rx_commit b bs d) = rx_contents d @ [bs]"
    using assms(3) old(1) new(1)
    by (simp add: rx_contents_def rx_commit_count(1) [OF assms] sel cong: map_cong)
  show "rx_inv (mpi_rx_commit b bs d)"
    unfolding rx_inv_def
  proof (intro conjI allI impI)
    show "dev_wf (mpi_rx_commit b bs d)" using wf nb by (rule mpi_rx_commit_wf)
    show "bInit (mpi_rx_commit b bs d)" using assms(1) by (simp add: sel rx_inv_def)
    show "\<not> bRxFifoFull (mpi_rx_commit b bs d)" using rx_commit_count(2) [OF assms] .
  next
    fix k
    assume "pend_count (mpi_rx_commit b bs d) \<le> k" and "k < 20"
    then show "nBytes (RxFifo (mpi_rx_commit b bs d) ! ((rdI (mpi_rx_commit b bs d) + k) mod 20)) = 0"
      using assms(1) old(2) by (simp add: rx_commit_count(1) [OF assms] sel(1) rx_inv_def)
  next
    fix k
    assume "k < pend_count (mpi_rx_commit b bs d)"
    then show "\<not> viaBridge (RxFifo (mpi_rx_commit b bs d) ! ((rdI (mpi_rx_commit b bs d) + k) mod 20))"
      using assms(1,3) old(2) new(2)
      by (cases "k = pend_count d") (simp_all add: rx_commit_count(1) [OF assms] sel(1) rx_inv_def less_Suc_eq)
  qed
qed

text \<open>What a fetch does to them.\<close>

lemma rx_unmask_sel [simp]:
  "RxFifo (rx_unmask b d) = RxFifo d" "FifoBuffer (rx_unmask b d) = FifoBuffer d"
  "rdI (rx_unmask b d) = rdI d" "wrI (rx_unmask b d) = wrI d"
  "bRxFifoFull (rx_unmask b d) = bRxFifoFull d" "bInit (rx_unmask b d) = bInit d"
  by (simp_all add: rx_unmask_def reg_access)

lemma rd_release_sel [simp]:
  "FifoBuffer (rd_release d) = FifoBuffer d" "wrI (rd_release d) = wrI d"
  "rdI (rd_release d) = next_blk (rdI d)" "bRxFifoFull (rd_release d) = bRxFifoFull d"
  "bInit (rd_release d) = bInit d"
  "RxFifo (rd_release d) = (RxFifo d)[rdI d := (RxFifo d ! rdI d)\<lparr>nBytes := 0\<rparr>]"
  by (simp_all add: rd_release_def)

lemma rx_inv_dev: "rx_inv d \<Longrightarrow> dev_wf d"
  by (simp add: rx_inv_def)

lemma rx_fetch_eq:
  "dev_wf d \<Longrightarrow> bInit d \<Longrightarrow> \<not> rx_empty d \<Longrightarrow>
     rx_fetch b d = (snd (rd_copy 132 d), rx_unmask b (rd_release d))"
  by (auto simp: rx_fetch_def Pef24628e_Get_IDC_Msg_def rx_empty_def Let_def case_prod_beta rd_look_inside)

lemma ring_zero:
  assumes "(r::nat) < 20" and "w < 20"
  shows "(w + 20 - r) mod 20 = 0 \<longleftrightarrow> w = r"
proof -
  have "w + 20 - r < 40" using assms by simp
  from mod20 [OF this] show ?thesis using assms by auto
qed

lemma rx_empty_iff:
  assumes "rx_inv d"
  shows "rx_empty d \<longleftrightarrow> pend_count d = 0"
proof -
  have "rdI d < 20" "wrI d < 20" using assms by (simp_all add: rx_inv_def dev_wf_def)
  from ring_zero [OF this] show ?thesis
    using assms by (auto simp: rx_empty_def rx_inv_def pend_count_def)
qed

lemma rx_fetch_msg:
  assumes "rx_inv d" and "pend_count d \<noteq> 0"
  shows "fst (rx_fetch b d) = blk_msg d (rdI d)"
proof -
  have wf: "dev_wf d" and i: "bInit d" and rd: "rdI d < 20"
    using assms by (simp_all add: rx_inv_def dev_wf_def)
  have "\<not> viaBridge (RxFifo d ! rdI d)"
    using assms rd unfolding rx_inv_def by (metis add_0_right bot_nat_0.not_eq_extremum mod_less)
  then show ?thesis
    using assms dev_wf_blk(2) [OF wf rd] i
    by (simp add: rx_fetch_eq [OF rx_inv_dev] rx_empty_iff rd_copy_def Let_def blk_msg_def)
qed

lemma rx_fetch_queue:
  assumes "rx_inv d" and "pend_count d \<noteq> 0"
  shows "fst (rx_fetch b d) # rx_contents (snd (rx_fetch b d)) = rx_contents d"
    and "rx_inv (snd (rx_fetch b d))"
proof -
  define e where "e = snd (rx_fetch b d)"
  have wf: "dev_wf d" and i: "bInit d" and rd: "rdI d < 20" and wr: "wrI d < 20"
      and nf: "\<not> bRxFifoFull d"
    using assms by (simp_all add: rx_inv_def dev_wf_def)
  have e: "e = rx_unmask b (rd_release d)"
    using assms i by (simp add: e_def rx_fetch_eq [OF rx_inv_dev] rx_empty_iff)
  have cnt: "pend_count d = Suc (pend_count e)"
    using assms(2) rd wr nf by (auto simp: e pend_count_def mod20 next_blk_def split: if_splits)
  have rde: "(rdI e + k) mod 20 = (rdI d + Suc k) mod 20" for k
    using rd by (simp add: e next_blk_mod mod_simps)
  have c20: "pend_count d < 20" using assms(1) by (rule pend_count_less)
  have ne: "(rdI d + Suc k) mod 20 \<noteq> rdI d" if "Suc k < 20" for k
    using ring_inj [OF rd that, of 0] rd by auto
  have blk: "RxFifo e ! ((rdI e + k) mod 20) = RxFifo d ! ((rdI d + Suc k) mod 20)" if "Suc k < 20" for k
    using ne [OF that] unfolding rde by (simp add: e)
  have msg: "blk_msg e ((rdI e + k) mod 20) = blk_msg d ((rdI d + Suc k) mod 20)" if "Suc k < 20" for k
    unfolding blk_msg_def blk [OF that] by (simp add: e)
  have "rx_contents e = map (\<lambda>k. blk_msg d ((rdI d + Suc k) mod 20)) [0..<pend_count e]"
    unfolding rx_contents_def using msg cnt c20 by (intro map_cong) auto
  then show "fst (rx_fetch b d) # rx_contents (snd (rx_fetch b d)) = rx_contents d"
    using rd by (simp add: rx_fetch_msg [OF assms] rx_contents_def [of d] cnt map_upt_Suc_shift
        flip: e_def del: upt_Suc)
  show "rx_inv (snd (rx_fetch b d))"
    unfolding e_def [symmetric] rx_inv_def
  proof (intro conjI allI impI)
    show "dev_wf e" using wf by (simp add: e rx_unmask_wf rd_release_wf)
    show "bInit e" "\<not> bRxFifoFull e" using i nf by (simp_all add: e)
  next
    fix k
    assume k: "pend_count e \<le> k" "k < 20"
    show "nBytes (RxFifo e ! ((rdI e + k) mod 20)) = 0"
    proof (cases "k = 19")
      case True
      then show ?thesis using rd dev_wfD(1) [OF wf] unfolding rde by (simp add: e)
    next
      case False
      then have "pend_count d \<le> Suc k" "Suc k < 20" using k cnt by simp_all
      then show ?thesis using assms(1) unfolding blk [OF \<open>Suc k < 20\<close>] rx_inv_def by blast
    qed
  next
    fix k
    assume "k < pend_count e"
    then have "Suc k < pend_count d" "Suc k < 20" using cnt c20 by simp_all
    then show "\<not> viaBridge (RxFifo e ! ((rdI e + k) mod 20))"
      using assms(1) unfolding blk [OF \<open>Suc k < 20\<close>] rx_inv_def by blast
  qed
qed

text \<open>
  The receive FIFO honours the queue contract up to 19 waiting messages: the 20th
  fills it.
\<close>

interpretation rxq: bounded_queue rx_inv rx_contents 19 "\<lambda>bs. length bs \<le> 132"
  "mpi_rx_commit b" rx_empty "rx_fetch b" for b :: "'h bus"
proof unfold_locales
  fix q :: "'h dev" and x :: "u8 list"
  assume q: "rx_inv q"
  show "rx_empty q \<longleftrightarrow> rx_contents q = []"
    using rx_empty_iff [OF q] length_rx_contents [of q] by auto
  {
    assume "length x \<le> 132" and "length (rx_contents q) < 19"
    then show "rx_inv (mpi_rx_commit b x q)" "rx_contents (mpi_rx_commit b x q) = rx_contents q @ [x]"
      using rx_commit_queue [OF q] by (simp_all add: length_rx_contents)
  }
  {
    assume "rx_contents q \<noteq> []"
    then have "pend_count q \<noteq> 0" by (auto simp: rx_contents_def)
    then show "rx_inv (snd (rx_fetch b q))"
      "fst (rx_fetch b q) # rx_contents (snd (rx_fetch b q)) = rx_contents q"
      using rx_fetch_queue [OF q] by simp_all
  }
qed

text \<open>The receive interrupt as an operation on the queue: one message, or none.\<close>

lemma rx_hw [simp]:
  "rx_inv (d\<lparr>hw := h\<rparr>) = rx_inv d" "rx_contents (d\<lparr>hw := h\<rparr>) = rx_contents d"
  "pend_count (d\<lparr>hw := h\<rparr>) = pend_count d"
  by (simp_all add: rx_inv_def rx_contents_def blk_msg_def pend_count_def)

lemma mpi_rx_len_0: "mpi_rx_len 0 k = int (min 132 k)"
  by (simp add: mpi_rx_len_def)

lemma Mpi_RxInt_queue:
  fixes b :: "'h bus" and d :: "'h dev"
  assumes "rx_inv d" and "pend_count d < 19"
  defines "s \<equiv> REG_GET b MPI_EFSTAT d"
  defines "n \<equiv> min 132 (4 * unat (fst s AND 0x3F))"
  shows "rx_contents (Pef24628e_Mpi_RxInt b d) =
      rx_contents d @ (if n = 0 then [] else [fst (REG_GET_n b MPI_EGRESS n (snd s))])"
    and "rx_inv (Pef24628e_Mpi_RxInt b d)"
proof -
  define r where "r = REG_GET_n b MPI_EGRESS n (snd s)"
  obtain h where h: "snd s = d\<lparr>hw := h\<rparr>" by (simp add: s_def reg_access)
  obtain h' where h': "snd r = d\<lparr>hw := h'\<rparr>" by (simp add: r_def h reg_access)
  have w: "nBytes (wr_blk d) = 0" using rx_inv_wr(2) [OF assms(1)] .
  then have w': "nBytes (wr_blk (d\<lparr>hw := h\<rparr>)) = 0" by (simp add: wr_blk_def)
  have len: "mpi_rx_len 0 (4 * unat (fst s AND 0x3F)) = int n"
    unfolding n_def by (rule mpi_rx_len_0)
  have eq: "Pef24628e_Mpi_RxInt b d = (if n = 0 then snd s else mpi_rx_commit b (fst r) (snd r))"
    using w' mpi_rx_len_fits [of 0 "4 * unat (fst s AND 0x3F)"]
    by (simp add: Pef24628e_Mpi_RxInt_def Let_def case_prod_beta len r_def h flip: s_def)
       (auto simp: n_def)
  have q: "rx_inv (snd r)" "pend_count (snd r) < 19" "rx_contents (snd r) = rx_contents d"
    using assms(1,2) by (simp_all add: h')
  have l: "length (fst r) \<le> 132" by (simp add: r_def n_def)
  show "rx_contents (Pef24628e_Mpi_RxInt b d) =
      rx_contents d @ (if n = 0 then [] else [fst (REG_GET_n b MPI_EGRESS n (snd s))])"
    using rx_commit_queue(1) [OF q(1) l q(2)] q(3) by (simp add: eq r_def h)
  show "rx_inv (Pef24628e_Mpi_RxInt b d)"
    using rx_commit_queue(2) [OF q(1) l q(2)] assms(1) by (simp add: eq h)
qed

section \<open>After the FIFO has filled up\<close>

text \<open>
  \<open>Pef24628e_Get_IDC_Msg\<close> never clears \<open>bRxFifoFull\<close>; only the next reception
  recomputes it.  So once the FIFO has been full, reading all of it does not make it
  look empty.
\<close>

lemma Get_keeps_full: "bRxFifoFull (snd (snd (Pef24628e_Get_IDC_Msg b n d))) = bRxFifoFull d"
  by (simp add: Pef24628e_Get_IDC_Msg_def Let_def case_prod_beta)

lemma full_drain:
  fixes b :: "'h bus"
  assumes "dev_wf d" and "bInit d" and "bRxFifoFull d" and "n \<le> 20"
  defines "e \<equiv> ((\<lambda>d. snd (rx_fetch b d)) ^^ n) d"
  shows "dev_wf e \<and> bInit e \<and> bRxFifoFull e \<and> wrI e = wrI d \<and> rdI e = (rdI d + n) mod 20 \<and>
    (\<forall>k < n. nBytes (RxFifo e ! ((rdI d + k) mod 20)) = 0)"
  using assms(4) unfolding e_def
proof (induction n)
  case 0
  then show ?case using assms(1-3) dev_wfD(4) [OF assms(1)] by simp
next
  case (Suc n)
  define e where "e = ((\<lambda>d. snd (rx_fetch b d)) ^^ n) d"
  have IH: "dev_wf e" "bInit e" "bRxFifoFull e" "wrI e = wrI d" "rdI e = (rdI d + n) mod 20"
      "\<forall>k < n. nBytes (RxFifo e ! ((rdI d + k) mod 20)) = 0"
    using Suc by (simp_all add: e_def)
  have step: "snd (rx_fetch b e) = rx_unmask b (rd_release e)"
    using IH by (simp add: rx_fetch_eq rx_empty_def)
  have "next_blk (rdI e) = (rdI d + Suc n) mod 20"
    using IH(5) dev_wfD(4) [OF IH(1)] by (simp add: next_blk_mod mod_simps)
  moreover have "nBytes (RxFifo (rd_release e) ! ((rdI d + k) mod 20)) = 0" if "k < Suc n" for k
    using that IH(5,6) dev_wfD(1,4) [OF IH(1)] by (cases "k = n") (auto simp: nth_list_update)
  ultimately show ?case
    using IH by (simp add: step rx_unmask_wf rd_release_wf flip: e_def)
qed

end
