(* ===== verification/Idc_Msg.thy ===== *)
theory Idc_Msg
  imports Pef_Rx
begin

text \<open>
  The messages of the modem firmware: the four-byte IDC header as
  \<open>rt_pef24638_send_idc_msg\<close> builds it and \<open>rt_pef24628_poll\<close> reads it, the message
  numbers of \<open>idc_onlinemessages.h\<close>, and the bodies of the configuration messages that
  \<open>rt_CO_init\<close>, \<open>rt_CO_ATM_init\<close> and \<open>rt_CPE_init\<close> fill in.  Every body is a structure of
  32-bit words sent as it lies in memory, low byte first, so a body is given by its words in
  the order of the structure; the flow message is a structure of four bytes.
\<close>

section \<open>The header\<close>

definition idc_header :: "u16 \<Rightarrow> u16 \<Rightarrow> u8 list" where
  "idc_header msg_id nLength =
     (let tc_id = 0xFFFF :: u16
      in [ucast ((nLength div 4) AND 0x1F) OR ucast (push_bit 5 (msg_id AND 0x07)),
          ucast (drop_bit 3 msg_id AND 0xFF),
          ucast (tc_id AND 0xFF),
          ucast (drop_bit 8 tc_id AND 0x07) OR ucast (push_bit 3 (0x00 AND 0x0F :: u16))])"

definition poll_msg_id :: "u8 \<Rightarrow> u8 \<Rightarrow> u16" where
  "poll_msg_id p0 p1 = (drop_bit 5 (ucast p0) AND 0x07) OR push_bit 3 (ucast p1)"

lemma length_idc_header [simp]: "length (idc_header i n) = 4"
  by (simp add: idc_header_def)

text \<open>Word \<open>i\<close> of the message body in a received buffer.\<close>

definition buf_word :: "u8 list \<Rightarrow> nat \<Rightarrow> u32" where
  "buf_word buf i =
     get_le32 (buf ! (4 + 4 * i)) (buf ! (5 + 4 * i)) (buf ! (6 + 4 * i)) (buf ! (7 + 4 * i))"

definition idc_words :: "u32 list \<Rightarrow> u8 list" where
  "idc_words ws = concat (map le32 ws)"

lemma length_idc_words [simp]: "length (idc_words ws) = 4 * length ws"
  by (induction ws) (simp_all add: idc_words_def)

lemma idc_words_nth:
  "i < length ws \<Longrightarrow> k < 4 \<Longrightarrow> idc_words ws ! (4 * i + k) = le32 (ws ! i) ! k"
proof (induction ws arbitrary: i)
  case (Cons w ws)
  then show ?case
    by (cases i) (auto simp: idc_words_def nth_append)
qed simp

text \<open>The words of a body are read back from the message that carries it.\<close>

lemma buf_word_message:
  assumes "i < length ws"
  shows "buf_word (idc_header m n @ idc_words ws) i = ws ! i"
proof -
  let ?b = "idc_header m n @ idc_words ws"
  have b: "?b ! (4 + k + 4 * i) = le32 (ws ! i) ! k" if "k < 4" for k
    using idc_words_nth [OF assms that] by (simp add: nth_append add.commute)
  have "le32 (ws ! i) = [le32 (ws ! i) ! 0, le32 (ws ! i) ! 1, le32 (ws ! i) ! 2, le32 (ws ! i) ! 3]"
    by (simp add: le32_def)
  then show ?thesis
    using b [of 0] b [of 1] b [of 2] b [of 3] by (simp add: buf_word_def get_le32_le32)
qed

lemma bit_low_masks:
  "bit (7 :: 'a::len word) k \<longleftrightarrow> k < 3 \<and> k < LENGTH('a)"
  "bit (31 :: 'a::len word) k \<longleftrightarrow> k < 5 \<and> k < LENGTH('a)"
  "bit (224 :: 'a::len word) k \<longleftrightarrow> 5 \<le> k \<and> k < 8 \<and> k < LENGTH('a)"
  "bit (255 :: 'a::len word) k \<longleftrightarrow> k < 8 \<and> k < LENGTH('a)"
proof -
  have *: "7 = (mask 3 :: 'a word)" "31 = (mask 5 :: 'a word)" "255 = (mask 8 :: 'a word)"
      "224 = push_bit 5 (mask 3 :: 'a word)"
    by (simp_all add: mask_eq_exp_minus_1 push_bit_eq_mult)
  show "bit (7 :: 'a word) k \<longleftrightarrow> k < 3 \<and> k < LENGTH('a)"
    "bit (31 :: 'a word) k \<longleftrightarrow> k < 5 \<and> k < LENGTH('a)"
    "bit (224 :: 'a word) k \<longleftrightarrow> 5 \<le> k \<and> k < 8 \<and> k < LENGTH('a)"
    "bit (255 :: 'a word) k \<longleftrightarrow> k < 8 \<and> k < LENGTH('a)"
    unfolding * by (auto simp: bit_push_bit_iff bit_mask_iff)
qed

lemma header_id:
  assumes "m < 2048"
  shows "poll_msg_id (idc_header m n ! 0) (idc_header m n ! 1) = m"
    and "idc_hdr_id (idc_header m n ! 0) (idc_header m n ! 1) = m"
    and "unat (idc_header m n ! 0 AND 0x1F) = unat (n div 4) mod 32"
proof -
  have hi: "k < 11" if "bit m k" for k
  proof -
    have "bit (unat m) k" using that by (simp add: bit_unsigned_iff)
    then have "(2 :: nat) ^ k \<le> unat m"
      by (metis bit_iff_odd div_less even_zero not_le)
    also have "unat m < 2 ^ 11" using assms by (simp add: word_less_nat_alt)
    finally show ?thesis by (rule power_less_imp_less_exp [rotated]) simp
  qed
  have bits: "k < 3 \<or> 3 \<le> k \<and> k < 11 \<and> bit m (3 + (k - 3)) = bit m k \<or> 11 \<le> k \<and> \<not> bit m k" for k
    using hi [of k] by (cases "k < 3"; cases "k < 11") auto
  show "poll_msg_id (idc_header m n ! 0) (idc_header m n ! 1) = m"
  proof (rule bit_word_eqI)
    fix k assume "k < LENGTH(16)"
    then show "bit (poll_msg_id (idc_header m n ! 0) (idc_header m n ! 1)) k = bit m k"
      using bits [of k]
      by (auto simp: poll_msg_id_def idc_header_def Let_def bit_simps bit_low_masks
          simp del: bit_numeral_word_iff)
  qed
  show "idc_hdr_id (idc_header m n ! 0) (idc_header m n ! 1) = m"
  proof (rule bit_word_eqI)
    fix k assume "k < LENGTH(16)"
    then show "bit (idc_hdr_id (idc_header m n ! 0) (idc_header m n ! 1)) k = bit m k"
      using bits [of k]
      by (auto simp: idc_hdr_id_def idc_header_def Let_def bit_simps bit_low_masks
          simp del: bit_numeral_word_iff)
  qed
  have "ucast (idc_header m n ! 0 AND 0x1F) = (take_bit 5 (n div 4) :: u16)"
    by (rule bit_word_eqI) (auto simp: idc_header_def Let_def bit_simps bit_low_masks simp del: bit_numeral_word_iff)
  moreover have "unat (ucast x :: u16) = unat x" for x :: u8
    using unsigned_less [of x, where ?'a = nat] by (simp add: unsigned_ucast_eq take_bit_nat_eq_self)
  ultimately have "unat (idc_header m n ! 0 AND 0x1F) = unat (take_bit 5 (n div 4) :: u16)"
    by metis
  then show "unat (idc_header m n ! 0 AND 0x1F) = unat (n div 4) mod 32"
    by (simp add: take_bit_eq_mod unat_mod_distrib)
qed

section \<open>Message numbers\<close>

definition CMD_TC_FLOWMODIFY :: u16 where "CMD_TC_FLOWMODIFY = 0x8"
definition CMD_STATUSPINSCONFIG :: u16 where "CMD_STATUSPINSCONFIG = 0x9"
definition CMD_IOP_MODE :: u16 where "CMD_IOP_MODE = 0xC"
definition CMD_XMII_MODIFY :: u16 where "CMD_XMII_MODIFY = 0x1A"
definition CMD_ATM_TC_LINKMODIFY :: u16 where "CMD_ATM_TC_LINKMODIFY = 0x30"
definition CMD_SEGMENTATIONREASSEMBLYCONFIG :: u16 where "CMD_SEGMENTATIONREASSEMBLYCONFIG = 0x40"
definition CMD_SEGMENTATION_VCC_CONFIG :: u16 where "CMD_SEGMENTATION_VCC_CONFIG = 0x41"
definition CMD_SEGMENTATIONCLASSFILTERCONFIG :: u16 where "CMD_SEGMENTATIONCLASSFILTERCONFIG = 0x42"
definition CMD_REASSEMBLYCLASSFILTERCONFIG :: u16 where "CMD_REASSEMBLYCLASSFILTERCONFIG = 0x43"
definition CMD_PMD_CO_PORTSUBTYPESELECT :: u16 where "CMD_PMD_CO_PORTSUBTYPESELECT = 0x60"
definition CMD_PMD_SPANPROFILEGROUPCONFIG :: u16 where "CMD_PMD_SPANPROFILEGROUPCONFIG = 0x64"
definition CMD_LINKCONTROL :: u16 where "CMD_LINKCONTROL = 0x80"
definition CMD_SYSTEMINTERFACELOOPCONTROL :: u16 where "CMD_SYSTEMINTERFACELOOPCONTROL = 0x90"
definition CMD_INVENTORYREQUEST :: u16 where "CMD_INVENTORYREQUEST = 0x110"
definition CMD_PMD_RESET :: u16 where "CMD_PMD_RESET = 0x160"
definition CMD_PMD_CONTROL :: u16 where "CMD_PMD_CONTROL = 0x161"
definition CMD_PMD_STATUSGET :: u16 where "CMD_PMD_STATUSGET = 0x162"
definition CMD_PMD_PM_PARAMGET :: u16 where "CMD_PMD_PM_PARAMGET = 0x164"
definition CMD_PMD_ALARMCONTROL :: u16 where "CMD_PMD_ALARMCONTROL = 0x166"
definition CMD_EOC_CONTROL :: u16 where "CMD_EOC_CONTROL = 0x168"
definition CMD_PMD_SM_CONTROL :: u16 where "CMD_PMD_SM_CONTROL = 0x169"
definition CMD_EOC_STATUSREQUESTCONTROL :: u16 where "CMD_EOC_STATUSREQUESTCONTROL = 0x16A"
definition ACK_PMD_STATUSGET :: u16 where "ACK_PMD_STATUSGET = 0x362"
definition ACK_PMD_PM_PARAMGET :: u16 where "ACK_PMD_PM_PARAMGET = 0x364"
definition EVT_INITIALIZATIONCOMPLETE :: u16 where "EVT_INITIALIZATIONCOMPLETE = 0x680"
definition EVT_EOC_LINKSTATE :: u16 where "EVT_EOC_LINKSTATE = 0x688"
definition EVT_PMD_LINKSTATE :: u16 where "EVT_PMD_LINKSTATE = 0x690"

lemmas idc_ids =
  CMD_TC_FLOWMODIFY_def CMD_STATUSPINSCONFIG_def CMD_IOP_MODE_def
  CMD_XMII_MODIFY_def CMD_ATM_TC_LINKMODIFY_def CMD_SEGMENTATIONREASSEMBLYCONFIG_def
  CMD_SEGMENTATION_VCC_CONFIG_def CMD_SEGMENTATIONCLASSFILTERCONFIG_def CMD_REASSEMBLYCLASSFILTERCONFIG_def
  CMD_PMD_CO_PORTSUBTYPESELECT_def CMD_PMD_SPANPROFILEGROUPCONFIG_def CMD_LINKCONTROL_def
  CMD_SYSTEMINTERFACELOOPCONTROL_def CMD_INVENTORYREQUEST_def CMD_PMD_RESET_def
  CMD_PMD_CONTROL_def CMD_PMD_STATUSGET_def CMD_PMD_PM_PARAMGET_def
  CMD_PMD_ALARMCONTROL_def CMD_EOC_CONTROL_def CMD_PMD_SM_CONTROL_def
  CMD_EOC_STATUSREQUESTCONTROL_def ACK_PMD_STATUSGET_def ACK_PMD_PM_PARAMGET_def
  EVT_INITIALIZATIONCOMPLETE_def EVT_EOC_LINKSTATE_def EVT_PMD_LINKSTATE_def

definition STU_C_UNIT :: u32 where "STU_C_UNIT = 1"
definition STU_R_UNIT :: u32 where "STU_R_UNIT = 2"
definition START_AFTER_INIT :: u32 where "START_AFTER_INIT = 3"
definition READY :: u8 where "READY = 0"
definition NOT_READY :: int where "NOT_READY = 1"
definition DOWN_NOT_READY :: u8 where "DOWN_NOT_READY = 0"

section \<open>Message bodies\<close>

definition CMD_StatusPinsConfig :: "u32 \<Rightarrow> u8 list" where "CMD_StatusPinsConfig mode = idc_words [mode]"

definition CMD_xMII_Modify :: "u32 \<Rightarrow> u32 \<Rightarrow> u32 \<Rightarrow> u8 list" where
  "CMD_xMII_Modify ch speed duplex = idc_words [ch, speed, duplex, 0, 1, 1, 0, 0]"

text \<open>The same traffic class for all four links: ATM is 3, EFM is 1.\<close>

definition CMD_TC_FlowModify :: "u8 \<Rightarrow> u8 list" where
  "CMD_TC_FlowModify tcmode = (if tcmode = 0 then [3, 3, 3, 3] else [1, 1, 1, 1])"

definition CMD_PMD_Reset :: "u32 \<Rightarrow> u8 list" where "CMD_PMD_Reset ch = idc_words [ch]"

text \<open>
  Neither initialisation assigns the last two words of this structure (the clocking mode
  and the forwarding of erroneous cells): what goes out is what the stack held.
\<close>

definition CMD_ATM_TC_LinkModify :: "u32 \<Rightarrow> u32 \<Rightarrow> u32 \<times> u32 \<Rightarrow> u8 list" where
  "CMD_ATM_TC_LinkModify ch ports junk =
     idc_words [ch, 0, 0, 0, 0, 1, 0x6A, 6, 7, 1, 1, ports, fst junk, snd junk]"

definition CMD_SegmentationReassemblyConfig :: "u32 \<Rightarrow> u8 list" where
  "CMD_SegmentationReassemblyConfig ch = idc_words [ch, 1, 0, 0, 1, 0, 0x20, 0, 0, 0, 0]"

definition CMD_Segmentation_VCC_Config :: "u32 \<Rightarrow> u8 list" where
  "CMD_Segmentation_VCC_Config ch = idc_words [ch, 0, 0, 0x20]"

definition CMD_SegmentationClassFilterConfig :: "u32 \<Rightarrow> u8 list" where
  "CMD_SegmentationClassFilterConfig ch = idc_words [ch, 0, 1, 0, 0, 0, 0, 0]"

definition CMD_ReassemblyClassFilterConfig :: "u32 \<Rightarrow> u8 list" where
  "CMD_ReassemblyClassFilterConfig ch = idc_words [ch, 0, 0x20]"

definition CMD_PMD_CO_PortSubTypeSelect :: "u32 \<Rightarrow> u8 list" where
  "CMD_PMD_CO_PortSubTypeSelect ch = idc_words [ch]"

definition CMD_PMD_SpanProfileGroupConfig :: "u32 \<Rightarrow> u32 \<Rightarrow> u32 \<Rightarrow> u32 \<Rightarrow> u8 list" where
  "CMD_PMD_SpanProfileGroupConfig ch maxrate lineprobe pam =
     idc_words [ch, 0, 0x2EE00, maxrate, 0, 0, 0, 0, 1, 0, 6, 6, 6, 6, 5, 4,
                lineprobe, pam, 0, 0, 8, 0, 0, 0]"

definition CMD_IOP_Mode :: "u32 \<Rightarrow> u8 list" where
  "CMD_IOP_Mode ch = idc_words [ch, 1, 0x35300100, 0, 0, 0, 0]"

definition CMD_PMD_SM_Control :: "u32 \<Rightarrow> u32 \<Rightarrow> u8 list" where
  "CMD_PMD_SM_Control ch force = idc_words [ch, 1, 0, force]"

definition CMD_PMD_AlarmControl :: "u32 \<Rightarrow> u8 list" where "CMD_PMD_AlarmControl ch = idc_words [ch, 0xFE]"

definition CMD_EOC_StatusRequestControl :: "u32 \<Rightarrow> u8 list" where
  "CMD_EOC_StatusRequestControl ch = idc_words [ch, 0x14, 0x64]"

definition CMD_EOC_Control :: "u32 \<Rightarrow> u8 list" where "CMD_EOC_Control ch = idc_words [ch, 1, 0, 0, 0]"

definition CMD_LinkControl :: "u32 \<Rightarrow> u8 list" where "CMD_LinkControl ch = idc_words [ch, 1, 1]"

definition CMD_PMD_Control :: "u32 \<Rightarrow> u32 \<Rightarrow> u8 list" where
  "CMD_PMD_Control ch link = idc_words [ch, link, START_AFTER_INIT]"

definition CMD_PMD_StatusGet :: "u32 \<Rightarrow> u8 list" where "CMD_PMD_StatusGet ch = idc_words [ch]"

definition CMD_PMD_PM_ParamGet :: "u32 \<Rightarrow> u32 \<Rightarrow> u8 list" where
  "CMD_PMD_PM_ParamGet ch unit_id = idc_words [ch, unit_id]"

definition CMD_SystemInterfaceLoopControl :: "u32 \<Rightarrow> u32 \<Rightarrow> u8 list" where
  "CMD_SystemInterfaceLoopControl ch mode = idc_words [ch, mode]"

lemmas idc_bodies =
  CMD_StatusPinsConfig_def CMD_xMII_Modify_def CMD_TC_FlowModify_def CMD_PMD_Reset_def
  CMD_ATM_TC_LinkModify_def CMD_SegmentationReassemblyConfig_def CMD_Segmentation_VCC_Config_def
  CMD_SegmentationClassFilterConfig_def CMD_ReassemblyClassFilterConfig_def
  CMD_PMD_CO_PortSubTypeSelect_def CMD_PMD_SpanProfileGroupConfig_def CMD_IOP_Mode_def
  CMD_PMD_SM_Control_def CMD_PMD_AlarmControl_def CMD_EOC_StatusRequestControl_def
  CMD_EOC_Control_def CMD_LinkControl_def CMD_PMD_Control_def CMD_PMD_StatusGet_def
  CMD_PMD_PM_ParamGet_def CMD_SystemInterfaceLoopControl_def

text \<open>What the send call requires of a message, and all the bodies above meet.\<close>

definition idc_sendable :: "u16 \<times> u8 list \<Rightarrow> bool" where
  "idc_sendable m \<longleftrightarrow> fst m < 2048 \<and> length (snd m) \<le> 120 \<and> length (snd m) mod 4 = 0"

end
