(* ===== verification/Pef_Init.thy ===== *)
theory Pef_Init
  imports Pef_Rx
begin

text \<open>
  Bringing a device up and down (\<open>drv_pef24628e_common.c\<close>): the MPI interface, the
  choice of the interface, the address filter and the raw register access of the
  maintenance calls.  The buffer for messages to be sent comes from \<open>malloc\<close>; what it
  returns is the parameter \<open>mem\<close> (\<open>None\<close> for a null pointer, otherwise the
  132 bytes, whatever they hold).
\<close>

record dev_init =
  irq_vector_init :: int
  reg_offset :: u32
  sci_clock :: nat

definition SCI_CLK_ENABLE :: nat where "SCI_CLK_ENABLE = 0x80"
definition SCI_CLK_1_8 :: nat where "SCI_CLK_1_8 = 1"
definition SCI_CLK_1_16 :: nat where "SCI_CLK_1_16 = 2"
definition SCI_CLK_1_32 :: nat where "SCI_CLK_1_32 = 3"
definition SCI_CLK_1_64 :: nat where "SCI_CLK_1_64 = 4"

lemmas sci_clks =
  SCI_CLK_ENABLE_def SCI_CLK_1_8_def SCI_CLK_1_16_def SCI_CLK_1_32_def SCI_CLK_1_64_def

text \<open>
  The device structure as \<open>rt_shdsl_register\<close> leaves it: all zero.  \<open>TxBuf\<close> is empty
  as long as \<open>TxFifo.pData\<close> is a null pointer; the FIFO memory is a global array.
\<close>

definition dev_reset :: "'h \<Rightarrow> 'h dev" where
  "dev_reset h =
     \<lparr>ActiveIf = 0, bInit = False, wrI = 0, rdI = 0, bRxFifoFull = False,
      RxFifo = replicate 20 \<lparr>pData = 0, nBytes = 0, viaBridge = False\<rparr>,
      FifoBuffer = replicate 2640 0, SciRxState = SCI_RX_IDLE, TxBuf = [], TxnBytes = 0, TxnSent = 0,
      txErr = False, bTxAckReceived = False, bNeedWakeUp = False, TxOddEven = 0, TxLastAckOddEven = 0,
      RxOddEven = 0, last_rs_value = 0, last_aux_value = 0, nDevAddress = 0, bSendIdcViaSciBridge = False,
      irq_vector = 0, uc_reg = 0, uLastCmdId = 0, uLastAckId = 0, uLastCmdTcId = 0, uStatistics = 0,
      bFwDownloaded = False, hw = h, oob = False, overread = False, beyond = \<lambda>_. 0\<rparr>"

section \<open>Initialisation of the MPI interface\<close>

definition sci_clk_cfg :: "nat \<Rightarrow> u8" where
  "sci_clk_cfg c =
     (if c = SCI_CLK_1_8 \<or> c = SCI_CLK_1_16 \<or> c = SCI_CLK_1_32 \<or> c = SCI_CLK_1_64
      then word_of_nat SCI_CLK_ENABLE OR word_of_nat c
      else word_of_nat SCI_CLK_ENABLE OR word_of_nat SCI_CLK_1_64)"

text \<open>The buffers and sequence counters, then the registers.\<close>

definition mpi_init_fifo :: "'h dev \<Rightarrow> 'h dev" where
  "mpi_init_fifo d =
     d\<lparr>RxFifo := map (\<lambda>i. (RxFifo d ! i)\<lparr>pData := i * PEF24628E_MSG_SIZE\<rparr>)
                   [0..<PEF24628E_REC_FIFO_BLK_NUM],
       wrI := 0, rdI := 0, bRxFifoFull := False\<rparr>"

definition mpi_init_regs :: "'h bus \<Rightarrow> nat \<Rightarrow> 'h dev \<Rightarrow> 'h dev" where
  "mpi_init_regs b clk d =
     (let d1 = REG_SET b SCI_CFG_H (0x00 OR 0x04 OR 0x10 OR 0x20) d;
          d2 = REG_SET b SCI_CFG_L 0 d1;
          d3 = REG_SET b SCI_ACFG_0 0xFF d2; d4 = REG_SET b SCI_ACFG_1 0xFF d3;
          d5 = REG_SET b SCI_ACFG_2 0xF3 d4; d6 = REG_SET b SCI_ACFG_3 0x00 d5
      in REG_SET b SCI_CLKCFG (sci_clk_cfg clk) d6)"

definition mpi_init_irqs :: "'h bus \<Rightarrow> 'h dev \<Rightarrow> 'h dev" where
  "mpi_init_irqs b d =
     (let d1 = REG_SET b MPI_EINT_EN (MPI_MPINTEN_SCIEN OR MPI_MPINTEN_IDCEN OR MPI_MPINTEN_MPILEV) d;
          d2 = REG_SET b SCI_INTEN SCI_INTERRUPT_ALL d1;
          d3 = REG_SET b MPI_IINT_EN MPI_INTERRUPT_ALL d2
      in REG_SET b SCI_CTRL_L (SCI_CTRL_RRES OR SCI_CTRL_XRES) d3)"

definition Pef24628e_MPI_Init ::
    "'h bus \<Rightarrow> dev_init \<Rightarrow> u8 list option \<Rightarrow> 'h dev \<Rightarrow> bool \<times> 'h dev" where
  "Pef24628e_MPI_Init b cfg mem d0 =
     (let d = d0\<lparr>uc_reg := reg_offset cfg\<rparr>
      in if uc_reg d = 0 then (False, d)
         else let d1 = mpi_init_fifo d
              in case mem of None \<Rightarrow> (False, d1)
                 | Some buf \<Rightarrow>
                     let d2 = d1\<lparr>TxBuf := buf, TxnBytes := 0, TxnSent := 0, TxOddEven := 0, RxOddEven := -1\<rparr>;
                         d3 = mpi_init_regs b (sci_clock cfg) d2;
                         d4 = d3\<lparr>bInit := True, bSendIdcViaSciBridge := True, bNeedWakeUp := True\<rparr>
                     in (True, mpi_init_irqs b d4))"

definition Pef24628e_MPI_Shutdown :: "'h bus \<Rightarrow> 'h dev \<Rightarrow> bool \<times> 'h dev" where
  "Pef24628e_MPI_Shutdown b d =
     (let d1 = REG_SET b MPI_EINT_EN 0 d; d2 = REG_SET b SCI_INTEN 0 d1; d3 = REG_SET b MPI_IINT_EN 0 d2
      in (True, d3\<lparr>bInit := False\<rparr>))"

section \<open>The device\<close>

definition Pef24628e_Set_If :: "nat \<Rightarrow> 'h dev \<Rightarrow> bool \<times> 'h dev" where
  "Pef24628e_Set_If new_if d =
     (if new_if < PEF24628E_IF_LAST then (True, d\<lparr>ActiveIf := new_if\<rparr>) else (False, d))"

definition Pef24628e_Get_If :: "'h dev \<Rightarrow> nat" where
  "Pef24628e_Get_If d = ActiveIf d"

definition Pef24628e_Init ::
    "'h bus \<Rightarrow> dev_init \<Rightarrow> u8 list option \<Rightarrow> 'h dev \<Rightarrow> bool \<times> 'h dev" where
  "Pef24628e_Init b cfg mem d =
     (if ActiveIf d \<ge> PEF24628E_IF_LAST then (False, d)
      else let d1 = d\<lparr>bRxFifoFull := False, uStatistics := 0, uLastCmdId := 0, uLastAckId := 0,
                      bFwDownloaded := False\<rparr>
           in if ActiveIf d1 = PEF24628E_IF_MPI then Pef24628e_MPI_Init b cfg mem (d1\<lparr>nDevAddress := 0x0F\<rparr>)
              else (False, d1))"

definition Pef24628e_Shutdown :: "'h bus \<Rightarrow> 'h dev \<Rightarrow> bool \<times> 'h dev" where
  "Pef24628e_Shutdown b d =
     (if ActiveIf d \<ge> PEF24628E_IF_LAST then (False, d)
      else if ActiveIf d = PEF24628E_IF_MPI then Pef24628e_MPI_Shutdown b d else (False, d))"

section \<open>Address filter\<close>

definition Pef24628e_Set_Address_Filter :: "'h bus \<Rightarrow> u16 \<Rightarrow> u16 \<Rightarrow> 'h dev \<Rightarrow> bool \<times> 'h dev" where
  "Pef24628e_Set_Address_Filter b msk addr d =
     (if uc_reg d = 0 then (False, d)
      else let d1 = REG_SET b SCI_ACFG_3 (ucast (drop_bit 8 (msk AND 0xFF00))) d;
               d2 = BFLD b SCI_ACFG_1 0xFC (ucast (msk AND 0x00FF)) d1;
               d3 = REG_SET b SCI_ACFG_2 (ucast (drop_bit 8 (addr AND 0xFF00))) d2
           in (True, BFLD b SCI_ACFG_0 0xFC (ucast (addr AND 0x00FF)) d3))"

definition Pef24628e_Get_Address_Filter :: "'h bus \<Rightarrow> 'h dev \<Rightarrow> (u16 \<times> u16) option \<times> 'h dev" where
  "Pef24628e_Get_Address_Filter b d =
     (if uc_reg d = 0 then (None, d)
      else let (a3, d1) = REG_GET b SCI_ACFG_3 d; (a1, d2) = REG_GET b SCI_ACFG_1 d1;
               (a2, d3) = REG_GET b SCI_ACFG_2 d2; (a0, d4) = REG_GET b SCI_ACFG_0 d3
           in (Some (push_bit 8 (ucast a3) OR ucast (a1 AND 0xFC),
                     push_bit 8 (ucast a2) OR ucast (a0 AND 0xFC)), d4))"

section \<open>Maintenance access\<close>

text \<open>
  These two dereference the register pointer themselves, without the shift of
  \<open>MPI_ReadReg\<close> and \<open>MPI_WriteReg\<close>.
\<close>

definition raw_reg :: "u32 \<Rightarrow> 'h dev \<Rightarrow> u32" where
  "raw_reg regadr d = uc_reg d + (regadr AND (0x20 - 1))"

definition Pef24628e_Set_Register :: "'h bus \<Rightarrow> u32 \<Rightarrow> u32 \<Rightarrow> 'h dev \<Rightarrow> 'h dev" where
  "Pef24628e_Set_Register b regadr val d =
     d\<lparr>hw := bus_wr b (raw_reg regadr d) (ucast val) (hw d)\<rparr>"

definition Pef24628e_Get_Register :: "'h bus \<Rightarrow> u32 \<Rightarrow> 'h dev \<Rightarrow> u32 \<times> 'h dev" where
  "Pef24628e_Get_Register b regadr d =
     (let (v, h) = bus_rd b (raw_reg regadr d) (hw d) in (ucast v AND 0xFF, d\<lparr>hw := h\<rparr>))"

section \<open>Initialisation establishes the invariant\<close>

text \<open>
  What must hold of the zeroed or used device structure before the call: it has 20
  blocks with at most 132 bytes each, its FIFO memory has its size, no access was out
  of bounds.
\<close>

definition dev_shape :: "'h dev \<Rightarrow> bool" where
  "dev_shape d \<longleftrightarrow> length (RxFifo d) = 20 \<and> (\<forall>i < 20. nBytes (RxFifo d ! i) \<le> 132) \<and>
     length (FifoBuffer d) = 2640 \<and> \<not> oob d"

lemma dev_shape_wf: "dev_wf d \<Longrightarrow> dev_shape d"
  by (simp add: dev_wf_def dev_shape_def)

lemma dev_reset_shape: "dev_shape (dev_reset h)" "i < 20 \<Longrightarrow> nBytes (RxFifo (dev_reset h) ! i) = 0"
  by (simp_all add: dev_shape_def dev_reset_def)

lemma mpi_init_regs_sel [simp]:
  "dev_wf (mpi_init_regs b c d) = dev_wf d" "RxFifo (mpi_init_regs b c d) = RxFifo d"
  "wrI (mpi_init_regs b c d) = wrI d" "rdI (mpi_init_regs b c d) = rdI d"
  "bRxFifoFull (mpi_init_regs b c d) = bRxFifoFull d"
  by (simp_all add: mpi_init_regs_def reg_access)

lemma mpi_init_irqs_sel [simp]:
  "dev_wf (mpi_init_irqs b d) = dev_wf d" "RxFifo (mpi_init_irqs b d) = RxFifo d"
  "wrI (mpi_init_irqs b d) = wrI d" "rdI (mpi_init_irqs b d) = rdI d"
  "bRxFifoFull (mpi_init_irqs b d) = bRxFifoFull d" "bInit (mpi_init_irqs b d) = bInit d"
  by (simp_all add: mpi_init_irqs_def reg_access)

lemma mpi_init_fifo_sel [simp]:
  "wrI (mpi_init_fifo d) = 0" "rdI (mpi_init_fifo d) = 0" "\<not> bRxFifoFull (mpi_init_fifo d)"
  "i < 20 \<Longrightarrow> nBytes (RxFifo (mpi_init_fifo d) ! i) = nBytes (RxFifo d ! i)"
  by (simp_all add: mpi_init_fifo_def del: upt_Suc upt.simps)

lemma mpi_init_fifo_wf:
  assumes "dev_shape d" and "length buf = 132"
  shows "dev_wf (mpi_init_fifo d\<lparr>TxBuf := buf, TxnBytes := 0, TxnSent := 0, TxOddEven := x, RxOddEven := y\<rparr>)"
  using assms by (simp add: dev_shape_def dev_wf_def mpi_init_fifo_def del: upt_Suc upt.simps)

lemma MPI_Init_wf:
  fixes b :: "'h bus" and d :: "'h dev"
  assumes "dev_shape d" and "length buf = 132" and "reg_offset cfg \<noteq> 0"
  defines "r \<equiv> Pef24628e_MPI_Init b cfg (Some buf) d"
  shows "fst r" "dev_wf (snd r)" "bInit (snd r)" "pend_count (snd r) = 0"
proof -
  have *: "dev_shape (d\<lparr>uc_reg := reg_offset cfg\<rparr>)" using assms(1) by (simp add: dev_shape_def)
  show "fst r" "dev_wf (snd r)" "bInit (snd r)" "pend_count (snd r) = 0"
    using assms(3) mpi_init_fifo_wf [OF * assms(2)]
    by (simp_all add: r_def Pef24628e_MPI_Init_def Let_def pend_count_def)
qed

text \<open>From a structure whose blocks are empty the receive FIFO starts as an empty queue.\<close>

lemma MPI_Init_rx_inv:
  fixes b :: "'h bus" and d :: "'h dev"
  assumes "dev_shape d" and "length buf = 132" and "reg_offset cfg \<noteq> 0"
    and "\<forall>i < 20. nBytes (RxFifo d ! i) = 0"
  defines "r \<equiv> Pef24628e_MPI_Init b cfg (Some buf) d"
  shows "rx_inv (snd r)" "rx_contents (snd r) = []"
proof -
  note wf = MPI_Init_wf [OF assms(1-3), of b, folded r_def]
  have blk: "nBytes (RxFifo (snd r) ! i) = 0" if "i < 20" for i
    using that assms(3,4)
    by (simp add: r_def Pef24628e_MPI_Init_def Let_def mpi_init_fifo_def del: upt_Suc upt.simps)
  have "\<not> bRxFifoFull (snd r)"
    using assms(3) by (simp add: r_def Pef24628e_MPI_Init_def Let_def)
  then show "rx_inv (snd r)"
    using wf blk by (simp add: rx_inv_def)
  show "rx_contents (snd r) = []" using wf(4) by (simp add: rx_contents_def)
qed

text \<open>A raw access reaches the register the other calls use only at offset 0.\<close>

lemma raw_reg_is_reg:
  assumes "uc_reg d = Bank1_PEF_C"
  shows "raw_reg (reg_off r) d = mpi_addr (uc_reg d + reg_off r) \<longleftrightarrow> r = MCR_0"
  unfolding raw_reg_def assms mpi_addr_base by (cases r) (simp_all add: Bank1_PEF_C_def)

end
