(* ===== verification/Pef_Tx.thy ===== *)
theory Pef_Tx
  imports Pef_Init
begin

text \<open>
  The transmit path of the driver (\<open>drv_pef24628e_common.c\<close>): polling transmission
  over the serial interface, the MPI mailbox, and the calls that build the messages
  (\<open>Pef24628e_Send_IDC_Msg\<close>, the RAMSHELL and AUX messages).  The waits are loops with
  the counters of the code; the delays between their turns are left out.
\<close>

section \<open>Waiting for a register\<close>

text \<open>
  \<open>while (!ready && --counter);\<close> on a register: at most \<open>n\<close> reads; the result is the
  counter, 0 when the register never became ready.
\<close>

fun poll_reg :: "'h bus \<Rightarrow> mpi_reg \<Rightarrow> (u8 \<Rightarrow> bool) \<Rightarrow> nat \<Rightarrow> 'h dev \<Rightarrow> nat \<times> 'h dev" where
  "poll_reg b r p n d =
     (if n = 0 then (0, d)
      else let (v, d1) = REG_GET b r d in if p v then (n, d1) else poll_reg b r p (n - 1) d1)"

declare poll_reg.simps [simp del]

definition SCI_TX_POLL_MAX :: nat where
  "SCI_TX_POLL_MAX = 5000000"

lemma poll_reg_hw: "\<exists>h. snd (poll_reg b r p n d) = d\<lparr>hw := h\<rparr>"
proof (induction n arbitrary: d)
  case 0
  have "snd (poll_reg b r p 0 d) = d\<lparr>hw := hw d\<rparr>" by (simp add: poll_reg.simps)
  then show ?case ..
next
  case (Suc n)
  obtain h0 where h0: "snd (REG_GET b r d) = d\<lparr>hw := h0\<rparr>" by (simp add: reg_access)
  show ?case
  proof (cases "p (fst (REG_GET b r d))")
    case True
    then have "snd (poll_reg b r p (Suc n) d) = d\<lparr>hw := h0\<rparr>"
      by (simp add: poll_reg.simps case_prod_beta h0)
    then show ?thesis ..
  next
    case False
    then have "snd (poll_reg b r p (Suc n) d) = snd (poll_reg b r p n (d\<lparr>hw := h0\<rparr>))"
      by (subst poll_reg.simps) (simp add: case_prod_beta h0)
    moreover obtain h where "snd (poll_reg b r p n (d\<lparr>hw := h0\<rparr>)) = d\<lparr>hw := h0, hw := h\<rparr>"
      using Suc.IH by blast
    ultimately have "snd (poll_reg b r p (Suc n) d) = d\<lparr>hw := h\<rparr>" by simp
    then show ?thesis ..
  qed
qed

lemma poll_reg_sel [simp]:
  "TxnBytes (snd (poll_reg b r p n d)) = TxnBytes d" "TxBuf (snd (poll_reg b r p n d)) = TxBuf d"
  "uc_reg (snd (poll_reg b r p n d)) = uc_reg d" "txErr (snd (poll_reg b r p n d)) = txErr d"
  "dev_wf (snd (poll_reg b r p n d)) = dev_wf d"
  using poll_reg_hw [of b r p n d] by auto

section \<open>Serial transmission in polling mode\<close>

function sci_tx_frame :: "'h bus \<Rightarrow> 'h dev \<Rightarrow> bool \<times> 'h dev" where
  "sci_tx_frame b d =
     (let d1 = Pef24628e_Sci_XprInt b d;
          (counter, d2) = poll_reg b SCI_INT (\<lambda>v. v AND SCI_INTERRUPT_XPR = SCI_INTERRUPT_XPR) SCI_TX_POLL_MAX d1;
          d3 = REG_SET b SCI_INT SCI_INTERRUPT_XPR d2
      in if counter = 0 then (False, d3)
         else if TxnBytes d3 \<noteq> 0 then sci_tx_frame b d3 else (True, d3))"
  by pat_completeness auto

lemma XprInt_progress:
  "TxnBytes (Pef24628e_Sci_XprInt b d) = TxnBytes d - 64"
  by (auto simp: Pef24628e_Sci_XprInt_def Let_def reg_access)

lemma REG_SET_TxnBytes: "TxnBytes (REG_SET b r v d) = TxnBytes d"
  by (simp add: reg_access)

text \<open>Every turn sends up to 64 bytes, so the loop ends.\<close>

termination sci_tx_frame
proof (relation "measure (\<lambda>(b, d). TxnBytes d)")
  show "wf (measure (\<lambda>(b :: 'h bus, d :: 'h dev). TxnBytes d))" by simp
  fix b :: "'h bus" and d d1 d2 d3 :: "'h dev" and x counter
  assume "d1 = Pef24628e_Sci_XprInt b d"
    and "x = poll_reg b SCI_INT (\<lambda>v. v AND SCI_INTERRUPT_XPR = SCI_INTERRUPT_XPR) SCI_TX_POLL_MAX d1"
    and "(counter, d2) = x" and "d3 = REG_SET b SCI_INT SCI_INTERRUPT_XPR d2" and n: "TxnBytes d3 \<noteq> 0"
  then have "TxnBytes d3 = TxnBytes d - 64"
    by (metis XprInt_progress poll_reg_sel(1) REG_SET_TxnBytes snd_conv)
  then show "((b, d3), (b, d)) \<in> measure (\<lambda>(b, d). TxnBytes d)"
    using n by simp
qed

declare sci_tx_frame.simps [simp del]

fun sci_wait_ack :: "'h bus \<Rightarrow> nat \<Rightarrow> 'h dev \<Rightarrow> 'h dev" where
  "sci_wait_ack b n d =
     (if n = 0 \<or> bTxAckReceived d then d
      else let d1 = Pef24628e_IntHandler b d
           in if uStatistics d1 AND 0x80000000 \<noteq> 0
              then d1\<lparr>uStatistics := uStatistics d1 AND NOT 0x80000000\<rparr>
              else sci_wait_ack b (n - 1) d1)"

declare sci_wait_ack.simps [simp del]

definition Pef24628e_Sci_Tx_Polling :: "'h bus \<Rightarrow> 'h dev \<Rightarrow> bool \<times> 'h dev" where
  "Pef24628e_Sci_Tx_Polling b d0 =
     (let d = d0\<lparr>bTxAckReceived := False, uStatistics := uStatistics d0 AND NOT 0x80000000\<rparr>
      in if uc_reg d = 0 then (False, d)
         else let (sent, d1) = sci_tx_frame b d
              in if \<not> sent then (False, d1)
                 else let d2 = sci_wait_ack b SCI_TX_POLL_MAX d1 in (\<not> txErr d2, d2))"

section \<open>The MPI mailbox\<close>

definition tx_byte :: "'h dev \<Rightarrow> nat \<Rightarrow> u8" where
  "tx_byte d i = (if i < length (TxBuf d) then TxBuf d ! i else 0)"

text \<open>
  \<open>mpi_tx_write\<close> is the part after the wait: the bytes, the record of the command
  whose acknowledge is expected, and the send command.
\<close>

definition mpi_tx_write :: "'h bus \<Rightarrow> 'h dev \<Rightarrow> 'h dev" where
  "mpi_tx_write b d =
     (let d1 = REG_SET_list b MPI_INGRESS (buf_get 0 (TxnBytes d) (TxBuf d)) d;
          d2 = d1\<lparr>oob := (oob d \<or> length (TxBuf d) < TxnBytes d)\<rparr>;
          d3 = (if bFwDownloaded d2
                then d2\<lparr>uLastCmdId := idc_hdr_id (tx_byte d2 0) (tx_byte d2 1),
                       uLastCmdTcId := idc_hdr_tcid (tx_byte d2 2) (tx_byte d2 3),
                       uStatistics := uStatistics d2 OR 1\<rparr>
                else d2);
          d4 = d3\<lparr>TxnSent := TxnBytes d3, TxnBytes := 0, txErr := False\<rparr>
      in REG_SET b MPI_IINT MPI_INTERRUPT_R d4)"

definition Pef24628e_Mpi_Tx :: "'h bus \<Rightarrow> 'h dev \<Rightarrow> 'h dev" where
  "Pef24628e_Mpi_Tx b d =
     (if uc_reg d = 0 then d
      else let (i, d1) = poll_reg b MPI_IINT (\<lambda>v. v AND MPI_INTERRUPT_R = 0) 10 d
           in if i = 0 then d1
              else if TxnBytes d1 = 0 then d1
              else mpi_tx_write b d1)"

section \<open>IDC messages\<close>

definition tx_start :: "nat \<Rightarrow> 'h dev \<Rightarrow> 'h dev" where
  "tx_start n d = d\<lparr>TxnBytes := n, TxnSent := 0, txErr := True\<rparr>"

definition tx_toggle :: "'h dev \<Rightarrow> 'h dev" where
  "tx_toggle d =
     (if TxLastAckOddEven d = TxOddEven d then d\<lparr>TxOddEven := TxOddEven d XOR 1\<rparr> else d)"

text \<open>The two arms of the \<open>do ... while (txErr)\<close> loop; \<open>rep\<close> is \<open>repetitions\<close>.\<close>

function idc_send_sci :: "'h bus \<Rightarrow> nat \<Rightarrow> nat \<Rightarrow> 'h dev \<Rightarrow> 'h dev" where
  "idc_send_sci b n rep d =
     (let d1 = tx_start n d;
          d2 = (if irq_vector d1 = 0 then snd (Pef24628e_Sci_Tx_Polling b d1) else Pef24628e_Sci_XprInt b d1)
      in if txErr d2
         then if rep + 1 > SEND_MSG_MAX_REP_NUMBER then d2
              else idc_send_sci b n (rep + 1) (tx_toggle d2)
         else tx_toggle d2)"
  by pat_completeness auto

termination idc_send_sci
  by (relation "measure (\<lambda>(b, n, rep, d). 2 - rep)") auto

function idc_send_mpi :: "'h bus \<Rightarrow> nat \<Rightarrow> nat \<Rightarrow> 'h dev \<Rightarrow> bool \<times> 'h dev" where
  "idc_send_mpi b n rep d =
     (let d1 = Pef24628e_Mpi_Tx b (tx_start n d)
      in if txErr d1
         then if rep + 1 \<ge> SEND_MSG_MAX_REP_NUMBER then (False, snd (REG_GET b MPI_IINT_EN d1))
              else idc_send_mpi b n (rep + 1) d1
         else (True, d1))"
  by pat_completeness auto

termination idc_send_mpi
  by (relation "measure (\<lambda>(b, n, rep, d). 2 - rep)") auto

declare idc_send_sci.simps [simp del] idc_send_mpi.simps [simp del]

definition idc_frame_hdr :: "'h dev \<Rightarrow> u8 list" where
  "idc_frame_hdr d =
     [PEF24628E_ADR_HOST, PEF24628E_ADR_DEVICE (nDevAddress d) OR PEF24628E_ADR_IDC_CTRLR,
      0x08 OR word_of_int (TxOddEven d), 0]"

text \<open>The buffer and length the caller passes are the list \<open>bs\<close>.\<close>

definition Pef24628e_Send_IDC_Msg :: "'h bus \<Rightarrow> u8 list \<Rightarrow> 'h dev \<Rightarrow> int \<times> 'h dev" where
  "Pef24628e_Send_IDC_Msg b bs d =
     (if length bs = 0 then (-1, d)
      else if \<not> bInit d then (-1, d)
      else if length bs > PEF24628E_MSG_SIZE then (-1, d)
      else if bSendIdcViaSciBridge d
           then let d1 = tx_put 0 (idc_frame_hdr d) (tx_put 4 bs d);
                    n = length bs + 4; d2 = d1\<lparr>TxLastAckOddEven := -1\<rparr>
                in if ActiveIf d2 = PEF24628E_IF_MPI then (int n - 4, idc_send_sci b n 0 d2) else (0, d2)
           else let d1 = tx_put 0 bs d; n = length bs
                in if ActiveIf d1 = PEF24628E_IF_MPI
                   then let (ok, d2) = idc_send_mpi b n 0 d1 in ((if ok then int n else 0), d2)
                   else (0, d1))"

section \<open>RAMSHELL and AUX messages\<close>

definition DL_BLK_SIZE :: nat where "DL_BLK_SIZE = 56"

text \<open>
  The copy loop of the big-endian firmware build: four bytes at a time, each group
  reversed.
\<close>

fun swap4 :: "u8 list \<Rightarrow> u8 list" where
  "swap4 (a # b # c # e # xs) = e # c # b # a # swap4 xs"
| "swap4 xs = []"

text \<open>
  \<open>while (retry--)\<close> around \<open>Pef24628e_Sci_Tx_Polling\<close>; after a failure the frame is
  set up again with \<open>again\<close> bytes, which need not be the length it had at first.
\<close>

fun tx_retry :: "'h bus \<Rightarrow> nat \<Rightarrow> nat \<Rightarrow> 'h dev \<Rightarrow> bool \<times> 'h dev" where
  "tx_retry b again 0 d = (False, d)"
| "tx_retry b again (Suc retry) d =
     (let (ok, d1) = Pef24628e_Sci_Tx_Polling b d
      in if ok then (True, d1)
         else tx_retry b again retry (d1\<lparr>TxnBytes := again, TxnSent := 0\<rparr>))"

definition tx_sci_msg :: "'h bus \<Rightarrow> nat \<Rightarrow> nat \<Rightarrow> 'h dev \<Rightarrow> bool \<times> 'h dev" where
  "tx_sci_msg b n again d =
     (let d1 = tx_start n d
      in if ActiveIf d1 = PEF24628E_IF_MPI
         then if irq_vector d1 = 0 then tx_retry b again 3 d1
              else let d2 = Pef24628e_Sci_XprInt b d1 in (\<not> txErr d2, d2)
         else (False, d1))"

text \<open>
  \<open>Pef24628e_Send_RS_Msg\<close> and \<open>Pef24628e_Send_IDC_RS_Msg\<close> differ in the target
  address only.  \<open>src\<close> is the memory at \<open>pSrc\<close>, \<open>n\<close> is \<open>nLength\<close>: the loop copies
  whole groups of four.
\<close>

definition rs_frame :: "u8 \<Rightarrow> u8 \<Rightarrow> u32 \<Rightarrow> u8 list \<Rightarrow> nat \<Rightarrow> 'h dev \<Rightarrow> 'h dev" where
  "rs_frame target opcd param src n d =
     (let m = 4 * ((n + 3) div 4);
          d1 = tx_put 8 (swap4 (take m src)) d
      in tx_put 0 ([PEF24628E_ADR_HOST, PEF24628E_ADR_DEVICE (nDevAddress d) OR target, 0, opcd] @ le32 param)
           (d1\<lparr>oob := (oob d1 \<or> length src < m)\<rparr>))"

definition Pef24628e_Send_RS_Msg ::
    "'h bus \<Rightarrow> u8 \<Rightarrow> u32 \<Rightarrow> u8 list \<Rightarrow> nat \<Rightarrow> 'h dev \<Rightarrow> bool \<times> 'h dev" where
  "Pef24628e_Send_RS_Msg b opcd param src n d =
     (if \<not> bInit d then (False, d)
      else if n > DL_BLK_SIZE then (False, d)
      else tx_sci_msg b (n + 8) (n + 8) (rs_frame PEF24628E_ADR_RAMSHELL opcd param src n d))"

definition Pef24628e_Send_IDC_RS_Msg ::
    "'h bus \<Rightarrow> u8 \<Rightarrow> u32 \<Rightarrow> u8 list \<Rightarrow> nat \<Rightarrow> 'h dev \<Rightarrow> bool \<times> 'h dev" where
  "Pef24628e_Send_IDC_RS_Msg b opcd param src n d =
     (if \<not> bInit d then (False, d)
      else if n > DL_BLK_SIZE then (False, d)
      else tx_sci_msg b (n + 8) (n + 8) (rs_frame PEF24628E_ADR_IDC_RAMSHELL opcd param src n d))"

definition Pef24628e_Send_Any_Msg :: "'h bus \<Rightarrow> 'h dev \<Rightarrow> bool \<times> 'h dev" where
  "Pef24628e_Send_Any_Msg b d =
     (if \<not> bInit d then (False, d)
      else tx_sci_msg b 6 4 (tx_put 0 [0xF3, 0xF2, 0x08, 0x0F, 0x00, 0x00, 0x00, 0x00] d))"

definition Pef24628e_Send_Aux_Msg :: "'h bus \<Rightarrow> u8 \<Rightarrow> u8 \<Rightarrow> 'h dev \<Rightarrow> bool \<times> 'h dev" where
  "Pef24628e_Send_Aux_Msg b reg param d =
     (if \<not> bInit d then (False, d)
      else tx_sci_msg b 4 4
             (tx_put 0 [PEF24628E_ADR_HOST, PEF24628E_ADR_DEVICE (nDevAddress d) OR PEF24628E_ADR_AUX,
                        reg, param] d))"

section \<open>The transmit path keeps the state well formed\<close>

lemma sci_tx_frame_wf [wf_intro]: "dev_wf d \<Longrightarrow> dev_wf (snd (sci_tx_frame b d))"
proof (induction b d rule: sci_tx_frame.induct)
  case (1 b d)
  define d1 where "d1 = Pef24628e_Sci_XprInt b d"
  define r where "r = poll_reg b SCI_INT (\<lambda>v. v AND SCI_INTERRUPT_XPR = SCI_INTERRUPT_XPR) SCI_TX_POLL_MAX d1"
  define d3 where "d3 = REG_SET b SCI_INT SCI_INTERRUPT_XPR (snd r)"
  have "dev_wf d3" using "1.prems" XprInt_wf by (simp add: d3_def r_def d1_def)
  then show ?case
    using "1.IH" [OF d1_def r_def prod.collapse d3_def]
    by (subst sci_tx_frame.simps) (simp add: Let_def case_prod_beta flip: d1_def r_def d3_def)
qed

lemma sci_wait_ack_wf [wf_intro]: "dev_wf d \<Longrightarrow> dev_wf (sci_wait_ack b n d)"
proof (induction n arbitrary: d)
  case (Suc n)
  then show ?case
    using IntHandler_wf [OF Suc.prems, of b] by (subst sci_wait_ack.simps) (simp add: Let_def)
qed (simp add: sci_wait_ack.simps)

lemma Sci_Tx_Polling_wf [wf_intro]: "dev_wf d \<Longrightarrow> dev_wf (snd (Pef24628e_Sci_Tx_Polling b d))"
  by (simp add: Pef24628e_Sci_Tx_Polling_def Let_def case_prod_beta sci_tx_frame_wf sci_wait_ack_wf)

lemma REG_SET_len [simp]:
  "TxBuf (REG_SET b r v d) = TxBuf d" "TxBuf (REG_SET_list b r vs d) = TxBuf d"
  "TxnBytes (REG_SET_list b r vs d) = TxnBytes d" "oob (REG_SET_list b r vs d) = oob d"
  by (simp_all add: reg_access)

lemma mpi_tx_write_wf: "dev_wf d \<Longrightarrow> dev_wf (mpi_tx_write b d)"
  by (simp add: mpi_tx_write_def Let_def reg_access dev_wf_def)

lemma Mpi_Tx_wf [wf_intro]: "dev_wf d \<Longrightarrow> dev_wf (Pef24628e_Mpi_Tx b d)"
  by (simp add: Pef24628e_Mpi_Tx_def Let_def case_prod_beta mpi_tx_write_wf)

lemma tx_start_wf [wf_intro]: "dev_wf d \<Longrightarrow> n \<le> 132 \<Longrightarrow> dev_wf (tx_start n d)"
  by (auto simp: dev_wf_def tx_start_def)

lemma tx_toggle_wf [wf_intro]: "dev_wf d \<Longrightarrow> dev_wf (tx_toggle d)"
  by (simp add: tx_toggle_def)

lemma idc_send_sci_wf [wf_intro]: "dev_wf d \<Longrightarrow> n \<le> 132 \<Longrightarrow> dev_wf (idc_send_sci b n rep d)"
proof (induction b n rep d rule: idc_send_sci.induct)
  case (1 b n rep d)
  define d1 where "d1 = tx_start n d"
  define d2 where "d2 = (if irq_vector d1 = 0 then snd (Pef24628e_Sci_Tx_Polling b d1)
      else Pef24628e_Sci_XprInt b d1)"
  have "dev_wf d1" using "1.prems" by (simp add: d1_def tx_start_wf)
  then have d2: "dev_wf d2" by (simp add: d2_def Sci_Tx_Polling_wf XprInt_wf)
  show ?case
    using "1.IH" [OF d1_def d2_def] "1.prems"(2) d2 tx_toggle_wf [OF d2]
    by (subst idc_send_sci.simps) (simp add: Let_def flip: d1_def d2_def)
qed

lemma idc_send_mpi_wf [wf_intro]: "dev_wf d \<Longrightarrow> n \<le> 132 \<Longrightarrow> dev_wf (snd (idc_send_mpi b n rep d))"
proof (induction b n rep d rule: idc_send_mpi.induct)
  case (1 b n rep d)
  define d1 where "d1 = Pef24628e_Mpi_Tx b (tx_start n d)"
  have "dev_wf d1" using "1.prems" by (simp add: d1_def tx_start_wf Mpi_Tx_wf)
  then show ?case
    using "1.IH" [OF d1_def] "1.prems"(2)
    by (subst idc_send_mpi.simps) (simp add: Let_def flip: d1_def)
qed

text \<open>
  A message of up to 128 bytes fits the transmit buffer in either mode; over the
  bridge the four header bytes are put in front of it.
\<close>

lemma idc_frame_hdr_length [simp]: "length (idc_frame_hdr d) = 4"
  by (simp add: idc_frame_hdr_def)

lemma Send_IDC_Msg_wf [wf_intro]:
  assumes "dev_wf d" and "length bs \<le> 128 \<or> \<not> bSendIdcViaSciBridge d"
  shows "dev_wf (snd (Pef24628e_Send_IDC_Msg b bs d))"
  using assms
  by (auto simp: Pef24628e_Send_IDC_Msg_def Let_def case_prod_beta
      intro!: idc_send_sci_wf idc_send_mpi_wf tx_put_wf)

lemma tx_retry_wf [wf_intro]: "dev_wf d \<Longrightarrow> again \<le> 132 \<Longrightarrow> dev_wf (snd (tx_retry b again r d))"
proof (induction r arbitrary: d)
  case (Suc r)
  have "dev_wf (snd (Pef24628e_Sci_Tx_Polling b d))" using Suc.prems by (simp add: Sci_Tx_Polling_wf)
  moreover from this have "dev_wf ((snd (Pef24628e_Sci_Tx_Polling b d))\<lparr>TxnBytes := again, TxnSent := 0\<rparr>)"
    using Suc.prems by (simp add: tx_len_wf)
  ultimately show ?case using Suc by (simp add: case_prod_beta)
qed simp

lemma tx_sci_msg_wf [wf_intro]:
  "dev_wf d \<Longrightarrow> n \<le> 132 \<Longrightarrow> again \<le> 132 \<Longrightarrow> dev_wf (snd (tx_sci_msg b n again d))"
  by (auto simp: tx_sci_msg_def Let_def intro!: tx_retry_wf tx_start_wf XprInt_wf)

lemma length_swap4: "length (swap4 xs) \<le> length xs"
  by (induction xs rule: swap4.induct) auto

lemma rs_frame_wf:
  assumes "dev_wf d" and "n \<le> 56" and "4 * ((n + 3) div 4) \<le> length src"
  shows "dev_wf (rs_frame t c p src n d)"
proof -
  have "(n + 3) div 4 \<le> 14" using assms(2) by linarith
  then have "length (swap4 (take (4 * ((n + 3) div 4)) src)) \<le> 56"
    by (intro order_trans [OF length_swap4]) (simp add: min_le_iff_disj)
  then have *: "dev_wf (tx_put 8 (swap4 (take (4 * ((n + 3) div 4)) src)) d)"
    using assms(1) by (simp add: tx_put_wf)
  then have "\<not> oob (tx_put 8 (swap4 (take (4 * ((n + 3) div 4)) src)) d)"
    by (simp add: dev_wf_def)
  then have "dev_wf ((tx_put 8 (swap4 (take (4 * ((n + 3) div 4)) src)) d)\<lparr>oob := False\<rparr>)"
    using * by (simp add: dev_wf_def)
  then show ?thesis
    using assms(3) \<open>\<not> oob _\<close> by (auto simp: rs_frame_def Let_def intro!: tx_put_wf)
qed

lemma Send_RS_Msg_wf [wf_intro]:
  assumes "dev_wf d" and "4 * ((n + 3) div 4) \<le> length src"
  shows "dev_wf (snd (Pef24628e_Send_RS_Msg b c p src n d))"
    and "dev_wf (snd (Pef24628e_Send_IDC_RS_Msg b c p src n d))"
  using assms
  by (auto simp: Pef24628e_Send_RS_Msg_def Pef24628e_Send_IDC_RS_Msg_def DL_BLK_SIZE_def
      intro!: tx_sci_msg_wf rs_frame_wf)

lemma Send_Aux_Msg_wf [wf_intro]:
  "dev_wf d \<Longrightarrow> dev_wf (snd (Pef24628e_Send_Aux_Msg b r p d))"
  "dev_wf d \<Longrightarrow> dev_wf (snd (Pef24628e_Send_Any_Msg b d))"
  by (auto simp: Pef24628e_Send_Aux_Msg_def Pef24628e_Send_Any_Msg_def intro!: tx_sci_msg_wf tx_put_wf)

end
