(* ===== verification/Pef_Download.thy ===== *)
theory Pef_Download
  imports Pef_Tx
begin

text \<open>
  The firmware download (\<open>drv_pef24628e_common.c\<close>): \<open>Pef24628e_DSL_Download\<close>,
  \<open>Pef24628e_IDC_Download\<close> and \<open>Pef24628e_IDC_Start\<close>.  The image is read block by
  block from the SPI flash, whose driver is not part of the modelled code: it is the
  parameter \<open>fw\<close>, where \<open>fw off n\<close> are the \<open>n\<close> bytes at offset \<open>off\<close> of the image
  (\<open>dsl_fw_read\<close> and \<open>idc_fw_read\<close> put them at the start of \<open>Rx_Buffer\<close>).

  The block loops count in 32 bits and compare with a bound taken from the image, so
  they can wrap around and need not end: a download is an option, \<open>None\<close> when it does
  not return.
\<close>

definition FWCTRL_VALID :: u32 where "FWCTRL_VALID = 0x00000001"
definition FWCTRL_CHK :: u32 where "FWCTRL_CHK = 0x00000100"
definition FWCTRL_SWITCH :: u32 where "FWCTRL_SWITCH = 0x00010000"
definition FWCTRL_PROTECT :: u32 where "FWCTRL_PROTECT = 0x01000000"
definition FWGP1_RAMLOADED :: u32 where "FWGP1_RAMLOADED = 1"
definition FWGP1_IFETCH :: u32 where "FWGP1_IFETCH = 2"
definition FWGP1_MWAIT :: u32 where "FWGP1_MWAIT = 4"
definition CMD_WR_REG_RS_FWCTRL :: u8 where "CMD_WR_REG_RS_FWCTRL = 0x01"
definition CMD_WR_REG_RS_FWDTPNT :: u8 where "CMD_WR_REG_RS_FWDTPNT = 0x41"
definition CMD_WR_REG_RS_FWSTART :: u8 where "CMD_WR_REG_RS_FWSTART = 0x61"
definition CMD_WR_RAM_RS :: u8 where "CMD_WR_RAM_RS = 0x03"
definition CMD_WR_REG_IDC_RS_FWGP1 :: u8 where "CMD_WR_REG_IDC_RS_FWGP1 = 0x41"
definition DL_CODE_SIZE :: u32 where "DL_CODE_SIZE = 9 * 16384"
definition DL_DATA_SIZE :: u32 where "DL_DATA_SIZE = 3 * 16384"
definition DL_OFFSET_CODE :: u32 where "DL_OFFSET_CODE = 0"
definition DL_OFFSET_DATA :: u32 where "DL_OFFSET_DATA = DL_CODE_SIZE"
definition DL_OFFSET_CODE_CRC :: u32 where "DL_OFFSET_CODE_CRC = DL_OFFSET_DATA + DL_DATA_SIZE"
definition DL_OFFSET_DATA_CRC :: u32 where "DL_OFFSET_DATA_CRC = DL_OFFSET_CODE_CRC + 4"
definition DL_OFFSET_DTPNT :: u32 where "DL_OFFSET_DTPNT = DL_OFFSET_DATA_CRC + 4"
definition CODE_RAM_OFFSET :: u32 where "CODE_RAM_OFFSET = 0x8000"

type_synonym 'h step = "'h dev \<Rightarrow> (bool \<times> 'h dev) option"

text \<open>A sequence of steps that stops at the first failure (\<open>goto PEF24628E_DL_ERROR\<close>).\<close>

primrec dl_seq :: "'h step list \<Rightarrow> 'h step" where
  "dl_seq [] d = Some (True, d)"
| "dl_seq (f # fs) d =
     (case f d of None \<Rightarrow> None | Some (ok, d1) \<Rightarrow> if ok then dl_seq fs d1 else Some (False, d1))"

definition GET_UINT32_FROM_IMAGE :: "u8 list \<Rightarrow> u32" where
  "GET_UINT32_FROM_IMAGE p = get_le32 (p ! 3) (p ! 2) (p ! 1) (p ! 0)"

section \<open>The block loop\<close>

text \<open>
  \<open>for (adr = ...; adr < bound; adr += step)\<close>; \<open>snd_blk\<close> sends one block of 56 bytes
  for an address.
\<close>

partial_function (option) dl_blocks ::
    "(u32 \<Rightarrow> u8 list \<Rightarrow> 'h dev \<Rightarrow> bool \<times> 'h dev) \<Rightarrow> (u32 \<Rightarrow> nat \<Rightarrow> u8 list) \<Rightarrow>
     u32 \<Rightarrow> u32 \<Rightarrow> u32 \<Rightarrow> u32 \<Rightarrow> 'h step" where
  "dl_blocks snd_blk fw bound stp adr offset d =
     (if adr < bound
      then case snd_blk adr (fw offset DL_BLK_SIZE) d of
             (ok, d1) \<Rightarrow> if ok then dl_blocks snd_blk fw bound stp (adr + stp) (offset + 56) d1
                        else Some (False, d1)
      else Some (True, d))"

text \<open>
  The reference: the blocks that a loop from \<open>adr\<close> has to send, and sending a list of
  blocks one after the other.
\<close>

definition dl_plan :: "nat \<Rightarrow> u32 \<Rightarrow> u32 \<Rightarrow> u32 \<Rightarrow> (u32 \<times> u32) list" where
  "dl_plan n stp adr offset = map (\<lambda>i. (adr + of_nat i * stp, offset + of_nat i * 56)) [0..<n]"

fun dl_send ::
    "(u32 \<Rightarrow> u8 list \<Rightarrow> 'h dev \<Rightarrow> bool \<times> 'h dev) \<Rightarrow> (u32 \<Rightarrow> nat \<Rightarrow> u8 list) \<Rightarrow>
     (u32 \<times> u32) list \<Rightarrow> 'h dev \<Rightarrow> bool \<times> 'h dev" where
  "dl_send snd_blk fw [] d = (True, d)"
| "dl_send snd_blk fw ((adr, offset) # bs) d =
     (case snd_blk adr (fw offset DL_BLK_SIZE) d of
        (ok, d1) \<Rightarrow> if ok then dl_send snd_blk fw bs d1 else (False, d1))"

section \<open>Waiting for the checksum of the chip\<close>

text \<open>\<open>while (--counter && img_crc != last_rs_value) Poll_Check\<close>, then the two tests.\<close>

fun dl_crc_wait :: "'h bus \<Rightarrow> u32 \<Rightarrow> nat \<Rightarrow> 'h dev \<Rightarrow> nat \<times> 'h dev" where
  "dl_crc_wait b crc counter d =
     (if counter \<le> 1 then (0, d)
      else if crc = last_rs_value d then (counter - 1, d)
      else dl_crc_wait b crc (counter - 1) (snd (Pef24628e_Poll_Check b d)))"

declare dl_crc_wait.simps [simp del]

definition dl_crc_check :: "'h bus \<Rightarrow> u32 \<Rightarrow> nat \<Rightarrow> 'h step" where
  "dl_crc_check b crc counter d =
     (let (c, d1) = dl_crc_wait b crc counter d
      in if c = 0 then Some (False, d1)
         else if crc \<noteq> last_rs_value d1 then Some (False, d1) else Some (True, d1))"

section \<open>The SDFE (DSL) image\<close>

definition rs_cmd :: "'h bus \<Rightarrow> u8 \<Rightarrow> u32 \<Rightarrow> 'h step" where
  "rs_cmd b opcd param d = Some (Pef24628e_Send_RS_Msg b opcd param [] 0 d)"

definition rs_blk :: "'h bus \<Rightarrow> u32 \<Rightarrow> u8 list \<Rightarrow> 'h dev \<Rightarrow> bool \<times> 'h dev" where
  "rs_blk b adr bs d = Pef24628e_Send_RS_Msg b CMD_WR_RAM_RS adr bs DL_BLK_SIZE d"

definition dl_mark :: "'h step" where
  "dl_mark d = Some (True, d\<lparr>last_rs_value := 0xDEADBEEF\<rparr>)"

definition Pef24628e_DSL_Download :: "'h bus \<Rightarrow> (u32 \<Rightarrow> nat \<Rightarrow> u8 list) \<Rightarrow> 'h step" where
  "Pef24628e_DSL_Download b fw d =
     dl_seq
       [rs_cmd b CMD_WR_REG_RS_FWSTART 0,
        rs_cmd b CMD_WR_REG_RS_FWCTRL 0,
        dl_blocks (rs_blk b) fw (DL_CODE_SIZE div 4) 14 0 DL_OFFSET_CODE,
        dl_mark,
        rs_cmd b CMD_WR_REG_RS_FWCTRL FWCTRL_CHK,
        dl_crc_check b (GET_UINT32_FROM_IMAGE (fw DL_OFFSET_CODE_CRC 4)) 10,
        rs_cmd b CMD_WR_REG_RS_FWCTRL FWCTRL_SWITCH,
        dl_blocks (rs_blk b) fw (DL_DATA_SIZE div 4) 14 0 DL_OFFSET_DATA,
        dl_mark,
        rs_cmd b CMD_WR_REG_RS_FWCTRL (FWCTRL_CHK OR FWCTRL_SWITCH),
        dl_crc_check b (GET_UINT32_FROM_IMAGE (fw DL_OFFSET_DATA_CRC 4)) 10,
        rs_cmd b CMD_WR_REG_RS_FWDTPNT (GET_UINT32_FROM_IMAGE (fw DL_OFFSET_DTPNT 4)),
        rs_cmd b CMD_WR_REG_RS_FWCTRL FWCTRL_SWITCH,
        (\<lambda>d. Some (Pef24628e_Send_RS_Msg b CMD_WR_RAM_RS 0
                    [0, 0, 0, PEF24628E_ADR_DEVICE (nDevAddress d)] 4 d)),
        rs_cmd b CMD_WR_REG_RS_FWCTRL (FWCTRL_PROTECT OR FWCTRL_VALID)] d"

section \<open>The IDC image\<close>

definition idc_cmd :: "'h bus \<Rightarrow> u8 \<Rightarrow> u32 \<Rightarrow> 'h step" where
  "idc_cmd b opcd param d = Some (Pef24628e_Send_IDC_RS_Msg b opcd param [] 0 d)"

definition idc_blk :: "'h bus \<Rightarrow> u32 \<Rightarrow> u8 list \<Rightarrow> 'h dev \<Rightarrow> bool \<times> 'h dev" where
  "idc_blk b adr bs d = Pef24628e_Send_IDC_RS_Msg b CMD_WR_RAM_RS (adr div 4) bs DL_BLK_SIZE d"

text \<open>\<open>PEF24628E_IDC_FwInfo_t\<close>: the trailer of the image and what is computed from it.\<close>

record idc_fw_info =
  image_size :: u32
  offset_code :: u32
  offset_data :: u32
  boot_size :: u32
  code_size :: u32
  data_size :: u32

definition idc_read_info :: "(u32 \<Rightarrow> nat \<Rightarrow> u8 list) \<Rightarrow> u32 \<Rightarrow> idc_fw_info" where
  "idc_read_info fw n =
     (let oc = GET_UINT32_FROM_IMAGE (fw (n - 8) 4); od = GET_UINT32_FROM_IMAGE (fw (n - 4) 4)
      in \<lparr>image_size = n, offset_code = oc, offset_data = od, boot_size = oc,
          code_size = od - oc, data_size = (n - 20) - od\<rparr>)"

text \<open>
  The checks of the trailer.  \<open>e\<close> is \<open>end\<close>, the image size plus the address of the
  buffer \<open>Rx_Buffer\<close>.
\<close>

definition idc_fw_valid :: "u32 \<Rightarrow> idc_fw_info \<Rightarrow> bool" where
  "idc_fw_valid e f \<longleftrightarrow>
     \<not> image_size f - 4 > image_size f \<and> \<not> image_size f - 8 > image_size f \<and>
     \<not> offset_code f > e \<and> \<not> offset_data f > e \<and>
     \<not> code_size f > image_size f \<and> \<not> data_size f > image_size f"

definition Pef24628e_IDC_Download ::
    "'h bus \<Rightarrow> (u32 \<Rightarrow> nat \<Rightarrow> u8 list) \<Rightarrow> u32 \<Rightarrow> u32 \<Rightarrow> 'h step" where
  "Pef24628e_IDC_Download b fw rxbuf nLength d =
     (if nLength < 24 then Some (False, d)
      else let f = idc_read_info fw nLength
           in if \<not> idc_fw_valid (nLength + rxbuf) f then Some (False, d)
              else dl_seq
                [idc_cmd b CMD_WR_REG_IDC_RS_FWGP1 (FWGP1_IFETCH OR FWGP1_MWAIT),
                 idc_cmd b CMD_WR_REG_RS_FWCTRL 0,
                 dl_blocks (idc_blk b) fw (boot_size f) 56 0 DL_OFFSET_CODE,
                 dl_blocks (idc_blk b) fw (CODE_RAM_OFFSET + code_size f) 56 CODE_RAM_OFFSET (offset_code f),
                 dl_mark,
                 idc_cmd b CMD_WR_REG_RS_FWCTRL FWCTRL_CHK,
                 dl_crc_check b (GET_UINT32_FROM_IMAGE (fw (nLength - 16) 4)) 100,
                 idc_cmd b CMD_WR_REG_RS_FWCTRL FWCTRL_SWITCH,
                 dl_blocks (idc_blk b) fw (data_size f) 56 0 (offset_data f),
                 dl_mark,
                 idc_cmd b CMD_WR_REG_RS_FWCTRL (FWCTRL_CHK OR FWCTRL_SWITCH),
                 dl_crc_check b (GET_UINT32_FROM_IMAGE (fw (nLength - 12) 4)) 100,
                 idc_cmd b CMD_WR_REG_RS_FWCTRL FWCTRL_VALID] d)"

text \<open>The log line of \<open>Pef24628e_IDC_Start\<close> reads four registers through the raw pointer.\<close>

definition idc_start_trace :: "'h bus \<Rightarrow> 'h dev \<Rightarrow> 'h dev" where
  "idc_start_trace b d =
     (let h1 = snd (bus_rd b (uc_reg d + reg_off MCR_0) (hw d));
          h2 = snd (bus_rd b (uc_reg d + reg_off MCR_1) h1);
          h3 = snd (bus_rd b (uc_reg d + reg_off MCR_2) h2)
      in d\<lparr>hw := snd (bus_rd b (uc_reg d + reg_off MCR_3) h3)\<rparr>)"

definition Pef24628e_IDC_Start :: "'h bus \<Rightarrow> 'h dev \<Rightarrow> bool \<times> 'h dev" where
  "Pef24628e_IDC_Start b d =
     (let (ok, d1) = Pef24628e_Send_IDC_RS_Msg b CMD_WR_REG_IDC_RS_FWGP1 FWGP1_RAMLOADED [] 0 d
      in if \<not> ok then (False, d1)
         else let d2 = (if ActiveIf d1 = PEF24628E_IF_MPI then d1\<lparr>bSendIdcViaSciBridge := False\<rparr> else d1)
              in (True, idc_start_trace b (d2\<lparr>bFwDownloaded := True\<rparr>)))"

section \<open>The block loop sends the planned blocks\<close>

lemma dl_blocks_step:
  "adr < bound \<Longrightarrow> dl_blocks s fw bound stp adr off d =
     (case s adr (fw off DL_BLK_SIZE) d of
        (ok, d1) \<Rightarrow> if ok then dl_blocks s fw bound stp (adr + stp) (off + 56) d1 else Some (False, d1))"
  by (subst dl_blocks.simps) simp

lemma dl_blocks_done: "\<not> adr < bound \<Longrightarrow> dl_blocks s fw bound stp adr off d = Some (True, d)"
  by (subst dl_blocks.simps) simp

lemma dl_plan_Suc: "dl_plan (Suc n) stp adr off = (adr, off) # dl_plan n stp (adr + stp) (off + 56)"
  unfolding dl_plan_def map_upt_Suc_shift
  by (simp add: algebra_simps)

text \<open>
  \<open>n\<close> steps reach the bound without a wrap-around and \<open>n - 1\<close> do not: then the loop
  returns, and its result is that of sending the \<open>n\<close> planned blocks.
\<close>

lemma dl_blocks_plan:
  "unat adr + n * unat stp < 2 ^ 32 \<Longrightarrow> unat bound \<le> unat adr + n * unat stp \<Longrightarrow>
   (\<forall>k < n. unat adr + k * unat stp < unat bound) \<Longrightarrow>
     dl_blocks s fw bound stp adr off d = Some (dl_send s fw (dl_plan n stp adr off) d)"
proof (induction n arbitrary: adr off d)
  case 0
  then show ?case by (simp add: dl_blocks_done word_less_nat_alt dl_plan_def)
next
  case (Suc n)
  then have lt: "adr < bound" by (auto simp: word_less_nat_alt)
  have w: "unat (adr + stp) = unat adr + unat stp"
    using Suc.prems(1) by (intro unat_add_lem [THEN iffD1]) simp
  have "dl_blocks s fw bound stp (adr + stp) (off + 56) d1 =
      Some (dl_send s fw (dl_plan n stp (adr + stp) (off + 56)) d1)" for d1
  proof (rule Suc.IH)
    show "unat (adr + stp) + n * unat stp < 2 ^ 32"
      and "unat bound \<le> unat (adr + stp) + n * unat stp" using Suc.prems(1,2) w by simp_all
    show "\<forall>k < n. unat (adr + stp) + k * unat stp < unat bound"
    proof (intro allI impI)
      fix k
      assume "k < n"
      then have "unat adr + Suc k * unat stp < unat bound" using Suc.prems(3) by (blast intro: Suc_mono)
      then show "unat (adr + stp) + k * unat stp < unat bound" using w by simp
    qed
  qed
  then show ?case
    by (simp add: dl_blocks_step [OF lt] dl_plan_Suc split: prod.splits)
qed

text \<open>With a positive step and room for one more step the number of blocks is a division.\<close>

lemma dl_blocks_returns:
  assumes "0 < unat stp" and "unat bound + unat stp \<le> 2 ^ 32" and "adr \<le> bound"
  defines "n \<equiv> (unat bound - unat adr + unat stp - 1) div unat stp"
  shows "dl_blocks s fw bound stp adr off d = Some (dl_send s fw (dl_plan n stp adr off) d)"
proof (rule dl_blocks_plan)
  have le: "unat adr \<le> unat bound" using assms(3) by (simp add: word_le_nat_alt)
  define m where "m = unat bound - unat adr"
  have n: "n = (m + unat stp - 1) div unat stp" by (simp add: n_def m_def)
  have up: "n * unat stp \<le> m + unat stp - 1" unfolding n by (rule div_times_less_eq_dividend)
  have dn: "m \<le> n * unat stp"
    using div_mult_mod_eq [of "m + unat stp - 1" "unat stp"] mod_less_divisor [OF assms(1), of "m + unat stp - 1"]
    unfolding n by linarith
  show "unat adr + n * unat stp < 2 ^ 32" using up assms(1,2) le unfolding m_def by linarith
  show "unat bound \<le> unat adr + n * unat stp" using dn le unfolding m_def by linarith
  show "\<forall>k < n. unat adr + k * unat stp < unat bound"
  proof (intro allI impI)
    fix k
    assume "k < n"
    then have "Suc k * unat stp \<le> n * unat stp" by (intro mult_right_mono) simp_all
    then show "unat adr + k * unat stp < unat bound"
      using up assms(1) le unfolding m_def by simp
  qed
qed

section \<open>Every download returns, and keeps the state well formed\<close>

text \<open>
  \<open>step_ok f\<close>: the step returns on every state, and takes well-formed states to
  well-formed states.  Sequences and block loops inherit it.
\<close>

definition step_ok :: "'h step \<Rightarrow> bool" where
  "step_ok f \<longleftrightarrow> (\<forall>d. \<exists>r. f d = Some r \<and> (dev_wf d \<longrightarrow> dev_wf (snd r)))"

lemma step_okI: "(\<And>d. \<exists>r. f d = Some r \<and> (dev_wf d \<longrightarrow> dev_wf (snd r))) \<Longrightarrow> step_ok f"
  by (simp add: step_ok_def)

lemma step_okD: "step_ok f \<Longrightarrow> \<exists>r. f d = Some r \<and> (dev_wf d \<longrightarrow> dev_wf (snd r))"
  by (simp add: step_ok_def)

lemma step_ok_Some: "(\<And>d. dev_wf d \<Longrightarrow> dev_wf (snd (g d))) \<Longrightarrow> step_ok (\<lambda>d. Some (g d))"
  by (rule step_okI) simp

lemma step_ok_seq: "\<forall>f \<in> set fs. step_ok f \<Longrightarrow> step_ok (dl_seq fs)"
proof (induction fs)
  case Nil
  show ?case by (rule step_okI) simp
next
  case (Cons f fs)
  show ?case
  proof (rule step_okI)
    fix d
    obtain ok d1 where f: "f d = Some (ok, d1)" "dev_wf d \<longrightarrow> dev_wf d1"
      using step_okD [of f d] Cons.prems by force
    obtain r where r: "dl_seq fs d1 = Some r" "dev_wf d1 \<longrightarrow> dev_wf (snd r)"
      using step_okD [of "dl_seq fs" d1] Cons by auto
    show "\<exists>r. dl_seq (f # fs) d = Some r \<and> (dev_wf d \<longrightarrow> dev_wf (snd r))"
      using f r by (cases ok) auto
  qed
qed

lemma dl_send_wf:
  "dev_wf d \<Longrightarrow> (\<And>d a o'. dev_wf d \<Longrightarrow> dev_wf (snd (s a (fw o' DL_BLK_SIZE) d))) \<Longrightarrow>
     dev_wf (snd (dl_send s fw bs d))"
proof (induction s fw bs d rule: dl_send.induct)
  case (2 s fw adr offset bs d)
  obtain ok d1 where e: "s adr (fw offset DL_BLK_SIZE) d = (ok, d1)" by fastforce
  then have "dev_wf d1" using "2.prems"(1) "2.prems"(2) [of d adr offset] by simp
  then show ?case using 2 e by auto
qed simp

lemma step_ok_blocks:
  assumes "\<And>a o' d. dev_wf d \<Longrightarrow> dev_wf (snd (s a (fw o' DL_BLK_SIZE) d))"
    and "0 < unat stp" and "unat bound + unat stp \<le> 2 ^ 32" and "adr \<le> bound"
  shows "step_ok (dl_blocks s fw bound stp adr off)"
  by (rule step_okI)
     (use assms(1) in \<open>auto simp: dl_blocks_returns [OF assms(2-4)] intro!: dl_send_wf\<close>)

lemma crc_wait_wf: "dev_wf d \<Longrightarrow> dev_wf (snd (dl_crc_wait b crc n d))"
proof (induction b crc n d rule: dl_crc_wait.induct)
  case (1 b crc n d)
  then show ?case
    by (subst dl_crc_wait.simps) (simp add: Poll_Check_wf)
qed

lemma step_ok_crc: "step_ok (dl_crc_check b crc n)"
proof (rule step_okI)
  fix d :: "'a dev"
  obtain c d1 where "dl_crc_wait b crc n d = (c, d1)" by fastforce
  then show "\<exists>r. dl_crc_check b crc n d = Some r \<and> (dev_wf d \<longrightarrow> dev_wf (snd r))"
    using crc_wait_wf [of d b crc n] by (simp add: dl_crc_check_def) (metis snd_conv)
qed

lemma step_ok_mark: "step_ok dl_mark"
  by (rule step_okI) (simp add: dl_mark_def)

lemma step_ok_cmd: "step_ok (rs_cmd b c p)" "step_ok (idc_cmd b c p)"
  by (rule step_okI, simp add: rs_cmd_def idc_cmd_def Send_RS_Msg_wf)+

lemma blk_wf:
  assumes "length bs = DL_BLK_SIZE" and "dev_wf d"
  shows "dev_wf (snd (rs_blk b a bs d))" "dev_wf (snd (idc_blk b a bs d))"
  using assms by (simp_all add: rs_blk_def idc_blk_def Send_RS_Msg_wf DL_BLK_SIZE_def)

lemmas step_ok_intros = step_ok_cmd step_ok_crc step_ok_mark step_ok_blocks blk_wf

lemma step_ok_DSL:
  assumes "\<And>o' n. length (fw o' n) = n"
  shows "step_ok (Pef24628e_DSL_Download b fw)"
proof -
  have blk: "step_ok (dl_blocks (rs_blk b) fw bound 14 0 off)" if "unat bound \<le> 100000" for bound off
    by (rule step_ok_blocks) (use assms that in \<open>auto intro: blk_wf\<close>)
  show ?thesis
    unfolding Pef24628e_DSL_Download_def
    by (rule step_ok_seq)
       (simp add: step_ok_cmd step_ok_crc step_ok_mark blk DL_CODE_SIZE_def DL_DATA_SIZE_def
         step_ok_Some Send_RS_Msg_wf)
qed

text \<open>
  For an image whose trailer passes the checks and whose boot part fits in it, with at
  most 2 GiB, none of the block loops wraps around.
\<close>

lemma step_ok_IDC:
  assumes "\<And>o' n. length (fw o' n) = n" and "unat nLength \<le> 2 ^ 31"
    and "boot_size (idc_read_info fw nLength) \<le> nLength"
  shows "step_ok (Pef24628e_IDC_Download b fw rxbuf nLength)"
proof -
  define f where "f = idc_read_info fw nLength"
  have size: "image_size f = nLength" by (simp add: f_def idc_read_info_def Let_def)
  have blk: "step_ok (dl_blocks (idc_blk b) fw bound 56 adr off)"
    if "unat bound \<le> 2 ^ 31 + 32768" "adr \<le> bound" for bound adr off
    by (rule step_ok_blocks) (use assms(1) that in \<open>auto intro: blk_wf\<close>)
  have seq: "step_ok (dl_seq
      [idc_cmd b CMD_WR_REG_IDC_RS_FWGP1 (FWGP1_IFETCH OR FWGP1_MWAIT),
       idc_cmd b CMD_WR_REG_RS_FWCTRL 0,
       dl_blocks (idc_blk b) fw (boot_size f) 56 0 DL_OFFSET_CODE,
       dl_blocks (idc_blk b) fw (CODE_RAM_OFFSET + code_size f) 56 CODE_RAM_OFFSET (offset_code f),
       dl_mark,
       idc_cmd b CMD_WR_REG_RS_FWCTRL FWCTRL_CHK,
       dl_crc_check b (GET_UINT32_FROM_IMAGE (fw (nLength - 16) 4)) 100,
       idc_cmd b CMD_WR_REG_RS_FWCTRL FWCTRL_SWITCH,
       dl_blocks (idc_blk b) fw (data_size f) 56 0 (offset_data f),
       dl_mark,
       idc_cmd b CMD_WR_REG_RS_FWCTRL (FWCTRL_CHK OR FWCTRL_SWITCH),
       dl_crc_check b (GET_UINT32_FROM_IMAGE (fw (nLength - 12) 4)) 100,
       idc_cmd b CMD_WR_REG_RS_FWCTRL FWCTRL_VALID])"
    if "idc_fw_valid (nLength + rxbuf) f"
  proof -
    have cs: "unat (code_size f) \<le> 2 ^ 31" "unat (data_size f) \<le> 2 ^ 31" "unat (boot_size f) \<le> 2 ^ 31"
      using that assms(2,3) size
      unfolding idc_fw_valid_def f_def [symmetric] word_less_nat_alt word_le_nat_alt not_less
      by auto
    have c: "unat (CODE_RAM_OFFSET + code_size f) = 32768 + unat (code_size f)"
      using cs(1) by (simp add: CODE_RAM_OFFSET_def unat_add_lem [THEN iffD1])
    then have "CODE_RAM_OFFSET \<le> CODE_RAM_OFFSET + code_size f"
      by (simp add: word_le_nat_alt CODE_RAM_OFFSET_def)
    then show ?thesis
      using cs c by (intro step_ok_seq) (simp add: step_ok_cmd step_ok_crc step_ok_mark blk)
  qed
  show ?thesis
  proof (rule step_okI)
    fix d :: "'a dev"
    show "\<exists>r. Pef24628e_IDC_Download b fw rxbuf nLength d = Some r \<and> (dev_wf d \<longrightarrow> dev_wf (snd r))"
      using step_okD [OF seq, of d]
      unfolding Pef24628e_IDC_Download_def f_def [symmetric] Let_def by auto
  qed
qed

lemma IDC_Start_wf [wf_intro]: "dev_wf d \<Longrightarrow> dev_wf (snd (Pef24628e_IDC_Start b d))"
  by (simp add: Pef24628e_IDC_Start_def idc_start_trace_def Let_def case_prod_beta Send_RS_Msg_wf)

end
