(* ===== verification/Pef_Drv.thy ===== *)
theory Pef_Drv
  imports Pef_Download
begin

text \<open>
  The device interface that the application uses (\<open>pef24628_drv.c\<close>): control, read
  and write of the modem device, and the reads of the two firmware images from the
  SPI flash.  \<open>flash off n\<close> stands for the \<open>n\<close> bytes that \<open>rt_device_read\<close> of the
  flash device delivers from offset \<open>off\<close>.
\<close>

definition RT_EOK :: int where "RT_EOK = 0"
definition RT_ERROR :: int where "RT_ERROR = 1"
definition IDC_FW_OFFSET :: u32 where "IDC_FW_OFFSET = 0x32000"
definition DSL_FW_OFFSET :: u32 where "DSL_FW_OFFSET = 0"

definition idc_fw_read :: "(u32 \<Rightarrow> nat \<Rightarrow> u8 list) \<Rightarrow> u32 \<Rightarrow> nat \<Rightarrow> u8 list" where
  "idc_fw_read flash offset len = flash (IDC_FW_OFFSET + offset) len"

definition dsl_fw_read :: "(u32 \<Rightarrow> nat \<Rightarrow> u8 list) \<Rightarrow> u32 \<Rightarrow> nat \<Rightarrow> u8 list" where
  "dsl_fw_read flash offset len = flash (DSL_FW_OFFSET + offset) len"

text \<open>
  The numbers of the control commands.  Four of them are plain, the others carry the
  magic letter \<open>'U'\<close> in the second byte (\<open>_IO(magic, nr)\<close>), while \<open>cmd\<close> is a byte.
\<close>

definition PEF_IO :: "nat \<Rightarrow> nat" where "PEF_IO nr = 0x5500 + nr"
definition FIO_GET_VERSION :: nat where "FIO_GET_VERSION = PEF_IO 2"
definition FIO_SET_CONFIG :: nat where "FIO_SET_CONFIG = PEF_IO 11"
definition FIO_GET_CONFIG :: nat where "FIO_GET_CONFIG = PEF_IO 12"
definition FIO_DOWNLOAD_FW :: nat where "FIO_DOWNLOAD_FW = 13"
definition FIO_SET_REG :: nat where "FIO_SET_REG = PEF_IO 14"
definition FIO_GET_REG :: nat where "FIO_GET_REG = PEF_IO 15"
definition FIO_SET_IF :: nat where "FIO_SET_IF = 16"
definition FIO_GET_IF :: nat where "FIO_GET_IF = PEF_IO 17"
definition FIO_DEV_INIT :: nat where "FIO_DEV_INIT = 18"
definition FIO_POLL_CHECK :: nat where "FIO_POLL_CHECK = 19"
definition FIO_WRITE_AUX :: nat where "FIO_WRITE_AUX = PEF_IO 20"
definition FIO_READ_AUX :: nat where "FIO_READ_AUX = PEF_IO 21"
definition FIO_DEV_ANY :: nat where "FIO_DEV_ANY = PEF_IO 26"

lemmas fio_defs =
  PEF_IO_def FIO_GET_VERSION_def FIO_SET_CONFIG_def FIO_GET_CONFIG_def FIO_DOWNLOAD_FW_def FIO_SET_REG_def
  FIO_GET_REG_def FIO_SET_IF_def FIO_GET_IF_def FIO_DEV_INIT_def FIO_POLL_CHECK_def FIO_WRITE_AUX_def
  FIO_READ_AUX_def FIO_DEV_ANY_def

datatype fw_core = PEF24628E_IDC | PEF24628E_DSL | Other_Core

text \<open>
  What \<open>args\<close> points to, for every command; each command looks at its own part.  The
  caller's interface variable and register record are also written.
\<close>

record ioctl_args =
  a_if :: nat
  a_addr :: u32
  a_value :: u32
  a_core :: fw_core
  a_size :: u32
  a_cfg :: dev_init

definition CMD_WR_REG_AUX_SCI_IF_MODE :: u8 where "CMD_WR_REG_AUX_SCI_IF_MODE = 0xA9"

definition drv_download ::
    "'h bus \<Rightarrow> (u32 \<Rightarrow> nat \<Rightarrow> u8 list) \<Rightarrow> u32 \<Rightarrow> fw_core \<Rightarrow> u32 \<Rightarrow> 'h dev \<Rightarrow> (int \<times> 'h dev) option" where
  "drv_download b flash rxbuf core n d =
     (case core of
        PEF24628E_IDC \<Rightarrow>
          (case Pef24628e_IDC_Download b (idc_fw_read flash) rxbuf n d of None \<Rightarrow> None
           | Some (ok, d1) \<Rightarrow>
               let (ok2, d2) = Pef24628e_IDC_Start b d1
               in Some (if ok \<and> ok2 then RT_EOK else RT_ERROR, d2))
      | PEF24628E_DSL \<Rightarrow>
          (case Pef24628e_DSL_Download b (dsl_fw_read flash) d of None \<Rightarrow> None
           | Some (ok, d1) \<Rightarrow> Some (if ok then RT_EOK else RT_ERROR, d1))
      | Other_Core \<Rightarrow> Some (RT_EOK, d))"

definition drv_dev_init :: "'h bus \<Rightarrow> dev_init \<Rightarrow> u8 list option \<Rightarrow> 'h dev \<Rightarrow> int \<times> 'h dev" where
  "drv_dev_init b cfg mem d =
     (if \<not> bInit d
      then let (ok, d1) = Pef24628e_Init b cfg mem (d\<lparr>irq_vector := irq_vector_init cfg\<rparr>)
           in if \<not> ok then (RT_ERROR, d1)
              else (RT_EOK, snd (Pef24628e_Send_Aux_Msg b CMD_WR_REG_AUX_SCI_IF_MODE 0x0A d1))
      else (RT_EOK, d))"

definition pef24628_control ::
    "'h bus \<Rightarrow> (u32 \<Rightarrow> nat \<Rightarrow> u8 list) \<Rightarrow> u32 \<Rightarrow> u8 list option \<Rightarrow> u8 \<Rightarrow> ioctl_args \<Rightarrow> 'h dev \<Rightarrow>
     (int \<times> ioctl_args \<times> 'h dev) option" where
  "pef24628_control b flash rxbuf mem cmd a d =
     (let c = unat cmd
      in if c = FIO_GET_VERSION \<or> c = FIO_SET_CONFIG \<or> c = FIO_GET_CONFIG then Some (RT_EOK, a, d)
         else if c = FIO_SET_IF then Some (RT_EOK, a, snd (Pef24628e_Set_If (a_if a) d))
         else if c = FIO_GET_IF then Some (RT_EOK, a\<lparr>a_if := Pef24628e_Get_If d\<rparr>, d)
         else if c = FIO_SET_REG then Some (RT_EOK, a, Pef24628e_Set_Register b (a_addr a) (a_value a) d)
         else if c = FIO_GET_REG
         then let (v, d1) = Pef24628e_Get_Register b (a_addr a) d in Some (RT_EOK, a\<lparr>a_value := v\<rparr>, d1)
         else if c = FIO_DOWNLOAD_FW
         then (case drv_download b flash rxbuf (a_core a) (a_size a) d of None \<Rightarrow> None
               | Some (ret, d1) \<Rightarrow> Some (ret, a, d1))
         else if c = FIO_DEV_INIT then let (ret, d1) = drv_dev_init b (a_cfg a) mem d in Some (ret, a, d1)
         else if c = FIO_POLL_CHECK
         then let (r, d1) = Pef24628e_Poll_Check b d in Some ((if r then 1 else 0), a, d1)
         else if c = FIO_WRITE_AUX
         then if \<not> bInit d
              then let (ok, d1) = Pef24628e_Send_Aux_Msg b (ucast (a_addr a)) (ucast (a_value a)) d
                   in Some (if ok then RT_EOK else RT_ERROR, a, d1)
              else Some (RT_EOK, a, d)
         else if c = FIO_READ_AUX
         then let (ok, d1) = Pef24628e_Send_Aux_Msg b (ucast (a_addr a)) (ucast (a_value a)) d
              in Some (if ok then RT_EOK else RT_ERROR, a\<lparr>a_value := last_aux_value d1\<rparr>, d1)
         else if c = FIO_DEV_ANY then Some (RT_EOK, a, snd (Pef24628e_Send_Any_Msg b d))
         else Some (RT_ERROR, a, d))"

text \<open>Read and write return an unsigned size: a negative count of the driver is a huge one.\<close>

definition pef24628_read :: "'h bus \<Rightarrow> nat \<Rightarrow> 'h dev \<Rightarrow> u32 \<times> u8 list \<times> 'h dev" where
  "pef24628_read b n d =
     (let (nBytes, bs, d1) = Pef24628e_Get_IDC_Msg b (int n) d
      in if nBytes < 0 then (word_of_int (-1), bs, d1) else (word_of_int nBytes, bs, d1))"

definition pef24628_write :: "'h bus \<Rightarrow> u8 list \<Rightarrow> 'h dev \<Rightarrow> u32 \<times> 'h dev" where
  "pef24628_write b bs d = (let (n, d1) = Pef24628e_Send_IDC_Msg b bs d in (word_of_int n, d1))"

section \<open>The interface keeps the state well formed\<close>

lemma Init_wf:
  assumes "dev_shape d" and "length buf = 132" and "reg_offset cfg \<noteq> 0" and "ActiveIf d = PEF24628E_IF_MPI"
  shows "fst (Pef24628e_Init b cfg (Some buf) d)" "dev_wf (snd (Pef24628e_Init b cfg (Some buf) d))"
    "bInit (snd (Pef24628e_Init b cfg (Some buf) d))"
proof -
  have "dev_shape (d\<lparr>bRxFifoFull := False, uStatistics := 0, uLastCmdId := 0, uLastAckId := 0,
      bFwDownloaded := False, nDevAddress := 0x0F\<rparr>)"
    using assms(1) by (simp add: dev_shape_def)
  note * = MPI_Init_wf [OF this assms(2,3), of b]
  show "fst (Pef24628e_Init b cfg (Some buf) d)" "dev_wf (snd (Pef24628e_Init b cfg (Some buf) d))"
    "bInit (snd (Pef24628e_Init b cfg (Some buf) d))"
    using assms(4) * by (simp_all add: Pef24628e_Init_def)
qed

lemma drv_dev_init_wf:
  assumes "dev_shape d" and "\<not> bInit d" and "length buf = 132" and "reg_offset cfg \<noteq> 0"
    and "ActiveIf d = PEF24628E_IF_MPI"
  shows "fst (drv_dev_init b cfg (Some buf) d) = RT_EOK" "dev_wf (snd (drv_dev_init b cfg (Some buf) d))"
proof -
  have "dev_shape (d\<lparr>irq_vector := irq_vector_init cfg\<rparr>)"
    and "ActiveIf (d\<lparr>irq_vector := irq_vector_init cfg\<rparr>) = PEF24628E_IF_MPI"
    using assms(1,5) by (simp_all add: dev_shape_def)
  note * = Init_wf [OF this(1) assms(3,4) this(2), of b]
  show "fst (drv_dev_init b cfg (Some buf) d) = RT_EOK" "dev_wf (snd (drv_dev_init b cfg (Some buf) d))"
    using assms(2) * by (simp_all add: drv_dev_init_def case_prod_beta Send_Aux_Msg_wf)
qed

lemma read_wf [wf_intro]: "dev_wf d \<Longrightarrow> dev_wf (snd (snd (pef24628_read b n d)))"
  using Get_IDC_Msg_wf [of d b "int n"] by (simp add: pef24628_read_def case_prod_beta)

lemma write_wf [wf_intro]:
  "dev_wf d \<Longrightarrow> length bs \<le> 128 \<or> \<not> bSendIdcViaSciBridge d \<Longrightarrow> dev_wf (snd (pef24628_write b bs d))"
  by (simp add: pef24628_write_def case_prod_beta Send_IDC_Msg_wf)

lemma control_poll:
  "pef24628_control b flash rxbuf mem 19 a d =
     Some ((if fst (Pef24628e_Poll_Check b d) then 1 else 0), a, snd (Pef24628e_Poll_Check b d))"
  by (simp add: pef24628_control_def fio_defs Let_def case_prod_beta)

section \<open>Commands that cannot be reached\<close>

text \<open>
  A byte is never one of the two-byte command numbers: only four commands have an
  effect, every other one is answered with an error and changes nothing.
\<close>

lemma control_dead:
  assumes "cmd \<notin> {13, 16, 18, 19}"
  shows "pef24628_control b flash rxbuf mem cmd a d = Some (RT_ERROR, a, d)"
proof -
  have "unat cmd \<noteq> 13" "unat cmd \<noteq> 16" "unat cmd \<noteq> 18" "unat cmd \<noteq> 19"
    using assms by (simp_all add: word_unat_eq_iff)
  moreover have "unat cmd < 256" using unsigned_less [of cmd] by simp
  ultimately show ?thesis
    by (simp add: pef24628_control_def fio_defs Let_def)
qed

end
