(* ===== verification/Pef_Marks.thy ===== *)
theory Pef_Marks
  imports Pef_Drv
begin

text \<open>
  The two marks of an access outside an array, along the calls of the driver.  \<open>overread\<close> is set by the receive
  interrupt of the MPI interface and by nothing else; \<open>oob\<close> stays set once it is, so the send call over
  the bridge shows whether its frame left the transmit buffer.
\<close>

section \<open>Reads of the FIFO memory\<close>

lemma overread_sel [simp]:
  "overread (snd (REG_GET b r d)) = overread d" "overread (snd (REG_GET_n b r n d)) = overread d"
  "overread (REG_SET b r v d) = overread d" "overread (REG_SET_list b r vs d) = overread d"
  "overread (BFLD b r m v d) = overread d" "overread (upd_wr_blk f d) = overread d"
  "overread (fifo_put off bs d) = overread d" "overread (tx_put off bs d) = overread d"
  "overread (mpi_track_ack i t d) = overread d" "overread (rx_switch_block b r m d) = overread d"
  "overread (Pef24628e_Sci_XprInt b d) = overread d" "overread (sci_tx_reset b d) = overread d"
  "overread (rx_unmask b d) = overread d" "overread (rd_release d) = overread d"
  by (simp_all add: reg_access upd_wr_blk_def fifo_put_def tx_put_def mpi_track_ack_def rx_switch_block_def
      Pef24628e_Sci_XprInt_def sci_tx_reset_def rx_unmask_def rd_release_def)

lemma overread_TP_Ack [simp]: "overread (snd (Pef24628e_Send_TP_Ack b p nak d)) = overread d"
  by (simp add: Pef24628e_Send_TP_Ack_def Let_def)

text \<open>The analysis of a frame looks at its first seven bytes.\<close>

lemma frame_overread:
  assumes "pData (wr_blk d) + 7 \<le> length (FifoBuffer d)"
  shows "overread (snd (Pef24628e_Sci_Process_Frame b d)) = overread d"
proof -
  have "overread (sci_process_rs_ack p n e) = overread e" if "p + 7 \<le> length (FifoBuffer e)" for p n and e :: "'a dev"
    using that by (simp add: sci_process_rs_ack_def Let_def fifo_look_def)
  moreover have "overread (snd (sci_process_tp b p n e)) = overread e" if "p + 7 \<le> length (FifoBuffer e)" for p n and e :: "'a dev"
    using that by (simp add: sci_process_tp_def Let_def)
  ultimately show ?thesis using assms by (simp add: Pef24628e_Sci_Process_Frame_def Let_def)
qed

lemma rme_store_overread:
  assumes "dev_wf d"
  shows "overread (snd (sci_rme_store b len d)) = overread d"
proof -
  define r where "r = REG_GET_n b SCI_EGRESS len (upd_wr_blk (\<lambda>k. k\<lparr>viaBridge := True\<rparr>) (d\<lparr>SciRxState := SCI_RX_ACTIVE\<rparr>))"
  define d3 where "d3 = upd_wr_blk (\<lambda>k. k\<lparr>nBytes := (nBytes k + len) mod 65536\<rparr>)
      (fifo_put (pData (wr_blk d) + nBytes (wr_blk d)) (fst r) (snd r))"
  have "pData (wr_blk d3) = pData (wr_blk d)" "length (FifoBuffer d3) = length (FifoBuffer d)"
    using dev_wfD(1,3)[OF assms] by (simp_all add: d3_def r_def wr_blk_def upd_wr_blk_def fifo_put_def reg_access)
  then have "overread (snd (Pef24628e_Sci_Process_Frame b d3)) = overread d3"
    using dev_wfD(2)[OF assms] dev_wf_wr_blk(3)[OF assms] by (intro frame_overread) simp
  moreover have "overread d3 = overread d" by (simp add: d3_def r_def)
  ultimately show ?thesis
    by (simp add: sci_rme_store_def Let_def case_prod_beta flip: r_def d3_def)
qed

lemma RmeInt_overread: "dev_wf d \<Longrightarrow> overread (Pef24628e_Sci_RmeInt b d) = overread d"
  by (simp add: Pef24628e_Sci_RmeInt_def Let_def case_prod_beta sci_rme_accept_def rme_store_overread)

lemma RpfInt_overread: "overread (Pef24628e_Sci_RpfInt b d) = overread d"
  by (simp add: Pef24628e_Sci_RpfInt_def Let_def case_prod_beta)

text \<open>Well formed with the mark \<open>q\<close>, through a chain of \<open>let\<close> and \<open>if\<close>.\<close>

definition marked :: "bool \<Rightarrow> 'h dev \<Rightarrow> bool" where
  "marked q d \<longleftrightarrow> dev_wf d \<and> overread d = q"

lemma marked_chain:
  "marked q x \<Longrightarrow> (\<And>y. marked q y \<Longrightarrow> marked q (f y)) \<Longrightarrow> marked q (let y = x in f y)"
  "marked q (snd z) \<Longrightarrow> (\<And>v y. marked q y \<Longrightarrow> marked q (g v y)) \<Longrightarrow> marked q (let (v, y) = z in g v y)"
  "(c \<Longrightarrow> marked q x) \<Longrightarrow> (\<not> c \<Longrightarrow> marked q x') \<Longrightarrow> marked q (if c then x else x')"
  by (simp_all add: Let_def case_prod_beta)

lemma marked_ops:
  "marked q d \<Longrightarrow> marked q (snd (REG_GET b r d))" "marked q d \<Longrightarrow> marked q (REG_SET b r v d)"
  "marked q d \<Longrightarrow> marked q (sci_tx_reset b d)" "marked q d \<Longrightarrow> marked q (d\<lparr>uStatistics := w\<rparr>)"
  "marked q d \<Longrightarrow> marked q (Pef24628e_Sci_XprInt b d)" "marked q d \<Longrightarrow> marked q (Pef24628e_Sci_RpfInt b d)"
  "marked q d \<Longrightarrow> marked q (Pef24628e_Sci_RmeInt b d)" "marked q d \<Longrightarrow> marked q (upd_wr_blk (\<lambda>k. k\<lparr>nBytes := 0\<rparr>) d)"
  by (auto simp: marked_def RpfInt_overread RmeInt_overread wr_blk_def intro: wf_intro)

lemma marked_let_val: "(\<And>v. marked q (f v)) \<Longrightarrow> marked q (let v = x in f v)"
  by (simp add: Let_def)

lemma Sci_IntHandler_overread:
  assumes "dev_wf d"
  shows "overread (Pef24628e_Sci_IntHandler b d) = overread d"
proof -
  have "marked (overread d) d" using assms by (simp add: marked_def)
  then have "marked (overread d) (Pef24628e_Sci_IntHandler b d)"
    unfolding Pef24628e_Sci_IntHandler_def by (intro marked_chain marked_let_val marked_ops)
  then show ?thesis by (simp add: marked_def)
qed

text \<open>
  The receive interrupt looks at a header in the four bytes after what the block holds.  These lie
  behind the FIFO memory exactly when the block is the last one and holds more than 128 bytes.
\<close>

lemma rx_commit_overread:
  assumes "dev_wf d"
  shows "overread (mpi_rx_commit b bs d) \<longleftrightarrow>
    overread d \<or> bFwDownloaded d \<and> wrI d = 19 \<and> 128 < nBytes (wr_blk d)"
proof -
  note w = dev_wf_wr_blk(1,2)[OF assms] dev_wfD(2,3)[OF assms]
  have "2640 < wrI d * 132 + nBytes (wr_blk d) + 4 \<longleftrightarrow> wrI d = 19 \<and> 128 < nBytes (wr_blk d)"
    using w(2,4) by (cases "wrI d = 19") auto
  then show ?thesis using w(1,3)
    by (auto simp: mpi_rx_commit_def Let_def) (simp_all add: fifo_put_def upd_wr_blk_def)
qed

lemma RxInt_overread:
  assumes "dev_wf d"
  shows "overread (Pef24628e_Mpi_RxInt b d) \<longleftrightarrow> overread d \<or>
    fst (REG_GET b MPI_EFSTAT d) AND 0x3F \<noteq> 0 \<and> bFwDownloaded d \<and> wrI d = 19 \<and> 128 < nBytes (wr_blk d)"
proof -
  have c: "overread (mpi_rx_commit b bs (snd (REG_GET_n b MPI_EGRESS n (snd (REG_GET b MPI_EFSTAT d))))) \<longleftrightarrow>
      overread d \<or> bFwDownloaded d \<and> wrI d = 19 \<and> 128 < nBytes (wr_blk d)" for bs n
    using rx_commit_overread[of "snd (REG_GET_n b MPI_EGRESS n (snd (REG_GET b MPI_EFSTAT d)))" b bs] assms
    by (simp add: wr_blk_def) (simp add: reg_access)
  have z: "4 * unat v = 0 \<longleftrightarrow> v = 0" for v :: u8 by (simp add: unat_eq_zero)
  show ?thesis
    unfolding Pef24628e_Mpi_RxInt_def Let_def case_prod_beta using mpi_rx_len_fits c z
    by simp
qed

text \<open>The whole interrupt handler; the serial part runs first.\<close>

lemma IntHandler_overread:
  fixes b :: "'h bus" and d :: "'h dev"
  assumes "dev_wf d"
  defines "s \<equiv> REG_GET b MPI_EINT_EN (snd (REG_GET b MPI_EINT d))"
  defines "ista \<equiv> fst (REG_GET b MPI_EINT d) AND fst s"
  defines "e \<equiv> (if ista AND MPI_MPINT_INTSCI \<noteq> 0 then Pef24628e_Sci_IntHandler b (snd s) else snd s)"
  shows "overread (Pef24628e_IntHandler b d) \<longleftrightarrow> overread d \<or>
    uc_reg d \<noteq> 0 \<and> ista AND MPI_MPINT_INTIDC \<noteq> 0 \<and> fst (REG_GET b MPI_EFSTAT e) AND 0x3F \<noteq> 0 \<and>
    bFwDownloaded e \<and> wrI e = 19 \<and> 128 < nBytes (wr_blk e)"
proof -
  have s: "dev_wf (snd s)" "overread (snd s) = overread d" using assms(1) by (simp_all add: s_def)
  have e: "dev_wf e" "overread e = overread d"
    using s Sci_IntHandler_wf[OF s(1)] Sci_IntHandler_overread[OF s(1)] by (simp_all add: e_def)
  have "Pef24628e_IntHandler b d = (if uc_reg d = 0 then d else if ista = 0 then snd s
      else REG_SET b MPI_EINT ista (if ista AND MPI_MPINT_INTIDC \<noteq> 0 then Pef24628e_Mpi_RxInt b e else e))"
    by (simp add: Pef24628e_IntHandler_def Let_def case_prod_beta s_def ista_def e_def)
  then show ?thesis using s(2) e(2) RxInt_overread[OF e(1), of b] by auto
qed

lemma read_overread: "dev_wf d \<Longrightarrow> overread (snd (snd (pef24628_read b n d))) = overread d"
  by (simp add: pef24628_read_def Pef24628e_Get_IDC_Msg_def case_prod_beta Let_def rd_look_inside)

section \<open>The mark of a store outside an array stays\<close>

lemma oob_sel [simp]:
  "oob (snd (REG_GET b r d)) = oob d" "oob (snd (REG_GET_n b r n d)) = oob d"
  "oob (REG_SET b r v d) = oob d" "oob (BFLD b r m v d) = oob d" "oob (upd_wr_blk f d) = oob d"
  "oob (mpi_track_ack i t d) = oob d" "oob (rx_switch_block b r m d) = oob d" "oob (sci_tx_reset b d) = oob d"
  "oob (tx_start n d) = oob d" "oob (tx_toggle d) = oob d"
  by (simp_all add: reg_access upd_wr_blk_def mpi_track_ack_def rx_switch_block_def sci_tx_reset_def
      tx_start_def tx_toggle_def)

lemma oob_put: "oob d \<Longrightarrow> oob (fifo_put off bs d)" "oob d \<Longrightarrow> oob (tx_put off bs d)"
  by (simp_all add: fifo_put_def tx_put_def)

lemma oob_XprInt: "oob d \<Longrightarrow> oob (Pef24628e_Sci_XprInt b d)"
  by (simp add: Pef24628e_Sci_XprInt_def Let_def)

lemma oob_TP_Ack: "oob d \<Longrightarrow> oob (snd (Pef24628e_Send_TP_Ack b p nak d))"
  by (simp add: Pef24628e_Send_TP_Ack_def Let_def oob_XprInt oob_put)

lemma oob_frame: "oob d \<Longrightarrow> oob (snd (Pef24628e_Sci_Process_Frame b d))"
  by (simp add: Pef24628e_Sci_Process_Frame_def sci_process_rs_ack_def sci_process_tp_def Let_def oob_TP_Ack)

lemma oob_RpfInt: "oob d \<Longrightarrow> oob (Pef24628e_Sci_RpfInt b d)"
  by (simp add: Pef24628e_Sci_RpfInt_def Let_def case_prod_beta oob_put)

lemma oob_RmeInt: "oob d \<Longrightarrow> oob (Pef24628e_Sci_RmeInt b d)"
  by (simp add: Pef24628e_Sci_RmeInt_def sci_rme_accept_def sci_rme_store_def Let_def case_prod_beta oob_put oob_frame)

lemma oob_Sci_IntHandler: "oob d \<Longrightarrow> oob (Pef24628e_Sci_IntHandler b d)"
  by (simp add: Pef24628e_Sci_IntHandler_def Let_def case_prod_beta oob_XprInt oob_RpfInt oob_RmeInt)

lemma oob_RxInt: "oob d \<Longrightarrow> oob (Pef24628e_Mpi_RxInt b d)"
  by (simp add: Pef24628e_Mpi_RxInt_def mpi_rx_commit_def Let_def case_prod_beta oob_put)

lemma oob_IntHandler: "oob d \<Longrightarrow> oob (Pef24628e_IntHandler b d)"
  by (simp add: Pef24628e_IntHandler_def Let_def case_prod_beta oob_Sci_IntHandler oob_RxInt)

lemma oob_poll_reg: "oob (snd (poll_reg b r p n d)) = oob d"
  using poll_reg_hw[of b r p n d] by auto

lemma oob_tx_frame: "oob d \<Longrightarrow> oob (snd (sci_tx_frame b d))"
proof (induction b d rule: sci_tx_frame.induct)
  case (1 b d)
  define d1 where "d1 = Pef24628e_Sci_XprInt b d"
  define r where "r = poll_reg b SCI_INT (\<lambda>v. v AND SCI_INTERRUPT_XPR = SCI_INTERRUPT_XPR) SCI_TX_POLL_MAX d1"
  define d3 where "d3 = REG_SET b SCI_INT SCI_INTERRUPT_XPR (snd r)"
  have "oob d3" using "1.prems" oob_XprInt by (simp add: d3_def r_def d1_def oob_poll_reg)
  then show ?case
    using "1.IH" [OF d1_def r_def prod.collapse d3_def]
    by (subst sci_tx_frame.simps) (simp add: Let_def case_prod_beta flip: d1_def r_def d3_def)
qed

lemma oob_wait_ack: "oob d \<Longrightarrow> oob (sci_wait_ack b n d)"
proof (induction n arbitrary: d)
  case (Suc n)
  then show ?case
    using oob_IntHandler [OF Suc.prems, of b] by (subst sci_wait_ack.simps) (simp add: Let_def)
qed (simp add: sci_wait_ack.simps)

lemma oob_Tx_Polling: "oob d \<Longrightarrow> oob (snd (Pef24628e_Sci_Tx_Polling b d))"
  by (simp add: Pef24628e_Sci_Tx_Polling_def Let_def case_prod_beta oob_tx_frame oob_wait_ack)

lemma oob_send_sci: "oob d \<Longrightarrow> oob (idc_send_sci b n rep d)"
proof (induction b n rep d rule: idc_send_sci.induct)
  case (1 b n rep d)
  define d1 where "d1 = tx_start n d"
  define d2 where "d2 = (if irq_vector d1 = 0 then snd (Pef24628e_Sci_Tx_Polling b d1)
      else Pef24628e_Sci_XprInt b d1)"
  have d2: "oob d2" using "1.prems" by (simp add: d2_def d1_def oob_Tx_Polling oob_XprInt)
  show ?case
    using "1.IH" [OF d1_def d2_def] d2
    by (subst idc_send_sci.simps) (simp add: Let_def flip: d1_def d2_def)
qed

text \<open>
  The send call.  Over the bridge four header bytes are put in front of the message, but the length was compared with
  the size of the whole buffer: exactly the last four lengths overrun it.
\<close>

lemma send_overrun:
  assumes "dev_wf d"
  shows "oob (snd (Pef24628e_Send_IDC_Msg b bs d)) \<longleftrightarrow>
    bInit d \<and> bSendIdcViaSciBridge d \<and> 128 < length bs \<and> length bs \<le> 132"
proof (cases "bInit d \<and> bSendIdcViaSciBridge d \<and> 128 < length bs \<and> length bs \<le> 132")
  case True
  then have o: "oob (tx_put 0 (idc_frame_hdr d) (tx_put 4 bs d))"
    using dev_wfD(5)[OF assms] by (simp add: tx_put_def)
  have n: "bs \<noteq> []" using True by auto
  have "oob (idc_send_sci b (length bs + 4) 0 ((tx_put 0 (idc_frame_hdr d) (tx_put 4 bs d))\<lparr>TxLastAckOddEven := -1\<rparr>))"
    using o by (intro oob_send_sci) simp
  then show ?thesis using True n o by (simp add: Pef24628e_Send_IDC_Msg_def Let_def)
next
  case False
  then consider "\<not> bInit d" | "132 < length bs" | "length bs \<le> 128 \<or> \<not> bSendIdcViaSciBridge d" by linarith
  then have "\<not> oob (snd (Pef24628e_Send_IDC_Msg b bs d))"
  proof cases
    case 3
    then show ?thesis using Send_IDC_Msg_wf[OF assms, of bs b] by (simp add: dev_wf_def)
  qed (use dev_wfD(7)[OF assms] in \<open>simp_all add: Pef24628e_Send_IDC_Msg_def\<close>)
  then show ?thesis using False by simp
qed

end
