(* ===== verification/Pef_Tx_Log.thy ===== *)
theory Pef_Tx_Log
  imports Pef_Tx
begin

text \<open>
  What the transmit path puts on the bus.  The specification of a transmission is a
  list of register writes; the code refines it for every behaviour of the chip:
  a serial frame goes out in pieces of 64 bytes with the right marks, and the MPI
  mailbox takes a message whole or not at all.
\<close>

section \<open>The write log through the driver's register access\<close>

definition wlog :: "('h \<times> (u32 \<times> u8) list) dev \<Rightarrow> (u32 \<times> u8) list" where
  "wlog d = snd (hw d)"

lemma wlog_simps [simp]:
  "wlog (d\<lparr>TxnBytes := n\<rparr>) = wlog d" "wlog (d\<lparr>TxnSent := n\<rparr>) = wlog d" "wlog (d\<lparr>oob := x\<rparr>) = wlog d"
  "wlog (d\<lparr>txErr := x\<rparr>) = wlog d" "wlog (d\<lparr>uLastCmdId := w\<rparr>) = wlog d"
  "wlog (d\<lparr>uLastCmdTcId := w\<rparr>) = wlog d" "wlog (d\<lparr>uStatistics := u\<rparr>) = wlog d"
  "wlog (d\<lparr>TxBuf := buf\<rparr>) = wlog d"
  by (simp_all add: wlog_def)

lemma wlog_REG_GET [simp]: "wlog (snd (REG_GET (logged b) r d)) = wlog d"
  by (simp add: reg_access wlog_def)

lemma REG_SET_uc [simp]: "uc_reg (REG_SET b r v d) = uc_reg d" "uc_reg (REG_SET_list b r vs d) = uc_reg d"
  by (simp_all add: reg_access)

lemma wlog_REG_SET [simp]:
  "uc_reg d = Bank1_PEF_C \<Longrightarrow> wlog (REG_SET (logged b) r v d) = wlog d @ [(reg_addr r, v)]"
  by (simp add: reg_access wlog_def mpi_addr_base reg_addr_def)

lemma wr_list_log: "snd (wr_list (logged b) a vs s) = snd s @ map (Pair (mpi_addr a)) vs"
  by (induction vs arbitrary: s) auto

lemma wlog_REG_SET_list [simp]:
  "uc_reg d = Bank1_PEF_C \<Longrightarrow> wlog (REG_SET_list (logged b) r vs d) = wlog d @ map (Pair (reg_addr r)) vs"
  by (simp add: reg_access wlog_def mpi_addr_base reg_addr_def wr_list_log)

lemma wlog_poll_reg [simp]: "wlog (snd (poll_reg (logged b) r p n d)) = wlog d"
proof (induction n arbitrary: d)
  case 0
  show ?case by (simp add: poll_reg.simps)
next
  case (Suc n)
  show ?case using Suc by (subst poll_reg.simps) (simp add: case_prod_beta)
qed

section \<open>A serial frame\<close>

definition sci_piece :: "u8 list \<Rightarrow> u8 \<Rightarrow> (u32 \<times> u8) list" where
  "sci_piece bs ctrl =
     map (Pair (reg_addr SCI_INGRESS)) bs @
     [(reg_addr SCI_CTRL_H, ctrl), (reg_addr SCI_INT, SCI_INTERRUPT_XPR)]"

function sci_frame_writes :: "u8 list \<Rightarrow> (u32 \<times> u8) list" where
  "sci_frame_writes bs =
     (if length bs > 64
      then sci_piece (take 64 bs) SCI_CTRL_HIGH_XTF @ sci_frame_writes (drop 64 bs)
      else sci_piece bs (SCI_CTRL_HIGH_XTF OR SCI_CTRL_HIGH_XME))"
  by pat_completeness auto

termination sci_frame_writes
  by (relation "measure length") auto

declare sci_frame_writes.simps [simp del]

lemma XprInt_log:
  fixes b :: "'h bus" and d :: "('h \<times> (u32 \<times> u8) list) dev"
  assumes "uc_reg d = Bank1_PEF_C" and "TxnBytes d \<noteq> 0"
  defines "k \<equiv> min 64 (TxnBytes d)" and "e \<equiv> Pef24628e_Sci_XprInt (logged b) d"
  shows "wlog e = wlog d @ map (Pair (reg_addr SCI_INGRESS)) (buf_get (TxnSent d) k (TxBuf d)) @
      [(reg_addr SCI_CTRL_H, if TxnBytes d > 64 then SCI_CTRL_HIGH_XTF
                            else SCI_CTRL_HIGH_XTF OR SCI_CTRL_HIGH_XME)]"
    and "uc_reg e = uc_reg d" "TxBuf e = TxBuf d" "TxnBytes e = TxnBytes d - k" "TxnSent e = TxnSent d + k"
  using assms(1,2) unfolding e_def k_def
  by (auto simp: Pef24628e_Sci_XprInt_def Let_def min_def REG_SET_def REG_SET_list_def
      wlog_def mpi_addr_def Bank1_PEF_C_def reg_addr_def wr_list_log)

lemma buf_get_drop: "k \<le> n \<Longrightarrow> buf_get (s + k) (n - k) xs = drop k (buf_get s n xs)"
  by (simp add: buf_get_def drop_take add.commute)

lemma buf_get_take: "k \<le> n \<Longrightarrow> buf_get s k xs = take k (buf_get s n xs)"
  by (simp add: buf_get_def min_def)

text \<open>A frame that was sent is, write for write, the specified one.\<close>

lemma sci_tx_frame_log:
  "uc_reg d = Bank1_PEF_C \<Longrightarrow> 0 < TxnBytes d \<Longrightarrow> TxnSent d + TxnBytes d \<le> length (TxBuf d) \<Longrightarrow>
   fst (sci_tx_frame (logged b) d) \<Longrightarrow>
     wlog (snd (sci_tx_frame (logged b) d)) =
       wlog d @ sci_frame_writes (buf_get (TxnSent d) (TxnBytes d) (TxBuf d))"
proof (induction "logged b" d rule: sci_tx_frame.induct)
  case (1 d)
  let ?p = "\<lambda>v. v AND SCI_INTERRUPT_XPR = SCI_INTERRUPT_XPR"
  define d1 where "d1 = Pef24628e_Sci_XprInt (logged b) d"
  define r where "r = poll_reg (logged b) SCI_INT ?p SCI_TX_POLL_MAX d1"
  define d3 where "d3 = REG_SET (logged b) SCI_INT SCI_INTERRUPT_XPR (snd r)"
  define bs where "bs = buf_get (TxnSent d) (TxnBytes d) (TxBuf d)"
  note x = XprInt_log [OF "1.prems"(1), of b] and unf = sci_tx_frame.simps [of "logged b" d]
  have len: "length bs = TxnBytes d" using "1.prems"(3) by (simp add: bs_def)
  have poll: "\<exists>h. snd r = d1\<lparr>hw := h\<rparr>" by (simp only: r_def poll_reg_hw)
  have d3: "uc_reg d3 = Bank1_PEF_C" "TxBuf d3 = TxBuf d" "TxnBytes d3 = TxnBytes d - 64"
      "TxnSent d3 = TxnSent d + min 64 (TxnBytes d)"
    using x "1.prems"(1,2) poll by (auto simp: d3_def d1_def REG_SET_def)
  have log: "wlog d3 = wlog d @ sci_piece (take 64 bs) (if TxnBytes d > 64 then SCI_CTRL_HIGH_XTF
      else SCI_CTRL_HIGH_XTF OR SCI_CTRL_HIGH_XME)"
    using x "1.prems"(1,2)
    by (simp add: d3_def r_def d1_def bs_def sci_piece_def buf_get_def min_def)
  have step: "sci_tx_frame (logged b) d =
      (if fst r = 0 then (False, d3) else if TxnBytes d3 \<noteq> 0 then sci_tx_frame (logged b) d3 else (True, d3))"
    by (subst unf) (simp add: Let_def case_prod_beta flip: d1_def r_def d3_def)
  then have ok: "fst r \<noteq> 0" using "1.prems"(4) by (auto split: if_splits)
  show ?case
  proof (cases "TxnBytes d > 64")
    case True
    then have "wlog (snd (sci_tx_frame (logged b) d3)) = wlog d3 @ sci_frame_writes
        (buf_get (TxnSent d3) (TxnBytes d3) (TxBuf d3))"
      using "1.hyps" [OF d1_def r_def prod.collapse d3_def] "1.prems"(3,4) d3 ok step by simp
    moreover have "buf_get (TxnSent d3) (TxnBytes d3) (TxBuf d3) = drop 64 bs"
      using True d3 buf_get_drop [of 64 "TxnBytes d" "TxnSent d" "TxBuf d"] by (simp add: bs_def)
    ultimately show ?thesis
      using True ok log len d3(3) sci_frame_writes.simps [of bs] by (simp add: step flip: bs_def)
  next
    case False
    then show ?thesis
      using ok log len d3(3) sci_frame_writes.simps [of bs] by (simp add: step flip: bs_def)
  qed
qed

text \<open>The bytes of the specified frame are the message, whatever its length.\<close>

lemma sci_frame_bytes: "written (reg_addr SCI_INGRESS) (sci_frame_writes bs) = bs"
proof (induction bs rule: sci_frame_writes.induct)
  case (1 bs)
  have "written (reg_addr SCI_INGRESS) (sci_piece xs c) = xs" for xs c
    by (simp add: sci_piece_def written_def reg_addr_inj filter_map comp_def)
  then show ?case using 1 by (subst sci_frame_writes.simps) simp
qed

section \<open>A message through the mailbox\<close>

definition mpi_msg_writes :: "u8 list \<Rightarrow> (u32 \<times> u8) list" where
  "mpi_msg_writes bs =
     map (Pair (reg_addr MPI_INGRESS)) bs @ [(reg_addr MPI_IINT, MPI_INTERRUPT_R)]"

lemma Mpi_Tx_log:
  fixes b :: "'h bus" and d :: "('h \<times> (u32 \<times> u8) list) dev"
  assumes "uc_reg d = Bank1_PEF_C" and "0 < TxnBytes d" and "txErr d"
  defines "e \<equiv> Pef24628e_Mpi_Tx (logged b) d"
  shows "wlog e = wlog d @ (if txErr e then [] else mpi_msg_writes (buf_get 0 (TxnBytes d) (TxBuf d)))"
    and "uc_reg e = uc_reg d" and "TxBuf e = TxBuf d"
proof -
  define r where "r = poll_reg (logged b) MPI_IINT (\<lambda>v. v AND MPI_INTERRUPT_R = 0) 10 d"
  have r: "uc_reg (snd r) = Bank1_PEF_C" "TxnBytes (snd r) = TxnBytes d" "txErr (snd r)"
      "TxBuf (snd r) = TxBuf d" "wlog (snd r) = wlog d"
    using assms by (simp_all add: r_def)
  have e: "e = (if fst r = 0 then snd r else mpi_tx_write (logged b) (snd r))"
    using assms r(2) by (simp add: e_def Pef24628e_Mpi_Tx_def Let_def case_prod_beta Bank1_PEF_C_def flip: r_def)
  show "wlog e = wlog d @ (if txErr e then [] else mpi_msg_writes (buf_get 0 (TxnBytes d) (TxBuf d)))"
    "uc_reg e = uc_reg d" "TxBuf e = TxBuf d"
    using r assms(1) by (auto simp: e mpi_tx_write_def Let_def reg_access wlog_def mpi_addr_def
        Bank1_PEF_C_def reg_addr_def wr_list_log mpi_msg_writes_def)
qed

lemma idc_send_mpi_log:
  "uc_reg d = Bank1_PEF_C \<Longrightarrow> 0 < n \<Longrightarrow>
     wlog (snd (idc_send_mpi (logged b) n rep d)) =
       wlog d @ (if fst (idc_send_mpi (logged b) n rep d) then mpi_msg_writes (buf_get 0 n (TxBuf d)) else [])"
proof (induction "logged b" n rep d rule: idc_send_mpi.induct)
  case (1 n rep d)
  define d1 where "d1 = Pef24628e_Mpi_Tx (logged b) (tx_start n d)"
  have d1: "wlog d1 = wlog d @ (if txErr d1 then [] else mpi_msg_writes (buf_get 0 n (TxBuf d)))"
      "uc_reg d1 = Bank1_PEF_C" "TxBuf d1 = TxBuf d"
    using Mpi_Tx_log [of "tx_start n d" b] "1.prems" by (simp_all add: d1_def tx_start_def)
  have "idc_send_mpi (logged b) n rep d =
      (if txErr d1
       then if rep + 1 \<ge> 2 then (False, snd (REG_GET (logged b) MPI_IINT_EN d1))
            else idc_send_mpi (logged b) n (rep + 1) d1
       else (True, d1))"
    by (subst idc_send_mpi.simps) (simp add: Let_def flip: d1_def)
  then show ?case
    using d1 "1.hyps" [OF d1_def] "1.prems"(2) by simp
qed

end
