(* ===== verification/Pef_Reach.thy ===== *)
theory Pef_Reach
  imports Pef_Marks Pef_Tx_Log
begin

text \<open>
  The life of a device as a transition system: from the zeroed structure through
  initialisation, then any sequence of the driver's entry points with any chip
  behaviour, and the invariant that holds all along; what lies behind the FIFO memory may change
  at any time.  Left out are the messages of 129 to 132 bytes that are written in bridge mode:
  they overrun the transmit buffer (\<open>bridge_frame_overrun\<close>).  A state is reachable only if
  every call returned.  The last section looks at single operations that the
  invariant alone does not settle: what happens to messages that leave the bounds
  the invariant needs, and which branches can be taken.
\<close>

inductive drv_reach :: "'h bus \<Rightarrow> 'h dev \<Rightarrow> bool" for b :: "'h bus" where
  init: "length buf = 132 \<Longrightarrow> reg_offset cfg \<noteq> 0 \<Longrightarrow>
     drv_reach b (snd (drv_dev_init b cfg (Some buf) (snd (Pef24628e_Set_If PEF24628E_IF_MPI (dev_reset h)))))"
| interrupt: "drv_reach b d \<Longrightarrow> drv_reach b (Pef24628e_IntHandler b d)"
| poll: "drv_reach b d \<Longrightarrow> drv_reach b (snd (Pef24628e_Poll_Check b d))"
| rd_msg: "drv_reach b d \<Longrightarrow> drv_reach b (snd (snd (pef24628_read b n d)))"
| wr_msg: "drv_reach b d \<Longrightarrow> length bs \<le> 128 \<or> \<not> bSendIdcViaSciBridge d \<Longrightarrow>
     drv_reach b (snd (pef24628_write b bs d))"
| aux: "drv_reach b d \<Longrightarrow> drv_reach b (snd (Pef24628e_Send_Aux_Msg b r p d))"
| dsl_download: "drv_reach b d \<Longrightarrow> \<forall>off n. length (fw off n) = n \<Longrightarrow>
     Pef24628e_DSL_Download b fw d = Some (ok, d') \<Longrightarrow> drv_reach b d'"
| idc_download: "drv_reach b d \<Longrightarrow> \<forall>off n. length (fw off n) = n \<Longrightarrow> unat nLength \<le> 2 ^ 31 \<Longrightarrow>
     boot_size (idc_read_info fw nLength) \<le> nLength \<Longrightarrow>
     Pef24628e_IDC_Download b fw rxbuf nLength d = Some (ok, d') \<Longrightarrow> drv_reach b d'"
| idc_start: "drv_reach b d \<Longrightarrow> drv_reach b (snd (Pef24628e_IDC_Start b d))"
| set_filter: "drv_reach b d \<Longrightarrow> drv_reach b (snd (Pef24628e_Set_Address_Filter b m a d))"
| set_register: "drv_reach b d \<Longrightarrow> drv_reach b (Pef24628e_Set_Register b r v d)"
| outside: "drv_reach b d \<Longrightarrow> drv_reach b (d\<lparr>beyond := g\<rparr>)"

lemma Set_Address_Filter_wf [wf_intro]: "dev_wf d \<Longrightarrow> dev_wf (snd (Pef24628e_Set_Address_Filter b m a d))"
  by (simp add: Pef24628e_Set_Address_Filter_def Let_def)

lemma reach_init_wf:
  assumes "length buf = 132" and "reg_offset cfg \<noteq> 0"
  shows "dev_wf (snd (drv_dev_init b cfg (Some buf) (snd (Pef24628e_Set_If PEF24628E_IF_MPI (dev_reset h)))))"
proof (rule drv_dev_init_wf(2) [OF _ _ assms])
  show "dev_shape (snd (Pef24628e_Set_If PEF24628E_IF_MPI (dev_reset h)))"
    using dev_reset_shape(1) [of h] by (simp add: Pef24628e_Set_If_def dev_shape_def)
qed (simp_all add: Pef24628e_Set_If_def dev_reset_def)

lemma drv_reach_wf: "drv_reach b d \<Longrightarrow> dev_wf d"
proof (induction rule: drv_reach.induct)
  case (init buf cfg h)
  then show ?case by (rule reach_init_wf)
next
  case (dsl_download d fw ok d')
  then show ?case using step_okD [OF step_ok_DSL, of fw b d] by auto
next
  case (idc_download d fw nLength rxbuf ok d')
  then show ?case using step_okD [OF step_ok_IDC, of fw nLength b rxbuf d] by auto
qed (auto intro: wf_intro simp: Pef24628e_Set_Register_def)

section \<open>Single operations\<close>

text \<open>The acknowledge bookkeeping, bit by bit.\<close>

lemma track_ack_cases:
  "mpi_track_ack m t d =
     (if (m AND NOT 0x0600) = uLastCmdId d \<and> m < 0x500
      then d\<lparr>uLastAckId := ucast m,
             uStatistics := (if t \<noteq> uLastCmdTcId d then uStatistics d OR 4
                             else if uStatistics d AND 1 = 0 then uStatistics d OR 2
                             else uStatistics d AND NOT 1)\<rparr>
      else d)"
  by (simp add: mpi_track_ack_def)

text \<open>
  The caller clears the low half of the second header byte before it takes bit 0 of
  it, so the type of a frame never has bit 7: the code for notifications is not
  reachable.
\<close>

lemma and_not_low_bit: "(x AND NOT 0x0F) AND 1 = (0 :: u8)"
  by (rule bit_word_eqI) (auto simp: bit_simps numeral_eq_Suc less_Suc_eq)

lemma tp_header_no_nfc: "PEF24628E_TP_GET_HEADER h0 (h1 AND NOT 0x0F) < 128"
proof -
  have "PEF24628E_TP_GET_HEADER h0 (h1 AND NOT 0x0F) = drop_bit 1 h0"
    by (simp only: PEF24628E_TP_GET_HEADER_def and_not_low_bit push_bit_of_0 or.right_neutral)
  moreover have "unat (drop_bit 1 h0) = unat h0 div 2" unfolding unat_drop_bit_eq by (simp add: drop_bit_eq_div)
  moreover have "unat h0 < 256" using unsigned_less [of h0] by simp
  ultimately show ?thesis by (simp add: word_less_nat_alt)
qed

end
