(* ===== verification/Kern.thy ===== *)
theory Kern
  imports Prelude
begin

text \<open>
  The part of the RT-Thread kernel that its IPC objects are built on: what
  \<open>thread.c\<close> does to a thread that is suspended, resumed or timed out, and the lists
  of waiting threads of \<open>ipc.c\<close> (\<open>rt_ipc_list_suspend\<close>, \<open>rt_ipc_list_resume\<close>,
  \<open>rt_ipc_list_resume_all\<close>).

  Threads are numbers.  A call that can block is modelled as the code between two
  scheduling points, which runs with interrupts disabled: it either returns a value or
  blocks, and what the code does when the thread runs again is a second definition.
  The ready queues of the scheduler are abstracted from: a thread is ready or not.
\<close>

record kthread =
  terror :: int
  current_priority :: nat
  suspended :: bool
  thread_timer :: "int option"

type_synonym threads = "nat \<Rightarrow> kthread"

definition RT_ETIMEOUT :: int where "RT_ETIMEOUT = 2"
definition RT_EFULL :: int where "RT_EFULL = 3"
definition RT_IPC_FLAG_FIFO :: nat where "RT_IPC_FLAG_FIFO = 0"
definition RT_IPC_FLAG_PRIO :: nat where "RT_IPC_FLAG_PRIO = 1"

datatype outcome = Return int | Block

definition set_error :: "nat \<Rightarrow> int \<Rightarrow> threads \<Rightarrow> threads" where
  "set_error t e ths = ths(t := (ths t)\<lparr>terror := e\<rparr>)"

definition rt_thread_suspend :: "nat \<Rightarrow> threads \<Rightarrow> threads" where
  "rt_thread_suspend t ths =
     (if suspended (ths t) then ths
      else ths(t := (ths t)\<lparr>suspended := True, thread_timer := None\<rparr>))"

definition rt_thread_resume :: "nat \<Rightarrow> threads \<Rightarrow> threads" where
  "rt_thread_resume t ths =
     (if \<not> suspended (ths t) then ths
      else ths(t := (ths t)\<lparr>suspended := False, thread_timer := None\<rparr>))"

definition start_timer :: "nat \<Rightarrow> int \<Rightarrow> threads \<Rightarrow> threads" where
  "start_timer t time ths =
     (if time > 0 then ths(t := (ths t)\<lparr>thread_timer := Some time\<rparr>) else ths)"

definition set_priority :: "nat \<Rightarrow> nat \<Rightarrow> threads \<Rightarrow> threads" where
  "set_priority t p ths = ths(t := (ths t)\<lparr>current_priority := p\<rparr>)"

text \<open>The timer of a suspended thread expires; the caller removes it from its list.\<close>

definition rt_thread_timeout :: "nat \<Rightarrow> threads \<Rightarrow> threads" where
  "rt_thread_timeout t ths =
     ths(t := (ths t)\<lparr>terror := - RT_ETIMEOUT, suspended := False, thread_timer := None\<rparr>)"

section \<open>Lists of waiting threads\<close>

text \<open>
  With the priority flag a thread goes in front of the first one that is less urgent
  (a greater number); among equals, last.
\<close>

fun prio_insert :: "(nat \<Rightarrow> nat) \<Rightarrow> nat \<Rightarrow> nat list \<Rightarrow> nat list" where
  "prio_insert pr t [] = [t]"
| "prio_insert pr t (u # us) = (if pr t < pr u then t # u # us else u # prio_insert pr t us)"

definition rt_ipc_list_suspend :: "nat \<Rightarrow> nat \<Rightarrow> nat list \<times> threads \<Rightarrow> nat list \<times> threads" where
  "rt_ipc_list_suspend flag t s =
     (let ths = rt_thread_suspend t (snd s)
      in (if flag = RT_IPC_FLAG_FIFO then fst s @ [t]
          else if flag = RT_IPC_FLAG_PRIO then prio_insert (\<lambda>u. current_priority (ths u)) t (fst s)
          else fst s,
          ths))"

definition rt_ipc_list_resume :: "nat list \<times> threads \<Rightarrow> nat list \<times> threads" where
  "rt_ipc_list_resume s =
     (case fst s of [] \<Rightarrow> s
      | t # ts \<Rightarrow> (if suspended (snd s t) then (ts, rt_thread_resume t (snd s)) else s))"

text \<open>
  \<open>while (!rt_list_isempty(list))\<close>: the thread at the head gets the error \<open>-RT_ERROR\<close> and is resumed.  It is
  \<open>rt_thread_resume\<close> that takes it off the list, and it refuses a thread that is not suspended: the head
  then stays where it is and the loop never ends, which is \<open>None\<close>.
\<close>

fun rt_ipc_list_resume_all :: "nat list \<Rightarrow> threads \<Rightarrow> threads option" where
  "rt_ipc_list_resume_all [] ths = Some ths"
| "rt_ipc_list_resume_all (t # ts) ths =
     (let ths1 = set_error t (-1) ths
      in if suspended (ths1 t) then rt_ipc_list_resume_all ts (rt_thread_resume t ths1) else None)"

section \<open>Facts about the lists\<close>

lemma set_prio_insert [simp]: "set (prio_insert pr t us) = insert t (set us)"
  by (induction us) auto

lemma length_prio_insert [simp]: "length (prio_insert pr t us) = Suc (length us)"
  by (induction us) auto

lemma distinct_prio_insert [simp]: "distinct (prio_insert pr t us) \<longleftrightarrow> t \<notin> set us \<and> distinct us"
  by (induction us) auto

definition prio_sorted :: "(nat \<Rightarrow> nat) \<Rightarrow> nat list \<Rightarrow> bool" where
  "prio_sorted pr us \<longleftrightarrow> sorted (map pr us)"

lemma prio_insert_sorted: "prio_sorted pr us \<Longrightarrow> prio_sorted pr (prio_insert pr t us)"
  unfolding prio_sorted_def by (induction us) (auto simp: less_imp_le)

text \<open>First come first served among threads of the same priority.\<close>

lemma prio_insert_stable:
  "prio_sorted pr us \<Longrightarrow> filter (\<lambda>u. pr u = p) (prio_insert pr t us) =
     filter (\<lambda>u. pr u = p) us @ (if pr t = p then [t] else [])"
  unfolding prio_sorted_def
proof (induction us)
  case (Cons u us)
  show ?case
  proof (cases "pr t < pr u")
    case True
    then have "filter (\<lambda>v. pr v = pr t) (u # us) = []"
      using Cons.prems by (auto simp: filter_empty_conv)
    then show ?thesis using True by (cases "pr t = p") auto
  qed (use Cons in auto)
qed simp

lemma prio_sorted_cong: "(\<And>u. u \<in> set us \<Longrightarrow> pr u = pr' u) \<Longrightarrow> prio_sorted pr us = prio_sorted pr' us"
  unfolding prio_sorted_def by (metis map_cong)

lemma thread_ops_other [simp]:
  "u \<noteq> t \<Longrightarrow> rt_thread_suspend t ths u = ths u" "u \<noteq> t \<Longrightarrow> rt_thread_resume t ths u = ths u"
  "u \<noteq> t \<Longrightarrow> start_timer t time ths u = ths u" "u \<noteq> t \<Longrightarrow> set_priority t p ths u = ths u"
  "u \<noteq> t \<Longrightarrow> set_error t e ths u = ths u" "u \<noteq> t \<Longrightarrow> rt_thread_timeout t ths u = ths u"
  by (simp_all add: rt_thread_suspend_def rt_thread_resume_def start_timer_def set_priority_def
      set_error_def rt_thread_timeout_def)

lemma thread_ops_prio [simp]:
  "current_priority (rt_thread_suspend t ths u) = current_priority (ths u)"
  "current_priority (rt_thread_resume t ths u) = current_priority (ths u)"
  "current_priority (start_timer t time ths u) = current_priority (ths u)"
  "current_priority (set_error t e ths u) = current_priority (ths u)"
  "current_priority (rt_thread_timeout t ths u) = current_priority (ths u)"
  by (simp_all add: rt_thread_suspend_def rt_thread_resume_def start_timer_def set_error_def
      rt_thread_timeout_def)

lemma thread_ops_suspended [simp]:
  "suspended (rt_thread_suspend t ths u) = (suspended (ths u) \<or> u = t)"
  "suspended (rt_thread_resume t ths u) = (suspended (ths u) \<and> u \<noteq> t)"
  "suspended (start_timer t time ths u) = suspended (ths u)"
  "suspended (set_error t e ths u) = suspended (ths u)"
  "suspended (set_priority t p ths u) = suspended (ths u)"
  "suspended (rt_thread_timeout t ths u) = (suspended (ths u) \<and> u \<noteq> t)"
  by (auto simp: rt_thread_suspend_def rt_thread_resume_def start_timer_def set_error_def
      set_priority_def rt_thread_timeout_def)

lemma thread_ops_error [simp]:
  "terror (rt_thread_suspend t ths u) = terror (ths u)" "terror (rt_thread_resume t ths u) = terror (ths u)"
  "terror (start_timer t time ths u) = terror (ths u)" "terror (set_priority t p ths u) = terror (ths u)"
  "terror (set_error t e ths u) = (if u = t then e else terror (ths u))"
  by (simp_all add: rt_thread_suspend_def rt_thread_resume_def start_timer_def set_error_def set_priority_def)

lemma set_priority_prio [simp]:
  "current_priority (set_priority t p ths u) = (if u = t then p else current_priority (ths u))"
  by (simp add: set_priority_def)

section \<open>Waking everybody\<close>

text \<open>
  The loop ends exactly when the threads of the list are different and suspended, and then each of them, and
  nobody else, is ready with the error \<open>-RT_ERROR\<close> and no timer.
\<close>

definition wake_all :: "nat list \<Rightarrow> threads \<Rightarrow> threads" where
  "wake_all ws ths =
     (\<lambda>t. if t \<in> set ws then (ths t)\<lparr>terror := -1, suspended := False, thread_timer := None\<rparr> else ths t)"

lemma wake_all_simps [simp]:
  "suspended (wake_all ws ths t) \<longleftrightarrow> suspended (ths t) \<and> t \<notin> set ws"
  "terror (wake_all ws ths t) = (if t \<in> set ws then -1 else terror (ths t))"
  "current_priority (wake_all ws ths t) = current_priority (ths t)"
  "t \<notin> set ws \<Longrightarrow> wake_all ws ths t = ths t"
  by (simp_all add: wake_all_def)

lemma wake_all_wake_all: "wake_all vs (wake_all ws ths) = wake_all (ws @ vs) ths"
  by (auto simp: wake_all_def)

lemma resume_all_eq:
  "rt_ipc_list_resume_all ws ths =
     (if distinct ws \<and> (\<forall>t \<in> set ws. suspended (ths t)) then Some (wake_all ws ths) else None)"
proof (induction ws arbitrary: ths)
  case Nil
  then show ?case by (simp add: wake_all_def)
next
  case (Cons t ts)
  let ?th = "rt_thread_resume t (set_error t (-1) ths)"
  have "wake_all ts ?th = wake_all (t # ts) ths" if "suspended (ths t)" "t \<notin> set ts"
    using that by (auto simp: wake_all_def rt_thread_resume_def set_error_def)
  then show ?case using Cons.IH[of ?th] by (auto simp: Let_def)
qed

text \<open>The threads that wait are those of the list, each once.\<close>

definition waiting :: "nat list \<Rightarrow> threads \<Rightarrow> bool" where
  "waiting ws ths \<longleftrightarrow> distinct ws \<and> (\<forall>t. suspended (ths t) \<longleftrightarrow> t \<in> set ws)"

lemma resume_all_waiting [simp]: "waiting ws ths \<Longrightarrow> rt_ipc_list_resume_all ws ths = Some (wake_all ws ths)"
  by (simp add: resume_all_eq waiting_def)

lemma resume_all_stuck: "t \<in> set ws \<Longrightarrow> \<not> suspended (ths t) \<Longrightarrow> rt_ipc_list_resume_all ws ths = None"
  by (auto simp: resume_all_eq)

lemma suspend_list [simp]:
  "flag \<le> 1 \<Longrightarrow> set (fst (rt_ipc_list_suspend flag t (ws, ths))) = insert t (set ws)"
  "flag \<le> 1 \<Longrightarrow> distinct (fst (rt_ipc_list_suspend flag t (ws, ths))) \<longleftrightarrow> t \<notin> set ws \<and> distinct ws"
  "flag \<le> 1 \<Longrightarrow> fst (rt_ipc_list_suspend flag t (ws, ths)) \<noteq> []"
  "snd (rt_ipc_list_suspend flag t (ws, ths)) = rt_thread_suspend t ths"
  by (auto simp: rt_ipc_list_suspend_def Let_def RT_IPC_FLAG_FIFO_def RT_IPC_FLAG_PRIO_def le_Suc_eq
      dest: arg_cong[of "prio_insert _ _ _" "[]" set])

text \<open>What the operations on a list keep of this.\<close>

lemma waiting_errors [simp]:
  "waiting ws (set_error t e ths) = waiting ws ths" "waiting ws (start_timer t time ths) = waiting ws ths"
  "waiting ws (set_priority t p ths) = waiting ws ths"
  by (simp_all add: waiting_def)

lemma waiting_none: "\<forall>t. \<not> suspended (ths t) \<Longrightarrow> waiting [] ths"
  by (simp add: waiting_def)

lemma waiting_suspend:
  "waiting ws ths \<Longrightarrow> \<not> suspended (ths t) \<Longrightarrow> flag \<le> 1 \<Longrightarrow> rt_ipc_list_suspend flag t (ws, ths) = (vs, ths1) \<Longrightarrow>
     waiting vs ths1"
  using suspend_list[of flag t ws ths] by (auto simp: waiting_def)

lemma waiting_resume: "waiting ws ths \<Longrightarrow> rt_ipc_list_resume (ws, ths) = (vs, ths1) \<Longrightarrow> waiting vs ths1"
  by (cases ws) (auto simp: rt_ipc_list_resume_def waiting_def)

lemma waiting_timeout: "waiting ws ths \<Longrightarrow> t \<in> set ws \<Longrightarrow> waiting (remove1 t ws) (rt_thread_timeout t ths)"
  by (auto simp: waiting_def)

lemma waiting_woken: "waiting ws ths \<Longrightarrow> waiting [] (wake_all ws ths)"
  by (simp add: waiting_def)

section \<open>Property of the waiting lists\<close>

text \<open>
  Joining a list of waiting threads.  With the priority flag a list in the order of
  urgency stays so, with the FIFO flag the thread goes last; either way threads of the same
  urgency stand in the order they came, and the thread is suspended without a timer.
\<close>

lemma list_suspend_order:
  fixes ths :: threads and ws :: "nat list" and t flag :: nat
  assumes "prio_sorted (\<lambda>u. current_priority (ths u)) ws" and "\<not> suspended (ths t)"
  defines "r \<equiv> rt_ipc_list_suspend flag t (ws, ths)"
  shows "(flag = RT_IPC_FLAG_FIFO \<longrightarrow> fst r = ws @ [t]) \<and>
    (flag = RT_IPC_FLAG_PRIO \<longrightarrow> prio_sorted (\<lambda>u. current_priority (snd r u)) (fst r) \<and>
       (\<forall>p. filter (\<lambda>u. current_priority (ths u) = p) (fst r) =
            filter (\<lambda>u. current_priority (ths u) = p) ws @ (if current_priority (ths t) = p then [t] else []))) \<and>
    suspended (snd r t) \<and> thread_timer (snd r t) = None"
  using prio_insert_sorted [OF assms(1), of t] prio_insert_stable [OF assms(1), of _ t] assms(2)
  by (auto simp: r_def rt_ipc_list_suspend_def Let_def RT_IPC_FLAG_FIFO_def RT_IPC_FLAG_PRIO_def)
    (simp_all add: rt_thread_suspend_def)

end
