(* ===== verification/Kern_Mutex.thy ===== *)
theory Kern_Mutex
  imports Kern
begin

text \<open>
  The mutex of the kernel (\<open>rt_mutex_init\<close>, \<open>rt_mutex_take\<close>, \<open>rt_mutex_release\<close> of
  \<open>ipc.c\<close>), with recursive taking, hand-over to the first waiting thread and priority
  inheritance.  \<open>hold\<close> is a byte, as in the code.
\<close>

record mutex =
  mvalue :: nat
  original_priority :: nat
  hold :: u8
  owner :: "nat option"
  mwaiters :: "nat list"
  mflag :: nat

type_synonym mstate = "mutex \<times> threads"

definition rt_mutex_init :: "nat \<Rightarrow> mutex" where
  "rt_mutex_init flag =
     \<lparr>mvalue = 1, original_priority = 0xFF, hold = 0, owner = None, mwaiters = [], mflag = flag\<rparr>"

definition mutex_inherit :: "nat \<Rightarrow> mutex \<Rightarrow> threads \<Rightarrow> threads" where
  "mutex_inherit t m ths =
     (case owner m of None \<Rightarrow> ths
      | Some w \<Rightarrow> if current_priority (ths t) < current_priority (ths w)
                 then set_priority w (current_priority (ths t)) ths else ths)"

definition rt_mutex_take :: "nat \<Rightarrow> int \<Rightarrow> mstate \<Rightarrow> outcome \<times> mstate" where
  "rt_mutex_take t time s =
     (let m = fst s; ths = set_error t 0 (snd s)
      in if owner m = Some t then (Return 0, (m\<lparr>hold := hold m + 1\<rparr>, ths))
         else if mvalue m > 0
              then (Return 0, (m\<lparr>mvalue := mvalue m - 1, owner := Some t,
                                original_priority := current_priority (ths t), hold := hold m + 1\<rparr>, ths))
              else if time = 0 then (Return (- RT_ETIMEOUT), (m, set_error t (- RT_ETIMEOUT) ths))
                   else let ths1 = mutex_inherit t m ths;
                            (ws, ths2) = rt_ipc_list_suspend (mflag m) t (mwaiters m, ths1)
                        in (Block, (m\<lparr>mwaiters := ws\<rparr>, start_timer t time ths2)))"

text \<open>What \<open>rt_mutex_take\<close> returns to a thread that had blocked, when it runs again.\<close>

definition mutex_take_wake :: "nat \<Rightarrow> mstate \<Rightarrow> int" where
  "mutex_take_wake t s = terror (snd s t)"

definition mutex_restore :: "nat \<Rightarrow> mutex \<Rightarrow> threads \<Rightarrow> threads" where
  "mutex_restore t m ths =
     (if original_priority m \<noteq> current_priority (ths t) then set_priority t (original_priority m) ths else ths)"

definition rt_mutex_release :: "nat \<Rightarrow> mstate \<Rightarrow> int \<times> mstate" where
  "rt_mutex_release t s =
     (let m = fst s; ths = snd s
      in if owner m \<noteq> Some t then (-1, (m, set_error t (-1) ths))
         else let m1 = m\<lparr>hold := hold m - 1\<rparr>
              in if hold m1 = 0
                 then let ths1 = mutex_restore t m1 ths
                      in (case mwaiters m1 of
                            [] \<Rightarrow> (0, (m1\<lparr>mvalue := mvalue m1 + 1, owner := None, original_priority := 0xFF\<rparr>, ths1))
                          | w # _ \<Rightarrow>
                              let (ws, ths2) = rt_ipc_list_resume (mwaiters m1, ths1)
                              in (0, (m1\<lparr>owner := Some w, original_priority := current_priority (ths1 w),
                                        hold := hold m1 + 1, mwaiters := ws\<rparr>, ths2)))
                 else (0, (m1, ths)))"

text \<open>The timer of a waiting thread: it leaves the list.\<close>

definition mutex_timeout :: "nat \<Rightarrow> mstate \<Rightarrow> mstate" where
  "mutex_timeout t s = ((fst s)\<lparr>mwaiters := remove1 t (mwaiters (fst s))\<rparr>, rt_thread_timeout t (snd s))"

section \<open>The mutex as a transition system\<close>

text \<open>
  Threads take and release in any order, with any time limit; a thread that has blocked
  does nothing until it is resumed; a timer can expire at any time; a thread that neither
  owns the mutex nor waits for it may get another priority.  Nesting deeper than
  the counter can express is left out by the guard of the second rule.  \<open>base\<close> is
  each thread's own priority.  This is one mutex: while a thread owns it or waits for it, nothing else
  changes the thread's priority, neither \<open>rt_thread_control\<close> nor a second mutex.
\<close>

inductive mutex_reach :: "nat \<Rightarrow> (nat \<Rightarrow> nat) \<Rightarrow> mstate \<Rightarrow> bool" for flag :: nat where
  start: "\<forall>t. \<not> suspended (ths t) \<and> current_priority (ths t) = base t \<Longrightarrow>
     mutex_reach flag base (rt_mutex_init flag, ths)"
| take_it: "mutex_reach flag base s \<Longrightarrow> \<not> suspended (snd s t) \<Longrightarrow> hold (fst s) < 255 \<Longrightarrow>
     mutex_reach flag base (snd (rt_mutex_take t time s))"
| release: "mutex_reach flag base s \<Longrightarrow> \<not> suspended (snd s t) \<Longrightarrow>
     mutex_reach flag base (snd (rt_mutex_release t s))"
| timeout: "mutex_reach flag base s \<Longrightarrow> t \<in> set (mwaiters (fst s)) \<Longrightarrow>
     mutex_reach flag base (mutex_timeout t s)"
| other_priority: "mutex_reach flag base s \<Longrightarrow> owner (fst s) \<noteq> Some t \<Longrightarrow> t \<notin> set (mwaiters (fst s)) \<Longrightarrow>
     mutex_reach flag (base(t := p)) (fst s, set_priority t p (snd s))"

text \<open>
  The invariant.  Free: nobody owns it, nobody waits.  Owned: the owner holds it at
  least once and is not itself waiting.  Waiting threads are suspended and listed
  once, and their error is still clear.  For a priority mutex the list is sorted by urgency, the owner is at least as
  urgent as every waiting thread, every other thread has its own priority, and the
  owner's own priority is kept in \<open>original_priority\<close>.
\<close>

definition mutex_inv :: "(nat \<Rightarrow> nat) \<Rightarrow> mstate \<Rightarrow> bool" where
  "mutex_inv base s \<longleftrightarrow>
     (let m = fst s; ths = snd s in
      (owner m = None \<longrightarrow> mvalue m = 1 \<and> hold m = 0 \<and> mwaiters m = []) \<and>
      (\<forall>w. owner m = Some w \<longrightarrow> mvalue m = 0 \<and> hold m \<noteq> 0 \<and> w \<notin> set (mwaiters m) \<and>
         original_priority m = base w) \<and>
      distinct (mwaiters m) \<and> (\<forall>t. suspended (ths t) \<longleftrightarrow> t \<in> set (mwaiters m)) \<and>
      (\<forall>t \<in> set (mwaiters m). terror (ths t) = 0) \<and>
      (\<forall>t. owner m \<noteq> Some t \<longrightarrow> current_priority (ths t) = base t) \<and>
      (\<forall>w. owner m = Some w \<longrightarrow> current_priority (ths w) \<le> base w))"

definition mutex_prio_inv :: "mstate \<Rightarrow> bool" where
  "mutex_prio_inv s \<longleftrightarrow>
     (let m = fst s; ths = snd s in
      prio_sorted (\<lambda>u. current_priority (ths u)) (mwaiters m) \<and>
      (\<forall>w. owner m = Some w \<longrightarrow> (\<forall>u \<in> set (mwaiters m). current_priority (ths w) \<le> current_priority (ths u))))"

lemma mutex_invD:
  assumes "mutex_inv base (m, ths)"
  shows "owner m = None \<Longrightarrow> mvalue m = 1" "owner m = None \<Longrightarrow> hold m = 0" "owner m = None \<Longrightarrow> mwaiters m = []"
    "owner m = Some w \<Longrightarrow> mvalue m = 0" "owner m = Some w \<Longrightarrow> hold m \<noteq> 0"
    "owner m = Some w \<Longrightarrow> w \<notin> set (mwaiters m)" "owner m = Some w \<Longrightarrow> original_priority m = base w"
    "distinct (mwaiters m)" "suspended (ths t) \<longleftrightarrow> t \<in> set (mwaiters m)"
    "owner m \<noteq> Some t \<Longrightarrow> current_priority (ths t) = base t"
    "owner m = Some w \<Longrightarrow> current_priority (ths w) \<le> base w"
    "t \<in> set (mwaiters m) \<Longrightarrow> terror (ths t) = 0"
  using assms by (auto simp: mutex_inv_def)

lemma byte_Suc_nonzero:
  assumes "h < (255 :: u8)"
  shows "h + 1 \<noteq> 0"
proof
  assume "h + 1 = 0"
  then have "h = 0 - 1" by (metis add_diff_cancel_right')
  then show False using assms by simp
qed

section \<open>The operations keep the invariant\<close>

lemma set_error_inv:
  "mutex_inv base (m, ths) \<Longrightarrow> \<not> suspended (ths t) \<Longrightarrow> mutex_inv base (m, set_error t e ths)"
  "mutex_prio_inv (m, set_error t e ths) = mutex_prio_inv (m, ths)"
  by (simp_all add: mutex_inv_def mutex_prio_inv_def)

lemma init_inv:
  assumes "\<forall>t. \<not> suspended (ths t) \<and> current_priority (ths t) = base t"
  shows "mutex_inv base (rt_mutex_init flag, ths)" "mutex_prio_inv (rt_mutex_init flag, ths)"
  using assms by (simp_all add: mutex_inv_def mutex_prio_inv_def rt_mutex_init_def prio_sorted_def)

text \<open>The blocking branch of a take, as one equation.\<close>

lemma mutex_block_eq:
  fixes ths :: threads
  assumes "owner m = Some w" "w \<noteq> t" "mvalue m = 0" "time \<noteq> 0"
  defines "ths1 \<equiv> mutex_inherit t m (set_error t 0 ths)"
  shows "rt_mutex_take t time (m, ths) =
     (Block, (m\<lparr>mwaiters := fst (rt_ipc_list_suspend (mflag m) t (mwaiters m, ths1))\<rparr>,
              start_timer t time (rt_thread_suspend t ths1)))"
  using assms by (simp add: rt_mutex_take_def Let_def rt_ipc_list_suspend_def)

lemma inherit_sel:
  assumes "owner m = Some w" "w \<noteq> t"
  shows "current_priority (mutex_inherit t m ths u) =
     (if u = w then min (current_priority (ths t)) (current_priority (ths w)) else current_priority (ths u))"
    and "suspended (mutex_inherit t m ths u) = suspended (ths u)"
    and "terror (mutex_inherit t m ths u) = terror (ths u)"
  using assms by (simp_all add: mutex_inherit_def min_def)

lemma set_list_suspend:
  "flag \<le> 1 \<Longrightarrow> set (fst (rt_ipc_list_suspend flag t (ws, ths))) = insert t (set ws)"
  "flag \<le> 1 \<Longrightarrow> distinct (fst (rt_ipc_list_suspend flag t (ws, ths))) \<longleftrightarrow> t \<notin> set ws \<and> distinct ws"
  by (auto simp: rt_ipc_list_suspend_def Let_def RT_IPC_FLAG_FIFO_def RT_IPC_FLAG_PRIO_def)

lemma take_inv:
  assumes inv: "mutex_inv base (m, ths)" and t: "\<not> suspended (ths t)" and h: "hold m < 255" and f: "mflag m \<le> 1"
  shows "mutex_inv base (snd (rt_mutex_take t time (m, ths)))"
proof -
  note d = mutex_invD [OF inv]
  consider "owner m = Some t" | "owner m = None" | w where "owner m = Some w" "w \<noteq> t" by (cases "owner m") auto
  then show ?thesis
  proof cases
    case 1
    then show ?thesis
      using inv byte_Suc_nonzero [OF h] by (simp add: rt_mutex_take_def Let_def mutex_inv_def)
  next
    case 2
    then show ?thesis
      using inv d(1-3) by (auto simp: rt_mutex_take_def Let_def mutex_inv_def)
  next
    case (3 w)
    then have v: "mvalue m = 0" using d(4) by simp
    show ?thesis
    proof (cases "time = 0")
      case True
      then show ?thesis
        using inv t v 3 by (simp add: rt_mutex_take_def Let_def set_error_inv)
    next
      case False
      have "t \<notin> set (mwaiters m)" using t d(9) by simp
      then show ?thesis
        using inv 3 unfolding mutex_block_eq [OF 3 v False] snd_conv mutex_inv_def
        by (auto simp: Let_def set_list_suspend [OF f] inherit_sel [OF 3])
    qed
  qed
qed

lemma timeout_inv:
  assumes "mutex_inv base (m, ths)" and "t \<in> set (mwaiters m)"
  shows "mutex_inv base (mutex_timeout t (m, ths))"
  using assms by (auto simp: mutex_inv_def mutex_timeout_def)

lemma release_inv:
  assumes inv: "mutex_inv base (m, ths)" and t: "\<not> suspended (ths t)"
  shows "mutex_inv base (snd (rt_mutex_release t (m, ths)))"
proof (cases "owner m = Some t")
  case False
  then show ?thesis using inv t by (simp add: rt_mutex_release_def Let_def set_error_inv)
next
  case own: True
  note d = mutex_invD [OF inv]
  have ths1: "current_priority (mutex_restore t (m\<lparr>hold := x\<rparr>) ths u) = base u"
      "suspended (mutex_restore t (m\<lparr>hold := x\<rparr>) ths u) = suspended (ths u)"
      "terror (mutex_restore t (m\<lparr>hold := x\<rparr>) ths u) = terror (ths u)" for u x
    using d(7,10) own by (auto simp: mutex_restore_def)
  show ?thesis
  proof (cases "hold m - 1 = 0")
    case False
    then show ?thesis using inv own by (simp add: rt_mutex_release_def Let_def mutex_inv_def)
  next
    case last: True
    show ?thesis
    proof (cases "mwaiters m")
      case Nil
      then show ?thesis
        using inv own last d(4,7) ths1 by (simp add: rt_mutex_release_def Let_def mutex_inv_def)
    next
      case (Cons w ws)
      then have "suspended (mutex_restore t (m\<lparr>hold := x\<rparr>) ths w)" for x using d(9) ths1(2) by simp
      then show ?thesis
        using inv own last d(4,7,8,9) ths1 Cons
        by (auto simp: rt_mutex_release_def Let_def mutex_inv_def rt_ipc_list_resume_def)
    qed
  qed
qed

section \<open>Priority inheritance\<close>

text \<open>
  For the priority flag the second invariant is kept as well: whoever is handed the
  mutex is at least as urgent as those that go on waiting.
\<close>

lemma take_prio_inv:
  assumes inv: "mutex_inv base (m, ths)" "mutex_prio_inv (m, ths)" and t: "\<not> suspended (ths t)"
    and f: "mflag m = RT_IPC_FLAG_PRIO"
  shows "mutex_prio_inv (snd (rt_mutex_take t time (m, ths)))"
proof -
  note d = mutex_invD [OF inv(1)]
  consider "owner m = Some t" | "owner m = None" | w where "owner m = Some w" "w \<noteq> t" by (cases "owner m") auto
  then show ?thesis
  proof cases
    case 1
    then show ?thesis using inv(2) by (simp add: rt_mutex_take_def Let_def mutex_prio_inv_def)
  next
    case 2
    then show ?thesis
      using inv(2) d(1,3) by (simp add: rt_mutex_take_def Let_def mutex_prio_inv_def prio_sorted_def)
  next
    case (3 w)
    then have v: "mvalue m = 0" and nw: "w \<notin> set (mwaiters m)" using d(4,6) by simp_all
    show ?thesis
    proof (cases "time = 0")
      case True
      then show ?thesis using inv(2) v 3 by (simp add: rt_mutex_take_def Let_def set_error_inv)
    next
      case False
      define ths1 where "ths1 = mutex_inherit t m (set_error t 0 ths)"
      define pr where "pr = (\<lambda>u. current_priority (ths1 u))"
      have pr: "pr u = (if u = w then min (current_priority (ths t)) (current_priority (ths w))
          else current_priority (ths u))" for u
        using inherit_sel(1) [OF 3, of "set_error t 0 ths" u] by (simp add: pr_def ths1_def)
      have "prio_sorted pr (mwaiters m) = prio_sorted (\<lambda>u. current_priority (ths u)) (mwaiters m)"
        using nw pr by (intro prio_sorted_cong) auto
      then have "prio_sorted pr (prio_insert pr t (mwaiters m))"
        using inv(2) by (simp add: prio_insert_sorted mutex_prio_inv_def)
      moreover have "pr w \<le> pr u" if "u \<in> insert t (set (mwaiters m))" for u
        using that pr 3 nw inv(2) by (auto simp: mutex_prio_inv_def min_le_iff_disj)
      ultimately show ?thesis
        using 3 f unfolding mutex_block_eq [OF 3 v False] snd_conv mutex_prio_inv_def
        by (simp add: Let_def rt_ipc_list_suspend_def RT_IPC_FLAG_PRIO_def RT_IPC_FLAG_FIFO_def pr_def
            flip: ths1_def)
    qed
  qed
qed

lemma prio_sorted_remove1: "prio_sorted pr us \<Longrightarrow> prio_sorted pr (remove1 t us)"
  unfolding prio_sorted_def by (induction us) (auto dest: notin_set_remove1)

lemma timeout_prio_inv:
  assumes "mutex_prio_inv (m, ths)"
  shows "mutex_prio_inv (mutex_timeout t (m, ths))"
  using assms
  by (auto simp: mutex_prio_inv_def mutex_timeout_def prio_sorted_remove1 dest: notin_set_remove1)

lemma release_prio_inv:
  assumes inv: "mutex_inv base (m, ths)" "mutex_prio_inv (m, ths)"
  shows "mutex_prio_inv (snd (rt_mutex_release t (m, ths)))"
proof (cases "owner m = Some t")
  case False
  then show ?thesis using inv by (simp add: rt_mutex_release_def Let_def set_error_inv)
next
  case own: True
  note d = mutex_invD [OF inv(1)]
  have p: "current_priority (mutex_restore t (m\<lparr>hold := x\<rparr>) ths u) = base u" for x u
    using d(7,10) own by (auto simp: mutex_restore_def)
  show ?thesis
  proof (cases "hold m - 1 = 0")
    case False
    then show ?thesis using inv own by (simp add: rt_mutex_release_def Let_def mutex_prio_inv_def)
  next
    case last: True
    have "current_priority (ths u) = base u" if "u \<in> set (mwaiters m)" for u
      using that d(6,10) own by (metis option.inject)
    then have srt: "prio_sorted base (mwaiters m)"
      using inv(2) prio_sorted_cong [of "mwaiters m" "\<lambda>u. current_priority (ths u)" base]
      by (simp add: mutex_prio_inv_def)
    show ?thesis
    proof (cases "mwaiters m")
      case Nil
      then show ?thesis using own last by (simp add: rt_mutex_release_def Let_def mutex_prio_inv_def prio_sorted_def)
    next
      case (Cons w ws)
      then have "suspended (mutex_restore t (m\<lparr>hold := x\<rparr>) ths w)" for x
        using d(9) own by (simp add: mutex_restore_def)
      then show ?thesis
        using own last p Cons srt
        by (simp add: rt_mutex_release_def Let_def mutex_prio_inv_def rt_ipc_list_resume_def prio_sorted_def)
    qed
  qed
qed

lemma other_inv:
  "mutex_inv base (m, ths) \<Longrightarrow> owner m \<noteq> Some t \<Longrightarrow> mutex_inv (base(t := p)) (m, set_priority t p ths)"
  by (auto simp: mutex_inv_def)

lemma other_prio_inv:
  assumes "mutex_prio_inv (m, ths)" and "owner m \<noteq> Some t" and "t \<notin> set (mwaiters m)"
  shows "mutex_prio_inv (m, set_priority t p ths)"
proof -
  have "prio_sorted (\<lambda>u. current_priority (set_priority t p ths u)) (mwaiters m) =
      prio_sorted (\<lambda>u. current_priority (ths u)) (mwaiters m)"
    using assms(3) by (intro prio_sorted_cong) auto
  then show ?thesis using assms by (auto simp: mutex_prio_inv_def)
qed

section \<open>Every reachable state\<close>

lemma mflag_const:
  "mflag (fst (snd (rt_mutex_take t time s))) = mflag (fst s)"
  "mflag (fst (snd (rt_mutex_release t s))) = mflag (fst s)"
  "mflag (fst (mutex_timeout t s)) = mflag (fst s)"
  by (simp_all add: rt_mutex_take_def rt_mutex_release_def mutex_timeout_def Let_def case_prod_beta
      split: list.splits)

lemma mutex_reach_inv:
  "mutex_reach flag base s \<Longrightarrow> flag \<le> 1 \<Longrightarrow>
     mflag (fst s) = flag \<and> mutex_inv base s \<and> (flag = RT_IPC_FLAG_PRIO \<longrightarrow> mutex_prio_inv s)"
proof (induction rule: mutex_reach.induct)
  case (start ths base)
  then show ?case using init_inv [of ths base] by (auto simp: rt_mutex_init_def)
next
  case (take_it base s t time)
  then show ?case by (cases s) (auto simp: mflag_const intro: take_inv take_prio_inv)
next
  case (release base s t)
  then show ?case by (cases s) (auto simp: mflag_const intro: release_inv release_prio_inv)
next
  case (timeout base s t)
  then show ?case by (cases s) (auto simp: mflag_const intro: timeout_inv timeout_prio_inv)
next
  case (other_priority base s t p)
  then show ?case by (cases s) (auto simp: fun_upd_def[symmetric] intro: other_inv other_prio_inv simp del: fun_upd_apply)
qed

lemma mutex_waiting: "mutex_reach flag base s \<Longrightarrow> flag \<le> 1 \<Longrightarrow> waiting (mwaiters (fst s)) (snd s)"
  using mutex_reach_inv[of flag base s] by (simp add: mutex_inv_def waiting_def Let_def)

text \<open>
  Hand-over: the last release of the owner makes the first waiting thread the owner,
  holding it once; it is ready again, and its \<open>rt_mutex_take\<close> returns success.
\<close>

lemma mutex_handover:
  assumes "mutex_inv base (m, ths)" and "owner m = Some t" and "hold m = 1" and "mwaiters m = w # ws"
  defines "s \<equiv> snd (rt_mutex_release t (m, ths))"
  shows "owner (fst s) = Some w" "hold (fst s) = 1" "mwaiters (fst s) = ws" "\<not> suspended (snd s w)"
    "mutex_take_wake w s = 0"
proof -
  note d = mutex_invD [OF assms(1)]
  have "suspended (mutex_restore t (m\<lparr>hold := x\<rparr>) ths w)" "terror (mutex_restore t (m\<lparr>hold := x\<rparr>) ths w) = 0" for x
    using d(9,12) assms(4) by (simp_all add: mutex_restore_def)
  then show "owner (fst s) = Some w" "hold (fst s) = 1" "mwaiters (fst s) = ws" "\<not> suspended (snd s w)"
    "mutex_take_wake w s = 0"
    using assms(2-4) by (simp_all add: s_def rt_mutex_release_def Let_def rt_ipc_list_resume_def mutex_take_wake_def)
qed

text \<open>A thread that takes a free mutex and gives it back leaves it as it was.\<close>

lemma take_release:
  assumes "mutex_inv base (m, ths)" and "owner m = None" and "original_priority m = 0xFF"
  shows "rt_mutex_take t time (m, ths) =
      (Return 0, (m\<lparr>mvalue := 0, owner := Some t, original_priority := current_priority (ths t), hold := 1\<rparr>,
                  set_error t 0 ths))"
    and "rt_mutex_release t (snd (rt_mutex_take t time (m, ths))) = (0, (m, set_error t 0 ths))"
  using mutex_invD(1-3) [OF assms(1)] assms(2,3)
  by (simp_all add: rt_mutex_take_def rt_mutex_release_def mutex_restore_def Let_def)

section \<open>Properties of the mutex\<close>

definition idle_threads :: "(nat \<Rightarrow> nat) \<Rightarrow> threads" where
  "idle_threads pr = (\<lambda>t. \<lparr>terror = 0, current_priority = pr t, suspended = False, thread_timer = None\<rparr>)"

lemma idle_threads_sel [simp]:
  "\<not> suspended (idle_threads pr t)" "current_priority (idle_threads pr t) = pr t" "terror (idle_threads pr t) = 0"
  by (simp_all add: idle_threads_def)

text \<open>
  C10: mutual exclusion.  In every state the mutex can reach, a taking thread gets it at once
  exactly when nobody or the thread itself owns it, and then owns it; the mutex is free
  exactly when its value is 1 and nobody waits; an owner is never among the waiting threads
  nor suspended, and the waiting threads are exactly the suspended ones.
\<close>

theorem mutex_exclusion:
  assumes "mutex_reach flag base (m, ths)" and "flag \<le> 1"
  shows "(fst (rt_mutex_take t time (m, ths)) = Return 0 \<longleftrightarrow> owner m = None \<or> owner m = Some t) \<and>
    (fst (rt_mutex_take t time (m, ths)) = Return 0 \<longrightarrow> owner (fst (snd (rt_mutex_take t time (m, ths)))) = Some t) \<and>
    (owner m = None \<longleftrightarrow> mvalue m = 1) \<and> (owner m = None \<longrightarrow> mwaiters m = []) \<and>
    (\<forall>w. owner m = Some w \<longrightarrow> \<not> suspended (ths w)) \<and> (\<forall>u. suspended (ths u) \<longleftrightarrow> u \<in> set (mwaiters m))"
proof -
  have inv: "mutex_inv base (m, ths)" using mutex_reach_inv [OF assms] by simp
  note d = mutex_invD [OF inv]
  have v: "owner m = None \<longleftrightarrow> mvalue m = 1" "owner m = None \<or> mvalue m = 0"
    using d(1,4) by (cases "owner m"; auto)+
  have tk: "(fst (rt_mutex_take t time (m, ths)) = Return 0 \<longleftrightarrow> owner m = None \<or> owner m = Some t) \<and>
    (fst (rt_mutex_take t time (m, ths)) = Return 0 \<longrightarrow> owner (fst (snd (rt_mutex_take t time (m, ths)))) = Some t)"
    using v by (auto simp: rt_mutex_take_def Let_def case_prod_beta RT_ETIMEOUT_def)
  have sus: "\<forall>u. suspended (ths u) \<longleftrightarrow> u \<in> set (mwaiters m)" using d(9) by blast
  moreover have "\<forall>w. owner m = Some w \<longrightarrow> \<not> suspended (ths w)" using d(6) sus by blast
  ultimately show ?thesis using tk v(1) d(3) by blast
qed

lemma mutex_exclusion_witness:
  "fst (rt_mutex_take 2 0 (snd (rt_mutex_take 1 0 (rt_mutex_init 0, idle_threads (\<lambda>_. 10))))) \<noteq> Return 0"
proof -
  have "mutex_reach 0 (\<lambda>_. 10) (snd (rt_mutex_take 1 0 (rt_mutex_init 0, idle_threads (\<lambda>_. 10))))"
    by (intro mutex_reach.take_it mutex_reach.start) (simp_all add: rt_mutex_init_def)
  from mutex_exclusion [of 0 "\<lambda>_. 10" "fst (snd (rt_mutex_take 1 0 (rt_mutex_init 0, idle_threads (\<lambda>_. 10))))" _ 2 0]
    this show ?thesis by (simp add: rt_mutex_take_def rt_mutex_init_def)
qed

text \<open>
  A second mutex breaks inheritance.  Thread 5, of priority 20, owns two mutexes when thread 7, of
  priority 10, blocks on the first: thread 5 is raised to 10.  Giving back the second one sets thread 5
  to the priority kept in that mutex, 20, although thread 7 still waits for the first.
\<close>

lemma nested_release_drops:
  fixes m1 m2 m1' m2' :: mutex and ths1 ths2 ths3 ths4 :: threads
  assumes "rt_mutex_take 5 0 (rt_mutex_init RT_IPC_FLAG_PRIO, idle_threads (\<lambda>t. if t = 7 then 10 else 20)) = (r1, m1, ths1)"
    and "rt_mutex_take 5 0 (rt_mutex_init RT_IPC_FLAG_PRIO, ths1) = (r2, m2, ths2)"
    and "rt_mutex_take 7 (-1) (m1, ths2) = (r3, m1', ths3)"
    and "rt_mutex_release 5 (m2, ths3) = (r4, m2', ths4)"
  shows "r3 = Block \<and> current_priority (ths3 5) = 10 \<and> r4 = 0 \<and> owner m1' = Some 5 \<and> mwaiters m1' = [7] \<and>
    suspended (ths4 7) \<and> current_priority (ths4 7) = 10 \<and> current_priority (ths4 5) = 20"
proof -
  let ?p = "\<lambda>t. if t = 7 then 10 else 20 :: nat"
  have m1: "m1 = \<lparr>mvalue = 0, original_priority = 20, hold = 1, owner = Some 5, mwaiters = [], mflag = RT_IPC_FLAG_PRIO\<rparr>"
      "ths1 = set_error 5 0 (idle_threads ?p)"
    using assms(1) by (auto simp: rt_mutex_init_def rt_mutex_take_def Let_def)
  have m2: "m2 = m1" "ths2 = set_error 5 0 ths1"
    using assms(2) by (auto simp: rt_mutex_init_def rt_mutex_take_def Let_def m1)
  have th3: "r3 = Block" "m1' = m1\<lparr>mwaiters := [7]\<rparr>" "current_priority (ths3 t) = (if t = 7 \<or> t = 5 then 10 else 20)"
      "suspended (ths3 7)" for t
    using assms(3) by (auto simp: rt_mutex_take_def mutex_inherit_def Let_def m1 m2 rt_ipc_list_suspend_def
        RT_IPC_FLAG_PRIO_def RT_IPC_FLAG_FIFO_def)
  have "r4 = 0" "ths4 = set_priority 5 20 ths3"
    using assms(4) th3 by (auto simp: rt_mutex_release_def mutex_restore_def Let_def m1 m2)
  then show ?thesis using th3 by (simp add: m1)
qed

text \<open>
  C11: priority inheritance of one mutex.  Threads take and release a mutex with the priority flag, wait for it and give
  up; while a thread owns it or waits for it, nothing else changes the thread's priority, in particular no
  second mutex does (with two, inheritance is lost: \<open>nested_release_drops\<close>).  In every state reached so
  the owner is at least as urgent as every waiting thread, the waiting threads stand in the
  order of their urgency, every thread but the owner has its own priority, and the owner's
  own priority is kept for the release.
\<close>

theorem mutex_priority_inheritance:
  assumes "mutex_reach RT_IPC_FLAG_PRIO base (m, ths)"
  shows "(\<forall>w u. owner m = Some w \<and> u \<in> set (mwaiters m) \<longrightarrow> current_priority (ths w) \<le> current_priority (ths u)) \<and>
    sorted (map (\<lambda>u. current_priority (ths u)) (mwaiters m)) \<and>
    (\<forall>u. owner m \<noteq> Some u \<longrightarrow> current_priority (ths u) = base u) \<and>
    (\<forall>w. owner m = Some w \<longrightarrow> original_priority m = base w)"
proof -
  have inv: "mutex_inv base (m, ths)" "mutex_prio_inv (m, ths)"
    using mutex_reach_inv [OF assms] by (simp_all add: RT_IPC_FLAG_PRIO_def)
  show ?thesis
    using mutex_invD(7,10) [OF inv(1)] inv(2) by (auto simp: mutex_prio_inv_def prio_sorted_def)
qed

text \<open>Thread 5 holds the mutex, the more urgent thread 7 waits for it.\<close>

definition inherit_state :: mstate where
  "inherit_state = snd (rt_mutex_take 7 (-1) (snd (rt_mutex_take 5 0
     (rt_mutex_init RT_IPC_FLAG_PRIO, idle_threads (\<lambda>t. if t = 7 then 10 else 20)))))"

lemma inherit_state_reach: "mutex_reach RT_IPC_FLAG_PRIO (\<lambda>t. if t = 7 then 10 else 20) inherit_state"
proof -
  let ?b = "\<lambda>t. if t = 7 then 10 else 20 :: nat"
  have "mutex_reach RT_IPC_FLAG_PRIO ?b (rt_mutex_init RT_IPC_FLAG_PRIO, idle_threads ?b)"
    by (rule mutex_reach.start) simp
  then have "mutex_reach RT_IPC_FLAG_PRIO ?b
      (snd (rt_mutex_take 5 0 (rt_mutex_init RT_IPC_FLAG_PRIO, idle_threads ?b)))"
    by (rule mutex_reach.take_it) (simp_all add: rt_mutex_init_def)
  then show ?thesis unfolding inherit_state_def
    by (rule mutex_reach.take_it) (simp_all add: rt_mutex_init_def rt_mutex_take_def)
qed

lemma inherit_state_val:
  "owner (fst inherit_state) = Some 5" "hold (fst inherit_state) = 1" "mwaiters (fst inherit_state) = [7]"
  by (simp_all add: inherit_state_def rt_mutex_init_def rt_mutex_take_def mutex_inherit_def
      rt_ipc_list_suspend_def RT_IPC_FLAG_PRIO_def RT_IPC_FLAG_FIFO_def)

lemma mutex_priority_inheritance_witness:
  "current_priority (snd inherit_state 5) \<le> current_priority (snd inherit_state 7)"
proof -
  have "mutex_reach RT_IPC_FLAG_PRIO (\<lambda>t. if t = 7 then 10 else 20) (fst inherit_state, snd inherit_state)"
    using inherit_state_reach by simp
  from mutex_priority_inheritance [OF this, THEN conjunct1] show ?thesis
    using inherit_state_val by simp
qed

text \<open>
  Hand-over.  When the owner gives the mutex back for the last time while threads wait,
  the first of them owns it, holds it once, is ready again, and its call returns success;
  the old owner has its own priority again.
\<close>

theorem mutex_hands_over:
  assumes "mutex_reach flag base (m, ths)" and "flag \<le> 1" and "owner m = Some t" and "hold m = 1"
    and "mwaiters m = w # ws"
  defines "s \<equiv> snd (rt_mutex_release t (m, ths))"
  shows "owner (fst s) = Some w \<and> hold (fst s) = 1 \<and> mwaiters (fst s) = ws \<and> \<not> suspended (snd s w) \<and>
    mutex_take_wake w s = 0 \<and> current_priority (snd s t) = base t"
proof -
  have reach: "mutex_reach flag base s"
    unfolding s_def
    using assms mutex_reach.release [OF assms(1), of t] mutex_reach_inv [OF assms(1,2)]
    by (auto simp: mutex_inv_def)
  note h = mutex_handover [of base m ths t w ws] mutex_reach_inv [OF assms(1,2)]
  have "owner (fst s) = Some w" using h assms(3-5) unfolding s_def by auto
  moreover have "w \<noteq> t" using mutex_invD(6) [of base m ths t] h(6) assms(3,5) by auto
  ultimately have "current_priority (snd s t) = base t"
    using mutex_reach_inv [OF reach assms(2)] mutex_invD(10) [of base "fst s" "snd s" t] by auto
  then show ?thesis using h assms(3-5) unfolding s_def by auto
qed

lemma mutex_hands_over_witness:
  "owner (fst (snd (rt_mutex_release 5 inherit_state))) = Some 7 \<and>
   current_priority (snd (snd (rt_mutex_release 5 inherit_state)) 5) = 20"
  using mutex_hands_over [of RT_IPC_FLAG_PRIO "\<lambda>t. if t = 7 then 10 else 20" "fst inherit_state"
      "snd inherit_state" 5 7 "[]"] inherit_state_reach inherit_state_val by (simp add: RT_IPC_FLAG_PRIO_def)

end
