(* ===== verification/Kern_Mailbox.thy ===== *)
theory Kern_Mailbox
  imports Kern Queue_Iface
begin

text \<open>
  The mailbox of the kernel (\<open>rt_mb_init\<close>, \<open>rt_mb_send_wait\<close>, \<open>rt_mb_send\<close>,
  \<open>rt_mb_recv\<close> of \<open>ipc.c\<close>): a ring of words with one list of threads waiting to
  receive and one of threads waiting to send.  Each call is split at its scheduling
  point: a first part that returns or blocks, and what the thread does when it runs
  again with a new time limit.  The size is kept in 16 bits; the counter and the offsets have 16 bits too but never
  exceed the size, so they are numbers here.
\<close>

record 'a mailbox =
  msg_pool :: "'a list"
  mb_size :: nat
  entry :: nat
  in_offset :: nat
  out_offset :: nat
  receivers :: "nat list"
  senders :: "nat list"
  mb_flag :: nat

type_synonym 'a mbstate = "'a mailbox \<times> threads"

definition rt_mb_init :: "'a list \<Rightarrow> nat \<Rightarrow> nat \<Rightarrow> 'a mailbox" where
  "rt_mb_init msgpool n flag =
     \<lparr>msg_pool = msgpool, mb_size = n mod 65536, entry = 0, in_offset = 0, out_offset = 0,
      receivers = [], senders = [], mb_flag = flag\<rparr>"

definition mb_advance :: "nat \<Rightarrow> nat \<Rightarrow> nat" where
  "mb_advance n i = (if i + 1 \<ge> n then 0 else i + 1)"

text \<open>Storing and fetching, with the wake-up of one waiting thread.\<close>

definition mb_put :: "'a \<Rightarrow> 'a mbstate \<Rightarrow> 'a mbstate" where
  "mb_put v s =
     (let m = (fst s)\<lparr>msg_pool := (msg_pool (fst s))[in_offset (fst s) := v],
                      in_offset := mb_advance (mb_size (fst s)) (in_offset (fst s)),
                      entry := entry (fst s) + 1\<rparr>;
          (rs, ths) = rt_ipc_list_resume (receivers m, snd s)
      in (m\<lparr>receivers := rs\<rparr>, ths))"

definition mb_get :: "'a mbstate \<Rightarrow> 'a \<times> 'a mbstate" where
  "mb_get s =
     (let v = msg_pool (fst s) ! out_offset (fst s);
          m = (fst s)\<lparr>out_offset := mb_advance (mb_size (fst s)) (out_offset (fst s)),
                      entry := entry (fst s) - 1\<rparr>;
          (ws, ths) = rt_ipc_list_resume (senders m, snd s)
      in (v, (m\<lparr>senders := ws\<rparr>, ths)))"

text \<open>
  \<open>mb_send_loop\<close> is one turn of \<open>while (mb->entry == mb->size)\<close> and what follows it;
  a thread that is woken enters it again with what is left of its time.
\<close>

definition mb_send_loop :: "nat \<Rightarrow> 'a \<Rightarrow> int \<Rightarrow> 'a mbstate \<Rightarrow> outcome \<times> 'a mbstate" where
  "mb_send_loop t v timeout s =
     (if entry (fst s) = mb_size (fst s)
      then let ths = set_error t 0 (snd s)
           in if timeout = 0 then (Return (- RT_EFULL), (fst s, ths))
              else let (ws, ths1) = rt_ipc_list_suspend (mb_flag (fst s)) t (senders (fst s), ths)
                   in (Block, ((fst s)\<lparr>senders := ws\<rparr>, start_timer t timeout ths1))
      else (Return 0, mb_put v s))"

definition rt_mb_send_wait :: "nat \<Rightarrow> 'a \<Rightarrow> int \<Rightarrow> 'a mbstate \<Rightarrow> outcome \<times> 'a mbstate" where
  "rt_mb_send_wait t v timeout s =
     (if entry (fst s) = mb_size (fst s) \<and> timeout = 0 then (Return (- RT_EFULL), s)
      else mb_send_loop t v timeout s)"

definition mb_send_wake :: "nat \<Rightarrow> 'a \<Rightarrow> int \<Rightarrow> 'a mbstate \<Rightarrow> outcome \<times> 'a mbstate" where
  "mb_send_wake t v timeout s =
     (if terror (snd s t) \<noteq> 0 then (Return (terror (snd s t)), s) else mb_send_loop t v timeout s)"

definition rt_mb_send :: "nat \<Rightarrow> 'a \<Rightarrow> 'a mbstate \<Rightarrow> outcome \<times> 'a mbstate" where
  "rt_mb_send t v s = rt_mb_send_wait t v 0 s"

definition mb_recv_loop :: "nat \<Rightarrow> int \<Rightarrow> 'a mbstate \<Rightarrow> outcome \<times> 'a option \<times> 'a mbstate" where
  "mb_recv_loop t timeout s =
     (if entry (fst s) = 0
      then let ths = set_error t 0 (snd s)
           in if timeout = 0 then (Return (- RT_ETIMEOUT), None, (fst s, set_error t (- RT_ETIMEOUT) ths))
              else let (rs, ths1) = rt_ipc_list_suspend (mb_flag (fst s)) t (receivers (fst s), ths)
                   in (Block, None, ((fst s)\<lparr>receivers := rs\<rparr>, start_timer t timeout ths1))
      else let (v, s1) = mb_get s in (Return 0, Some v, s1))"

definition rt_mb_recv :: "nat \<Rightarrow> int \<Rightarrow> 'a mbstate \<Rightarrow> outcome \<times> 'a option \<times> 'a mbstate" where
  "rt_mb_recv t timeout s =
     (if entry (fst s) = 0 \<and> timeout = 0 then (Return (- RT_ETIMEOUT), None, s)
      else mb_recv_loop t timeout s)"

definition mb_recv_wake :: "nat \<Rightarrow> int \<Rightarrow> 'a mbstate \<Rightarrow> outcome \<times> 'a option \<times> 'a mbstate" where
  "mb_recv_wake t timeout s =
     (if terror (snd s t) \<noteq> 0 then (Return (terror (snd s t)), None, s) else mb_recv_loop t timeout s)"

section \<open>The ring as a queue\<close>

definition mb_contents :: "'a mailbox \<Rightarrow> 'a list" where
  "mb_contents m = map (\<lambda>k. msg_pool m ! ((out_offset m + k) mod mb_size m)) [0..<entry m]"

definition mb_wf :: "nat \<Rightarrow> 'a mailbox \<Rightarrow> bool" where
  "mb_wf n m \<longleftrightarrow> 0 < n \<and> mb_size m = n \<and> length (msg_pool m) = n \<and> entry m \<le> n \<and> out_offset m < n \<and>
     in_offset m = (out_offset m + entry m) mod n"

lemma mb_init_wf: "0 < n \<Longrightarrow> n < 65536 \<Longrightarrow> length pool = n \<Longrightarrow> mb_wf n (rt_mb_init pool n flag)"
  by (simp add: mb_wf_def rt_mb_init_def)

lemma mb_init_contents [simp]: "mb_contents (rt_mb_init pool n flag) = []"
  by (simp add: mb_contents_def rt_mb_init_def)

lemma length_mb_contents [simp]: "length (mb_contents m) = entry m"
  by (simp add: mb_contents_def)

lemma mb_advance_mod: "i < n \<Longrightarrow> mb_advance n i = (i + 1) mod n"
  by (cases "i + 1 = n") (auto simp: mb_advance_def)

text \<open>The waiting lists play no part in what the mailbox holds.\<close>

lemma mb_lists [simp]:
  "mb_contents (m\<lparr>receivers := rs\<rparr>) = mb_contents m" "mb_contents (m\<lparr>senders := ws\<rparr>) = mb_contents m"
  "mb_wf n (m\<lparr>receivers := rs\<rparr>) = mb_wf n m" "mb_wf n (m\<lparr>senders := ws\<rparr>) = mb_wf n m"
  by (simp_all add: mb_contents_def mb_wf_def)

lemma mb_put_queue:
  assumes "mb_wf n (fst s)" and "entry (fst s) < n"
  shows "mb_contents (fst (mb_put v s)) = mb_contents (fst s) @ [v]" "mb_wf n (fst (mb_put v s))"
proof -
  define m where "m = fst s"
  have wf: "0 < n" "mb_size m = n" "length (msg_pool m) = n" "entry m < n" "out_offset m < n"
      "in_offset m = (out_offset m + entry m) mod n"
    using assms by (simp_all add: mb_wf_def m_def)
  define m' where "m' = m\<lparr>msg_pool := (msg_pool m)[in_offset m := v],
      in_offset := mb_advance n (in_offset m), entry := entry m + 1\<rparr>"
  have "in_offset m < n" using wf by simp
  then have adv: "mb_advance n (in_offset m) = (out_offset m + (entry m + 1)) mod n"
    using wf by (simp add: mb_advance_mod mod_simps)
  have old: "msg_pool m' ! ((out_offset m + k) mod n) = msg_pool m ! ((out_offset m + k) mod n)"
    if "k < entry m" for k
    using that wf mod_add_inj [of "out_offset m" k n "entry m"] by (auto simp: m'_def nth_list_update)
  have new: "msg_pool m' ! ((out_offset m + entry m) mod n) = v"
    using wf by (simp add: m'_def)
  have "mb_contents m' = mb_contents m @ [v]"
    unfolding mb_contents_def using old new wf(2) by (simp add: m'_def)
  moreover have "mb_wf n m'" using wf adv by (simp add: mb_wf_def m'_def)
  moreover have "fst (mb_put v s) = m'\<lparr>receivers := fst (rt_ipc_list_resume (receivers m, snd s))\<rparr>"
    using wf(2) by (simp add: mb_put_def Let_def case_prod_beta m'_def flip: m_def)
  ultimately show "mb_contents (fst (mb_put v s)) = mb_contents (fst s) @ [v]" "mb_wf n (fst (mb_put v s))"
    by (simp_all flip: m_def)
qed

lemma mb_get_queue:
  assumes "mb_wf n (fst s)" and "entry (fst s) \<noteq> 0"
  shows "fst (mb_get s) # mb_contents (fst (snd (mb_get s))) = mb_contents (fst s)"
    "mb_wf n (fst (snd (mb_get s)))"
proof -
  define m where "m = fst s"
  have wf: "0 < n" "mb_size m = n" "length (msg_pool m) = n" "entry m \<le> n" "out_offset m < n"
      "in_offset m = (out_offset m + entry m) mod n"
    using assms by (simp_all add: mb_wf_def m_def)
  obtain e where e: "entry m = Suc e" using assms(2) by (cases "entry m") (auto simp: m_def)
  define m' where "m' = m\<lparr>out_offset := mb_advance n (out_offset m), entry := entry m - 1\<rparr>"
  have adv: "mb_advance n (out_offset m) = Suc (out_offset m) mod n"
    using wf by (simp add: mb_advance_mod)
  have "(Suc (out_offset m) mod n + k) mod n = (out_offset m + Suc k) mod n" for k
    by (simp add: mod_simps)
  then have "mb_contents m' = map (\<lambda>k. msg_pool m ! ((out_offset m + Suc k) mod n)) [0..<e]"
    using wf(2) e adv by (simp add: mb_contents_def m'_def)
  then have "msg_pool m ! out_offset m # mb_contents m' = mb_contents m"
    using wf(2,5) by (simp add: mb_contents_def [of m] e map_upt_Suc_shift del: upt_Suc)
  moreover have "mb_wf n m'"
    using wf e adv by (simp add: mb_wf_def m'_def mod_simps)
  moreover have "fst (mb_get s) = msg_pool m ! out_offset m"
      "fst (snd (mb_get s)) = m'\<lparr>senders := fst (rt_ipc_list_resume (senders m, snd s))\<rparr>"
    using wf(2) by (simp_all add: mb_get_def Let_def case_prod_beta m'_def flip: m_def)
  ultimately show "fst (mb_get s) # mb_contents (fst (snd (mb_get s))) = mb_contents (fst s)"
    "mb_wf n (fst (snd (mb_get s)))"
    by (simp_all flip: m_def)
qed

text \<open>
  The mailbox honours the queue contract for the non-blocking calls of any thread, up
  to its full size.
\<close>

definition mb_store :: "nat \<Rightarrow> 'a \<Rightarrow> 'a mbstate \<Rightarrow> 'a mbstate" where
  "mb_store t v s = snd (rt_mb_send t v s)"

definition mb_fetch :: "nat \<Rightarrow> 'a mbstate \<Rightarrow> 'a \<times> 'a mbstate" where
  "mb_fetch t s = (let (r, v, s1) = rt_mb_recv t 0 s in (the v, s1))"

definition mb_empty :: "'a mbstate \<Rightarrow> bool" where
  "mb_empty s \<longleftrightarrow> entry (fst s) = 0"

interpretation mbq: bounded_queue "\<lambda>s. mb_wf n (fst s)" "\<lambda>s. mb_contents (fst s)" n "\<lambda>_. True"
  "mb_store t" mb_empty "mb_fetch t" for n t :: nat
proof unfold_locales
  fix q :: "'a mbstate" and x :: 'a
  assume q: "mb_wf n (fst q)"
  have size: "mb_size (fst q) = n" using q by (simp add: mb_wf_def)
  show "mb_empty q \<longleftrightarrow> mb_contents (fst q) = []"
    using length_mb_contents [of "fst q"] by (auto simp: mb_empty_def simp del: length_mb_contents)
  {
    assume "length (mb_contents (fst q)) < n"
    then have lt: "entry (fst q) < n" by simp
    then have "mb_store t x q = mb_put x q"
      using size by (simp add: mb_store_def rt_mb_send_def rt_mb_send_wait_def mb_send_loop_def)
    then show "mb_wf n (fst (mb_store t x q))" "mb_contents (fst (mb_store t x q)) = mb_contents (fst q) @ [x]"
      using mb_put_queue [OF q lt] by simp_all
  }
  {
    assume "mb_contents (fst q) \<noteq> []"
    then have ne: "entry (fst q) \<noteq> 0" by (auto simp: mb_contents_def)
    then have "mb_fetch t q = mb_get q"
      by (simp add: mb_fetch_def rt_mb_recv_def mb_recv_loop_def case_prod_beta)
    then show "mb_wf n (fst (snd (mb_fetch t q)))"
      "fst (mb_fetch t q) # mb_contents (fst (snd (mb_fetch t q))) = mb_contents (fst q)"
      using mb_get_queue [OF q ne] by simp_all
  }
qed

section \<open>Properties of the mailbox\<close>

text \<open>
  C12: the mailbox is a first-in first-out queue up to its full size.  Any run of
  non-blocking sends and receives from an empty mailbox that never holds more than its size
  hands out, in order, a prefix of what was sent, and the rest is what is still in it.
\<close>

theorem mailbox_fifo:
  assumes "mb_wf n (fst q)" and "mb_contents (fst q) = []" and "fits (\<lambda>_. True) n ops 0"
  shows "stored ops = fst (qrun (mb_store t) mb_empty (mb_fetch t) ops q) @
           mb_contents (fst (snd (qrun (mb_store t) mb_empty (mb_fetch t) ops q)))"
  using assms by (rule mbq.run_prefix)

lemma mailbox_fifo_witness:
  "stored [Store 4, Store 5, Fetch, Store (6 :: nat)] =
     fst (qrun (mb_store 0) mb_empty (mb_fetch 0) [Store 4, Store 5, Fetch, Store 6]
            (rt_mb_init [0, 0] 2 0, \<lambda>_. \<lparr>terror = 0, current_priority = 1, suspended = False, thread_timer = None\<rparr>)) @
     mb_contents (fst (snd (qrun (mb_store 0) mb_empty (mb_fetch 0) [Store 4, Store 5, Fetch, Store 6]
            (rt_mb_init [0, 0] 2 0, \<lambda>_. \<lparr>terror = 0, current_priority = 1, suspended = False, thread_timer = None\<rparr>))))"
  by (rule mailbox_fifo [where n = 2]) (simp_all add: mb_init_wf)

text \<open>
  The two ends.  A send without waiting fails exactly on a full mailbox and then changes
  nothing; a receive without waiting fails exactly on an empty one and then changes
  nothing; otherwise the send adds its value at the end, and the receive delivers the oldest.
\<close>

theorem mailbox_full_empty:
  assumes "mb_wf n m"
  shows "(if entry m = n then rt_mb_send t v (m, ths) = (Return (- RT_EFULL), m, ths)
          else fst (rt_mb_send t v (m, ths)) = Return 0 \<and>
               mb_contents (fst (snd (rt_mb_send t v (m, ths)))) = mb_contents m @ [v]) \<and>
    (if entry m = 0 then rt_mb_recv t 0 (m, ths) = (Return (- RT_ETIMEOUT), None, m, ths)
     else fst (rt_mb_recv t 0 (m, ths)) = Return 0 \<and>
          (\<exists>x. fst (snd (rt_mb_recv t 0 (m, ths))) = Some x \<and>
               x # mb_contents (fst (snd (snd (rt_mb_recv t 0 (m, ths))))) = mb_contents m))"
proof -
  have sz: "mb_size m = n" "entry m \<le> n" using assms by (simp_all add: mb_wf_def)
  show ?thesis
    using mb_put_queue [of n "(m, ths)" v] mb_get_queue [of n "(m, ths)"] assms sz
    by (auto simp: rt_mb_send_def rt_mb_send_wait_def mb_send_loop_def rt_mb_recv_def mb_recv_loop_def
        case_prod_beta)
qed

lemma mailbox_full_empty_witness:
  "\<forall>ths. rt_mb_recv 0 0 (rt_mb_init [0 :: nat] 1 0, ths) = (Return (- RT_ETIMEOUT), None, rt_mb_init [0] 1 0, ths)"
proof
  fix ths
  have "mb_wf 1 (rt_mb_init [0 :: nat] 1 0)" by (rule mb_init_wf) simp_all
  from mailbox_full_empty [OF this, of 0 0 ths]
  show "rt_mb_recv 0 0 (rt_mb_init [0 :: nat] 1 0, ths) = (Return (- RT_ETIMEOUT), None, rt_mb_init [0] 1 0, ths)"
    by (simp add: rt_mb_init_def)
qed

end
