(* ===== verification/Shdsl.thy ===== *)
theory Shdsl
  imports Idc_Msg Pef_Reach Kern_Mutex Kern_Mailbox
begin

text \<open>
  The message layer of the modem application (\<open>rt_shdsl.c\<close>): its global state,
  \<open>rt_pef24628_poll\<close>, \<open>rt_pef24638_send_idc_msg\<close> and the two calls that wrap them in the
  lock \<open>g_sh_lock\<close>.

  What the code takes from its surroundings is the record \<open>senv\<close>: the bus of the chip, the
  number of the calling thread, whether the n-th \<open>rt_malloc\<close> succeeds and what the block
  then holds, and what the receive buffer and the unassigned words of a message hold
  on the stack.  A call that blocks on the lock gives \<open>None\<close>.  Log output and waiting
  (\<open>rt_kprintf\<close>, \<open>WAIT\<close>) are left out.
\<close>

section \<open>State\<close>

record rt_msg =
  msg_id :: u32
  linkno :: u8
  mstate :: u8
  datarate :: u32
  snr_c :: u32
  snr_n :: u32

text \<open>The mailbox holds addresses: none, of the one static message, or of a block from \<open>rt_malloc\<close>.\<close>

datatype msg_ptr = Null | Gmsg | Heap rt_msg

record line_status =
  linkStatus :: int
  dateRate :: int
  ls_snr_c :: u32
  ls_snr_n :: u32

record config =
  dslService :: u32
  caplist_co :: u32
  caplist_rt :: u32
  dslWires :: u32
  dslStandard :: u32
  lineprobe :: u32
  cfg_extend :: u32
  cfg_extend_rate_fix_value :: u32
  minrate :: u32
  maxrate :: u32
  dslmode :: u32

record 'h shdsl =
  pef :: "'h dev"
  drv_open :: bool
  g_rcmode :: u8
  g_TCMode :: u8
  g_maxbaserate :: u32
  g_lineProbe :: u32
  g_configed :: u32
  g_PAM_Constellation :: u32
  g_duplex :: u32
  g_speed :: u32
  g_init_finished :: bool
  g_lineStatus :: line_status
  evt_initializationcomplete :: bool
  g_config :: config
  g_mb :: "msg_ptr mailbox"
  g_sh_lock :: mutex
  kthreads :: threads
  gmsg :: rt_msg
  mallocs :: nat
  live :: nat
  phy_log :: "(u16 \<times> u16 \<times> u16) list"

record 'h senv =
  chip :: "'h bus"
  self :: nat
  alloc :: "nat \<Rightarrow> bool"
  blk :: "nat \<Rightarrow> rt_msg"
  stack_buf :: "u8 list"
  stack_junk :: "u32 \<times> u32"

definition RT_WAITING_FOREVER :: int where "RT_WAITING_FOREVER = -1"

section \<open>Polling\<close>

text \<open>
  Posting a message to the state machine thread: only after initialisation, only if
  memory is there; the result of \<open>rt_mb_send\<close> is not looked at.  \<open>live\<close> counts the blocks
  that are allocated and not freed.
\<close>

definition poll_post :: "'h senv \<Rightarrow> (rt_msg \<Rightarrow> rt_msg) \<Rightarrow> 'h shdsl \<Rightarrow> 'h shdsl" where
  "poll_post env fill s =
     (if g_init_finished s
      then let n = mallocs s; s1 = s\<lparr>mallocs := n + 1\<rparr>
           in if alloc env n
              then let (r, mb, ths) = rt_mb_send (self env) (Heap (fill (blk env n))) (g_mb s1, kthreads s1)
                   in s1\<lparr>live := live s1 + 1, g_mb := mb, kthreads := ths\<rparr>
              else s1
      else s)"

definition poll_dispatch :: "'h senv \<Rightarrow> u16 \<Rightarrow> u8 list \<Rightarrow> 'h shdsl \<Rightarrow> 'h shdsl" where
  "poll_dispatch env idc_id buf s =
     (if idc_id = EVT_INITIALIZATIONCOMPLETE then s\<lparr>evt_initializationcomplete := True\<rparr>
      else if idc_id = EVT_PMD_LINKSTATE
      then poll_post env (\<lambda>p. p\<lparr>msg_id := ucast EVT_PMD_LINKSTATE, linkno := ucast (buf_word buf 0),
             mstate := ucast (buf_word buf 1)\<rparr>) s
      else if idc_id = ACK_PMD_STATUSGET
      then poll_post env (\<lambda>p. p\<lparr>msg_id := ucast ACK_PMD_STATUSGET, linkno := ucast (buf_word buf 0),
             datarate := buf_word buf 2\<rparr>) s
      else if idc_id = ACK_PMD_PM_PARAMGET
      then poll_post env (\<lambda>p. p\<lparr>msg_id := ucast ACK_PMD_PM_PARAMGET, linkno := ucast (buf_word buf 0),
             snr_c := buf_word buf 5, snr_n := buf_word buf 13\<rparr>) s
      else if idc_id = EVT_EOC_LINKSTATE
      then poll_post env (\<lambda>p. p\<lparr>msg_id := ucast EVT_EOC_LINKSTATE, mstate := ucast (buf_word buf 1),
             linkno := ucast (buf_word buf 0)\<rparr>) s
      else s)"

text \<open>
  \<open>while (--retries)\<close> from 100: at most 99 turns.  The buffer keeps what earlier turns read.
  \<open>FIO_PEF24628E_POLL_CHECK\<close> of the control call is \<open>Pef24628e_Poll_Check\<close> (\<open>control_poll\<close>).
\<close>

fun poll_loop :: "'h senv \<Rightarrow> u16 \<Rightarrow> nat \<Rightarrow> u8 list \<Rightarrow> 'h shdsl \<Rightarrow> bool \<times> 'h shdsl" where
  "poll_loop env e 0 buf s = (False, s)"
| "poll_loop env e (Suc n) buf s =
     (let (r, d1) = Pef24628e_Poll_Check (chip env) (pef s)
      in if \<not> r then (e = 0, s\<lparr>pef := d1\<rparr>)
         else let (nread, bs, d2) = pef24628_read (chip env) PEF24628E_MSG_SIZE d1;
                  nB = unat (ucast nread :: u16);
                  buf1 = buf_put 0 bs buf;
                  s1 = s\<lparr>pef := d2\<rparr>
              in if nB < 3 then (False, s1)
                 else if buf1 ! (nB - 1) = 0xA1 then poll_loop env e n buf1 s1
                 else let i = poll_msg_id (buf1 ! 0) (buf1 ! 1);
                          s2 = poll_dispatch env i buf1 s1
                      in if i = e OR 0x200 \<or> e = 0 then (True, s2) else poll_loop env e n buf1 s2)"

definition rt_pef24628_poll :: "'h senv \<Rightarrow> u16 \<Rightarrow> 'h shdsl \<Rightarrow> bool \<times> 'h shdsl" where
  "rt_pef24628_poll env e s = (if \<not> drv_open s then (False, s) else poll_loop env e 99 (stack_buf env) s)"

section \<open>Sending\<close>

text \<open>A driver that is not open writes nothing (\<open>rt_device_write\<close>).\<close>

definition rt_pef24638_send_idc_msg :: "'h senv \<Rightarrow> u16 \<Rightarrow> u8 list \<Rightarrow> 'h shdsl \<Rightarrow> bool \<times> 'h shdsl" where
  "rt_pef24638_send_idc_msg env idc_id src s =
     (if length src > 120 \<or> length src mod 4 \<noteq> 0 then (False, s)
      else let msg = idc_header idc_id (of_nat (length src)) @ src;
               (n, d1) = (if drv_open s then pef24628_write (chip env) msg (pef s) else (0, pef s));
               s1 = s\<lparr>pef := d1\<rparr>
           in if sint n \<noteq> int (length msg) then (False, s1) else rt_pef24628_poll env idc_id s1)"

text \<open>\<open>g_sh_lock\<close> around a call.\<close>

definition with_lock :: "'h senv \<Rightarrow> ('h shdsl \<Rightarrow> bool \<times> 'h shdsl) \<Rightarrow> 'h shdsl \<Rightarrow> (bool \<times> 'h shdsl) option" where
  "with_lock env f s =
     (case rt_mutex_take (self env) RT_WAITING_FOREVER (g_sh_lock s, kthreads s) of
        (Block, _) \<Rightarrow> None
      | (Return e, m, ths) \<Rightarrow>
          let s1 = s\<lparr>g_sh_lock := m, kthreads := ths\<rparr>
          in if e \<noteq> RT_EOK then Some (False, s1)
             else let (ret, s2) = f s1;
                      (_, m2, ths2) = rt_mutex_release (self env) (g_sh_lock s2, kthreads s2)
                  in Some (ret, s2\<lparr>g_sh_lock := m2, kthreads := ths2\<rparr>))"

definition rt_shdsl_poll :: "'h senv \<Rightarrow> u16 \<Rightarrow> 'h shdsl \<Rightarrow> (bool \<times> 'h shdsl) option" where
  "rt_shdsl_poll env e = with_lock env (rt_pef24628_poll env e)"

definition rt_shdsl_send_idc_msg :: "'h senv \<Rightarrow> u16 \<Rightarrow> u8 list \<Rightarrow> 'h shdsl \<Rightarrow> (bool \<times> 'h shdsl) option" where
  "rt_shdsl_send_idc_msg env idc_id src = with_lock env (rt_pef24638_send_idc_msg env idc_id src)"

section \<open>What polling and sending do to the rest of the state\<close>

text \<open>
  \<open>app_frame\<close>: the settings, the line status, the lock and the priorities stay as they are.
  \<open>app_ext\<close>: moreover, the mailbox only grows at its end, by messages of the four posted
  kinds, each in a block of its own.
\<close>

definition app_frame :: "'h shdsl \<Rightarrow> 'h shdsl \<Rightarrow> bool" where
  "app_frame s s' \<longleftrightarrow>
     drv_open s' = drv_open s \<and> g_rcmode s' = g_rcmode s \<and> g_TCMode s' = g_TCMode s \<and>
     g_maxbaserate s' = g_maxbaserate s \<and> g_lineProbe s' = g_lineProbe s \<and>
     g_configed s' = g_configed s \<and> g_PAM_Constellation s' = g_PAM_Constellation s \<and>
     g_duplex s' = g_duplex s \<and> g_speed s' = g_speed s \<and> g_init_finished s' = g_init_finished s \<and>
     g_lineStatus s' = g_lineStatus s \<and> g_config s' = g_config s \<and> gmsg s' = gmsg s \<and>
     phy_log s' = phy_log s \<and> g_sh_lock s' = g_sh_lock s \<and>
     (\<forall>t. current_priority (kthreads s' t) = current_priority (kthreads s t))"

definition posted_ids :: "u32 set" where
  "posted_ids = {0x690, 0x362, 0x364, 0x688}"

definition app_ext :: "'h shdsl \<Rightarrow> 'h shdsl \<Rightarrow> bool" where
  "app_ext s s' \<longleftrightarrow>
     (dev_wf (pef s) \<longrightarrow> dev_wf (pef s')) \<and>
     (mb_wf 32 (g_mb s) \<longrightarrow> mb_wf 32 (g_mb s') \<and>
        (\<exists>ps. mb_contents (g_mb s') = mb_contents (g_mb s) @ map Heap ps \<and>
              msg_id ` set ps \<subseteq> posted_ids \<and> live s + length ps \<le> live s' \<and>
              (length ps + entry (g_mb s) < 32 \<longrightarrow> live s' = live s + length ps)))"

lemma app_frame_refl [intro, simp]: "app_frame s s"
  by (simp add: app_frame_def)

lemma app_frame_trans [trans]: "app_frame s s' \<Longrightarrow> app_frame s' s'' \<Longrightarrow> app_frame s s''"
  by (simp add: app_frame_def)

lemma app_ext_refl [intro, simp]: "app_ext s s"
  by (auto simp: app_ext_def intro!: exI [of _ "[]"])

lemma app_ext_trans [trans]:
  assumes "app_ext s s'" and "app_ext s' s''"
  shows "app_ext s s''"
proof (cases "mb_wf 32 (g_mb s)")
  case True
  with assms(1) obtain ps where p: "mb_contents (g_mb s') = mb_contents (g_mb s) @ map Heap ps"
      "msg_id ` set ps \<subseteq> posted_ids" "live s + length ps \<le> live s'"
      "length ps + entry (g_mb s) < 32 \<longrightarrow> live s' = live s + length ps" "mb_wf 32 (g_mb s')"
    by (auto simp: app_ext_def)
  from p(5) assms(2) obtain qs where q: "mb_contents (g_mb s'') = mb_contents (g_mb s') @ map Heap qs"
      "msg_id ` set qs \<subseteq> posted_ids" "live s' + length qs \<le> live s''"
      "length qs + entry (g_mb s') < 32 \<longrightarrow> live s'' = live s' + length qs" "mb_wf 32 (g_mb s'')"
    by (auto simp: app_ext_def)
  have "entry (g_mb s') = entry (g_mb s) + length ps"
    using arg_cong [OF p(1), of length] by simp
  then have "mb_contents (g_mb s'') = mb_contents (g_mb s) @ map Heap (ps @ qs) \<and>
      msg_id ` set (ps @ qs) \<subseteq> posted_ids \<and> live s + length (ps @ qs) \<le> live s'' \<and>
      (length (ps @ qs) + entry (g_mb s) < 32 \<longrightarrow> live s'' = live s + length (ps @ qs))"
    using p q by auto
  moreover have "dev_wf (pef s) \<longrightarrow> dev_wf (pef s'')"
    using assms by (simp add: app_ext_def)
  ultimately show ?thesis using q(5) unfolding app_ext_def by blast
qed (use assms in \<open>auto simp: app_ext_def\<close>)

lemma mb_put_prio: "current_priority (snd (mb_put v s) t) = current_priority (snd s t)"
  by (simp add: mb_put_def Let_def rt_ipc_list_resume_def case_prod_beta split: list.splits)

lemma mb_send_cases:
  assumes "mb_wf 32 m"
  shows "entry m = 32 \<and> rt_mb_send t v (m, ths) = (Return (- RT_EFULL), m, ths) \<or>
    entry m < 32 \<and> rt_mb_send t v (m, ths) = (Return 0, mb_put v (m, ths)) \<and>
    mb_wf 32 (fst (mb_put v (m, ths))) \<and> mb_contents (fst (mb_put v (m, ths))) = mb_contents m @ [v]"
proof (cases "entry m < 32")
  case True
  then show ?thesis
    using mb_put_queue [of 32 "(m, ths)" v] assms
    by (simp add: rt_mb_send_def rt_mb_send_wait_def mb_send_loop_def mb_wf_def)
next
  case False
  then show ?thesis
    using assms by (simp add: rt_mb_send_def rt_mb_send_wait_def mb_wf_def)
qed

lemma mb_send_prio: "current_priority (snd (snd (rt_mb_send t v (m, ths))) u) = current_priority (ths u)"
  by (simp add: rt_mb_send_def rt_mb_send_wait_def mb_send_loop_def mb_put_prio)

lemma poll_post_ext:
  assumes "\<And>p. msg_id (fill p) \<in> posted_ids"
  shows "app_frame s (poll_post env fill s)" "app_ext s (poll_post env fill s)"
proof -
  show "app_frame s (poll_post env fill s)"
    by (simp add: poll_post_def app_frame_def Let_def case_prod_beta mb_send_prio)
  let ?v = "Heap (fill (blk env (mallocs s)))"
  show "app_ext s (poll_post env fill s)"
  proof (cases "mb_wf 32 (g_mb s) \<and> g_init_finished s \<and> alloc env (mallocs s)")
    case True
    obtain mb ths where put: "mb_put ?v (g_mb s, kthreads s) = (mb, ths)" by fastforce
    then consider
        "entry (g_mb s) = 32" "rt_mb_send (self env) ?v (g_mb s, kthreads s) = (Return (- RT_EFULL), g_mb s, kthreads s)"
      | "entry (g_mb s) < 32" "rt_mb_send (self env) ?v (g_mb s, kthreads s) = (Return 0, mb, ths)"
        "mb_wf 32 mb" "mb_contents mb = mb_contents (g_mb s) @ [?v]"
      using mb_send_cases [of "g_mb s" "self env" ?v "kthreads s"] put True by auto
    then show ?thesis
    proof cases
      case 1
      then show ?thesis using True
        by (auto simp: poll_post_def app_ext_def Let_def intro!: exI [of _ "[]"])
    next
      case 2
      then show ?thesis using True assms
        by (auto simp: poll_post_def app_ext_def Let_def intro!: exI [of _ "[fill (blk env (mallocs s))]"])
    qed
  next
    case False
    then show ?thesis
      by (auto simp: poll_post_def app_ext_def Let_def case_prod_beta intro!: exI [of _ "[]"])
  qed
qed

lemma poll_dispatch_ext: "app_frame s (poll_dispatch env i buf s)" "app_ext s (poll_dispatch env i buf s)"
proof -
  show "app_frame s (poll_dispatch env i buf s)"
    unfolding poll_dispatch_def
    by (auto intro!: poll_post_ext simp: posted_ids_def idc_ids) (simp add: app_frame_def)
  show "app_ext s (poll_dispatch env i buf s)"
    unfolding poll_dispatch_def
    by (auto intro!: poll_post_ext simp: posted_ids_def idc_ids)
      (auto simp: app_ext_def intro!: exI [of _ "[]"])
qed

lemma set_pef_ext: "dev_wf (pef s) \<longrightarrow> dev_wf d \<Longrightarrow> app_frame s (s\<lparr>pef := d\<rparr>) \<and> app_ext s (s\<lparr>pef := d\<rparr>)"
  by (auto simp: app_frame_def app_ext_def intro!: exI [of _ "[]"])

lemma poll_loop_ext:
  "app_frame s (snd (poll_loop env e n buf s)) \<and> app_ext s (snd (poll_loop env e n buf s))"
proof (induction n arbitrary: buf s)
  case (Suc n)
  define d1 where "d1 = snd (Pef24628e_Poll_Check (chip env) (pef s))"
  define rd where "rd = pef24628_read (chip env) PEF24628E_MSG_SIZE d1"
  define buf1 where "buf1 = buf_put 0 (fst (snd rd)) buf"
  define s1 where "s1 = s\<lparr>pef := snd (snd rd)\<rparr>"
  define s2 where "s2 = poll_dispatch env (poll_msg_id (buf1 ! 0) (buf1 ! 1)) buf1 s1"
  have wf: "dev_wf (pef s) \<longrightarrow> dev_wf d1" "dev_wf (pef s) \<longrightarrow> dev_wf (snd (snd rd))"
    by (auto simp: d1_def rd_def intro: wf_intro)
  have e0: "app_frame s (s\<lparr>pef := d1\<rparr>) \<and> app_ext s (s\<lparr>pef := d1\<rparr>)"
    by (rule set_pef_ext [OF wf(1)])
  have e1: "app_frame s s1 \<and> app_ext s s1"
    unfolding s1_def by (rule set_pef_ext [OF wf(2)])
  have e2: "app_frame s s2 \<and> app_ext s s2"
    using e1 poll_dispatch_ext [of s1 env _ buf1] unfolding s2_def
    by (meson app_frame_trans app_ext_trans)
  have e3: "app_frame s (snd (poll_loop env e n buf1 s1)) \<and> app_ext s (snd (poll_loop env e n buf1 s1))"
    using e1 Suc.IH [of s1 buf1] by (meson app_frame_trans app_ext_trans)
  have e4: "app_frame s (snd (poll_loop env e n buf1 s2)) \<and> app_ext s (snd (poll_loop env e n buf1 s2))"
    using e2 Suc.IH [of s2 buf1] by (meson app_frame_trans app_ext_trans)
  show ?case
    using e0 e1 e2 e3 e4
    by (simp add: Let_def case_prod_beta d1_def rd_def buf1_def s1_def s2_def)
qed simp

lemma poll_ext:
  "app_frame s (snd (rt_pef24628_poll env e s))" "app_ext s (snd (rt_pef24628_poll env e s))"
  using poll_loop_ext [of s env e 99 "stack_buf env"] by (simp_all add: rt_pef24628_poll_def)

lemma send_ext:
  "app_frame s (snd (rt_pef24638_send_idc_msg env i src s))"
  "app_ext s (snd (rt_pef24638_send_idc_msg env i src s))"
proof -
  define w where "w = (if drv_open s
    then pef24628_write (chip env) (idc_header i (of_nat (length src)) @ src) (pef s) else (0, pef s))"
  define s1 where "s1 = s\<lparr>pef := snd w\<rparr>"
  have "app_frame s s1 \<and> app_ext s s1" if "length src \<le> 120"
    unfolding s1_def by (rule set_pef_ext) (use that in \<open>auto simp: w_def intro!: write_wf\<close>)
  then have "app_frame s (snd (rt_pef24638_send_idc_msg env i src s)) \<and>
      app_ext s (snd (rt_pef24638_send_idc_msg env i src s))"
    using poll_ext [of s1 env i]
    by (auto simp: rt_pef24638_send_idc_msg_def Let_def case_prod_beta not_less
        simp flip: w_def s1_def intro: app_frame_trans app_ext_trans)
  then show "app_frame s (snd (rt_pef24638_send_idc_msg env i src s))"
    "app_ext s (snd (rt_pef24638_send_idc_msg env i src s))" by simp_all
qed

section \<open>The lock\<close>

text \<open>
  With the lock free a wrapped call does not block: it returns, gives the lock back as it
  was, and otherwise does what the call inside does.
\<close>

definition lock_free :: "'h shdsl \<Rightarrow> bool" where
  "lock_free s \<longleftrightarrow> g_sh_lock s = rt_mutex_init RT_IPC_FLAG_PRIO"

definition call_ok :: "('h shdsl \<Rightarrow> bool \<times> 'h shdsl) \<Rightarrow> bool" where
  "call_ok f \<longleftrightarrow> (\<forall>s. app_frame s (snd (f s)) \<and> app_ext s (snd (f s)))"

lemma with_lock_free:
  assumes "lock_free s" and "call_ok f"
  obtains r s' where "with_lock env f s = Some (r, s')" "app_frame s s'" "app_ext s s'"
proof -
  define ths where "ths = set_error (self env) 0 (kthreads s)"
  define m where "m = (g_sh_lock s)\<lparr>mvalue := 0, owner := Some (self env),
      original_priority := current_priority (ths (self env)), hold := 1\<rparr>"
  define s1 where "s1 = s\<lparr>g_sh_lock := m, kthreads := ths\<rparr>"
  define s2 where "s2 = snd (f s1)"
  have init: "g_sh_lock s = \<lparr>mvalue = 1, original_priority = 0xFF, hold = 0, owner = None, mwaiters = [],
      mflag = RT_IPC_FLAG_PRIO\<rparr>"
    using assms(1) by (simp add: lock_free_def rt_mutex_init_def)
  have tk: "rt_mutex_take (self env) RT_WAITING_FOREVER (g_sh_lock s, kthreads s) = (Return 0, m, ths)"
    unfolding m_def ths_def init by (simp add: rt_mutex_take_def)
  have f: "app_frame s1 s2" "app_ext s1 s2"
    using assms(2) by (simp_all add: call_ok_def s2_def)
  have pr: "current_priority (kthreads s2 t) = current_priority (kthreads s t)" for t
    using f(1) by (simp add: app_frame_def s1_def ths_def)
  have "g_sh_lock s2 = m" using f(1) by (simp add: app_frame_def s1_def)
  then have rl: "rt_mutex_release (self env) (g_sh_lock s2, kthreads s2) = (0, g_sh_lock s, kthreads s2)"
    unfolding m_def ths_def init by (simp add: rt_mutex_release_def mutex_restore_def pr)
  have w: "with_lock env f s = Some (fst (f s1), s2\<lparr>g_sh_lock := g_sh_lock s, kthreads := kthreads s2\<rparr>)"
    using rl by (simp add: with_lock_def tk RT_EOK_def case_prod_beta Let_def flip: s1_def s2_def)
  have "app_frame s (s2\<lparr>g_sh_lock := g_sh_lock s, kthreads := kthreads s2\<rparr>)"
    using f(1) pr by (simp add: app_frame_def s1_def)
  moreover have "app_ext s (s2\<lparr>g_sh_lock := g_sh_lock s, kthreads := kthreads s2\<rparr>)"
    using f(2) by (simp add: app_ext_def s1_def)
  ultimately show ?thesis using w that by blast
qed

lemma call_ok_poll: "call_ok (rt_pef24628_poll env e)"
  by (simp add: call_ok_def poll_ext)

lemma call_ok_send: "call_ok (rt_pef24638_send_idc_msg env i src)"
  by (simp add: call_ok_def send_ext)

lemma app_frame_lock: "app_frame s s' \<Longrightarrow> lock_free s' = lock_free s"
  by (simp add: app_frame_def lock_free_def)

section \<open>When polling reports success, and what it can lose\<close>

text \<open>
  One turn of the loop, without what the caller waits for: nothing there, a message of less than three bytes,
  a message of the monitor (its last byte is \<open>0xA1\<close>), or a message with its number, which is passed on.  The
  buffer and the state after it go to the next turn.
\<close>

datatype polled = Idle | Short | Monitor | Message u16

definition poll_turn :: "'h senv \<Rightarrow> u8 list \<times> 'h shdsl \<Rightarrow> polled \<times> u8 list \<times> 'h shdsl" where
  "poll_turn env x =
     (let (buf, s) = x; (r, d1) = Pef24628e_Poll_Check (chip env) (pef s)
      in if \<not> r then (Idle, buf, s\<lparr>pef := d1\<rparr>)
         else let (nread, bs, d2) = pef24628_read (chip env) PEF24628E_MSG_SIZE d1;
                  nB = unat (ucast nread :: u16);
                  buf1 = buf_put 0 bs buf;
                  s1 = s\<lparr>pef := d2\<rparr>
              in if nB < 3 then (Short, buf1, s1)
                 else if buf1 ! (nB - 1) = 0xA1 then (Monitor, buf1, s1)
                 else let i = poll_msg_id (buf1 ! 0) (buf1 ! 1) in (Message i, buf1, poll_dispatch env i buf1 s1))"

definition after_turns :: "'h senv \<Rightarrow> nat \<Rightarrow> u8 list \<times> 'h shdsl \<Rightarrow> u8 list \<times> 'h shdsl" where
  "after_turns env k = (\<lambda>x. snd (poll_turn env x)) ^^ k"

lemma after_turns_simps [simp]:
  "after_turns env 0 x = x" "after_turns env (Suc k) x = after_turns env k (snd (poll_turn env x))"
  by (simp_all add: after_turns_def funpow_Suc_right del: funpow.simps(2))

lemma poll_loop_turn:
  assumes "e \<noteq> 0"
  shows "poll_loop env e (Suc n) buf s =
    (case poll_turn env (buf, s) of
       (Message i, buf1, s1) \<Rightarrow> if i = e OR 0x200 then (True, s1) else poll_loop env e n buf1 s1
     | (Monitor, buf1, s1) \<Rightarrow> poll_loop env e n buf1 s1
     | (_, _, s1) \<Rightarrow> (False, s1))"
proof -
  obtain r d1 where pc: "Pef24628e_Poll_Check (chip env) (pef s) = (r, d1)" by fastforce
  obtain k bs d2 where rd: "pef24628_read (chip env) PEF24628E_MSG_SIZE d1 = (k, bs, d2)" by (metis prod_cases3)
  show ?thesis
    unfolding poll_loop.simps poll_turn_def pc rd Let_def prod.case using assms by simp
qed

text \<open>
  So waiting for an acknowledge succeeds exactly when some turn takes the message with its number, and every turn before
  took a message of the monitor or one with another number.
\<close>

lemma ex_first_Suc:
  "(\<exists>k < Suc n. (\<forall>j < k. P j) \<and> Q k) \<longleftrightarrow> Q 0 \<or> P 0 \<and> (\<exists>k < n. (\<forall>j < k. P (Suc j)) \<and> Q (Suc k))"
  (is "?l \<longleftrightarrow> ?r")
proof
  assume ?l
  then obtain k where k: "k < Suc n" "\<forall>j < k. P j" "Q k" by blast
  show ?r
  proof (cases k)
    case (Suc m)
    then show ?thesis using k by (intro disjI2 conjI exI[of _ m]) auto
  qed (use k in simp)
next
  assume ?r
  then consider "Q 0" | k where "P 0" "k < n" "\<forall>j < k. P (Suc j)" "Q (Suc k)" by blast
  then show ?l
  proof cases
    case (2 k)
    then have "\<forall>j < Suc k. P j" by (simp add: All_less_Suc2)
    then show ?thesis using 2 by blast
  qed auto
qed

lemma poll_loop_ack:
  assumes "e \<noteq> 0"
  shows "poll_loop env e n buf s = (True, s') \<longleftrightarrow>
    (\<exists>k < n. (\<forall>j < k. fst (poll_turn env (after_turns env j (buf, s))) = Monitor \<or>
         (\<exists>m. fst (poll_turn env (after_turns env j (buf, s))) = Message m \<and> m \<noteq> e OR 0x200)) \<and>
       fst (poll_turn env (after_turns env k (buf, s))) = Message (e OR 0x200) \<and>
       s' = snd (snd (poll_turn env (after_turns env k (buf, s)))))"
proof (induction n arbitrary: buf s)
  case (Suc n)
  obtain p buf1 s1 where t: "poll_turn env (buf, s) = (p, buf1, s1)" by (metis prod_cases3)
  show ?case
    unfolding ex_first_Suc poll_loop_turn[OF assms] t after_turns_simps fst_conv snd_conv prod.case
    by (cases p) (auto simp: Suc.IH)
qed simp

text \<open>
  A message that meets a full mailbox is dropped, but the block it was copied to stays
  allocated.
\<close>

lemma full_mailbox_leak:
  assumes "mb_wf 32 (g_mb s)" and "entry (g_mb s) = 32" and "g_init_finished s" and "alloc env (mallocs s)"
  shows "g_mb (poll_post env fill s) = g_mb s" "live (poll_post env fill s) = live s + 1"
  using mb_send_cases [OF assms(1), of "self env" _ "kthreads s"] assms(2-4)
  by (simp_all add: poll_post_def Let_def case_prod_beta)

end
