(* ===== verification/Shdsl_Init.thy ===== *)
theory Shdsl_Init
  imports Shdsl
begin

text \<open>
  Bringing the modem up: \<open>rt_shdsl_register\<close>, \<open>rt_shdsl_init\<close> (interface, device, firmware,
  waiting for the firmware), and the two configuration sequences \<open>rt_CO_init\<close> (with
  \<open>rt_CO_ATM_init\<close>) and \<open>rt_CPE_init\<close>.

  A configuration sequence is the list of its messages, sent one after the other whether or
  not the ones before were acknowledged; \<open>None\<close> stands for a call that blocks on the lock.
\<close>

section \<open>Sequences of messages\<close>

fun send_all :: "'h senv \<Rightarrow> (u16 \<times> u8 list) list \<Rightarrow> 'h shdsl \<Rightarrow> (bool \<times> 'h shdsl) option" where
  "send_all env [] s = Some (True, s)"
| "send_all env (m # ms) s =
     (case rt_shdsl_send_idc_msg env (fst m) (snd m) s of
        None \<Rightarrow> None
      | Some (ok, s1) \<Rightarrow>
          (case send_all env ms s1 of None \<Rightarrow> None | Some (oks, s2) \<Rightarrow> Some (ok \<and> oks, s2)))"

text \<open>The remote side keeps no local flag: it clears \<open>g_configed\<close> at every failure.\<close>

fun cpe_send_all :: "'h senv \<Rightarrow> (u16 \<times> u8 list) list \<Rightarrow> 'h shdsl \<Rightarrow> 'h shdsl option" where
  "cpe_send_all env [] s = Some s"
| "cpe_send_all env (m # ms) s =
     (case rt_shdsl_send_idc_msg env (fst m) (snd m) s of
        None \<Rightarrow> None
      | Some (ok, s1) \<Rightarrow> cpe_send_all env ms (if ok then s1 else s1\<lparr>g_configed := 0\<rparr>))"

definition co_head :: "'h shdsl \<Rightarrow> (u16 \<times> u8 list) list" where
  "co_head s =
     [(CMD_STATUSPINSCONFIG, CMD_StatusPinsConfig STU_C_UNIT),
      (CMD_XMII_MODIFY, CMD_xMII_Modify 0 1 1),
      (CMD_TC_FLOWMODIFY, CMD_TC_FlowModify (g_TCMode s)),
      (CMD_PMD_RESET, CMD_PMD_Reset 0)]"

definition atm_msgs :: "u32 \<Rightarrow> u32 \<Rightarrow> u32 \<times> u32 \<Rightarrow> (u16 \<times> u8 list) list" where
  "atm_msgs ch ports junk =
     [(CMD_ATM_TC_LINKMODIFY, CMD_ATM_TC_LinkModify ch ports junk),
      (CMD_SEGMENTATIONREASSEMBLYCONFIG, CMD_SegmentationReassemblyConfig ch),
      (CMD_SEGMENTATION_VCC_CONFIG, CMD_Segmentation_VCC_Config ch),
      (CMD_SEGMENTATIONCLASSFILTERCONFIG, CMD_SegmentationClassFilterConfig ch),
      (CMD_REASSEMBLYCLASSFILTERCONFIG, CMD_ReassemblyClassFilterConfig ch)]"

definition co_tail :: "'h shdsl \<Rightarrow> (u16 \<times> u8 list) list" where
  "co_tail s =
     [(CMD_PMD_CO_PORTSUBTYPESELECT, CMD_PMD_CO_PortSubTypeSelect 0),
      (CMD_PMD_SPANPROFILEGROUPCONFIG,
        CMD_PMD_SpanProfileGroupConfig 0 (g_maxbaserate s) (g_lineProbe s) (g_PAM_Constellation s)),
      (CMD_IOP_MODE, CMD_IOP_Mode 0),
      (CMD_PMD_SM_CONTROL, CMD_PMD_SM_Control 0 1),
      (CMD_PMD_ALARMCONTROL, CMD_PMD_AlarmControl 0),
      (CMD_EOC_STATUSREQUESTCONTROL, CMD_EOC_StatusRequestControl 0),
      (CMD_LINKCONTROL, CMD_LinkControl 0),
      (CMD_PMD_CONTROL, CMD_PMD_Control 0 1)]"

definition cpe_msgs :: "u32 \<times> u32 \<Rightarrow> u8 \<Rightarrow> 'h shdsl \<Rightarrow> (u16 \<times> u8 list) list" where
  "cpe_msgs junk c s =
     (let ch = ucast c
      in [(CMD_STATUSPINSCONFIG, CMD_StatusPinsConfig STU_R_UNIT),
          (CMD_XMII_MODIFY, CMD_xMII_Modify ch (g_speed s) (g_duplex s)),
          (CMD_TC_FLOWMODIFY, CMD_TC_FlowModify (g_TCMode s)),
          (CMD_PMD_RESET, CMD_PMD_Reset ch)] @
         (if g_TCMode s = 0 then atm_msgs ch 0x03020100 junk else []) @
         [(CMD_PMD_SPANPROFILEGROUPCONFIG,
            CMD_PMD_SpanProfileGroupConfig ch (g_maxbaserate s) (g_lineProbe s) (g_PAM_Constellation s)),
          (CMD_IOP_MODE, CMD_IOP_Mode ch),
          (CMD_PMD_SM_CONTROL, CMD_PMD_SM_Control ch 0),
          (CMD_EOC_CONTROL, CMD_EOC_Control ch),
          (CMD_LINKCONTROL, CMD_LinkControl ch),
          (CMD_PMD_CONTROL, CMD_PMD_Control ch 0),
          (CMD_PMD_STATUSGET, CMD_PMD_StatusGet ch),
          (CMD_PMD_PM_PARAMGET, CMD_PMD_PM_ParamGet ch 2)])"

lemma init_msgs_sendable:
  "m \<in> set (co_head s) \<union> set (atm_msgs ch ports junk) \<union> set (co_tail s) \<union> set (cpe_msgs junk c s) \<Longrightarrow>
     idc_sendable m"
  unfolding co_head_def atm_msgs_def co_tail_def cpe_msgs_def Let_def
  by (auto simp: idc_sendable_def idc_ids idc_bodies)

section \<open>The two sequences\<close>

definition line_reset :: "line_status" where
  "line_reset = \<lparr>linkStatus = NOT_READY, dateRate = 0, ls_snr_c = 0, ls_snr_n = 0\<rparr>"

definition rt_CO_ATM_init :: "'h senv \<Rightarrow> 'h shdsl \<Rightarrow> 'h shdsl option" where
  "rt_CO_ATM_init env s = map_option snd (send_all env (atm_msgs 0 0 (stack_junk env)) s)"

definition rt_CO_init :: "'h senv \<Rightarrow> 'h shdsl \<Rightarrow> 'h shdsl option" where
  "rt_CO_init env s =
     (let s0 = s\<lparr>g_configed := 0, g_init_finished := False\<rparr>
      in case send_all env (co_head s0) s0 of None \<Rightarrow> None
         | Some (ok1, s1) \<Rightarrow>
             (case if g_TCMode s1 = 0 then rt_CO_ATM_init env s1 else Some s1 of None \<Rightarrow> None
              | Some s2 \<Rightarrow>
                  (case send_all env (co_tail s2) s2 of None \<Rightarrow> None
                   | Some (ok3, s3) \<Rightarrow>
                       Some (s3\<lparr>g_lineStatus := line_reset, g_init_finished := True,
                                g_configed := (if ok1 \<and> ok3 then 1 else 0)\<rparr>))))"

definition rt_CPE_init :: "'h senv \<Rightarrow> u8 \<Rightarrow> 'h shdsl \<Rightarrow> 'h shdsl option" where
  "rt_CPE_init env ch s =
     (let s0 = s\<lparr>g_configed := 1, g_init_finished := False\<rparr>
      in case cpe_send_all env (cpe_msgs (stack_junk env) ch s0) s0 of None \<Rightarrow> None
         | Some s1 \<Rightarrow> Some (s1\<lparr>g_lineStatus := line_reset, g_init_finished := True\<rparr>))"

section \<open>Power-up\<close>

text \<open>The globals as they are after \<open>rt_shdsl_register\<close>.\<close>

definition config0 :: config where
  "config0 = \<lparr>dslService = 0, caplist_co = 0, caplist_rt = 0, dslWires = 0, dslStandard = 0, lineprobe = 0,
     cfg_extend = 0, cfg_extend_rate_fix_value = 0, minrate = 0, maxrate = 0, dslmode = 0\<rparr>"

definition rt_shdsl_register :: "'h \<Rightarrow> threads \<Rightarrow> 'h shdsl" where
  "rt_shdsl_register h ths =
     \<lparr>pef = dev_reset h, drv_open = False, g_rcmode = 1, g_TCMode = 1, g_maxbaserate = 0x0056EA00,
      g_lineProbe = 2, g_configed = 0, g_PAM_Constellation = 0, g_duplex = 1, g_speed = 1,
      g_init_finished = False,
      g_lineStatus = \<lparr>linkStatus = 0, dateRate = 0, ls_snr_c = 0, ls_snr_n = 0\<rparr>,
      evt_initializationcomplete = False, g_config = config0,
      g_mb = rt_mb_init (replicate 32 Null) 32 RT_IPC_FLAG_FIFO,
      g_sh_lock = rt_mutex_init RT_IPC_FLAG_PRIO, kthreads = ths,
      gmsg = \<lparr>msg_id = 0, linkno = 0, mstate = 0, datarate = 0, snr_c = 0, snr_n = 0\<rparr>,
      mallocs = 0, live = 0, phy_log = []\<rparr>"

definition drv_ctl ::
    "'h senv \<Rightarrow> (u32 \<Rightarrow> nat \<Rightarrow> u8 list) \<Rightarrow> u32 \<Rightarrow> u8 list option \<Rightarrow> nat \<Rightarrow> ioctl_args \<Rightarrow> 'h shdsl \<Rightarrow>
     (int \<times> 'h shdsl) option" where
  "drv_ctl env flash rxbuf mem cmd a s =
     (case pef24628_control (chip env) flash rxbuf mem (of_nat cmd) a (pef s) of None \<Rightarrow> None
      | Some (ret, _, d) \<Rightarrow> Some (ret, s\<lparr>pef := d\<rparr>))"

fun init_wait :: "'h senv \<Rightarrow> nat \<Rightarrow> 'h shdsl \<Rightarrow> (bool \<times> 'h shdsl) option" where
  "init_wait env 0 s = Some (False, s)"
| "init_wait env (Suc n) s =
     (case rt_shdsl_poll env 0 s of None \<Rightarrow> None
      | Some (_, s1) \<Rightarrow> if evt_initializationcomplete s1 then Some (True, s1) else init_wait env n s1)"

definition DSL_FW_LEN :: u32 where "DSL_FW_LEN = 196620"
definition IDC_FW_LEN :: u32 where "IDC_FW_LEN = 180308"

text \<open>
  \<open>found\<close> and \<open>opened\<close> are the results of \<open>rt_device_find\<close> and \<open>rt_device_open\<close>.  The interrupt
  number is that of the static array \<open>irq\<close>, 0.
\<close>

definition rt_shdsl_init ::
    "'h senv \<Rightarrow> (u32 \<Rightarrow> nat \<Rightarrow> u8 list) \<Rightarrow> u32 \<Rightarrow> u8 list option \<Rightarrow> bool \<Rightarrow> bool \<Rightarrow> 'h shdsl \<Rightarrow>
     (int \<times> 'h shdsl) option" where
  "rt_shdsl_init env flash rxbuf mem found opened s =
     (if \<not> (found \<and> opened) then Some (RT_ERROR, s)
      else let a = \<lparr>a_if = PEF24628E_IF_MPI, a_addr = 0, a_value = 0, a_core = PEF24628E_DSL,
                    a_size = DSL_FW_LEN,
                    a_cfg = \<lparr>irq_vector_init = 0, reg_offset = 0x60000000, sci_clock = 4\<rparr>\<rparr>;
               s0 = s\<lparr>drv_open := True\<rparr>
           in case drv_ctl env flash rxbuf mem FIO_SET_IF a s0 of None \<Rightarrow> None
              | Some (r1, s1) \<Rightarrow> if r1 \<noteq> 0 then Some (RT_ERROR, s1)
              else (case drv_ctl env flash rxbuf mem FIO_DEV_INIT a s1 of None \<Rightarrow> None
              | Some (r2, s2) \<Rightarrow> if r2 \<noteq> 0 then Some (RT_ERROR, s2)
              else (case drv_ctl env flash rxbuf mem FIO_DOWNLOAD_FW a s2 of None \<Rightarrow> None
              | Some (r3, s3) \<Rightarrow> if r3 \<noteq> 0 then Some (RT_ERROR, s3)
              else (case drv_ctl env flash rxbuf mem FIO_DOWNLOAD_FW
                          (a\<lparr>a_core := PEF24628E_IDC, a_size := IDC_FW_LEN\<rparr>) s3 of None \<Rightarrow> None
              | Some (r4, s4) \<Rightarrow> if r4 \<noteq> 0 then Some (RT_ERROR, s4)
              else (case init_wait env 50 s4 of None \<Rightarrow> None
              | Some (ok, s5) \<Rightarrow> Some (if ok then RT_EOK else RT_ERROR, s5))))))"

section \<open>The sequences with the lock free\<close>

lemma send_free:
  assumes "lock_free s"
  obtains ok s' where "rt_shdsl_send_idc_msg env i src s = Some (ok, s')" "app_frame s s'" "app_ext s s'"
  using with_lock_free [OF assms call_ok_send, of env env i src] that
  unfolding rt_shdsl_send_idc_msg_def by blast

lemma poll_free:
  assumes "lock_free s"
  obtains ok s' where "rt_shdsl_poll env e s = Some (ok, s')" "app_frame s s'" "app_ext s s'"
  using with_lock_free [OF assms call_ok_poll, of env env e] that
  unfolding rt_shdsl_poll_def by blast

lemma send_all_free:
  assumes "lock_free s"
  obtains ok s' where "send_all env ms s = Some (ok, s')" "app_frame s s'" "app_ext s s'"
proof -
  have "\<exists>ok s'. send_all env ms s = Some (ok, s') \<and> app_frame s s' \<and> app_ext s s'"
    using assms
  proof (induction ms arbitrary: s)
    case (Cons m ms)
    obtain ok s1 where s1: "rt_shdsl_send_idc_msg env (fst m) (snd m) s = Some (ok, s1)"
        "app_frame s s1" "app_ext s s1"
      using send_free [OF Cons.prems] by metis
    then have "lock_free s1" using Cons.prems app_frame_lock by blast
    from Cons.IH [OF this] obtain oks s2 where
      "send_all env ms s1 = Some (oks, s2)" "app_frame s1 s2" "app_ext s1 s2" by blast
    then show ?case using s1 app_frame_trans [of s s1 s2] app_ext_trans [of s s1 s2] by auto
  qed auto
  then show ?thesis using that by blast
qed

text \<open>\<open>g_configed\<close> plays no part in sending, so the two ways to keep book agree.\<close>

definition cfgd :: "u32 \<Rightarrow> 'h shdsl \<Rightarrow> 'h shdsl" where
  "cfgd c s = s\<lparr>g_configed := c\<rparr>"

lemma cfgd_sel [simp]:
  "pef (cfgd c s) = pef s" "drv_open (cfgd c s) = drv_open s" "g_mb (cfgd c s) = g_mb s"
  "kthreads (cfgd c s) = kthreads s" "g_sh_lock (cfgd c s) = g_sh_lock s" "live (cfgd c s) = live s"
  "mallocs (cfgd c s) = mallocs s" "g_init_finished (cfgd c s) = g_init_finished s"
  "g_configed (cfgd c s) = c" "cfgd c (cfgd c' s) = cfgd c s"
  by (simp_all add: cfgd_def)

lemma cfgd_upd [simp]:
  "(cfgd c s)\<lparr>pef := d\<rparr> = cfgd c (s\<lparr>pef := d\<rparr>)"
  "(cfgd c s)\<lparr>g_sh_lock := m\<rparr> = cfgd c (s\<lparr>g_sh_lock := m\<rparr>)"
  "(cfgd c s)\<lparr>kthreads := ths\<rparr> = cfgd c (s\<lparr>kthreads := ths\<rparr>)"
  "(cfgd c s)\<lparr>mallocs := n\<rparr> = cfgd c (s\<lparr>mallocs := n\<rparr>)"
  "(cfgd c s)\<lparr>live := n\<rparr> = cfgd c (s\<lparr>live := n\<rparr>)"
  "(cfgd c s)\<lparr>g_mb := mb\<rparr> = cfgd c (s\<lparr>g_mb := mb\<rparr>)"
  "(cfgd c s)\<lparr>evt_initializationcomplete := e\<rparr> = cfgd c (s\<lparr>evt_initializationcomplete := e\<rparr>)"
  by (simp_all add: cfgd_def)

lemma poll_post_cfgd: "poll_post env fill (cfgd c s) = cfgd c (poll_post env fill s)"
  by (simp add: poll_post_def Let_def split: prod.split)

lemma poll_dispatch_cfgd: "poll_dispatch env i buf (cfgd c s) = cfgd c (poll_dispatch env i buf s)"
  by (simp add: poll_dispatch_def poll_post_cfgd)

lemma poll_loop_cfgd: "poll_loop env e n buf (cfgd c s) = apsnd (cfgd c) (poll_loop env e n buf s)"
proof (induction n arbitrary: buf s)
  case (Suc n)
  obtain r d1 where "Pef24628e_Poll_Check (chip env) (pef s) = (r, d1)" by fastforce
  moreover obtain nr bs d2 where "pef24628_read (chip env) 132 d1 = (nr, bs, d2)"
    by (metis prod_cases3)
  ultimately show ?case using Suc.IH by (simp add: Let_def poll_dispatch_cfgd)
qed simp

lemma send_cfgd:
  "rt_shdsl_send_idc_msg env i src (cfgd c s) = map_option (apsnd (cfgd c)) (rt_shdsl_send_idc_msg env i src s)"
proof -
  have "rt_pef24638_send_idc_msg env i src (cfgd c t) = apsnd (cfgd c) (rt_pef24638_send_idc_msg env i src t)" for t
    by (simp add: rt_pef24638_send_idc_msg_def rt_pef24628_poll_def Let_def case_prod_beta poll_loop_cfgd)
  then show ?thesis
    by (simp add: rt_shdsl_send_idc_msg_def with_lock_def Let_def case_prod_beta split: outcome.split)
qed

lemma cpe_send_all_spec:
  "cpe_send_all env ms (cfgd c s) =
     map_option (\<lambda>(ok, s'). if ok then cfgd c s' else cfgd 0 s') (send_all env ms s)"
proof (induction ms arbitrary: c s)
  case (Cons m ms)
  have 0: "t\<lparr>g_configed := 0\<rparr> = cfgd 0 t" for t :: "'a shdsl" by (simp add: cfgd_def)
  show ?case
    by (cases "rt_shdsl_send_idc_msg env (fst m) (snd m) s")
       (auto simp: send_cfgd 0 Cons.IH split: option.split)
qed simp

text \<open>The parts of the state a sequence changes besides the mailbox and the driver.\<close>

definition app_settings :: "'h shdsl \<Rightarrow> u8 \<times> u8 \<times> u32 \<times> u32 \<times> u32 \<times> config \<times> bool" where
  "app_settings s = (g_rcmode s, g_TCMode s, g_maxbaserate s, g_lineProbe s, g_PAM_Constellation s, g_config s,
     drv_open s)"

lemma app_frame_settings: "app_frame s s' \<Longrightarrow> app_settings s' = app_settings s"
  by (simp add: app_frame_def app_settings_def)

text \<open>
  With the lock free either sequence runs to its end: the lock is free again, the settings
  are as before, the line status is cleared, and \<open>g_configed\<close> is set.
\<close>

definition seq_done :: "'h shdsl \<Rightarrow> 'h shdsl \<Rightarrow> bool" where
  "seq_done s s' \<longleftrightarrow> lock_free s' \<and> app_settings s' = app_settings s \<and> g_lineStatus s' = line_reset \<and>
     g_init_finished s' \<and> g_configed s' \<in> {0, 1} \<and> gmsg s' = gmsg s \<and> phy_log s' = phy_log s"

lemma app_ext_cong:
  "pef t = pef s \<Longrightarrow> g_mb t = g_mb s \<Longrightarrow> live t = live s \<Longrightarrow>
   pef t' = pef s' \<Longrightarrow> g_mb t' = g_mb s' \<Longrightarrow> live t' = live s' \<Longrightarrow> app_ext s s' \<Longrightarrow> app_ext t t'"
  by (simp add: app_ext_def)

lemma CO_init_done:
  assumes "lock_free s"
  obtains s' where "rt_CO_init env s = Some s'" "seq_done s s'" "app_ext s s'"
proof -
  define s0 where "s0 = s\<lparr>g_configed := 0, g_init_finished := False\<rparr>"
  have l0: "lock_free s0" using assms by (simp add: lock_free_def s0_def)
  obtain ok1 s1 where 1: "send_all env (co_head s0) s0 = Some (ok1, s1)" "app_frame s0 s1" "app_ext s0 s1"
    using send_all_free [OF l0] by metis
  have l1: "lock_free s1" using l0 1(2) app_frame_lock by blast
  obtain okx sx where x: "send_all env (atm_msgs 0 0 (stack_junk env)) s1 = Some (okx, sx)"
      "app_frame s1 sx" "app_ext s1 sx"
    using send_all_free [OF l1] by metis
  define s2 where "s2 = (if g_TCMode s1 = 0 then sx else s1)"
  have 2: "(if g_TCMode s1 = 0 then rt_CO_ATM_init env s1 else Some s1) = Some s2"
      "app_frame s1 s2" "app_ext s1 s2"
    using x by (auto simp: s2_def rt_CO_ATM_init_def)
  have l2: "lock_free s2" using l1 2(2) app_frame_lock by blast
  obtain ok3 s3 where 3: "send_all env (co_tail s2) s2 = Some (ok3, s3)" "app_frame s2 s3" "app_ext s2 s3"
    using send_all_free [OF l2] by metis
  define s' where "s' = s3\<lparr>g_lineStatus := line_reset, g_init_finished := True,
      g_configed := (if ok1 \<and> ok3 then 1 else 0)\<rparr>"
  have fr: "app_frame s0 s3" "app_ext s0 s3"
    by (rule app_frame_trans [OF app_frame_trans [OF 1(2) 2(2)] 3(2)])
      (rule app_ext_trans [OF app_ext_trans [OF 1(3) 2(3)] 3(3)])
  have "rt_CO_init env s = Some s'"
    unfolding rt_CO_init_def Let_def s0_def [symmetric] s'_def using 1(1) 2(1) 3(1) by simp
  moreover have "seq_done s s'"
    using fr(1) assms by (auto simp: seq_done_def s'_def s0_def app_frame_def app_settings_def lock_free_def)
  moreover have "app_ext s s'"
    by (rule app_ext_cong [OF _ _ _ _ _ _ fr(2)]) (simp_all add: s0_def s'_def)
  ultimately show ?thesis using that by blast
qed

lemma CPE_init_cases:
  assumes "lock_free s"
  obtains ok s1 s' where
    "send_all env (cpe_msgs (stack_junk env) ch s) (s\<lparr>g_configed := 1, g_init_finished := False\<rparr>) = Some (ok, s1)"
    "rt_CPE_init env ch s = Some s'" "g_configed s' = (if ok then 1 else 0)" "seq_done s s'" "app_ext s s'"
proof -
  define s0 where "s0 = s\<lparr>g_configed := 1, g_init_finished := False\<rparr>"
  have l0: "lock_free s0" using assms by (simp add: lock_free_def s0_def)
  have m: "cpe_msgs (stack_junk env) ch s0 = cpe_msgs (stack_junk env) ch s"
    by (simp add: cpe_msgs_def s0_def)
  obtain ok s1 where 1: "send_all env (cpe_msgs (stack_junk env) ch s) s0 = Some (ok, s1)"
      "app_frame s0 s1" "app_ext s0 s1"
    using send_all_free [OF l0] by metis
  have "s0 = cfgd 1 s0" by (simp add: cfgd_def s0_def)
  then have c: "cpe_send_all env (cpe_msgs (stack_junk env) ch s) s0 = Some (if ok then cfgd 1 s1 else cfgd 0 s1)"
    using cpe_send_all_spec [of env "cpe_msgs (stack_junk env) ch s" 1 s0] 1(1) by simp
  define s' where "s' = (cfgd (if ok then 1 else 0) s1)\<lparr>g_lineStatus := line_reset, g_init_finished := True\<rparr>"
  have "rt_CPE_init env ch s = Some s'"
    unfolding rt_CPE_init_def Let_def s0_def [symmetric] m c s'_def by (cases ok) simp_all
  moreover have "seq_done s s'"
    using 1(2) assms by (cases ok) (auto simp: seq_done_def s'_def s0_def app_frame_def app_settings_def lock_free_def cfgd_def)
  moreover have "app_ext s s'"
    by (rule app_ext_cong [OF _ _ _ _ _ _ 1(3)]) (simp_all add: s0_def s'_def cfgd_def)
  moreover have "g_configed s' = (if ok then 1 else 0)" by (simp add: s'_def cfgd_def)
  ultimately show ?thesis using that 1(1) unfolding s0_def by blast
qed

lemma CPE_init_done:
  assumes "lock_free s"
  obtains s' where "rt_CPE_init env ch s = Some s'" "seq_done s s'" "app_ext s s'"
  using CPE_init_cases [OF assms, of env ch] by metis

section \<open>Power-up returns\<close>

lemma init_wait_free:
  assumes "lock_free s"
  obtains ok s' where "init_wait env n s = Some (ok, s')" "app_frame s s'" "app_ext s s'"
    "ok \<longrightarrow> evt_initializationcomplete s'"
proof -
  have "\<exists>ok s'. init_wait env n s = Some (ok, s') \<and> app_frame s s' \<and> app_ext s s' \<and>
      (ok \<longrightarrow> evt_initializationcomplete s')"
    using assms
  proof (induction n arbitrary: s)
    case (Suc n)
    obtain ok s1 where s1: "rt_shdsl_poll env 0 s = Some (ok, s1)" "app_frame s s1" "app_ext s s1"
      using poll_free [OF Suc.prems] by metis
    then have "lock_free s1" using Suc.prems app_frame_lock by blast
    from Suc.IH [OF this] obtain oks s2 where
      "init_wait env n s1 = Some (oks, s2)" "app_frame s1 s2" "app_ext s1 s2"
      "oks \<longrightarrow> evt_initializationcomplete s2" by blast
    then show ?case using s1 app_frame_trans [of s s1 s2] app_ext_trans [of s s1 s2] by auto
  qed auto
  then show ?thesis using that by blast
qed

lemma drv_download_returns:
  assumes "\<And>a n. length (flash a n) = n" and "unat n \<le> 2 ^ 31"
    and "boot_size (idc_read_info (idc_fw_read flash) n) \<le> n"
  shows "\<exists>r d'. drv_download b flash rxbuf core n d = Some (r, d') \<and> (dev_wf d \<longrightarrow> dev_wf d')"
proof -
  have dsl: "step_ok (Pef24628e_DSL_Download b (dsl_fw_read flash))"
    by (rule step_ok_DSL) (simp add: dsl_fw_read_def assms(1))
  have idc: "step_ok (Pef24628e_IDC_Download b (idc_fw_read flash) rxbuf n)"
    by (rule step_ok_IDC) (use assms in \<open>simp_all add: idc_fw_read_def\<close>)
  show ?thesis
    using step_okD [OF dsl, of d] step_okD [OF idc, of d]
    by (cases core) (auto simp: drv_download_def case_prod_beta intro: IDC_Start_wf)
qed

lemma ctl_simps:
  "drv_ctl env flash rxbuf mem FIO_SET_IF a s = Some (RT_EOK, s\<lparr>pef := snd (Pef24628e_Set_If (a_if a) (pef s))\<rparr>)"
  "drv_ctl env flash rxbuf mem FIO_DEV_INIT a s =
     (let r = drv_dev_init (chip env) (a_cfg a) mem (pef s) in Some (fst r, s\<lparr>pef := snd r\<rparr>))"
  "drv_ctl env flash rxbuf mem FIO_DOWNLOAD_FW a s =
     map_option (\<lambda>(r, d). (r, s\<lparr>pef := d\<rparr>)) (drv_download (chip env) flash rxbuf (a_core a) (a_size a) (pef s))"
  by (auto simp: drv_ctl_def pef24628_control_def fio_defs Let_def case_prod_beta split: option.split)

text \<open>
  Power-up returns, with the lock free, the mailbox well formed and, where it got as far as
  the device, the driver well formed; success means that the firmware has reported.
\<close>

lemma rt_shdsl_init_returns:
  fixes env :: "'h senv" and h :: 'h
  assumes flash: "\<And>a n. length (flash a n) = n"
    and boot: "boot_size (idc_read_info (idc_fw_read flash) IDC_FW_LEN) \<le> IDC_FW_LEN"
    and buf: "length buf = 132" and s: "s = rt_shdsl_register h ths"
  obtains r s' d where "rt_shdsl_init env flash rxbuf (Some buf) True True s = Some (r, s')"
    "app_frame (s\<lparr>drv_open := True\<rparr>) s'" "app_ext (s\<lparr>pef := d\<rparr>) s'" "dev_wf d"
    "r = RT_EOK \<longrightarrow> evt_initializationcomplete s'"
proof -
  define d1 where "d1 = snd (Pef24628e_Set_If PEF24628E_IF_MPI (dev_reset h))"
  define c where "c = \<lparr>irq_vector_init = 0, reg_offset = 0x60000000, sci_clock = 4\<rparr>"
  define a where "a = \<lparr>a_if = PEF24628E_IF_MPI, a_addr = 0, a_value = 0, a_core = PEF24628E_DSL,
      a_size = DSL_FW_LEN, a_cfg = c\<rparr>"
  define d2 where "d2 = snd (drv_dev_init (chip env) c (Some buf) d1)"
  define t where "t d = s\<lparr>drv_open := True, pef := d\<rparr>" for d
  have shape: "dev_shape d1" "\<not> bInit d1" "ActiveIf d1 = PEF24628E_IF_MPI"
    using dev_reset_shape(1) [of h]
    by (simp_all add: d1_def Pef24628e_Set_If_def dev_shape_def dev_reset_def)
  have i: "drv_dev_init (chip env) c (Some buf) d1 = (RT_EOK, d2)" "dev_wf d2"
    using drv_dev_init_wf [OF shape(1,2) buf _ shape(3), of c "chip env"]
    by (simp_all add: d2_def c_def prod_eq_iff)
  have frame: "app_frame (s\<lparr>drv_open := True\<rparr>) (t d)" for d
    by (simp add: t_def app_frame_def)
  have free: "lock_free (t d)" for d
    by (simp add: t_def s lock_free_def rt_shdsl_register_def)
  have pef [simp]: "pef (t d) = d" "(t d)\<lparr>pef := d'\<rparr> = t d'" for d d'
    by (simp_all add: t_def)
  have c1: "drv_ctl env flash rxbuf (Some buf) FIO_SET_IF a (s\<lparr>drv_open := True\<rparr>) = Some (RT_EOK, t d1)"
    by (simp add: ctl_simps a_def t_def d1_def s rt_shdsl_register_def)
  have c2: "drv_ctl env flash rxbuf (Some buf) FIO_DEV_INIT a (t d1) = Some (RT_EOK, t d2)"
    by (simp add: ctl_simps a_def i(1))
  have "unat DSL_FW_LEN \<le> 2 ^ 31" "unat IDC_FW_LEN \<le> 2 ^ 31" by (simp_all add: DSL_FW_LEN_def IDC_FW_LEN_def)
  note sz = this
  have dsl_ok: "step_ok (Pef24628e_DSL_Download (chip env) (dsl_fw_read flash))"
    by (rule step_ok_DSL) (simp add: dsl_fw_read_def flash)
  from step_okD [OF this, of d2] obtain r3 d3 where
    c3: "drv_ctl env flash rxbuf (Some buf) FIO_DOWNLOAD_FW a (t d2) = Some (r3, t d3)" and d3: "dev_wf d3"
    using i(2) by (auto simp: ctl_simps a_def drv_download_def case_prod_beta)
  have "\<exists>r d'. drv_download (chip env) flash rxbuf PEF24628E_IDC IDC_FW_LEN d3 = Some (r, d') \<and> dev_wf d'"
    using drv_download_returns [OF flash sz(2) boot, of "chip env" rxbuf PEF24628E_IDC d3] d3 by blast
  then obtain r4 d4 where d4: "dev_wf d4"
    and c4: "drv_ctl env flash rxbuf (Some buf) FIO_DOWNLOAD_FW
      (a\<lparr>a_core := PEF24628E_IDC, a_size := IDC_FW_LEN\<rparr>) (t d3) = Some (r4, t d4)"
    by (auto simp: ctl_simps a_def)
  obtain ok s5 where w: "init_wait env 50 (t d4) = Some (ok, s5)" "app_frame (t d4) s5" "app_ext (t d4) s5"
      "ok \<longrightarrow> evt_initializationcomplete s5"
    using init_wait_free [OF free [of d4], of env 50] by metis
  have ext: "app_ext (s\<lparr>pef := d\<rparr>) (t d)" for d
    by (rule app_ext_cong [OF _ _ _ _ _ _ app_ext_refl [of "t d"]]) (simp_all add: t_def)
  have w5: "app_frame (s\<lparr>drv_open := True\<rparr>) s5" "app_ext (s\<lparr>pef := d4\<rparr>) s5"
    using app_frame_trans [OF frame w(2)] app_ext_trans [OF ext w(3)] by auto
  have code: "rt_shdsl_init env flash rxbuf (Some buf) True True s =
      (if r3 \<noteq> 0 then Some (RT_ERROR, t d3) else if r4 \<noteq> 0 then Some (RT_ERROR, t d4)
       else Some (if ok then RT_EOK else RT_ERROR, s5))"
    using c1 c2 c3 c4 w(1) by (simp add: rt_shdsl_init_def Let_def a_def c_def RT_EOK_def)
  have "RT_ERROR \<noteq> RT_EOK" by (simp add: RT_ERROR_def RT_EOK_def)
  then show ?thesis
    using that [OF _ frame ext d3, of r3] that [OF _ frame ext d3, of RT_ERROR]
      that [OF _ frame ext d4, of RT_ERROR] that [OF _ w5 d4, of "if ok then RT_EOK else RT_ERROR"] w(4) code
    by (cases "r3 \<noteq> 0"; cases "r4 \<noteq> 0"; cases ok) simp_all
qed

end
