(* ===== verification/Shdsl_App.thy ===== *)
theory Shdsl_App
  imports Shdsl_Init
begin

text \<open>
  The modem application above the message layer: the commands and settings of the shell,
  applying a changed configuration (\<open>rt_shdsl_apply_config\<close>, \<open>initconfig\<close>), the handling of
  messages (\<open>rt_msgdispatch\<close>) and the loops of the polling and the state machine thread.

  A step is a call with the lock free, run to its end; what happens when threads contend
  for the lock is the subject of \<open>Kern_Mutex\<close>.
\<close>

section \<open>Commands and settings\<close>

definition snr_unit :: "'h shdsl \<Rightarrow> u32" where
  "snr_unit s = (if g_rcmode s \<noteq> 0 then STU_R_UNIT else STU_C_UNIT)"

definition rt_checkSNR :: "'h senv \<Rightarrow> 'h shdsl \<Rightarrow> 'h shdsl option" where
  "rt_checkSNR env s =
     map_option snd (rt_shdsl_send_idc_msg env CMD_PMD_PM_PARAMGET (CMD_PMD_PM_ParamGet 0 (snr_unit s)) s)"

definition rt_set_loopback :: "'h senv \<Rightarrow> u32 \<Rightarrow> 'h shdsl \<Rightarrow> 'h shdsl option" where
  "rt_set_loopback env mode s =
     map_option snd (rt_shdsl_send_idc_msg env CMD_SYSTEMINTERFACELOOPCONTROL
       (CMD_SystemInterfaceLoopControl 0 mode) s)"

definition rt_shdsl_cmd :: "'h senv \<Rightarrow> u32 \<Rightarrow> 'h shdsl \<Rightarrow> 'h shdsl option" where
  "rt_shdsl_cmd env cmd s =
     (if cmd = 1
      then map_option snd (rt_shdsl_send_idc_msg env CMD_PMD_STATUSGET (CMD_PMD_StatusGet 0) s)
      else if cmd = 2
      then map_option snd (rt_shdsl_send_idc_msg env CMD_PMD_PM_PARAMGET (CMD_PMD_PM_ParamGet 0 (snr_unit s)) s)
      else if cmd = 3
      then (if g_rcmode s = 0 then rt_CO_init env s else rt_CPE_init env 0 s)
      else Some s)"

definition rt_set_baserate :: "u32 \<Rightarrow> 'h shdsl \<Rightarrow> 'h shdsl" where
  "rt_set_baserate rate s = s\<lparr>g_maxbaserate := rate\<rparr>"

definition rt_set_lp :: "u32 \<Rightarrow> 'h shdsl \<Rightarrow> 'h shdsl" where
  "rt_set_lp v s = s\<lparr>g_lineProbe := v\<rparr>"

definition rt_set_pam :: "u32 \<Rightarrow> 'h shdsl \<Rightarrow> 'h shdsl" where
  "rt_set_pam v s = s\<lparr>g_PAM_Constellation := v\<rparr>"

definition rt_set_mii :: "u32 \<Rightarrow> u32 \<Rightarrow> 'h shdsl \<Rightarrow> 'h shdsl" where
  "rt_set_mii duplex speed s = s\<lparr>g_duplex := duplex, g_speed := speed\<rparr>"

section \<open>Configuration\<close>

definition initconfig :: "'h shdsl \<Rightarrow> 'h shdsl" where
  "initconfig s =
     s\<lparr>g_config := \<lparr>dslService = (if g_rcmode s = 0 then 2 else 1), caplist_co = 0, caplist_rt = 0,
        dslWires = 3, dslStandard = 7, lineprobe = g_lineProbe s - 1, cfg_extend = 0,
        cfg_extend_rate_fix_value = 0, minrate = 12, maxrate = g_maxbaserate s div (64 * 1000),
        dslmode = 13\<rparr>\<rparr>"

definition rt_shdsl_apply_config :: "'h senv \<Rightarrow> 'h shdsl \<Rightarrow> 'h shdsl option" where
  "rt_shdsl_apply_config env s =
     (let rate = maxrate (g_config s) * 64 * 1000;
          f1 = (g_maxbaserate s \<noteq> rate);
          s1 = (if f1 then s\<lparr>g_maxbaserate := rate\<rparr> else s);
          f2 = (g_lineProbe s1 \<noteq> lineprobe (g_config s1) + 1);
          s2 = (if f2 then s1\<lparr>g_lineProbe := lineprobe (g_config s1) + 1\<rparr> else s1);
          f3 = (g_rcmode s2 = 0 \<and> dslService (g_config s2) = 1 \<or>
                g_rcmode s2 = 1 \<and> dslService (g_config s2) = 2);
          s3 = (if f3 then s2\<lparr>g_rcmode := 1 - g_rcmode s2\<rparr> else s2)
      in if f1 \<or> f2 \<or> f3 then rt_shdsl_cmd env 3 s3 else Some s3)"

section \<open>Messages\<close>

definition rt_sendmb :: "'h senv \<Rightarrow> u32 \<Rightarrow> 'h shdsl \<Rightarrow> 'h shdsl" where
  "rt_sendmb env i s =
     (let s1 = s\<lparr>gmsg := (gmsg s)\<lparr>msg_id := i\<rparr>\<rparr>;
          (_, mb, ths) = rt_mb_send (self env) Gmsg (g_mb s1, kthreads s1)
      in s1\<lparr>g_mb := mb, kthreads := ths\<rparr>)"

definition ETH_WritePHYRegister :: "u16 \<Rightarrow> u16 \<Rightarrow> u16 \<Rightarrow> 'h shdsl \<Rightarrow> 'h shdsl" where
  "ETH_WritePHYRegister a r v s = s\<lparr>phy_log := phy_log s @ [(a, r, v)]\<rparr>"

definition eoc_linkstate :: "'h senv \<Rightarrow> u8 \<Rightarrow> 'h shdsl \<Rightarrow> 'h shdsl option" where
  "eoc_linkstate env st s =
     (let s1 = s\<lparr>g_lineStatus := (g_lineStatus s)\<lparr>linkStatus := uint st\<rparr>\<rparr>
      in if st = READY
         then (case rt_shdsl_send_idc_msg env CMD_PMD_STATUSGET (CMD_PMD_StatusGet 0) s1 of None \<Rightarrow> None
               | Some (_, s2) \<Rightarrow> Some (ETH_WritePHYRegister 6 22 0x873f s2))
         else Some (ETH_WritePHYRegister 6 22 0x073f
                (s1\<lparr>g_lineStatus := (g_lineStatus s1)\<lparr>dateRate := 0, ls_snr_c := 0, ls_snr_n := 0\<rparr>\<rparr>)))"

definition rt_msgdispatch :: "'h senv \<Rightarrow> rt_msg \<Rightarrow> 'h shdsl \<Rightarrow> 'h shdsl option" where
  "rt_msgdispatch env p s =
     (if msg_id p = 100 then rt_shdsl_apply_config env s
      else if msg_id p = ucast EVT_PMD_LINKSTATE
      then (if mstate p = DOWN_NOT_READY \<and> g_rcmode s = 0 then rt_CO_init env s else Some s)
      else if msg_id p = ucast ACK_PMD_STATUSGET
      then Some (if datarate p \<noteq> 0 \<and> datarate p < 6000
                 then s\<lparr>g_lineStatus := (g_lineStatus s)\<lparr>dateRate := uint (datarate p)\<rparr>\<rparr> else s)
      else if msg_id p = ucast ACK_PMD_PM_PARAMGET
      then Some (s\<lparr>g_lineStatus := (g_lineStatus s)\<lparr>ls_snr_c := snr_c p, ls_snr_n := snr_n p\<rparr>\<rparr>)
      else if msg_id p = ucast EVT_EOC_LINKSTATE then eoc_linkstate env (mstate p) s
      else Some s)"

definition deref :: "'h shdsl \<Rightarrow> msg_ptr \<Rightarrow> rt_msg option" where
  "deref s p = (case p of Null \<Rightarrow> None | Gmsg \<Rightarrow> Some (gmsg s) | Heap m \<Rightarrow> Some m)"

text \<open>
  The state machine thread handles a message and frees it unless its number is 100.  A
  null address, which \<open>rt_msgdispatch\<close> ignores and the loop then reads, gives \<open>None\<close>.
\<close>

definition rt_free_msg :: "rt_msg \<Rightarrow> 'h shdsl \<Rightarrow> 'h shdsl" where
  "rt_free_msg m s = (if msg_id m \<noteq> 100 then s\<lparr>live := live s - 1\<rparr> else s)"

definition shs_handle :: "'h senv \<Rightarrow> outcome \<times> msg_ptr option \<times> msg_ptr mbstate \<Rightarrow> 'h shdsl \<Rightarrow> 'h shdsl option" where
  "shs_handle env r s =
     (let s1 = s\<lparr>g_mb := fst (snd (snd r)), kthreads := snd (snd (snd r))\<rparr>
      in case fst (snd r) of None \<Rightarrow> Some s1
         | Some p \<Rightarrow>
             (case deref s1 p of None \<Rightarrow> None
              | Some m \<Rightarrow> map_option (rt_free_msg m) (rt_msgdispatch env m s1)))"

definition shs_turn :: "'h senv \<Rightarrow> 'h shdsl \<Rightarrow> 'h shdsl option" where
  "shs_turn env s = shs_handle env (rt_mb_recv (self env) RT_WAITING_FOREVER (g_mb s, kthreads s)) s"

definition shs_wake :: "'h senv \<Rightarrow> 'h shdsl \<Rightarrow> 'h shdsl option" where
  "shs_wake env s = shs_handle env (mb_recv_wake (self env) RT_WAITING_FOREVER (g_mb s, kthreads s)) s"

definition shs_start :: "'h senv \<Rightarrow> u8 \<Rightarrow> 'h shdsl \<Rightarrow> 'h shdsl option" where
  "shs_start env button s =
     (let s1 = initconfig (s\<lparr>g_rcmode := button AND 0x01\<rparr>)
      in if g_rcmode s1 \<noteq> 0 then rt_CPE_init env 0 s1 else rt_CO_init env s1)"

definition shp_start :: "'h senv \<Rightarrow> 'h shdsl \<Rightarrow> 'h shdsl option" where
  "shp_start env s = map_option snd (rt_shdsl_send_idc_msg env CMD_INVENTORYREQUEST [] s)"

definition shp_turn :: "'h senv \<Rightarrow> 'h shdsl \<Rightarrow> 'h shdsl option" where
  "shp_turn env s = map_option snd (rt_shdsl_poll env 0 s)"

section \<open>The invariant\<close>

text \<open>
  The driver is well formed, the lock is free between steps, the mailbox is a well-formed
  ring of 32; every address in it is of the static message, whose number then is 100, or
  of a block whose message has one of the four posted numbers; there are at least as many live
  blocks as addresses of blocks in the mailbox; the line rate is below 6000.
\<close>

fun is_heap :: "msg_ptr \<Rightarrow> bool" where
  "is_heap (Heap _) = True"
| "is_heap _ = False"

definition heap_count :: "'h shdsl \<Rightarrow> nat" where
  "heap_count s = length (filter is_heap (mb_contents (g_mb s)))"

fun ptr_ok :: "rt_msg \<Rightarrow> msg_ptr \<Rightarrow> bool" where
  "ptr_ok g Null = False"
| "ptr_ok g Gmsg = (msg_id g = 100)"
| "ptr_ok g (Heap m) = (msg_id m \<in> posted_ids)"

definition rate_ok :: "line_status \<Rightarrow> bool" where
  "rate_ok l \<longleftrightarrow> 0 \<le> dateRate l \<and> dateRate l < 6000"

definition app_inv :: "'h shdsl \<Rightarrow> bool" where
  "app_inv s \<longleftrightarrow> dev_wf (pef s) \<and> lock_free s \<and> mb_wf 32 (g_mb s) \<and> rate_ok (g_lineStatus s) \<and>
     g_rcmode s \<in> {0, 1} \<and> heap_count s \<le> live s \<and> (\<forall>p \<in> set (mb_contents (g_mb s)). ptr_ok (gmsg s) p)"

text \<open>What a step does that leaves the handling of the mailbox to others.\<close>

definition app_op :: "'h shdsl \<Rightarrow> 'h shdsl \<Rightarrow> bool" where
  "app_op s s' \<longleftrightarrow> app_ext s s' \<and> lock_free s' \<and> gmsg s' = gmsg s \<and>
     (g_rcmode s \<in> {0, 1} \<longrightarrow> g_rcmode s' \<in> {0, 1}) \<and> (rate_ok (g_lineStatus s) \<longrightarrow> rate_ok (g_lineStatus s'))"

lemma app_extD:
  assumes "app_ext s s'" and "mb_wf 32 (g_mb s)"
  obtains ps where "mb_contents (g_mb s') = mb_contents (g_mb s) @ map Heap ps"
    "msg_id ` set ps \<subseteq> posted_ids" "live s + length ps \<le> live s'" "mb_wf 32 (g_mb s')"
    "heap_count s' = heap_count s + length ps"
proof -
  from assms obtain ps where p: "mb_contents (g_mb s') = mb_contents (g_mb s) @ map Heap ps"
      "msg_id ` set ps \<subseteq> posted_ids" "live s + length ps \<le> live s'" "mb_wf 32 (g_mb s')"
    by (auto simp: app_ext_def)
  moreover have "filter is_heap (map Heap ps) = map Heap ps"
    by (induction ps) simp_all
  then have "heap_count s' = heap_count s + length ps"
    using p(1) by (simp add: heap_count_def)
  ultimately show ?thesis using that by blast
qed

lemma app_op_inv: "app_op s s' \<Longrightarrow> app_inv s \<Longrightarrow> app_inv s'"
proof -
  assume op: "app_op s s'" and inv: "app_inv s"
  then have e: "app_ext s s'" and m: "mb_wf 32 (g_mb s)" by (simp_all add: app_op_def app_inv_def)
  from app_extD [OF this] obtain ps where "mb_contents (g_mb s') = mb_contents (g_mb s) @ map Heap ps"
    "msg_id ` set ps \<subseteq> posted_ids" "live s + length ps \<le> live s'" "mb_wf 32 (g_mb s')"
    "heap_count s' = heap_count s + length ps" .
  then show ?thesis
    using op inv e by (auto simp: app_op_def app_inv_def app_ext_def)
qed

lemma app_op_refl [simp]: "app_op s s = lock_free s"
  by (simp add: app_op_def)

lemma app_op_frame: "lock_free s \<Longrightarrow> app_frame s s' \<Longrightarrow> app_ext s s' \<Longrightarrow> app_op s s'"
  by (simp add: app_op_def app_frame_def lock_free_def)

lemma app_op_trans: "app_op s s' \<Longrightarrow> app_op s' s'' \<Longrightarrow> app_op s s''"
  using app_ext_trans by (auto simp: app_op_def)

lemma app_op_seq: "seq_done s s' \<Longrightarrow> app_ext s s' \<Longrightarrow> app_op s s'"
  by (auto simp: app_op_def seq_done_def app_settings_def rate_ok_def line_reset_def)

text \<open>
  A change of settings: it touches neither driver, mailbox, heap nor lock.
\<close>

lemma app_op_set:
  assumes "lock_free s" and "pef s' = pef s" and "g_mb s' = g_mb s" and "live s' = live s"
    and "g_sh_lock s' = g_sh_lock s" and "gmsg s' = gmsg s"
    and "g_rcmode s \<in> {0, 1} \<Longrightarrow> g_rcmode s' \<in> {0, 1}"
    and "rate_ok (g_lineStatus s) \<Longrightarrow> rate_ok (g_lineStatus s')"
  shows "app_op s s'"
proof -
  have "app_ext s s'" by (rule app_ext_cong [OF _ _ _ _ _ _ app_ext_refl [of s]]) (simp_all add: assms)
  then show ?thesis using assms by (simp add: app_op_def lock_free_def)
qed

section \<open>Every call returns and keeps the invariant\<close>

text \<open>\<open>runs f\<close>: with the lock free the call returns.\<close>

definition runs :: "('h shdsl \<Rightarrow> 'h shdsl option) \<Rightarrow> bool" where
  "runs f \<longleftrightarrow> (\<forall>s. lock_free s \<longrightarrow> (\<exists>s'. f s = Some s' \<and> app_op s s'))"

lemma runsD: "runs f \<Longrightarrow> lock_free s \<Longrightarrow> \<exists>s'. f s = Some s' \<and> app_op s s'"
  by (simp add: runs_def)

lemma runs_send: "runs (\<lambda>s. map_option snd (rt_shdsl_send_idc_msg env i (src s) s))"
  unfolding runs_def
proof (intro allI impI)
  fix s :: "'a shdsl" assume "lock_free s"
  then show "\<exists>s'. map_option snd (rt_shdsl_send_idc_msg env i (src s) s) = Some s' \<and> app_op s s'"
    using send_free [of s env i "src s"] app_op_frame by (metis option.simps(9) snd_conv)
qed

lemma runs_poll: "runs (shp_turn env)"
  unfolding runs_def shp_turn_def
proof (intro allI impI)
  fix s :: "'a shdsl" assume "lock_free s"
  then show "\<exists>s'. map_option snd (rt_shdsl_poll env 0 s) = Some s' \<and> app_op s s'"
    using poll_free [of s env 0] app_op_frame by (metis option.simps(9) snd_conv)
qed

lemma runs_CO: "runs (rt_CO_init env)"
  unfolding runs_def by (metis CO_init_done app_op_seq)

lemma runs_CPE: "runs (rt_CPE_init env ch)"
  unfolding runs_def by (metis CPE_init_done app_op_seq)

lemma runs_Some: "(\<And>s. lock_free s \<Longrightarrow> app_op s (f s)) \<Longrightarrow> runs (\<lambda>s. Some (f s))"
  by (simp add: runs_def)

lemma runs_if: "runs f \<Longrightarrow> runs g \<Longrightarrow> runs (\<lambda>s. if P s then f s else g s)"
  by (simp add: runs_def)

lemma runs_after:
  assumes "runs f" and "\<And>s. lock_free s \<Longrightarrow> app_op s (g s)"
  shows "runs (\<lambda>s. f (g s))"
  unfolding runs_def
proof (intro allI impI)
  fix s :: "'a shdsl" assume "lock_free s"
  then have g: "app_op s (g s)" by (rule assms(2))
  then have "lock_free (g s)" by (simp add: app_op_def)
  from runsD [OF assms(1) this] obtain s' where "f (g s) = Some s'" "app_op (g s) s'" by blast
  then show "\<exists>s'. f (g s) = Some s' \<and> app_op s s'" using app_op_trans [OF g] by blast
qed

lemma runs_cmd: "runs (rt_shdsl_cmd env c)"
proof -
  have "runs (\<lambda>s. if c = 1 then map_option snd (rt_shdsl_send_idc_msg env CMD_PMD_STATUSGET (CMD_PMD_StatusGet 0) s)
      else if c = 2
      then map_option snd (rt_shdsl_send_idc_msg env CMD_PMD_PM_PARAMGET (CMD_PMD_PM_ParamGet 0 (snr_unit s)) s)
      else if c = 3 then (if g_rcmode s = 0 then rt_CO_init env s else rt_CPE_init env 0 s) else Some s)"
    by (intro runs_if runs_CO runs_CPE runs_Some runs_send
        runs_send [of env _ "\<lambda>s. CMD_PMD_PM_ParamGet 0 (snr_unit s)"]) simp_all
  then show ?thesis by (simp add: rt_shdsl_cmd_def [abs_def])
qed

subsection \<open>Applying a configuration\<close>

text \<open>The same in one go: what the settings should be, and whether they already are.\<close>

definition config_flips :: "'h shdsl \<Rightarrow> bool" where
  "config_flips s \<longleftrightarrow> g_rcmode s = 0 \<and> dslService (g_config s) = 1 \<or>
     g_rcmode s = 1 \<and> dslService (g_config s) = 2"

definition config_set :: "'h shdsl \<Rightarrow> 'h shdsl" where
  "config_set s = s\<lparr>g_maxbaserate := maxrate (g_config s) * 64 * 1000,
     g_lineProbe := lineprobe (g_config s) + 1,
     g_rcmode := (if config_flips s then 1 - g_rcmode s else g_rcmode s)\<rparr>"

definition config_applied :: "'h shdsl \<Rightarrow> bool" where
  "config_applied s \<longleftrightarrow> g_maxbaserate s = maxrate (g_config s) * 64 * 1000 \<and>
     g_lineProbe s = lineprobe (g_config s) + 1 \<and> \<not> config_flips s"

lemma apply_config_alt:
  "rt_shdsl_apply_config env s = (if config_applied s then Some s else rt_shdsl_cmd env 3 (config_set s))"
proof -
  define f1 where "f1 \<longleftrightarrow> g_maxbaserate s \<noteq> maxrate (g_config s) * 64 * 1000"
  define f2 where "f2 \<longleftrightarrow> g_lineProbe s \<noteq> lineprobe (g_config s) + 1"
  have "rt_shdsl_apply_config env s =
      (if f1 \<or> f2 \<or> config_flips s then rt_shdsl_cmd env 3 (config_set s) else Some s)"
    by (cases s; cases f1; cases f2; cases "g_rcmode s = 0"; cases "g_rcmode s = 1")
      (auto simp: rt_shdsl_apply_config_def Let_def f1_def f2_def config_flips_def config_set_def)
  then show ?thesis by (simp add: config_applied_def f1_def f2_def)
qed

lemma config_set_op: "lock_free s \<Longrightarrow> app_op s (config_set s)"
  by (rule app_op_set) (auto simp: config_set_def)

lemma config_set_applied: "config_applied (config_set s)"
  by (auto simp: config_applied_def config_set_def config_flips_def)

lemma config_applied_cong: "app_settings s' = app_settings s \<Longrightarrow> config_applied s' = config_applied s"
  by (simp add: app_settings_def config_applied_def config_flips_def)

lemma runs_apply: "runs (rt_shdsl_apply_config env)"
proof -
  have "runs (\<lambda>s. if config_applied s then Some s else rt_shdsl_cmd env 3 (config_set s))"
    by (intro runs_if runs_Some runs_after [OF runs_cmd] config_set_op) simp_all
  then show ?thesis by (simp add: apply_config_alt [abs_def])
qed

text \<open>Whatever the configuration, applying it leaves it applied; applying it again does nothing.\<close>

lemma cmd3_settings:
  assumes "lock_free s"
  obtains s' where "rt_shdsl_cmd env 3 s = Some s'" "seq_done s s'" "app_ext s s'"
proof (cases "g_rcmode s = 0")
  case True
  with CO_init_done [OF assms, of env] that show ?thesis by (auto simp: rt_shdsl_cmd_def)
next
  case False
  with CPE_init_done [OF assms, of env 0] that show ?thesis by (auto simp: rt_shdsl_cmd_def)
qed

lemma apply_config_applied:
  assumes "lock_free s"
  obtains s' where "rt_shdsl_apply_config env s = Some s'" "lock_free s'" "config_applied s'"
    "g_config s' = g_config s"
proof (cases "config_applied s")
  case True
  then show ?thesis using that [of s] assms by (simp add: apply_config_alt)
next
  case False
  have "lock_free (config_set s)" using assms by (simp add: config_set_def lock_free_def)
  from cmd3_settings [OF this, of env] obtain s' where
    s': "rt_shdsl_cmd env 3 (config_set s) = Some s'" "seq_done (config_set s) s'" by metis
  then have "app_settings s' = app_settings (config_set s)" "lock_free s'"
    by (simp_all add: seq_done_def)
  moreover from this(1) have "config_applied s'"
    using config_applied_cong config_set_applied by blast
  moreover have "g_config s' = g_config s"
    using calculation(1) by (simp add: app_settings_def config_set_def)
  ultimately show ?thesis using that [of s'] False s'(1) by (simp add: apply_config_alt)
qed

text \<open>
  The configuration that \<open>initconfig\<close> derives from the settings is applied exactly when the
  rate is a multiple of 64000.
\<close>

lemma initconfig_applied: "config_applied (initconfig s) \<longleftrightarrow> unat (g_maxbaserate s) mod 64000 = 0"
proof -
  let ?r = "g_maxbaserate s"
  have lt: "unat ?r div 64000 * 64000 \<le> unat ?r" by simp
  have b: "unat ?r < 2 ^ 32" using unsigned_less [of ?r, where ?'a = nat] by simp
  have "unat (?r div 64000 * 64 * 1000) = unat ?r div 64000 * 64000"
  proof -
    have "?r div 64000 * 64 * 1000 = of_nat (unat ?r div 64000 * 64000)"
      by (simp add: word_arith_nat_div flip: mult.assoc)
    moreover have "unat ?r div 64000 * 64000 < 2 ^ 32" using lt b by linarith
    ultimately show ?thesis by (simp only: unsigned_of_nat) (simp add: take_bit_nat_eq_self)
  qed
  then have "?r = ?r div 64000 * 64 * 1000 \<longleftrightarrow> unat ?r = unat ?r div 64000 * 64000"
    by (metis word_unat_eq_iff)
  also have "\<dots> \<longleftrightarrow> unat ?r mod 64000 = 0"
    using div_mult_mod_eq [of "unat ?r" 64000] by linarith
  finally show ?thesis
    by (auto simp: config_applied_def config_flips_def initconfig_def)
qed

subsection \<open>Messages\<close>

lemma runs_eoc: "runs (eoc_linkstate env st)"
  unfolding runs_def
proof (intro allI impI)
  fix s :: "'a shdsl" assume free: "lock_free s"
  define s1 where "s1 = s\<lparr>g_lineStatus := (g_lineStatus s)\<lparr>linkStatus := uint st\<rparr>\<rparr>"
  have s1: "app_op s s1"
    by (rule app_op_set) (use free in \<open>auto simp: s1_def rate_ok_def\<close>)
  then have free1: "lock_free s1" by (simp add: app_op_def)
  show "\<exists>s'. eoc_linkstate env st s = Some s' \<and> app_op s s'"
  proof (cases "st = READY")
    case True
    obtain ok s2 where s2: "rt_shdsl_send_idc_msg env CMD_PMD_STATUSGET (CMD_PMD_StatusGet 0) s1 = Some (ok, s2)"
        "app_frame s1 s2" "app_ext s1 s2"
      using send_free [OF free1] by metis
    have op: "app_op s1 s2" using app_op_frame [OF free1 s2(2,3)] .
    then have "app_op s2 (ETH_WritePHYRegister 6 22 0x873f s2)"
      by (intro app_op_set) (auto simp: app_op_def ETH_WritePHYRegister_def)
    then have "app_op s (ETH_WritePHYRegister 6 22 0x873f s2)"
      using s1 op app_op_trans by blast
    then show ?thesis unfolding eoc_linkstate_def Let_def s1_def [symmetric] using True s2(1) by simp
  next
    case False
    have "app_op s (ETH_WritePHYRegister 6 22 0x073f
        (s1\<lparr>g_lineStatus := (g_lineStatus s1)\<lparr>dateRate := 0, ls_snr_c := 0, ls_snr_n := 0\<rparr>\<rparr>))"
      by (rule app_op_set) (use free in \<open>auto simp: s1_def ETH_WritePHYRegister_def rate_ok_def\<close>)
    then show ?thesis using False by (simp add: eoc_linkstate_def Let_def flip: s1_def)
  qed
qed

lemma runs_dispatch: "runs (rt_msgdispatch env p)"
proof -
  have 1: "runs (\<lambda>s. if mstate p = DOWN_NOT_READY \<and> g_rcmode s = 0 then rt_CO_init env s else Some s)"
    by (intro runs_if runs_CO runs_Some) simp
  have 2: "runs (\<lambda>s. Some (if datarate p \<noteq> 0 \<and> datarate p < 6000
      then s\<lparr>g_lineStatus := (g_lineStatus s)\<lparr>dateRate := uint (datarate p)\<rparr>\<rparr> else s))"
    by (rule runs_Some) (auto intro!: app_op_set simp: rate_ok_def word_less_alt)
  have 3: "runs (\<lambda>s. Some (s\<lparr>g_lineStatus := (g_lineStatus s)\<lparr>ls_snr_c := snr_c p, ls_snr_n := snr_n p\<rparr>\<rparr>))"
    by (rule runs_Some) (auto intro!: app_op_set simp: rate_ok_def)
  have "runs (\<lambda>s. if msg_id p = 100 then rt_shdsl_apply_config env s
      else if msg_id p = ucast EVT_PMD_LINKSTATE
      then (if mstate p = DOWN_NOT_READY \<and> g_rcmode s = 0 then rt_CO_init env s else Some s)
      else if msg_id p = ucast ACK_PMD_STATUSGET
      then Some (if datarate p \<noteq> 0 \<and> datarate p < 6000
                 then s\<lparr>g_lineStatus := (g_lineStatus s)\<lparr>dateRate := uint (datarate p)\<rparr>\<rparr> else s)
      else if msg_id p = ucast ACK_PMD_PM_PARAMGET
      then Some (s\<lparr>g_lineStatus := (g_lineStatus s)\<lparr>ls_snr_c := snr_c p, ls_snr_n := snr_n p\<rparr>\<rparr>)
      else if msg_id p = ucast EVT_EOC_LINKSTATE then eoc_linkstate env (mstate p) s
      else Some s)"
    by (rule runs_if runs_apply 1 2 3 runs_eoc runs_Some | simp)+
  then show ?thesis by (simp add: rt_msgdispatch_def [abs_def])
qed

text \<open>What a receive hands to the loop: nothing, or the oldest address.\<close>

definition recv_ok :: "msg_ptr mailbox \<Rightarrow> outcome \<times> msg_ptr option \<times> msg_ptr mbstate \<Rightarrow> bool" where
  "recv_ok mb r \<longleftrightarrow> mb_wf 32 (fst (snd (snd r))) \<and>
     mb_contents mb = (case fst (snd r) of None \<Rightarrow> [] | Some p \<Rightarrow> [p]) @ mb_contents (fst (snd (snd r)))"

lemma recv_loop_ok: "mb_wf 32 mb \<Longrightarrow> recv_ok mb (mb_recv_loop t time (mb, ths))"
  using mb_get_queue [of 32 "(mb, ths)"]
  by (cases "entry mb = 0") (auto simp: recv_ok_def mb_recv_loop_def Let_def case_prod_beta)

lemma recv_ok: "mb_wf 32 mb \<Longrightarrow> recv_ok mb (rt_mb_recv t time (mb, ths))"
  using recv_loop_ok [of mb t time ths] by (auto simp: rt_mb_recv_def recv_ok_def)

lemma recv_wake_ok: "mb_wf 32 mb \<Longrightarrow> recv_ok mb (mb_recv_wake t time (mb, ths))"
  using recv_loop_ok [of mb t time ths] by (auto simp: mb_recv_wake_def recv_ok_def)

lemma shs_handle_inv:
  assumes inv: "app_inv s" and r: "recv_ok (g_mb s) r"
  obtains s' where "shs_handle env r s = Some s'" "app_inv s'"
proof -
  define s1 where "s1 = s\<lparr>g_mb := fst (snd (snd r)), kthreads := snd (snd (snd r))\<rparr>"
  have free: "lock_free s1" using inv by (simp add: app_inv_def lock_free_def s1_def)
  show ?thesis
  proof (cases "fst (snd r)")
    case None
    then have "app_inv s1"
      using inv r by (simp add: app_inv_def lock_free_def s1_def heap_count_def recv_ok_def)
    then show ?thesis using that None by (simp add: shs_handle_def Let_def flip: s1_def)
  next
    case (Some p)
    then have c: "mb_contents (g_mb s) = p # mb_contents (g_mb s1)" "mb_wf 32 (g_mb s1)"
      using r by (simp_all add: recv_ok_def s1_def)
    have p: "ptr_ok (gmsg s) p" using inv c by (simp add: app_inv_def)
    have hc: "heap_count s = heap_count s1 + (if is_heap p then 1 else 0)"
      using c by (simp add: heap_count_def)
    obtain m where m: "deref s1 p = Some m" "msg_id m = 100 \<longleftrightarrow> \<not> is_heap p"
      using p by (cases p) (auto simp: deref_def s1_def posted_ids_def)
    obtain s2 where s2: "rt_msgdispatch env m s1 = Some s2" "app_op s1 s2"
      using runsD [OF runs_dispatch free] by blast
    from app_extD [of s1 s2] s2(2) c(2) obtain ps where ps:
        "mb_contents (g_mb s2) = mb_contents (g_mb s1) @ map Heap ps" "msg_id ` set ps \<subseteq> posted_ids"
        "live s1 + length ps \<le> live s2" "mb_wf 32 (g_mb s2)" "heap_count s2 = heap_count s1 + length ps"
      unfolding app_op_def by metis
    have "live s1 = live s" "gmsg s2 = gmsg s" "pef s1 = pef s" "g_lineStatus s1 = g_lineStatus s" "g_rcmode s1 = g_rcmode s"
      using s2(2) by (simp_all add: s1_def app_op_def)
    then have "app_inv (rt_free_msg m s2)"
      using inv s2(2) ps hc m(2) c
      by (auto simp: app_inv_def rt_free_msg_def lock_free_def heap_count_def app_op_def app_ext_def)
    then show ?thesis
      using that Some m(1) s2(1) by (simp add: shs_handle_def Let_def flip: s1_def)
  qed
qed

lemma sendmb_inv:
  assumes "app_inv s"
  shows "app_inv (rt_sendmb env 100 s)"
proof -
  define s1 where "s1 = s\<lparr>gmsg := (gmsg s)\<lparr>msg_id := 100\<rparr>\<rparr>"
  have ok: "ptr_ok (gmsg s1) p" if "ptr_ok (gmsg s) p" for p
    using that by (cases p) (simp_all add: s1_def)
  then have inv: "app_inv s1"
    using assms by (auto simp: app_inv_def s1_def lock_free_def heap_count_def)
  then have m: "mb_wf 32 (g_mb s1)" by (simp add: app_inv_def)
  obtain mb ths where put: "mb_put Gmsg (g_mb s1, kthreads s1) = (mb, ths)" by fastforce
  have "g_mb s1 = g_mb s" "kthreads s1 = kthreads s" "msg_id (gmsg s1) = 100" by (simp_all add: s1_def)
  with mb_send_cases [OF m, of "self env" Gmsg "kthreads s1"] put inv show ?thesis
    by (auto simp: rt_sendmb_def Let_def app_inv_def lock_free_def heap_count_def simp flip: s1_def)
qed

subsection \<open>Threads\<close>

lemma and_one_word: "(b :: u8) AND 1 \<in> {0, 1}"
  by (simp add: and_one_eq mod_2_eq_odd)

lemma runs_shs_start: "runs (shs_start env btn)"
proof -
  have "app_op s (initconfig (s\<lparr>g_rcmode := btn AND 0x01\<rparr>))" if "lock_free s" for s :: "'a shdsl"
    by (rule app_op_set) (use that and_one_word [of btn] in \<open>simp_all add: initconfig_def\<close>)
  then have "runs (\<lambda>s. (\<lambda>t. if g_rcmode t \<noteq> 0 then rt_CPE_init env 0 t else rt_CO_init env t)
      (initconfig (s\<lparr>g_rcmode := btn AND 0x01\<rparr>)))"
    by (intro runs_after [OF runs_if] runs_CPE runs_CO)
  then show ?thesis by (simp add: shs_start_def [abs_def] Let_def)
qed

text \<open>
  The running application: power-up, with whatever result, then in any order the steps of the two threads, of the
  shell and the web pages, and interrupts of the chip.  The environment of each step is its
  own; all share the bus.
\<close>

inductive app_reach :: "'h bus \<Rightarrow> 'h shdsl \<Rightarrow> bool" for b :: "'h bus" where
  boot: "\<forall>a n. length (flash a n) = n \<Longrightarrow>
     boot_size (idc_read_info (idc_fw_read flash) IDC_FW_LEN) \<le> IDC_FW_LEN \<Longrightarrow> length buf = 132 \<Longrightarrow>
     chip env = b \<Longrightarrow>
     rt_shdsl_init env flash rxbuf (Some buf) True True (rt_shdsl_register h ths) = Some (r, s) \<Longrightarrow>
     app_reach b s"
| start_shs: "app_reach b s \<Longrightarrow> chip env = b \<Longrightarrow> shs_start env btn s = Some s' \<Longrightarrow> app_reach b s'"
| turn_shs: "app_reach b s \<Longrightarrow> chip env = b \<Longrightarrow> shs_turn env s = Some s' \<Longrightarrow> app_reach b s'"
| wake_shs: "app_reach b s \<Longrightarrow> chip env = b \<Longrightarrow> shs_wake env s = Some s' \<Longrightarrow> app_reach b s'"
| start_shp: "app_reach b s \<Longrightarrow> chip env = b \<Longrightarrow> shp_start env s = Some s' \<Longrightarrow> app_reach b s'"
| turn_shp: "app_reach b s \<Longrightarrow> chip env = b \<Longrightarrow> shp_turn env s = Some s' \<Longrightarrow> app_reach b s'"
| command: "app_reach b s \<Longrightarrow> chip env = b \<Longrightarrow> rt_shdsl_cmd env c s = Some s' \<Longrightarrow> app_reach b s'"
| loopback: "app_reach b s \<Longrightarrow> chip env = b \<Longrightarrow> rt_set_loopback env m s = Some s' \<Longrightarrow> app_reach b s'"
| snr: "app_reach b s \<Longrightarrow> chip env = b \<Longrightarrow> rt_checkSNR env s = Some s' \<Longrightarrow> app_reach b s'"
| reinit: "app_reach b s \<Longrightarrow> app_reach b (rt_sendmb env 100 s)"
| baserate: "app_reach b s \<Longrightarrow> app_reach b (rt_set_baserate r s)"
| lp: "app_reach b s \<Longrightarrow> app_reach b (rt_set_lp v s)"
| pam: "app_reach b s \<Longrightarrow> app_reach b (rt_set_pam v s)"
| mii: "app_reach b s \<Longrightarrow> app_reach b (rt_set_mii x y s)"
| web_config: "app_reach b s \<Longrightarrow> app_reach b (s\<lparr>g_config := c\<rparr>)"
| interrupt: "app_reach b s \<Longrightarrow> app_reach b (s\<lparr>pef := Pef24628e_IntHandler b (pef s)\<rparr>)"

lemma boot_inv:
  assumes "\<forall>a n. length (flash a n) = n"
    and "boot_size (idc_read_info (idc_fw_read flash) IDC_FW_LEN) \<le> IDC_FW_LEN" and "length buf = 132"
    and "rt_shdsl_init env flash rxbuf (Some buf) True True (rt_shdsl_register h ths) = Some (r, s)"
  shows "app_inv s"
proof -
  let ?s = "rt_shdsl_register h ths"
  have len: "length (flash a n) = n" for a n using assms(1) by blast
  from rt_shdsl_init_returns [OF len assms(2,3) refl, of env rxbuf h ths] assms(4) obtain d where
    d: "app_frame (?s\<lparr>drv_open := True\<rparr>) s" "app_ext (?s\<lparr>pef := d\<rparr>) s" "dev_wf d"
    by auto
  have m: "mb_wf 32 (g_mb ?s)" "mb_contents (g_mb ?s) = []"
    by (simp_all add: rt_shdsl_register_def mb_init_wf)
  then have "mb_wf 32 (g_mb (?s\<lparr>pef := d\<rparr>))" by simp
  from app_extD [OF d(2) this] obtain ps where ps:
      "mb_contents (g_mb s) = mb_contents (g_mb (?s\<lparr>pef := d\<rparr>)) @ map Heap ps" "msg_id ` set ps \<subseteq> posted_ids"
      "live (?s\<lparr>pef := d\<rparr>) + length ps \<le> live s" "mb_wf 32 (g_mb s)"
      "heap_count s = heap_count (?s\<lparr>pef := d\<rparr>) + length ps" .
  have "heap_count (?s\<lparr>pef := d\<rparr>) = 0" using m by (simp add: heap_count_def)
  moreover have "lock_free s" "rate_ok (g_lineStatus s)" "g_rcmode s = 1"
    using d(1) by (simp_all add: app_frame_def lock_free_def rate_ok_def rt_shdsl_register_def)
  moreover have "dev_wf (pef s)" using d(2,3) by (simp add: app_ext_def)
  ultimately show ?thesis using ps m by (auto simp: app_inv_def)
qed

lemma runs_inv: "runs f \<Longrightarrow> app_inv s \<Longrightarrow> f s = Some s' \<Longrightarrow> app_inv s'"
  using runsD [of f s] app_op_inv by (auto simp: app_inv_def)

lemma set_inv:
  assumes "app_inv s" and "pef s' = pef s" and "g_mb s' = g_mb s" and "live s' = live s"
    and "g_sh_lock s' = g_sh_lock s" and "gmsg s' = gmsg s" and "g_rcmode s' = g_rcmode s"
    and "g_lineStatus s' = g_lineStatus s"
  shows "app_inv s'"
  using assms by (simp add: app_inv_def lock_free_def heap_count_def)

lemma app_reach_inv: "app_reach b s \<Longrightarrow> app_inv s"
proof (induction rule: app_reach.induct)
  case (boot flash buf env rxbuf h ths r s)
  then show ?case by (metis boot_inv)
next
  case (start_shs s env btn s')
  then show ?case by (metis runs_inv [OF runs_shs_start])
next
  case (turn_shs s env s')
  have "recv_ok (g_mb s) (rt_mb_recv (self env) RT_WAITING_FOREVER (g_mb s, kthreads s))"
    using turn_shs.IH by (auto simp: app_inv_def intro: recv_ok)
  from shs_handle_inv [OF turn_shs.IH this, of env] turn_shs.hyps show ?case by (auto simp: shs_turn_def)
next
  case (wake_shs s env s')
  have "recv_ok (g_mb s) (mb_recv_wake (self env) RT_WAITING_FOREVER (g_mb s, kthreads s))"
    using wake_shs.IH by (auto simp: app_inv_def intro: recv_wake_ok)
  from shs_handle_inv [OF wake_shs.IH this, of env] wake_shs.hyps show ?case by (auto simp: shs_wake_def)
next
  case (start_shp s env s')
  then show ?case
    using runs_inv [OF runs_send [of env CMD_INVENTORYREQUEST "\<lambda>_. []"]] by (simp add: shp_start_def)
next
  case (turn_shp s env s')
  then show ?case by (metis runs_inv [OF runs_poll])
next
  case (command s env c s')
  then show ?case by (metis runs_inv [OF runs_cmd])
next
  case (loopback s env m s')
  then show ?case
    using runs_inv [OF runs_send [of env CMD_SYSTEMINTERFACELOOPCONTROL "\<lambda>_. CMD_SystemInterfaceLoopControl 0 m"]]
    by (simp add: rt_set_loopback_def)
next
  case (snr s env s')
  then show ?case
    using runs_inv [OF runs_send [of env CMD_PMD_PM_PARAMGET "\<lambda>s. CMD_PMD_PM_ParamGet 0 (snr_unit s)"]]
    by (simp add: rt_checkSNR_def)
next
  case (reinit s env)
  then show ?case by (simp add: sendmb_inv)
next
  case (interrupt s)
  then show ?case by (simp add: app_inv_def lock_free_def heap_count_def IntHandler_wf)
qed (auto intro: set_inv simp: rt_set_baserate_def rt_set_lp_def rt_set_pam_def rt_set_mii_def)

text \<open>No step of the application blocks for ever or runs into the null address.\<close>

lemma shs_turn_returns: "app_inv s \<Longrightarrow> \<exists>s'. shs_turn env s = Some s' \<and> app_inv s'"
  by (metis app_inv_def recv_ok shs_handle_inv shs_turn_def)

end
