(* ===== verification/Sample.thy ===== *)
theory Sample
  imports Pef_Reach
begin

text \<open>
  Concrete chips and devices on which the witnesses of the properties are evaluated.
\<close>

section \<open>A sample chip for the witnesses\<close>

text \<open>
  A chip whose registers are memory: a read gives the byte last written there.  A read
  of the interrupt registers that were never written gives 0.
\<close>

definition ram_bus :: "(u32 \<Rightarrow> u8) bus" where
  "ram_bus = \<lparr>bus_rd = \<lambda>a m. (m a, m), bus_wr = \<lambda>a v m. m(a := v)\<rparr>"

definition chip0 :: "u32 \<Rightarrow> u8" where "chip0 = (\<lambda>_. 0)"

lemma rd_n_ram: "rd_n ram_bus a n m = (replicate n (m (mpi_addr a)), m)"
  by (induction n) (simp_all add: MPI_ReadReg_def ram_bus_def)

text \<open>A device on it as the initialisation leaves it, switched to the MPI mailbox.\<close>

definition dev_sample :: "'h \<Rightarrow> 'h dev" where
  "dev_sample h =
     (mpi_init_fifo (dev_reset h))
       \<lparr>ActiveIf := 1, bInit := True, TxBuf := replicate 132 0, uc_reg := Bank1_PEF_C,
        bFwDownloaded := True\<rparr>"

lemma dev_sample_sel [simp]:
  "bInit (dev_sample h)" "ActiveIf (dev_sample h) = 1" "\<not> bRxFifoFull (dev_sample h)"
  "\<not> bSendIdcViaSciBridge (dev_sample h)" "uc_reg (dev_sample h) = Bank1_PEF_C"
  "wrI (dev_sample h) = 0" "rdI (dev_sample h) = 0" "hw (dev_sample h) = h"
  "TxBuf (dev_sample h) = replicate 132 0" "bFwDownloaded (dev_sample h)" "uLastCmdId (dev_sample h) = 0"
  "uStatistics (dev_sample h) = 0" "uLastCmdTcId (dev_sample h) = 0" "irq_vector (dev_sample h) = 0"
  by (simp_all add: dev_sample_def mpi_init_fifo_def dev_reset_def)

lemma dev_sample_wf [simp]: "dev_wf (dev_sample h)"
  by (simp add: dev_sample_def mpi_init_fifo_def dev_reset_def dev_wf_def del: upt_Suc upt.simps)

lemma dev_sample_rx: "rx_inv (dev_sample h)" "rx_contents (dev_sample h) = []"
  by (simp_all add: rx_inv_def rx_contents_def pend_count_def)
     (simp add: dev_sample_def mpi_init_fifo_def dev_reset_def del: upt_Suc upt.simps)

text \<open>A chip that ignores every write and answers 0 to every read.\<close>

definition zero_bus :: "unit bus" where
  "zero_bus = \<lparr>bus_rd = \<lambda>a h. (0, h), bus_wr = \<lambda>a v h. h\<rparr>"

lemma unit_dev [simp]: "d\<lparr>hw := h\<rparr> = d" for d :: "unit dev"
  by (cases d) simp

lemma zero_bus_access [simp]:
  "REG_GET zero_bus r d = (0, d)" "REG_SET zero_bus r v d = d" "BFLD zero_bus r m w d = d"
  "REG_SET_list zero_bus r vs d = d"
  by (simp_all add: reg_access MPI_ReadReg_def zero_bus_def)

end
