(* ===== verification/Shdsl_Props.thy ===== *)
theory Shdsl_Props
  imports Shdsl_App Sample
begin

text \<open>
  The properties of the modem application, with witnesses on a sample state: the globals
  after registration, the sample device, and an environment in which memory never runs out.
\<close>

definition env0 :: "(u32 \<Rightarrow> u8) senv" where
  "env0 = \<lparr>chip = ram_bus, self = 1, alloc = \<lambda>_. True,
     blk = \<lambda>_. \<lparr>msg_id = 0, linkno = 0, mstate = 0, datarate = 0, snr_c = 0, snr_n = 0\<rparr>,
     stack_buf = replicate 132 0, stack_junk = (0, 0)\<rparr>"

definition app_sample :: "(u32 \<Rightarrow> u8) shdsl" where
  "app_sample = (rt_shdsl_register chip0 (idle_threads (\<lambda>_. 10)))\<lparr>pef := dev_sample chip0, drv_open := True\<rparr>"

lemma app_sample_sel [simp]:
  "lock_free app_sample" "g_sh_lock app_sample = rt_mutex_init RT_IPC_FLAG_PRIO" "mb_wf 32 (g_mb app_sample)"
  "entry (g_mb app_sample) = 0" "live app_sample = 0" "kthreads app_sample = idle_threads (\<lambda>_. 10)"
  "g_maxbaserate app_sample = 5696000" "g_rcmode app_sample = 1" "g_TCMode app_sample = 1"
  "g_lineStatus app_sample = \<lparr>linkStatus = 0, dateRate = 0, ls_snr_c = 0, ls_snr_n = 0\<rparr>"
  by (simp_all add: app_sample_def rt_shdsl_register_def lock_free_def mb_init_wf)
     (simp add: rt_mb_init_def)

section \<open>Messages\<close>

text \<open>
  The message header.  For every message number of 11 bits the driver and the
  application read back the number that was sent, the length field is the number of words, and
  the words of the body are read back from the message.
\<close>

theorem header_roundtrip:
  fixes m :: u16 and ws :: "u32 list"
  assumes "m < 2048" and "length ws \<le> 30"
  defines "msg \<equiv> idc_header m (of_nat (length (idc_words ws))) @ idc_words ws"
  shows "poll_msg_id (msg ! 0) (msg ! 1) = m \<and> idc_hdr_id (msg ! 0) (msg ! 1) = m \<and>
    unat (msg ! 0 AND 0x1F) = length ws \<and> map (buf_word msg) [0..<length ws] = ws"
proof -
  have "unat (of_nat (4 * length ws) :: u16) = 4 * length ws"
    using assms(2) by (simp only: unsigned_of_nat) (simp add: take_bit_nat_eq_self)
  then have "unat ((of_nat (4 * length ws) :: u16) div 4) mod 32 = length ws"
    using assms(2) by (simp add: unat_div_distrib)
  moreover have "map (buf_word msg) [0..<length ws] = ws"
    by (rule nth_equalityI) (simp_all add: msg_def buf_word_message)
  ultimately show ?thesis
    using header_id [OF assms(1), of "of_nat (4 * length ws)"] by (simp add: msg_def nth_append)
qed

lemma header_roundtrip_witness:
  "poll_msg_id (idc_header 0x161 12 ! 0) (idc_header 0x161 12 ! 1) = 0x161"
  using header_roundtrip [of "0x161" "[0, 1, 3]"] by (simp add: nth_append)

text \<open>
  C22: when the send call reports success for a command.  Exactly then: the body fits and consists of whole words, the
  driver is open and takes the whole message, and one of the at most 99 turns of polling that follow takes the message whose
  number is that of the acknowledge, while each turn before it took a message of the monitor or one with another
  number.  The call returns with that turn, and what these turns did is all it does after the write.
\<close>

theorem send_needs_acknowledge:
  assumes "i \<noteq> 0"
  shows "rt_pef24638_send_idc_msg env i src s = (True, s') \<longleftrightarrow>
    (let msg = idc_header i (of_nat (length src)) @ src;
         (n, d) = pef24628_write (chip env) msg (pef s);
         turn = \<lambda>k. poll_turn env (after_turns env k (stack_buf env, s\<lparr>pef := d\<rparr>))
     in length src \<le> 120 \<and> length src mod 4 = 0 \<and> drv_open s \<and> sint n = int (length msg) \<and>
        (\<exists>k < 99. (\<forall>j < k. fst (turn j) = Monitor \<or> (\<exists>m. fst (turn j) = Message m \<and> m \<noteq> i OR 0x200)) \<and>
           fst (turn k) = Message (i OR 0x200) \<and> s' = snd (snd (turn k))))"
proof -
  define msg where "msg = idc_header i (of_nat (length src)) @ src"
  obtain n d where w: "pef24628_write (chip env) msg (pef s) = (n, d)" by fastforce
  show ?thesis
    unfolding Let_def msg_def[symmetric] w prod.case
    using poll_loop_ack[OF assms, of env 99 "stack_buf env" "s\<lparr>pef := d\<rparr>" s'] w
    by (auto simp: rt_pef24638_send_idc_msg_def Let_def rt_pef24628_poll_def simp flip: msg_def simp del: poll_loop.simps)
qed

text \<open>A device that ignores the command, with its acknowledge waiting in the receive FIFO.\<close>

definition ack_sample :: "unit shdsl" where
  "ack_sample = (rt_shdsl_register () (idle_threads (\<lambda>_. 10)))
     \<lparr>drv_open := True,
      pef := (dev_sample ())\<lparr>FifoBuffer := idc_header ACK_PMD_STATUSGET 0,
        RxFifo := [\<lparr>pData = 0, nBytes = 4, viaBridge = False\<rparr>], wrI := 1\<rparr>\<rparr>"

definition env1 :: "unit senv" where
  "env1 = \<lparr>chip = zero_bus, self = 1, alloc = \<lambda>_. True,
     blk = \<lambda>_. \<lparr>msg_id = 0, linkno = 0, mstate = 0, datarate = 0, snr_c = 0, snr_n = 0\<rparr>,
     stack_buf = replicate 132 0, stack_junk = (0, 0)\<rparr>"

lemma zero_bus_send:
  assumes "bInit d" and "ActiveIf d = 1" and "\<not> bSendIdcViaSciBridge d" and "uc_reg d \<noteq> 0"
    and "0 < length bs" and "length bs \<le> 132"
  shows "\<exists>e. pef24628_write zero_bus bs d = (word_of_int (int (length bs)), e) \<and> RxFifo e = RxFifo d \<and>
    FifoBuffer e = FifoBuffer d \<and> wrI e = wrI d \<and> rdI e = rdI d \<and> bInit e \<and> ActiveIf e = 1 \<and>
    irq_vector e = irq_vector d \<and> \<not> bSendIdcViaSciBridge e \<and> uc_reg e = uc_reg d"
proof -
  have p: "poll_reg zero_bus MPI_IINT (\<lambda>v. v AND MPI_INTERRUPT_R = 0) 10 t = (10, t)" for t
    by (simp add: poll_reg.simps)
  have "\<exists>e. idc_send_mpi zero_bus (length bs) 0 (tx_put 0 bs d) = (True, e) \<and> RxFifo e = RxFifo d \<and>
    FifoBuffer e = FifoBuffer d \<and> wrI e = wrI d \<and> rdI e = rdI d \<and> bInit e \<and> ActiveIf e = 1 \<and>
    irq_vector e = irq_vector d \<and> \<not> bSendIdcViaSciBridge e \<and> uc_reg e = uc_reg d"
    using assms by (simp add: idc_send_mpi.simps Pef24628e_Mpi_Tx_def p tx_start_def tx_put_def mpi_tx_write_def Let_def)
  then show ?thesis
    using assms by (auto simp: pef24628_write_def Pef24628e_Send_IDC_Msg_def Let_def tx_put_def)
qed

lemma ack_sample_acked: "fst (rt_pef24638_send_idc_msg env1 CMD_PMD_STATUSGET (CMD_PMD_StatusGet 0) ack_sample)"
proof -
  let ?d = "pef ack_sample"
  let ?msg = "idc_header CMD_PMD_STATUSGET 4 @ CMD_PMD_StatusGet 0"
  have len: "length (CMD_PMD_StatusGet 0) = 4" by (simp add: CMD_PMD_StatusGet_def)
  have d: "bInit ?d" "ActiveIf ?d = 1" "\<not> bSendIdcViaSciBridge ?d" "uc_reg ?d \<noteq> 0" "irq_vector ?d = 0"
      "RxFifo ?d = [\<lparr>pData = 0, nBytes = 4, viaBridge = False\<rparr>]" "wrI ?d = 1" "rdI ?d = 0"
      "FifoBuffer ?d = [64, 108, 255, 7]"
    by (simp_all add: ack_sample_def Bank1_PEF_C_def idc_header_def ACK_PMD_STATUSGET_def)
  obtain e where e: "pef24628_write zero_bus ?msg ?d = (8, e)" "RxFifo e = RxFifo ?d"
      "FifoBuffer e = FifoBuffer ?d" "wrI e = 1" "rdI e = 0" "bInit e" "ActiveIf e = 1" "irq_vector e = 0"
      "\<not> bSendIdcViaSciBridge e"  "uc_reg e \<noteq> 0"
    using zero_bus_send [of ?d ?msg] d len by auto
  have pc: "Pef24628e_Poll_Check zero_bus e = (True, e)"
    using e by (simp add: Pef24628e_Poll_Check_def Pef24628e_IntHandler_def)
  obtain f where rd: "pef24628_read zero_bus 132 e = (4, [64, 108, 255, 7], f)"
    using e d by (auto simp: pef24628_read_def Pef24628e_Get_IDC_Msg_def rd_copy_def Let_def buf_get_def)
  have id: "poll_msg_id 64 108 = 0x362" by (simp add: poll_msg_id_def)
  have buf: "buf_put 0 [64, 108, 255, 7] (replicate 132 0) ! 0 = (64 :: u8)"
      "buf_put 0 [64, 108, 255, 7] (replicate 132 0) ! 1 = (108 :: u8)"
      "buf_put 0 [64, 108, 255, 7] (replicate 132 0) ! 3 = (7 :: u8)"
    by (simp_all add: nth_buf_put del: buf_put.simps)
  have lp: "fst (poll_loop env1 CMD_PMD_STATUSGET (Suc n) (replicate 132 0) s)" if "pef s = e" for s n
    using that pc rd buf id unfolding poll_loop.simps by (simp add: env1_def CMD_PMD_STATUSGET_def Let_def del: buf_put.simps poll_loop.simps)
  then have "fst (poll_loop env1 CMD_PMD_STATUSGET 99 (stack_buf env1) s)" if "pef s = e" for s
    using lp [OF that, of 98] by (simp add: env1_def del: poll_loop.simps)
  then show ?thesis
    using e(1) len by (simp add: rt_pef24638_send_idc_msg_def env1_def rt_pef24628_poll_def ack_sample_def Let_def)
qed

lemma send_needs_acknowledge_witness:
  "\<exists>s' d k. rt_pef24638_send_idc_msg env1 CMD_PMD_STATUSGET (CMD_PMD_StatusGet 0) ack_sample = (True, s') \<and> k < 99 \<and>
     fst (poll_turn env1 (after_turns env1 k (stack_buf env1, ack_sample\<lparr>pef := d\<rparr>))) = Message 0x362"
proof -
  obtain s' where s': "rt_pef24638_send_idc_msg env1 CMD_PMD_STATUSGET (CMD_PMD_StatusGet 0) ack_sample = (True, s')"
    using ack_sample_acked by (metis prod.collapse)
  have i: "CMD_PMD_STATUSGET \<noteq> 0" "CMD_PMD_STATUSGET OR 0x200 = 0x362" by (simp_all add: idc_ids)
  show ?thesis using s' send_needs_acknowledge[OF i(1), THEN iffD1, OF s'] unfolding i(2)
    by (auto simp: Let_def split: prod.splits)
qed

text \<open>
  The lock.  A send from the application blocks exactly when another thread holds
  \<open>g_sh_lock\<close>; with the lock free it returns, leaves the lock free, and keeps all settings and
  the line status.
\<close>

theorem send_blocks_only_on_owner:
  assumes "mutex_inv base (g_sh_lock s, kthreads s)"
  shows "(rt_shdsl_send_idc_msg env i src s = None \<longleftrightarrow>
      owner (g_sh_lock s) \<noteq> None \<and> owner (g_sh_lock s) \<noteq> Some (self env)) \<and>
    (lock_free s \<longrightarrow> (\<exists>ok s'. rt_shdsl_send_idc_msg env i src s = Some (ok, s') \<and> lock_free s' \<and>
       app_settings s' = app_settings s \<and> g_lineStatus s' = g_lineStatus s))"
proof -
  have v: "owner (g_sh_lock s) = None \<longleftrightarrow> mvalue (g_sh_lock s) > 0"
    using mutex_invD(1,4) [OF assms] by (cases "owner (g_sh_lock s)") auto
  have "rt_shdsl_send_idc_msg env i src s = None \<longleftrightarrow>
      owner (g_sh_lock s) \<noteq> None \<and> owner (g_sh_lock s) \<noteq> Some (self env)"
    using v by (auto simp: rt_shdsl_send_idc_msg_def with_lock_def rt_mutex_take_def Let_def case_prod_beta
        RT_WAITING_FOREVER_def)
  moreover have "\<exists>ok s'. rt_shdsl_send_idc_msg env i src s = Some (ok, s') \<and> lock_free s' \<and>
       app_settings s' = app_settings s \<and> g_lineStatus s' = g_lineStatus s" if free: "lock_free s"
  proof -
    obtain ok s' where "rt_shdsl_send_idc_msg env i src s = Some (ok, s')" "app_frame s s'"
      using send_free [OF free] by metis
    then show ?thesis
      using app_frame_lock app_frame_settings free by (auto simp: app_frame_def)
  qed
  ultimately show ?thesis by blast
qed

lemma send_blocks_only_on_owner_witness:
  "\<exists>ok s'. rt_shdsl_send_idc_msg env0 CMD_PMD_STATUSGET (CMD_PMD_StatusGet 0) app_sample = Some (ok, s') \<and>
     lock_free s'"
proof -
  have "mutex_inv (\<lambda>_. 10) (g_sh_lock app_sample, kthreads app_sample)"
    using init_inv [of "idle_threads (\<lambda>_. 10)" "\<lambda>_. 10"] by simp
  from send_blocks_only_on_owner [OF this, of env0 CMD_PMD_STATUSGET "CMD_PMD_StatusGet 0"]
  show ?thesis by auto
qed

text \<open>
  A message that arrives while the mailbox is full is lost, and the memory of its copy with
  it: one more block is allocated that no address in the mailbox belongs to.
\<close>

theorem full_mailbox_loses_block:
  assumes "mb_wf 32 (g_mb s)" and "entry (g_mb s) = 32" and "g_init_finished s" and "alloc env (mallocs s)"
    and "heap_count s \<le> live s"
  shows "g_mb (poll_dispatch env EVT_PMD_LINKSTATE buf s) = g_mb s \<and>
    live (poll_dispatch env EVT_PMD_LINKSTATE buf s) = live s + 1 \<and>
    heap_count (poll_dispatch env EVT_PMD_LINKSTATE buf s) < live (poll_dispatch env EVT_PMD_LINKSTATE buf s)"
  using full_mailbox_leak [OF assms(1-4)] assms(5)
  by (simp add: poll_dispatch_def heap_count_def idc_ids)

lemma full_mailbox_loses_block_witness:
  "live (poll_dispatch env0 EVT_PMD_LINKSTATE (replicate 132 0)
     (app_sample\<lparr>g_init_finished := True, g_mb := (rt_mb_init (replicate 32 Gmsg) 32 0)\<lparr>entry := 32\<rparr>\<rparr>)) = 1"
proof -
  let ?s = "app_sample\<lparr>g_init_finished := True, g_mb := (rt_mb_init (replicate 32 Gmsg) 32 0)\<lparr>entry := 32\<rparr>\<rparr>"
  have "mb_contents (g_mb ?s) = replicate 32 Gmsg"
    by (rule nth_equalityI) (simp_all add: mb_contents_def rt_mb_init_def)
  then have "heap_count ?s = 0" by (simp add: heap_count_def)
  moreover have "mb_wf 32 (g_mb ?s)" by (simp add: mb_wf_def rt_mb_init_def)
  ultimately show ?thesis
    using full_mailbox_loses_block [of ?s env0 "replicate 132 0"]
    by (simp add: env0_def rt_mb_init_def)
qed

section \<open>Configuration\<close>

text \<open>
  The remote side reports the configuration as done exactly when every message of the
  sequence was acknowledged; either way the line status is cleared, messages are handled from
  then on, and the settings are as before.
\<close>

theorem cpe_init_configured:
  assumes "lock_free s"
  shows "\<exists>ok s1 s'. send_all env (cpe_msgs (stack_junk env) ch s)
        (s\<lparr>g_configed := 1, g_init_finished := False\<rparr>) = Some (ok, s1) \<and>
      rt_CPE_init env ch s = Some s' \<and> g_configed s' = (if ok then 1 else 0) \<and>
      g_lineStatus s' = line_reset \<and> g_init_finished s' \<and> app_settings s' = app_settings s \<and> lock_free s'"
proof -
  obtain ok s1 s' where
    1: "send_all env (cpe_msgs (stack_junk env) ch s) (s\<lparr>g_configed := 1, g_init_finished := False\<rparr>) = Some (ok, s1)"
      "rt_CPE_init env ch s = Some s'" "g_configed s' = (if ok then 1 else 0)" and 2: "seq_done s s'"
    by (rule CPE_init_cases [OF assms, of env ch])
  from 2 have "g_lineStatus s' = line_reset \<and> g_init_finished s' \<and> app_settings s' = app_settings s \<and> lock_free s'"
    unfolding seq_done_def by blast
  with 1 show ?thesis by blast
qed

lemma cpe_init_configured_witness:
  "\<exists>s'. rt_CPE_init env0 0 app_sample = Some s' \<and> g_lineStatus s' = line_reset"
  using cpe_init_configured [of app_sample env0 0] by auto

text \<open>
  In ATM mode the central side reports the configuration as done even if the ATM
  messages were not acknowledged: only the results of the messages before and after them count.
\<close>

theorem co_init_ignores_atm:
  assumes "lock_free s" and "g_TCMode s = 0"
  shows "\<exists>ok1 oka ok3 s1 s2 s3 s'.
      send_all env (co_head s) (s\<lparr>g_configed := 0, g_init_finished := False\<rparr>) = Some (ok1, s1) \<and>
      send_all env (atm_msgs 0 0 (stack_junk env)) s1 = Some (oka, s2) \<and>
      send_all env (co_tail s) s2 = Some (ok3, s3) \<and>
      rt_CO_init env s = Some s' \<and> (g_configed s' = 1 \<longleftrightarrow> ok1 \<and> ok3)"
proof -
  define s0 where "s0 = s\<lparr>g_configed := 0, g_init_finished := False\<rparr>"
  have l0: "lock_free s0" using assms(1) by (simp add: lock_free_def s0_def)
  obtain ok1 s1 where 1: "send_all env (co_head s0) s0 = Some (ok1, s1)" "app_frame s0 s1"
    using send_all_free [OF l0] by metis
  have l1: "lock_free s1" using l0 1(2) app_frame_lock by blast
  obtain oka s2 where 2: "send_all env (atm_msgs 0 0 (stack_junk env)) s1 = Some (oka, s2)" "app_frame s1 s2"
    using send_all_free [OF l1] by metis
  have l2: "lock_free s2" using l1 2(2) app_frame_lock by blast
  obtain ok3 s3 where 3: "send_all env (co_tail s2) s2 = Some (ok3, s3)"
    using send_all_free [OF l2] by metis
  have fr: "app_frame s0 s2" using app_frame_trans [OF 1(2) 2(2)] .
  have "co_tail s2 = co_tail s" "co_head s0 = co_head s"
    using fr by (simp_all add: co_tail_def co_head_def s0_def app_frame_def)
  moreover have "g_TCMode s1 = 0" using 1(2) assms(2) by (simp add: app_frame_def s0_def)
  ultimately show ?thesis
    using 1(1) 2(1) 3 unfolding rt_CO_init_def Let_def s0_def [symmetric] rt_CO_ATM_init_def by auto
qed

lemma co_init_ignores_atm_witness:
  "\<exists>oka s1 s2. send_all env0 (atm_msgs 0 0 (0, 0)) s1 = Some (oka, s2) \<and>
     (\<exists>s'. rt_CO_init env0 (app_sample\<lparr>g_TCMode := 0\<rparr>) = Some s')"
proof -
  have "lock_free (app_sample\<lparr>g_TCMode := 0\<rparr>)" by (simp add: lock_free_def)
  from co_init_ignores_atm [OF this, of env0] obtain oka s1 s2 s' where
    "send_all env0 (atm_msgs 0 0 (stack_junk env0)) s1 = Some (oka, s2)"
    "rt_CO_init env0 (app_sample\<lparr>g_TCMode := 0\<rparr>) = Some s'"
    by (simp del: send_all.simps) blast
  moreover have "stack_junk env0 = (0, 0)" by (simp add: env0_def)
  ultimately show ?thesis by metis
qed

text \<open>
  Applying a configuration is idempotent.  Whatever the web pages put into it, the first
  application returns, and a second one finds nothing to do: it does not bring the line down
  again.
\<close>

theorem apply_config_idempotent:
  assumes "lock_free s"
  shows "\<exists>s'. rt_shdsl_apply_config env s = Some s' \<and> rt_shdsl_apply_config env s' = Some s'"
  using apply_config_applied [OF assms, of env] by (metis apply_config_alt)

lemma apply_config_idempotent_witness:
  "\<exists>s'. rt_shdsl_apply_config env0 app_sample = Some s' \<and> rt_shdsl_apply_config env0 s' = Some s'"
  by (rule apply_config_idempotent) simp

text \<open>
  The configuration that \<open>initconfig\<close> derives from the settings is a fixed point of
  applying it exactly when the line rate is a multiple of 64000; for any other rate applying
  it changes the rate and brings the line down.
\<close>

theorem initconfig_roundtrip:
  assumes "lock_free s"
  shows "rt_shdsl_apply_config env (initconfig s) = Some (initconfig s) \<longleftrightarrow>
    unat (g_maxbaserate s) mod 64000 = 0"
proof
  assume "rt_shdsl_apply_config env (initconfig s) = Some (initconfig s)"
  moreover have "lock_free (initconfig s)" using assms by (simp add: lock_free_def initconfig_def)
  from apply_config_applied [OF this, of env] obtain s' where
    "rt_shdsl_apply_config env (initconfig s) = Some s'" "config_applied s'" by metis
  ultimately show "unat (g_maxbaserate s) mod 64000 = 0" by (simp flip: initconfig_applied)
next
  assume "unat (g_maxbaserate s) mod 64000 = 0"
  then show "rt_shdsl_apply_config env (initconfig s) = Some (initconfig s)"
    by (simp add: apply_config_alt initconfig_applied)
qed

lemma initconfig_roundtrip_witness:
  "rt_shdsl_apply_config env0 (initconfig app_sample) = Some (initconfig app_sample)"
  using initconfig_roundtrip [of app_sample env0] by simp

section \<open>The running application\<close>

text \<open>
  C9: power-up returns for every chip and every content of the flash whose IDC image has a boot
  part inside the image; it leaves the lock free and the driver well formed, and reports
  success only when the firmware has announced itself.
\<close>

theorem power_up_returns:
  fixes env :: "'h senv" and h :: 'h
  assumes "\<forall>a n. length (flash a n) = n"
    and "boot_size (idc_read_info (idc_fw_read flash) IDC_FW_LEN) \<le> IDC_FW_LEN" and "length buf = 132"
  shows "\<exists>r s. rt_shdsl_init env flash rxbuf (Some buf) True True (rt_shdsl_register h ths) = Some (r, s) \<and>
    lock_free s \<and> dev_wf (pef s) \<and> (r = RT_EOK \<longrightarrow> evt_initializationcomplete s)"
proof -
  have len: "length (flash a n) = n" for a n using assms(1) by blast
  obtain r s where rs: "rt_shdsl_init env flash rxbuf (Some buf) True True (rt_shdsl_register h ths) = Some (r, s)"
      "r = RT_EOK \<longrightarrow> evt_initializationcomplete s"
    using rt_shdsl_init_returns [OF len assms(2,3) refl, of env rxbuf h ths] by metis
  moreover have "app_inv s" by (rule boot_inv [OF assms rs(1)])
  ultimately show ?thesis by (auto simp: app_inv_def)
qed

lemma zero_image: "boot_size (idc_read_info (idc_fw_read (\<lambda>a n. replicate n 0)) IDC_FW_LEN) \<le> IDC_FW_LEN"
  by (simp add: idc_read_info_def Let_def GET_UINT32_FROM_IMAGE_def get_le32_def idc_fw_read_def IDC_FW_LEN_def)

lemma power_up_returns_witness:
  "\<exists>r s. rt_shdsl_init env0 (\<lambda>a n. replicate n 0) 0x20000000 (Some (replicate 132 0)) True True
     (rt_shdsl_register chip0 (idle_threads (\<lambda>_. 10))) = Some (r, s) \<and> lock_free s \<and> dev_wf (pef s) \<and>
     (r = RT_EOK \<longrightarrow> evt_initializationcomplete s)"
  by (rule power_up_returns) (simp_all add: zero_image)

text \<open>
  C7: the running application.  In every state it can reach the driver is well formed, the lock is
  free between calls, the mailbox is a well-formed ring of 32 that never holds a null address,
  there are at least as many live blocks as addresses of blocks in the mailbox (so no block is
  freed twice), the reported line rate is 0 to 5999, and the mode is 0 or 1.
\<close>

theorem application_invariant:
  assumes "app_reach b s"
  shows "dev_wf (pef s) \<and> lock_free s \<and> mb_wf 32 (g_mb s) \<and> Null \<notin> set (mb_contents (g_mb s)) \<and>
    heap_count s \<le> live s \<and> 0 \<le> dateRate (g_lineStatus s) \<and> dateRate (g_lineStatus s) < 6000 \<and>
    g_rcmode s \<in> {0, 1}"
  using app_reach_inv [OF assms] by (auto simp: app_inv_def rate_ok_def)

lemma sample_reach:
  obtains r s where "rt_shdsl_init env0 (\<lambda>a n. replicate n 0) 0x20000000 (Some (replicate 132 0)) True True
     (rt_shdsl_register chip0 (idle_threads (\<lambda>_. 10))) = Some (r, s)" "app_reach ram_bus s"
proof -
  have len: "length (replicate n (0 :: u8)) = n" for n by simp
  obtain r s where rs: "rt_shdsl_init env0 (\<lambda>a n. replicate n 0) 0x20000000 (Some (replicate 132 0)) True True
     (rt_shdsl_register chip0 (idle_threads (\<lambda>_. 10))) = Some (r, s)"
    using rt_shdsl_init_returns [of "\<lambda>a n. replicate n 0" "replicate 132 0" _ chip0 _ env0 "0x20000000",
        OF len zero_image _ refl] by (metis length_replicate)
  moreover have "app_reach ram_bus s"
    by (rule app_reach.boot [OF _ zero_image _ _ rs]) (simp_all add: env0_def)
  ultimately show ?thesis using that by blast
qed

lemma application_invariant_witness:
  "\<exists>r s. rt_shdsl_init env0 (\<lambda>a n. replicate n 0) 0x20000000 (Some (replicate 132 0)) True True
     (rt_shdsl_register chip0 (idle_threads (\<lambda>_. 10))) = Some (r, s) \<and> dateRate (g_lineStatus s) < 6000"
  using sample_reach application_invariant by metis

text \<open>
  C8: no step of the application gets stuck.  In every reachable state the turn of the state
  machine thread, the turn of the polling thread, every shell command and the application of
  any configuration return, and the state machine thread never follows a null address.
\<close>

theorem application_steps_return:
  assumes "app_reach b s"
  shows "(\<exists>s'. shs_turn env s = Some s') \<and> (\<exists>s'. shp_turn env s = Some s') \<and>
    (\<exists>s'. rt_shdsl_cmd env c s = Some s') \<and> (\<exists>s'. rt_shdsl_apply_config env (s\<lparr>g_config := cfg\<rparr>) = Some s')"
proof -
  have inv: "app_inv s" by (rule app_reach_inv [OF assms])
  then have free: "lock_free s" "lock_free (s\<lparr>g_config := cfg\<rparr>)" by (simp_all add: app_inv_def lock_free_def)
  show ?thesis
    using shs_turn_returns [OF inv, of env] runsD [OF runs_poll free(1), of env]
      runsD [OF runs_cmd free(1), of env c] runsD [OF runs_apply free(2), of env] by blast
qed

lemma application_steps_return_witness:
  "\<exists>r s. rt_shdsl_init env0 (\<lambda>a n. replicate n 0) 0x20000000 (Some (replicate 132 0)) True True
     (rt_shdsl_register chip0 (idle_threads (\<lambda>_. 10))) = Some (r, s) \<and> (\<exists>s'. shs_turn env0 s = Some s')"
  using sample_reach application_steps_return by metis

end
