(* ===== verification/Kern_Sem.thy ===== *)
theory Kern_Sem
  imports Kern
begin

text \<open>
  The semaphore of the kernel (\<open>rt_sem_init\<close>, \<open>rt_sem_take\<close>, \<open>rt_sem_trytake\<close>,
  \<open>rt_sem_release\<close>, \<open>rt_sem_control\<close>, \<open>rt_sem_detach\<close> of \<open>ipc.c\<close>).  The value has 16 bits; the calls that
  set it take 32.
\<close>

record semaphore =
  svalue :: u16
  swaiters :: "nat list"
  sflag :: nat

type_synonym sstate = "semaphore \<times> threads"

definition RT_IPC_CMD_RESET :: u8 where "RT_IPC_CMD_RESET = 1"

definition rt_sem_init :: "u32 \<Rightarrow> nat \<Rightarrow> semaphore" where
  "rt_sem_init v flag = \<lparr>svalue = ucast v, swaiters = [], sflag = flag\<rparr>"

definition rt_sem_take :: "nat \<Rightarrow> int \<Rightarrow> sstate \<Rightarrow> outcome \<times> sstate" where
  "rt_sem_take t time s =
     (let (m, ths) = s
      in if svalue m > 0 then (Return 0, (m\<lparr>svalue := svalue m - 1\<rparr>, ths))
         else if time = 0 then (Return (- RT_ETIMEOUT), s)
         else let (ws, ths1) = rt_ipc_list_suspend (sflag m) t (swaiters m, set_error t 0 ths)
              in (Block, (m\<lparr>swaiters := ws\<rparr>, start_timer t time ths1)))"

text \<open>What a thread that had to wait returns when it runs again.\<close>

definition sem_wake :: "nat \<Rightarrow> sstate \<Rightarrow> int" where
  "sem_wake t s = (if terror (snd s t) \<noteq> 0 then terror (snd s t) else 0)"

definition rt_sem_trytake :: "nat \<Rightarrow> sstate \<Rightarrow> outcome \<times> sstate" where
  "rt_sem_trytake t s = rt_sem_take t 0 s"

definition rt_sem_release :: "sstate \<Rightarrow> int \<times> sstate" where
  "rt_sem_release s =
     (let (m, ths) = s
      in if swaiters m \<noteq> []
         then let (ws, ths1) = rt_ipc_list_resume (swaiters m, ths) in (0, (m\<lparr>swaiters := ws\<rparr>, ths1))
         else (0, (m\<lparr>svalue := svalue m + 1\<rparr>, ths)))"

text \<open>\<open>None\<close>: the call never returns.\<close>

definition rt_sem_control :: "u8 \<Rightarrow> u32 \<Rightarrow> sstate \<Rightarrow> (int \<times> sstate) option" where
  "rt_sem_control cmd arg s =
     (let (m, ths) = s
      in if cmd = RT_IPC_CMD_RESET
         then map_option (\<lambda>ths1. (0, (m\<lparr>swaiters := [], svalue := ucast arg\<rparr>, ths1)))
                (rt_ipc_list_resume_all (swaiters m) ths)
         else Some (-1, s))"

definition rt_sem_detach :: "sstate \<Rightarrow> (int \<times> sstate) option" where
  "rt_sem_detach s =
     map_option (\<lambda>ths. (0, ((fst s)\<lparr>swaiters := []\<rparr>, ths))) (rt_ipc_list_resume_all (swaiters (fst s)) (snd s))"

text \<open>The time of a waiting thread is over.\<close>

definition sem_timeout :: "nat \<Rightarrow> sstate \<Rightarrow> sstate" where
  "sem_timeout t s = ((fst s)\<lparr>swaiters := remove1 t (swaiters (fst s))\<rparr>, rt_thread_timeout t (snd s))"

section \<open>Counting\<close>

text \<open>
  \<open>sem_reach v n g s\<close>: \<open>s\<close> is reached from a semaphore of value \<open>v\<close> with \<open>n\<close> releases and \<open>g\<close> takes that
  were granted, at once or by a release.
\<close>

inductive sem_reach :: "nat \<Rightarrow> nat \<Rightarrow> nat \<Rightarrow> sstate \<Rightarrow> bool" where
  start: "\<forall>t. \<not> suspended (ths t) \<Longrightarrow> flag \<le> 1 \<Longrightarrow> sem_reach (unat (ucast v :: u16)) 0 0 (rt_sem_init v flag, ths)"
| take_it: "sem_reach v n g s \<Longrightarrow> \<not> suspended (snd s t) \<Longrightarrow> rt_sem_take t time s = (r, s1) \<Longrightarrow>
    sem_reach v n (if r = Return 0 then Suc g else g) s1"
| release: "sem_reach v n g s \<Longrightarrow> rt_sem_release s = (r, s1) \<Longrightarrow>
    sem_reach v (Suc n) (if swaiters (fst s) \<noteq> [] then Suc g else g) s1"
| timeout: "sem_reach v n g s \<Longrightarrow> t \<in> set (swaiters (fst s)) \<Longrightarrow> sem_reach v n g (sem_timeout t s)"
| reset: "sem_reach v n g s \<Longrightarrow> rt_sem_control RT_IPC_CMD_RESET arg s = Some (r, s1) \<Longrightarrow>
    sem_reach (unat (ucast arg :: u16)) 0 0 s1"

definition sem_inv :: "nat \<Rightarrow> nat \<Rightarrow> nat \<Rightarrow> sstate \<Rightarrow> bool" where
  "sem_inv v n g s \<longleftrightarrow>
     (let (m, ths) = s
      in sflag m \<le> 1 \<and> (swaiters m \<noteq> [] \<longrightarrow> svalue m = 0) \<and> distinct (swaiters m) \<and>
         (\<forall>t. suspended (ths t) \<longleftrightarrow> t \<in> set (swaiters m)) \<and>
         (v + n < 65536 \<longrightarrow> g + unat (svalue m) = v + n))"

lemma sem_take_inv:
  assumes "sem_inv v n g s" and "\<not> suspended (snd s t)" and "rt_sem_take t time s = (r, s1)"
  shows "sem_inv v n (if r = Return 0 then Suc g else g) s1"
proof -
  obtain m ths where s: "s = (m, ths)" by fastforce
  note i = assms(1)[unfolded sem_inv_def s prod.case Let_def]
  show ?thesis
  proof (cases "svalue m = 0")
    case True
    show ?thesis
    proof (cases "time = 0")
      case time: True
      then have "r = Return (- RT_ETIMEOUT) \<and> s1 = s" using True assms(3) by (simp add: s rt_sem_take_def)
      then show ?thesis using assms(1) by (simp add: RT_ETIMEOUT_def)
    next
      case False
      obtain ws ths1 where w: "rt_ipc_list_suspend (sflag m) t (swaiters m, set_error t 0 ths) = (ws, ths1)"
        by fastforce
      then have r: "r = Block" "s1 = (m\<lparr>swaiters := ws\<rparr>, start_timer t time ths1)"
        using True False assms(3) by (simp_all add: s rt_sem_take_def)
      have "set ws = insert t (set (swaiters m))" "distinct ws" "ths1 = rt_thread_suspend t (set_error t 0 ths)"
        using suspend_list[of "sflag m" t "swaiters m" "set_error t 0 ths"] i assms(2) s by (auto simp: w)
      then show ?thesis using i True by (simp add: r sem_inv_def) auto
    qed
  next
    case False
    then have "unat (svalue m) = Suc (unat (svalue m - 1))"
      by (simp add: unat_minus_one unat_gt_0)
    moreover have "r = Return 0" "s1 = (m\<lparr>svalue := svalue m - 1\<rparr>, ths)"
      using assms(3) False by (simp_all add: s rt_sem_take_def word_neq_0_conv)
    ultimately show ?thesis using i False by (simp add: sem_inv_def)
  qed
qed

lemma sem_release_inv:
  assumes "sem_inv v n g s" and "rt_sem_release s = (r, s1)"
  shows "sem_inv v (Suc n) (if swaiters (fst s) \<noteq> [] then Suc g else g) s1"
proof -
  obtain m ths where s: "s = (m, ths)" by fastforce
  note i = assms(1)[unfolded sem_inv_def s prod.case Let_def]
  show ?thesis
  proof (cases "swaiters m")
    case Nil
    then have s1: "s1 = (m\<lparr>svalue := svalue m + 1\<rparr>, ths)" using assms(2) by (simp add: s rt_sem_release_def)
    have "unat (svalue m + 1) = unat (svalue m) + 1" if "unat (svalue m) < 65535"
      using that by (simp add: unat_word_ariths)
    then show ?thesis using i Nil by (auto simp: s s1 sem_inv_def)
  next
    case (Cons t ts)
    then have "suspended (ths t)" using i by simp
    with Cons have s1: "s1 = (m\<lparr>swaiters := ts\<rparr>, rt_thread_resume t ths)"
      using assms(2) by (simp add: s rt_sem_release_def rt_ipc_list_resume_def)
    show ?thesis using i Cons by (simp add: s s1 sem_inv_def) auto
  qed
qed

lemma sem_reach_inv: "sem_reach v n g s \<Longrightarrow> sem_inv v n g s"
proof (induction rule: sem_reach.induct)
  case (start ths flag v)
  then show ?case by (simp add: sem_inv_def rt_sem_init_def)
next
  case (take_it v n g s t time r s1)
  then show ?case by (intro sem_take_inv)
next
  case (release v n g s r s1)
  then show ?case by (intro sem_release_inv)
next
  case (timeout v n g s t)
  then show ?case by (auto simp: sem_inv_def sem_timeout_def)
next
  case (reset v n g s arg r s1)
  then show ?case by (auto simp: sem_inv_def rt_sem_control_def resume_all_eq split: if_splits)
qed

lemma sem_waiting: "sem_reach v n g s \<Longrightarrow> waiting (swaiters (fst s)) (snd s)"
  using sem_reach_inv[of v n g s] by (auto simp: sem_inv_def waiting_def split: prod.splits)

text \<open>So a reset of a semaphore that is in use returns.\<close>

lemma sem_reset_returns:
  "sem_reach v n g s \<Longrightarrow> rt_sem_control RT_IPC_CMD_RESET arg s =
     Some (0, ((fst s)\<lparr>swaiters := [], svalue := ucast arg\<rparr>, wake_all (swaiters (fst s)) (snd s)))"
  using sem_waiting[of v n g s] by (cases s) (simp add: rt_sem_control_def)

section \<open>Property of the semaphore\<close>

text \<open>
  C15: counting.  Whatever threads do with a semaphore, as long as it is not released so often that its 16 bits
  overflow: the takes that were granted and the value add up to the first value and the releases; a take is
  granted at once exactly when fewer were granted than that; nobody waits while the value is above zero; and a
  release with threads waiting resumes the first of them, with no error, and only it.
\<close>

theorem sem_counts:
  assumes "sem_reach v n g s" and "v + n < 65536"
  shows "g + unat (svalue (fst s)) = v + n \<and> (swaiters (fst s) \<noteq> [] \<longrightarrow> svalue (fst s) = 0) \<and>
    (fst (rt_sem_take t time s) = Return 0 \<longleftrightarrow> g < v + n) \<and>
    (\<forall>w ws. swaiters (fst s) = w # ws \<longrightarrow>
       (let s1 = snd (rt_sem_release s)
        in swaiters (fst s1) = ws \<and> svalue (fst s1) = 0 \<and> (\<forall>u. suspended (snd s1 u) \<longleftrightarrow> suspended (snd s u) \<and> u \<noteq> w)))"
proof -
  obtain m ths where s: "s = (m, ths)" by fastforce
  note i = sem_reach_inv[OF assms(1), unfolded sem_inv_def s prod.case]
  have c: "g + unat (svalue m) = v + n" using i assms(2) by simp
  have t: "fst (rt_sem_take t time s) = Return 0 \<longleftrightarrow> 0 < unat (svalue m)"
    by (auto simp: s rt_sem_take_def RT_ETIMEOUT_def unat_gt_0 word_neq_0_conv split: prod.splits)
  show ?thesis using i c t
    by (auto simp: s rt_sem_release_def rt_ipc_list_resume_def Let_def)
qed

theorem sem_counts_witness:
  "\<exists>s. rt_sem_take 4 (-1) (rt_sem_init 0 0, \<lambda>_. \<lparr>terror = 0, current_priority = 10, suspended = False, thread_timer = None\<rparr>) = (Block, s) \<and>
     swaiters (fst s) = [4] \<and> swaiters (fst (snd (rt_sem_release s))) = []"
proof -
  let ?s0 = "(rt_sem_init 0 0, \<lambda>_. \<lparr>terror = 0, current_priority = 10, suspended = False, thread_timer = None\<rparr>) :: sstate"
  have r0: "sem_reach 0 0 0 ?s0" using sem_reach.start[of "snd ?s0" 0 0] by simp
  obtain s where s: "rt_sem_take 4 (-1) ?s0 = (Block, s)" "swaiters (fst s) = [4]"
    by (simp add: rt_sem_take_def rt_sem_init_def rt_ipc_list_suspend_def RT_IPC_FLAG_FIFO_def Let_def)
  have "sem_reach 0 0 0 s" using sem_reach.take_it[OF r0 _ s(1)] by simp
  from sem_counts[OF this] s show ?thesis by (simp add: Let_def)
qed

end
