(* ===== verification/Kern_Event.thy ===== *)
theory Kern_Event
  imports Kern_Sem
begin

unbundle bit_operations_syntax

text \<open>
  Events of the kernel (\<open>rt_event_init\<close>, \<open>rt_event_send\<close>, \<open>rt_event_recv\<close>, \<open>rt_event_control\<close>,
  \<open>rt_event_detach\<close> of \<open>ipc.c\<close>): a set of 32 flags; a thread waits for all or for any of the
  flags it names, and may clear them when it gets them.  The fields \<open>event_set\<close> and
  \<open>event_info\<close> of the threads are kept with the event, since only waiting threads use them.
\<close>

record event =
  eset :: u32
  ewaiters :: "nat list"
  einfo :: "nat \<Rightarrow> u32 \<times> u8"
  eflag :: nat

type_synonym estate = "event \<times> threads"

definition RT_EVENT_FLAG_AND :: u8 where "RT_EVENT_FLAG_AND = 1"
definition RT_EVENT_FLAG_OR :: u8 where "RT_EVENT_FLAG_OR = 2"
definition RT_EVENT_FLAG_CLEAR :: u8 where "RT_EVENT_FLAG_CLEAR = 4"

definition rt_event_init :: "nat \<Rightarrow> event" where
  "rt_event_init flag = \<lparr>eset = 0, ewaiters = [], einfo = \<lambda>_. (0, 0), eflag = flag\<rparr>"

text \<open>Whether the flags \<open>have\<close> are what \<open>set\<close> with the given option asks for.\<close>

definition satisfied :: "u32 \<Rightarrow> u8 \<Rightarrow> u32 \<Rightarrow> bool" where
  "satisfied s opt have \<longleftrightarrow>
     (if opt AND RT_EVENT_FLAG_AND \<noteq> 0 then s AND have = s
      else if opt AND RT_EVENT_FLAG_OR \<noteq> 0 then s AND have \<noteq> 0
      else False)"

text \<open>
  \<open>rt_event_send\<close> goes through the waiting threads.  One that has its flags is resumed; with
  \<open>RT_EVENT_FLAG_OR\<close> its \<open>event_set\<close> becomes the flags it got, and these are cleared if it
  asked for that, so that the next ones do not see them.
\<close>

fun event_scan :: "nat list \<Rightarrow> event \<Rightarrow> threads \<Rightarrow> nat list \<times> event \<times> threads" where
  "event_scan [] e ths = ([], e, ths)"
| "event_scan (t # ts) e ths =
     (let (s, opt) = einfo e t
      in if satisfied s opt (eset e)
         then let got = (if opt AND RT_EVENT_FLAG_AND \<noteq> 0 then s else s AND eset e);
                  e1 = e\<lparr>einfo := (einfo e)(t := (got, opt)),
                         eset := (if opt AND RT_EVENT_FLAG_CLEAR \<noteq> 0 then eset e AND NOT got else eset e)\<rparr>
              in event_scan ts e1 (rt_thread_resume t ths)
         else let (ws, r) = event_scan ts e ths in (t # ws, r))"

definition rt_event_send :: "u32 \<Rightarrow> estate \<Rightarrow> int \<times> estate" where
  "rt_event_send s st =
     (let (e, ths) = st
      in if s = 0 then (-1, st)
         else let e1 = e\<lparr>eset := eset e OR s\<rparr>; (ws, e2, ths1) = event_scan (ewaiters e1) e1 ths
              in (0, (e2\<lparr>ewaiters := ws\<rparr>, ths1)))"

text \<open>The result: the outcome, and the flags received when the call returns at once.\<close>

definition rt_event_recv :: "nat \<Rightarrow> u32 \<Rightarrow> u8 \<Rightarrow> int \<Rightarrow> estate \<Rightarrow> outcome \<times> u32 option \<times> estate" where
  "rt_event_recv t s opt timeout st =
     (let (e, ths) = st; ths1 = set_error t 0 ths
      in if s = 0 then (Return (-1), None, st)
         else if satisfied s opt (eset e)
         then (Return 0, Some (eset e AND s),
               (if opt AND RT_EVENT_FLAG_CLEAR \<noteq> 0 then e\<lparr>eset := eset e AND NOT s\<rparr> else e, ths1))
         else if timeout = 0 then (Return (- RT_ETIMEOUT), None, (e, set_error t (- RT_ETIMEOUT) ths1))
         else let (ws, ths2) = rt_ipc_list_suspend (eflag e) t (ewaiters e, ths1)
              in (Block, None,
                  (e\<lparr>einfo := (einfo e)(t := (s, opt)), ewaiters := ws\<rparr>, start_timer t timeout ths2)))"

text \<open>What a thread that had to wait returns when it runs again.\<close>

definition event_wake :: "nat \<Rightarrow> estate \<Rightarrow> int \<times> u32 option" where
  "event_wake t st =
     (if terror (snd st t) \<noteq> 0 then (terror (snd st t), None) else (0, Some (fst (einfo (fst st) t))))"

definition rt_event_control :: "u8 \<Rightarrow> estate \<Rightarrow> (int \<times> estate) option" where
  "rt_event_control cmd st =
     (if cmd = RT_IPC_CMD_RESET
      then map_option (\<lambda>ths. (0, ((fst st)\<lparr>ewaiters := [], eset := 0\<rparr>, ths)))
             (rt_ipc_list_resume_all (ewaiters (fst st)) (snd st))
      else Some (-1, st))"

definition rt_event_detach :: "estate \<Rightarrow> (int \<times> estate) option" where
  "rt_event_detach st =
     map_option (\<lambda>ths. (0, ((fst st)\<lparr>ewaiters := []\<rparr>, ths)))
       (rt_ipc_list_resume_all (ewaiters (fst st)) (snd st))"

definition event_timeout :: "nat \<Rightarrow> estate \<Rightarrow> estate" where
  "event_timeout t st = ((fst st)\<lparr>ewaiters := remove1 t (ewaiters (fst st))\<rparr>, rt_thread_timeout t (snd st))"

section \<open>Nobody waits for what is there\<close>

text \<open>Clearing flags satisfies nobody.\<close>

lemma and_mono_word: "s AND (h AND m) = s \<Longrightarrow> s AND h = (s :: 'a::len word)"
  by (metis word_bw_assocs(1) word_bw_same(1) and.left_commute and.commute)

lemma satisfied_less: "satisfied s opt (h AND m) \<Longrightarrow> satisfied s opt h"
  using and_mono_word[of s h m] by (auto simp: satisfied_def and.assoc[symmetric] split: if_splits)

lemma scan_set: "event_scan ts e ths = (ws, e1, ths1) \<Longrightarrow> \<exists>m. eset e1 = eset e AND m"
proof (induction ts e ths arbitrary: ws e1 ths1 rule: event_scan.induct)
  case (1 e ths)
  then show ?case by (auto intro: exI[of _ "- 1"])
next
  case (2 t ts e ths)
  obtain s opt where i: "einfo e t = (s, opt)" by fastforce
  show ?case
  proof (cases "satisfied s opt (eset e)")
    case True
    then show ?thesis using 2(1)[OF i[symmetric] refl True refl] 2(3) i
      by (auto simp: Let_def split: if_splits simp: and.assoc) 
  next
    case False
    then show ?thesis using 2(2)[OF i[symmetric] refl False] 2(3) i
      by (auto simp: Let_def split: prod.splits)
  qed
qed

text \<open>
  What the scan does to the threads in its list: the ones it leaves wait as before for flags that are not
  there, the others got flags that were.
\<close>

definition got_flags :: "u32 \<times> u8 \<Rightarrow> u32 \<times> u8 \<Rightarrow> u32 \<Rightarrow> bool" where
  "got_flags i i1 h \<longleftrightarrow> satisfied (fst i) (snd i) h \<and> snd i1 = snd i \<and>
     fst i1 = (if snd i AND RT_EVENT_FLAG_AND \<noteq> 0 then fst i else fst i AND h)"

definition scan_ok :: "nat list \<Rightarrow> event \<Rightarrow> threads \<Rightarrow> nat list \<Rightarrow> event \<Rightarrow> threads \<Rightarrow> bool" where
  "scan_ok ts e ths ws e1 ths1 \<longleftrightarrow> set ws \<subseteq> set ts \<and> distinct ws \<and> eflag e1 = eflag e \<and>
     (\<forall>t. t \<notin> set ts \<or> t \<in> set ws \<longrightarrow> einfo e1 t = einfo e t) \<and>
     (\<forall>t \<in> set ws. \<not> satisfied (fst (einfo e t)) (snd (einfo e t)) (eset e1)) \<and>
     (\<forall>t \<in> set ts - set ws. \<exists>m. got_flags (einfo e t) (einfo e1 t) (eset e AND m)) \<and>
     (\<forall>t. suspended (ths1 t) \<longleftrightarrow> suspended (ths t) \<and> (t \<in> set ts \<longrightarrow> t \<in> set ws)) \<and>
     (\<forall>t. terror (ths1 t) = terror (ths t))"

lemma scan_spec:
  "event_scan ts e ths = (ws, e1, ths1) \<Longrightarrow> distinct ts \<Longrightarrow> scan_ok ts e ths ws e1 ths1"
proof (induction ts e ths arbitrary: ws e1 ths1 rule: event_scan.induct)
  case (1 e ths)
  then show ?case by (simp add: scan_ok_def)
next
  case (2 t ts e ths)
  obtain s opt where i: "einfo e t = (s, opt)" by fastforce
  have d: "t \<notin> set ts" "distinct ts" using 2(4) by simp_all
  show ?case
  proof (cases "satisfied s opt (eset e)")
    case True
    define got where "got = (if opt AND RT_EVENT_FLAG_AND \<noteq> 0 then s else s AND eset e)"
    define k where "k = (if opt AND RT_EVENT_FLAG_CLEAR \<noteq> 0 then NOT got else - 1)"
    define e2 where "e2 = e\<lparr>einfo := (einfo e)(t := (got, opt)), eset := eset e AND k\<rparr>"
    have sc: "event_scan ts e2 (rt_thread_resume t ths) = (ws, e1, ths1)"
      using 2(3) i True by (simp add: Let_def got_def k_def e2_def split: if_splits)
    have e2: "e2 = e\<lparr>einfo := (einfo e)(t := (got, opt)),
        eset := (if opt AND RT_EVENT_FLAG_CLEAR \<noteq> 0 then eset e AND NOT got else eset e)\<rparr>"
      by (simp add: e2_def k_def)
    have ok: "scan_ok ts e2 (rt_thread_resume t ths) ws e1 ths1"
      using 2(1)[OF i[symmetric] refl True got_def e2 sc d(2)] .
    note o = ok[unfolded scan_ok_def]
    have sub: "set ws \<subseteq> set ts" using o by blast
    then have nt: "t \<notin> set ws" using d(1) by blast
    have gt: "\<exists>m. got_flags (einfo e t) (got, opt) (eset e AND m)"
      using True i by (intro exI[of _ "- 1"]) (simp add: got_flags_def got_def)
    have it: "einfo e1 t = (got, opt)" using o d(1) by (simp add: e2_def)
    have ie: "einfo e2 u = einfo e u" if "u \<in> set ts" for u using that d(1) by (auto simp: e2_def)
    have og: "\<forall>u \<in> set ts - set ws. \<exists>m. got_flags (einfo e2 u) (einfo e1 u) (eset e2 AND m)"
      using o by (elim conjE)
    have gu: "\<exists>m. got_flags (einfo e u) (einfo e1 u) (eset e AND m)" if u: "u \<in> set ts - set ws" for u
    proof -
      obtain m where "got_flags (einfo e2 u) (einfo e1 u) (eset e2 AND m)" using bspec[OF og u] ..
      moreover have "einfo e2 u = einfo e u" using ie u by simp
      moreover have "eset e2 AND m = eset e AND (k AND m)" by (simp add: e2_def and.assoc)
      ultimately have "got_flags (einfo e u) (einfo e1 u) (eset e AND (k AND m))" by simp
      then show ?thesis ..
    qed
    have "einfo e1 u = einfo e u" if "u \<notin> set (t # ts) \<or> u \<in> set ws" for u
      using that o sub d(1) ie by (auto simp: e2_def)
    moreover have "\<not> satisfied (fst (einfo e u)) (snd (einfo e u)) (eset e1)" if "u \<in> set ws" for u
      using that o sub ie by (metis subsetD)
    moreover have "\<exists>m. got_flags (einfo e u) (einfo e1 u) (eset e AND m)" if "u \<in> set (t # ts) - set ws" for u
      using that gt it gu by (cases "u = t") auto
    moreover have "suspended (ths1 u) \<longleftrightarrow> suspended (ths u) \<and> (u \<in> set (t # ts) \<longrightarrow> u \<in> set ws)" for u
      using o nt by auto
    moreover have "eflag e2 = eflag e" by (simp add: e2_def)
    ultimately show ?thesis using o sub unfolding scan_ok_def by auto
  next
    case False
    then obtain ws2 where ws2: "event_scan ts e ths = (ws2, e1, ths1)" "ws = t # ws2"
      using 2(3) i by (auto simp: Let_def split: prod.splits)
    have ok: "scan_ok ts e ths ws2 e1 ths1" using 2(2)[OF i[symmetric] refl False ws2(1) d(2)] .
    have "\<not> satisfied s opt (eset e1)" using scan_set[OF ws2(1)] satisfied_less[of s opt "eset e"] False by metis
    then show ?thesis using ok d(1) i by (auto simp: scan_ok_def ws2(2))
  qed
qed

inductive event_reach :: "estate \<Rightarrow> bool" where
  start: "\<forall>t. \<not> suspended (ths t) \<Longrightarrow> flag \<le> 1 \<Longrightarrow> event_reach (rt_event_init flag, ths)"
| send: "event_reach s \<Longrightarrow> event_reach (snd (rt_event_send f s))"
| recv: "event_reach s \<Longrightarrow> \<not> suspended (snd s t) \<Longrightarrow> event_reach (snd (snd (rt_event_recv t f opt time s)))"
| timeout: "event_reach s \<Longrightarrow> t \<in> set (ewaiters (fst s)) \<Longrightarrow> event_reach (event_timeout t s)"
| control: "event_reach s \<Longrightarrow> rt_event_control cmd s = Some (r, s1) \<Longrightarrow> event_reach s1"

definition event_inv :: "estate \<Rightarrow> bool" where
  "event_inv s \<longleftrightarrow>
     (case s of (e, ths) \<Rightarrow> eflag e \<le> 1 \<and> distinct (ewaiters e) \<and> (\<forall>t. suspended (ths t) \<longleftrightarrow> t \<in> set (ewaiters e)) \<and>
         (\<forall>t \<in> set (ewaiters e). terror (ths t) = 0 \<and> fst (einfo e t) \<noteq> 0 \<and>
            \<not> satisfied (fst (einfo e t)) (snd (einfo e t)) (eset e)))"

lemma send_inv:
  assumes "event_inv s" and "rt_event_send f s = (r, s1)"
  shows "event_inv s1"
proof -
  obtain e ths where s: "s = (e, ths)" by fastforce
  note i = assms(1)[unfolded s event_inv_def prod.case]
  show ?thesis
  proof (cases "f = 0")
    case True
    then show ?thesis using assms by (simp add: rt_event_send_def s)
  next
    case False
    let ?e = "e\<lparr>eset := eset e OR f\<rparr>"
    obtain ws e2 ths1 where sc: "event_scan (ewaiters e) ?e ths = (ws, e2, ths1)" by (metis prod_cases3)
    have ok: "scan_ok (ewaiters e) ?e ths ws e2 ths1" using scan_spec[OF sc] i by simp
    have s1: "s1 = (e2\<lparr>ewaiters := ws\<rparr>, ths1)" using assms(2) False sc by (simp add: rt_event_send_def s)
    show ?thesis using ok i unfolding s1 event_inv_def prod.case scan_ok_def by auto
  qed
qed

lemma recv_inv:
  assumes "event_inv s" and "\<not> suspended (snd s t)" and "rt_event_recv t f opt time s = (r, v, s1)"
  shows "event_inv s1"
proof -
  obtain e ths where s: "s = (e, ths)" by fastforce
  note i = assms(1)[unfolded s event_inv_def prod.case]
  have nt: "t \<notin> set (ewaiters e)" using i assms(2) by (simp add: s)
  show ?thesis
  proof (cases "f = 0 \<or> satisfied f opt (eset e) \<or> time = 0")
    case True
    have "\<not> satisfied (fst (einfo e u)) (snd (einfo e u)) (eset e AND NOT f)" if "u \<in> set (ewaiters e)" for u
      using satisfied_less i that by blast
    then show ?thesis using assms(3) i True nt
      by (auto simp: rt_event_recv_def s Let_def event_inv_def split: if_splits)
  next
    case False
    obtain ws ths2 where w: "rt_ipc_list_suspend (eflag e) t (ewaiters e, set_error t 0 ths) = (ws, ths2)" by fastforce
    have s1: "s1 = (e\<lparr>einfo := (einfo e)(t := (f, opt)), ewaiters := ws\<rparr>, start_timer t time ths2)"
      using assms(3) False w by (simp add: rt_event_recv_def s Let_def)
    have "set ws = insert t (set (ewaiters e))" "distinct ws" "ths2 = rt_thread_suspend t (set_error t 0 ths)"
      using suspend_list[of "eflag e" t "ewaiters e" "set_error t 0 ths"] i nt by (auto simp: w)
    then show ?thesis using i False nt unfolding s1 event_inv_def prod.case by auto
  qed
qed

lemma event_reach_inv: "event_reach s \<Longrightarrow> event_inv s"
proof (induction rule: event_reach.induct)
  case (start ths flag)
  then show ?case by (simp add: event_inv_def rt_event_init_def)
next
  case (send s f)
  then show ?case using send_inv[of s f] by (metis prod.collapse)
next
  case (recv s t f opt time)
  then show ?case using recv_inv[of s t f opt time] by (metis prod.collapse)
next
  case (timeout s t)
  then show ?case by (auto simp: event_inv_def event_timeout_def split: prod.splits)
next
  case (control s cmd r s1)
  then show ?case by (auto simp: event_inv_def rt_event_control_def resume_all_eq split: if_splits)
qed

lemma event_waiting: "event_reach s \<Longrightarrow> waiting (ewaiters (fst s)) (snd s)"
  using event_reach_inv[of s] by (auto simp: event_inv_def waiting_def split: prod.splits)

lemma event_reset_returns:
  "event_reach s \<Longrightarrow> rt_event_control RT_IPC_CMD_RESET s =
     Some (0, ((fst s)\<lparr>ewaiters := [], eset := 0\<rparr>, wake_all (ewaiters (fst s)) (snd s)))"
  using event_waiting[of s] by (cases s) (simp add: rt_event_control_def)

section \<open>The turn of each thread\<close>

text \<open>
  What a thread that waits with \<open>i\<close> gets when the flags \<open>h\<close> are set at its turn, and the flags it leaves to the
  threads behind it in the list.
\<close>

definition turn_got :: "u32 \<times> u8 \<Rightarrow> u32 \<Rightarrow> u32" where
  "turn_got i h = (if snd i AND RT_EVENT_FLAG_AND \<noteq> 0 then fst i else fst i AND h)"

definition turn_left :: "u32 \<times> u8 \<Rightarrow> u32 \<Rightarrow> u32" where
  "turn_left i h =
     (if satisfied (fst i) (snd i) h \<and> snd i AND RT_EVENT_FLAG_CLEAR \<noteq> 0 then h AND NOT (turn_got i h) else h)"

lemma nths_same: "(\<And>k. k < length xs \<Longrightarrow> k \<in> A \<longleftrightarrow> k \<in> B) \<Longrightarrow> nths xs A = nths xs B"
  unfolding nths_def by (intro arg_cong[where f = "List.map fst"] filter_cong) (auto simp: set_zip)

lemma scan_turns:
  "event_scan ts e ths = (ws, e1, ths1) \<Longrightarrow> distinct ts \<Longrightarrow>
     \<exists>S. S 0 = eset e \<and> (\<forall>k < length ts. S (Suc k) = turn_left (einfo e (ts ! k)) (S k)) \<and> eset e1 = S (length ts) \<and>
       ws = nths ts {k. \<not> satisfied (fst (einfo e (ts ! k))) (snd (einfo e (ts ! k))) (S k)} \<and>
       (\<forall>k < length ts. satisfied (fst (einfo e (ts ! k))) (snd (einfo e (ts ! k))) (S k) \<longrightarrow>
          fst (einfo e1 (ts ! k)) = turn_got (einfo e (ts ! k)) (S k))"
proof (induction ts e ths arbitrary: ws e1 ths1 rule: event_scan.induct)
  case (1 e ths)
  then show ?case by (auto intro: exI[of _ "\<lambda>_. eset e"])
next
  case (2 t ts e ths)
  obtain s opt where i: "einfo e t = (s, opt)" by fastforce
  have d: "t \<notin> set ts" "distinct ts" using 2(4) by simp_all
  have nt: "ts ! k \<noteq> t" if "k < length ts" for k using d(1) that nth_mem by blast
  show ?case
  proof (cases "satisfied s opt (eset e)")
    case True
    define got where "got = (if opt AND RT_EVENT_FLAG_AND \<noteq> 0 then s else s AND eset e)"
    define e2 where "e2 = e\<lparr>einfo := (einfo e)(t := (got, opt)),
        eset := (if opt AND RT_EVENT_FLAG_CLEAR \<noteq> 0 then eset e AND NOT got else eset e)\<rparr>"
    have sc: "event_scan ts e2 (rt_thread_resume t ths) = (ws, e1, ths1)"
      using 2(3) i True by (simp add: Let_def got_def e2_def split: if_splits)
    obtain S where S: "S 0 = eset e2" "\<forall>k < length ts. S (Suc k) = turn_left (einfo e2 (ts ! k)) (S k)"
        "eset e1 = S (length ts)"
        "ws = nths ts {k. \<not> satisfied (fst (einfo e2 (ts ! k))) (snd (einfo e2 (ts ! k))) (S k)}"
        "\<forall>k < length ts. satisfied (fst (einfo e2 (ts ! k))) (snd (einfo e2 (ts ! k))) (S k) \<longrightarrow>
          fst (einfo e1 (ts ! k)) = turn_got (einfo e2 (ts ! k)) (S k)"
      using 2(1)[OF i[symmetric] refl True got_def e2_def sc d(2)] by blast
    have e2: "einfo e2 (ts ! k) = einfo e (ts ! k)" if "k < length ts" for k using nt[OF that] by (simp add: e2_def)
    have ws: "ws = nths ts {k. \<not> satisfied (fst (einfo e (ts ! k))) (snd (einfo e (ts ! k))) (S k)}"
      unfolding S(4) by (rule nths_same) (simp add: e2)
    have "einfo e1 t = (got, opt)"
      using scan_spec[OF sc d(2)] d(1) by (simp add: scan_ok_def e2_def)
    moreover have "turn_left (einfo e t) (eset e) = eset e2" using True by (simp add: turn_left_def turn_got_def e2_def got_def i)
    ultimately show ?thesis using True S(1-3,5) ws e2 i
      by (intro exI[of _ "case_nat (eset e) S"])
        (auto simp: nths_Cons less_Suc_eq_0_disj turn_got_def got_def)
  next
    case False
    then obtain ws2 where ws2: "event_scan ts e ths = (ws2, e1, ths1)" "ws = t # ws2"
      using 2(3) i by (auto simp: Let_def split: prod.splits)
    from 2(2)[OF i[symmetric] refl False ws2(1) d(2)] obtain S where
      S: "S 0 = eset e" "\<forall>k < length ts. S (Suc k) = turn_left (einfo e (ts ! k)) (S k)" "eset e1 = S (length ts)"
        "ws2 = nths ts {k. \<not> satisfied (fst (einfo e (ts ! k))) (snd (einfo e (ts ! k))) (S k)}"
        "\<forall>k < length ts. satisfied (fst (einfo e (ts ! k))) (snd (einfo e (ts ! k))) (S k) \<longrightarrow>
          fst (einfo e1 (ts ! k)) = turn_got (einfo e (ts ! k)) (S k)" by blast
    then show ?thesis using False i ws2(2)
      by (intro exI[of _ "case_nat (eset e) S"]) (auto simp: nths_Cons less_Suc_eq_0_disj turn_left_def)
  qed
qed

text \<open>When nobody in the list is satisfied, the list stays and so do the flags.\<close>

lemma scan_none:
  "\<forall>t \<in> set ts. \<not> satisfied (fst (einfo e t)) (snd (einfo e t)) (eset e) \<Longrightarrow> event_scan ts e ths = (ts, e, ths)"
  by (induction ts) (auto split: prod.splits)

lemma send_outcome:
  assumes "event_reach s" and "rt_event_send f s = (r, s1)" and "t \<in> set (ewaiters (fst s))"
  shows "if t \<in> set (ewaiters (fst s1)) then suspended (snd s1 t) \<and> einfo (fst s1) t = einfo (fst s) t
       else \<not> suspended (snd s1 t) \<and>
            (\<exists>got. event_wake t s1 = (0, Some got) \<and> got \<noteq> 0 \<and> got AND (eset (fst s) OR f) = got \<and>
               (if snd (einfo (fst s) t) AND RT_EVENT_FLAG_AND \<noteq> 0 then got = fst (einfo (fst s) t)
                else got AND fst (einfo (fst s) t) = got))"
proof -
  obtain e ths where s: "s = (e, ths)" by fastforce
  note i = event_reach_inv[OF assms(1), unfolded s event_inv_def prod.case]
  have t: "t \<in> set (ewaiters e)" using assms(3) by (simp add: s)
  show ?thesis
  proof (cases "f = 0")
    case True
    then show ?thesis using assms(2) i t by (auto simp: rt_event_send_def s)
  next
    case False
    let ?e = "e\<lparr>eset := eset e OR f\<rparr>"
    obtain ws e2 ths1 where sc: "event_scan (ewaiters e) ?e ths = (ws, e2, ths1)" by (metis prod_cases3)
    note o = scan_spec[OF sc, unfolded scan_ok_def]
    have s1: "s1 = (e2\<lparr>ewaiters := ws\<rparr>, ths1)" using assms(2) False sc by (simp add: rt_event_send_def s)
    show ?thesis
    proof (cases "t \<in> set ws")
      case True
      then show ?thesis using o i t by (simp add: s1 s)
    next
      case False
      then have "\<exists>m. got_flags (einfo e t) (einfo e2 t) ((eset e OR f) AND m)" using o i t by simp
      then obtain m where g: "got_flags (einfo e t) (einfo e2 t) ((eset e OR f) AND m)" ..
      have nz: "fst (einfo e t) \<noteq> 0" using i t by blast
      have "fst (einfo e2 t) \<noteq> 0 \<and> fst (einfo e2 t) AND (eset e OR f) = fst (einfo e2 t) \<and>
          (if snd (einfo e t) AND RT_EVENT_FLAG_AND \<noteq> 0 then fst (einfo e2 t) = fst (einfo e t)
           else fst (einfo e2 t) AND fst (einfo e t) = fst (einfo e2 t))"
        using g nz and_mono_word[of "fst (einfo e t)" "eset e OR f" m]
        by (auto simp: got_flags_def satisfied_def split: if_splits) (simp_all add: ac_simps)
      moreover have "event_wake t s1 = (0, Some (fst (einfo e2 t)))" using o i t by (simp add: s1 event_wake_def)
      moreover have "\<not> suspended (snd s1 t)" using o i t False by (simp add: s1)
      ultimately show ?thesis using False by (simp add: s1 s)
    qed
  qed
qed

lemma send_turns:
  assumes "event_reach s" and "rt_event_send f s = (r, s1)"
  defines "ts \<equiv> ewaiters (fst s)" and "i \<equiv> \<lambda>k. einfo (fst s) (ewaiters (fst s) ! k)"
  shows "r = (if f = 0 then -1 else 0) \<and>
    (\<exists>S. S 0 = eset (fst s) OR f \<and> eset (fst s1) = S (length ts) \<and>
       ewaiters (fst s1) = nths ts {k. \<not> satisfied (fst (i k)) (snd (i k)) (S k)} \<and>
       (\<forall>k < length ts. S (Suc k) = turn_left (i k) (S k) \<and>
          (satisfied (fst (i k)) (snd (i k)) (S k) \<longrightarrow> fst (einfo (fst s1) (ts ! k)) = turn_got (i k) (S k))))"
proof -
  obtain e ths where s: "s = (e, ths)" by fastforce
  note inv = event_reach_inv[OF assms(1), unfolded s event_inv_def prod.case]
  let ?e = "e\<lparr>eset := eset e OR f\<rparr>"
  obtain ws e2 ths1 where sc: "event_scan (ewaiters e) ?e ths = (ws, e2, ths1)" by (metis prod_cases3)
  have s1: "s1 = (e2\<lparr>ewaiters := ws\<rparr>, ths1) \<and> r = (if f = 0 then -1 else 0)"
  proof (cases "f = 0")
    case True
    then show ?thesis using assms(2) sc scan_none[of "ewaiters e" e ths] inv by (auto simp: rt_event_send_def s)
  qed (use assms(2) sc in \<open>simp add: rt_event_send_def s\<close>)
  obtain S where S: "S 0 = eset e OR f" "\<forall>k < length ts. S (Suc k) = turn_left (i k) (S k)" "eset e2 = S (length ts)"
      "ws = nths ts {k. \<not> satisfied (fst (i k)) (snd (i k)) (S k)}"
      "\<forall>k < length ts. satisfied (fst (i k)) (snd (i k)) (S k) \<longrightarrow> fst (einfo e2 (ts ! k)) = turn_got (i k) (S k)"
    using scan_turns[OF sc] inv by (auto simp: ts_def i_def s)
  then show ?thesis using s1 by (intro conjI exI[of _ S]) (simp_all add: s)
qed

text \<open>Which places are left out of a list with different elements.\<close>

lemma nths_mem: "distinct xs \<Longrightarrow> k < length xs \<Longrightarrow> xs ! k \<in> set (nths xs A) \<longleftrightarrow> k \<in> A"
  by (auto simp: set_nths nth_eq_iff_index_eq)

section \<open>Property of events\<close>

text \<open>
  C14: no wake-up is lost.  Whatever threads do with an event, no thread waits for flags that are set.  A send
  goes through the waiting threads in the order of their list.  \<open>S k\<close> is the set of flags when it is the turn of
  the thread at place \<open>k\<close>: first the flags that were set and those just sent.  The thread goes on exactly when they
  satisfy what it waits for; its call then returns without error the flags it waited for, all of them with
  \<open>RT_EVENT_FLAG_AND\<close> and otherwise those that are set, and if it asked to clear them the threads behind it do not
  see them.  Whoever is not satisfied at its turn stays in the list, in the old order, and waits for the
  same; the flags left after the last turn are the flags of the event.
\<close>

theorem event_no_lost_wakeup:
  assumes "event_reach s" and "rt_event_send f s = (r, s1)"
  defines "ts \<equiv> ewaiters (fst s)" and "i \<equiv> \<lambda>k. einfo (fst s) (ewaiters (fst s) ! k)"
  shows "(\<forall>t \<in> set (ewaiters (fst s)). \<not> satisfied (fst (einfo (fst s) t)) (snd (einfo (fst s) t)) (eset (fst s))) \<and>
    r = (if f = 0 then -1 else 0) \<and>
    (\<exists>S. S 0 = eset (fst s) OR f \<and> eset (fst s1) = S (length ts) \<and>
       ewaiters (fst s1) = nths ts {k. \<not> satisfied (fst (i k)) (snd (i k)) (S k)} \<and>
       (\<forall>k < length ts.
          let got = (if snd (i k) AND RT_EVENT_FLAG_AND \<noteq> 0 then fst (i k) else fst (i k) AND S k)
          in if satisfied (fst (i k)) (snd (i k)) (S k)
             then \<not> suspended (snd s1 (ts ! k)) \<and> event_wake (ts ! k) s1 = (0, Some got) \<and> got \<noteq> 0 \<and>
                  S (Suc k) = (if snd (i k) AND RT_EVENT_FLAG_CLEAR \<noteq> 0 then S k AND NOT got else S k)
             else suspended (snd s1 (ts ! k)) \<and> einfo (fst s1) (ts ! k) = i k \<and> S (Suc k) = S k)) \<and>
    (\<forall>t \<in> set (ewaiters (fst s)).
       if t \<in> set (ewaiters (fst s1)) then suspended (snd s1 t) \<and> einfo (fst s1) t = einfo (fst s) t
       else \<not> suspended (snd s1 t) \<and>
            (\<exists>got. event_wake t s1 = (0, Some got) \<and> got \<noteq> 0 \<and> got AND (eset (fst s) OR f) = got \<and>
               (if snd (einfo (fst s) t) AND RT_EVENT_FLAG_AND \<noteq> 0 then got = fst (einfo (fst s) t)
                else got AND fst (einfo (fst s) t) = got)))"
proof -
  note st = send_turns[OF assms(1,2)]
  obtain S where "S 0 = eset (fst s) OR f \<and> eset (fst s1) = S (length ts) \<and>
      ewaiters (fst s1) = nths ts {k. \<not> satisfied (fst (i k)) (snd (i k)) (S k)} \<and>
      (\<forall>k < length ts. S (Suc k) = turn_left (i k) (S k) \<and>
         (satisfied (fst (i k)) (snd (i k)) (S k) \<longrightarrow> fst (einfo (fst s1) (ts ! k)) = turn_got (i k) (S k)))"
    using conjunct2[OF st] unfolding ts_def i_def ..
  note S = conjunct1[OF st] conjunct1[OF this] this[THEN conjunct2, THEN conjunct1]
    this[THEN conjunct2, THEN conjunct2, THEN conjunct1] this[THEN conjunct2, THEN conjunct2, THEN conjunct2]
  have d: "distinct ts" using event_reach_inv[OF assms(1)] by (cases s) (simp add: event_inv_def ts_def)
  have turn: "let got = (if snd (i k) AND RT_EVENT_FLAG_AND \<noteq> 0 then fst (i k) else fst (i k) AND S k)
          in if satisfied (fst (i k)) (snd (i k)) (S k)
             then \<not> suspended (snd s1 (ts ! k)) \<and> event_wake (ts ! k) s1 = (0, Some got) \<and> got \<noteq> 0 \<and>
                  S (Suc k) = (if snd (i k) AND RT_EVENT_FLAG_CLEAR \<noteq> 0 then S k AND NOT got else S k)
             else suspended (snd s1 (ts ! k)) \<and> einfo (fst s1) (ts ! k) = i k \<and> S (Suc k) = S k"
    if k: "k < length ts" for k
  proof -
    have t: "ts ! k \<in> set (ewaiters (fst s))" using k by (simp add: ts_def)
    have m: "ts ! k \<in> set (ewaiters (fst s1)) \<longleftrightarrow> \<not> satisfied (fst (i k)) (snd (i k)) (S k)"
      using nths_mem[OF d k] by (simp add: S(4))
    note o = send_outcome[OF assms(1,2) t]
    have l: "S (Suc k) = turn_left (i k) (S k)" using S(5) k by blast
    show ?thesis
    proof (cases "satisfied (fst (i k)) (snd (i k)) (S k)")
      case True
      then have g: "fst (einfo (fst s1) (ts ! k)) = turn_got (i k) (S k)" using S(5) k by blast
      from True m o obtain got where "\<not> suspended (snd s1 (ts ! k))" "event_wake (ts ! k) s1 = (0, Some got)" "got \<noteq> 0"
        by auto
      moreover from this g have "got = turn_got (i k) (S k)" by (simp add: event_wake_def split: if_splits)
      ultimately show ?thesis using True l by (simp add: turn_left_def turn_got_def Let_def)
    next
      case False
      then have "suspended (snd s1 (ts ! k)) \<and> einfo (fst s1) (ts ! k) = i k" using m o by (simp add: i_def ts_def)
      then show ?thesis using False l by (simp add: turn_left_def)
    qed
  qed
  have "\<not> satisfied (fst (einfo (fst s) t)) (snd (einfo (fst s) t)) (eset (fst s))" if "t \<in> set (ewaiters (fst s))" for t
    using event_reach_inv[OF assms(1)] that by (cases s) (simp add: event_inv_def)
  then show ?thesis
    by (intro conjI ballI exI[of _ S] S(1-4) allI impI turn send_outcome[OF assms(1,2)])
qed

theorem event_no_lost_wakeup_witness:
  "\<exists>s s1 s2. rt_event_recv 4 1 5 (-1)
      (rt_event_init 0, \<lambda>_. \<lparr>terror = 0, current_priority = 10, suspended = False, thread_timer = None\<rparr>) = (Block, None, s) \<and>
     rt_event_recv 6 1 5 (-1) s = (Block, None, s1) \<and> rt_event_send 7 s1 = (0, s2) \<and>
     event_wake 4 s2 = (0, Some 1) \<and> suspended (snd s2 6) \<and> ewaiters (fst s2) = [6] \<and> eset (fst s2) = 6"
proof -
  let ?s0 = "(rt_event_init 0, \<lambda>_. \<lparr>terror = 0, current_priority = 10, suspended = False, thread_timer = None\<rparr>) :: estate"
  have r0: "event_reach ?s0" by (rule event_reach.start) simp_all
  obtain s where s: "rt_event_recv 4 1 5 (-1) ?s0 = (Block, None, s)" "ewaiters (fst s) = [4]" "eflag (fst s) = 0"
      "einfo (fst s) 4 = (1, 5)" "eset (fst s) = 0" "\<not> suspended (snd s 6)"
    by (simp add: rt_event_recv_def rt_event_init_def satisfied_def rt_ipc_list_suspend_def RT_IPC_FLAG_FIFO_def
        RT_EVENT_FLAG_AND_def RT_EVENT_FLAG_OR_def Let_def)
  have r1: "event_reach s" using event_reach.recv[OF r0, of 4 1 5 "-1"] s(1) by simp
  obtain s1 where s1: "rt_event_recv 6 1 5 (-1) s = (Block, None, s1)" "ewaiters (fst s1) = [4, 6]"
      "einfo (fst s1) 4 = (1, 5)" "einfo (fst s1) 6 = (1, 5)" "eset (fst s1) = 0"
    using s(2-) by (cases s) (simp add: rt_event_recv_def satisfied_def rt_ipc_list_suspend_def RT_IPC_FLAG_FIFO_def
        RT_EVENT_FLAG_AND_def RT_EVENT_FLAG_OR_def Let_def)
  have r2: "event_reach s1" using event_reach.recv[OF r1 s(6), of 1 5 "-1"] s1(1) by simp
  obtain r s2 where "rt_event_send 7 s1 = (r, s2)" by (cases "rt_event_send 7 s1")
  moreover note t = event_no_lost_wakeup[OF r2 this, THEN conjunct2]
  have "r = 0 \<and> event_wake 4 s2 = (0, Some 1) \<and> suspended (snd s2 6) \<and> ewaiters (fst s2) = [6] \<and> eset (fst s2) = 6"
    using t
  proof (elim conjE exE, goal_cases)
    case (1 S)
    have k0: "event_wake 4 s2 = (0, Some 1) \<and> S 1 = 6"
      using 1(6)[THEN spec, of 0] s1(2-) 1(3)
      by (simp add: satisfied_def RT_EVENT_FLAG_AND_def RT_EVENT_FLAG_CLEAR_def Let_def)
    have k1: "suspended (snd s2 6) \<and> S 2 = 6"
      using 1(6)[THEN spec, of 1] s1(2-) k0
      by (simp add: satisfied_def RT_EVENT_FLAG_AND_def RT_EVENT_FLAG_OR_def Let_def numeral_2_eq_2)
    have "r = 0" using 1(1) by simp
    then show ?case using 1(3,4,5) s1(2-) k0 k1
      by (simp add: nths_Cons satisfied_def RT_EVENT_FLAG_AND_def RT_EVENT_FLAG_OR_def eval_nat_numeral)
  qed
  ultimately show ?thesis using s(1) s1(1) by blast
qed

end
