(* ===== verification/Kern_Mq.thy ===== *)
theory Kern_Mq
  imports Kern_Sem
begin

unbundle bit_operations_syntax

text \<open>
  The message queue of the kernel (\<open>rt_mq_init\<close>, \<open>rt_mq_send\<close>, \<open>rt_mq_urgent\<close>, \<open>rt_mq_recv\<close>,
  \<open>rt_mq_control\<close>, \<open>rt_mq_detach\<close> of \<open>ipc.c\<close>).  The pool is cut into slots, numbered from 0; a slot has a
  pointer to the next one and room for a message.  Slots are on the list of free ones, on the list
  of messages, or in the hands of a thread that sends or receives: interrupts are enabled while a message is copied, so
  a send or a receive is two critical sections with the copy between them, and each of the three is a
  definition of its own.
\<close>

record mqueue =
  mq_next :: "nat \<Rightarrow> nat option"
  mq_data :: "nat \<Rightarrow> u8 list"
  mq_msg_size :: u16
  mq_max_msgs :: u16
  mq_entry :: u16
  mq_head :: "nat option"
  mq_tail :: "nat option"
  mq_free :: "nat option"
  mq_waiters :: "nat list"
  mq_flag :: nat

type_synonym mqstate = "mqueue \<times> threads"

text \<open>\<open>RT_ALIGN(size, 8)\<close> and the cut of the pool; a slot has four bytes for the pointer.\<close>

definition mq_align :: "u32 \<Rightarrow> u16" where
  "mq_align n = ucast ((n + 7) AND NOT 7)"

definition mq_slots :: "u32 \<Rightarrow> u16 \<Rightarrow> u16" where
  "mq_slots pool_size n = of_nat (unat pool_size div (unat n + 4))"

definition mq_add_slot :: "nat \<Rightarrow> mqueue \<Rightarrow> mqueue" where
  "mq_add_slot i m = m\<lparr>mq_next := (mq_next m)(i := mq_free m), mq_free := Some i\<rparr>"

definition rt_mq_init :: "(nat \<Rightarrow> u8 list) \<Rightarrow> u32 \<Rightarrow> u32 \<Rightarrow> nat \<Rightarrow> mqueue" where
  "rt_mq_init pool msg_size pool_size flag =
     (let n = mq_align msg_size; k = mq_slots pool_size n;
          m = \<lparr>mq_next = \<lambda>_. None, mq_data = pool, mq_msg_size = n, mq_max_msgs = k, mq_entry = 0, mq_head = None,
               mq_tail = None, mq_free = None, mq_waiters = [], mq_flag = flag\<rparr>
      in fold mq_add_slot [0..<unat k] m)"

section \<open>Sending\<close>

definition mq_take_free :: "mqueue \<Rightarrow> nat option \<times> mqueue" where
  "mq_take_free m =
     (case mq_free m of None \<Rightarrow> (None, m) | Some i \<Rightarrow> (Some i, m\<lparr>mq_free := mq_next m i\<rparr>))"

definition mq_copy_in :: "nat \<Rightarrow> u8 list \<Rightarrow> mqueue \<Rightarrow> mqueue" where
  "mq_copy_in i buffer m =
     m\<lparr>mq_data := (mq_data m)(i := buffer @ drop (length buffer) (mq_data m i))\<rparr>"

definition mq_end_msg :: "nat \<Rightarrow> mqueue \<Rightarrow> mqueue" where
  "mq_end_msg i m = m\<lparr>mq_next := (mq_next m)(i := None)\<rparr>"

definition mq_wake_one :: "mqstate \<Rightarrow> mqstate" where
  "mq_wake_one s =
     (let (ws, ths) = rt_ipc_list_resume (mq_waiters (fst s), snd s) in ((fst s)\<lparr>mq_waiters := ws\<rparr>, ths))"

definition mq_link :: "nat \<Rightarrow> mqstate \<Rightarrow> mqstate" where
  "mq_link i s =
     (let m = fst s;
          m1 = (case mq_tail m of None \<Rightarrow> m | Some j \<Rightarrow> m\<lparr>mq_next := (mq_next m)(j := Some i)\<rparr>)
      in mq_wake_one (m1\<lparr>mq_tail := Some i, mq_head := (if mq_head m = None then Some i else mq_head m),
                         mq_entry := mq_entry m + 1\<rparr>, snd s))"

definition mq_link_front :: "nat \<Rightarrow> mqstate \<Rightarrow> mqstate" where
  "mq_link_front i s =
     (let m = fst s
      in mq_wake_one (m\<lparr>mq_next := (mq_next m)(i := mq_head m), mq_head := Some i,
                        mq_tail := (if mq_tail m = None then Some i else mq_tail m),
                        mq_entry := mq_entry m + 1\<rparr>, snd s))"

definition mq_post :: "bool \<Rightarrow> u8 list \<Rightarrow> mqstate \<Rightarrow> int \<times> mqstate" where
  "mq_post urgent buffer s =
     (if length buffer > unat (mq_msg_size (fst s)) then (-1, s)
      else case mq_take_free (fst s) of
             (None, _) \<Rightarrow> (- RT_EFULL, s)
           | (Some i, m) \<Rightarrow>
               (0, if urgent then mq_link_front i (mq_copy_in i buffer m, snd s)
                   else mq_link i (mq_copy_in i buffer (mq_end_msg i m), snd s)))"

definition rt_mq_send :: "u8 list \<Rightarrow> mqstate \<Rightarrow> int \<times> mqstate" where
  "rt_mq_send buffer s = mq_post False buffer s"

definition rt_mq_urgent :: "u8 list \<Rightarrow> mqstate \<Rightarrow> int \<times> mqstate" where
  "rt_mq_urgent buffer s = mq_post True buffer s"

section \<open>Receiving\<close>

definition mq_unlink :: "mqueue \<Rightarrow> (nat \<times> mqueue) option" where
  "mq_unlink m =
     (case mq_head m of
        None \<Rightarrow> None
      | Some i \<Rightarrow> Some (i, m\<lparr>mq_head := mq_next m i,
                             mq_tail := (if mq_tail m = Some i then None else mq_tail m),
                             mq_entry := mq_entry m - 1\<rparr>))"

definition mq_copy_out :: "nat \<Rightarrow> nat \<Rightarrow> mqueue \<Rightarrow> u8 list" where
  "mq_copy_out i n m = take (min n (unat (mq_msg_size m))) (mq_data m i)"

definition mq_put_free :: "nat \<Rightarrow> mqueue \<Rightarrow> mqueue" where
  "mq_put_free i m = m\<lparr>mq_next := (mq_next m)(i := mq_free m), mq_free := Some i\<rparr>"

text \<open>The loop up to the first critical section's end: the slot taken off the queue, or the thread waits.\<close>

definition mq_recv_loop :: "nat \<Rightarrow> int \<Rightarrow> mqstate \<Rightarrow> (outcome \<times> nat option \<times> mqstate) option" where
  "mq_recv_loop t timeout s =
     (if mq_entry (fst s) = 0
      then let ths = set_error t 0 (snd s)
           in Some (if timeout = 0 then (Return (- RT_ETIMEOUT), None, (fst s, set_error t (- RT_ETIMEOUT) ths))
              else let (ws, ths1) = rt_ipc_list_suspend (mq_flag (fst s)) t (mq_waiters (fst s), ths)
                   in (Block, None, ((fst s)\<lparr>mq_waiters := ws\<rparr>, start_timer t timeout ths1)))
      else map_option (\<lambda>(i, m). (Return 0, Some i, (m, snd s))) (mq_unlink (fst s)))"

definition mq_recv_start :: "nat \<Rightarrow> int \<Rightarrow> mqstate \<Rightarrow> (outcome \<times> nat option \<times> mqstate) option" where
  "mq_recv_start t timeout s =
     (if mq_entry (fst s) = 0 \<and> timeout = 0 then Some (Return (- RT_ETIMEOUT), None, s)
      else mq_recv_loop t timeout s)"

definition mq_recv_wake :: "nat \<Rightarrow> int \<Rightarrow> mqstate \<Rightarrow> (outcome \<times> nat option \<times> mqstate) option" where
  "mq_recv_wake t timeout s =
     (if terror (snd s t) \<noteq> 0 then Some (Return (terror (snd s t)), None, s) else mq_recv_loop t timeout s)"

text \<open>A receive that does not have to wait.\<close>

definition rt_mq_recv :: "nat \<Rightarrow> nat \<Rightarrow> int \<Rightarrow> mqstate \<Rightarrow> (outcome \<times> u8 list option \<times> mqstate) option" where
  "rt_mq_recv t n timeout s =
     map_option (\<lambda>(r, taken, s1).
         (r, map_option (\<lambda>i. mq_copy_out i n (fst s1)) taken,
          (case taken of None \<Rightarrow> s1 | Some i \<Rightarrow> (mq_put_free i (fst s1), snd s1))))
       (mq_recv_start t timeout s)"

text \<open>\<open>RT_IPC_CMD_RESET\<close> moves every message to the list of free slots; the loop follows the pointers.\<close>

partial_function (option) mq_drain :: "mqueue \<Rightarrow> mqueue option" where
  "mq_drain m =
     (case mq_head m of
        None \<Rightarrow> Some m
      | Some i \<Rightarrow> mq_drain (mq_put_free i (m\<lparr>mq_head := mq_next m i,
                                             mq_tail := (if mq_tail m = Some i then None else mq_tail m)\<rparr>)))"

definition rt_mq_control :: "u8 \<Rightarrow> mqstate \<Rightarrow> (int \<times> mqstate) option" where
  "rt_mq_control cmd s =
     (if cmd = RT_IPC_CMD_RESET
      then Option.bind (rt_ipc_list_resume_all (mq_waiters (fst s)) (snd s)) (\<lambda>ths.
             map_option (\<lambda>m. (0, (m\<lparr>mq_entry := 0\<rparr>, ths))) (mq_drain ((fst s)\<lparr>mq_waiters := []\<rparr>)))
      else Some (-1, s))"

definition rt_mq_detach :: "mqstate \<Rightarrow> (int \<times> mqstate) option" where
  "rt_mq_detach s =
     map_option (\<lambda>ths. (0, ((fst s)\<lparr>mq_waiters := []\<rparr>, ths))) (rt_ipc_list_resume_all (mq_waiters (fst s)) (snd s))"

definition mq_timeout :: "nat \<Rightarrow> mqstate \<Rightarrow> mqstate" where
  "mq_timeout t s = ((fst s)\<lparr>mq_waiters := remove1 t (mq_waiters (fst s))\<rparr>, rt_thread_timeout t (snd s))"

section \<open>Threads at the queue\<close>

text \<open>
  Where a thread is in a call, with its slot and the message: the slot is taken, the message is copied, or
  the slot is off the queue and the message about to be copied out.  A step is a critical section or a copy;
  threads take steps in any order.  \<open>Q\<close> is the queue that should be: linking adds the message at its
  end or front, taking a slot off the queue takes the first.
\<close>

datatype mq_place = Outside | Taken nat bool "u8 list" | Copied nat bool "u8 list" | Unlinked nat "u8 list"

fun place_slot :: "mq_place \<Rightarrow> nat option" where
  "place_slot Outside = None"
| "place_slot (Taken i u b) = Some i"
| "place_slot (Copied i u b) = Some i"
| "place_slot (Unlinked i b) = Some i"

inductive mq_reach :: "mqstate \<Rightarrow> (nat \<Rightarrow> mq_place) \<Rightarrow> u8 list list \<Rightarrow> bool" where
  start: "\<forall>t. \<not> suspended (ths t) \<Longrightarrow> flag \<le> 1 \<Longrightarrow>
    mq_reach (rt_mq_init pool msg_size pool_size flag, ths) (\<lambda>_. Outside) []"
| take_slot: "mq_reach s pl Q \<Longrightarrow> pl t = Outside \<Longrightarrow> length b \<le> unat (mq_msg_size (fst s)) \<Longrightarrow>
    mq_take_free (fst s) = (Some i, m) \<Longrightarrow> mq_reach (m, snd s) (pl(t := Taken i u b)) Q"
| copy_in: "mq_reach s pl Q \<Longrightarrow> pl t = Taken i u b \<Longrightarrow>
    mq_reach (mq_copy_in i b (if u then fst s else mq_end_msg i (fst s)), snd s) (pl(t := Copied i u b)) Q"
| link: "mq_reach s pl Q \<Longrightarrow> pl t = Copied i False b \<Longrightarrow> mq_reach (mq_link i s) (pl(t := Outside)) (Q @ [b])"
| link_front: "mq_reach s pl Q \<Longrightarrow> pl t = Copied i True b \<Longrightarrow>
    mq_reach (mq_link_front i s) (pl(t := Outside)) (b # Q)"
| unlink: "mq_reach s pl Q \<Longrightarrow> pl t = Outside \<Longrightarrow> mq_entry (fst s) \<noteq> 0 \<Longrightarrow> mq_unlink (fst s) = Some (i, m) \<Longrightarrow>
    mq_reach (m, snd s) (pl(t := Unlinked i (hd Q))) (tl Q)"
| put_free: "mq_reach s pl Q \<Longrightarrow> pl t = Unlinked i b \<Longrightarrow>
    mq_reach (mq_put_free i (fst s), snd s) (pl(t := Outside)) Q"
| waits: "mq_reach s pl Q \<Longrightarrow> pl t = Outside \<Longrightarrow> \<not> suspended (snd s t) \<Longrightarrow>
    mq_recv_start t time s = Some (Block, None, s1) \<Longrightarrow> mq_reach s1 pl Q"
| reset: "mq_reach s pl Q \<Longrightarrow> rt_mq_control RT_IPC_CMD_RESET s = Some (0, s1) \<Longrightarrow> mq_reach s1 pl []"
| timeout: "mq_reach s pl Q \<Longrightarrow> t \<in> set (mq_waiters (fst s)) \<Longrightarrow> mq_reach (mq_timeout t s) pl Q"

text \<open>The slots on a list of the pool.\<close>

primrec mq_chain :: "(nat \<Rightarrow> nat option) \<Rightarrow> nat option \<Rightarrow> nat list \<Rightarrow> bool" where
  "mq_chain nx p [] \<longleftrightarrow> p = None"
| "mq_chain nx p (i # is) \<longleftrightarrow> p = Some i \<and> mq_chain nx (nx i) is"

lemma chain_upd [simp]: "i \<notin> set is \<Longrightarrow> mq_chain (nx(i := v)) p is = mq_chain nx p is"
  by (induction "is" arbitrary: p) auto

lemma chain_upd_if [simp]: "i \<notin> set is \<Longrightarrow> mq_chain (\<lambda>a. if a = i then v else nx a) p is = mq_chain nx p is"
  using chain_upd[of i "is" nx v p] by (simp add: fun_upd_def)

lemma chain_None [simp]: "mq_chain nx None is \<longleftrightarrow> is = []"
  by (cases "is") auto

lemma chain_append: "mq_chain nx p (is @ [i]) \<Longrightarrow> nx i = None"
  by (induction "is" arbitrary: p) auto

lemma chain_snoc:
  assumes "mq_chain nx p is" and "is \<noteq> []" and "i \<notin> set is" and "distinct is" and "nx i = None"
  shows "mq_chain (nx(last is := Some i)) p (is @ [i])"
  using assms
proof (induction "is" arbitrary: p)
  case (Cons j js)
  then show ?case by (cases "js = []") auto
qed simp

text \<open>
  The invariant: \<open>q\<close> are the slots of the queue, \<open>f\<close> the free ones.  Every slot is in exactly one place.
\<close>

definition mq_lists :: "mqueue \<Rightarrow> u8 list list \<Rightarrow> nat list \<Rightarrow> nat list \<Rightarrow> bool" where
  "mq_lists m Q q f \<longleftrightarrow>
     mq_chain (mq_next m) (mq_head m) q \<and> mq_chain (mq_next m) (mq_free m) f \<and>
     mq_tail m = (if q = [] then None else Some (last q)) \<and> mq_entry m = of_nat (length q) \<and>
     list_all2 (\<lambda>i b. take (length b) (mq_data m i) = b) q Q \<and>
     distinct (q @ f) \<and> length q \<le> unat (mq_max_msgs m)"

definition held :: "(nat \<Rightarrow> mq_place) \<Rightarrow> nat set" where
  "held pl = {i. \<exists>t. place_slot (pl t) = Some i}"

definition one_holder :: "(nat \<Rightarrow> mq_place) \<Rightarrow> bool" where
  "one_holder pl \<longleftrightarrow> (\<forall>t u i. place_slot (pl t) = Some i \<and> place_slot (pl u) = Some i \<longrightarrow> u = t)"

lemma held_take:
  assumes "pl t = Outside" and "place_slot x = Some i"
  shows "held (pl(t := x)) = insert i (held pl)" "one_holder pl \<Longrightarrow> i \<notin> held pl \<Longrightarrow> one_holder (pl(t := x))"
proof -
  have p: "place_slot ((pl(t := x)) u) = Some j \<longleftrightarrow> (u = t \<and> j = i) \<or> place_slot (pl u) = Some j" for u j
    using assms by auto
  show "held (pl(t := x)) = insert i (held pl)" unfolding held_def p by auto
  show "one_holder pl \<Longrightarrow> i \<notin> held pl \<Longrightarrow> one_holder (pl(t := x))"
    unfolding one_holder_def held_def p by auto
qed

lemma held_same:
  assumes "place_slot x = place_slot (pl t)"
  shows "held (pl(t := x)) = held pl" "one_holder (pl(t := x)) = one_holder pl"
proof -
  have "place_slot ((pl(t := x)) u) = place_slot (pl u)" for u using assms by simp
  then show "held (pl(t := x)) = held pl" "one_holder (pl(t := x)) = one_holder pl"
    unfolding held_def one_holder_def by simp_all
qed

lemma held_leave:
  assumes "place_slot (pl t) = Some i" and "one_holder pl"
  shows "held (pl(t := Outside)) = held pl - {i}" "one_holder (pl(t := Outside))"
proof -
  have p: "place_slot ((pl(t := Outside)) u) = Some j \<longleftrightarrow> place_slot (pl u) = Some j \<and> j \<noteq> i" for u j
    using assms unfolding one_holder_def by (cases "u = t") auto
  show "held (pl(t := Outside)) = held pl - {i}" unfolding held_def p by auto
  show "one_holder (pl(t := Outside))" using assms(2) unfolding one_holder_def p by blast
qed

lemma holds_slot: "place_slot (pl t) = Some i \<Longrightarrow> i \<in> held pl"
  by (auto simp: held_def)

definition mq_places :: "mqueue \<Rightarrow> (nat \<Rightarrow> mq_place) \<Rightarrow> nat list \<Rightarrow> nat list \<Rightarrow> bool" where
  "mq_places m pl q f \<longleftrightarrow>
     held pl \<inter> set (q @ f) = {} \<and> one_holder pl \<and> {..<unat (mq_max_msgs m)} = set (q @ f) \<union> held pl \<and>
     (\<forall>t i b. pl t = Copied i False b \<longrightarrow> mq_next m i = None) \<and>
     (\<forall>t i u b. pl t = Copied i u b \<or> pl t = Unlinked i b \<longrightarrow> take (length b) (mq_data m i) = b)"

definition mq_inv :: "mqstate \<Rightarrow> (nat \<Rightarrow> mq_place) \<Rightarrow> u8 list list \<Rightarrow> bool" where
  "mq_inv s pl Q \<longleftrightarrow> (\<exists>q f. mq_lists (fst s) Q q f \<and> mq_places (fst s) pl q f)"

lemma add_slot_sel [simp]:
  "mq_head (fold mq_add_slot is m) = mq_head m" "mq_tail (fold mq_add_slot is m) = mq_tail m"
  "mq_entry (fold mq_add_slot is m) = mq_entry m" "mq_max_msgs (fold mq_add_slot is m) = mq_max_msgs m"
  by (induction "is" arbitrary: m) (simp_all add: mq_add_slot_def)

lemma init_chain: "mq_free m = None \<Longrightarrow>
  mq_chain (mq_next (fold mq_add_slot [0..<k] m)) (mq_free (fold mq_add_slot [0..<k] m)) (rev [0..<k])"
  by (induction k) (simp_all add: mq_add_slot_def)

lemma mq_init_inv: "mq_inv (rt_mq_init pool a b flag, ths) (\<lambda>_. Outside) []"
  unfolding mq_inv_def fst_conv rt_mq_init_def Let_def
  by (rule exI[of _ "[]"], rule exI[of _ "rev [0..<unat (mq_slots b (mq_align a))]"])
    (auto simp: mq_lists_def mq_places_def init_chain held_def one_holder_def)

lemma mq_waiters_irrelevant [simp]:
  "mq_lists (m\<lparr>mq_waiters := ws\<rparr>) Q q f = mq_lists m Q q f"
  "mq_places (m\<lparr>mq_waiters := ws\<rparr>) pl q f = mq_places m pl q f"
  by (simp_all add: mq_lists_def mq_places_def)

lemma wake_one_inv [simp]: "mq_inv (mq_wake_one s) pl Q = mq_inv s pl Q"
  by (simp add: mq_inv_def mq_wake_one_def Let_def case_prod_beta)

lemma take_slot_inv:
  assumes "mq_inv s pl Q" and "pl t = Outside" and "mq_take_free (fst s) = (Some i, m)"
  shows "mq_inv (m, ths) (pl(t := Taken i u b)) Q"
proof -
  obtain q f where l: "mq_lists (fst s) Q q f" "mq_places (fst s) pl q f" using assms(1) by (auto simp: mq_inv_def)
  have f: "mq_free (fst s) = Some i" "m = (fst s)\<lparr>mq_free := mq_next (fst s) i\<rparr>"
    using assms(3) by (auto simp: mq_take_free_def split: option.splits)
  then obtain f' where f': "f = i # f'" using l(1) by (cases f) (auto simp: mq_lists_def)
  have "mq_lists m Q q f'" using l(1) by (auto simp: mq_lists_def f f')
  moreover have "mq_places m (pl(t := Taken i u b)) q f'"
  proof -
    have i: "i \<notin> held pl" "i \<notin> set (q @ f')" using l by (auto simp: mq_places_def mq_lists_def f')
    have h: "held (pl(t := Taken i u b)) = insert i (held pl)" "one_holder (pl(t := Taken i u b))"
      using held_take[of pl t "Taken i u b" i] assms(2) l(2) i(1) by (simp_all add: mq_places_def)
    show ?thesis using l(2) i h unfolding mq_places_def f(2) f' by auto
  qed
  ultimately show ?thesis by (auto simp: mq_inv_def)
qed

text \<open>Writing to a slot that a thread holds does not touch the lists.\<close>

lemma held_upd:
  assumes "mq_lists m Q q f" and "i \<notin> set (q @ f)"
  shows "mq_lists (m\<lparr>mq_next := (mq_next m)(i := v)\<rparr>) Q q f" "mq_lists (m\<lparr>mq_data := (mq_data m)(i := d)\<rparr>) Q q f"
proof -
  show "mq_lists (m\<lparr>mq_next := (mq_next m)(i := v)\<rparr>) Q q f" using assms by (simp add: mq_lists_def)
  have "list_all2 (\<lambda>j b. take (length b) (((mq_data m)(i := d)) j) = b) q Q"
    using assms by (auto simp: mq_lists_def list_all2_conv_all_nth)
  then show "mq_lists (m\<lparr>mq_data := (mq_data m)(i := d)\<rparr>) Q q f" using assms by (simp add: mq_lists_def)
qed

lemma held_upd_both:
  assumes "mq_lists m Q q f" and "i \<notin> set (q @ f)"
  shows "mq_lists (m\<lparr>mq_next := (mq_next m)(i := v), mq_data := (mq_data m)(i := d)\<rparr>) Q q f"
  using held_upd(2)[OF held_upd(1)[OF assms] assms(2)] by simp

text \<open>No other thread holds the slot.\<close>

lemma other_slot:
  assumes "one_holder pl" and "place_slot (pl t) = Some i" and "place_slot (pl x) = Some j" and "x \<noteq> t"
  shows "j \<noteq> i"
  using assms unfolding one_holder_def by metis

lemma other_place:
  assumes "one_holder pl" and "place_slot (pl t) = Some i" and "x \<noteq> t"
  shows "pl x \<noteq> Copied i v c" "pl x \<noteq> Unlinked i c"
  using other_slot[OF assms(1,2) _ assms(3), of i] by force+

lemma copy_in_inv:
  assumes "mq_inv s pl Q" and "pl t = Taken i u b"
  shows "mq_inv (mq_copy_in i b (if u then fst s else mq_end_msg i (fst s)), ths) (pl(t := Copied i u b)) Q"
proof -
  obtain q f where l: "mq_lists (fst s) Q q f" "mq_places (fst s) pl q f" using assms(1) by (auto simp: mq_inv_def)
  let ?m = "mq_copy_in i b (if u then fst s else mq_end_msg i (fst s))"
  have i: "i \<notin> set (q @ f)" using l(2) holds_slot[of pl t i] assms(2) by (auto simp: mq_places_def)
  have "mq_lists ?m Q q f"
    using l(1) i by (auto simp: mq_copy_in_def mq_end_msg_def intro!: held_upd held_upd_both)
  moreover have h: "held (pl(t := Copied i u b)) = held pl" "one_holder (pl(t := Copied i u b)) = one_holder pl"
    using held_same[of "Copied i u b" pl t] assms(2) by simp_all
  have "mq_places ?m (pl(t := Copied i u b)) q f"
    using l(2) h other_place[of pl t i] assms(2) unfolding mq_places_def
    by (auto simp: mq_copy_in_def mq_end_msg_def)
  ultimately show ?thesis unfolding mq_inv_def fst_conv by blast
qed

lemma link_lists:
  assumes l: "mq_lists m Q q f" and "i \<notin> set (q @ f)" and "mq_next m i = None"
    and "take (length b) (mq_data m i) = b" and "length q < unat (mq_max_msgs m)"
  shows "\<exists>m1. mq_link i (m, ths) = mq_wake_one (m1, ths) \<and> mq_lists m1 (Q @ [b]) (q @ [i]) f \<and>
    mq_max_msgs m1 = mq_max_msgs m \<and> mq_data m1 = mq_data m \<and> (\<forall>j. j \<notin> set q \<longrightarrow> mq_next m1 j = mq_next m j)"
proof (cases "q = []")
  case True
  let ?m1 = "m\<lparr>mq_tail := Some i, mq_head := Some i, mq_entry := mq_entry m + 1\<rparr>"
  have "mq_link i (m, ths) = mq_wake_one (?m1, ths)"
    using True l by (simp add: mq_link_def mq_lists_def Let_def)
  moreover have "mq_lists ?m1 (Q @ [b]) (q @ [i]) f" using True assms by (simp add: mq_lists_def)
  ultimately show ?thesis by (intro exI[of _ ?m1]) simp
next
  case False
  let ?m1 = "m\<lparr>mq_next := (mq_next m)(last q := Some i), mq_tail := Some i, mq_entry := mq_entry m + 1\<rparr>"
  have h: "mq_head m \<noteq> None" using False l by (cases q) (auto simp: mq_lists_def)
  then have "mq_link i (m, ths) = mq_wake_one (?m1, ths)"
    using False l by (cases m) (auto simp: mq_link_def mq_lists_def Let_def)
  moreover have "mq_chain (mq_next ?m1) (mq_head m) (q @ [i])"
    using chain_snoc[of "mq_next m" "mq_head m" q i] False assms by (simp add: mq_lists_def)
  moreover have "last q \<notin> set f" using False l last_in_set[of q] unfolding mq_lists_def by (auto simp: disjoint_iff)
  ultimately have "mq_lists ?m1 (Q @ [b]) (q @ [i]) f"
    using assms by (auto simp: mq_lists_def list_all2_appendI)
  moreover have "\<forall>j. j \<notin> set q \<longrightarrow> mq_next ?m1 j = mq_next m j" using False by auto
  ultimately show ?thesis
    using \<open>mq_link i (m, ths) = mq_wake_one (?m1, ths)\<close> by (intro exI[of _ ?m1]) simp
qed

text \<open>There is room: the slot in the thread's hands is one of those not on the queue.\<close>

lemma places_room:
  assumes "mq_lists m Q q f" and "mq_places m pl q f" and "place_slot (pl t) = Some i"
  shows "length q < unat (mq_max_msgs m)" "i \<notin> set (q @ f)"
proof -
  have i: "i \<in> held pl" by (rule holds_slot[of pl t, OF assms(3)])
  then show "i \<notin> set (q @ f)" using assms(2) by (auto simp: mq_places_def)
  moreover have "i < unat (mq_max_msgs m)" using assms(2) i by (auto simp: mq_places_def)
  moreover have "set q \<subseteq> {..<unat (mq_max_msgs m)}" using assms(2) by (auto simp: mq_places_def)
  ultimately have "set q \<subset> {..<unat (mq_max_msgs m)}" by auto
  then have "card (set q) < unat (mq_max_msgs m)" using psubset_card_mono[of "{..<unat (mq_max_msgs m)}" "set q"] by simp
  then show "length q < unat (mq_max_msgs m)" using assms(1) distinct_card[of q] by (simp add: mq_lists_def)
qed

lemma link_inv:
  assumes "mq_inv s pl Q" and "pl t = Copied i False b"
  shows "mq_inv (mq_link i s) (pl(t := Outside)) (Q @ [b])"
proof -
  obtain q f where l: "mq_lists (fst s) Q q f" "mq_places (fst s) pl q f" using assms(1) by (auto simp: mq_inv_def)
  have p: "place_slot (pl t) = Some i" using assms(2) by simp
  note r = places_room[OF l p]
  have d: "mq_next (fst s) i = None" "take (length b) (mq_data (fst s) i) = b"
    using l(2) assms(2) unfolding mq_places_def by blast+
  obtain m1 where m1: "mq_link i s = mq_wake_one (m1, snd s)" "mq_lists m1 (Q @ [b]) (q @ [i]) f"
      "mq_max_msgs m1 = mq_max_msgs (fst s)" "mq_data m1 = mq_data (fst s)"
      "\<forall>j. j \<notin> set q \<longrightarrow> mq_next m1 j = mq_next (fst s) j"
    using link_lists[OF l(1) r(2) d r(1), of "snd s"] by auto
  have h: "held (pl(t := Outside)) = held pl - {i}" "one_holder (pl(t := Outside))"
    using held_leave[of pl t, OF p] l(2) by (simp_all add: mq_places_def)
  have "mq_next m1 j = None" if c: "(pl(t := Outside)) x = Copied j False c" for x j c
  proof -
    have x: "pl x = Copied j False c" using c by (auto split: if_splits)
    then have "j \<notin> set q" using holds_slot[of pl x j] l(2) by (auto simp: mq_places_def)
    moreover have "mq_next (fst s) j = None" using x l(2) unfolding mq_places_def by blast
    ultimately show ?thesis using m1(5) by simp
  qed
  then have "mq_places m1 (pl(t := Outside)) (q @ [i]) f"
    using l(2) h holds_slot[of pl t, OF p] unfolding mq_places_def m1(3,4) by auto
  then have "mq_inv (m1, snd s) (pl(t := Outside)) (Q @ [b])" using m1(2) unfolding mq_inv_def fst_conv by blast
  then show ?thesis using m1(1) by simp
qed

lemma link_front_inv:
  assumes "mq_inv s pl Q" and "pl t = Copied i True b"
  shows "mq_inv (mq_link_front i s) (pl(t := Outside)) (b # Q)"
proof -
  obtain q f where l: "mq_lists (fst s) Q q f" "mq_places (fst s) pl q f" using assms(1) by (auto simp: mq_inv_def)
  have p: "place_slot (pl t) = Some i" using assms(2) by simp
  note r = places_room[OF l p]
  have d: "take (length b) (mq_data (fst s) i) = b" using l(2) assms(2) unfolding mq_places_def by blast
  let ?m = "fst s"
  let ?m1 = "?m\<lparr>mq_next := (mq_next ?m)(i := mq_head ?m), mq_head := Some i,
      mq_tail := (if mq_tail ?m = None then Some i else mq_tail ?m), mq_entry := mq_entry ?m + 1\<rparr>"
  have "mq_lists ?m1 (b # Q) (i # q) f" using l(1) r d by (auto simp: mq_lists_def)
  moreover have h: "held (pl(t := Outside)) = held pl - {i}" "one_holder (pl(t := Outside))"
    using held_leave[of pl t, OF p] l(2) by (simp_all add: mq_places_def)
  have "mq_places ?m1 (pl(t := Outside)) (i # q) f"
    using l(2) h holds_slot[of pl t, OF p] other_place[of pl t, OF _ p] unfolding mq_places_def by auto
  ultimately have "mq_inv (?m1, snd s) (pl(t := Outside)) (b # Q)" unfolding mq_inv_def fst_conv by blast
  moreover have "mq_link_front i s = mq_wake_one (?m1, snd s)" unfolding mq_link_front_def Let_def by (rule refl)
  ultimately show ?thesis by simp
qed

lemma unlink_inv:
  assumes "mq_inv s pl Q" and "pl t = Outside" and "mq_unlink (fst s) = Some (i, m)"
  shows "mq_inv (m, ths) (pl(t := Unlinked i (hd Q))) (tl Q)"
proof -
  obtain q f where l: "mq_lists (fst s) Q q f" "mq_places (fst s) pl q f" using assms(1) by (auto simp: mq_inv_def)
  have u: "mq_head (fst s) = Some i" "m = (fst s)\<lparr>mq_head := mq_next (fst s) i,
      mq_tail := (if mq_tail (fst s) = Some i then None else mq_tail (fst s)), mq_entry := mq_entry (fst s) - 1\<rparr>"
    using assms(3) by (auto simp: mq_unlink_def split: option.splits)
  then obtain q' where q': "q = i # q'" using l(1) by (cases q) (auto simp: mq_lists_def)
  then obtain b Q' where Q': "Q = b # Q'" using l(1) by (cases Q) (auto simp: mq_lists_def)
  have "mq_lists m Q' q' f" using l(1) unfolding u(2) by (auto simp: mq_lists_def q' Q' split: if_splits)
  moreover have "mq_places m (pl(t := Unlinked i b)) q' f"
  proof -
    have i: "i \<notin> held pl" "i \<notin> set (q' @ f)" using l by (auto simp: mq_places_def mq_lists_def q')
    have h: "held (pl(t := Unlinked i b)) = insert i (held pl)" "one_holder (pl(t := Unlinked i b))"
      using held_take[of pl t "Unlinked i b" i] assms(2) l(2) i(1) by (simp_all add: mq_places_def)
    have "take (length b) (mq_data (fst s) i) = b" using l(1) by (simp add: mq_lists_def q' Q')
    then show ?thesis using l(2) i h unfolding mq_places_def u(2) q' by auto
  qed
  ultimately show ?thesis by (auto simp: mq_inv_def Q')
qed

lemma put_free_inv:
  assumes "mq_inv s pl Q" and "pl t = Unlinked i b"
  shows "mq_inv (mq_put_free i (fst s), ths) (pl(t := Outside)) Q"
proof -
  obtain q f where l: "mq_lists (fst s) Q q f" "mq_places (fst s) pl q f" using assms(1) by (auto simp: mq_inv_def)
  have p: "place_slot (pl t) = Some i" using assms(2) by simp
  note r = places_room[OF l p]
  have "mq_lists (mq_put_free i (fst s)) Q q (i # f)" using l(1) r by (auto simp: mq_lists_def mq_put_free_def)
  moreover have h: "held (pl(t := Outside)) = held pl - {i}" "one_holder (pl(t := Outside))"
    using held_leave[of pl t, OF p] l(2) by (simp_all add: mq_places_def)
  have "mq_places (mq_put_free i (fst s)) (pl(t := Outside)) q (i # f)"
    using l(2) h holds_slot[of pl t, OF p] other_place[of pl t, OF _ p] unfolding mq_places_def
    by (auto simp: mq_put_free_def)
  ultimately show ?thesis by (auto simp: mq_inv_def)
qed

text \<open>The reset follows the list to its end.\<close>

lemma drain_lists:
  assumes "mq_chain (mq_next m) (mq_head m) q" and "mq_chain (mq_next m) (mq_free m) f" and "distinct (q @ f)"
    and "mq_tail m = (if q = [] then None else Some (last q))"
  shows "\<exists>m1. mq_drain m = Some m1 \<and> mq_head m1 = None \<and> mq_tail m1 = None \<and>
    mq_chain (mq_next m1) (mq_free m1) (rev q @ f) \<and> mq_data m1 = mq_data m \<and> mq_max_msgs m1 = mq_max_msgs m \<and>
    mq_msg_size m1 = mq_msg_size m \<and> (\<forall>j. j \<notin> set q \<longrightarrow> mq_next m1 j = mq_next m j) \<and>
    mq_waiters m1 = mq_waiters m \<and> mq_flag m1 = mq_flag m"
  using assms
proof (induction q arbitrary: m f)
  case Nil
  then show ?case by (simp add: mq_drain.simps[of m])
next
  case (Cons i q)
  let ?m = "mq_put_free i (m\<lparr>mq_head := mq_next m i, mq_tail := (if mq_tail m = Some i then None else mq_tail m)\<rparr>)"
  have d: "mq_drain m = mq_drain ?m" using Cons.prems(1) by (subst mq_drain.simps) simp
  have "last q \<noteq> i" if "q \<noteq> []" using Cons.prems(3) that last_in_set[of q] by auto
  then have "\<exists>m1. mq_drain ?m = Some m1 \<and> mq_head m1 = None \<and> mq_tail m1 = None \<and>
      mq_chain (mq_next m1) (mq_free m1) (rev q @ i # f) \<and> mq_data m1 = mq_data ?m \<and>
      mq_max_msgs m1 = mq_max_msgs ?m \<and> mq_msg_size m1 = mq_msg_size ?m \<and>
      (\<forall>j. j \<notin> set q \<longrightarrow> mq_next m1 j = mq_next ?m j) \<and> mq_waiters m1 = mq_waiters ?m \<and> mq_flag m1 = mq_flag ?m"
    using Cons.prems by (intro Cons.IH) (simp_all add: mq_put_free_def)
  then show ?case unfolding d by (elim ex_forward) (simp add: mq_put_free_def)
qed

lemma reset_inv:
  assumes "mq_inv s pl Q"
  shows "\<exists>m. rt_mq_control RT_IPC_CMD_RESET s =
      map_option (\<lambda>ths. (0, (m, ths))) (rt_ipc_list_resume_all (mq_waiters (fst s)) (snd s)) \<and> mq_inv (m, ths) pl [] \<and>
    mq_msg_size m = mq_msg_size (fst s) \<and> mq_waiters m = [] \<and> mq_flag m = mq_flag (fst s)"
proof -
  obtain q f where l: "mq_lists (fst s) Q q f" "mq_places (fst s) pl q f" using assms by (auto simp: mq_inv_def)
  let ?m = "(fst s)\<lparr>mq_waiters := []\<rparr>"
  obtain m1 where m1: "mq_drain ?m = Some m1" "mq_head m1 = None" "mq_tail m1 = None"
      "mq_chain (mq_next m1) (mq_free m1) (rev q @ f)" "mq_data m1 = mq_data (fst s)"
      "mq_max_msgs m1 = mq_max_msgs (fst s)" "mq_msg_size m1 = mq_msg_size (fst s)"
      "\<forall>j. j \<notin> set q \<longrightarrow> mq_next m1 j = mq_next (fst s) j" "mq_waiters m1 = []" "mq_flag m1 = mq_flag (fst s)"
    using drain_lists[of ?m q f] l(1) by (auto simp: mq_lists_def)
  have "mq_lists (m1\<lparr>mq_entry := 0\<rparr>) [] [] (rev q @ f)" using m1(2-4) l(1) by (simp add: mq_lists_def)
  moreover have "mq_next m1 i = None" if c: "pl t = Copied i False b" for t i b
  proof -
    have "i \<notin> set q" using holds_slot[of pl t i] l(2) c by (auto simp: mq_places_def)
    moreover have "mq_next (fst s) i = None" using c l(2) unfolding mq_places_def by blast
    ultimately show ?thesis using m1(8) by simp
  qed
  then have "mq_places (m1\<lparr>mq_entry := 0\<rparr>) pl [] (rev q @ f)"
    using l(2) m1(5,6) unfolding mq_places_def by auto
  ultimately have "mq_inv (m1\<lparr>mq_entry := 0\<rparr>, ths) pl []" unfolding mq_inv_def fst_conv by blast
  then show ?thesis using m1(1,7,9,10)
    by (intro exI[of _ "m1\<lparr>mq_entry := 0\<rparr>"])
      (cases "rt_ipc_list_resume_all (mq_waiters (fst s)) (snd s)"; simp add: rt_mq_control_def)
qed

lemma reset_some:
  assumes "mq_inv s pl Q" and "rt_mq_control RT_IPC_CMD_RESET s = Some (0, s1)"
  shows "mq_inv s1 pl [] \<and> mq_msg_size (fst s1) = mq_msg_size (fst s) \<and> mq_waiters (fst s1) = [] \<and>
    mq_flag (fst s1) = mq_flag (fst s) \<and> rt_ipc_list_resume_all (mq_waiters (fst s)) (snd s) = Some (snd s1)"
  using reset_inv[OF assms(1), of "snd s1"] assms(2)
  by (cases "rt_ipc_list_resume_all (mq_waiters (fst s)) (snd s)") auto

lemma mq_reach_inv: "mq_reach s pl Q \<Longrightarrow> mq_inv s pl Q"
proof (induction rule: mq_reach.induct)
  case (start ths flag pool msg_size pool_size)
  then show ?case by (simp add: mq_init_inv)
next
  case (take_slot s pl Q t b i m u)
  then show ?case by (intro take_slot_inv)
next
  case (copy_in s pl Q t i u b)
  then show ?case by (intro copy_in_inv)
next
  case (link s pl Q t i b)
  then show ?case by (intro link_inv)
next
  case (link_front s pl Q t i b)
  then show ?case by (intro link_front_inv)
next
  case (unlink s pl Q t i m)
  then show ?case by (intro unlink_inv)
next
  case (put_free s pl Q t i b)
  then show ?case by (intro put_free_inv)
next
  case (waits s pl Q t time s1)
  then obtain ws ths where "s1 = ((fst s)\<lparr>mq_waiters := ws\<rparr>, ths)"
    by (auto simp: mq_recv_start_def mq_recv_loop_def Let_def case_prod_beta split: if_splits)
  then show ?case using waits.IH by (simp add: mq_inv_def)
next
  case (reset s pl Q s1)
  then show ?case using reset_some by blast
next
  case (timeout s pl Q t)
  then show ?case by (simp add: mq_inv_def mq_timeout_def)
qed

text \<open>The threads that wait are those of the list; so the reset of a queue that is in use returns.\<close>

lemma add_slot_waiters [simp]:
  "mq_waiters (fold mq_add_slot is m) = mq_waiters m" "mq_flag (fold mq_add_slot is m) = mq_flag m"
  by (induction "is" arbitrary: m) (simp_all add: mq_add_slot_def)

lemma wake_one_waiting:
  "waiting (mq_waiters m) ths \<Longrightarrow> mq_flag m \<le> 1 \<Longrightarrow>
     waiting (mq_waiters (fst (mq_wake_one (m, ths)))) (snd (mq_wake_one (m, ths))) \<and> mq_flag (fst (mq_wake_one (m, ths))) \<le> 1"
  using waiting_resume[of "mq_waiters m" ths] by (auto simp: mq_wake_one_def split: prod.splits)

lemma mq_reach_waiting:
  assumes "mq_reach s pl Q"
  shows "waiting (mq_waiters (fst s)) (snd s) \<and> mq_flag (fst s) \<le> 1"
  using assms
proof (induction rule: mq_reach.induct)
  case (start ths flag pool msg_size pool_size)
  then show ?case by (simp add: rt_mq_init_def Let_def waiting_none)
next
  case (take_slot s pl Q t b i m u)
  then show ?case by (auto simp: mq_take_free_def split: option.splits)
next
  case (copy_in s pl Q t i u b)
  then show ?case by (simp add: mq_copy_in_def mq_end_msg_def)
next
  case (link s pl Q t i b)
  then show ?case unfolding mq_link_def Let_def by (intro wake_one_waiting) (auto split: option.splits)
next
  case (link_front s pl Q t i b)
  then show ?case unfolding mq_link_front_def Let_def by (intro wake_one_waiting) simp_all
next
  case (unlink s pl Q t i m)
  then show ?case by (auto simp: mq_unlink_def split: option.splits)
next
  case (put_free s pl Q t i b)
  then show ?case by (simp add: mq_put_free_def)
next
  case (waits s pl Q t time s1)
  then show ?case
    using waiting_suspend[of "mq_waiters (fst s)" "set_error t 0 (snd s)" t "mq_flag (fst s)"]
    by (auto simp: mq_recv_start_def mq_recv_loop_def Let_def split: if_splits prod.splits)
next
  case (reset s pl Q s1)
  then show ?case using reset_some[OF mq_reach_inv[OF reset.hyps(1)] reset.hyps(2)] waiting_woken[of "mq_waiters (fst s)" "snd s"] by auto
next
  case (timeout s pl Q t)
  then show ?case by (simp add: mq_timeout_def waiting_timeout)
qed

lemma mq_reset_returns:
  assumes "mq_reach s pl Q"
  shows "\<exists>m. rt_mq_control RT_IPC_CMD_RESET s = Some (0, (m, wake_all (mq_waiters (fst s)) (snd s))) \<and>
    mq_inv (m, wake_all (mq_waiters (fst s)) (snd s)) pl []"
  using reset_inv[OF mq_reach_inv[OF assms], of "wake_all (mq_waiters (fst s)) (snd s)"] mq_reach_waiting[OF assms]
  by auto

text \<open>No message is longer than a slot.\<close>

fun place_fits :: "nat \<Rightarrow> mq_place \<Rightarrow> bool" where
  "place_fits n Outside = True"
| "place_fits n (Taken i u b) = (length b \<le> n)"
| "place_fits n (Copied i u b) = (length b \<le> n)"
| "place_fits n (Unlinked i b) = (length b \<le> n)"

lemma mq_reach_fits:
  assumes "mq_reach s pl Q"
  shows "(\<forall>b \<in> set Q. length b \<le> unat (mq_msg_size (fst s))) \<and> (\<forall>t. place_fits (unat (mq_msg_size (fst s))) (pl t))"
  using assms
proof (induction rule: mq_reach.induct)
  case (start ths flag pool msg_size pool_size)
  show ?case by (simp add:)
next
  case (take_slot s pl Q t b i m u)
  then show ?case by (auto simp: mq_take_free_def split: option.splits)
next
  case (copy_in s pl Q t i u b)
  then have "place_fits (unat (mq_msg_size (fst s))) (Taken i u b)" by metis
  then show ?case using copy_in.IH by (auto simp: mq_copy_in_def mq_end_msg_def)
next
  case (link s pl Q t i b)
  then have "place_fits (unat (mq_msg_size (fst s))) (Copied i False b)" by metis
  then show ?case using link.IH
    by (auto simp: mq_link_def mq_wake_one_def Let_def case_prod_beta split: option.splits)
next
  case (link_front s pl Q t i b)
  then have "place_fits (unat (mq_msg_size (fst s))) (Copied i True b)" by metis
  then show ?case using link_front.IH
    by (auto simp: mq_link_front_def mq_wake_one_def Let_def case_prod_beta)
next
  case (unlink s pl Q t i m)
  then have m: "mq_msg_size m = mq_msg_size (fst s)" by (auto simp: mq_unlink_def split: option.splits)
  have "Q \<noteq> []" using mq_reach_inv[OF unlink.hyps(1)] unlink.hyps(3) by (auto simp: mq_inv_def mq_lists_def)
  then show ?case using unlink.IH m by (cases Q) (auto simp:)
next
  case (put_free s pl Q t i b)
  then show ?case by (auto simp: mq_put_free_def)
next
  case (waits s pl Q t time s1)
  then obtain ws ths where "s1 = ((fst s)\<lparr>mq_waiters := ws\<rparr>, ths)"
    by (auto simp: mq_recv_start_def mq_recv_loop_def Let_def case_prod_beta split: if_splits)
  then show ?case using waits.IH by simp
next
  case (reset s pl Q s1)
  then show ?case using reset_some[OF mq_reach_inv[OF reset.hyps(1)] reset.hyps(2)] by auto
next
  case (timeout s pl Q t)
  then show ?case by (simp add: mq_timeout_def)
qed

lemma mq_facts:
  assumes "mq_reach s pl Q"
  shows "unat (mq_entry (fst s)) = length Q"
    and "pl t = Unlinked i b \<Longrightarrow> length b \<le> n \<Longrightarrow> take (length b) (mq_copy_out i n (fst s)) = b"
    and "Q = b # Q' \<Longrightarrow> \<exists>i m. mq_unlink (fst s) = Some (i, m) \<and> take (length b) (mq_data m i) = b"
    and "mq_free (fst s) = None \<Longrightarrow> unat (mq_max_msgs (fst s)) = length Q + card (held pl)"
proof -
  obtain q f where l: "mq_lists (fst s) Q q f" "mq_places (fst s) pl q f"
    using mq_reach_inv[OF assms] by (auto simp: mq_inv_def)
  have q: "length q = length Q" "length q \<le> unat (mq_max_msgs (fst s))"
    using l(1) by (auto simp: mq_lists_def list_all2_lengthD)
  then show "unat (mq_entry (fst s)) = length Q"
    using l(1) unsigned_less[of "mq_max_msgs (fst s)", where ?'a = nat] by (simp add: mq_lists_def unat_of_nat take_bit_nat_eq_self)
  show "take (length b) (mq_copy_out i n (fst s)) = b"
    if "pl t = Unlinked i b" "length b \<le> n"
  proof -
    have "place_fits (unat (mq_msg_size (fst s))) (Unlinked i b)" using mq_reach_fits[OF assms] that(1) by metis
    then have "length b \<le> unat (mq_msg_size (fst s))" by (simp add:)
    moreover have "take (length b) (mq_data (fst s) i) = b" using that(1) l(2) unfolding mq_places_def by blast
    ultimately show ?thesis using that(2) by (simp add: mq_copy_out_def min_absorb1)
  qed
  show "\<exists>i m. mq_unlink (fst s) = Some (i, m) \<and> take (length b) (mq_data m i) = b" if "Q = b # Q'"
    using l(1) that by (cases q) (auto simp: mq_lists_def mq_unlink_def)
  show "unat (mq_max_msgs (fst s)) = length Q + card (held pl)" if "mq_free (fst s) = None"
  proof -
    have f: "f = []" using l(1) that by (simp add: mq_lists_def)
    have u: "{..<unat (mq_max_msgs (fst s))} = set q \<union> held pl" "set q \<inter> held pl = {}"
      using l(2) f by (auto simp: mq_places_def)
    moreover have "finite (set q \<union> held pl)" by (simp add: u(1)[symmetric])
    ultimately have "unat (mq_max_msgs (fst s)) = card (set q) + card (held pl)"
      using card_Un_disjoint[of "set q" "held pl"] by (metis finite_Un card_lessThan)
    then show ?thesis using l(1) q(1) by (simp add: mq_lists_def distinct_card)
  qed
qed

text \<open>C13: Whatever critical sections and copies the threads' calls are interleaved in, the queue is the sequence of
  messages sent and not yet received: the entry counter is its length, and while it is not empty a receive takes the slot
  with its first message off; the message of a slot that a receiver holds is copied out unchanged; a send finds no
  free slot only when each of the slots is on the queue or in the hands of a thread; and the reset ends, with
  an empty queue.\<close>

theorem mq_interleaved:
  assumes "mq_reach s pl Q"
  shows "unat (mq_entry (fst s)) = length Q \<and>
    (Q \<noteq> [] \<longrightarrow> (\<exists>i m. mq_unlink (fst s) = Some (i, m) \<and> take (length (hd Q)) (mq_data m i) = hd Q)) \<and>
    (\<forall>t i b n. pl t = Unlinked i b \<longrightarrow> length b \<le> n \<longrightarrow> take (length b) (mq_copy_out i n (fst s)) = b) \<and>
    (mq_free (fst s) = None \<longrightarrow> unat (mq_max_msgs (fst s)) = length Q + card (held pl)) \<and>
    (\<exists>s1. rt_mq_control RT_IPC_CMD_RESET s = Some (0, s1) \<and> mq_entry (fst s1) = 0)"
proof -
  obtain s1 where s1: "rt_mq_control RT_IPC_CMD_RESET s = Some (0, s1)" "mq_inv s1 pl []"
    using mq_reset_returns[OF assms] by blast
  then have "mq_entry (fst s1) = 0" by (auto simp: mq_inv_def mq_lists_def)
  moreover have "\<exists>i m. mq_unlink (fst s) = Some (i, m) \<and> take (length (hd Q)) (mq_data m i) = hd Q" if "Q \<noteq> []"
    using mq_facts(3)[OF assms, of "hd Q" "tl Q"] that by simp
  ultimately show ?thesis using mq_facts(1,2,4)[OF assms] s1(1) by blast
qed

lemma post_steps:
  assumes r: "mq_reach s pl Q" and t: "pl t = Outside" and p: "mq_post u b s = (0, s1)"
  shows "mq_reach s1 pl (if u then b # Q else Q @ [b])"
proof -
  obtain i m where m: "mq_take_free (fst s) = (Some i, m)" "length b \<le> unat (mq_msg_size (fst s))"
      "s1 = (if u then mq_link_front i (mq_copy_in i b m, snd s) else mq_link i (mq_copy_in i b (mq_end_msg i m), snd s))"
    using p by (auto simp: mq_post_def RT_EFULL_def split: if_splits prod.splits option.splits)
  let ?pl = "pl(t := Copied i u b)"
  have "mq_reach (m, snd s) (pl(t := Taken i u b)) Q" by (rule mq_reach.take_slot[OF r t m(2,1)])
  then have c: "mq_reach (mq_copy_in i b (if u then m else mq_end_msg i m), snd s) ?pl Q"
    using mq_reach.copy_in[of "(m, snd s)" "pl(t := Taken i u b)" Q t i u b] by (cases u) simp_all
  have "?pl(t := Outside) = pl" using t by auto
  then show ?thesis using m(3) mq_reach.link[OF c, of t i b] mq_reach.link_front[OF c, of t i b] by (cases u) simp_all
qed

lemma post_errors:
  "fst (mq_post u b s) = (if length b > unat (mq_msg_size (fst s)) then -1
     else if mq_free (fst s) = None then - RT_EFULL else 0)"
  "fst (mq_post u b s) \<noteq> 0 \<Longrightarrow> snd (mq_post u b s) = s"
  by (auto simp: mq_post_def mq_take_free_def split: option.splits)

lemma recv_steps:
  assumes r: "mq_reach s pl (b # Q)" and t: "pl t = Outside" and n: "length b \<le> n"
  shows "\<exists>out s1. rt_mq_recv t n time s = Some (Return 0, Some out, s1) \<and> take (length b) out = b \<and> mq_reach s1 pl Q"
proof -
  obtain i m where u: "mq_unlink (fst s) = Some (i, m)" using mq_facts(3)[OF r] by auto
  have e: "mq_entry (fst s) \<noteq> 0" using mq_facts(1)[OF r] by auto
  have r1: "mq_reach (m, snd s) (pl(t := Unlinked i b)) Q" using mq_reach.unlink[OF r t e u] by simp
  have "mq_reach (mq_put_free i m, snd s) pl Q"
    using mq_reach.put_free[OF r1, of t i b] t by (simp add: fun_upd_idem)
  moreover have "take (length b) (mq_copy_out i n m) = b" using mq_facts(2)[OF r1, of t i b n] n by simp
  ultimately show ?thesis using u e by (simp add: rt_mq_recv_def mq_recv_start_def mq_recv_loop_def)
qed

text \<open>Two slots; thread 1 has taken one for its message when thread 2 sends.\<close>

definition two_slots :: mqstate where
  "two_slots = (rt_mq_init (\<lambda>_. replicate 8 0) 5 24 0,
     \<lambda>_. \<lparr>terror = 0, current_priority = 10, suspended = False, thread_timer = None\<rparr>)"

lemma two_slots_reach: "mq_reach two_slots (\<lambda>_. Outside) []"
  unfolding two_slots_def by (rule mq_reach.start) simp_all

lemma two_slots_mq: "fst two_slots =
  \<lparr>mq_next = (\<lambda>_. None)(0 := None, 1 := Some 0), mq_data = \<lambda>_. replicate 8 0, mq_msg_size = 8, mq_max_msgs = 2,
    mq_entry = 0, mq_head = None, mq_tail = None, mq_free = Some 1, mq_waiters = [], mq_flag = 0\<rparr>"
proof -
  have a: "mq_align 5 = 8" "mq_slots 24 8 = 2" by (simp_all add: mq_align_def mq_slots_def)
  show ?thesis by (simp add: two_slots_def rt_mq_init_def a mq_add_slot_def upt_rec)
qed

theorem mq_interleaved_witness:
  "\<exists>s1 s2. mq_take_free (fst two_slots) = (Some 1, s1) \<and> rt_mq_send [9] (s1, snd two_slots) = (0, s2) \<and>
     mq_free (fst s2) = None \<and> unat (mq_entry (fst s2)) = 1"
proof -
  obtain s1 where s1: "mq_take_free (fst two_slots) = (Some 1, s1)" "mq_free s1 = Some 0" "mq_next s1 0 = None"
      "mq_msg_size s1 = 8"
    by (simp add: two_slots_mq mq_take_free_def)
  have r1: "mq_reach (s1, snd two_slots) ((\<lambda>_. Outside)(1 := Taken 1 False [7])) []"
    using mq_reach.take_slot[OF two_slots_reach, where t = 1 and b = "[7]" and i = 1 and m = s1 and u = False] s1(1) by (simp add: two_slots_mq)
  obtain s2 where s2: "rt_mq_send [9] (s1, snd two_slots) = (0, s2)" "mq_free (fst s2) = None"
    using s1 by (simp add: rt_mq_send_def mq_post_def mq_take_free_def mq_link_def mq_wake_one_def mq_copy_in_def
        mq_end_msg_def Let_def case_prod_beta split: option.split)
  have "mq_reach s2 ((\<lambda>_. Outside)(1 := Taken 1 False [7])) [[9]]"
    using post_steps[OF r1, of 2 False "[9]" s2] s2(1) by (simp add: rt_mq_send_def)
  from mq_interleaved[OF this] have "unat (mq_entry (fst s2)) = 1" by simp
  with s1(1) s2 show ?thesis by blast
qed

text \<open>The calls that nothing interrupts implement the queue: a send puts the message at the end, an urgent one at the
  front, with the errors for a message longer than a slot and for a queue without a free slot; a receive takes the
  first message, and on an empty queue it returns the timeout or makes the thread wait.\<close>

theorem mq_implements_queue:
  assumes "mq_reach s pl Q" and "pl t = Outside"
  shows "fst (rt_mq_send b s) = (if length b > unat (mq_msg_size (fst s)) then -1
        else if mq_free (fst s) = None then - RT_EFULL else 0) \<and>
    (if fst (rt_mq_send b s) = 0 then mq_reach (snd (rt_mq_send b s)) pl (Q @ [b]) else snd (rt_mq_send b s) = s) \<and>
    (if fst (rt_mq_urgent b s) = 0 then mq_reach (snd (rt_mq_urgent b s)) pl (b # Q) else snd (rt_mq_urgent b s) = s) \<and>
    (case Q of
       [] \<Rightarrow> (if time = 0 then rt_mq_recv t n time s = Some (Return (- RT_ETIMEOUT), None, s)
             else \<exists>s1. rt_mq_recv t n time s = Some (Block, None, s1))
     | c # Q' \<Rightarrow> length c \<le> n \<longrightarrow> (\<exists>out s1. rt_mq_recv t n time s = Some (Return 0, Some out, s1) \<and>
         take (length c) out = c \<and> mq_reach s1 pl Q'))"
proof -
  have "mq_entry (fst s) = 0 \<longleftrightarrow> Q = []" using mq_facts(1)[OF assms(1)] by (auto simp: unat_eq_0)
  then have "case Q of
       [] \<Rightarrow> (if time = 0 then rt_mq_recv t n time s = Some (Return (- RT_ETIMEOUT), None, s)
             else \<exists>s1. rt_mq_recv t n time s = Some (Block, None, s1))
     | c # Q' \<Rightarrow> length c \<le> n \<longrightarrow> (\<exists>out s1. rt_mq_recv t n time s = Some (Return 0, Some out, s1) \<and>
         take (length c) out = c \<and> mq_reach s1 pl Q')"
    using recv_steps[of s pl _ _ t n time] assms
    by (auto simp: rt_mq_recv_def mq_recv_start_def mq_recv_loop_def Let_def case_prod_beta split: list.split)
  then show ?thesis
    using post_steps[OF assms, of False b "snd (mq_post False b s)"] post_steps[OF assms, of True b "snd (mq_post True b s)"]
      post_errors[of False b s] post_errors(2)[of True b s]
    unfolding rt_mq_send_def rt_mq_urgent_def by (auto simp: prod_eq_iff)
qed

theorem mq_implements_queue_witness:
  "fst (rt_mq_send [1, 2] two_slots) = 0 \<and> fst (rt_mq_send (replicate 9 1) two_slots) = -1 \<and>
   rt_mq_recv 1 8 0 two_slots = Some (Return (- RT_ETIMEOUT), None, two_slots)"
  using mq_implements_queue[OF two_slots_reach, where t = 1 and b = "[1, 2]" and time = 0 and n = 8]
    mq_implements_queue[OF two_slots_reach, where t = 1 and b = "replicate 9 1" and time = 0 and n = 8]
  by (simp add: two_slots_mq)

end
