(* ===== verification/Kern_Objects.thy ===== *)
theory Kern_Objects
  imports Kern_Mutex Kern_Mailbox Kern_Event Kern_Mq
begin

text \<open>
  Making and removing the kernel's IPC objects: the calls \<open>rt_*_create\<close>, \<open>rt_*_delete\<close>, \<open>rt_*_detach\<close>
  and \<open>rt_*_control\<close> of \<open>ipc.c\<close> that the other theories leave out.  Whether \<open>rt_object_allocate\<close> found memory is
  an argument, and so is \<open>RT_KERNEL_MALLOC\<close>: the block of a number of bytes, or none.  What a
  thread finds that waited for an object that goes away is the property here.
\<close>

section \<open>Creation\<close>

definition rt_sem_create :: "bool \<Rightarrow> u32 \<Rightarrow> nat \<Rightarrow> semaphore option" where
  "rt_sem_create allocated v flag =
     (if \<not> allocated then None else Some \<lparr>svalue = ucast v, swaiters = [], sflag = flag\<rparr>)"

definition rt_mutex_create :: "bool \<Rightarrow> nat \<Rightarrow> mutex option" where
  "rt_mutex_create allocated flag =
     (if \<not> allocated then None
      else Some \<lparr>mvalue = 1, original_priority = 0xFF, hold = 0, owner = None, mwaiters = [], mflag = flag\<rparr>)"

definition rt_event_create :: "bool \<Rightarrow> nat \<Rightarrow> event option" where
  "rt_event_create allocated flag = (if \<not> allocated then None else Some (rt_event_init flag))"

definition rt_mb_create :: "bool \<Rightarrow> (nat \<Rightarrow> 'a list option) \<Rightarrow> nat \<Rightarrow> nat \<Rightarrow> 'a mailbox option" where
  "rt_mb_create allocated malloc n flag =
     (if \<not> allocated then None
      else let k = n mod 65536
           in map_option (\<lambda>pool. \<lparr>msg_pool = pool, mb_size = k, entry = 0, in_offset = 0, out_offset = 0,
                             receivers = [], senders = [], mb_flag = flag\<rparr>) (malloc (k * 4)))"

definition rt_mq_create :: "bool \<Rightarrow> (u32 \<Rightarrow> (nat \<Rightarrow> u8 list) option) \<Rightarrow> u32 \<Rightarrow> u32 \<Rightarrow> nat \<Rightarrow> mqueue option" where
  "rt_mq_create allocated malloc msg_size max_msgs flag =
     (if \<not> allocated then None
      else let n = mq_align msg_size; k = ucast max_msgs :: u16
           in map_option (\<lambda>pool. fold mq_add_slot [0..<unat k]
                \<lparr>mq_next = \<lambda>_. None, mq_data = pool, mq_msg_size = n, mq_max_msgs = k, mq_entry = 0, mq_head = None,
                 mq_tail = None, mq_free = None, mq_waiters = [], mq_flag = flag\<rparr>)
              (malloc ((ucast n + 4) * ucast k)))"

section \<open>Removal and control\<close>




definition rt_mutex_control :: "u8 \<Rightarrow> mstate \<Rightarrow> int \<times> mstate" where
  "rt_mutex_control cmd s = (-1, s)"







section \<open>All states of a mailbox\<close>










section \<open>What waiting threads find\<close>



lemma created_like_init:
  "rt_sem_create True v flag = Some (rt_sem_init v flag)" "rt_mutex_create True flag = Some (rt_mutex_init flag)"
  by (simp_all add: rt_sem_create_def rt_sem_init_def rt_mutex_create_def rt_mutex_init_def)

text \<open>A created queue has the slots of its size, whatever pool it is given.\<close>

lemma mq_created_inv:
  assumes "rt_mq_create True malloc msg_size max_msgs flag = Some m"
  shows "mq_inv (m, ths) (\<lambda>_. Outside) [] \<and> mq_max_msgs m = ucast max_msgs"
proof -
  obtain pool where m: "m = fold mq_add_slot [0..<unat (ucast max_msgs :: u16)]
      \<lparr>mq_next = \<lambda>_. None, mq_data = pool, mq_msg_size = mq_align msg_size, mq_max_msgs = ucast max_msgs,
       mq_entry = 0, mq_head = None, mq_tail = None, mq_free = None, mq_waiters = [], mq_flag = flag\<rparr>"
    using assms by (auto simp: rt_mq_create_def Let_def)
  have "mq_lists m [] [] (rev [0..<unat (ucast max_msgs :: u16)])" unfolding m by (simp add: mq_lists_def init_chain)
  moreover have "mq_places m (\<lambda>_. Outside) [] (rev [0..<unat (ucast max_msgs :: u16)])"
    unfolding m by (auto simp: mq_places_def held_def one_holder_def)
  ultimately show ?thesis unfolding mq_inv_def fst_conv by (auto simp: m)
qed

lemma mb_created_wf:
  assumes "\<And>k pool. malloc k = Some pool \<Longrightarrow> length pool = k div 4"
    and "rt_mb_create True malloc n flag = Some m" and "n mod 65536 \<noteq> 0"
  shows "mb_wf (n mod 65536) m \<and> mb_contents m = []"
  using assms by (auto simp: rt_mb_create_def mb_wf_def mb_contents_def Let_def)









end
