(* ===== verification/Kern_Timer.thy ===== *)
theory Kern_Timer
  imports Kern
begin

unbundle bit_operations_syntax

text \<open>
  The timers of the kernel (\<open>timer.c\<close>, and the tick of \<open>clock.c\<close>).  There is one row
  (\<open>RT_TIMER_SKIP_LIST_LEVEL\<close> is 1), so the active timers are a list; a timer goes in front of the first one that
  expires later, where later means less than half of the 32-bit range ahead.  There are no soft timers in
  this configuration.  What a timer does when it expires is an argument: it may change anything.
\<close>

record ktimer =
  tflag :: u8
  timeout_tick :: u32
  timer_ticks :: u32

record timers =
  timer_of :: "nat \<Rightarrow> ktimer"
  timer_list :: "nat list"
  rt_tick :: u32

definition RT_TIMER_FLAG_ACTIVATED :: u8 where "RT_TIMER_FLAG_ACTIVATED = 1"
definition RT_TIMER_FLAG_PERIODIC :: u8 where "RT_TIMER_FLAG_PERIODIC = 2"
definition RT_TICK_HALF :: u32 where "RT_TICK_HALF = 0xFFFFFFFF div 2"

abbreviation activated :: "nat \<Rightarrow> timers \<Rightarrow> bool" where
  "activated t s \<equiv> tflag (timer_of s t) AND RT_TIMER_FLAG_ACTIVATED \<noteq> 0"

abbreviation periodic :: "nat \<Rightarrow> timers \<Rightarrow> bool" where
  "periodic t s \<equiv> tflag (timer_of s t) AND RT_TIMER_FLAG_PERIODIC \<noteq> 0"

definition on_timer :: "nat \<Rightarrow> (ktimer \<Rightarrow> ktimer) \<Rightarrow> timers \<Rightarrow> timers" where
  "on_timer t f s = s\<lparr>timer_of := (timer_of s)(t := f (timer_of s t))\<rparr>"

definition clear_activated :: "nat \<Rightarrow> timers \<Rightarrow> timers" where
  "clear_activated t = on_timer t (\<lambda>m. m\<lparr>tflag := tflag m AND NOT RT_TIMER_FLAG_ACTIVATED\<rparr>)"

definition set_activated :: "nat \<Rightarrow> timers \<Rightarrow> timers" where
  "set_activated t = on_timer t (\<lambda>m. m\<lparr>tflag := tflag m OR RT_TIMER_FLAG_ACTIVATED\<rparr>)"

text \<open>\<open>_rt_timer_init\<close> initialises the timer's own list node, which takes it off no list.\<close>

definition rt_timer_init :: "nat \<Rightarrow> u32 \<Rightarrow> u8 \<Rightarrow> timers \<Rightarrow> timers" where
  "rt_timer_init t time flag =
     on_timer t (\<lambda>_. \<lparr>tflag = flag AND NOT RT_TIMER_FLAG_ACTIVATED, timeout_tick = 0, timer_ticks = time\<rparr>)"

definition timer_remove :: "nat \<Rightarrow> timers \<Rightarrow> timers" where
  "timer_remove t s = s\<lparr>timer_list := remove1 t (timer_list s)\<rparr>"

definition rt_timer_detach :: "nat \<Rightarrow> timers \<Rightarrow> int \<times> timers" where
  "rt_timer_detach t s = (0, timer_remove t s)"

fun timer_insert :: "(nat \<Rightarrow> u32) \<Rightarrow> nat \<Rightarrow> nat list \<Rightarrow> nat list" where
  "timer_insert tt t [] = [t]"
| "timer_insert tt t (u # us) =
     (if tt u - tt t = 0 then u # timer_insert tt t us
      else if tt u - tt t < RT_TICK_HALF then t # u # us
      else u # timer_insert tt t us)"

definition timer_link :: "nat \<Rightarrow> timers \<Rightarrow> timers" where
  "timer_link t s = s\<lparr>timer_list := timer_insert (\<lambda>u. timeout_tick (timer_of s u)) t (timer_list s)\<rparr>"

definition rt_timer_start :: "nat \<Rightarrow> timers \<Rightarrow> int \<times> timers" where
  "rt_timer_start t s =
     (let s1 = clear_activated t (timer_remove t s);
          s2 = on_timer t (\<lambda>m. m\<lparr>timeout_tick := rt_tick s1 + timer_ticks m\<rparr>) s1
      in (0, set_activated t (timer_link t s2)))"

definition rt_timer_stop :: "nat \<Rightarrow> timers \<Rightarrow> int \<times> timers" where
  "rt_timer_stop t s =
     (if \<not> activated t s then (-1, s) else (0, clear_activated t (timer_remove t s)))"

datatype timer_cmd = SET_TIME u32 | GET_TIME | SET_ONESHOT | SET_PERIODIC | Other_Cmd

definition rt_timer_control :: "nat \<Rightarrow> timer_cmd \<Rightarrow> timers \<Rightarrow> u32 option \<times> timers" where
  "rt_timer_control t cmd s =
     (case cmd of
        GET_TIME \<Rightarrow> (Some (timer_ticks (timer_of s t)), s)
      | SET_TIME time \<Rightarrow> (None, on_timer t (\<lambda>m. m\<lparr>timer_ticks := time\<rparr>) s)
      | SET_ONESHOT \<Rightarrow> (None, on_timer t (\<lambda>m. m\<lparr>tflag := tflag m AND NOT RT_TIMER_FLAG_PERIODIC\<rparr>) s)
      | SET_PERIODIC \<Rightarrow> (None, on_timer t (\<lambda>m. m\<lparr>tflag := tflag m OR RT_TIMER_FLAG_PERIODIC\<rparr>) s)
      | Other_Cmd \<Rightarrow> (None, s))"

definition rt_timer_next_timeout_tick :: "timers \<Rightarrow> u32" where
  "rt_timer_next_timeout_tick s =
     (case timer_list s of [] \<Rightarrow> 0xFFFFFFFF | t # _ \<Rightarrow> timeout_tick (timer_of s t))"

text \<open>
  \<open>rt_timer_check\<close>.  The state of the rest of the system is beside the timers; \<open>fire t\<close> is the timer's function.
  The loop reads the tick again after each call.
\<close>

definition timer_after_fire :: "nat \<Rightarrow> timers \<Rightarrow> timers" where
  "timer_after_fire t s =
     (if periodic t s \<and> activated t s then snd (rt_timer_start t (clear_activated t s)) else clear_activated t s)"

partial_function (option) timer_check_loop ::
    "(nat \<Rightarrow> timers \<times> 'a \<Rightarrow> (timers \<times> 'a) option) \<Rightarrow> u32 \<Rightarrow> timers \<times> 'a \<Rightarrow> (timers \<times> 'a) option" where
  "timer_check_loop fire now s =
     (case timer_list (fst s) of
        [] \<Rightarrow> Some s
      | t # _ \<Rightarrow>
          if now - timeout_tick (timer_of (fst s) t) < RT_TICK_HALF
          then (case fire t (timer_remove t (fst s), snd s) of
                  None \<Rightarrow> None
                | Some s1 \<Rightarrow> timer_check_loop fire (rt_tick (fst s1)) (timer_after_fire t (fst s1), snd s1))
          else Some s)"

definition rt_timer_check ::
    "(nat \<Rightarrow> timers \<times> 'a \<Rightarrow> (timers \<times> 'a) option) \<Rightarrow> timers \<times> 'a \<Rightarrow> (timers \<times> 'a) option" where
  "rt_timer_check fire s = timer_check_loop fire (rt_tick (fst s)) s"

section \<open>Facts about the operations\<close>

lemma timer_flag_bits [simp]:
  "(f AND NOT RT_TIMER_FLAG_ACTIVATED) AND RT_TIMER_FLAG_ACTIVATED = 0"
  "(f OR RT_TIMER_FLAG_ACTIVATED) AND RT_TIMER_FLAG_ACTIVATED = RT_TIMER_FLAG_ACTIVATED"
  "(f AND NOT RT_TIMER_FLAG_ACTIVATED) AND RT_TIMER_FLAG_PERIODIC = f AND RT_TIMER_FLAG_PERIODIC"
  "(f OR RT_TIMER_FLAG_ACTIVATED) AND RT_TIMER_FLAG_PERIODIC = f AND RT_TIMER_FLAG_PERIODIC"
  by (rule bit_word_eqI, auto simp: bit_simps RT_TIMER_FLAG_ACTIVATED_def RT_TIMER_FLAG_PERIODIC_def)+

lemma timer_flag_not_0 [simp]: "RT_TIMER_FLAG_ACTIVATED \<noteq> 0"
  by (simp add: RT_TIMER_FLAG_ACTIVATED_def)

lemma timer_flag_idem [simp]:
  "(f OR RT_TIMER_FLAG_ACTIVATED) AND NOT RT_TIMER_FLAG_ACTIVATED = f AND NOT RT_TIMER_FLAG_ACTIVATED"
  "(f AND NOT RT_TIMER_FLAG_ACTIVATED) AND NOT RT_TIMER_FLAG_ACTIVATED = f AND NOT RT_TIMER_FLAG_ACTIVATED"
  by (rule bit_word_eqI, use bit_1_iff in \<open>auto simp: bit_simps RT_TIMER_FLAG_ACTIVATED_def\<close>)+

lemma timer_sel [simp]:
  "rt_tick (on_timer t f s) = rt_tick s" "timer_list (on_timer t f s) = timer_list s"
  "timer_of (on_timer t f s) u = (if u = t then f (timer_of s t) else timer_of s u)"
  "rt_tick (clear_activated t s) = rt_tick s" "timer_list (clear_activated t s) = timer_list s"
  "rt_tick (set_activated t s) = rt_tick s" "timer_list (set_activated t s) = timer_list s"
  "rt_tick (timer_remove t s) = rt_tick s" "timer_of (timer_remove t s) = timer_of s"
  "timer_list (timer_remove t s) = remove1 t (timer_list s)"
  "rt_tick (timer_link t s) = rt_tick s" "timer_of (timer_link t s) = timer_of s"
  by (simp_all add: on_timer_def clear_activated_def set_activated_def timer_remove_def timer_link_def)

lemma timer_ticks_sel [simp]:
  "timeout_tick (timer_of (clear_activated t s) u) = timeout_tick (timer_of s u)"
  "timeout_tick (timer_of (set_activated t s) u) = timeout_tick (timer_of s u)"
  "timer_ticks (timer_of (clear_activated t s) u) = timer_ticks (timer_of s u)"
  "timer_ticks (timer_of (set_activated t s) u) = timer_ticks (timer_of s u)"
  "tflag (timer_of (clear_activated t s) u) =
     (if u = t then tflag (timer_of s t) AND NOT RT_TIMER_FLAG_ACTIVATED else tflag (timer_of s u))"
  "tflag (timer_of (set_activated t s) u) =
     (if u = t then tflag (timer_of s t) OR RT_TIMER_FLAG_ACTIVATED else tflag (timer_of s u))"
  by (simp_all add: clear_activated_def set_activated_def)

lemma set_timer_insert [simp]: "set (timer_insert tt t us) = insert t (set us)"
  by (induction us) auto

lemma distinct_timer_insert [simp]: "distinct (timer_insert tt t us) \<longleftrightarrow> t \<notin> set us \<and> distinct us"
  by (induction us) auto

section \<open>Time around the wrap of the tick\<close>

text \<open>How far ahead of a tick a timer expires.\<close>

definition ahead :: "u32 \<Rightarrow> timers \<Rightarrow> nat \<Rightarrow> nat" where
  "ahead now s t = unat (timeout_tick (timer_of s t) - now)"

lemma ahead_start: "unat (now + n - now :: u32) = unat n"
  by simp

lemma unat_sub_cases: "unat (a - b) = (if unat b \<le> unat a then unat a - unat b else unat a + 4294967296 - unat b)"
  for a b :: u32
proof -
  have "unat b < 4294967296" using unsigned_less[of b, where ?'a = nat] by simp
  then show ?thesis by (simp add: unat_sub_if_size word_size)
qed

lemma unat_minus_cases: "unat (- k) = (if unat k = 0 then 0 else 4294967296 - unat k)" for k :: u32
  using unat_sub_cases[of 0 k] by (auto simp: unat_eq_0)

lemma not_due_yet: "0 < unat k \<Longrightarrow> unat k < unat RT_TICK_HALF \<Longrightarrow> \<not> - k < RT_TICK_HALF" for k :: u32
  by (simp add: RT_TICK_HALF_def word_less_nat_alt unat_minus_cases)

lemma due_now: "unat k \<le> 1 \<Longrightarrow> k < RT_TICK_HALF" for k :: u32
  by (simp add: RT_TICK_HALF_def word_less_nat_alt)

lemma later_word:
  "unat a < unat RT_TICK_HALF \<Longrightarrow> unat b < unat RT_TICK_HALF \<Longrightarrow>
   (a - b \<noteq> 0 \<and> a - b < RT_TICK_HALF) = (unat b < unat a)" for a b :: u32
  by (auto simp: RT_TICK_HALF_def word_less_nat_alt unat_sub_cases word_unat_eq_iff)

lemma earlier_word:
  "unat a \<le> 1 \<Longrightarrow> 0 < unat b \<Longrightarrow> unat b < unat RT_TICK_HALF \<Longrightarrow> \<not> - a - b < RT_TICK_HALF" for a b :: u32
  by (auto simp: RT_TICK_HALF_def word_less_nat_alt unat_sub_cases unat_minus_cases)

section \<open>The list of active timers\<close>

text \<open>
  Between the ticks the list is in the order of the time left, and the timers on it are activated; a detached timer keeps
  its flag.  The code asserts the bound of the time in \<open>rt_timer_start\<close>.
\<close>

definition timer_order :: "u32 \<Rightarrow> timers \<Rightarrow> nat list \<Rightarrow> bool" where
  "timer_order now s ts \<longleftrightarrow> sorted (map (ahead now s) ts) \<and> (\<forall>t \<in> set ts. ahead now s t < unat RT_TICK_HALF)"

definition timer_inv :: "timers \<Rightarrow> bool" where
  "timer_inv s \<longleftrightarrow> distinct (timer_list s) \<and> (\<forall>t \<in> set (timer_list s). activated t s) \<and>
     timer_order (rt_tick s) s (timer_list s)"

lemma later_ahead:
  assumes "ahead now s t < unat RT_TICK_HALF" and "ahead now s u < unat RT_TICK_HALF"
  shows "(timeout_tick (timer_of s u) - timeout_tick (timer_of s t) \<noteq> 0 \<and>
     timeout_tick (timer_of s u) - timeout_tick (timer_of s t) < RT_TICK_HALF) = (ahead now s t < ahead now s u)"
  using later_word[of "timeout_tick (timer_of s u) - now" "timeout_tick (timer_of s t) - now"] assms
  by (simp add: ahead_def)

text \<open>So a timer is inserted like a thread into a list ordered by priority.\<close>

lemma insert_ordered:
  assumes "\<forall>u \<in> insert t (set us). ahead now s u < unat RT_TICK_HALF"
  shows "timer_insert (\<lambda>u. timeout_tick (timer_of s u)) t us = prio_insert (ahead now s) t us"
  using assms
proof (induction us)
  case (Cons u us)
  then show ?case using later_ahead[of now s t u] by auto
qed simp

lemma order_insert:
  assumes "timer_order now s us" and "ahead now s t < unat RT_TICK_HALF"
  shows "timer_order now s (timer_insert (\<lambda>u. timeout_tick (timer_of s u)) t us)"
  using prio_insert_sorted[of "ahead now s" us t] insert_ordered[of t us now s] assms
  by (auto simp: timer_order_def prio_sorted_def)

lemma order_remove: "timer_order now s us \<Longrightarrow> timer_order now s (remove1 t us)"
  by (auto simp: timer_order_def sorted_map_remove1 dest: notin_set_remove1)

text \<open>Only the timers on the list count.\<close>

lemma order_cong:
  assumes "\<forall>t \<in> set us. timeout_tick (timer_of s1 t) = timeout_tick (timer_of s t)"
  shows "timer_order now s1 us = timer_order now s us"
proof -
  have a: "\<forall>t \<in> set us. ahead now s1 t = ahead now s t" using assms by (auto simp: ahead_def)
  then have "map (ahead now s1) us = map (ahead now s) us" by simp
  then show ?thesis using a by (simp only: timer_order_def)  simp
qed

lemma timer_link_order:
  assumes "timer_order now s (timer_list s)" and "ahead now s t < unat RT_TICK_HALF"
  shows "timer_order now (timer_link t s) (timer_list (timer_link t s))"
proof -
  have "timer_list (timer_link t s) = timer_insert (\<lambda>u. timeout_tick (timer_of s u)) t (timer_list s)"
    by (simp add: timer_link_def)
  then show ?thesis using order_insert[OF assms] by (simp add: order_cong[of _ "timer_link t s" s])
qed

lemma start_result:
  "timer_list (snd (rt_timer_start t s)) = timer_insert (\<lambda>u. if u = t then rt_tick s + timer_ticks (timer_of s t)
       else timeout_tick (timer_of s u)) t (remove1 t (timer_list s))"
  "timeout_tick (timer_of (snd (rt_timer_start t s)) u) =
     (if u = t then rt_tick s + timer_ticks (timer_of s t) else timeout_tick (timer_of s u))"
  "tflag (timer_of (snd (rt_timer_start t s)) u) =
     (if u = t then (tflag (timer_of s t) AND NOT RT_TIMER_FLAG_ACTIVATED) OR RT_TIMER_FLAG_ACTIVATED
      else tflag (timer_of s u))"
  "timer_ticks (timer_of (snd (rt_timer_start t s)) u) = timer_ticks (timer_of s u)"
  "rt_tick (snd (rt_timer_start t s)) = rt_tick s"
  by (simp_all add: rt_timer_start_def Let_def) (simp add: timer_link_def if_distrib cong: if_cong)

lemma start_inv:
  assumes "timer_inv s" and "timer_ticks (timer_of s t) < RT_TICK_HALF"
  shows "timer_inv (snd (rt_timer_start t s))"
proof -
  let ?s1 = "snd (rt_timer_start t s)"
  let ?tt = "\<lambda>u. timeout_tick (timer_of ?s1 u)"
  have l: "timer_list ?s1 = timer_insert ?tt t (remove1 t (timer_list s))" by (simp add: start_result)
  have "timer_order (rt_tick s) s (remove1 t (timer_list s))"
    using assms(1) by (simp add: timer_inv_def order_remove)
  moreover have "\<forall>u \<in> set (remove1 t (timer_list s)). ?tt u = timeout_tick (timer_of s u)"
    using assms(1) by (auto simp: start_result timer_inv_def)
  ultimately have "timer_order (rt_tick s) ?s1 (remove1 t (timer_list s))" by (simp add: order_cong[of _ ?s1 s])
  moreover have "ahead (rt_tick s) ?s1 t < unat RT_TICK_HALF"
    using assms(2) by (simp add: ahead_def start_result word_less_nat_alt)
  ultimately have "timer_order (rt_tick ?s1) ?s1 (timer_list ?s1)"
    unfolding l start_result(5) by (rule order_insert)
  then show ?thesis using assms(1) by (auto simp: timer_inv_def l start_result(3))
qed

lemma stop_inv: "timer_inv s \<Longrightarrow> timer_inv (snd (rt_timer_stop t s))"
proof -
  assume i: "timer_inv s"
  have "timer_order (rt_tick s) (clear_activated t (timer_remove t s)) (remove1 t (timer_list s))"
    using i order_remove by (auto simp: timer_inv_def order_cong[of _ "clear_activated t (timer_remove t s)" s])
  then show ?thesis using i by (auto simp: timer_inv_def rt_timer_stop_def)
qed

section \<open>The check\<close>

lemma insert_behind:
  "\<forall>u \<in> set ds. \<not> tt u - tt t < RT_TICK_HALF \<Longrightarrow> timer_insert tt t (ds @ ns) = ds @ timer_insert tt t ns"
  by (induction ds) auto

text \<open>
  The list in the loop: \<open>ds\<close> are the timers that are due, by at most one tick, \<open>ns\<close> the others.
\<close>

definition check_state :: "timers \<Rightarrow> nat list \<Rightarrow> nat list \<Rightarrow> bool" where
  "check_state s ds ns \<longleftrightarrow>
     timer_list s = ds @ ns \<and> distinct (ds @ ns) \<and> (\<forall>t \<in> set (ds @ ns). activated t s) \<and>
     (\<forall>t \<in> set ds. unat (rt_tick s - timeout_tick (timer_of s t)) \<le> 1) \<and>
     timer_order (rt_tick s) s ns \<and> (\<forall>t \<in> set ns. 0 < ahead (rt_tick s) s t) \<and>
     (\<forall>t \<in> set ds. periodic t s \<longrightarrow> 0 < timer_ticks (timer_of s t) \<and> timer_ticks (timer_of s t) < RT_TICK_HALF)"

lemma check_oneshot:
  assumes c: "check_state s (t # ds) ns" and p: "\<not> periodic t s"
  shows "check_state (clear_activated t (timer_remove t s)) ds ns"
proof -
  have "timer_order (rt_tick s) (clear_activated t (timer_remove t s)) ns"
    using c by (simp add: check_state_def order_cong[of _ "clear_activated t (timer_remove t s)" s])
  then show ?thesis using c by (auto simp: check_state_def ahead_def)
qed

lemma check_periodic:
  assumes c: "check_state s (t # ds) ns" and p: "periodic t s"
  defines "s1 \<equiv> snd (rt_timer_start t (clear_activated t (timer_remove t s)))"
  shows "check_state s1 ds (timer_insert (\<lambda>u. timeout_tick (timer_of s1 u)) t ns)"
proof -
  let ?tt = "\<lambda>u. timeout_tick (timer_of s1 u)"
  have n: "0 < unat (timer_ticks (timer_of s t))" "unat (timer_ticks (timer_of s t)) < unat RT_TICK_HALF"
    using c p by (auto simp: check_state_def word_less_nat_alt)
  have t: "t \<notin> set (ds @ ns)" "remove1 t (timer_list s) = ds @ ns" "distinct (ds @ ns)"
    using c by (auto simp: check_state_def)
  have tt: "?tt u = (if u = t then rt_tick s + timer_ticks (timer_of s t) else timeout_tick (timer_of s u))" for u
    by (simp add: s1_def start_result)
  have "\<not> ?tt u - ?tt t < RT_TICK_HALF" if "u \<in> set ds" for u
  proof -
    have "u \<noteq> t" "unat (rt_tick s - timeout_tick (timer_of s u)) \<le> 1" using c that by (auto simp: check_state_def)
    then show ?thesis using earlier_word[of "rt_tick s - timeout_tick (timer_of s u)" "timer_ticks (timer_of s t)"] n
      by (simp add: tt algebra_simps)
  qed
  then have l: "timer_list s1 = ds @ timer_insert ?tt t ns"
    using t insert_behind[of ds ?tt t ns] by (simp add: s1_def start_result tt remove1_idem)
  have "\<forall>u \<in> set ns. ?tt u = timeout_tick (timer_of s u)" using t(1) by (auto simp: tt)
  then have "timer_order (rt_tick s) s1 ns" using c by (simp add: order_cong[of _ s1 s] check_state_def)
  then have o: "timer_order (rt_tick s) s1 (timer_insert ?tt t ns)"
    using n(2) by (intro order_insert) (simp_all add: ahead_def tt)
  have a: "ahead (rt_tick s) s1 u = (if u = t then unat (timer_ticks (timer_of s t)) else ahead (rt_tick s) s u)" for u
    by (simp add: ahead_def tt)
  show ?thesis using c o l n t a
    by (auto simp: check_state_def s1_def start_result)
qed

lemma check_loop:
  assumes fire: "\<And>t ts T x. P (t # ts) x \<Longrightarrow> fire t (T, x) = Some (T, f t x) \<and> P ts (f t x)"
    and "check_state s ds ns" and "P ds x"
  shows "\<exists>s1. timer_check_loop fire (rt_tick s) (s, x) = Some (s1, fold f ds x) \<and> P [] (fold f ds x) \<and>
    check_state s1 [] (timer_list s1) \<and> rt_tick s1 = rt_tick s \<and> (\<forall>t. periodic t s1 = periodic t s) \<and>
    (\<forall>t \<in> set ds. \<not> periodic t s \<longrightarrow> \<not> activated t s1) \<and> (\<forall>t. t \<in> set (timer_list s1) \<longleftrightarrow> t \<in> set ns \<or> t \<in> set ds \<and> periodic t s) \<and>
    (\<forall>t. t \<notin> set ds \<longrightarrow> timer_of s1 t = timer_of s t) \<and>
    (\<forall>t \<in> set ds. periodic t s \<longrightarrow> timeout_tick (timer_of s1 t) = rt_tick s + timer_ticks (timer_of s t))"
  using assms(2,3)
proof (induction ds arbitrary: s ns x)
  case Nil
  then have l: "timer_list s = ns" by (simp add: check_state_def)
  have "\<not> rt_tick s - timeout_tick (timer_of s t) < RT_TICK_HALF" if "ns = t # ts" for t ts
    using Nil not_due_yet[of "timeout_tick (timer_of s t) - rt_tick s"] that
    by (auto simp: check_state_def timer_order_def ahead_def)
  then have "timer_check_loop fire (rt_tick s) (s, x) = Some (s, x)"
    by (subst timer_check_loop.simps) (auto simp: l split: list.split)
  then show ?case using Nil l by auto
next
  case (Cons t ds)
  have h: "timer_list s = t # ds @ ns" "activated t s" "t \<notin> set ds" "t \<notin> set ns"
      "rt_tick s - timeout_tick (timer_of s t) < RT_TICK_HALF"
    using Cons.prems due_now by (auto simp: check_state_def)
  let ?s = "timer_after_fire t (timer_remove t s)"
  have k: "rt_tick ?s = rt_tick s" "\<And>u. u \<noteq> t \<Longrightarrow> timer_of ?s u = timer_of s u"
    by (auto simp: timer_after_fire_def rt_timer_start_def Let_def clear_activated_def set_activated_def)
  have ne: "u \<noteq> t" if "u \<in> set ds" for u using h(3) that by auto
  have kd: "\<forall>u \<in> set ds. timer_of ?s u = timer_of s u" "\<forall>u. u \<notin> set (t # ds) \<longrightarrow> timer_of ?s u = timer_of s u"
    using ne by (auto intro: k(2))
  have kp: "periodic u ?s = periodic u s" for u
    by (simp add: timer_after_fire_def rt_timer_start_def Let_def clear_activated_def set_activated_def)
  have loop: "timer_check_loop fire (rt_tick s) (s, x) = timer_check_loop fire (rt_tick ?s) (?s, f t x)"
    using h k(1) fire[OF Cons.prems(2)] by (subst timer_check_loop.simps) simp
  have p: "P ds (f t x)" using fire[OF Cons.prems(2)] by blast
  show ?case
  proof (cases "periodic t s")
    case True
    then have s: "?s = snd (rt_timer_start t (clear_activated t (timer_remove t s)))"
      using h(2) by (simp add: timer_after_fire_def)
    from Cons.IH[OF check_periodic[OF Cons.prems(1) True, folded s] p] obtain s1 where s1:
        "timer_check_loop fire (rt_tick ?s) (?s, f t x) = Some (s1, fold f ds (f t x))"
        "check_state s1 [] (timer_list s1)" "rt_tick s1 = rt_tick ?s" "P [] (fold f ds (f t x))" "\<forall>u. periodic u s1 = periodic u ?s"
        "\<forall>u \<in> set ds. \<not> periodic u ?s \<longrightarrow> \<not> activated u s1"
        "\<forall>u. u \<in> set (timer_list s1) \<longleftrightarrow> u = t \<or> u \<in> set ns \<or> u \<in> set ds \<and> periodic u ?s"
        "\<forall>u. u \<notin> set ds \<longrightarrow> timer_of s1 u = timer_of ?s u"
        "\<forall>u \<in> set ds. periodic u ?s \<longrightarrow> timeout_tick (timer_of s1 u) = rt_tick ?s + timer_ticks (timer_of ?s u)"
      by auto
    have "timeout_tick (timer_of s1 t) = rt_tick s + timer_ticks (timer_of s t)"
      using s1(8) h(3) by (simp add: s start_result)
    then show ?thesis using s1 loop h k(1) kd kp True by (intro exI[of _ s1]) auto
  next
    case False
    then have s: "?s = clear_activated t (timer_remove t s)" by (simp add: timer_after_fire_def)
    from Cons.IH[OF check_oneshot[OF Cons.prems(1) False, folded s] p] obtain s1 where s1:
        "timer_check_loop fire (rt_tick ?s) (?s, f t x) = Some (s1, fold f ds (f t x))"
        "check_state s1 [] (timer_list s1)" "rt_tick s1 = rt_tick ?s" "P [] (fold f ds (f t x))" "\<forall>u. periodic u s1 = periodic u ?s"
        "\<forall>u \<in> set ds. \<not> periodic u ?s \<longrightarrow> \<not> activated u s1"
        "\<forall>u. u \<in> set (timer_list s1) \<longleftrightarrow> u \<in> set ns \<or> u \<in> set ds \<and> periodic u ?s"
        "\<forall>u. u \<notin> set ds \<longrightarrow> timer_of s1 u = timer_of ?s u"
        "\<forall>u \<in> set ds. periodic u ?s \<longrightarrow> timeout_tick (timer_of s1 u) = rt_tick ?s + timer_ticks (timer_of ?s u)"
      by auto
    moreover have "\<not> activated t s1" using s1(8) h(3) by (simp add: s)
    ultimately show ?thesis using loop h k(1) kd kp False by (intro exI[of _ s1]) auto
  qed
qed

definition tick_forward :: "timers \<Rightarrow> timers" where
  "tick_forward s = s\<lparr>rt_tick := rt_tick s + 1\<rparr>"

text \<open>The timers that the next tick makes due.\<close>

definition next_due :: "timers \<Rightarrow> nat list" where
  "next_due s = filter (\<lambda>t. ahead (rt_tick s) s t \<le> 1) (timer_list s)"

definition periods_ok :: "timers \<Rightarrow> bool" where
  "periods_ok s \<longleftrightarrow>
     (\<forall>t \<in> set (timer_list s). periodic t s \<longrightarrow> 0 < timer_ticks (timer_of s t) \<and> timer_ticks (timer_of s t) < RT_TICK_HALF)"

lemma sorted_split:
  "sorted (map f ts) \<Longrightarrow> ts = filter (\<lambda>t. f t \<le> n) ts @ filter (\<lambda>t. \<not> f t \<le> n) ts" for f :: "'b \<Rightarrow> nat"
proof (induction ts)
  case (Cons t ts)
  show ?case
  proof (cases "f t \<le> n")
    case False
    then have "\<forall>u \<in> set ts. \<not> f u \<le> n" using Cons.prems by fastforce
    then show ?thesis using False by (simp add: filter_False filter_True)
  qed (use Cons in simp)
qed simp

lemma ahead_forward:
  "ahead (rt_tick s + 1) s t = (if ahead (rt_tick s) s t = 0 then 4294967295 else ahead (rt_tick s) s t - 1)"
  using unat_sub_cases[of "timeout_tick (timer_of s t) - rt_tick s" 1] by (auto simp: ahead_def algebra_simps)

lemma forward_state:
  assumes i: "timer_inv s" and p: "periods_ok s"
  shows "check_state (tick_forward s) (next_due s) (filter (\<lambda>t. \<not> ahead (rt_tick s) s t \<le> 1) (timer_list s))"
proof -
  let ?ns = "filter (\<lambda>t. \<not> ahead (rt_tick s) s t \<le> 1) (timer_list s)"
  have o: "sorted (map (ahead (rt_tick s) s) (timer_list s))"
      "\<forall>t \<in> set (timer_list s). ahead (rt_tick s) s t < unat RT_TICK_HALF"
    using i by (simp_all add: timer_inv_def timer_order_def)
  then have l: "timer_list s = next_due s @ ?ns" unfolding next_due_def by (intro sorted_split)
  have f: "ahead n (tick_forward s) = ahead n s" for n
    by (simp add: ahead_def tick_forward_def fun_eq_iff)
  have a: "ahead (rt_tick s + 1) s t = ahead (rt_tick s) s t - 1" if "t \<in> set ?ns" for t
    using that by (simp add: ahead_forward)
  have "sorted (map (ahead (rt_tick s) s) ?ns)" using o(1) l by (metis map_append sorted_append)
  then have "sorted (map (\<lambda>t. ahead (rt_tick s) s t - 1) ?ns)"
    by (auto simp: sorted_iff_nth_mono intro: diff_le_mono)
  moreover have "map (ahead (rt_tick s + 1) s) ?ns = map (\<lambda>t. ahead (rt_tick s) s t - 1) ?ns"
    by (rule map_cong) (use a in auto)
  ultimately have "sorted (map (ahead (rt_tick s + 1) s) ?ns)" by (simp only:)
  then have "timer_order (rt_tick s + 1) (tick_forward s) ?ns"
    using o(2) a by (auto simp: timer_order_def f)
  moreover have "unat (rt_tick s + 1 - timeout_tick (timer_of s t)) \<le> 1" if "ahead (rt_tick s) s t \<le> 1" for t
    using that unat_sub_cases[of 1 "timeout_tick (timer_of s t) - rt_tick s"] by (auto simp: ahead_def algebra_simps)
  ultimately show ?thesis using i p l a
    by (auto simp: check_state_def timer_inv_def periods_ok_def next_due_def tick_forward_def f ahead_def)
qed

lemma tick_fires:
  assumes "timer_inv s" and "periods_ok s" and "P (next_due s) x"
    and "\<And>t ts T x. P (t # ts) x \<Longrightarrow> fire t (T, x) = Some (T, f t x) \<and> P ts (f t x)"
  shows "\<exists>s1. rt_timer_check fire (tick_forward s, x) = Some (s1, fold f (next_due s) x) \<and>
    P [] (fold f (next_due s) x) \<and> timer_inv s1 \<and> rt_tick s1 = rt_tick s + 1 \<and>
    (\<forall>t. t \<in> set (timer_list s1) \<longleftrightarrow> t \<in> set (timer_list s) \<and> (t \<notin> set (next_due s) \<or> periodic t s)) \<and>
    (\<forall>t. t \<notin> set (next_due s) \<longrightarrow> timer_of s1 t = timer_of s t) \<and>
    (\<forall>t \<in> set (next_due s). if periodic t s then timeout_tick (timer_of s1 t) = rt_tick s1 + timer_ticks (timer_of s t)
       else \<not> activated t s1) \<and>
    (\<forall>t \<in> set (timer_list s1). \<not> rt_tick s1 - timeout_tick (timer_of s1 t) < RT_TICK_HALF) \<and>
    (\<forall>t. periodic t s1 = periodic t s)"
proof -
  have sets: "set (filter (\<lambda>t. \<not> ahead (rt_tick s) s t \<le> 1) (timer_list s)) = set (timer_list s) - set (next_due s)"
      "set (next_due s) \<subseteq> set (timer_list s)"
    by (auto simp: next_due_def)
  have sel: "timer_of (tick_forward s) = timer_of s" by (simp add: tick_forward_def)
  from check_loop[of P fire f, OF assms(4) forward_state[OF assms(1,2)] assms(3)]
  obtain s1 where s1: "rt_timer_check fire (tick_forward s, x) = Some (s1, fold f (next_due s) x)"
      "check_state s1 [] (timer_list s1)" "rt_tick s1 = rt_tick (tick_forward s)"
      "\<forall>t. t \<in> set (timer_list s1) \<longleftrightarrow> t \<in> set (timer_list s) - set (next_due s) \<or> t \<in> set (next_due s) \<and> periodic t s"
      "\<forall>t. t \<notin> set (next_due s) \<longrightarrow> timer_of s1 t = timer_of s t"
      "\<forall>t \<in> set (next_due s). periodic t s \<longrightarrow>
         timeout_tick (timer_of s1 t) = rt_tick (tick_forward s) + timer_ticks (timer_of s t)"
      "\<forall>t \<in> set (next_due s). \<not> periodic t s \<longrightarrow> \<not> activated t s1" "P [] (fold f (next_due s) x)"
      "\<forall>t. periodic t s1 = periodic t s"
    unfolding rt_timer_check_def fst_conv sets(1) sel by blast
  have l: "t \<in> set (timer_list s1) \<longleftrightarrow> t \<in> set (timer_list s) \<and> (t \<notin> set (next_due s) \<or> periodic t s)" for t
    using s1(4) sets(2) by blast
  have i1: "timer_inv s1" using s1(2) by (auto simp: check_state_def timer_inv_def)
  moreover have "\<not> rt_tick s1 - timeout_tick (timer_of s1 t) < RT_TICK_HALF" if "t \<in> set (timer_list s1)" for t
  proof -
    have "0 < ahead (rt_tick s1) s1 t" "ahead (rt_tick s1) s1 t < unat RT_TICK_HALF"
      using s1(2) that by (auto simp: check_state_def timer_order_def)
    then show ?thesis using not_due_yet[of "timeout_tick (timer_of s1 t) - rt_tick s1"] by (simp add: ahead_def)
  qed
  moreover have "rt_tick s1 = rt_tick s + 1" using s1(3) by (simp add: tick_forward_def)
  ultimately show ?thesis using s1(1,3,5-9) l by (intro exI[of _ s1]) simp
qed

text \<open>C17: A tick of the clock runs the functions of the timers that are due, in the order of their time, and of no others,
  also where the tick wraps around; a periodic timer is started again a period later, the other due
  timers are deactivated, the rest is not touched, and no active timer is left due.  The functions may change the rest of
  the system, as long as they leave the timers alone: \<open>P ts x\<close> is what the functions of the timers \<open>ts\<close> need of it.\<close>

theorem tick_fires_due:
  assumes "timer_inv s" and "periods_ok s" and "P (next_due s) x"
    and "\<And>t ts T x. P (t # ts) x \<Longrightarrow> fire t (T, x) = Some (T, f t x) \<and> P ts (f t x)"
  shows "\<exists>s1. rt_timer_check fire (tick_forward s, x) = Some (s1, fold f (next_due s) x) \<and>
    P [] (fold f (next_due s) x) \<and> timer_inv s1 \<and> rt_tick s1 = rt_tick s + 1 \<and>
    (\<forall>t. t \<in> set (timer_list s1) \<longleftrightarrow> t \<in> set (timer_list s) \<and> (t \<notin> set (next_due s) \<or> periodic t s)) \<and>
    (\<forall>t. t \<notin> set (next_due s) \<longrightarrow> timer_of s1 t = timer_of s t) \<and>
    (\<forall>t \<in> set (next_due s). if periodic t s then timeout_tick (timer_of s1 t) = rt_tick s1 + timer_ticks (timer_of s t)
       else \<not> activated t s1) \<and>
    (\<forall>t \<in> set (timer_list s1). \<not> rt_tick s1 - timeout_tick (timer_of s1 t) < RT_TICK_HALF)"
proof -
  from tick_fires[of s P x fire f, OF assms] show ?thesis by blast
qed

text \<open>Two timers around the wrap of the tick: 3 expires at the next tick, which is 0, timer 5 is periodic and due there too.\<close>

definition wrap_timers :: timers where
  "wrap_timers =
     \<lparr>timer_of = (\<lambda>_. \<lparr>tflag = 0, timeout_tick = 0, timer_ticks = 0\<rparr>)
        (3 := \<lparr>tflag = 1, timeout_tick = 0, timer_ticks = 7\<rparr>, 5 := \<lparr>tflag = 3, timeout_tick = 0, timer_ticks = 10\<rparr>),
      timer_list = [3, 5], rt_tick = 0xFFFFFFFF\<rparr>"

lemma one_element:
  assumes "distinct xs" and "set xs = {a}"
  shows "xs = [a]"
proof (cases xs)
  case (Cons b ys)
  then have "b = a" "set ys \<subseteq> {a}" "a \<notin> set ys" using assms by auto
  then show ?thesis using Cons by (cases ys) auto
qed (use assms in simp)

theorem tick_fires_due_witness:
  "\<exists>s1. rt_timer_check (\<lambda>t (T, x). Some (T, x @ [t])) (tick_forward wrap_timers, []) = Some (s1, [3, 5]) \<and>
     \<not> activated 3 s1 \<and> timer_list s1 = [5] \<and> timeout_tick (timer_of s1 5) = 10"
proof -
  have d: "next_due wrap_timers = [3, 5]" by (simp add: next_due_def wrap_timers_def ahead_def)
  have i: "timer_inv wrap_timers" "periods_ok wrap_timers"
    by (auto simp: timer_inv_def timer_order_def periods_ok_def wrap_timers_def ahead_def RT_TIMER_FLAG_ACTIVATED_def
        RT_TIMER_FLAG_PERIODIC_def RT_TICK_HALF_def)
  have p: "\<not> periodic 3 wrap_timers" "periodic 5 wrap_timers" "timer_list wrap_timers = [3, 5]"
      "timer_ticks (timer_of wrap_timers 5) = 10" "rt_tick wrap_timers + 1 = 0"
    by (simp_all add: wrap_timers_def RT_TIMER_FLAG_PERIODIC_def)
  let ?fire = "\<lambda>t (T, x). Some (T, x @ [t])" and ?f = "\<lambda>t x. x @ [t]" and ?P = "\<lambda>_ _. True"
  have f: "?fire t (T, x) = Some (T, ?f t x) \<and> True" for t x and T :: timers by simp
  from tick_fires_due[of wrap_timers ?P "[]" ?fire ?f, OF i TrueI f] obtain s1 where
      "rt_timer_check ?fire (tick_forward wrap_timers, []) = Some (s1, fold ?f (next_due wrap_timers) [])"
      "timer_inv s1" "rt_tick s1 = rt_tick wrap_timers + 1"
      "\<forall>t. t \<in> set (timer_list s1) \<longleftrightarrow>
         t \<in> set (timer_list wrap_timers) \<and> (t \<notin> set (next_due wrap_timers) \<or> periodic t wrap_timers)"
      "\<forall>t \<in> set (next_due wrap_timers). if periodic t wrap_timers
         then timeout_tick (timer_of s1 t) = rt_tick s1 + timer_ticks (timer_of wrap_timers t) else \<not> activated t s1"
    by (elim exE conjE) (rule that, assumption+)
  note s1 = this[unfolded d p(3)]
  have "distinct (timer_list s1)" using s1(2) by (simp add: timer_inv_def)
  moreover have "t \<in> set (timer_list s1) \<longleftrightarrow> t = 5" for t
    using spec[OF s1(4), of t] p(1,2) by (cases "t = 3"; cases "t = 5") simp_all
  then have "set (timer_list s1) = {5}" by blast
  ultimately have "timer_list s1 = [5]" by (rule one_element)
  moreover have "\<not> activated 3 s1" "timeout_tick (timer_of s1 5) = 10"
    using bspec[OF s1(5), of 3] bspec[OF s1(5), of 5] s1(3) p(1,2,4,5) by simp_all
  ultimately show ?thesis using s1(1) by auto
qed

text \<open>
  A periodic timer with the period 0 is due again each time it is started again: the check in the clock interrupt
  never returns.
\<close>

lemma zero_period_hangs:
  assumes "timer_list s = [t]" and "activated t s" and "periodic t s" and "timer_ticks (timer_of s t) = 0"
    and "timeout_tick (timer_of s t) = rt_tick s"
  shows "rt_timer_check (\<lambda>_. Some) (s, x) = None"
proof -
  have again: "timer_after_fire t (timer_remove t s) = s"
  proof -
    have "bit (tflag (timer_of s t)) 0"
      using assms(2) by (simp add: RT_TIMER_FLAG_ACTIVATED_def and_one_eq bit_0 odd_iff_mod_2_eq_one)
    then have f: "(tflag (timer_of s t) AND NOT RT_TIMER_FLAG_ACTIVATED) OR RT_TIMER_FLAG_ACTIVATED = tflag (timer_of s t)"
      by (intro bit_word_eqI) (auto simp: bit_simps RT_TIMER_FLAG_ACTIVATED_def)
    show ?thesis using assms f
      by (simp add: timer_after_fire_def rt_timer_start_def Let_def)
        (simp add: on_timer_def clear_activated_def set_activated_def timer_remove_def timer_link_def fun_upd_idem)
  qed
  have "fire = (\<lambda>_. Some) \<longrightarrow> st = (s, x) \<longrightarrow> now = rt_tick s \<longrightarrow> False"
    if "timer_check_loop fire now st = Some y" for fire now st y
    using _ that
  proof (rule timer_check_loop.raw_induct)
    fix loop fire now st y
    assume h: "\<And>fire now st y. loop fire now st = Some y \<Longrightarrow>
          fire = (\<lambda>_. Some) \<longrightarrow> st = (s, x) \<longrightarrow> now = rt_tick s \<longrightarrow> False"
      and b: "(case timer_list (fst st) of [] \<Rightarrow> Some st
        | t # xs \<Rightarrow> if now - timeout_tick (timer_of (fst st) t) < RT_TICK_HALF
             then case fire t (timer_remove t (fst st), snd st) of None \<Rightarrow> None
               | Some s1 \<Rightarrow> loop fire (rt_tick (fst s1)) (timer_after_fire t (fst s1), snd s1)
             else Some st) = Some y"
    show "fire = (\<lambda>_. Some) \<longrightarrow> st = (s, x) \<longrightarrow> now = rt_tick s \<longrightarrow> False"
      using h[of fire now st y] b assms again by (auto simp: RT_TICK_HALF_def)
  qed
  then have "timer_check_loop (\<lambda>_. Some) (rt_tick s) (s, x) \<noteq> Some y" for y by blast
  then have "timer_check_loop (\<lambda>_. Some) (rt_tick s) (s, x) = None" by (metis not_Some_eq)
  then show ?thesis by (simp add: rt_timer_check_def)
qed

end
