(* ===== verification/Kern_Sched.thy ===== *)
theory Kern_Sched
  imports Kern_Timer
begin

unbundle bit_operations_syntax

text \<open>
  The scheduler (\<open>scheduler.c\<close>, \<open>__rt_ffs\<close> of \<open>kservice.c\<close>), the threads (\<open>thread.c\<close>, the reaping of dead ones in
  \<open>idle.c\<close>) and the tick of the clock (\<open>clock.c\<close>).  Ready threads stand in one list per priority, and a word has a
  bit for every priority with a ready thread.  A thread is known by a number; number 0 is the idle thread, and timer \<open>t\<close>
  is the built-in timer of thread \<open>t\<close>.  Stacks and the switch of the context are not modelled: \<open>rt_schedule\<close>
  sets the current thread.  An access outside of the table of lists is \<open>None\<close>.
\<close>

datatype tstat = RT_THREAD_INIT | RT_THREAD_READY | RT_THREAD_SUSPEND | RT_THREAD_CLOSE

record sthread =
  stat :: tstat
  cur_prio :: u8
  init_prio :: u8
  number_mask :: u32
  slice_ticks :: u32
  remaining_tick :: u32
  serror :: int
  has_cleanup :: bool
  is_system :: bool

record sched =
  sthr :: "nat \<Rightarrow> sthread"
  priority_table :: "nat \<Rightarrow> nat list"
  ready_group :: u32
  current_thread :: "nat option"
  rt_current_priority :: u8
  lock_nest :: "16 word"
  defunct :: "nat list"

type_synonym kernel = "timers \<times> sched"

abbreviation prio_of :: "sched \<Rightarrow> nat \<Rightarrow> nat" where
  "prio_of k t \<equiv> unat (cur_prio (sthr k t))"

section \<open>The lowest bit\<close>

definition lowest_bit_bitmap :: "nat list" where
  "lowest_bit_bitmap =
    [0, 0, 1, 0, 2, 0, 1, 0, 3, 0, 1, 0, 2, 0, 1, 0,
     4, 0, 1, 0, 2, 0, 1, 0, 3, 0, 1, 0, 2, 0, 1, 0,
     5, 0, 1, 0, 2, 0, 1, 0, 3, 0, 1, 0, 2, 0, 1, 0,
     4, 0, 1, 0, 2, 0, 1, 0, 3, 0, 1, 0, 2, 0, 1, 0,
     6, 0, 1, 0, 2, 0, 1, 0, 3, 0, 1, 0, 2, 0, 1, 0,
     4, 0, 1, 0, 2, 0, 1, 0, 3, 0, 1, 0, 2, 0, 1, 0,
     5, 0, 1, 0, 2, 0, 1, 0, 3, 0, 1, 0, 2, 0, 1, 0,
     4, 0, 1, 0, 2, 0, 1, 0, 3, 0, 1, 0, 2, 0, 1, 0,
     7, 0, 1, 0, 2, 0, 1, 0, 3, 0, 1, 0, 2, 0, 1, 0,
     4, 0, 1, 0, 2, 0, 1, 0, 3, 0, 1, 0, 2, 0, 1, 0,
     5, 0, 1, 0, 2, 0, 1, 0, 3, 0, 1, 0, 2, 0, 1, 0,
     4, 0, 1, 0, 2, 0, 1, 0, 3, 0, 1, 0, 2, 0, 1, 0,
     6, 0, 1, 0, 2, 0, 1, 0, 3, 0, 1, 0, 2, 0, 1, 0,
     4, 0, 1, 0, 2, 0, 1, 0, 3, 0, 1, 0, 2, 0, 1, 0,
     5, 0, 1, 0, 2, 0, 1, 0, 3, 0, 1, 0, 2, 0, 1, 0,
     4, 0, 1, 0, 2, 0, 1, 0, 3, 0, 1, 0, 2, 0, 1, 0]"

definition rt_ffs :: "u32 \<Rightarrow> nat" where
  "rt_ffs v =
     (if v = 0 then 0
      else if v AND 0xFF \<noteq> 0 then lowest_bit_bitmap ! unat (v AND 0xFF) + 1
      else if v AND 0xFF00 \<noteq> 0 then lowest_bit_bitmap ! unat (drop_bit 8 (v AND 0xFF00)) + 9
      else if v AND 0xFF0000 \<noteq> 0 then lowest_bit_bitmap ! unat (drop_bit 16 (v AND 0xFF0000)) + 17
      else lowest_bit_bitmap ! unat (drop_bit 24 (v AND 0xFF000000)) + 25)"

section \<open>The ready lists\<close>

definition rt_system_scheduler_init :: "sched \<Rightarrow> sched" where
  "rt_system_scheduler_init k =
     k\<lparr>lock_nest := 0, priority_table := \<lambda>_. [], rt_current_priority := 31, current_thread := None,
       ready_group := 0, defunct := []\<rparr>"

text \<open>The first thread of the most urgent list with a ready thread.\<close>

definition highest_ready :: "sched \<Rightarrow> (nat \<times> nat) option" where
  "highest_ready k =
     (let n = rt_ffs (ready_group k)
      in if n = 0 then None
         else case priority_table k (n - 1) of [] \<Rightarrow> None | t # _ \<Rightarrow> Some (n - 1, t))"

definition rt_system_scheduler_start :: "sched \<Rightarrow> sched option" where
  "rt_system_scheduler_start k = map_option (\<lambda>(p, t). k\<lparr>current_thread := Some t\<rparr>) (highest_ready k)"

definition rt_schedule :: "sched \<Rightarrow> sched option" where
  "rt_schedule k =
     (if lock_nest k \<noteq> 0 then Some k
      else map_option (\<lambda>(p, t). if current_thread k \<noteq> Some t
             then k\<lparr>rt_current_priority := of_nat p, current_thread := Some t\<rparr> else k) (highest_ready k))"

definition on_thread :: "nat \<Rightarrow> (sthread \<Rightarrow> sthread) \<Rightarrow> sched \<Rightarrow> sched" where
  "on_thread t f k = k\<lparr>sthr := (sthr k)(t := f (sthr k t))\<rparr>"

definition rt_schedule_insert_thread :: "nat \<Rightarrow> sched \<Rightarrow> sched" where
  "rt_schedule_insert_thread t k =
     (on_thread t (\<lambda>th. th\<lparr>stat := RT_THREAD_READY\<rparr>) k)
       \<lparr>priority_table := (priority_table k)(prio_of k t := priority_table k (prio_of k t) @ [t]),
        ready_group := ready_group k OR number_mask (sthr k t)\<rparr>"

text \<open>\<open>rt_list_remove(&thread->tlist)\<close>, whichever list the thread is on.\<close>

definition tlist_remove :: "nat \<Rightarrow> sched \<Rightarrow> sched" where
  "tlist_remove t k =
     k\<lparr>priority_table := \<lambda>p. remove1 t (priority_table k p), defunct := remove1 t (defunct k)\<rparr>"

definition rt_schedule_remove_thread :: "nat \<Rightarrow> sched \<Rightarrow> sched" where
  "rt_schedule_remove_thread t k =
     (let k1 = tlist_remove t k
      in if priority_table k1 (prio_of k t) = []
         then k1\<lparr>ready_group := ready_group k1 AND NOT (number_mask (sthr k t))\<rparr> else k1)"

definition rt_enter_critical :: "sched \<Rightarrow> sched" where
  "rt_enter_critical k = k\<lparr>lock_nest := lock_nest k + 1\<rparr>"

definition rt_exit_critical :: "sched \<Rightarrow> sched option" where
  "rt_exit_critical k =
     (let n = lock_nest k - 1
      in if sint n \<le> 0 then rt_schedule (k\<lparr>lock_nest := 0\<rparr>) else Some (k\<lparr>lock_nest := n\<rparr>))"

definition rt_critical_level :: "sched \<Rightarrow> 16 word" where
  "rt_critical_level k = lock_nest k"

section \<open>Threads\<close>

text \<open>\<open>number_mask\<close> keeps what is in the memory of the thread.\<close>

definition rt_thread_init :: "nat \<Rightarrow> bool \<Rightarrow> u8 \<Rightarrow> u32 \<Rightarrow> kernel \<Rightarrow> int \<times> kernel" where
  "rt_thread_init t system priority tick k =
     (0, (Kern_Timer.rt_timer_init t 0 0 (fst k),
          on_thread t (\<lambda>th. th\<lparr>stat := RT_THREAD_INIT, cur_prio := priority, init_prio := priority, slice_ticks := tick,
            remaining_tick := tick, serror := 0, has_cleanup := False, is_system := system\<rparr>) (snd k)))"

text \<open>\<open>rt_thread_create\<close>: whether the two allocations succeed are arguments.\<close>

definition rt_thread_create :: "bool \<Rightarrow> bool \<Rightarrow> nat \<Rightarrow> u8 \<Rightarrow> u32 \<Rightarrow> kernel \<Rightarrow> nat option \<times> kernel" where
  "rt_thread_create object stack t priority tick k =
     (if \<not> object \<or> \<not> stack then (None, k) else (Some t, snd (rt_thread_init t False priority tick k)))"

definition k_thread_suspend :: "nat \<Rightarrow> kernel \<Rightarrow> int \<times> kernel" where
  "k_thread_suspend t k =
     (if stat (sthr (snd k) t) \<noteq> RT_THREAD_READY then (-1, k)
      else (0, (snd (rt_timer_stop t (fst k)),
                rt_schedule_remove_thread t (on_thread t (\<lambda>th. th\<lparr>stat := RT_THREAD_SUSPEND\<rparr>) (snd k)))))"

definition k_thread_resume :: "nat \<Rightarrow> kernel \<Rightarrow> int \<times> kernel" where
  "k_thread_resume t k =
     (if stat (sthr (snd k) t) \<noteq> RT_THREAD_SUSPEND then (-1, k)
      else (0, (snd (rt_timer_stop t (fst k)), rt_schedule_insert_thread t (tlist_remove t (snd k)))))"

definition k_thread_timeout :: "nat \<Rightarrow> sched \<Rightarrow> sched option" where
  "k_thread_timeout t k =
     rt_schedule (rt_schedule_insert_thread t (tlist_remove t (on_thread t (\<lambda>th. th\<lparr>serror := - RT_ETIMEOUT\<rparr>) k)))"

definition prio_mask :: "u8 \<Rightarrow> u32" where
  "prio_mask p = push_bit (unat p) 1"

definition with_schedule :: "kernel \<Rightarrow> kernel option" where
  "with_schedule k = map_option (Pair (fst k)) (rt_schedule (snd k))"

definition rt_thread_startup :: "nat \<Rightarrow> kernel \<Rightarrow> kernel option" where
  "rt_thread_startup t k =
     (let k1 = (fst k, on_thread t (\<lambda>th. th\<lparr>cur_prio := init_prio th, number_mask := prio_mask (init_prio th),
                                         stat := RT_THREAD_SUSPEND\<rparr>) (snd k));
          k2 = snd (k_thread_resume t k1)
      in if current_thread (snd k2) \<noteq> None then with_schedule k2 else Some k2)"

text \<open>A thread ends: off its list and its timer's list, closed, and on the list of dead threads if \<open>reap\<close>.\<close>

definition close_thread :: "bool \<Rightarrow> nat \<Rightarrow> kernel \<Rightarrow> kernel" where
  "close_thread reap t k =
     (let s = on_thread t (\<lambda>th. th\<lparr>stat := RT_THREAD_CLOSE\<rparr>) (rt_schedule_remove_thread t (snd k))
      in (snd (rt_timer_detach t (fst k)), if reap then s\<lparr>defunct := t # defunct s\<rparr> else s))"

definition rt_thread_detach :: "nat \<Rightarrow> kernel \<Rightarrow> int \<times> kernel" where
  "rt_thread_detach t k = (0, close_thread (has_cleanup (sthr (snd k) t)) t k)"

definition rt_thread_delete :: "nat \<Rightarrow> kernel \<Rightarrow> int \<times> kernel" where
  "rt_thread_delete t k = (0, close_thread True t k)"

definition rt_thread_exit :: "kernel \<Rightarrow> kernel option" where
  "rt_thread_exit k =
     (case current_thread (snd k) of
        None \<Rightarrow> None
      | Some t \<Rightarrow> with_schedule
          (close_thread (\<not> (is_system (sthr (snd k) t) \<and> \<not> has_cleanup (sthr (snd k) t))) t k))"

text \<open>\<open>tlist.next != tlist.prev\<close>: the thread is not alone on its list.\<close>

definition rt_thread_yield :: "sched \<Rightarrow> sched option" where
  "rt_thread_yield k =
     (case current_thread k of
        None \<Rightarrow> None
      | Some t \<Rightarrow>
          let q = priority_table k (prio_of k t)
          in if stat (sthr k t) = RT_THREAD_READY \<and> length q > 1
             then rt_schedule (k\<lparr>priority_table := (priority_table k)(prio_of k t := remove1 t q @ [t])\<rparr>)
             else Some k)"

text \<open>What follows the scheduling point of \<open>rt_thread_sleep\<close> is \<open>sleep_wake\<close>.\<close>

definition rt_thread_sleep :: "u32 \<Rightarrow> kernel \<Rightarrow> kernel option" where
  "rt_thread_sleep tick k =
     (case current_thread (snd k) of
        None \<Rightarrow> None
      | Some t \<Rightarrow>
          let (T, s) = snd (k_thread_suspend t k)
          in with_schedule (snd (rt_timer_start t (snd (rt_timer_control t (SET_TIME tick) T))), s))"

definition sleep_wake :: "nat \<Rightarrow> sched \<Rightarrow> sched" where
  "sleep_wake t k = (if serror (sthr k t) = - RT_ETIMEOUT then on_thread t (\<lambda>th. th\<lparr>serror := 0\<rparr>) k else k)"

definition rt_thread_delay :: "u32 \<Rightarrow> kernel \<Rightarrow> kernel option" where
  "rt_thread_delay tick k = rt_thread_sleep tick k"

definition change_prio :: "nat \<Rightarrow> u8 \<Rightarrow> sched \<Rightarrow> sched" where
  "change_prio t p k =
     (let f = on_thread t (\<lambda>th. th\<lparr>cur_prio := p, number_mask := prio_mask p\<rparr>)
      in if stat (sthr k t) = RT_THREAD_READY
         then rt_schedule_insert_thread t (f (rt_schedule_remove_thread t k)) else f k)"

datatype thread_cmd = CHANGE_PRIORITY u8 | STARTUP | CLOSE | Other_Thread_Cmd

definition rt_thread_control :: "nat \<Rightarrow> thread_cmd \<Rightarrow> kernel \<Rightarrow> kernel option" where
  "rt_thread_control t cmd k =
     (case cmd of
        CHANGE_PRIORITY p \<Rightarrow> Some (fst k, change_prio t p (snd k))
      | STARTUP \<Rightarrow> rt_thread_startup t k
      | CLOSE \<Rightarrow> Some (snd (rt_thread_delete t k))
      | Other_Thread_Cmd \<Rightarrow> Some k)"

text \<open>The idle thread has the least urgent priority.\<close>

definition rt_thread_idle_init :: "kernel \<Rightarrow> kernel option" where
  "rt_thread_idle_init k = rt_thread_startup 0 (snd (rt_thread_init 0 True 31 32 k))"

text \<open>
  The idle thread frees the dead threads; after a system object the call returns.  The first component are the
  threads whose memory is released.  Functions for the end of a thread are not set in this program.
\<close>

fun idle_reap :: "(nat \<Rightarrow> bool) \<Rightarrow> nat list \<Rightarrow> nat list \<times> nat list" where
  "idle_reap sys [] = ([], [])"
| "idle_reap sys (t # ts) = (if sys t then ([], ts) else let (ds, r) = idle_reap sys ts in (t # ds, r))"

definition rt_thread_idle_excute :: "sched \<Rightarrow> nat list \<times> sched" where
  "rt_thread_idle_excute k =
     (let (ds, r) = idle_reap (\<lambda>t. is_system (sthr k t)) (defunct k) in (ds, k\<lparr>defunct := r\<rparr>))"

section \<open>The tick\<close>

definition tick_slice :: "sched \<Rightarrow> sched option" where
  "tick_slice k =
     (case current_thread k of
        None \<Rightarrow> None
      | Some t \<Rightarrow>
          let k1 = on_thread t (\<lambda>th. th\<lparr>remaining_tick := remaining_tick th - 1\<rparr>) k
          in if remaining_tick (sthr k1 t) = 0
             then rt_thread_yield (on_thread t (\<lambda>th. th\<lparr>remaining_tick := slice_ticks th\<rparr>) k1)
             else Some k1)"

definition thread_fire :: "nat \<Rightarrow> kernel \<Rightarrow> kernel option" where
  "thread_fire t k = map_option (Pair (fst k)) (k_thread_timeout t (snd k))"

definition rt_tick_increase :: "kernel \<Rightarrow> kernel option" where
  "rt_tick_increase k =
     (case tick_slice (snd k) of
        None \<Rightarrow> None
      | Some s \<Rightarrow> rt_timer_check thread_fire (tick_forward (fst k), s))"

definition rt_tick_set :: "u32 \<Rightarrow> kernel \<Rightarrow> kernel" where
  "rt_tick_set tick k = ((fst k)\<lparr>rt_tick := tick\<rparr>, snd k)"

definition rt_tick_from_millisecond :: "u32 \<Rightarrow> u32" where
  "rt_tick_from_millisecond ms = (100 * ms + 999) div 1000"

text \<open>A tick is 10 milliseconds.  The product wraps around for times of 42949663 milliseconds and more.\<close>

lemma tick_from_millisecond:
  assumes "unat ms \<le> 42949662"
  shows "unat (rt_tick_from_millisecond ms) = (unat ms + 9) div 10"
proof -
  have "100 * unat ms + 999 < 2 ^ 32" using assms by simp
  then have "unat (100 * ms + 999) = 100 * unat ms + 999"
    by (simp add: unat_word_ariths)
  then have "unat (rt_tick_from_millisecond ms) = (100 * unat ms + 999) div 1000"
    by (simp add: rt_tick_from_millisecond_def unat_div)
  also have "\<dots> = (100 * unat ms + 999) div 100 div 10" by (simp add: div_mult2_eq[of _ 100 10, simplified])
  also have "\<dots> = (unat ms + 9) div 10" by simp
  finally show ?thesis .
qed

lemma tick_from_millisecond_wraps: "rt_tick_from_millisecond 42949663 = 0"
  by (simp add: rt_tick_from_millisecond_def)

end
