(* ===== verification/Kern_Ready.thy ===== *)
theory Kern_Ready
  imports Kern_Sched
begin

unbundle bit_operations_syntax

text \<open>
  The ready lists: the table of \<open>__rt_ffs\<close> gives the lowest bit of a word, the word of ready priorities agrees with the
  lists, and every operation of the scheduler keeps it so.
\<close>

section \<open>The lowest bit\<close>

definition lowest_at :: "nat \<Rightarrow> nat \<Rightarrow> bool" where
  "lowest_at k v \<longleftrightarrow> v < 8 \<and> k mod 2 ^ v = 0 \<and> k div 2 ^ v mod 2 = 1"

fun table_ok :: "nat \<Rightarrow> nat list \<Rightarrow> bool" where
  "table_ok k [] = True"
| "table_ok k (v # vs) = (lowest_at k v \<and> table_ok (k + 1) vs)"

lemma table_okD: "table_ok k vs \<Longrightarrow> i < length vs \<Longrightarrow> lowest_at (k + i) (vs ! i)"
proof (induction vs arbitrary: k i)
  case (Cons v vs)
  then show ?case using Cons.IH[of "k + 1" "i - 1"] by (cases i) simp_all
qed simp

lemma bitmap_table: "table_ok 2 (drop 2 lowest_bit_bitmap)"
  by (simp add: lowest_bit_bitmap_def lowest_at_def)

lemma bitmap_entry:
  assumes "0 < k" and "k < 256"
  shows "lowest_at k (lowest_bit_bitmap ! k)"
proof (cases "k = 1")
  case True
  then show ?thesis by (simp add: lowest_bit_bitmap_def lowest_at_def)
next
  case False
  have "length lowest_bit_bitmap = 256" by (simp add: lowest_bit_bitmap_def)
  moreover have "Suc (Suc (k - 2)) = k" using False assms by arith
  ultimately show ?thesis using table_okD[OF bitmap_table, of "k - 2"] assms by simp
qed

text \<open>The lowest bit of a byte.\<close>

definition lowest_bit :: "u32 \<Rightarrow> nat \<Rightarrow> bool" where
  "lowest_bit w v \<longleftrightarrow> bit w v \<and> (\<forall>j < v. \<not> bit w j)"

lemma byte_mask: "(w AND 0xFF = 0) = (\<forall>j < 8. \<not> bit w j)" for w :: u32
proof -
  have "w AND 0xFF = take_bit 8 w" by (simp add: take_bit_eq_mask mask_numeral)
  then show ?thesis by (auto simp: bit_eq_iff bit_take_bit_iff)
qed

lemma low_byte:
  assumes "w AND 0xFF \<noteq> 0"
  shows "lowest_bit w (lowest_bit_bitmap ! unat (w AND 0xFF))"
proof -
  let ?k = "unat (w AND 0xFF)" and ?v = "lowest_bit_bitmap ! unat (w AND 0xFF)"
  have m: "w AND 0xFF = take_bit 8 w" by (simp add: take_bit_eq_mask mask_numeral)
  have k: "?k = take_bit 8 (unat w)" by (simp add: m unsigned_take_bit_eq)
  have "0 < ?k" using assms by (simp add: unat_gt_0)
  moreover have "?k < 256" unfolding k using take_bit_nat_less_exp[of 8 "unat w"] by simp
  ultimately have l: "?v < 8" "?k mod 2 ^ ?v = 0" "?k div 2 ^ ?v mod 2 = 1"
    using bitmap_entry[of ?k] by (simp_all add: lowest_at_def)
  have b: "bit ?k j = (j < 8 \<and> bit w j)" for j
    unfolding k by (auto simp: bit_take_bit_iff bit_unsigned_iff)
  have "bit ?k ?v" using l(3) by (simp add: bit_iff_odd odd_iff_mod_2_eq_one)
  moreover have "\<not> bit ?k j" if "j < ?v" for j
  proof -
    have "take_bit ?v ?k = 0" using l(2) by (simp add: take_bit_eq_mod)
    then show ?thesis using that bit_take_bit_iff[of ?v ?k j] by simp
  qed
  ultimately show ?thesis using b l(1) by (auto simp: lowest_bit_def)
qed

lemma lowest_shift:
  assumes "lowest_bit (drop_bit n w) v" and "\<forall>j < n. \<not> bit w j"
  shows "lowest_bit w (n + v)"
proof -
  have "\<not> bit w j" if "j < n + v" for j
  proof (cases "j < n")
    case False
    then have "bit w j = bit (drop_bit n w) (j - n)" by (simp add: bit_drop_bit_eq)
    then show ?thesis using assms(1) that False by (auto simp: lowest_bit_def)
  qed (use assms(2) in simp)
  then show ?thesis using assms(1) by (auto simp: lowest_bit_def bit_drop_bit_eq)
qed

lemma byte_is_mask: "(0xFF :: u32) = mask 8"
  by (simp add: mask_numeral)

lemma byte_at: "drop_bit n (w AND push_bit n 0xFF) = drop_bit n w AND 0xFF" for w :: u32
  unfolding byte_is_mask by (rule bit_word_eqI) (auto simp: bit_simps dest: bit_imp_le_length)

lemma byte_at_0:
  fixes w :: u32
  assumes "n + 8 \<le> 32"
  shows "(w AND push_bit n 0xFF = 0) = (drop_bit n w AND 0xFF = 0)"
proof
  assume "w AND push_bit n 0xFF = 0"
  then show "drop_bit n w AND 0xFF = 0" using byte_at[of n w] by simp
next
  assume z: "drop_bit n w AND 0xFF = 0"
  have "\<not> bit (w AND push_bit n 0xFF) j" for j
    using z byte_mask[of "drop_bit n w"] unfolding byte_is_mask
    by (auto simp: bit_simps dest: spec[of _ "j - n"])
  then show "w AND push_bit n 0xFF = 0" by (simp add: bit_eq_iff)
qed

theorem ffs_lowest:
  assumes "v \<noteq> 0"
  shows "0 < rt_ffs v" "lowest_bit v (rt_ffs v - 1)"
proof -
  let ?b = "\<lambda>n. drop_bit n v AND 0xFF"
  have p: "push_bit 8 0xFF = (0xFF00 :: u32)" "push_bit 16 0xFF = (0xFF0000 :: u32)" "push_bit 24 0xFF = (0xFF000000 :: u32)"
    by (simp_all add: push_bit_eq_mult)
  note z = byte_at_0[of 8 v, unfolded p] byte_at_0[of 16 v, unfolded p] byte_at_0[of 24 v, unfolded p]
  note d = byte_at[of 8 v, unfolded p] byte_at[of 16 v, unfolded p] byte_at[of 24 v, unfolded p]
  have f: "rt_ffs v = (if ?b 0 \<noteq> 0 then lowest_bit_bitmap ! unat (?b 0) + 1
      else if ?b 8 \<noteq> 0 then lowest_bit_bitmap ! unat (?b 8) + 9
      else if ?b 16 \<noteq> 0 then lowest_bit_bitmap ! unat (?b 16) + 17
      else lowest_bit_bitmap ! unat (?b 24) + 25)"
    using assms by (simp add: rt_ffs_def z d)
  show "0 < rt_ffs v" unfolding f by simp
  have c0: "\<forall>j < 8. \<not> bit v j" if "?b 0 = 0" using that byte_mask[of v] by simp
  have c1: "\<forall>j < 16. \<not> bit v j" if "?b 0 = 0" "?b 8 = 0"
  proof safe
    fix j :: nat assume "j < 16" "bit v j"
    then show False using c0[OF that(1)] that(2) byte_mask[of "drop_bit 8 v"]
      by (cases "j < 8") (auto simp: bit_drop_bit_eq dest: spec[of _ "j - 8"])
  qed
  have c2: "\<forall>j < 24. \<not> bit v j" if "?b 0 = 0" "?b 8 = 0" "?b 16 = 0"
  proof safe
    fix j :: nat assume "j < 24" "bit v j"
    then show False using c1[OF that(1,2)] that(3) byte_mask[of "drop_bit 16 v"]
      by (cases "j < 16") (auto simp: bit_drop_bit_eq dest: spec[of _ "j - 16"])
  qed
  have c3: "?b 24 \<noteq> 0" if "?b 0 = 0" "?b 8 = 0" "?b 16 = 0"
  proof
    assume "?b 24 = 0"
    then have "\<not> bit v j" for j
      using c2[OF that] byte_mask[of "drop_bit 24 v"] bit_imp_le_length[of v j]
      by (cases "j < 24") (auto simp: bit_drop_bit_eq dest: spec[of _ "j - 24"])
    then show False using assms by (simp add: bit_eq_iff)
  qed
  have s: "lowest_bit v (lowest_bit_bitmap ! unat (?b n) + n)" if "?b n \<noteq> 0" "\<forall>j < n. \<not> bit v j" for n
    using lowest_shift[OF low_byte[OF that(1)] that(2)] by (simp add: add.commute)
  show "lowest_bit v (rt_ffs v - 1)"
    using s[of 0] s[of 8] s[of 16] s[of 24] c0 c1 c2 c3 unfolding f by (simp add: add.commute split: if_split)
qed

section \<open>The invariant of the lists\<close>

definition s_inv :: "sched \<Rightarrow> bool" where
  "s_inv k \<longleftrightarrow>
     (\<forall>p. distinct (priority_table k p)) \<and>
     (\<forall>p t. t \<in> set (priority_table k p) \<longleftrightarrow> stat (sthr k t) = RT_THREAD_READY \<and> prio_of k t = p) \<and>
     (\<forall>t. stat (sthr k t) = RT_THREAD_READY \<or> stat (sthr k t) = RT_THREAD_SUSPEND \<longrightarrow>
        prio_of k t < 32 \<and> number_mask (sthr k t) = prio_mask (cur_prio (sthr k t))) \<and>
     (\<forall>p < 32. bit (ready_group k) p \<longleftrightarrow> priority_table k p \<noteq> []) \<and>
     distinct (defunct k) \<and> (\<forall>t \<in> set (defunct k). stat (sthr k t) = RT_THREAD_CLOSE)"

lemma s_invI:
  assumes "\<And>p. distinct (priority_table k p)"
    and "\<And>p t. t \<in> set (priority_table k p) \<longleftrightarrow> stat (sthr k t) = RT_THREAD_READY \<and> prio_of k t = p"
    and "\<And>t. stat (sthr k t) = RT_THREAD_READY \<or> stat (sthr k t) = RT_THREAD_SUSPEND \<Longrightarrow>
        prio_of k t < 32 \<and> number_mask (sthr k t) = prio_mask (cur_prio (sthr k t))"
    and "\<And>p. p < 32 \<Longrightarrow> bit (ready_group k) p \<longleftrightarrow> priority_table k p \<noteq> []"
    and "distinct (defunct k)" and "\<And>t. t \<in> set (defunct k) \<Longrightarrow> stat (sthr k t) = RT_THREAD_CLOSE"
  shows "s_inv k"
  using assms by (simp add: s_inv_def)

lemma s_invD:
  assumes "s_inv k"
  shows "distinct (priority_table k p)"
    and "t \<in> set (priority_table k p) \<longleftrightarrow> stat (sthr k t) = RT_THREAD_READY \<and> prio_of k t = p"
    and "stat (sthr k t) = RT_THREAD_READY \<or> stat (sthr k t) = RT_THREAD_SUSPEND \<Longrightarrow>
        prio_of k t < 32 \<and> number_mask (sthr k t) = prio_mask (cur_prio (sthr k t))"
    and "p < 32 \<Longrightarrow> bit (ready_group k) p \<longleftrightarrow> priority_table k p \<noteq> []"
    and "distinct (defunct k)" and "t \<in> set (defunct k) \<Longrightarrow> stat (sthr k t) = RT_THREAD_CLOSE"
  using assms unfolding s_inv_def by blast+

lemma s_inv_other [simp]:
  "s_inv (k\<lparr>current_thread := c\<rparr>) = s_inv k" "s_inv (k\<lparr>rt_current_priority := q\<rparr>) = s_inv k"
  "s_inv (k\<lparr>lock_nest := n\<rparr>) = s_inv k"
  by (simp_all add: s_inv_def)

lemma on_thread_sel [simp]:
  "priority_table (on_thread t f k) = priority_table k" "ready_group (on_thread t f k) = ready_group k"
  "current_thread (on_thread t f k) = current_thread k" "lock_nest (on_thread t f k) = lock_nest k"
  "defunct (on_thread t f k) = defunct k" "rt_current_priority (on_thread t f k) = rt_current_priority k"
  "sthr (on_thread t f k) u = (if u = t then f (sthr k t) else sthr k u)"
  by (simp_all add: on_thread_def)

text \<open>Fields the lists do not depend on.\<close>

lemma on_thread_inv:
  assumes "s_inv k" and "stat (f (sthr k t)) = stat (sthr k t)" and "cur_prio (f (sthr k t)) = cur_prio (sthr k t)"
    and "number_mask (f (sthr k t)) = number_mask (sthr k t)"
  shows "s_inv (on_thread t f k)"
  using assms unfolding s_inv_def by (auto split: if_splits)

lemma prio_mask_bit: "p < 32 \<Longrightarrow> bit (prio_mask q) p \<longleftrightarrow> p = unat q"
  by (auto simp: prio_mask_def bit_exp_iff)

lemma ready_first:
  assumes i: "s_inv k" and r: "stat (sthr k u) = RT_THREAD_READY"
  obtains p t ts where "highest_ready k = Some (p, t)" "priority_table k p = t # ts" "stat (sthr k t) = RT_THREAD_READY"
    "prio_of k t = p" "\<forall>v. stat (sthr k v) = RT_THREAD_READY \<longrightarrow> p \<le> prio_of k v" "p < 32"
proof -
  have g: "p < 32 \<Longrightarrow> bit (ready_group k) p \<longleftrightarrow> priority_table k p \<noteq> []" for p using i by (simp add: s_inv_def)
  have m: "t \<in> set (priority_table k p) \<longleftrightarrow> stat (sthr k t) = RT_THREAD_READY \<and> prio_of k t = p" for p t
    using i by (simp add: s_inv_def)
  have l: "stat (sthr k t) = RT_THREAD_READY \<Longrightarrow> prio_of k t < 32" for t using i by (simp add: s_inv_def)
  have set_bit: "bit (ready_group k) (prio_of k v)" if "stat (sthr k v) = RT_THREAD_READY" for v
    using g[OF l[OF that]] m[of v "prio_of k v"] that by auto
  then have nz: "ready_group k \<noteq> 0" using r by force
  define p where "p = rt_ffs (ready_group k) - 1"
  have f: "0 < rt_ffs (ready_group k)" "lowest_bit (ready_group k) p" using ffs_lowest[OF nz] by (simp_all add: p_def)
  then have p: "bit (ready_group k) p" "\<forall>j < p. \<not> bit (ready_group k) j" by (simp_all add: lowest_bit_def)
  have p32: "p < 32" using bit_imp_le_length[OF p(1)] by simp
  then obtain t ts where t: "priority_table k p = t # ts" using g[OF p32] p(1) by (cases "priority_table k p") auto
  show ?thesis
  proof
    show "highest_ready k = Some (p, t)" using f(1) t by (simp add: highest_ready_def p_def Let_def)
    show "priority_table k p = t # ts" "p < 32" by fact+
    show "stat (sthr k t) = RT_THREAD_READY" "prio_of k t = p" using m[of t p] t by auto
    show "\<forall>v. stat (sthr k v) = RT_THREAD_READY \<longrightarrow> p \<le> prio_of k v" using set_bit p(2) by (meson not_le)
  qed
qed

lemma schedule_inv: "s_inv k \<Longrightarrow> rt_schedule k = Some k1 \<Longrightarrow> s_inv k1 \<and> sthr k1 = sthr k \<and>
    priority_table k1 = priority_table k \<and> defunct k1 = defunct k \<and> lock_nest k1 = lock_nest k \<and>
    (current_thread k \<noteq> None \<longrightarrow> current_thread k1 \<noteq> None)"
  by (auto simp: rt_schedule_def split: if_splits)

lemma schedule_returns:
  assumes "s_inv k" and "stat (sthr k u) = RT_THREAD_READY"
  shows "\<exists>k1. rt_schedule k = Some k1"
proof -
  obtain p t where "highest_ready k = Some (p, t)" by (rule ready_first[OF assms])
  then show ?thesis by (simp add: rt_schedule_def)
qed

lemma tlist_remove_id:
  assumes "s_inv k" and "stat (sthr k t) = RT_THREAD_SUSPEND \<or> stat (sthr k t) = RT_THREAD_INIT"
  shows "tlist_remove t k = k"
proof -
  have "t \<notin> set (priority_table k p)" "t \<notin> set (defunct k)" for p using assms by (auto simp: s_inv_def)
  then show ?thesis by (simp add: tlist_remove_def remove1_idem)
qed

lemma insert_inv:
  assumes i: "s_inv k" and s: "stat (sthr k t) = RT_THREAD_SUSPEND"
  shows "s_inv (rt_schedule_insert_thread t k)"
proof -
  note d = s_invD[OF i]
  let ?k = "rt_schedule_insert_thread t k"
  have n: "t \<notin> set (priority_table k p)" for p using d(2)[of t p] s by simp
  have pr: "prio_of k t < 32" "number_mask (sthr k t) = prio_mask (cur_prio (sthr k t))" using d(3)[of t] s by simp_all
  have th: "sthr ?k u = (if u = t then (sthr k t)\<lparr>stat := RT_THREAD_READY\<rparr> else sthr k u)" for u
    by (simp add: rt_schedule_insert_thread_def)
  have tab: "priority_table ?k p = (if p = prio_of k t then priority_table k p @ [t] else priority_table k p)" for p
    by (simp add: rt_schedule_insert_thread_def)
  have g: "ready_group ?k = ready_group k OR prio_mask (cur_prio (sthr k t))"
    using pr(2) by (simp add: rt_schedule_insert_thread_def)
  have f: "defunct ?k = defunct k" by (simp add: rt_schedule_insert_thread_def)
  show ?thesis
  proof (rule s_invI)
    show "distinct (priority_table ?k p)" for p using d(1)[of p] n[of p] by (cases "p = prio_of k t") (simp_all add: tab)
    show "u \<in> set (priority_table ?k p) \<longleftrightarrow> stat (sthr ?k u) = RT_THREAD_READY \<and> prio_of ?k u = p" for p u
      using d(2)[of u p] n[of p] by (auto simp: tab th)
    show "prio_of ?k u < 32 \<and> number_mask (sthr ?k u) = prio_mask (cur_prio (sthr ?k u))"
      if "stat (sthr ?k u) = RT_THREAD_READY \<or> stat (sthr ?k u) = RT_THREAD_SUSPEND" for u
      using d(3)[of u] pr that by (auto simp: th)
    show "bit (ready_group ?k) p \<longleftrightarrow> priority_table ?k p \<noteq> []" if "p < 32" for p
      using d(4)[OF that] prio_mask_bit[OF that] by (simp add: g tab bit_or_iff)
    show "distinct (defunct ?k)" using d(5) by (simp add: f)
    show "stat (sthr ?k u) = RT_THREAD_CLOSE" if "u \<in> set (defunct ?k)" for u
      using d(6)[of u] that s by (auto simp: f th)
  qed
qed

text \<open>A thread that is taken off its list and gets another state than ready.\<close>

lemma remove_inv:
  assumes i: "s_inv k" and s: "stat (sthr k t) = RT_THREAD_READY \<or> stat (sthr k t) = RT_THREAD_SUSPEND"
    and x: "x = RT_THREAD_SUSPEND \<or> x = RT_THREAD_CLOSE"
  shows "s_inv (on_thread t (\<lambda>th. th\<lparr>stat := x\<rparr>) (rt_schedule_remove_thread t k))"
proof -
  note d = s_invD[OF i]
  let ?k = "on_thread t (\<lambda>th. th\<lparr>stat := x\<rparr>) (rt_schedule_remove_thread t k)"
  have pr: "prio_of k t < 32" "number_mask (sthr k t) = prio_mask (cur_prio (sthr k t))" using d(3)[OF s] by simp_all
  have o: "p \<noteq> prio_of k t \<Longrightarrow> t \<notin> set (priority_table k p)" for p using d(2)[of t p] by simp
  have nd: "t \<notin> set (defunct k)" using d(6)[of t] s by auto
  let ?r = "rt_schedule_remove_thread t k"
  have th: "sthr ?r = sthr k" by (simp add: rt_schedule_remove_thread_def tlist_remove_def Let_def)
  have tab: "priority_table ?r p = remove1 t (priority_table k p)" for p
    by (simp add: rt_schedule_remove_thread_def tlist_remove_def Let_def)
  have g: "ready_group ?r = (if remove1 t (priority_table k (prio_of k t)) = []
      then ready_group k AND NOT (prio_mask (cur_prio (sthr k t))) else ready_group k)"
    using pr(2) by (simp add: rt_schedule_remove_thread_def tlist_remove_def Let_def)
  have f: "defunct ?r = defunct k" using nd
    by (simp add: rt_schedule_remove_thread_def tlist_remove_def Let_def remove1_idem)
  show ?thesis
  proof (rule s_invI)
    show "distinct (priority_table ?k p)" for p using d(1)[of p] by (simp add: tab)
    show "u \<in> set (priority_table ?k p) \<longleftrightarrow> stat (sthr ?k u) = RT_THREAD_READY \<and> prio_of ?k u = p" for p u
      using d(1)[of p] d(2)[of u p] x by (auto simp: tab th)
    show "prio_of ?k u < 32 \<and> number_mask (sthr ?k u) = prio_mask (cur_prio (sthr ?k u))"
      if "stat (sthr ?k u) = RT_THREAD_READY \<or> stat (sthr ?k u) = RT_THREAD_SUSPEND" for u
      using d(3)[of u] pr that by (auto simp: th)
    show "bit (ready_group ?k) p \<longleftrightarrow> priority_table ?k p \<noteq> []" if p: "p < 32" for p
    proof (cases "p = prio_of k t")
      case True
      show ?thesis
      proof (cases "t \<in> set (priority_table k p)")
        case False
        then show ?thesis using d(4)[OF p] prio_mask_bit[OF p] True p
          by (simp add: g tab bit_and_iff bit_not_iff remove1_idem)
      next
        case t: True
        then have "priority_table k p \<noteq> []" by auto
        then show ?thesis using d(4)[OF p] prio_mask_bit[OF p] True p
          by (simp add: g tab bit_and_iff bit_not_iff)
      qed
    next
      case False
      then have "bit (ready_group ?r) p = bit (ready_group k) p"
        using prio_mask_bit[OF p] p by (simp add: g bit_and_iff bit_not_iff)
      then show ?thesis using d(4)[OF p] o[OF False] by (simp add: tab remove1_idem)
    qed
    show "distinct (defunct ?k)" using d(5) by (simp add: f)
    show "stat (sthr ?k u) = RT_THREAD_CLOSE" if "u \<in> set (defunct ?k)" for u
    proof -
      have "u \<in> set (defunct k)" using that by (simp add: f)
      moreover from this have "u \<noteq> t" using nd by blast
      ultimately show ?thesis using d(6)[of u] by (simp add: th)
    qed
  qed
qed

end
