(* ===== verification/Kern_Life.thy ===== *)
theory Kern_Life
  imports Kern_Ready
begin

text \<open>
  The kernel as a transition system: threads are made, started, suspended, resumed, put to sleep and closed, their
  priorities change, the scheduler is locked, the clock ticks.  The invariant ties the states of the threads, the
  ready lists and the timers together.
\<close>

section \<open>Steps\<close>

inductive k_reach :: "kernel \<Rightarrow> bool" where
  boot: "\<forall>t. stat (sthr s t) = RT_THREAD_CLOSE \<Longrightarrow> timer_list T = [] \<Longrightarrow> k_reach (T, rt_system_scheduler_init s)"
| init: "k_reach k \<Longrightarrow> stat (sthr (snd k) t) = RT_THREAD_CLOSE \<Longrightarrow> t \<notin> set (defunct (snd k)) \<Longrightarrow> p < 32 \<Longrightarrow>
    t = 0 \<longrightarrow> p = 31 \<Longrightarrow> k_reach (snd (rt_thread_init t sys p tick k))"
| startup: "k_reach k \<Longrightarrow> stat (sthr (snd k) t) = RT_THREAD_INIT \<Longrightarrow> rt_thread_startup t k = Some k1 \<Longrightarrow> k_reach k1"
| start: "k_reach k \<Longrightarrow> stat (sthr (snd k) 0) = RT_THREAD_READY \<Longrightarrow>
    rt_system_scheduler_start (snd k) = Some s \<Longrightarrow> k_reach (fst k, s)"
| schedule: "k_reach k \<Longrightarrow> current_thread (snd k) \<noteq> None \<Longrightarrow> with_schedule k = Some k1 \<Longrightarrow> k_reach k1"
| suspend: "k_reach k \<Longrightarrow> t \<noteq> 0 \<Longrightarrow> k_reach (snd (k_thread_suspend t k))"
| resume: "k_reach k \<Longrightarrow> k_reach (snd (k_thread_resume t k))"
| wait: "k_reach k \<Longrightarrow> stat (sthr (snd k) t) = RT_THREAD_SUSPEND \<Longrightarrow> n < RT_TICK_HALF \<Longrightarrow>
    k_reach (snd (rt_timer_start t (snd (rt_timer_control t (SET_TIME n) (fst k)))), snd k)"
| yield_cpu: "k_reach k \<Longrightarrow> rt_thread_yield (snd k) = Some s \<Longrightarrow> k_reach (fst k, s)"
| sleep: "k_reach k \<Longrightarrow> current_thread (snd k) = Some t \<Longrightarrow> t \<noteq> 0 \<Longrightarrow> stat (sthr (snd k) t) = RT_THREAD_READY \<Longrightarrow>
    n < RT_TICK_HALF \<Longrightarrow> rt_thread_sleep n k = Some k1 \<Longrightarrow> k_reach k1"
| priority: "k_reach k \<Longrightarrow> t \<noteq> 0 \<Longrightarrow> p < 32 \<Longrightarrow>
    stat (sthr (snd k) t) = RT_THREAD_READY \<or> stat (sthr (snd k) t) = RT_THREAD_SUSPEND \<Longrightarrow>
    rt_thread_control t (CHANGE_PRIORITY p) k = Some k1 \<Longrightarrow> k_reach k1"
| detach: "k_reach k \<Longrightarrow> t \<noteq> 0 \<Longrightarrow>
    stat (sthr (snd k) t) = RT_THREAD_READY \<or> stat (sthr (snd k) t) = RT_THREAD_SUSPEND \<Longrightarrow>
    k_reach (snd (rt_thread_detach t k))"
| delete: "k_reach k \<Longrightarrow> t \<noteq> 0 \<Longrightarrow>
    stat (sthr (snd k) t) = RT_THREAD_READY \<or> stat (sthr (snd k) t) = RT_THREAD_SUSPEND \<Longrightarrow>
    k_reach (snd (rt_thread_delete t k))"
| exit: "k_reach k \<Longrightarrow> current_thread (snd k) = Some t \<Longrightarrow> t \<noteq> 0 \<Longrightarrow> stat (sthr (snd k) t) = RT_THREAD_READY \<Longrightarrow>
    rt_thread_exit k = Some k1 \<Longrightarrow> k_reach k1"
| reap: "k_reach k \<Longrightarrow> k_reach (fst k, snd (rt_thread_idle_excute (snd k)))"
| enter_critical: "k_reach k \<Longrightarrow> k_reach (fst k, rt_enter_critical (snd k))"
| exit_critical: "k_reach k \<Longrightarrow> current_thread (snd k) \<noteq> None \<Longrightarrow> rt_exit_critical (snd k) = Some s \<Longrightarrow> k_reach (fst k, s)"
| tick: "k_reach k \<Longrightarrow> rt_tick_increase k = Some k1 \<Longrightarrow> k_reach k1"

section \<open>The invariant\<close>

definition k_inv :: "kernel \<Rightarrow> bool" where
  "k_inv k \<longleftrightarrow>
     timer_inv (fst k) \<and> s_inv (snd k) \<and>
     (\<forall>t \<in> set (timer_list (fst k)). stat (sthr (snd k) t) = RT_THREAD_SUSPEND) \<and>
     (\<forall>t. stat (sthr (snd k) t) \<noteq> RT_THREAD_CLOSE \<longrightarrow> \<not> periodic t (fst k)) \<and>
     (\<forall>t. stat (sthr (snd k) t) = RT_THREAD_INIT \<longrightarrow> init_prio (sthr (snd k) t) < 32) \<and>
     (stat (sthr (snd k) 0) = RT_THREAD_INIT \<longrightarrow> init_prio (sthr (snd k) 0) = 31) \<and>
     (stat (sthr (snd k) 0) = RT_THREAD_READY \<longrightarrow> prio_of (snd k) 0 = 31) \<and>
     stat (sthr (snd k) 0) \<noteq> RT_THREAD_SUSPEND \<and>
     (current_thread (snd k) \<noteq> None \<longrightarrow> stat (sthr (snd k) 0) = RT_THREAD_READY)"

lemma k_invI:
  assumes "timer_inv T" and "s_inv s" and "\<And>t. t \<in> set (timer_list T) \<Longrightarrow> stat (sthr s t) = RT_THREAD_SUSPEND"
    and "\<And>t. stat (sthr s t) \<noteq> RT_THREAD_CLOSE \<Longrightarrow> \<not> periodic t T"
    and "\<And>t. stat (sthr s t) = RT_THREAD_INIT \<Longrightarrow> init_prio (sthr s t) < 32"
    and "stat (sthr s 0) = RT_THREAD_INIT \<Longrightarrow> init_prio (sthr s 0) = 31"
    and "stat (sthr s 0) = RT_THREAD_READY \<Longrightarrow> prio_of s 0 = 31" and "stat (sthr s 0) \<noteq> RT_THREAD_SUSPEND"
    and "current_thread s \<noteq> None \<Longrightarrow> stat (sthr s 0) = RT_THREAD_READY"
  shows "k_inv (T, s)"
  using assms by (simp add: k_inv_def)

lemma k_invD:
  assumes "k_inv (T, s)"
  shows "timer_inv T" "s_inv s" "t \<in> set (timer_list T) \<Longrightarrow> stat (sthr s t) = RT_THREAD_SUSPEND"
    "stat (sthr s t) \<noteq> RT_THREAD_CLOSE \<Longrightarrow> \<not> periodic t T"
    "stat (sthr s t) = RT_THREAD_INIT \<Longrightarrow> init_prio (sthr s t) < 32"
    "stat (sthr s 0) = RT_THREAD_INIT \<Longrightarrow> init_prio (sthr s 0) = 31"
    "stat (sthr s 0) = RT_THREAD_READY \<Longrightarrow> prio_of s 0 = 31" "stat (sthr s 0) \<noteq> RT_THREAD_SUSPEND"
    "current_thread s \<noteq> None \<Longrightarrow> stat (sthr s 0) = RT_THREAD_READY"
  using assms by (simp_all add: k_inv_def)

text \<open>
  Another state of the scheduler with the same threads, or one thread changed.
\<close>

lemma k_inv_sched:
  assumes "k_inv (T, s)" and "s_inv s1" and "sthr s1 = sthr s" and "current_thread s1 \<noteq> None \<Longrightarrow> current_thread s \<noteq> None"
  shows "k_inv (T, s1)"
  using k_invD[OF assms(1)] assms(2-4) by (intro k_invI) simp_all

lemma k_inv_start:
  assumes "k_inv (T, s)" and "sthr s1 = sthr s" and "s_inv s1" and "stat (sthr s 0) = RT_THREAD_READY"
  shows "k_inv (T, s1)"
  using k_invD[OF assms(1)] assms(2-4) by (intro k_invI) simp_all

lemma k_inv_thread:
  assumes "k_inv (T, s)" and "timer_inv T1" and "s_inv s1" and "\<And>u. u \<noteq> t \<Longrightarrow> sthr s1 u = sthr s u"
    and "set (timer_list T1) \<subseteq> insert t (set (timer_list T))"
    and "\<And>u. periodic u T1 \<Longrightarrow> periodic u T"
    and "t \<in> set (timer_list T1) \<Longrightarrow> stat (sthr s1 t) = RT_THREAD_SUSPEND"
    and "stat (sthr s1 t) \<noteq> RT_THREAD_CLOSE \<Longrightarrow> \<not> periodic t T1"
    and "stat (sthr s1 t) = RT_THREAD_INIT \<Longrightarrow> init_prio (sthr s1 t) < 32"
    and "t = 0 \<Longrightarrow> stat (sthr s1 0) \<noteq> RT_THREAD_SUSPEND \<and> (stat (sthr s1 0) = RT_THREAD_INIT \<longrightarrow> init_prio (sthr s1 0) = 31) \<and>
      (stat (sthr s1 0) = RT_THREAD_READY \<longrightarrow> prio_of s1 0 = 31) \<and> (current_thread s \<noteq> None \<longrightarrow> stat (sthr s1 0) = RT_THREAD_READY)"
    and "current_thread s1 \<noteq> None \<Longrightarrow> current_thread s \<noteq> None"
  shows "k_inv (T1, s1)"
proof (rule k_invI)
  note d = k_invD[OF assms(1)]
  have e: "sthr s1 u = sthr s u" if "u \<noteq> t" for u using assms(4) that .
  show "timer_inv T1" "s_inv s1" by fact+
  show "stat (sthr s1 u) = RT_THREAD_SUSPEND" if "u \<in> set (timer_list T1)" for u
    using d(3)[of u] e[of u] assms(5,7) that by (cases "u = t") auto
  show "\<not> periodic u T1" if "stat (sthr s1 u) \<noteq> RT_THREAD_CLOSE" for u
    using d(4)[of u] e[of u] assms(6)[of u] assms(8) that by (cases "u = t") auto
  show "init_prio (sthr s1 u) < 32" if "stat (sthr s1 u) = RT_THREAD_INIT" for u
    using d(5)[of u] e[of u] assms(9) that by (cases "u = t") auto
  show "stat (sthr s1 0) = RT_THREAD_INIT \<Longrightarrow> init_prio (sthr s1 0) = 31"
    using d(6) e[of 0] assms(10) by (cases "t = 0") auto
  show "stat (sthr s1 0) = RT_THREAD_READY \<Longrightarrow> prio_of s1 0 = 31"
    using d(7) e[of 0] assms(10) by (cases "t = 0") auto
  show "stat (sthr s1 0) \<noteq> RT_THREAD_SUSPEND" using d(8) e[of 0] assms(10) by (cases "t = 0") auto
  show "stat (sthr s1 0) = RT_THREAD_READY" if "current_thread s1 \<noteq> None"
    using d(9) e[of 0] assms(10) assms(11)[OF that] by (cases "t = 0") auto
qed

section \<open>What the operations change\<close>

lemma list_ops_sel [simp]:
  "sthr (tlist_remove t k) = sthr k" "current_thread (tlist_remove t k) = current_thread k"
  "lock_nest (tlist_remove t k) = lock_nest k"
  "sthr (rt_schedule_remove_thread t k) = sthr k" "current_thread (rt_schedule_remove_thread t k) = current_thread k"
  "lock_nest (rt_schedule_remove_thread t k) = lock_nest k"
  "sthr (rt_schedule_insert_thread t k) u = (if u = t then (sthr k t)\<lparr>stat := RT_THREAD_READY\<rparr> else sthr k u)"
  "current_thread (rt_schedule_insert_thread t k) = current_thread k"
  "lock_nest (rt_schedule_insert_thread t k) = lock_nest k" "defunct (rt_schedule_insert_thread t k) = defunct k"
  by (simp_all add: tlist_remove_def rt_schedule_remove_thread_def rt_schedule_insert_thread_def Let_def)

lemma stat_remove_commute:
  "rt_schedule_remove_thread t (on_thread t (\<lambda>th. th\<lparr>stat := x\<rparr>) k) =
   on_thread t (\<lambda>th. th\<lparr>stat := x\<rparr>) (rt_schedule_remove_thread t k)"
  by (simp add: rt_schedule_remove_thread_def tlist_remove_def on_thread_def Let_def)

lemma insert_stat [simp]: "rt_schedule_insert_thread t (on_thread t (\<lambda>th. th\<lparr>stat := x\<rparr>) k) = rt_schedule_insert_thread t k"
  by (simp add: rt_schedule_insert_thread_def on_thread_def)

lemma set_time_sel [simp]:
  "timer_list (snd (rt_timer_control t (SET_TIME n) T)) = timer_list T"
  "rt_tick (snd (rt_timer_control t (SET_TIME n) T)) = rt_tick T"
  "tflag (timer_of (snd (rt_timer_control t (SET_TIME n) T)) u) = tflag (timer_of T u)"
  "timeout_tick (timer_of (snd (rt_timer_control t (SET_TIME n) T)) u) = timeout_tick (timer_of T u)"
  "timer_ticks (timer_of (snd (rt_timer_control t (SET_TIME n) T)) t) = n"
  by (simp_all add: rt_timer_control_def)

lemma set_time_inv: "timer_inv T \<Longrightarrow> timer_inv (snd (rt_timer_control t (SET_TIME n) T))"
  by (simp add: timer_inv_def order_cong[of _ "snd (rt_timer_control t (SET_TIME n) T)" T])

lemma stop_sel:
  assumes "timer_inv T"
  shows "set (timer_list (snd (rt_timer_stop t T))) = set (timer_list T) - {t}"
    "periodic u (snd (rt_timer_stop t T)) = periodic u T"
    "timeout_tick (timer_of (snd (rt_timer_stop t T)) u) = timeout_tick (timer_of T u)"
    "rt_tick (snd (rt_timer_stop t T)) = rt_tick T"
  using assms by (auto simp: rt_timer_stop_def timer_inv_def)

lemma start_sel:
  assumes "timer_inv T"
  shows "set (timer_list (snd (rt_timer_start t T))) = insert t (set (timer_list T))"
    "periodic u (snd (rt_timer_start t T)) = periodic u T"
  using assms by (auto simp: start_result timer_inv_def)

lemma detach_inv:
  assumes "timer_inv T"
  shows "timer_inv (snd (rt_timer_detach t T))" "set (timer_list (snd (rt_timer_detach t T))) = set (timer_list T) - {t}"
    "periodic u (snd (rt_timer_detach t T)) = periodic u T"
proof -
  have "timer_order (rt_tick T) (timer_remove t T) (remove1 t (timer_list T))"
    using assms order_remove by (auto simp: timer_inv_def order_cong[of _ "timer_remove t T" T])
  then show "timer_inv (snd (rt_timer_detach t T))"
    using assms by (auto simp: rt_timer_detach_def timer_inv_def)
qed (use assms in \<open>auto simp: rt_timer_detach_def timer_inv_def\<close>)

lemma timer_init_inv:
  assumes "timer_inv T" and "t \<notin> set (timer_list T)"
  shows "timer_inv (rt_timer_init t n f T)"
proof -
  have "timer_order (rt_tick T) (rt_timer_init t n f T) (timer_list T) = timer_order (rt_tick T) T (timer_list T)"
    using assms(2) by (intro order_cong) (auto simp: rt_timer_init_def)
  then show ?thesis using assms by (auto simp: timer_inv_def rt_timer_init_def)
qed

section \<open>The operations keep the invariant\<close>

lemma suspend_inv:
  assumes i: "k_inv k" and t: "t \<noteq> 0"
  shows "k_inv (snd (k_thread_suspend t k))"
proof (cases "stat (sthr (snd k) t) = RT_THREAD_READY")
  case True
  obtain T s where k: "k = (T, s)" by fastforce
  note d = k_invD[OF i[unfolded k]]
  have r: "stat (sthr s t) = RT_THREAD_READY" using True k by simp
  then have "s_inv (on_thread t (\<lambda>th. th\<lparr>stat := RT_THREAD_SUSPEND\<rparr>) (rt_schedule_remove_thread t s))"
    using remove_inv[OF d(2)] by simp
  then have "k_inv (snd (rt_timer_stop t T), on_thread t (\<lambda>th. th\<lparr>stat := RT_THREAD_SUSPEND\<rparr>) (rt_schedule_remove_thread t s))"
    using d(4)[of t] r t
    by (intro k_inv_thread[OF i[unfolded k], of _ _ t]) (simp_all add: stop_inv[OF d(1)] stop_sel[OF d(1)] subset_insertI2)
  then show ?thesis using r by (simp add: k k_thread_suspend_def stat_remove_commute)
qed (use i in \<open>simp add: k_thread_suspend_def\<close>)

lemma resume_inv:
  assumes i: "k_inv k"
  shows "k_inv (snd (k_thread_resume t k))"
proof (cases "stat (sthr (snd k) t) = RT_THREAD_SUSPEND")
  case True
  obtain T s where k: "k = (T, s)" by fastforce
  note d = k_invD[OF i[unfolded k]]
  have r: "stat (sthr s t) = RT_THREAD_SUSPEND" using True k by simp
  then have e: "tlist_remove t s = s" using tlist_remove_id[OF d(2)] by simp
  have "t \<noteq> 0" using r d(8) by (intro notI) simp
  then have "k_inv (snd (rt_timer_stop t T), rt_schedule_insert_thread t s)"
    using d(4)[of t] r
    by (intro k_inv_thread[OF i[unfolded k], of _ _ t])
      (simp_all add: stop_inv[OF d(1)] stop_sel[OF d(1)] insert_inv[OF d(2)] subset_insertI2)
  then show ?thesis using r by (simp add: k k_thread_resume_def e)
qed (use i in \<open>simp add: k_thread_resume_def\<close>)

lemma with_schedule_inv:
  assumes i: "k_inv k" and c: "current_thread (snd k) \<noteq> None" and "with_schedule k = Some k1"
  shows "k_inv k1"
proof -
  obtain T s where k: "k = (T, s)" by fastforce
  obtain s1 where s1: "rt_schedule s = Some s1" "k1 = (T, s1)" using assms(3) by (auto simp: k with_schedule_def)
  show ?thesis unfolding s1(2) using schedule_inv[OF _ s1(1)] k_invD(2)[OF i[unfolded k]] c
    by (intro k_inv_sched[OF i[unfolded k]]) (simp_all add: k)
qed

text \<open>A thread that is on no list may change, if it stays off the lists.\<close>

lemma off_list_inv:
  assumes i: "s_inv s" and o: "stat (sthr s t) \<noteq> RT_THREAD_READY" "t \<notin> set (defunct s)"
    and f: "stat (f (sthr s t)) \<noteq> RT_THREAD_READY"
      "stat (f (sthr s t)) = RT_THREAD_SUSPEND \<Longrightarrow>
         unat (cur_prio (f (sthr s t))) < 32 \<and> number_mask (f (sthr s t)) = prio_mask (cur_prio (f (sthr s t)))"
  shows "s_inv (on_thread t f s)"
proof (rule s_invI)
  note d = s_invD[OF i]
  show "u \<in> set (priority_table (on_thread t f s) p) \<longleftrightarrow>
      stat (sthr (on_thread t f s) u) = RT_THREAD_READY \<and> prio_of (on_thread t f s) u = p" for p u
    using d(2)[of u p] o(1) f(1) by auto
  show "prio_of (on_thread t f s) u < 32 \<and>
      number_mask (sthr (on_thread t f s) u) = prio_mask (cur_prio (sthr (on_thread t f s) u))"
    if "stat (sthr (on_thread t f s) u) = RT_THREAD_READY \<or> stat (sthr (on_thread t f s) u) = RT_THREAD_SUSPEND" for u
    using d(3)[of u] f that by (cases "u = t") simp_all
  show "stat (sthr (on_thread t f s) u) = RT_THREAD_CLOSE" if "u \<in> set (defunct (on_thread t f s))" for u
    using d(6)[of u] o(2) that by auto
qed (use s_invD[OF i] in simp_all)

lemma sched_boot_inv:
  assumes "\<forall>t. stat (sthr s t) = RT_THREAD_CLOSE" and "timer_list T = []"
  shows "k_inv (T, rt_system_scheduler_init s)"
  using assms by (intro k_invI s_invI) (simp_all add: rt_system_scheduler_init_def timer_inv_def timer_order_def)

lemma thread_init_inv:
  assumes i: "k_inv k" and t: "stat (sthr (snd k) t) = RT_THREAD_CLOSE" "t \<notin> set (defunct (snd k))" and p: "p < 32"
    and z: "t = 0 \<longrightarrow> p = 31"
  shows "k_inv (snd (rt_thread_init t sys p tick k))"
proof -
  obtain T s where k: "k = (T, s)" by fastforce
  note d = k_invD[OF i[unfolded k]]
  have l: "t \<notin> set (timer_list T)" using d(3)[of t] t(1) k by auto
  have c: "t = 0 \<Longrightarrow> current_thread s = None" using d(9) t(1) k by (cases "current_thread s") auto
  let ?f = "\<lambda>th. th\<lparr>stat := RT_THREAD_INIT, cur_prio := p, init_prio := p, slice_ticks := tick,
            remaining_tick := tick, serror := 0, has_cleanup := False, is_system := sys\<rparr>"
  have "s_inv (on_thread t ?f s)" using d(2) t k by (intro off_list_inv) simp_all
  then have "k_inv (rt_timer_init t 0 0 T, on_thread t ?f s)"
    using p z c l by (intro k_inv_thread[OF i[unfolded k], of _ _ t] timer_init_inv[OF d(1)])
      (auto simp: rt_timer_init_def split: if_splits)
  then show ?thesis by (simp add: k rt_thread_init_def)
qed

lemma startup_inv:
  assumes i: "k_inv k" and t: "stat (sthr (snd k) t) = RT_THREAD_INIT" and r: "rt_thread_startup t k = Some k1"
  shows "k_inv k1"
proof -
  obtain T s where k: "k = (T, s)" by fastforce
  note d = k_invD[OF i[unfolded k]]
  let ?s = "on_thread t (\<lambda>th. th\<lparr>cur_prio := init_prio th, number_mask := prio_mask (init_prio th),
      stat := RT_THREAD_SUSPEND\<rparr>) s"
  have st: "stat (sthr s t) = RT_THREAD_INIT" using t k by simp
  have p: "unat (init_prio (sthr s t)) < 32" using d(5)[OF st] by (simp add: word_less_nat_alt)
  have nd: "t \<notin> set (defunct s)" using s_invD(6)[OF d(2), of t] st by auto
  have i1: "s_inv ?s" using d(2) st nd p by (intro off_list_inv) simp_all
  then have e: "tlist_remove t ?s = ?s" using tlist_remove_id[of ?s t] by simp
  let ?k2 = "(snd (rt_timer_stop t T), rt_schedule_insert_thread t ?s)"
  have "s_inv (rt_schedule_insert_thread t ?s)" using insert_inv[OF i1] by simp
  then have k2: "k_inv ?k2" using d(4)[of t] d(6,9) st
    by (intro k_inv_thread[OF i[unfolded k], of _ _ t])
      (auto simp: stop_inv[OF d(1)] stop_sel[OF d(1)] word_less_nat_alt)
  have "k_thread_resume t (T, ?s) = (0, ?k2)" by (simp add: k_thread_resume_def e)
  then show ?thesis using r k2 with_schedule_inv[OF k2, of k1]
    by (simp add: rt_thread_startup_def k Let_def split: if_splits)
qed

lemma wait_inv:
  assumes i: "k_inv k" and t: "stat (sthr (snd k) t) = RT_THREAD_SUSPEND" and n: "n < RT_TICK_HALF"
  shows "k_inv (snd (rt_timer_start t (snd (rt_timer_control t (SET_TIME n) (fst k)))), snd k)"
proof -
  obtain T s where k: "k = (T, s)" by fastforce
  note d = k_invD[OF i[unfolded k]]
  let ?T = "snd (rt_timer_control t (SET_TIME n) T)"
  have iT: "timer_inv ?T" by (rule set_time_inv[OF d(1)])
  have "timer_inv (snd (rt_timer_start t ?T))" using start_inv[OF iT] n by simp
  moreover have "t \<noteq> 0" using d(8) t k by (intro notI) simp
  ultimately show ?thesis unfolding k using t d(2) d(4)[of t]
    by (intro k_inv_thread[OF i[unfolded k], of _ _ t]) (auto simp: start_sel[OF iT] k)
qed

lemma rotate_inv:
  assumes i: "s_inv s" and r: "stat (sthr s t) = RT_THREAD_READY"
  shows "s_inv (s\<lparr>priority_table := (priority_table s)(prio_of s t := remove1 t (priority_table s (prio_of s t)) @ [t])\<rparr>)"
    (is "s_inv ?s")
proof (rule s_invI)
  note d = s_invD[OF i]
  have m: "t \<in> set (priority_table s (prio_of s t))" "distinct (priority_table s (prio_of s t))"
    using d(1) d(2)[of t] r by simp_all
  show "distinct (priority_table ?s p)" for p using d(1)[of p] m by simp
  show "u \<in> set (priority_table ?s p) \<longleftrightarrow> stat (sthr ?s u) = RT_THREAD_READY \<and> prio_of ?s u = p" for p u
    using d(2)[of u p] m by auto
  show "bit (ready_group ?s) p \<longleftrightarrow> priority_table ?s p \<noteq> []" if "p < 32" for p
    using d(4)[OF that] m by auto
  show "prio_of ?s u < 32 \<and> number_mask (sthr ?s u) = prio_mask (cur_prio (sthr ?s u))"
    if "stat (sthr ?s u) = RT_THREAD_READY \<or> stat (sthr ?s u) = RT_THREAD_SUSPEND" for u
    using d(3)[of u] that by simp
  show "distinct (defunct ?s)" using d(5) by simp
  show "stat (sthr ?s u) = RT_THREAD_CLOSE" if "u \<in> set (defunct ?s)" for u using d(6)[of u] that by simp
qed

lemma yield_inv:
  assumes i: "s_inv s" and y: "rt_thread_yield s = Some s1"
  shows "s_inv s1 \<and> sthr s1 = sthr s \<and> lock_nest s1 = lock_nest s \<and> defunct s1 = defunct s \<and>
    current_thread s \<noteq> None \<and> current_thread s1 \<noteq> None"
proof -
  obtain t where c: "current_thread s = Some t" using y by (auto simp: rt_thread_yield_def split: option.splits)
  let ?q = "priority_table s (prio_of s t)"
  let ?s = "s\<lparr>priority_table := (priority_table s)(prio_of s t := remove1 t ?q @ [t])\<rparr>"
  show ?thesis
  proof (cases "stat (sthr s t) = RT_THREAD_READY \<and> length ?q > 1")
    case True
    then have "rt_schedule ?s = Some s1" using y c by (simp add: rt_thread_yield_def Let_def)
    then show ?thesis using schedule_inv[of ?s s1] rotate_inv[OF i, of t] True c by simp
  next
    case False
    then have "s1 = s" using y c by (auto simp: rt_thread_yield_def Let_def)
    then show ?thesis using i c by simp
  qed
qed

lemma yield_returns:
  assumes i: "s_inv s" and c: "current_thread s = Some t"
  shows "\<exists>s1. rt_thread_yield s = Some s1"
  using schedule_returns[OF rotate_inv[OF i], of t t] c by (auto simp: rt_thread_yield_def Let_def)

lemma sleep_inv:
  assumes i: "k_inv k" and t: "current_thread (snd k) = Some t" "t \<noteq> 0" "n < RT_TICK_HALF"
    "stat (sthr (snd k) t) = RT_THREAD_READY" and r: "rt_thread_sleep n k = Some k1"
  shows "k_inv k1"
proof -
  obtain T s where k1: "snd (k_thread_suspend t k) = (T, s)" by fastforce
  have "k_inv (T, s)" using suspend_inv[OF i t(2)] k1 by simp
  moreover have s: "stat (sthr s t) = RT_THREAD_SUSPEND" "current_thread s \<noteq> None"
    using t(1,4) k1 by (auto simp: k_thread_suspend_def)
  ultimately have "k_inv (snd (rt_timer_start t (snd (rt_timer_control t (SET_TIME n) T))), s)"
    using wait_inv[of "(T, s)" t n] t(3) by simp
  then show ?thesis using with_schedule_inv[of "(snd (rt_timer_start t (snd (rt_timer_control t (SET_TIME n) T))), s)"] s r t(1) k1
    by (simp add: rt_thread_sleep_def)
qed

lemma priority_inv:
  assumes i: "k_inv k" and t: "t \<noteq> 0" and p: "p < 32"
    and r: "stat (sthr (snd k) t) = RT_THREAD_READY \<or> stat (sthr (snd k) t) = RT_THREAD_SUSPEND"
  shows "k_inv (fst k, change_prio t p (snd k))"
proof -
  obtain T s where k: "k = (T, s)" by fastforce
  note d = k_invD[OF i[unfolded k]]
  let ?f = "on_thread t (\<lambda>th. th\<lparr>cur_prio := p, number_mask := prio_mask p\<rparr>)"
  have p32: "unat p < 32" using p by (simp add: word_less_nat_alt)
  have f: "s_inv (?f x)" if "s_inv x" "stat (sthr x t) = RT_THREAD_SUSPEND" for x
    using that p32 s_invD(6)[OF that(1), of t] by (intro off_list_inv) auto
  have "s_inv (change_prio t p s)"
  proof (cases "stat (sthr s t) = RT_THREAD_READY")
    case True
    let ?g = "on_thread t (\<lambda>th. th\<lparr>stat := RT_THREAD_SUSPEND\<rparr>)"
    have "s_inv (rt_schedule_insert_thread t (?f (?g (rt_schedule_remove_thread t s))))"
      using remove_inv[OF d(2), of t RT_THREAD_SUSPEND] True by (intro insert_inv f) simp_all
    moreover have "?f (?g x) = ?g (?f x)" for x by (cases "sthr x t") (simp add: on_thread_def)
    ultimately show ?thesis using True by (simp add: change_prio_def Let_def)
  next
    case False
    then show ?thesis using f[OF d(2)] r k by (simp add: change_prio_def Let_def)
  qed
  moreover have "sthr (change_prio t p s) u = (if u = t then (sthr s t)\<lparr>cur_prio := p, number_mask := prio_mask p\<rparr> else sthr s u)" for u
    by (simp add: change_prio_def Let_def)
  moreover have "current_thread (change_prio t p s) = current_thread s" by (simp add: change_prio_def Let_def)
  ultimately show ?thesis unfolding k using t r d(1) d(3)[of t] d(4)[of t] k
    by (intro k_inv_thread[OF i[unfolded k], of _ _ t]) auto
qed

lemma close_inv:
  assumes i: "k_inv k" and t: "t \<noteq> 0"
    and r: "stat (sthr (snd k) t) = RT_THREAD_READY \<or> stat (sthr (snd k) t) = RT_THREAD_SUSPEND"
  shows "k_inv (close_thread b t k)" "current_thread (snd (close_thread b t k)) = current_thread (snd k)"
proof -
  obtain T s where k: "k = (T, s)" by fastforce
  note d = k_invD[OF i[unfolded k]]
  let ?s = "on_thread t (\<lambda>th. th\<lparr>stat := RT_THREAD_CLOSE\<rparr>) (rt_schedule_remove_thread t s)"
  have s1: "s_inv ?s" using remove_inv[OF d(2)] r k by simp
  have "t \<notin> set (defunct s)" using s_invD(6)[OF d(2), of t] r k by auto
  then have nd: "t \<notin> set (defunct ?s)"
    using notin_set_remove1 by (auto simp: rt_schedule_remove_thread_def tlist_remove_def Let_def)
  have "s_inv (?s\<lparr>defunct := t # defunct ?s\<rparr>)"
  proof (rule s_invI)
    note e = s_invD[OF s1]
    show "distinct (defunct (?s\<lparr>defunct := t # defunct ?s\<rparr>))" using e(5) nd by simp
    show "stat (sthr (?s\<lparr>defunct := t # defunct ?s\<rparr>) u) = RT_THREAD_CLOSE" if "u \<in> set (defunct (?s\<lparr>defunct := t # defunct ?s\<rparr>))" for u
      using e(6)[of u] that by auto
  qed (use s_invD[OF s1] in simp_all)
  then have "s_inv (snd (close_thread b t k))" using s1 by (simp add: close_thread_def k Let_def)
  moreover have "sthr (snd (close_thread b t k)) u = (if u = t then (sthr s t)\<lparr>stat := RT_THREAD_CLOSE\<rparr> else sthr s u)" for u
    by (simp add: close_thread_def k Let_def)
  moreover show c: "current_thread (snd (close_thread b t k)) = current_thread (snd k)"
    by (simp add: close_thread_def k Let_def)
  ultimately have "k_inv (snd (rt_timer_detach t T), snd (close_thread b t k))"
    using t k by (intro k_inv_thread[OF i[unfolded k], of _ _ t]) (auto simp: detach_inv[OF d(1)])
  then show "k_inv (close_thread b t k)" by (simp add: close_thread_def k Let_def)
qed

lemma idle_reap_set: "set (snd (idle_reap sys ts)) \<subseteq> set ts" "distinct ts \<Longrightarrow> distinct (snd (idle_reap sys ts))"
  by (induction ts) (auto simp: case_prod_beta)

lemma reap_inv: "k_inv k \<Longrightarrow> k_inv (fst k, snd (rt_thread_idle_excute (snd k)))"
proof -
  assume i: "k_inv k"
  obtain T s where k: "k = (T, s)" by fastforce
  note d = k_invD[OF i[unfolded k]]
  let ?r = "snd (idle_reap (\<lambda>t. is_system (sthr s t)) (defunct s))"
  have "s_inv (s\<lparr>defunct := ?r\<rparr>)"
  proof (rule s_invI)
    note e = s_invD[OF d(2)]
    show "distinct (defunct (s\<lparr>defunct := ?r\<rparr>))" using e(5) idle_reap_set(2) by simp
    show "stat (sthr (s\<lparr>defunct := ?r\<rparr>) u) = RT_THREAD_CLOSE" if "u \<in> set (defunct (s\<lparr>defunct := ?r\<rparr>))" for u
      using e(6)[of u] that idle_reap_set(1) by auto
  qed (use s_invD[OF d(2)] in simp_all)
  then have "k_inv (T, s\<lparr>defunct := ?r\<rparr>)" by (intro k_inv_sched[OF i[unfolded k]]) simp_all
  then show "k_inv (fst k, snd (rt_thread_idle_excute (snd k)))"
    by (simp add: k rt_thread_idle_excute_def case_prod_beta Let_def)
qed

section \<open>The tick\<close>

text \<open>The current thread is ready, as it is after the scheduler ran unlocked.\<close>

definition cur_ready :: "sched \<Rightarrow> bool" where
  "cur_ready s \<longleftrightarrow> (\<exists>c. current_thread s = Some c \<and> stat (sthr s c) = RT_THREAD_READY)"

lemma schedule_cur_ready:
  assumes i: "s_inv s" and r: "rt_schedule s = Some s1" and c: "lock_nest s = 0 \<or> cur_ready s"
  shows "cur_ready s1"
proof (cases "lock_nest s = 0")
  case True
  then obtain p t where t: "highest_ready s = Some (p, t)" using r by (auto simp: rt_schedule_def)
  then have "t \<in> set (priority_table s p)" by (auto simp: highest_ready_def Let_def split: if_splits list.splits)
  then have "stat (sthr s t) = RT_THREAD_READY" using s_invD(2)[OF i] by simp
  then show ?thesis using r t True by (auto simp: rt_schedule_def cur_ready_def)
next
  case False
  then show ?thesis using r c by (simp add: rt_schedule_def)
qed

lemma cur_ready_cong:
  "current_thread s = current_thread s1 \<Longrightarrow> (\<And>c. stat (sthr s c) = RT_THREAD_READY \<Longrightarrow> stat (sthr s1 c) = RT_THREAD_READY) \<Longrightarrow>
   cur_ready s \<Longrightarrow> cur_ready s1"
  by (auto simp: cur_ready_def)

lemma on_thread_cur_ready: "stat (f (sthr s t)) = stat (sthr s t) \<Longrightarrow> cur_ready (on_thread t f s) = cur_ready s"
  by (auto simp: cur_ready_def)

lemma timeout_step:
  assumes i: "s_inv s" and t: "stat (sthr s t) = RT_THREAD_SUSPEND"
  shows "\<exists>s1. k_thread_timeout t s = Some s1 \<and> s_inv s1 \<and> defunct s1 = defunct s \<and> lock_nest s1 = lock_nest s \<and>
    (current_thread s \<noteq> None \<longrightarrow> current_thread s1 \<noteq> None) \<and> (cur_ready s \<longrightarrow> cur_ready s1) \<and>
    (\<forall>u. sthr s1 u = (if u = t then (sthr s t)\<lparr>serror := - RT_ETIMEOUT, stat := RT_THREAD_READY\<rparr> else sthr s u))"
proof -
  let ?e = "on_thread t (\<lambda>th. th\<lparr>serror := - RT_ETIMEOUT\<rparr>) s"
  have e: "s_inv ?e" using i by (rule on_thread_inv) simp_all
  then have r: "tlist_remove t ?e = ?e" using t by (intro tlist_remove_id) simp_all
  let ?s = "rt_schedule_insert_thread t ?e"
  have s: "s_inv ?s" using insert_inv[OF e] t by simp
  obtain s1 where "rt_schedule ?s = Some s1" using schedule_returns[OF s, of t] by auto
  moreover from schedule_inv[OF s this] have "s_inv s1" "sthr s1 = sthr ?s" "defunct s1 = defunct s"
    "lock_nest s1 = lock_nest s" "current_thread s \<noteq> None \<longrightarrow> current_thread s1 \<noteq> None" by simp_all
  moreover have "cur_ready s1" if "cur_ready s"
    using schedule_cur_ready[OF s calculation(1)] cur_ready_cong[of s ?s] that by simp
  ultimately show ?thesis by (simp add: k_thread_timeout_def r)
qed

lemma yield_cur_ready:
  assumes i: "s_inv s" and y: "rt_thread_yield s = Some s1" and r: "cur_ready s"
  shows "cur_ready s1"
proof -
  obtain t where c: "current_thread s = Some t" "stat (sthr s t) = RT_THREAD_READY" using r by (auto simp: cur_ready_def)
  let ?s = "s\<lparr>priority_table := (priority_table s)(prio_of s t := remove1 t (priority_table s (prio_of s t)) @ [t])\<rparr>"
  have "cur_ready ?s" using r cur_ready_cong[of s ?s] by simp
  then show ?thesis
    using schedule_cur_ready[OF rotate_inv[OF i c(2)]] y r c by (auto simp: rt_thread_yield_def Let_def split: if_splits)
qed

lemma slice_step:
  assumes i: "s_inv s" and c: "current_thread s = Some t"
  shows "\<exists>s1. tick_slice s = Some s1 \<and> s_inv s1 \<and> current_thread s1 \<noteq> None \<and> lock_nest s1 = lock_nest s \<and>
    defunct s1 = defunct s \<and> (cur_ready s \<longrightarrow> cur_ready s1) \<and>
    (\<forall>v. sthr s1 v = (if v = t then (sthr s t)\<lparr>remaining_tick :=
       (if remaining_tick (sthr s t) = 1 then slice_ticks (sthr s t) else remaining_tick (sthr s t) - 1)\<rparr> else sthr s v))"
proof -
  let ?a = "on_thread t (\<lambda>th. th\<lparr>remaining_tick := remaining_tick th - 1\<rparr>) s"
  let ?b = "on_thread t (\<lambda>th. th\<lparr>remaining_tick := slice_ticks th\<rparr>) ?a"
  have a: "s_inv ?a" using i by (rule on_thread_inv) simp_all
  then have b: "s_inv ?b" by (rule on_thread_inv) simp_all
  show ?thesis
  proof (cases "remaining_tick (sthr s t) = 1")
    case True
    have "\<exists>s1. rt_thread_yield ?b = Some s1"
      using yield_returns[OF b] c by simp
    then obtain s1 where s1: "rt_thread_yield ?b = Some s1" by blast
    have "cur_ready s1" if "cur_ready s"
      using yield_cur_ready[OF b s1] that by (simp add: on_thread_cur_ready)
    then show ?thesis using yield_inv[OF b s1] s1 True c by (simp add: tick_slice_def Let_def)
  next
    case False
    then show ?thesis using a c by (auto simp: tick_slice_def Let_def on_thread_cur_ready)
  qed
qed

text \<open>
  What the functions of the due timers need, and what they have done so far: \<open>ds\<close> are all due timers, \<open>ts\<close> those
  whose function is still to run, \<open>s0\<close> is the scheduler before the first of them.
\<close>

definition firing :: "nat list \<Rightarrow> sched \<Rightarrow> nat list \<Rightarrow> sched \<Rightarrow> bool" where
  "firing ds s0 ts s \<longleftrightarrow>
     s_inv s \<and> current_thread s \<noteq> None \<and> distinct ts \<and> set ts \<subseteq> set ds \<and> lock_nest s = lock_nest s0 \<and>
     (cur_ready s0 \<longrightarrow> cur_ready s) \<and> (\<forall>t \<in> set ds. stat (sthr s0 t) = RT_THREAD_SUSPEND) \<and>
     (\<forall>u. sthr s u = (if u \<in> set ds - set ts
        then (sthr s0 u)\<lparr>serror := - RT_ETIMEOUT, stat := RT_THREAD_READY\<rparr> else sthr s0 u))"

lemma firing_step:
  assumes "firing ds s0 (t # ts) s"
  shows "thread_fire t (T, s) = Some (T, the (k_thread_timeout t s)) \<and> firing ds s0 ts (the (k_thread_timeout t s))"
proof -
  have f: "s_inv s" "current_thread s \<noteq> None" "t \<notin> set ts" "distinct ts" "t \<in> set ds" "set ts \<subseteq> set ds"
      "lock_nest s = lock_nest s0" "cur_ready s0 \<longrightarrow> cur_ready s" "sthr s t = sthr s0 t" "stat (sthr s0 t) = RT_THREAD_SUSPEND"
    using assms by (simp_all add: firing_def)
  obtain s1 where s1: "k_thread_timeout t s = Some s1" "s_inv s1" "lock_nest s1 = lock_nest s" "current_thread s1 \<noteq> None" "cur_ready s \<longrightarrow> cur_ready s1"
      "\<forall>u. sthr s1 u = (if u = t then (sthr s t)\<lparr>serror := - RT_ETIMEOUT, stat := RT_THREAD_READY\<rparr> else sthr s u)"
    using timeout_step[OF f(1), of t] f(2,9,10) by auto
  have "sthr s1 u = (if u \<in> set ds - set ts
      then (sthr s0 u)\<lparr>serror := - RT_ETIMEOUT, stat := RT_THREAD_READY\<rparr> else sthr s0 u)" for u
  proof (cases "u = t")
    case True
    then show ?thesis using s1(6) f by simp
  next
    case False
    then show ?thesis using s1(6) assms by (simp add: firing_def)
  qed
  then have "firing ds s0 ts s1" using s1 f assms by (simp add: firing_def)
  then show ?thesis by (simp add: thread_fire_def s1(1))
qed

lemma tick_step:
  assumes i: "k_inv (T, s)" and c: "current_thread s = Some t"
  shows "\<exists>T1 s1. rt_tick_increase (T, s) = Some (T1, s1) \<and> k_inv (T1, s1) \<and> current_thread s1 \<noteq> None \<and>
    rt_tick T1 = rt_tick T + 1 \<and> lock_nest s1 = lock_nest s \<and> (cur_ready s \<longrightarrow> cur_ready s1) \<and>
    set (timer_list T1) = set (timer_list T) - set (next_due T) \<and>
    (\<forall>u. u \<notin> set (next_due T) \<longrightarrow> timer_of T1 u = timer_of T u) \<and>
    (\<forall>u. stat (sthr s1 u) = (if u \<in> set (next_due T) then RT_THREAD_READY else stat (sthr s u)) \<and>
       cur_prio (sthr s1 u) = cur_prio (sthr s u) \<and>
       serror (sthr s1 u) = (if u \<in> set (next_due T) then - RT_ETIMEOUT else serror (sthr s u)))"
proof -
  note d = k_invD[OF i]
  obtain s0 where s0: "tick_slice s = Some s0" "s_inv s0" "current_thread s0 \<noteq> None" "lock_nest s0 = lock_nest s" "cur_ready s \<longrightarrow> cur_ready s0"
      "\<forall>v. sthr s0 v = (if v = t then (sthr s t)\<lparr>remaining_tick :=
         (if remaining_tick (sthr s t) = 1 then slice_ticks (sthr s t) else remaining_tick (sthr s t) - 1)\<rparr> else sthr s v)"
    using slice_step[OF d(2) c] by blast
  have th: "stat (sthr s0 v) = stat (sthr s v)" "cur_prio (sthr s0 v) = cur_prio (sthr s v)"
      "init_prio (sthr s0 v) = init_prio (sthr s v)" "serror (sthr s0 v) = serror (sthr s v)" for v
    using s0(6) by simp_all
  have nd: "set (next_due T) \<subseteq> set (timer_list T)" "distinct (next_due T)"
    using d(1) by (auto simp: next_due_def timer_inv_def)
  have np: "\<not> periodic u T" if "u \<in> set (timer_list T)" for u using d(3)[OF that] d(4)[of u] by simp
  then have po: "periods_ok T" by (simp add: periods_ok_def)
  have f0: "firing (next_due T) s0 (next_due T) s0"
    using s0 nd d(3) th by (auto simp: firing_def)
  let ?f = "\<lambda>t x. the (k_thread_timeout t x)"
  let ?s1 = "fold ?f (next_due T) s0"
  obtain T1 where T1: "rt_timer_check thread_fire (tick_forward T, s0) = Some (T1, ?s1)" "firing (next_due T) s0 [] ?s1"
      "timer_inv T1" "rt_tick T1 = rt_tick T + 1"
      "\<forall>u. u \<in> set (timer_list T1) \<longleftrightarrow> u \<in> set (timer_list T) \<and> (u \<notin> set (next_due T) \<or> periodic u T)"
      "\<forall>u. u \<notin> set (next_due T) \<longrightarrow> timer_of T1 u = timer_of T u"
      "\<forall>u \<in> set (next_due T). if periodic u T then timeout_tick (timer_of T1 u) = rt_tick T1 + timer_ticks (timer_of T u)
         else \<not> activated u T1"
      "\<forall>u. periodic u T1 = periodic u T"
    using tick_fires[OF d(1) po, of "firing (next_due T) s0" s0 thread_fire ?f, OF f0 firing_step] by blast
  have l: "set (timer_list T1) = set (timer_list T) - set (next_due T)" using T1(5) np nd(1) by auto
  have s1: "s_inv ?s1" "current_thread ?s1 \<noteq> None" "lock_nest ?s1 = lock_nest s0" "cur_ready s0 \<longrightarrow> cur_ready ?s1"
      "sthr ?s1 u = (if u \<in> set (next_due T)
        then (sthr s0 u)\<lparr>serror := - RT_ETIMEOUT, stat := RT_THREAD_READY\<rparr> else sthr s0 u)" for u
    using T1(2) by (simp_all add: firing_def)
  have z: "stat (sthr s 0) = RT_THREAD_READY" "0 \<notin> set (next_due T)"
    using d(9) c d(3)[of 0] d(8) nd(1) by auto
  have "k_inv (T1, ?s1)"
  proof (rule k_invI)
    show "stat (sthr ?s1 u) = RT_THREAD_SUSPEND" if "u \<in> set (timer_list T1)" for u
      using that l d(3)[of u] by (simp add: s1(5) th)
    show "\<not> periodic u T1" if u: "stat (sthr ?s1 u) \<noteq> RT_THREAD_CLOSE" for u
    proof -
      have "stat (sthr s u) \<noteq> RT_THREAD_CLOSE"
        using u nd(1) d(3)[of u] by (auto simp: s1(5) th split: if_splits)
      then show ?thesis using d(4)[of u] T1(8) by simp
    qed
    show "init_prio (sthr ?s1 u) < 32" if "stat (sthr ?s1 u) = RT_THREAD_INIT" for u
      using that d(5)[of u] by (simp add: s1(5) th split: if_splits)
  qed (use T1(3) s1 z d(6,7) in \<open>simp_all add: th\<close>)
  then show ?thesis using T1(1,4,6) s0(1,4,5) s1 l th
    by (intro exI[of _ T1] exI[of _ ?s1]) (simp add: rt_tick_increase_def)
qed

lemma tick_inv: "k_inv k \<Longrightarrow> rt_tick_increase k = Some k1 \<Longrightarrow> k_inv k1"
proof -
  assume i: "k_inv k" and r: "rt_tick_increase k = Some k1"
  obtain T s where k: "k = (T, s)" by fastforce
  obtain t where "current_thread s = Some t"
    using r by (auto simp: k rt_tick_increase_def tick_slice_def split: option.splits)
  then show "k_inv k1" using tick_step[of T s t] i r k by auto
qed

lemma k_reach_inv: "k_reach k \<Longrightarrow> k_inv k"
proof (induction rule: k_reach.induct)
  case (boot s T)
  then show ?case by (rule sched_boot_inv)
next
  case (init k t p sys tick)
  then show ?case by (intro thread_init_inv)
next
  case (startup k t k1)
  then show ?case by (intro startup_inv[of k t k1])
next
  case (start k s)
  obtain T s0 where k: "k = (T, s0)" by fastforce
  have "sthr s = sthr s0" "s_inv s"
    using start.hyps(3) k_invD(2)[of T s0] start.IH by (auto simp: k rt_system_scheduler_start_def)
  then show ?case using k_inv_start[of T s0 s] start.IH start.hyps(2) by (simp add: k)
next
  case (schedule k k1)
  then show ?case using with_schedule_inv[of k k1] by simp
next
  case (suspend k t)
  then show ?case by (intro suspend_inv)
next
  case (resume k t)
  then show ?case by (intro resume_inv)
next
  case (wait k t n)
  then show ?case by (intro wait_inv)
next
  case (yield_cpu k s)
  obtain T s0 where k: "k = (T, s0)" by fastforce
  have "s_inv s0" using k_invD(2) yield_cpu.IH k by simp
  from yield_inv[OF this] yield_cpu.hyps(2) k have "s_inv s" "sthr s = sthr s0" "current_thread s0 \<noteq> None" by simp_all
  then show ?case using k_inv_sched[of T s0 s] yield_cpu.IH by (simp add: k)
next
  case (sleep k t n k1)
  then show ?case by (intro sleep_inv[of k t n k1])
next
  case (priority k t p k1)
  then show ?case using priority_inv[of k t p] by (auto simp: rt_thread_control_def)
next
  case (detach k t)
  then show ?case by (simp add: rt_thread_detach_def close_inv)
next
  case (delete k t)
  then show ?case by (simp add: rt_thread_delete_def close_inv)
next
  case (exit k t k1)
  let ?b = "\<not> (is_system (sthr (snd k) t) \<and> \<not> has_cleanup (sthr (snd k) t))"
  have c: "k_inv (close_thread ?b t k)" "current_thread (snd (close_thread ?b t k)) = Some t"
    using close_inv[OF exit.IH exit.hyps(3), of ?b] exit.hyps(2,4) by simp_all
  have "with_schedule (close_thread ?b t k) = Some k1" using exit.hyps(2,5) by (simp add: rt_thread_exit_def)
  then show ?case using with_schedule_inv[OF c(1)] c(2) by simp
next
  case (reap k)
  then show ?case by (intro reap_inv)
next
  case (enter_critical k)
  obtain T s0 where k: "k = (T, s0)" by fastforce
  have "s_inv (rt_enter_critical s0)"
    using k_invD(2)[OF enter_critical.IH[unfolded k]] by (simp add: rt_enter_critical_def)
  then show ?case using k_inv_sched[of T s0 "rt_enter_critical s0"] enter_critical.IH
    by (simp add: k) (simp add: rt_enter_critical_def)
next
  case (exit_critical k s)
  obtain T s0 where k: "k = (T, s0)" by fastforce
  let ?n = "lock_nest s0 - 1"
  have l: "s_inv (s0\<lparr>lock_nest := n\<rparr>)" for n
    using k_invD(2)[OF exit_critical.IH[unfolded k]] by simp
  have "s_inv s \<and> sthr s = sthr s0"
  proof (cases "sint ?n \<le> 0")
    case True
    then have "rt_schedule (s0\<lparr>lock_nest := 0\<rparr>) = Some s"
      using exit_critical.hyps(3) by (simp add: k rt_exit_critical_def Let_def)
    from schedule_inv[OF l this] show ?thesis by simp
  next
    case False
    then have "s = s0\<lparr>lock_nest := ?n\<rparr>" using exit_critical.hyps(3) by (simp add: k rt_exit_critical_def Let_def)
    then show ?thesis using l by simp
  qed
  then have "k_inv (T, s)" using exit_critical.hyps(2) by (intro k_inv_sched[OF exit_critical.IH[unfolded k]]) (simp_all add: k)
  then show ?case by (simp add: k)
next
  case (tick k k1)
  then show ?case using tick_inv[of k k1] by simp
qed

end
