(* ===== verification/Kern_Thread.thy ===== *)
theory Kern_Thread
  imports Kern_Life
begin

unbundle bit_operations_syntax

text \<open>
  What the threads can rely on: the scheduler runs the most urgent one, threads of the same priority take turns, a
  sleeping thread runs again after its time; and the threads that the IPC objects work with are an abstraction of those of
  the scheduler.
\<close>

section \<open>A system with three threads\<close>

definition start_one :: "nat \<Rightarrow> u8 \<Rightarrow> kernel \<Rightarrow> kernel" where
  "start_one t p k = the (rt_thread_startup t (snd (rt_thread_init t True p 5 k)))"

definition power_on :: kernel where
  "power_on =
     (\<lparr>timer_of = \<lambda>_. \<lparr>tflag = 0, timeout_tick = 0, timer_ticks = 0\<rparr>, timer_list = [], rt_tick = 0\<rparr>,
      rt_system_scheduler_init
        \<lparr>sthr = \<lambda>_. \<lparr>stat = RT_THREAD_CLOSE, cur_prio = 0, init_prio = 0, number_mask = 0, slice_ticks = 0,
           remaining_tick = 0, serror = 0, has_cleanup = False, is_system = False\<rparr>,
         priority_table = \<lambda>_. [], ready_group = 0, current_thread = None, rt_current_priority = 0, lock_nest = 0,
         defunct = []\<rparr>)"

definition two_workers :: kernel where
  "two_workers =
     (let k = start_one 2 10 (start_one 1 10 (start_one 0 31 power_on))
      in (fst k, the (rt_system_scheduler_start (snd k))))"

lemma start_one_reach:
  assumes "k_reach k" and "current_thread (snd k) = None" and "stat (sthr (snd k) t) = RT_THREAD_CLOSE"
    and "defunct (snd k) = []" and "p < 32" and "t = 0 \<longrightarrow> p = 31"
  shows "k_reach (start_one t p k)" "current_thread (snd (start_one t p k)) = None" "defunct (snd (start_one t p k)) = []"
    "stat (sthr (snd (start_one t p k)) u) = (if u = t then RT_THREAD_READY else stat (sthr (snd k) u))"
    "cur_prio (sthr (snd (start_one t p k)) u) = (if u = t then p else cur_prio (sthr (snd k) u))"
    "lock_nest (snd (start_one t p k)) = lock_nest (snd k)"
    "priority_table (snd (start_one t p k)) q =
      (if q = unat p then priority_table (snd k) q @ [t] else priority_table (snd k) q)"
proof -
  let ?i = "snd (rt_thread_init t True p 5 k)"
  have i: "k_reach ?i" using assms by (intro k_reach.init) simp_all
  have s: "rt_thread_startup t ?i = Some (start_one t p k)"
    using assms(2) by (simp add: start_one_def rt_thread_startup_def rt_thread_init_def k_thread_resume_def Let_def)
  have "stat (sthr (snd ?i) t) = RT_THREAD_INIT" by (simp add: rt_thread_init_def)
  then show "k_reach (start_one t p k)" using i s k_reach.startup by blast
  show "current_thread (snd (start_one t p k)) = None" "defunct (snd (start_one t p k)) = []"
    "stat (sthr (snd (start_one t p k)) u) = (if u = t then RT_THREAD_READY else stat (sthr (snd k) u))"
    "cur_prio (sthr (snd (start_one t p k)) u) = (if u = t then p else cur_prio (sthr (snd k) u))"
    "lock_nest (snd (start_one t p k)) = lock_nest (snd k)"
    using assms(2,4)
    by (simp_all add: start_one_def rt_thread_startup_def rt_thread_init_def k_thread_resume_def Let_def
        rt_schedule_insert_thread_def tlist_remove_def)
  have "t \<notin> set (priority_table (snd k) r)" for r
    using k_reach_inv[OF assms(1)] k_invD(2)[of "fst k" "snd k"] s_invD(2)[of "snd k" t r] assms(3) by simp
  then have "remove1 t (priority_table (snd k) r) = priority_table (snd k) r" for r by (simp add: remove1_idem)
  then show "priority_table (snd (start_one t p k)) q =
      (if q = unat p then priority_table (snd k) q @ [t] else priority_table (snd k) q)"
    using assms(2)
    by (simp add: start_one_def rt_thread_startup_def rt_thread_init_def k_thread_resume_def Let_def
        rt_schedule_insert_thread_def tlist_remove_def)
qed

lemma power_on_sel:
  "k_reach power_on" "current_thread (snd power_on) = None" "defunct (snd power_on) = []"
  "stat (sthr (snd power_on) t) = RT_THREAD_CLOSE" "lock_nest (snd power_on) = 0" "priority_table (snd power_on) q = []"
proof -
  show "k_reach power_on" unfolding power_on_def by (intro k_reach.boot) simp_all
qed (simp_all add: power_on_def rt_system_scheduler_init_def)

lemma two_workers_reach:
  "k_reach two_workers" "current_thread (snd two_workers) = Some 1" "lock_nest (snd two_workers) = 0"
  "stat (sthr (snd two_workers) t) = (if t \<le> 2 then RT_THREAD_READY else RT_THREAD_CLOSE)"
  "prio_of (snd two_workers) 1 = 10" "priority_table (snd two_workers) 10 = [1, 2]"
  "prio_of (snd two_workers) 0 = 31" "prio_of (snd two_workers) 2 = 10"
proof -
  let ?k0 = "start_one 0 31 power_on"
  let ?k1 = "start_one 1 10 ?k0"
  let ?k2 = "start_one 2 10 ?k1"
  note p = power_on_sel
  note r0 = start_one_reach[OF p(1,2), of 0 31, simplified p, simplified]
  note r1 = start_one_reach[OF r0(1,2), of 1 10, simplified r0 p, simplified]
  note r2 = start_one_reach[OF r1(1,2), of 2 10, simplified r1 r0 p, simplified]
  have pr: "cur_prio (sthr (snd ?k2) 1) = 10" "cur_prio (sthr (snd ?k2) 0) = 31" "cur_prio (sthr (snd ?k2) 2) = 10"
    by (simp_all add: r0 r1 r2)
  have st: "stat (sthr (snd ?k2) t) = (if t \<le> 2 then RT_THREAD_READY else RT_THREAD_CLOSE)" for t
    by (auto simp: r0 r1 r2 p)
  have tab: "priority_table (snd ?k2) 10 = [1, 2]" by (simp add: r0 r1 r2 p)
  have iv: "s_inv (snd ?k2)" using k_reach_inv[OF r2(1)] k_invD(2)[of "fst ?k2" "snd ?k2"] by simp
  have one: "stat (sthr (snd ?k2) 1) = RT_THREAD_READY" using st[of 1] by simp
  obtain q t ts where h: "highest_ready (snd ?k2) = Some (q, t)" "priority_table (snd ?k2) q = t # ts"
    "stat (sthr (snd ?k2) t) = RT_THREAD_READY" "prio_of (snd ?k2) t = q"
    "\<forall>v. stat (sthr (snd ?k2) v) = RT_THREAD_READY \<longrightarrow> q \<le> prio_of (snd ?k2) v"
    by (rule ready_first[OF iv one])
  have "t = 0 \<or> t = 1 \<or> t = 2" using h(3) st[of t] by (auto split: if_splits)
  moreover have "q \<le> 10" using h(5) one pr(1) by force
  ultimately have "q = 10" using h(4) pr by auto
  then have "t = 1" using h(2) tab by simp
  then have s: "rt_system_scheduler_start (snd ?k2) = Some ((snd ?k2)\<lparr>current_thread := Some 1\<rparr>)"
    using h(1) by (simp add: rt_system_scheduler_start_def)
  then have w: "two_workers = (fst ?k2, (snd ?k2)\<lparr>current_thread := Some 1\<rparr>)" by (simp add: two_workers_def Let_def)
  show "k_reach two_workers" unfolding w using r2(1) st[of 0] s by (intro k_reach.start) simp_all
  show "current_thread (snd two_workers) = Some 1" "lock_nest (snd two_workers) = 0" by (simp_all add: w r0 r1 r2 p)
  show "stat (sthr (snd two_workers) t) = (if t \<le> 2 then RT_THREAD_READY else RT_THREAD_CLOSE)" for t
    using st[of t] by (simp add: w)
  show "prio_of (snd two_workers) 1 = 10" "priority_table (snd two_workers) 10 = [1, 2]"
    "prio_of (snd two_workers) 0 = 31" "prio_of (snd two_workers) 2 = 10"
    using pr tab by (simp_all add: w)
qed

section \<open>Scheduling\<close>

lemma most_urgent:
  assumes i: "s_inv s" and r: "stat (sthr s u) = RT_THREAD_READY" and l: "lock_nest s = 0"
  shows "\<exists>s1 t ts. rt_schedule s = Some s1 \<and> current_thread s1 = Some t \<and> stat (sthr s t) = RT_THREAD_READY \<and>
    priority_table s (prio_of s t) = t # ts \<and> (\<forall>v. stat (sthr s v) = RT_THREAD_READY \<longrightarrow> prio_of s t \<le> prio_of s v) \<and>
    sthr s1 = sthr s \<and> priority_table s1 = priority_table s \<and> lock_nest s1 = 0 \<and> s_inv s1"
proof -
  obtain p t ts where h: "highest_ready s = Some (p, t)" "priority_table s p = t # ts" "stat (sthr s t) = RT_THREAD_READY"
    "prio_of s t = p" "\<forall>v. stat (sthr s v) = RT_THREAD_READY \<longrightarrow> p \<le> prio_of s v"
    by (rule ready_first[OF i r])
  obtain s1 where s1: "rt_schedule s = Some s1" using schedule_returns[OF i r] by blast
  have "current_thread s1 = Some t" using s1 h(1) l by (auto simp: rt_schedule_def)
  then show ?thesis using s1 schedule_inv[OF i s1] h l by (intro exI[of _ s1] exI[of _ t] exI[of _ ts]) simp
qed

text \<open>C18: Once the system is started, the scheduler runs a ready thread than which no ready thread is more urgent, the first
  of its list, and changes nothing else of the threads and lists; while the scheduler is locked it does nothing.\<close>

theorem schedule_most_urgent:
  assumes "k_reach k" and "current_thread (snd k) \<noteq> None"
  shows "if lock_nest (snd k) \<noteq> 0 then rt_schedule (snd k) = Some (snd k)
    else \<exists>s1 t ts. rt_schedule (snd k) = Some s1 \<and> current_thread s1 = Some t \<and> stat (sthr s1 t) = RT_THREAD_READY \<and>
      priority_table s1 (prio_of s1 t) = t # ts \<and>
      (\<forall>v. stat (sthr s1 v) = RT_THREAD_READY \<longrightarrow> prio_of s1 t \<le> prio_of s1 v) \<and>
      sthr s1 = sthr (snd k) \<and> priority_table s1 = priority_table (snd k)"
proof -
  obtain T s where k: "k = (T, s)" by fastforce
  note d = k_invD[OF k_reach_inv[OF assms(1), unfolded k]]
  have "stat (sthr s 0) = RT_THREAD_READY" using d(9) assms(2) k by simp
  show ?thesis
  proof (cases "lock_nest s = 0")
    case True
    from most_urgent[OF d(2) \<open>stat (sthr s 0) = RT_THREAD_READY\<close> this] True show ?thesis by (auto simp: k)
  qed (simp add: k rt_schedule_def)
qed

theorem schedule_most_urgent_witness:
  "\<exists>s1 t. rt_schedule (snd two_workers) = Some s1 \<and> current_thread s1 = Some t \<and> prio_of s1 t \<le> 10"
proof -
  obtain s1 t where s1: "rt_schedule (snd two_workers) = Some s1" "current_thread s1 = Some t"
    "\<forall>v. stat (sthr s1 v) = RT_THREAD_READY \<longrightarrow> prio_of s1 t \<le> prio_of s1 v" "sthr s1 = sthr (snd two_workers)"
    using schedule_most_urgent[of two_workers] two_workers_reach(1,2,3) by auto
  then have "prio_of s1 t \<le> prio_of s1 1" using two_workers_reach(4)[of 1] by simp
  then show ?thesis using s1 two_workers_reach(5) by auto
qed

section \<open>Taking turns\<close>

primrec yields :: "nat \<Rightarrow> sched \<Rightarrow> sched option" where
  "yields 0 s = Some s"
| "yields (Suc n) s = Option.bind (yields n s) rt_thread_yield"

lemma rotate_nth: "xs \<noteq> [] \<Longrightarrow> hd (rotate n xs) = xs ! (n mod length xs)"
  by (rule hd_rotate_conv_nth)

lemma yield_turn:
  assumes i: "s_inv s" and l: "lock_nest s = 0" and q: "priority_table s p = q" "q \<noteq> []" and c: "current_thread s = Some (hd q)"
    and m: "\<forall>v. stat (sthr s v) = RT_THREAD_READY \<longrightarrow> p \<le> prio_of s v"
  shows "\<exists>s1. rt_thread_yield s = Some s1 \<and> s_inv s1 \<and> lock_nest s1 = 0 \<and> priority_table s1 p = rotate1 q \<and>
    current_thread s1 = Some (hd (rotate1 q)) \<and> sthr s1 = sthr s"
proof -
  obtain t ts where t: "q = t # ts" using q(2) by (cases q) auto
  have r: "stat (sthr s t) = RT_THREAD_READY" "prio_of s t = p" using s_invD(2)[OF i, of t p] q t by auto
  show ?thesis
  proof (cases "ts = []")
    case True
    then show ?thesis using i l c q r t by (simp add: rt_thread_yield_def Let_def)
  next
    case False
    let ?s = "s\<lparr>priority_table := (priority_table s)(prio_of s t := remove1 t (priority_table s (prio_of s t)) @ [t])\<rparr>"
    have tab: "priority_table ?s p = rotate1 q" using q r(2) t by simp
    have iv: "s_inv ?s" by (rule rotate_inv[OF i r(1)])
    obtain s1 u us where s1: "rt_schedule ?s = Some s1" "current_thread s1 = Some u" "stat (sthr ?s u) = RT_THREAD_READY"
      "priority_table ?s (prio_of ?s u) = u # us"
      "\<forall>v. stat (sthr ?s v) = RT_THREAD_READY \<longrightarrow> prio_of ?s u \<le> prio_of ?s v"
      "sthr s1 = sthr ?s" "priority_table s1 = priority_table ?s" "lock_nest s1 = 0" "s_inv s1"
      using most_urgent[OF iv, of t] r l by auto
    have "prio_of s u = p" using s1(3,5) m r by (auto intro: le_antisym)
    then have "rotate1 q = u # us" using s1(4) tab by (metis sched.select_convs(1) sched.surjective sched.update_convs(2))
    moreover have "rt_thread_yield s = Some s1" using s1(1) c q r t False by (simp add: rt_thread_yield_def Let_def)
    ultimately show ?thesis using s1 tab by simp
  qed
qed

text \<open>C20: Threads of the same priority take turns: if each gives up the processor in its turn and no thread is more urgent,
  they run in the order of the list, each once before any runs twice.\<close>

theorem yield_round_robin:
  assumes "k_reach k" and "lock_nest (snd k) = 0" and "current_thread (snd k) = Some t"
    and "priority_table (snd k) p = t # ts" and "\<forall>v. stat (sthr (snd k) v) = RT_THREAD_READY \<longrightarrow> p \<le> prio_of (snd k) v"
  shows "\<exists>s1. yields n (snd k) = Some s1 \<and> priority_table s1 p = rotate n (t # ts) \<and>
    current_thread s1 = Some ((t # ts) ! (n mod length (t # ts)))"
proof -
  have i: "s_inv (snd k)" using k_reach_inv[OF assms(1)] k_invD(2)[of "fst k" "snd k"] by simp
  have "\<exists>s1. yields n (snd k) = Some s1 \<and> s_inv s1 \<and> lock_nest s1 = 0 \<and> priority_table s1 p = rotate n (t # ts) \<and>
    current_thread s1 = Some (hd (rotate n (t # ts))) \<and> sthr s1 = sthr (snd k)"
  proof (induction n)
    case 0
    then show ?case using i assms(2-4) by simp
  next
    case (Suc n)
    then obtain s1 where s1: "yields n (snd k) = Some s1" "s_inv s1" "lock_nest s1 = 0"
      "priority_table s1 p = rotate n (t # ts)" "current_thread s1 = Some (hd (rotate n (t # ts)))" "sthr s1 = sthr (snd k)"
      by blast
    have "rotate n (t # ts) \<noteq> []" by (simp add: rotate_is_Nil_conv)
    from yield_turn[OF s1(2-4) this s1(5)] assms(5) s1(1,6) show ?case by (auto simp: rotate_Suc)
  qed
  then show ?thesis by (auto simp: rotate_nth)
qed

theorem yield_round_robin_witness:
  "\<exists>s1. yields 3 (snd two_workers) = Some s1 \<and> current_thread s1 = Some 2"
proof -
  have "\<forall>v. stat (sthr (snd two_workers) v) = RT_THREAD_READY \<longrightarrow> 10 \<le> prio_of (snd two_workers) v"
  proof (intro allI impI)
    fix v assume "stat (sthr (snd two_workers) v) = RT_THREAD_READY"
    then have "v = 0 \<or> v = 1 \<or> v = 2" using two_workers_reach(4)[of v] by (auto split: if_splits)
    then show "10 \<le> prio_of (snd two_workers) v" using two_workers_reach(5,7,8) by auto
  qed
  from yield_round_robin[OF two_workers_reach(1,3,2,6) this, of 3] show ?thesis by (auto simp flip: numeral_2_eq_2)
qed

section \<open>Sleep\<close>

primrec ticks :: "nat \<Rightarrow> kernel \<Rightarrow> kernel option" where
  "ticks 0 k = Some k"
| "ticks (Suc n) k = Option.bind (ticks n k) rt_tick_increase"

text \<open>Thread \<open>t\<close> sleeps and has \<open>n\<close> ticks to go.\<close>

definition asleep :: "nat \<Rightarrow> nat \<Rightarrow> bool \<Rightarrow> kernel \<Rightarrow> bool" where
  "asleep t n open k \<longleftrightarrow>
     k_inv k \<and> current_thread (snd k) \<noteq> None \<and> (open \<longrightarrow> cur_ready (snd k)) \<and>
     t \<in> set (timer_list (fst k)) \<and> ahead (rt_tick (fst k)) (fst k) t = n"

lemma asleep_stat:
  assumes "asleep t n open k"
  shows "stat (sthr (snd k) t) = RT_THREAD_SUSPEND" "open \<Longrightarrow> current_thread (snd k) \<noteq> Some t"
proof -
  show s: "stat (sthr (snd k) t) = RT_THREAD_SUSPEND"
    using assms k_invD(3)[of "fst k" "snd k" t] by (simp add: asleep_def)
  show "current_thread (snd k) \<noteq> Some t" if "open"
    using assms s that by (auto simp: asleep_def cur_ready_def)
qed

lemma asleep_tick:
  assumes "asleep t n open k" and "1 < n"
  shows "\<exists>k1. rt_tick_increase k = Some k1 \<and> asleep t (n - 1) open k1"
proof -
  obtain T s where k: "k = (T, s)" by fastforce
  have a: "k_inv (T, s)" "current_thread s \<noteq> None" "open \<longrightarrow> cur_ready s" "t \<in> set (timer_list T)"
    "ahead (rt_tick T) T t = n" using assms(1) by (simp_all add: asleep_def k)
  obtain c where c: "current_thread s = Some c" using a(2) by blast
  have nd: "t \<notin> set (next_due T)" using a(5) assms(2) by (simp add: next_due_def)
  obtain T1 s1 where r: "rt_tick_increase (T, s) = Some (T1, s1)" "k_inv (T1, s1)" "current_thread s1 \<noteq> None"
    "rt_tick T1 = rt_tick T + 1" "cur_ready s \<longrightarrow> cur_ready s1" "set (timer_list T1) = set (timer_list T) - set (next_due T)"
    "\<forall>u. u \<notin> set (next_due T) \<longrightarrow> timer_of T1 u = timer_of T u"
    using tick_step[OF a(1) c] by blast
  have "ahead (rt_tick T1) T1 t = unat (timeout_tick (timer_of T t) - rt_tick T - 1)"
    using r(4,7) nd by (simp add: ahead_def algebra_simps)
  also have "\<dots> = n - 1" using a(5) assms(2) unat_sub_cases[of "timeout_tick (timer_of T t) - rt_tick T" 1]
    by (simp add: ahead_def)
  finally show ?thesis using r(1-6) a nd by (intro exI[of _ "(T1, s1)"]) (simp add: asleep_def k)
qed

lemma asleep_last_tick:
  assumes "asleep t n open k" and "n \<le> 1"
  shows "\<exists>k1. rt_tick_increase k = Some k1 \<and> k_inv k1 \<and> stat (sthr (snd k1) t) = RT_THREAD_READY \<and>
    serror (sthr (snd k1) t) = - RT_ETIMEOUT"
proof -
  obtain T s where k: "k = (T, s)" by fastforce
  have a: "k_inv (T, s)" "current_thread s \<noteq> None" "t \<in> set (timer_list T)"
    "ahead (rt_tick T) T t = n" using assms(1) by (simp_all add: asleep_def k)
  obtain c where c: "current_thread s = Some c" using a(2) by blast
  have "t \<in> set (next_due T)" using a assms(2) by (simp add: next_due_def)
  then show ?thesis using tick_step[OF a(1) c] by (auto simp: k)
qed

lemma asleep_ticks:
  assumes "asleep t n open k" and "m < max 1 n"
  shows "\<exists>k1. ticks m k = Some k1 \<and> asleep t (n - m) open k1"
  using assms(2)
proof (induction m)
  case 0
  then show ?case using assms(1) by simp
next
  case (Suc m)
  then have m: "m < max 1 n" "1 < n - m" by linarith+
  from Suc.IH[OF m(1)] obtain k1 where "ticks m k = Some k1" "asleep t (n - m) open k1" by blast
  moreover from asleep_tick[OF this(2) m(2)] obtain k2 where
    "rt_tick_increase k1 = Some k2" "asleep t (n - m - 1) open k2" by blast
  ultimately show ?case by simp
qed

lemma falls_asleep:
  assumes i: "k_inv k" and t: "current_thread (snd k) = Some t" "t \<noteq> 0" "stat (sthr (snd k) t) = RT_THREAD_READY"
    and n: "n < RT_TICK_HALF"
  shows "\<exists>k1. rt_thread_sleep n k = Some k1 \<and> asleep t (unat n) (lock_nest (snd k) = 0) k1"
proof -
  obtain T s where k1: "snd (k_thread_suspend t k) = (T, s)" by fastforce
  have i1: "k_inv (T, s)" using suspend_inv[OF i t(2)] k1 by simp
  have s: "stat (sthr s t) = RT_THREAD_SUSPEND" "current_thread s = Some t" "lock_nest s = lock_nest (snd k)"
    using t k1 by (auto simp: k_thread_suspend_def)
  let ?T = "snd (rt_timer_control t (SET_TIME n) T)"
  let ?T1 = "snd (rt_timer_start t ?T)"
  note d = k_invD[OF i1]
  have iT: "timer_inv ?T" by (rule set_time_inv[OF d(1)])
  have i2: "k_inv (?T1, s)" using wait_inv[OF i1, of t n] s(1) n by simp
  have z: "stat (sthr s 0) = RT_THREAD_READY" using d(9) s(2) by simp
  obtain s1 where s1: "rt_schedule s = Some s1" using schedule_returns[OF d(2) z] by blast
  have w: "with_schedule (?T1, s) = Some (?T1, s1)" by (simp add: with_schedule_def s1)
  have "k_inv (?T1, s1)" using with_schedule_inv[OF i2 _ w] s(2) by simp
  moreover have "current_thread s1 \<noteq> None" using schedule_inv[OF d(2) s1] s(2) by simp
  moreover have "cur_ready s1" if "lock_nest (snd k) = 0" using schedule_cur_ready[OF d(2) s1] s(3) that by simp
  moreover have "t \<in> set (timer_list ?T1)" by (simp add: start_sel[OF iT])
  moreover have "ahead (rt_tick ?T1) ?T1 t = unat n" by (simp add: ahead_def start_result)
  moreover have "rt_thread_sleep n k = Some (?T1, s1)" using w t(1) k1 by (simp add: rt_thread_sleep_def)
  ultimately show ?thesis by (auto simp: asleep_def)
qed

text \<open>C19: A thread that sleeps for \<open>n\<close> ticks, less than half of the range, is suspended, and does not run, until the \<open>n\<close>th
  tick, or the next one if \<open>n\<close> is 0; that tick makes it ready, also where the tick counter wraps around, and
  \<open>rt_thread_sleep\<close> then clears its error.\<close>

theorem sleep_wakes_on_time:
  assumes "k_reach k" and "lock_nest (snd k) = 0" and "current_thread (snd k) = Some t" and "t \<noteq> 0"
    and "stat (sthr (snd k) t) = RT_THREAD_READY" and "n < RT_TICK_HALF"
  shows "\<exists>k1. rt_thread_sleep n k = Some k1 \<and>
    (\<forall>m < max 1 (unat n). \<exists>k2. ticks m k1 = Some k2 \<and> stat (sthr (snd k2) t) = RT_THREAD_SUSPEND \<and>
       current_thread (snd k2) \<noteq> Some t) \<and>
    (\<exists>k2. ticks (max 1 (unat n)) k1 = Some k2 \<and> stat (sthr (snd k2) t) = RT_THREAD_READY \<and>
       serror (sthr (sleep_wake t (snd k2)) t) = 0)"
proof -
  obtain k1 where k1: "rt_thread_sleep n k = Some k1" "asleep t (unat n) True k1"
    using falls_asleep[OF k_reach_inv[OF assms(1)] assms(3-6)] assms(2) by auto
  have "\<exists>k2. ticks m k1 = Some k2 \<and> stat (sthr (snd k2) t) = RT_THREAD_SUSPEND \<and> current_thread (snd k2) \<noteq> Some t"
    if "m < max 1 (unat n)" for m
    using asleep_ticks[OF k1(2) that] asleep_stat by blast
  moreover have "\<exists>k2. ticks (max 1 (unat n)) k1 = Some k2 \<and> stat (sthr (snd k2) t) = RT_THREAD_READY \<and>
       serror (sthr (sleep_wake t (snd k2)) t) = 0"
  proof -
    let ?m = "max 1 (unat n) - 1"
    obtain k2 where k2: "ticks ?m k1 = Some k2" "asleep t (unat n - ?m) True k2" using asleep_ticks[OF k1(2), of ?m] by auto
    have "unat n - ?m \<le> 1" by simp
    from asleep_last_tick[OF k2(2) this] obtain k3 where k3: "rt_tick_increase k2 = Some k3"
      "stat (sthr (snd k3) t) = RT_THREAD_READY" "serror (sthr (snd k3) t) = - RT_ETIMEOUT" by blast
    have "max 1 (unat n) = Suc ?m" by simp
    then have "ticks (max 1 (unat n)) k1 = Some k3" using k2(1) k3(1) by (metis bind.bind_lunit ticks.simps(2))
    then show ?thesis using k3 by (simp add: sleep_wake_def)
  qed
  ultimately show ?thesis using k1(1) by blast
qed

theorem sleep_wakes_on_time_witness:
  "\<exists>k1 k2. rt_thread_sleep 3 two_workers = Some k1 \<and> ticks 3 k1 = Some k2 \<and> stat (sthr (snd k2) 1) = RT_THREAD_READY"
proof -
  have "stat (sthr (snd two_workers) 1) = RT_THREAD_READY" using two_workers_reach(4)[of 1] by simp
  from sleep_wakes_on_time[OF two_workers_reach(1,3,2) _ this, of 3] show ?thesis by (auto simp: RT_TICK_HALF_def)
qed

section \<open>The threads of the IPC objects\<close>

text \<open>What the IPC objects know of a thread: its error, its priority, whether it is suspended, and its timer if it runs.\<close>

definition ipc_view :: "kernel \<Rightarrow> threads" where
  "ipc_view k t =
     \<lparr>terror = serror (sthr (snd k) t), current_priority = prio_of (snd k) t,
      suspended = (stat (sthr (snd k) t) = RT_THREAD_SUSPEND),
      thread_timer = (if t \<in> set (timer_list (fst k)) then Some (uint (timer_ticks (timer_of (fst k) t))) else None)\<rparr>"

lemma ipc_view_eqI:
  assumes "\<And>u. u \<noteq> t \<Longrightarrow> sthr s1 u = sthr s u" and "set (timer_list T1) - {t} = set (timer_list T) - {t}"
    and "\<And>u. u \<noteq> t \<Longrightarrow> timer_ticks (timer_of T1 u) = timer_ticks (timer_of T u)"
    and "ipc_view (T1, s1) t = x"
  shows "ipc_view (T1, s1) = (ipc_view (T, s))(t := x)"
proof
  fix u
  show "ipc_view (T1, s1) u = ((ipc_view (T, s))(t := x)) u"
  proof (cases "u = t")
    case False
    then have "u \<in> set (timer_list T1) \<longleftrightarrow> u \<in> set (timer_list T)" using assms(2) by auto
    then show ?thesis using assms(1,3) False by (simp add: ipc_view_def)
  qed (use assms(4) in simp)
qed

text \<open>C21: The threads that the semaphores, mutexes, events, mailboxes and message queues are proved on are those of the
  scheduler: to suspend a thread, to resume it, to start its timer, to change its priority and to let its timer expire do to
  what the IPC objects see exactly what their model says, and the results agree.\<close>

theorem scheduler_implements_threads:
  assumes "k_reach k" and "stat (sthr (snd k) t) = RT_THREAD_READY \<or> stat (sthr (snd k) t) = RT_THREAD_SUSPEND"
  shows "ipc_view (snd (k_thread_suspend t k)) = rt_thread_suspend t (ipc_view k) \<and>
    ipc_view (snd (k_thread_resume t k)) = rt_thread_resume t (ipc_view k) \<and>
    (0 < n \<longrightarrow> ipc_view (snd (rt_timer_start t (snd (rt_timer_control t (SET_TIME n) (fst k)))), snd k) =
       start_timer t (uint n) (ipc_view k)) \<and>
    ipc_view (the (rt_thread_control t (CHANGE_PRIORITY p) k)) = set_priority t (unat p) (ipc_view k) \<and>
    (t \<notin> set (timer_list (fst k)) \<longrightarrow> stat (sthr (snd k) t) = RT_THREAD_SUSPEND \<longrightarrow>
       (\<exists>k1. thread_fire t k = Some k1 \<and> ipc_view k1 = rt_thread_timeout t (ipc_view k)))"
proof -
  obtain T s where k: "k = (T, s)" by fastforce
  note i = k_reach_inv[OF assms(1), unfolded k]
  note d = k_invD[OF i]
  have r: "stat (sthr s t) = RT_THREAD_READY \<or> stat (sthr s t) = RT_THREAD_SUSPEND" using assms(2) k by simp
  have off: "stat (sthr s t) = RT_THREAD_READY \<Longrightarrow> t \<notin> set (timer_list T)" using d(3)[of t] by auto
  let ?stop = "snd (rt_timer_stop t T)"
  have tk: "timer_ticks (timer_of ?stop u) = timer_ticks (timer_of T u)" for u by (simp add: rt_timer_stop_def)
  have "ipc_view (snd (k_thread_suspend t k)) = rt_thread_suspend t (ipc_view k)"
  proof (cases "stat (sthr s t) = RT_THREAD_READY")
    case True
    have "ipc_view (?stop, rt_schedule_remove_thread t (on_thread t (\<lambda>th. th\<lparr>stat := RT_THREAD_SUSPEND\<rparr>) s)) =
        (ipc_view (T, s))(t := (ipc_view (T, s) t)\<lparr>suspended := True, thread_timer := None\<rparr>)"
      by (rule ipc_view_eqI) (auto simp: ipc_view_def tk stop_sel[OF d(1)])
    then show ?thesis using True by (simp add: k k_thread_suspend_def rt_thread_suspend_def) (simp add: ipc_view_def)
  next
    case False
    then show ?thesis using r by (simp add: k k_thread_suspend_def rt_thread_suspend_def) (simp add: ipc_view_def)
  qed
  moreover have "ipc_view (snd (k_thread_resume t k)) = rt_thread_resume t (ipc_view k)"
  proof (cases "stat (sthr s t) = RT_THREAD_SUSPEND")
    case True
    have "ipc_view (?stop, rt_schedule_insert_thread t (tlist_remove t s)) =
        (ipc_view (T, s))(t := (ipc_view (T, s) t)\<lparr>suspended := False, thread_timer := None\<rparr>)"
      by (rule ipc_view_eqI) (auto simp: ipc_view_def tk stop_sel[OF d(1)])
    then show ?thesis using True by (simp add: k k_thread_resume_def rt_thread_resume_def) (simp add: ipc_view_def)
  next
    case False
    then show ?thesis by (simp add: k k_thread_resume_def rt_thread_resume_def) (simp add: ipc_view_def)
  qed
  moreover have "ipc_view (snd (rt_timer_start t (snd (rt_timer_control t (SET_TIME n) (fst k)))), snd k) =
       start_timer t (uint n) (ipc_view k)" if "0 < n"
  proof -
    let ?T = "snd (rt_timer_control t (SET_TIME n) T)"
    have "ipc_view (snd (rt_timer_start t ?T), s) = (ipc_view (T, s))(t := (ipc_view (T, s) t)\<lparr>thread_timer := Some (uint n)\<rparr>)"
      by (rule ipc_view_eqI) (auto simp: ipc_view_def start_sel[OF set_time_inv[OF d(1)]] start_result rt_timer_control_def)
    moreover have "0 < uint n" using that by (simp add: word_less_def)
    ultimately show ?thesis by (simp add: k start_timer_def)
  qed
  moreover have "ipc_view (the (rt_thread_control t (CHANGE_PRIORITY p) k)) = set_priority t (unat p) (ipc_view k)"
  proof -
    have "ipc_view (T, change_prio t p s) = (ipc_view (T, s))(t := (ipc_view (T, s) t)\<lparr>current_priority := unat p\<rparr>)"
      by (rule ipc_view_eqI) (auto simp: ipc_view_def change_prio_def Let_def)
    then show ?thesis by (simp add: k rt_thread_control_def set_priority_def)
  qed
  moreover have "\<exists>k1. thread_fire t k = Some k1 \<and> ipc_view k1 = rt_thread_timeout t (ipc_view k)"
    if "t \<notin> set (timer_list (fst k))" "stat (sthr (snd k) t) = RT_THREAD_SUSPEND"
  proof -
    have t: "t \<notin> set (timer_list T)" "stat (sthr s t) = RT_THREAD_SUSPEND" using that k by simp_all
    obtain s1 where s1: "k_thread_timeout t s = Some s1"
      "\<forall>u. sthr s1 u = (if u = t then (sthr s t)\<lparr>serror := - RT_ETIMEOUT, stat := RT_THREAD_READY\<rparr> else sthr s u)"
      using timeout_step[OF d(2) t(2)] by blast
    have "ipc_view (T, s1) = (ipc_view (T, s))(t := (ipc_view (T, s) t)\<lparr>terror := - RT_ETIMEOUT, suspended := False,
        thread_timer := None\<rparr>)"
      by (rule ipc_view_eqI) (use s1(2) t in \<open>auto simp: ipc_view_def\<close>)
    then show ?thesis using s1(1) by (simp add: k thread_fire_def rt_thread_timeout_def)
  qed
  ultimately show ?thesis by blast
qed

theorem scheduler_implements_threads_witness:
  "ipc_view (snd (k_thread_suspend 1 two_workers)) = rt_thread_suspend 1 (ipc_view two_workers) \<and>
   suspended (rt_thread_suspend 1 (ipc_view two_workers) 1)"
  using scheduler_implements_threads[OF two_workers_reach(1), of 1 1 1] two_workers_reach(4)[of 1] by simp

section \<open>A thread that was never started\<close>

text \<open>
  \<open>number_mask\<close> is only set when a thread is started.  If a thread is deleted before, the word of ready priorities loses
  the bits of what was in its memory: here those of the priority of two ready threads.
\<close>

definition stale_mask :: kernel where
  "stale_mask = (fst two_workers, on_thread 5 (\<lambda>th. th\<lparr>number_mask := prio_mask 10\<rparr>) (snd two_workers))"

lemma unstarted_delete_hides_ready:
  "let s = snd (snd (rt_thread_delete 5 (snd (rt_thread_init 5 False 20 5 stale_mask))))
   in priority_table s 10 = [1, 2] \<and> stat (sthr s 1) = RT_THREAD_READY \<and> \<not> bit (ready_group s) 10"
proof -
  let ?s = "snd two_workers"
  have i: "k_inv (fst two_workers, ?s)" using k_reach_inv[OF two_workers_reach(1)] by simp
  have "5 \<notin> set (priority_table ?s p)" for p using s_invD(2)[OF k_invD(2)[OF i], of 5 p] two_workers_reach(4)[of 5] by simp
  then have r: "remove1 5 (priority_table ?s p) = priority_table ?s p" for p by (simp add: remove1_idem)
  have e: "priority_table ?s 20 = []"
  proof (rule ccontr)
    assume "priority_table ?s 20 \<noteq> []"
    then obtain u where "u \<in> set (priority_table ?s 20)" by fastforce
    then have u: "stat (sthr ?s u) = RT_THREAD_READY" "prio_of ?s u = 20" using s_invD(2)[OF k_invD(2)[OF i]] by simp_all
    then have "u = 0 \<or> u = 1 \<or> u = 2" using two_workers_reach(4)[of u] by (auto split: if_splits)
    then show False using u(2) two_workers_reach(5,7,8) by auto
  qed
  show ?thesis using two_workers_reach(4)[of 1] two_workers_reach(6)
    by (simp add: Let_def rt_thread_delete_def close_thread_def rt_thread_init_def stale_mask_def
        rt_schedule_remove_thread_def tlist_remove_def r e prio_mask_def bit_simps)
qed

end
