(* ===== verification/Kern_Mem.thy ===== *)
theory Kern_Mem
  imports Prelude
begin

text \<open>
  The heap of the kernel (\<open>mem.c\<close>): one array of memory in which every block starts with a
  header \<open>struct heap_mem\<close> that links it to its neighbours by offsets.  \<open>rt_malloc\<close> takes the first free
  block that is large enough, splitting it; \<open>rt_free\<close> merges a freed block with free neighbours.

  Offsets into the heap are numbers; sizes asked for are 32-bit words, because their
  rounding and the product in \<open>rt_calloc\<close> can wrap around.  Headers and data are two functions
  of the offset.  The semaphore \<open>heap_sem\<close> makes the calls exclusive, so a call is one step.
\<close>

section \<open>State\<close>

definition RT_ALIGN_SIZE :: nat where "RT_ALIGN_SIZE = 8"
definition HEAP_MAGIC :: u16 where "HEAP_MAGIC = 0x1ea0"
definition MIN_SIZE :: nat where "MIN_SIZE = 12"
definition MIN_SIZE_ALIGNED :: nat where "MIN_SIZE_ALIGNED = 16"
definition SIZEOF_STRUCT_MEM :: nat where "SIZEOF_STRUCT_MEM = 16"

lemmas heap_consts = RT_ALIGN_SIZE_def MIN_SIZE_def MIN_SIZE_ALIGNED_def SIZEOF_STRUCT_MEM_def

definition RT_ALIGN :: "u32 \<Rightarrow> u32" where "RT_ALIGN n = (n + 7) AND NOT 7"

record heap_mem =
  magic :: u16
  hused :: bool
  hnext :: nat
  hprev :: nat

record heap =
  hmem :: "nat \<Rightarrow> heap_mem"
  hdata :: "nat \<Rightarrow> u8"
  lfree :: nat
  mem_size_aligned :: nat
  used_mem :: nat
  max_mem :: nat

definition heap_end :: "heap \<Rightarrow> nat" where
  "heap_end h = mem_size_aligned h + SIZEOF_STRUCT_MEM"

definition upd_blk :: "nat \<Rightarrow> (heap_mem \<Rightarrow> heap_mem) \<Rightarrow> heap \<Rightarrow> heap" where
  "upd_blk x f h = h\<lparr>hmem := (hmem h)(x := f (hmem h x))\<rparr>"

section \<open>Operations\<close>

definition rt_system_heap_init :: "u32 \<Rightarrow> u32 \<Rightarrow> (nat \<Rightarrow> u8) \<Rightarrow> heap option" where
  "rt_system_heap_init begin_addr end_addr junk =
     (let begin_align = unat (RT_ALIGN begin_addr); end_align = unat (end_addr AND NOT 7)
      in if end_align > 2 * SIZEOF_STRUCT_MEM \<and> end_align - 2 * SIZEOF_STRUCT_MEM \<ge> begin_align
         then let n = end_align - begin_align - 2 * SIZEOF_STRUCT_MEM; e = n + SIZEOF_STRUCT_MEM
              in Some \<lparr>hmem = (\<lambda>x. if x = 0 then \<lparr>magic = HEAP_MAGIC, hused = False, hnext = e, hprev = 0\<rparr>
                                else \<lparr>magic = HEAP_MAGIC, hused = True, hnext = e, hprev = e\<rparr>),
                       hdata = junk, lfree = 0, mem_size_aligned = n, used_mem = 0, max_mem = 0\<rparr>
         else None)"

definition plug_forward :: "nat \<Rightarrow> heap \<Rightarrow> heap" where
  "plug_forward mem h =
     (let nmem = hnext (hmem h mem)
      in if mem \<noteq> nmem \<and> \<not> hused (hmem h nmem) \<and> nmem \<noteq> heap_end h
         then let h1 = (if lfree h = nmem then h\<lparr>lfree := mem\<rparr> else h);
                  h2 = upd_blk mem (\<lambda>k. k\<lparr>hnext := hnext (hmem h1 nmem)\<rparr>) h1
              in upd_blk (hnext (hmem h1 nmem)) (\<lambda>k. k\<lparr>hprev := mem\<rparr>) h2
         else h)"

definition plug_backward :: "nat \<Rightarrow> heap \<Rightarrow> heap" where
  "plug_backward mem h =
     (let pmem = hprev (hmem h mem)
      in if pmem \<noteq> mem \<and> \<not> hused (hmem h pmem)
         then let h1 = (if lfree h = mem then h\<lparr>lfree := pmem\<rparr> else h);
                  h2 = upd_blk pmem (\<lambda>k. k\<lparr>hnext := hnext (hmem h1 mem)\<rparr>) h1
              in upd_blk (hnext (hmem h1 mem)) (\<lambda>k. k\<lparr>hprev := pmem\<rparr>) h2
         else h)"

definition plug_holes :: "nat \<Rightarrow> heap \<Rightarrow> heap" where
  "plug_holes mem h = plug_backward mem (plug_forward mem h)"

text \<open>The bound of the loop, a difference of unsigned numbers that wraps around for a heap of less than 16 bytes.\<close>

definition malloc_limit :: "heap \<Rightarrow> nat \<Rightarrow> nat" where
  "malloc_limit h sz = (mem_size_aligned h + 2 ^ 32 - sz) mod 2 ^ 32"

text \<open>The size test of the loop in \<open>rt_malloc\<close>, and the loop: \<open>Some None\<close> is its end without a block.\<close>

definition blk_fits :: "heap \<Rightarrow> nat \<Rightarrow> nat \<Rightarrow> bool" where
  "blk_fits h sz ptr \<longleftrightarrow> \<not> hused (hmem h ptr) \<and> hnext (hmem h ptr) - (ptr + SIZEOF_STRUCT_MEM) \<ge> sz"

partial_function (option) malloc_scan :: "heap \<Rightarrow> nat \<Rightarrow> nat \<Rightarrow> nat option option" where
  "malloc_scan h sz ptr =
     (if ptr < malloc_limit h sz
      then if blk_fits h sz ptr then Some (Some ptr) else malloc_scan h sz (hnext (hmem h ptr))
      else Some None)"

text \<open>\<open>while (lfree->used && lfree != heap_end)\<close>\<close>

partial_function (option) next_free :: "heap \<Rightarrow> nat \<Rightarrow> nat option" where
  "next_free h p =
     (if hused (hmem h p) \<and> p \<noteq> heap_end h then next_free h (hnext (hmem h p)) else Some p)"

definition count_used :: "nat \<Rightarrow> heap \<Rightarrow> heap" where
  "count_used n h =
     (let u = used_mem h + n in h\<lparr>used_mem := u, max_mem := (if max_mem h < u then u else max_mem h)\<rparr>)"

text \<open>Taking the block at \<open>ptr\<close>: split, or as it is.\<close>

definition malloc_take :: "nat \<Rightarrow> nat \<Rightarrow> heap \<Rightarrow> heap" where
  "malloc_take sz ptr h =
     (let nx = hnext (hmem h ptr);
          h1 = (if nx - (ptr + SIZEOF_STRUCT_MEM) \<ge> sz + SIZEOF_STRUCT_MEM + MIN_SIZE_ALIGNED
                then let ptr2 = ptr + SIZEOF_STRUCT_MEM + sz;
                         h2 = upd_blk ptr2 (\<lambda>k. k\<lparr>hused := False, hnext := nx, hprev := ptr\<rparr>) h;
                         h3 = upd_blk ptr (\<lambda>k. k\<lparr>hnext := ptr2, hused := True\<rparr>) h2;
                         h4 = (if nx \<noteq> heap_end h then upd_blk nx (\<lambda>k. k\<lparr>hprev := ptr2\<rparr>) h3 else h3)
                     in count_used (sz + SIZEOF_STRUCT_MEM) h4
                else count_used (nx - ptr) (upd_blk ptr (\<lambda>k. k\<lparr>hused := True\<rparr>) h))
      in upd_blk ptr (\<lambda>k. k\<lparr>magic := HEAP_MAGIC\<rparr>) h1)"

text \<open>\<open>None\<close>: a loop does not end.  Otherwise the offset of the data, if there is a block.\<close>

definition malloc_size :: "u32 \<Rightarrow> nat" where
  "malloc_size sz = (let n = unat (RT_ALIGN sz) in if n < MIN_SIZE_ALIGNED then MIN_SIZE_ALIGNED else n)"

definition rt_malloc :: "u32 \<Rightarrow> heap \<Rightarrow> (nat option \<times> heap) option" where
  "rt_malloc sz h =
     (if sz = 0 then Some (None, h)
      else if unat (RT_ALIGN sz) > mem_size_aligned h then Some (None, h)
      else (case malloc_scan h (malloc_size sz) (lfree h) of
              None \<Rightarrow> None
            | Some None \<Rightarrow> Some (None, h)
            | Some (Some ptr) \<Rightarrow>
                let h1 = malloc_take (malloc_size sz) ptr h
                in if ptr = lfree h1
                   then (case next_free h1 (lfree h1) of None \<Rightarrow> None
                         | Some l \<Rightarrow> Some (Some (ptr + SIZEOF_STRUCT_MEM), h1\<lparr>lfree := l\<rparr>))
                   else Some (Some (ptr + SIZEOF_STRUCT_MEM), h1)))"

text \<open>
  A pointer is given by its offset from \<open>heap_ptr\<close>; one outside the heap is \<open>rmem \<ge> heap_end\<close>.
  The assertions of the code are not part of the model: a release build has none.
\<close>

definition rt_free :: "nat option \<Rightarrow> heap \<Rightarrow> heap" where
  "rt_free rmem h =
     (case rmem of None \<Rightarrow> h
      | Some r \<Rightarrow>
          if r \<ge> heap_end h then h
          else let mem = r - SIZEOF_STRUCT_MEM;
                   h1 = upd_blk mem (\<lambda>k. k\<lparr>hused := False, magic := 0\<rparr>) h;
                   h2 = (if mem < lfree h1 then h1\<lparr>lfree := mem\<rparr> else h1);
                   h3 = h2\<lparr>used_mem := used_mem h2 - (hnext (hmem h2 mem) - mem)\<rparr>
               in plug_holes mem h3)"

definition copy_data :: "nat \<Rightarrow> nat \<Rightarrow> nat \<Rightarrow> heap \<Rightarrow> heap" where
  "copy_data dst src n h =
     h\<lparr>hdata := (\<lambda>a. if dst \<le> a \<and> a < dst + n then hdata h (src + (a - dst)) else hdata h a)\<rparr>"

text \<open>The split of a block that shrinks.\<close>

definition realloc_shrink :: "nat \<Rightarrow> nat \<Rightarrow> heap \<Rightarrow> heap" where
  "realloc_shrink ptr newsize h =
     (let ptr2 = ptr + SIZEOF_STRUCT_MEM + newsize; nx = hnext (hmem h ptr);
          h2 = upd_blk ptr2 (\<lambda>k. k\<lparr>magic := HEAP_MAGIC, hused := False, hnext := nx, hprev := ptr\<rparr>) h;
          h3 = upd_blk ptr (\<lambda>k. k\<lparr>hnext := ptr2\<rparr>) h2;
          h4 = (if nx \<noteq> heap_end h then upd_blk nx (\<lambda>k. k\<lparr>hprev := ptr2\<rparr>) h3 else h3)
      in plug_holes ptr2 h4)"

definition rt_realloc :: "nat option \<Rightarrow> u32 \<Rightarrow> heap \<Rightarrow> (nat option \<times> heap) option" where
  "rt_realloc rmem n h =
     (let newsize = unat (RT_ALIGN n)
      in if newsize > mem_size_aligned h then Some (None, h)
         else (case rmem of None \<Rightarrow> rt_malloc (RT_ALIGN n) h
               | Some r \<Rightarrow>
                   if r \<ge> heap_end h then Some (Some r, h)
                   else let ptr = r - SIZEOF_STRUCT_MEM;
                            sz = hnext (hmem h ptr) - ptr - SIZEOF_STRUCT_MEM
                        in if sz = newsize then Some (Some r, h)
                           else if newsize + SIZEOF_STRUCT_MEM + MIN_SIZE < sz
                           then Some (Some r, realloc_shrink ptr newsize (h\<lparr>used_mem := used_mem h - (sz - newsize)\<rparr>))
                           else (case rt_malloc (RT_ALIGN n) h of None \<Rightarrow> None
                                 | Some (None, h1) \<Rightarrow> Some (None, h1)
                                 | Some (Some p, h1) \<Rightarrow>
                                     Some (Some p, rt_free (Some r) (copy_data p r (min sz newsize) h1)))))"

definition rt_calloc :: "u32 \<Rightarrow> u32 \<Rightarrow> heap \<Rightarrow> (nat option \<times> heap) option" where
  "rt_calloc count sz h =
     (case rt_malloc (count * sz) h of None \<Rightarrow> None
      | Some (None, h1) \<Rightarrow> Some (None, h1)
      | Some (Some p, h1) \<Rightarrow>
          Some (Some p, h1\<lparr>hdata := (\<lambda>a. if p \<le> a \<and> a < p + unat (count * sz) then 0 else hdata h1 a)\<rparr>))"

definition rt_memory_info :: "heap \<Rightarrow> nat \<times> nat \<times> nat" where
  "rt_memory_info h = (mem_size_aligned h, used_mem h, max_mem h)"

section \<open>The heap as a list of blocks\<close>

text \<open>
  A block is its offset, the offset behind it and its used flag.  \<open>seg m pr p bl q\<close>: the headers
  from offset \<open>p\<close> up to \<open>q\<close> are linked as the blocks \<open>bl\<close>, the block in front of them being \<open>pr\<close>.
\<close>

type_synonym block = "nat \<times> nat \<times> bool"

fun seg :: "(nat \<Rightarrow> heap_mem) \<Rightarrow> nat \<Rightarrow> nat \<Rightarrow> block list \<Rightarrow> nat \<Rightarrow> bool" where
  "seg m pr p [] q = (p = q)"
| "seg m pr p ((s, e, u) # bl) q =
     (s = p \<and> 8 dvd s \<and> s + 16 \<le> e \<and> hprev (m s) = pr \<and> hnext (m s) = e \<and> hused (m s) = u \<and>
      (u \<longrightarrow> magic (m s) = HEAP_MAGIC) \<and> seg m s e bl q)"

fun lst :: "nat \<Rightarrow> block list \<Rightarrow> nat" where
  "lst pr [] = pr"
| "lst pr ((s, e, u) # bl) = lst s bl"

fun nxt :: "nat \<Rightarrow> block list \<Rightarrow> nat" where
  "nxt p [] = p"
| "nxt p ((s, e, u) # bl) = nxt e bl"

lemma lst_nxt_append [simp]:
  "lst pr (xs @ ys) = lst (lst pr xs) ys" "nxt p (xs @ ys) = nxt (nxt p xs) ys"
  by (induction xs arbitrary: pr p) auto

lemma seg_append:
  "seg m pr p (xs @ ys) q \<longleftrightarrow> seg m pr p xs (nxt p xs) \<and> seg m (lst pr xs) (nxt p xs) ys q"
  by (induction xs arbitrary: pr p) auto

lemma seg_nxt: "seg m pr p bl q \<Longrightarrow> nxt p bl = q"
  by (induction m pr p bl q rule: seg.induct) auto

lemma seg_le: "seg m pr p bl q \<Longrightarrow> p \<le> q"
  by (induction m pr p bl q rule: seg.induct) auto

lemma seg_in:
  "seg m pr p bl q \<Longrightarrow> (s, e, u) \<in> set bl \<Longrightarrow> p \<le> s \<and> s + 16 \<le> e \<and> e \<le> q \<and> 8 dvd s"
proof (induction m pr p bl q rule: seg.induct)
  case (2 m pr p s' e' u' bl q)
  from "2.prems"(1) have S: "seg m s' e' bl q" and "s' = p" "s' + 16 \<le> e'" "8 dvd s'" by auto
  show ?case
  proof (cases "(s, e, u) = (s', e', u')")
    case True
    then show ?thesis using S \<open>s' = p\<close> \<open>s' + 16 \<le> e'\<close> \<open>8 dvd s'\<close> seg_le[OF S] by simp
  next
    case False
    then have "(s, e, u) \<in> set bl" using "2.prems"(2) by (metis set_ConsD)
    then show ?thesis using "2.IH"[OF S] \<open>s' = p\<close> \<open>s' + 16 \<le> e'\<close> by simp
  qed
qed simp

lemmas seg_bounds = seg_le seg_in

lemma seg_empty:
  assumes "seg m pr q bl q"
  shows "bl = []"
proof (rule ccontr)
  assume "bl \<noteq> []"
  then obtain s e u bs where "bl = (s, e, u) # bs" by (cases bl) auto
  with assms have "seg m q e bs q" "q + 16 \<le> e" by auto
  then show False using seg_le[of m q e bs q] by simp
qed

lemma seg_cong:
  assumes "\<And>s e u. (s, e, u) \<in> set bl \<Longrightarrow> m s = m' s"
  shows "seg m pr p bl q = seg m' pr p bl q"
  using assms
proof (induction bl arbitrary: pr p)
  case (Cons b bl)
  obtain s e u where b: "b = (s, e, u)" by (cases b)
  have "m s = m' s" using Cons.prems[of s e u] by (simp add: b)
  moreover have "seg m s e bl q = seg m' s e bl q" by (rule Cons.IH) (auto intro: Cons.prems)
  ultimately show ?case by (simp add: b)
qed simp

text \<open>A change outside the blocks, and of the back link of the first block.\<close>

lemma seg_outside:
  assumes "seg m pr p bl q" and "x < p \<or> q \<le> x"
  shows "seg (m(x := k)) pr p bl q"
proof -
  have "(m(x := k)) s = m s" if "(s, e, u) \<in> set bl" for s e u
    using seg_bounds(2)[OF assms(1) that] assms(2) by auto
  then show ?thesis using assms(1) seg_cong[of bl "m(x := k)" m] by blast
qed

lemma seg_set_prev:
  assumes "seg m pr p bl q"
  shows "seg (m(p := (m p)\<lparr>hprev := pr'\<rparr>)) pr' p bl q"
proof (cases bl)
  case (Cons b bs)
  obtain s e u where b: "b = (s, e, u)" by (cases b)
  have "seg m s e bs q" and "s = p" and "s < e"
    using assms by (auto simp: Cons b)
  then have "seg (m(p := (m p)\<lparr>hprev := pr'\<rparr>)) s e bs q"
    by (intro seg_outside) auto
  then show ?thesis using assms by (auto simp: Cons b)
qed (use assms in auto)

lemma seg_middle:
  assumes "seg m pr p (xs @ (s, e, u) # ys) q"
  shows "seg m pr p xs s" "seg m s e ys q" "8 dvd s" "s + 16 \<le> e" "hprev (m s) = lst pr xs"
    "hnext (m s) = e" "hused (m s) = u" "p \<le> s" "e \<le> q"
  using assms seg_bounds(1)[of m pr p xs s] seg_bounds(1)[of m s e ys q]
  by (auto simp: seg_append)

text \<open>The three changes of the chain: new flags, a split, a merge.\<close>

lemma seg_flags:
  assumes S: "seg m pr p (xs @ (s, e, u) # ys) q"
    and k: "hprev k = lst pr xs" "hnext k = e" "hused k = u'" "u' \<longrightarrow> magic k = HEAP_MAGIC"
  shows "seg (m(s := k)) pr p (xs @ (s, e, u') # ys) q"
  using seg_outside[OF seg_middle(1)[OF S], of s k] seg_outside[OF seg_middle(2)[OF S], of s k]
    seg_middle(3,4)[OF S] k seg_nxt[OF seg_middle(1)[OF S]]
  by (auto simp: seg_append)

lemma seg_split:
  assumes S: "seg m pr p (xs @ (s, e, u) # ys) q"
    and s2: "s + 16 \<le> s2" "s2 + 16 \<le> e" "8 dvd s2"
    and k: "hprev k = lst pr xs" "hnext k = s2" "hused k = u'" "u' \<longrightarrow> magic k = HEAP_MAGIC"
    and k2: "hprev k2 = s" "hnext k2 = e" "\<not> hused k2"
    and m': "m' = m(s2 := k2, s := k)"
    and m'': "m'' = (if e = q \<and> b then m' else m'(e := (m' e)\<lparr>hprev := s2\<rparr>))"
  shows "seg m'' pr p (xs @ (s, s2, u') # (s2, e, False) # ys) q"
proof -
  note M = seg_middle[OF S]
  have e: "m' e = m e" using s2 by (auto simp: m')
  have 1: "seg m'' pr p xs s"
    unfolding m'' m' by (simp, intro conjI impI seg_outside M(1)) (use s2 in auto)
  have P: "seg (m(e := (m e)\<lparr>hprev := s2\<rparr>)) s2 e ys q" by (rule seg_set_prev[OF M(2)])
  have "seg (m(e := (m e)\<lparr>hprev := s2\<rparr>, s2 := k2, s := k)) s2 e ys q"
    by (rule seg_outside[OF seg_outside[OF P, of s2 k2], of s k]) (use s2 in auto)
  moreover have "m(e := (m e)\<lparr>hprev := s2\<rparr>, s2 := k2, s := k) = m'(e := (m' e)\<lparr>hprev := s2\<rparr>)"
    unfolding e unfolding m' using s2 by (intro ext) auto
  ultimately have 2: "seg (m'(e := (m' e)\<lparr>hprev := s2\<rparr>)) s2 e ys q" by simp
  have 3: "seg m'' s2 e ys q"
  proof (cases "e = q")
    case True
    then have "ys = []"
      using M(2) seg_empty by blast
    with True show ?thesis by simp
  qed (use 2 in \<open>simp add: m''\<close>)
  have "m'' s = k" and "m'' s2 = k2"
    using s2 by (auto simp: m'' m')
  with 1 3 k k2 s2 M(3) seg_nxt[OF M(1)] show ?thesis
    by (auto simp: seg_append)
qed

lemma seg_merge:
  assumes S: "seg m pr p (xs @ (s, n, u) # (n, e, u2) # ys) q"
    and m': "m' = m(s := (m s)\<lparr>hnext := e\<rparr>)"
  shows "seg (m'(e := (m' e)\<lparr>hprev := s\<rparr>)) pr p (xs @ (s, e, u) # ys) q"
proof -
  note M = seg_middle[OF S]
  have n: "n + 16 \<le> e" and Y: "seg m n e ys q" using M(2) by auto
  have "seg m' n e ys q" unfolding m' by (rule seg_outside[OF Y]) (use n M(4) in auto)
  then have 2: "seg (m'(e := (m' e)\<lparr>hprev := s\<rparr>)) s e ys q" by (rule seg_set_prev)
  have 1: "seg (m'(e := (m' e)\<lparr>hprev := s\<rparr>)) pr p xs s"
    unfolding m' by (intro seg_outside M(1)) (use n M(4) in auto)
  show ?thesis
    using 1 2 S n seg_nxt[OF M(1)] by (auto simp: seg_append m')
qed

section \<open>The heap on lists of blocks\<close>

fun first_fit :: "nat \<Rightarrow> nat \<Rightarrow> block list \<Rightarrow> nat option" where
  "first_fit lim n [] = None"
| "first_fit lim n ((s, e, u) # bl) =
     (if s < lim then if \<not> u \<and> s + 16 + n \<le> e then Some s else first_fit lim n bl else None)"

fun first_free :: "nat \<Rightarrow> block list \<Rightarrow> nat" where
  "first_free q [] = q"
| "first_free q ((s, e, u) # bl) = (if u then first_free q bl else s)"

fun bl_take :: "nat \<Rightarrow> nat \<Rightarrow> block list \<Rightarrow> block list" where
  "bl_take n p [] = []"
| "bl_take n p ((s, e, u) # bl) =
     (if s = p then (if s + n + 48 \<le> e then (s, s + 16 + n, True) # (s + 16 + n, e, False) # bl else (s, e, True) # bl)
      else (s, e, u) # bl_take n p bl)"

text \<open>Freeing marks the block and joins all adjacent free blocks.\<close>

fun absorb :: "block \<Rightarrow> block list \<Rightarrow> block list" where
  "absorb (s, e, u) [] = [(s, e, u)]"
| "absorb (s, e, u) ((s', e', u') # bl) =
     (if \<not> u \<and> \<not> u' then (s, e', u) # bl else (s, e, u) # (s', e', u') # bl)"

definition coalesce :: "block list \<Rightarrow> block list" where
  "coalesce bl = foldr absorb bl []"

definition bl_release :: "nat \<Rightarrow> block list \<Rightarrow> block list" where
  "bl_release p bl = coalesce (map (\<lambda>(s, e, u). (s, e, u \<and> s \<noteq> p)) bl)"

definition noadj :: "block list \<Rightarrow> bool" where
  "noadj = successively (\<lambda>b c. snd (snd b) \<or> snd (snd c))"

fun used_sum :: "block list \<Rightarrow> nat" where
  "used_sum [] = 0"
| "used_sum ((s, e, u) # bl) = (if u then e - s else 0) + used_sum bl"

lemma noadj_Nil [simp]: "noadj []" by (simp add: noadj_def)

lemma noadj_Cons: "noadj (b # bl) \<longleftrightarrow> bl = [] \<or> (snd (snd b) \<or> snd (snd (hd bl))) \<and> noadj bl"
  by (auto simp: noadj_def successively_Cons)

lemma noadj_append:
  "noadj (xs @ ys) \<longleftrightarrow> noadj xs \<and> noadj ys \<and> (xs = [] \<or> ys = [] \<or> snd (snd (last xs)) \<or> snd (snd (hd ys)))"
  by (auto simp: noadj_def successively_append_iff)

lemma absorb_noadj: "noadj (b # bl) \<Longrightarrow> absorb b bl = b # bl"
  by (cases b; cases bl) (auto simp: noadj_Cons)

lemma noadj_absorb: "noadj bl \<Longrightarrow> noadj (absorb b bl)"
  by (cases "(b, bl)" rule: absorb.cases) (auto simp: noadj_Cons)

lemma absorb_Cons: "\<exists>e' ys. absorb (s, e, u) bl = (s, e', u) # ys"
  by (cases "((s, e, u), bl)" rule: absorb.cases) auto

lemma noadj_coalesce: "noadj (coalesce bl)"
  unfolding coalesce_def by (induction bl) (auto simp: noadj_absorb)

lemma foldr_absorb_noadj: "noadj (xs @ ys) \<Longrightarrow> foldr absorb xs ys = xs @ ys"
proof (induction xs)
  case (Cons b xs)
  have "noadj (xs @ ys)" using Cons.prems by (cases "xs @ ys") (auto simp: noadj_Cons)
  then show ?case using Cons absorb_noadj[of b "xs @ ys"] by simp
qed simp

lemma used_sum_append [simp]: "used_sum (xs @ ys) = used_sum xs + used_sum ys"
  by (induction xs rule: used_sum.induct) auto

lemma used_sum_absorb: "used_sum (absorb b bl) = used_sum (b # bl)"
  by (cases "(b, bl)" rule: absorb.cases) auto

lemma used_sum_coalesce: "used_sum (coalesce bl) = used_sum bl"
proof (induction bl)
  case (Cons b bl)
  then show ?case by (cases b) (simp add: coalesce_def used_sum_absorb)
qed (simp add: coalesce_def)

section \<open>Well-formed heaps\<close>

definition lfree_ok :: "heap \<Rightarrow> block list \<Rightarrow> bool" where
  "lfree_ok h bl \<longleftrightarrow> lfree h = heap_end h \<or> (\<exists>e. (lfree h, e, False) \<in> set bl)"

definition tight :: "heap \<Rightarrow> block list \<Rightarrow> bool" where
  "tight h bl \<longleftrightarrow> (\<forall>(s, e, u) \<in> set bl. \<not> u \<longrightarrow> lfree h \<le> s)"

lemma tightD: "tight h bl \<Longrightarrow> (s, e, False) \<in> set bl \<Longrightarrow> lfree h \<le> s"
  by (auto simp: tight_def)

lemma tightI: "(\<And>s e. (s, e, False) \<in> set bl \<Longrightarrow> lfree h \<le> s) \<Longrightarrow> tight h bl"
  by (auto simp: tight_def)

definition chain :: "heap \<Rightarrow> block list \<Rightarrow> bool" where
  "chain h bl \<longleftrightarrow> seg (hmem h) 0 0 bl (heap_end h)"

text \<open>The last block has room for data; the address of its data is then inside the heap.\<close>

definition endok :: "nat \<Rightarrow> block list \<Rightarrow> bool" where
  "endok q bl \<longleftrightarrow> (\<forall>(s, e, u) \<in> set bl. e = q \<longrightarrow> s + 16 < e)"

definition heap_rel :: "heap \<Rightarrow> block list \<Rightarrow> bool" where
  "heap_rel h bl \<longleftrightarrow> chain h bl \<and> noadj bl \<and> lfree_ok h bl \<and> endok (heap_end h) bl \<and> used_mem h = used_sum bl \<and>
     8 dvd mem_size_aligned h \<and> 16 \<le> mem_size_aligned h \<and> mem_size_aligned h + 32 \<le> 2 ^ 32"

lemma endok_coalesce:
  "seg m pr p bl q' \<Longrightarrow> endok q bl \<Longrightarrow> endok q (coalesce bl)"
proof (induction bl arbitrary: pr p)
  case (Cons b bl)
  obtain s e u where b: "b = (s, e, u)" by (cases b)
  have S: "s + 16 \<le> e" "seg m s e bl q'" using Cons.prems(1) by (auto simp: b)
  have E: "endok q (coalesce bl)" using Cons.IH[OF S(2)] Cons.prems(2) by (simp add: endok_def)
  show ?case
  proof (cases bl)
    case (Cons c cs)
    obtain e2 u2 where c: "c = (e, e2, u2)" using S(2) by (cases c) (auto simp: Cons)
    obtain e3 zs where "coalesce bl = (e, e3, u2) # zs"
      using absorb_Cons[of e e2 u2 "coalesce cs"] by (auto simp: Cons c coalesce_def)
    then show ?thesis
      using E Cons.prems(2) S(1) by (auto simp: coalesce_def b endok_def)
  qed (use Cons.prems(2) in \<open>simp add: coalesce_def b\<close>)
qed (simp add: coalesce_def)

lemma scan_first_fit:
  assumes "seg (hmem h) pr p bl q" and "malloc_limit h n \<le> q"
  shows "malloc_scan h n p = Some (first_fit (malloc_limit h n) n bl)"
  using assms
proof (induction bl arbitrary: pr p)
  case Nil
  then show ?case by (subst malloc_scan.simps) simp
next
  case (Cons b bl)
  obtain s e u where b: "b = (s, e, u)" by (cases b)
  have S: "s = p" "p + 16 \<le> e" "hnext (hmem h p) = e" "hused (hmem h p) = u" "seg (hmem h) p e bl q"
    using Cons.prems(1) by (auto simp: b)
  have "blk_fits h n p \<longleftrightarrow> \<not> u \<and> p + 16 + n \<le> e"
    using S by (auto simp: blk_fits_def heap_consts)
  then show ?case
    using Cons.IH[OF S(5) Cons.prems(2)] S by (subst malloc_scan.simps) (simp add: b)
qed

lemma next_first_free:
  assumes "seg (hmem h) pr p bl (heap_end h)"
  shows "next_free h p = Some (first_free (heap_end h) bl)"
  using assms
proof (induction bl arbitrary: pr p)
  case Nil
  then show ?case by (subst next_free.simps) simp
next
  case (Cons b bl)
  obtain s e u where b: "b = (s, e, u)" by (cases b)
  have S: "s = p" "p + 16 \<le> e" "hnext (hmem h p) = e" "hused (hmem h p) = u"
    "seg (hmem h) p e bl (heap_end h)"
    using Cons.prems(1) by (auto simp: b)
  have "p \<noteq> heap_end h" using S(2) seg_le[OF S(5)] by simp
  then show ?case
    using Cons.IH[OF S(5)] S by (subst next_free.simps) (simp add: b)
qed

lemma seg_suffix:
  assumes S: "seg m pr p bl q" and l: "l = q \<or> (l, e, u) \<in> set bl"
  obtains xs ys where "bl = xs @ ys" "seg m (lst pr xs) l ys q" "\<forall>b \<in> set xs. fst b < l"
    "dropWhile (\<lambda>b. fst b < l) bl = ys"
proof (cases "l = q")
  case True
  have "\<forall>b \<in> set bl. fst b < l"
    using seg_in[OF S] True by fastforce
  then show ?thesis
    using that[of bl "[]"] S True seg_nxt[OF S] by (auto simp: dropWhile_eq_Nil_conv)
next
  case False
  with l obtain xs ys where bl: "bl = xs @ (l, e, u) # ys" using split_list by fastforce
  have X: "seg m pr p xs l" and Y: "seg m l e ys q" using seg_middle(1,2)[OF S[unfolded bl]] by auto
  have x: "\<forall>b \<in> set xs. fst b < l"
    using seg_in[OF X] by fastforce
  moreover have "seg m (lst pr xs) l ((l, e, u) # ys) q"
    using S seg_nxt[OF X] unfolding bl seg_append by simp
  moreover have "dropWhile (\<lambda>b. fst b < l) bl = (l, e, u) # ys"
    unfolding bl using x by (subst dropWhile_append2) auto
  ultimately show ?thesis using that[of xs "(l, e, u) # ys"] bl by simp
qed

lemma lfree_split:
  assumes "chain h bl" and "lfree_ok h bl"
  obtains xs ys where "bl = xs @ ys" "seg (hmem h) (lst 0 xs) (lfree h) ys (heap_end h)"
    "\<forall>b \<in> set xs. fst b < lfree h" "dropWhile (\<lambda>b. fst b < lfree h) bl = ys"
proof -
  obtain e where l: "lfree h = heap_end h \<or> (lfree h, e, False) \<in> set bl"
    using assms(2) unfolding lfree_ok_def by blast
  have S: "seg (hmem h) 0 0 bl (heap_end h)" using assms(1) unfolding chain_def .
  show ?thesis by (rule seg_suffix[OF S l]) (rule that)
qed

section \<open>Allocation\<close>

lemma first_fit_Some:
  assumes "first_fit lim n bl = Some p"
  obtains xs e ys where "bl = xs @ (p, e, False) # ys" "p + 16 + n \<le> e" "p < lim"
  using assms
proof (induction lim n bl arbitrary: thesis rule: first_fit.induct)
  case (2 lim n s e u bl)
  show ?case
  proof (cases "\<not> u \<and> s + 16 + n \<le> e")
    case True
    then show ?thesis using 2(2)[of "[]" e bl] 2(3) by (auto split: if_splits)
  next
    case False
    then have "s < lim" "first_fit lim n bl = Some p" using 2(3) by (auto split: if_splits)
    then obtain xs e' ys where "bl = xs @ (p, e', False) # ys" "p + 16 + n \<le> e'" "p < lim"
      using 2(1) False by blast
    then show ?thesis using 2(2)[of "(s, e, u) # xs" e' ys] by simp
  qed
qed simp

lemma bl_take_append:
  "p \<notin> fst ` set xs \<Longrightarrow> bl_take n p (xs @ (p, e, u) # ys) =
     xs @ (if p + n + 48 \<le> e then [(p, p + 16 + n, True), (p + 16 + n, e, False)] else [(p, e, True)]) @ ys"
  by (induction xs) auto

lemma seg_not_before:
  "seg m pr q (xs @ (p, e, u) # ys) r \<Longrightarrow> p \<notin> fst ` set xs"
  by (fastforce dest: seg_middle(1) seg_in)

lemma malloc_take_frame [simp]:
  "lfree (malloc_take n p h) = lfree h" "mem_size_aligned (malloc_take n p h) = mem_size_aligned h"
  "hdata (malloc_take n p h) = hdata h" "heap_end (malloc_take n p h) = heap_end h"
  by (simp_all add: malloc_take_def Let_def count_used_def upd_blk_def heap_end_def)

lemma malloc_take_chain:
  assumes C: "chain h (xs @ (p, e, False) # ys)" and n: "p + 16 + n \<le> e" "8 dvd n"
  shows "chain (malloc_take n p h) (bl_take n p (xs @ (p, e, False) # ys))"
    and "used_mem (malloc_take n p h) = used_mem h + used_sum (bl_take n p [(p, e, False)])"
proof -
  have S: "seg (hmem h) 0 0 (xs @ (p, e, False) # ys) (heap_end h)" using C by (simp add: chain_def)
  note M = seg_middle[OF S]
  let ?m = "hmem h" and ?s2 = "p + 16 + n"
  show "used_mem (malloc_take n p h) = used_mem h + used_sum (bl_take n p [(p, e, False)])"
    using n M(6) by (auto simp: malloc_take_def Let_def count_used_def upd_blk_def heap_consts)
  show "chain (malloc_take n p h) (bl_take n p (xs @ (p, e, False) # ys))"
  proof (cases "p + n + 48 \<le> e")
    case True
    let ?k = "(?m p)\<lparr>hnext := ?s2, hused := True, magic := HEAP_MAGIC\<rparr>"
    let ?k2 = "(?m ?s2)\<lparr>hused := False, hnext := e, hprev := p\<rparr>"
    let ?m1 = "?m(?s2 := ?k2, p := ?k)"
    have "hmem (malloc_take n p h) = (if e = heap_end h \<and> True then ?m1 else ?m1(e := (?m1 e)\<lparr>hprev := ?s2\<rparr>))"
      using True M(6) by (auto simp: malloc_take_def Let_def count_used_def upd_blk_def heap_consts fun_eq_iff)
    then have "seg (hmem (malloc_take n p h)) 0 0 (xs @ (p, ?s2, True) # (?s2, e, False) # ys) (heap_end h)"
      by (rule seg_split[OF S, of ?s2 ?k True ?k2 ?m1 _ True, rotated 11]) (use n True M in auto)
    then show ?thesis
      using True by (simp add: chain_def bl_take_append[OF seg_not_before[OF S]])
  next
    case False
    have "hmem (malloc_take n p h) = ?m(p := (?m p)\<lparr>hused := True, magic := HEAP_MAGIC\<rparr>)"
      using False M(6) by (auto simp: malloc_take_def Let_def count_used_def upd_blk_def heap_consts fun_eq_iff)
    then have "seg (hmem (malloc_take n p h)) 0 0 (xs @ (p, e, True) # ys) (heap_end h)"
      using seg_flags[OF S, of "(?m p)\<lparr>hused := True, magic := HEAP_MAGIC\<rparr>" True] M by simp
    then show ?thesis
      using False by (simp add: chain_def bl_take_append[OF seg_not_before[OF S]])
  qed
qed

lemma unat_and_not7: "unat ((x :: u32) AND NOT 7) = unat x div 8 * 8"
proof -
  have M: "(7 :: u32) = mask 3" by (simp add: mask_eq_exp_minus_1)
  have B: "bit (7 :: u32) i \<longleftrightarrow> i < 3" for i by (simp only: M bit_mask_iff) auto
  have A: "x AND NOT 7 = push_bit 3 (drop_bit 3 x)"
    by (intro bit_word_eqI) (auto simp: B bit_simps simp del: bit_numeral_word_iff)
  have "unat x div 8 * 8 < 2 ^ 32" using unsigned_less[of x, where ?'a = nat] by simp
  then show ?thesis
    unfolding A unsigned_push_bit_eq unsigned_drop_bit_eq
    by (simp add: push_bit_eq_mult drop_bit_eq_div take_bit_eq_mod)
qed

lemma unat_RT_ALIGN: "unat n + 7 < 2 ^ 32 \<Longrightarrow> unat (RT_ALIGN n) = (unat n + 7) div 8 * 8"
  "8 dvd unat (RT_ALIGN n)"
  unfolding RT_ALIGN_def unat_and_not7 by (simp_all add: unat_word_ariths)

text \<open>
  \<open>rt_malloc\<close> is first fit on the blocks from \<open>lfree\<close> on.  Its result and the blocks it leaves
  are those of \<open>ff_alloc\<close>.
\<close>

definition ff_alloc :: "u32 \<Rightarrow> heap \<Rightarrow> block list \<Rightarrow> nat option \<times> block list" where
  "ff_alloc n h bl =
     (if n = 0 \<or> mem_size_aligned h < unat (RT_ALIGN n) then (None, bl)
      else case first_fit (malloc_limit h (malloc_size n)) (malloc_size n) (dropWhile (\<lambda>b. fst b < lfree h) bl) of
        None \<Rightarrow> (None, bl)
      | Some p \<Rightarrow> (Some (p + 16), bl_take (malloc_size n) p bl))"

lemma malloc_size_facts:
  "8 dvd malloc_size n" "16 \<le> malloc_size n" "unat (RT_ALIGN n) \<le> malloc_size n"
  using unat_RT_ALIGN(2)[of n] by (auto simp: malloc_size_def Let_def heap_consts)

lemma malloc_limit_eq:
  "n \<le> mem_size_aligned h \<Longrightarrow> mem_size_aligned h + 32 \<le> 2 ^ 32 \<Longrightarrow> malloc_limit h n = mem_size_aligned h - n"
proof -
  assume "n \<le> mem_size_aligned h" and "mem_size_aligned h + 32 \<le> 2 ^ 32"
  moreover from this have "mem_size_aligned h + 2 ^ 32 - n = (mem_size_aligned h - n) + 2 ^ 32" by simp
  ultimately show ?thesis by (simp only: malloc_limit_def mod_add_self2) simp
qed

lemma used_sum_take:
  assumes "p \<notin> fst ` set xs"
  shows "used_sum (bl_take n p (xs @ (p, e, False) # ys)) = used_sum (xs @ (p, e, False) # ys) + used_sum (bl_take n p [(p, e, False)])"
  by (simp add: bl_take_append[OF assms])

lemma noadj_take:
  "p \<notin> fst ` set xs \<Longrightarrow> noadj (xs @ (p, e, False) # ys) \<Longrightarrow> noadj (bl_take n p (xs @ (p, e, False) # ys))"
  by (auto simp: bl_take_append noadj_append noadj_Cons)

lemma first_free_in: "first_free q bl = q \<or> (\<exists>e. (first_free q bl, e, False) \<in> set bl)"
  by (induction q bl rule: first_free.induct) auto

lemma first_free_least:
  "seg m pr p bl q \<Longrightarrow> (s, e, False) \<in> set bl \<Longrightarrow> first_free q bl \<le> s"
proof (induction bl arbitrary: pr p)
  case (Cons b bl)
  obtain s' e' u' where b: "b = (s', e', u')" by (cases b)
  show ?case
  proof (cases u')
    case True
    then show ?thesis using Cons by (auto simp: b)
  next
    case False
    then show ?thesis using seg_in[OF Cons.prems(1), of s e False] Cons.prems by (auto simp: b)
  qed
qed simp

theorem rt_malloc_refines:
  assumes R: "heap_rel h bl" and a: "ff_alloc n h bl = (r, bl')"
  obtains h' where "rt_malloc n h = Some (r, h')" "heap_rel h' bl'" "tight h bl \<Longrightarrow> tight h' bl'"
    "hdata h' = hdata h" "mem_size_aligned h' = mem_size_aligned h" "r = None \<Longrightarrow> h' = h"
proof (cases "n = 0 \<or> mem_size_aligned h < unat (RT_ALIGN n)")
  case True
  then show ?thesis using that[of h] R a by (auto simp: ff_alloc_def rt_malloc_def)
next
  case F: False
  let ?n = "malloc_size n"
  have C: "chain h bl" and S: "seg (hmem h) 0 0 bl (heap_end h)" and N: "noadj bl"
    and L: "lfree_ok h bl" and ms: "16 \<le> mem_size_aligned h" "mem_size_aligned h + 32 \<le> 2 ^ 32"
    and U: "used_mem h = used_sum bl" and d8: "8 dvd mem_size_aligned h"
    using R by (auto simp: heap_rel_def chain_def)
  have "?n \<le> mem_size_aligned h"
    using F ms(1) by (auto simp: malloc_size_def Let_def heap_consts)
  then have lim: "malloc_limit h ?n = mem_size_aligned h - ?n" using ms(2) by (rule malloc_limit_eq)
  obtain xs ys where bl: "bl = xs @ ys" and Y: "seg (hmem h) (lst 0 xs) (lfree h) ys (heap_end h)"
    and x: "\<forall>b \<in> set xs. fst b < lfree h" and dw: "dropWhile (\<lambda>b. fst b < lfree h) bl = ys"
    by (rule lfree_split[OF C L])
  have scan: "malloc_scan h ?n (lfree h) = Some (first_fit (malloc_limit h ?n) ?n ys)"
    by (rule scan_first_fit[OF Y]) (simp add: lim heap_end_def)
  show ?thesis
  proof (cases "first_fit (malloc_limit h ?n) ?n ys")
    case None
    then show ?thesis using that[of h] R a F scan by (auto simp: ff_alloc_def rt_malloc_def dw)
  next
    case (Some p)
    then obtain us e vs where ys: "ys = us @ (p, e, False) # vs" and fit: "p + 16 + ?n \<le> e"
      by (rule first_fit_Some)
    have bl2: "bl = (xs @ us) @ (p, e, False) # vs" by (simp add: bl ys)
    have r: "r = Some (p + 16)" and bl': "bl' = bl_take ?n p bl"
      using a F Some by (auto simp: ff_alloc_def dw)
    have nb: "p \<notin> fst ` set (xs @ us)" using seg_not_before[OF S[unfolded bl2]] .
    define h1 where "h1 = malloc_take ?n p h"
    have C1: "chain h1 bl'" and U1: "used_mem h1 = used_sum bl'"
      using malloc_take_chain[OF C[unfolded bl2] fit malloc_size_facts(1)] U
      unfolding h1_def bl' bl2 used_sum_take[OF nb] by simp_all
    have fr: "lfree h1 = lfree h" "mem_size_aligned h1 = mem_size_aligned h" "hdata h1 = hdata h"
      "heap_end h1 = heap_end h"
      by (simp_all add: h1_def)
    have N1: "noadj bl'" unfolding bl' bl2 by (rule noadj_take[OF nb N[unfolded bl2]])
    have "endok (heap_end h) bl'"
      using R fit malloc_size_facts(2)[of n] seg_middle(9)[OF S[unfolded bl2]]
      unfolding bl' bl2 bl_take_append[OF nb] by (auto simp: heap_rel_def endok_def bl2)
    note base = C1 U1 N1 d8 ms this
    show ?thesis
    proof (cases "p = lfree h")
      case True
      have us: "us = []" using seg_middle(1)[OF Y[unfolded ys]] True seg_empty by blast
      let ?ys' = "bl_take ?n p ys"
      have bl'2: "bl' = xs @ ?ys'" using nb unfolding bl' bl ys us by (simp add: bl_take_append)
      have Y1: "seg (hmem h1) (lst 0 xs) p ?ys' (heap_end h1)"
      proof -
        have "nxt 0 xs = p" using seg_nxt[OF seg_middle(1)[OF S[unfolded bl2]]] us by simp
        then show ?thesis using C1 unfolding chain_def bl'2 seg_append by simp
      qed
      let ?l = "first_free (heap_end h) ?ys'"
      let ?h' = "h1\<lparr>lfree := ?l\<rparr>"
      have nf: "next_free h1 (lfree h1) = Some ?l"
        using next_first_free[OF Y1] True by (simp add: fr)
      have h1': "malloc_take ?n (lfree h) h = h1" using True by (simp add: h1_def)
      have m: "rt_malloc n h = Some (r, ?h')"
        using F scan Some True nf by (simp add: rt_malloc_def h1' r heap_consts fr Let_def)
      have "heap_rel ?h' bl'"
        using base first_free_in[of "heap_end h" ?ys'] fr
        by (auto simp: heap_rel_def chain_def heap_end_def lfree_ok_def bl'2)
      moreover have "tight ?h' bl'" if T: "tight h bl"
      proof -
        have "(s, e', False) \<notin> set xs" for s e'
        proof
          assume A: "(s, e', False) \<in> set xs"
          then show False using tightD[OF T, of s e'] bspec[OF x A] by (auto simp: bl)
        qed
        then show ?thesis
          using first_free_least[OF Y1] by (auto simp: tight_def bl'2 fr)
      qed
      ultimately show ?thesis using that[OF m] by (simp add: fr r)
    next
      case False
      have m: "rt_malloc n h = Some (r, h1)"
        using F scan Some False by (simp add: rt_malloc_def h1_def[symmetric] r heap_consts fr Let_def)
      have sub: "(s, e', False) \<in> set bl'" if "(s, e', False) \<in> set bl" "s \<noteq> p" for s e'
        using that unfolding bl' bl2 bl_take_append[OF nb] by auto
      have "lfree_ok h1 bl'"
        using L sub False by (auto simp: lfree_ok_def fr)
      then have "heap_rel h1 bl'" using base by (simp add: heap_rel_def fr)
      moreover have "tight h1 bl'" if T: "tight h bl"
      proof (rule tightI)
        fix s e' assume A: "(s, e', False) \<in> set bl'"
        have "lfree h \<le> p" using tightD[OF T, of p e] by (simp add: bl2)
        then show "lfree h1 \<le> s"
          using A tightD[OF T, of s e'] unfolding bl' bl2 bl_take_append[OF nb]
          by (auto simp: fr split: if_splits)
      qed
      ultimately show ?thesis using that[OF m] by (simp add: fr r)
    qed
  qed
qed

section \<open>Release\<close>

lemma plug_frame [simp]:
  "mem_size_aligned (plug_forward p h) = mem_size_aligned h" "mem_size_aligned (plug_backward p h) = mem_size_aligned h"
  "used_mem (plug_forward p h) = used_mem h" "used_mem (plug_backward p h) = used_mem h"
  "hdata (plug_forward p h) = hdata h" "hdata (plug_backward p h) = hdata h"
  "heap_end (plug_forward p h) = heap_end h" "heap_end (plug_backward p h) = heap_end h"
  by (simp_all add: plug_forward_def plug_backward_def Let_def upd_blk_def heap_end_def)

lemma absorb_end: "seg m pr e ys q \<Longrightarrow> (\<forall>e' zs. ys \<noteq> (e, e', False) # zs) \<Longrightarrow> absorb (p, e, False) ys = (p, e, False) # ys"
  by (cases "((p, e, False), ys)" rule: absorb.cases) auto

lemma plug_forward_chain:
  assumes C: "chain h (xs @ (p, n, False) # ys)" and L: "lfree_ok h (xs @ (p, n, False) # ys)"
  shows "chain (plug_forward p h) (xs @ absorb (p, n, False) ys)"
    and "lfree_ok (plug_forward p h) (xs @ absorb (p, n, False) ys)"
    and "tight h (xs @ (p, n, False) # ys) \<Longrightarrow> tight (plug_forward p h) (xs @ absorb (p, n, False) ys)"
proof -
  have S: "seg (hmem h) 0 0 (xs @ (p, n, False) # ys) (heap_end h)" using C by (simp add: chain_def)
  note M = seg_middle[OF S]
  have "chain (plug_forward p h) (xs @ absorb (p, n, False) ys) \<and>
    lfree_ok (plug_forward p h) (xs @ absorb (p, n, False) ys) \<and>
    (tight h (xs @ (p, n, False) # ys) \<longrightarrow> tight (plug_forward p h) (xs @ absorb (p, n, False) ys))"
  proof (cases "\<exists>e zs. ys = (n, e, False) # zs")
    case True
    then obtain e zs where ys: "ys = (n, e, False) # zs" by blast
    have n: "hnext (hmem h n) = e" "\<not> hused (hmem h n)" "n + 16 \<le> e" "e \<le> heap_end h"
      using M(2) seg_le[of "hmem h" n e zs "heap_end h"] by (auto simp: ys)
    let ?m' = "(hmem h)(p := (hmem h p)\<lparr>hnext := e\<rparr>)"
    have pl: "plug_forward p h = h\<lparr>hmem := ?m'(e := (?m' e)\<lparr>hprev := p\<rparr>), lfree := if lfree h = n then p else lfree h\<rparr>"
      using n M(4,6) by (auto simp: plug_forward_def Let_def upd_blk_def)
    have "seg (?m'(e := (?m' e)\<lparr>hprev := p\<rparr>)) 0 0 (xs @ (p, e, False) # zs) (heap_end h)"
      by (rule seg_merge[OF S[unfolded ys] refl])
    moreover have "p \<le> lfree h" if "tight h (xs @ (p, n, False) # ys)" "lfree h = n"
      using M(4) that by simp
    moreover have "tight (plug_forward p h) (xs @ (p, e, False) # zs)" if T: "tight h (xs @ (p, n, False) # ys)"
    proof (rule tightI)
      fix s e' assume A: "(s, e', False) \<in> set (xs @ (p, e, False) # zs)"
      have "lfree h \<le> p" using tightD[OF T, of p n] by simp
      then have "lfree h \<noteq> n" using M(4) by simp
      moreover have "lfree h \<le> s"
        using A \<open>lfree h \<le> p\<close> tightD[OF T, of s e'] by (auto simp: ys)
      ultimately show "lfree (plug_forward p h) \<le> s" by (simp add: pl)
    qed
    ultimately show ?thesis
      using L by (auto simp: chain_def ys pl heap_end_def lfree_ok_def)
  next
    case False
    have "n = heap_end h \<or> hused (hmem h n)"
      using False M(2) by (cases ys) auto
    then have "plug_forward p h = h" using M(6) by (auto simp: plug_forward_def Let_def)
    moreover have "absorb (p, n, False) ys = (p, n, False) # ys"
      by (rule absorb_end[OF M(2)]) (use False in auto)
    ultimately show ?thesis using C L by simp
  qed
  then show "chain (plug_forward p h) (xs @ absorb (p, n, False) ys)"
    and "lfree_ok (plug_forward p h) (xs @ absorb (p, n, False) ys)"
    and "tight h (xs @ (p, n, False) # ys) \<Longrightarrow> tight (plug_forward p h) (xs @ absorb (p, n, False) ys)"
    by simp_all
qed

definition absorb_last :: "block list \<Rightarrow> block list \<Rightarrow> block list" where
  "absorb_last xs ys = (if xs = [] then ys else butlast xs @ absorb (last xs) ys)"

lemma plug_backward_chain:
  assumes C: "chain h (xs @ (p, e, False) # ys)" and L: "lfree_ok h (xs @ (p, e, False) # ys)"
  shows "chain (plug_backward p h) (absorb_last xs ((p, e, False) # ys))"
    and "lfree_ok (plug_backward p h) (absorb_last xs ((p, e, False) # ys))"
    and "tight h (xs @ (p, e, False) # ys) \<Longrightarrow> tight (plug_backward p h) (absorb_last xs ((p, e, False) # ys))"
proof -
  have S: "seg (hmem h) 0 0 (xs @ (p, e, False) # ys) (heap_end h)" using C by (simp add: chain_def)
  note M = seg_middle[OF S]
  have "chain (plug_backward p h) (absorb_last xs ((p, e, False) # ys)) \<and>
    lfree_ok (plug_backward p h) (absorb_last xs ((p, e, False) # ys)) \<and>
    (tight h (xs @ (p, e, False) # ys) \<longrightarrow> tight (plug_backward p h) (absorb_last xs ((p, e, False) # ys)))"
  proof (cases "xs = []")
    case True
    then have "p = 0" "hprev (hmem h p) = 0" using S by auto
    then have "plug_backward p h = h" by (simp add: plug_backward_def Let_def)
    then show ?thesis using C L True by (simp add: absorb_last_def)
  next
    case False
    then obtain us q p' u where xs: "xs = us @ [(q, p', u)]"
      by (metis append_butlast_last_id prod_cases3)
    have p': "p' = p" using M(1) seg_nxt[OF M(1)] by (simp add: xs)
    have S2: "seg (hmem h) 0 0 (us @ (q, p, u) # (p, e, False) # ys) (heap_end h)" using S by (simp add: xs p')
    note Q = seg_middle[OF S2]
    have prev: "hprev (hmem h p) = q" using M(5) by (simp add: xs)
    have qp: "q + 16 \<le> p" using Q(4) .
    show ?thesis
    proof (cases u)
      case True
      then have "plug_backward p h = h" using Q(7) prev by (simp add: plug_backward_def Let_def)
      then show ?thesis using C L True by (simp add: absorb_last_def xs)
    next
      case F: False
      let ?m' = "(hmem h)(q := (hmem h q)\<lparr>hnext := e\<rparr>)"
      have pl: "plug_backward p h = h\<lparr>hmem := ?m'(e := (?m' e)\<lparr>hprev := q\<rparr>), lfree := if lfree h = p then q else lfree h\<rparr>"
        using F Q(7) M(6) prev qp by (auto simp: plug_backward_def Let_def upd_blk_def)
      have ab: "absorb_last xs ((p, e, False) # ys) = us @ (q, e, False) # ys"
        using F by (simp add: absorb_last_def xs)
      have "seg (?m'(e := (?m' e)\<lparr>hprev := q\<rparr>)) 0 0 (us @ (q, e, u) # ys) (heap_end h)"
        by (rule seg_merge[OF S2 refl])
      then have 1: "chain (plug_backward p h) (us @ (q, e, False) # ys)"
        using F by (simp add: chain_def pl heap_end_def)
      have 2: "lfree_ok (plug_backward p h) (us @ (q, e, False) # ys)"
        using L F by (auto simp: lfree_ok_def pl xs heap_end_def)
      have 3: "tight (plug_backward p h) (us @ (q, e, False) # ys)" if T: "tight h (xs @ (p, e, False) # ys)"
      proof (rule tightI)
        fix s e' assume A: "(s, e', False) \<in> set (us @ (q, e, False) # ys)"
        have l: "lfree h \<le> q" using tightD[OF T, of q p'] F by (simp add: xs)
        then have "lfree h \<noteq> p" using qp by simp
        moreover have "lfree h \<le> s" using A l tightD[OF T, of s e'] by (auto simp: xs)
        ultimately show "lfree (plug_backward p h) \<le> s" by (simp add: pl)
      qed
      show ?thesis using 1 2 3 by (simp add: ab)
    qed
  qed
  then show "chain (plug_backward p h) (absorb_last xs ((p, e, False) # ys))"
    and "lfree_ok (plug_backward p h) (absorb_last xs ((p, e, False) # ys))"
    and "tight h (xs @ (p, e, False) # ys) \<Longrightarrow> tight (plug_backward p h) (absorb_last xs ((p, e, False) # ys))"
    by simp_all
qed

lemma map_mark:
  assumes "seg m pr q (xs @ (p, e, u) # ys) r"
  shows "map (\<lambda>(s, e, u). (s, e, u \<and> s \<noteq> p)) (xs @ (p, e, u) # ys) = xs @ (p, e, False) # ys"
proof -
  have "s \<noteq> p" if "(s, e', u') \<in> set xs" for s e' u'
    using seg_in[OF seg_middle(1)[OF assms] that] by auto
  moreover have "s \<noteq> p" if "(s, e', u') \<in> set ys" for s e' u'
    using seg_in[OF seg_middle(2)[OF assms] that] seg_middle(4)[OF assms] by auto
  ultimately show ?thesis by (fastforce intro: map_idI)
qed

lemma absorb_last_absorb:
  assumes "noadj (xs @ (p, e, u) # ys)"
  shows "coalesce (xs @ (p, e, False) # ys) = absorb_last xs (absorb (p, e, False) ys)"
proof -
  have X: "noadj xs" and Y: "noadj ys" using assms by (auto simp: noadj_append noadj_Cons)
  have c: "coalesce ys = ys" using foldr_absorb_noadj[of ys "[]"] Y by (simp add: coalesce_def)
  let ?l = "absorb (p, e, False) ys"
  have "coalesce (xs @ (p, e, False) # ys) = foldr absorb xs ?l"
    using c by (simp add: coalesce_def)
  also have "\<dots> = absorb_last xs ?l"
  proof (cases "xs = []")
    case False
    then obtain us b where xs: "xs = us @ [b]" by (metis append_butlast_last_id)
    obtain s e' u' where b: "b = (s, e', u')" by (cases b)
    have "noadj (absorb b ?l)" by (intro noadj_absorb Y)
    moreover obtain e2 zs where "absorb b ?l = (s, e2, u') # zs"
      using absorb_Cons[of s e' u' ?l] by (auto simp: b)
    ultimately have "noadj (us @ absorb b ?l)"
      using X by (auto simp: xs noadj_append b)
    then show ?thesis using False by (simp add: xs absorb_last_def foldr_absorb_noadj)
  qed (simp add: absorb_last_def)
  finally show ?thesis .
qed

text \<open>\<open>plug_holes\<close> on a block just marked as free.\<close>

lemma plug_holes_chain:
  assumes C: "chain h (xs @ (p, e, False) # ys)" and L: "lfree_ok h (xs @ (p, e, False) # ys)"
    and N: "noadj (xs @ (p, e, u) # ys)"
  shows "chain (plug_holes p h) (coalesce (xs @ (p, e, False) # ys))"
    and "lfree_ok (plug_holes p h) (coalesce (xs @ (p, e, False) # ys))"
    and "tight h (xs @ (p, e, False) # ys) \<Longrightarrow> tight (plug_holes p h) (coalesce (xs @ (p, e, False) # ys))"
proof -
  obtain e2 zs where a: "absorb (p, e, False) ys = (p, e2, False) # zs"
    using absorb_Cons by blast
  note f = plug_forward_chain[OF C L, unfolded a]
  note b = plug_backward_chain[OF f(1,2)]
  show "chain (plug_holes p h) (coalesce (xs @ (p, e, False) # ys))"
    and "lfree_ok (plug_holes p h) (coalesce (xs @ (p, e, False) # ys))"
    using b(1,2) by (simp_all add: absorb_last_absorb[OF N] a plug_holes_def)
  show "tight (plug_holes p h) (coalesce (xs @ (p, e, False) # ys))" if "tight h (xs @ (p, e, False) # ys)"
    using b(3)[OF f(3)[OF that]] by (simp add: absorb_last_absorb[OF N] a plug_holes_def)
qed

text \<open>\<open>rt_free\<close> of an allocated block.\<close>

theorem rt_free_refines:
  assumes R: "heap_rel h bl" and p: "(p, e, True) \<in> set bl"
  shows "heap_rel (rt_free (Some (p + 16)) h) (bl_release p bl)"
    and "tight h bl \<Longrightarrow> tight (rt_free (Some (p + 16)) h) (bl_release p bl)"
    and "hdata (rt_free (Some (p + 16)) h) = hdata h"
    and "mem_size_aligned (rt_free (Some (p + 16)) h) = mem_size_aligned h"
proof -
  obtain xs ys where bl: "bl = xs @ (p, e, True) # ys" using p split_list by metis
  have S: "seg (hmem h) 0 0 (xs @ (p, e, True) # ys) (heap_end h)" and N: "noadj (xs @ (p, e, True) # ys)"
    and L: "lfree_ok h bl" and U: "used_mem h = used_sum bl"
    using R by (auto simp: heap_rel_def chain_def bl)
  note M = seg_middle[OF S]
  have rel: "bl_release p bl = coalesce (xs @ (p, e, False) # ys)"
    by (simp add: bl_release_def bl map_mark[OF S, simplified])
  let ?k = "(hmem h p)\<lparr>hused := False, magic := 0\<rparr>"
  define h3 where "h3 = h\<lparr>hmem := (hmem h)(p := ?k), lfree := min p (lfree h), used_mem := used_mem h - (e - p)\<rparr>"
  have "p + 16 < heap_end h" using R M(4,9) by (fastforce simp: heap_rel_def endok_def bl)
  then have fr: "rt_free (Some (p + 16)) h = plug_holes p h3"
    using M(4,6,9) by (auto simp: rt_free_def Let_def heap_consts upd_blk_def h3_def min_def)
  have C3: "chain h3 (xs @ (p, e, False) # ys)"
    using seg_flags[OF S, of ?k False] M(5,6) by (simp add: chain_def h3_def heap_end_def)
  have L3: "lfree_ok h3 (xs @ (p, e, False) # ys)"
    using L M(4,9) by (auto simp: lfree_ok_def h3_def bl heap_end_def min_def)
  have T3: "tight h3 (xs @ (p, e, False) # ys)" if "tight h bl"
    using tightD[OF that] by (intro tightI) (auto simp: h3_def bl min_le_iff_disj)
  note P = plug_holes_chain[OF C3 L3 N]
  have "endok (heap_end h) (xs @ (p, e, False) # ys)"
    using R by (auto simp: heap_rel_def endok_def bl)
  then have "endok (heap_end h) (coalesce (xs @ (p, e, False) # ys))"
    using C3 endok_coalesce unfolding chain_def by blast
  moreover have "used_mem h3 = used_sum (xs @ (p, e, False) # ys)" using U by (simp add: h3_def bl)
  moreover have "heap_end h3 = heap_end h" by (simp add: h3_def heap_end_def)
  ultimately show "heap_rel (rt_free (Some (p + 16)) h) (bl_release p bl)"
    using P(1,2) R by (simp add: heap_rel_def fr rel noadj_coalesce used_sum_coalesce plug_holes_def h3_def)
  show "tight (rt_free (Some (p + 16)) h) (bl_release p bl)" if "tight h bl"
    using P(3)[OF T3[OF that]] by (simp add: fr rel)
  show "hdata (rt_free (Some (p + 16)) h) = hdata h"
    and "mem_size_aligned (rt_free (Some (p + 16)) h) = mem_size_aligned h"
    by (simp_all add: fr plug_holes_def h3_def)
qed

section \<open>Change of size\<close>

definition bl_shrink :: "nat \<Rightarrow> nat \<Rightarrow> block list \<Rightarrow> block list" where
  "bl_shrink n p bl =
     coalesce (concat (map (\<lambda>(s, e, u). if s = p then [(p, p + 16 + n, True), (p + 16 + n, e, False)] else [(s, e, u)]) bl))"

lemma split_mark:
  assumes "seg m pr q (xs @ (p, e, u) # ys) r"
  shows "concat (map (\<lambda>(s, e, u). if s = p then [(p, p + 16 + n, True), (p + 16 + n, e, False)] else [(s, e, u)])
     (xs @ (p, e, u) # ys)) = xs @ (p, p + 16 + n, True) # (p + 16 + n, e, False) # ys"
proof -
  let ?f = "\<lambda>(s, e, u). if s = p then [(p, p + 16 + n, True), (p + 16 + n, e, False)] else [(s, e, u)]"
  have "s \<noteq> p" if "(s, e', u') \<in> set xs" for s e' u'
    using seg_in[OF seg_middle(1)[OF assms] that] by auto
  then have x: "map ?f xs = map (\<lambda>b. [b]) xs" by (auto intro: map_cong)
  have "s \<noteq> p" if "(s, e', u') \<in> set ys" for s e' u'
    using seg_in[OF seg_middle(2)[OF assms] that] seg_middle(4)[OF assms] by auto
  then have y: "map ?f ys = map (\<lambda>b. [b]) ys" by (auto intro: map_cong)
  show ?thesis unfolding map_append concat_append x list.map y by simp
qed

lemma realloc_shrink_refines:
  assumes R: "heap_rel h bl" and p: "(p, e, True) \<in> set bl" and n: "p + n + 44 < e" "8 dvd n"
    and h1: "h1 = realloc_shrink p n (h\<lparr>used_mem := used_mem h - (e - p - 16 - n)\<rparr>)"
  shows "heap_rel h1 (bl_shrink n p bl)" and "hdata h1 = hdata h" and "mem_size_aligned h1 = mem_size_aligned h"
proof -
  obtain xs ys where bl: "bl = xs @ (p, e, True) # ys" using p split_list by metis
  have S: "seg (hmem h) 0 0 (xs @ (p, e, True) # ys) (heap_end h)" and N: "noadj (xs @ (p, e, True) # ys)"
    and L: "lfree_ok h bl" and U: "used_mem h = used_sum bl"
    using R by (auto simp: heap_rel_def chain_def bl)
  note M = seg_middle[OF S]
  let ?m = "hmem h" and ?s2 = "p + 16 + n"
  let ?k = "(?m p)\<lparr>hnext := ?s2\<rparr>"
  let ?k2 = "(?m ?s2)\<lparr>magic := HEAP_MAGIC, hused := False, hnext := e, hprev := p\<rparr>"
  let ?m1 = "?m(?s2 := ?k2, p := ?k)"
  let ?m2 = "if e = heap_end h \<and> True then ?m1 else ?m1(e := (?m1 e)\<lparr>hprev := ?s2\<rparr>)"
  let ?bl2 = "xs @ (p, ?s2, True) # (?s2, e, False) # ys"
  define h4 where "h4 = h\<lparr>hmem := ?m2, used_mem := used_mem h - (e - p - 16 - n)\<rparr>"
  have mag: "magic (?m p) = HEAP_MAGIC" using S by (auto simp: seg_append)
  have fr: "h1 = plug_holes ?s2 h4"
    unfolding h1 realloc_shrink_def Let_def heap_consts
    by (rule arg_cong[where f = "plug_holes ?s2"], rule heap.equality)
      (use M(6) n in \<open>auto simp: upd_blk_def h4_def heap_end_def heap_consts fun_eq_iff\<close>)
  have "seg ?m2 0 0 ?bl2 (heap_end h)"
    by (rule seg_split[OF S, of ?s2 ?k True ?k2 ?m1 ?m2 True]) (use n M mag in auto)
  then have C4: "chain h4 ((xs @ [(p, ?s2, True)]) @ (?s2, e, False) # ys)"
    by (simp add: chain_def h4_def heap_end_def)
  have L4: "lfree_ok h4 ((xs @ [(p, ?s2, True)]) @ (?s2, e, False) # ys)"
    using L by (auto simp: lfree_ok_def h4_def bl heap_end_def)
  have N4: "noadj ((xs @ [(p, ?s2, True)]) @ (?s2, e, True) # ys)"
    using N by (auto simp: noadj_append noadj_Cons)
  note P = plug_holes_chain[OF C4 L4 N4]
  have sh: "bl_shrink n p bl = coalesce ?bl2" unfolding bl_shrink_def bl split_mark[OF S] ..
  have "endok (heap_end h) ?bl2" using R n M(9) by (auto simp: heap_rel_def endok_def bl)
  then have "endok (heap_end h) (coalesce ?bl2)"
    using C4 endok_coalesce unfolding chain_def by fastforce
  moreover have "used_mem h4 = used_sum ?bl2" using U n by (simp add: h4_def bl)
  moreover have "heap_end h4 = heap_end h" by (simp add: h4_def heap_end_def)
  ultimately show "heap_rel h1 (bl_shrink n p bl)"
    using P(1,2) R by (simp add: heap_rel_def fr sh noadj_coalesce used_sum_coalesce plug_holes_def h4_def)
  show "hdata h1 = hdata h" and "mem_size_aligned h1 = mem_size_aligned h"
    by (simp_all add: fr plug_holes_def h4_def)
qed

section \<open>The allocations of a client\<close>

text \<open>
  \<open>live_in\<close>: every allocation \<open>(d, k)\<close>, \<open>k\<close> bytes from offset \<open>d\<close>, is a used block of its own.
\<close>

definition live_in :: "block list \<Rightarrow> (nat \<times> nat) list \<Rightarrow> bool" where
  "live_in bl A \<longleftrightarrow> distinct (map fst A) \<and> (\<forall>(d, k) \<in> set A. \<exists>p e. d = p + 16 \<and> (p, e, True) \<in> set bl \<and> d + k \<le> e)"

definition heap_inv :: "heap \<Rightarrow> (nat \<times> nat) list \<Rightarrow> bool" where
  "heap_inv h A \<longleftrightarrow> (\<exists>bl. heap_rel h bl \<and> live_in bl A)"

lemma used_coalesce [simp]: "(s, e, True) \<in> set (coalesce bl) \<longleftrightarrow> (s, e, True) \<in> set bl"
proof -
  have A: "(s, e, True) \<in> set (absorb b bl) \<longleftrightarrow> (s, e, True) \<in> set (b # bl)" for b bl
    by (cases "(b, bl)" rule: absorb.cases) auto
  show ?thesis by (induction bl) (simp_all add: coalesce_def A)
qed

lemma seg_disjoint:
  "seg m pr p bl q \<Longrightarrow> (s, e, u) \<in> set bl \<Longrightarrow> (s', e', u') \<in> set bl \<Longrightarrow> (s, e, u) = (s', e', u') \<or> e \<le> s' \<or> e' \<le> s"
proof (induction bl arbitrary: pr p)
  case (Cons b bl)
  obtain s0 e0 u0 where b: "b = (s0, e0, u0)" by (cases b)
  have S: "seg m s0 e0 bl q" using Cons.prems(1) by (auto simp: b)
  show ?case
    using Cons.IH[OF S] seg_in[OF S, of s e u] seg_in[OF S, of s' e' u'] Cons.prems(2,3) by (auto simp: b)
qed simp

lemma heap_rel_unique:
  "heap_rel h bl \<Longrightarrow> (s, e, u) \<in> set bl \<Longrightarrow> (s, e', u') \<in> set bl \<Longrightarrow> e = e' \<and> u = u'"
  unfolding heap_rel_def chain_def using seg_disjoint[of "hmem h" 0 0 bl "heap_end h" s e u s e' u']
    seg_in[of "hmem h" 0 0 bl "heap_end h" s e u] seg_in[of "hmem h" 0 0 bl "heap_end h" s e' u'] by auto

lemma set_bl_take_mono:
  "p \<notin> {s. \<exists>e. (s, e, True) \<in> set bl} \<Longrightarrow> (s, e, True) \<in> set bl \<Longrightarrow> (s, e, True) \<in> set (bl_take n p bl)"
  by (induction n p bl rule: bl_take.induct) auto

text \<open>A list of allocations follows a change of the blocks: one is removed, one is added.\<close>

lemma live_remove:
  assumes L: "live_in bl A" and d: "(p + 16, k) \<in> set A"
    and K: "\<And>s e. (s, e, True) \<in> set bl \<Longrightarrow> s \<noteq> p \<Longrightarrow> (s, e, True) \<in> set bl'"
  shows "live_in bl' (remove1 (p + 16, k) A)" and "p + 16 \<notin> fst ` set (remove1 (p + 16, k) A)"
proof -
  have D: "distinct (map fst A)" using L by (simp add: live_in_def)
  have sub: "set (remove1 (p + 16, k) A) \<subseteq> set A" by (rule set_remove1_subset)
  have 1: "fst x \<noteq> p + 16" if x: "x \<in> set (remove1 (p + 16, k) A)" for x
  proof
    assume "fst x = p + 16"
    moreover have "inj_on fst (set A)" using D by (simp add: distinct_map)
    moreover have "x \<in> set A" using x sub by blast
    ultimately have "x = (p + 16, k)" using d inj_onD[of fst "set A" x "(p + 16, k)"] by simp
    moreover have "x \<notin> set (remove1 x A)" using D[unfolded distinct_map, THEN conjunct1] by (simp add: set_remove1_eq)
    ultimately show False using x by metis
  qed
  then show "p + 16 \<notin> fst ` set (remove1 (p + 16, k) A)" by (metis imageE)
  have 3: "distinct (map fst (remove1 (p + 16, k) A))"
  proof -
    have "distinct A" and i: "inj_on fst (set A)" using D by (simp_all add: distinct_map)
    show ?thesis
      unfolding distinct_map
      by (rule conjI, rule distinct_remove1[OF \<open>distinct A\<close>], rule inj_on_subset[OF i sub])
  qed
  show "live_in bl' (remove1 (p + 16, k) A)"
    unfolding live_in_def
  proof (intro conjI 3 ballI)
    fix x assume x: "x \<in> set (remove1 (p + 16, k) A)"
    obtain d' k' where x': "x = (d', k')" by (cases x)
    have "x \<in> set A" using x sub by blast
    then obtain s e where "d' = s + 16" "(s, e, True) \<in> set bl" "d' + k' \<le> e"
      using L by (fastforce simp: live_in_def x')
    then show "case x of (d, k) \<Rightarrow> \<exists>p' e. d = p' + 16 \<and> (p', e, True) \<in> set bl' \<and> d + k \<le> e"
      using 1[OF x] K by (auto simp: x')
  qed
qed

lemma live_add:
  "live_in bl A \<Longrightarrow> p + 16 \<notin> fst ` set A \<Longrightarrow> (p, e, True) \<in> set bl \<Longrightarrow> p + 16 + k \<le> e \<Longrightarrow> live_in bl ((p + 16, k) # A)"
  by (auto simp: live_in_def)

lemma live_less: "live_in bl ((d, k) # A) \<Longrightarrow> k' \<le> k \<Longrightarrow> live_in bl ((d, k') # A)"
  unfolding live_in_def by (fastforce intro: le_trans[OF add_left_mono])

lemma live_block:
  "live_in bl A \<Longrightarrow> (d, k) \<in> set A \<Longrightarrow> \<exists>p e. d = p + 16 \<and> (p, e, True) \<in> set bl \<and> d + k \<le> e"
  unfolding live_in_def by blast

lemma ff_alloc_live:
  assumes R: "heap_rel h bl" and L: "live_in bl A" and a: "ff_alloc n h bl = (Some d, bl')"
    and n: "unat n + 7 < 2 ^ 32"
  shows "live_in bl' ((d, unat n) # A)"
proof -
  let ?n = "malloc_size n"
  obtain p where f: "first_fit (malloc_limit h ?n) ?n (dropWhile (\<lambda>b. fst b < lfree h) bl) = Some p"
    and d: "d = p + 16" and bl': "bl' = bl_take ?n p bl"
    using a by (auto simp: ff_alloc_def split: if_splits option.splits)
  obtain us e vs where dw: "dropWhile (\<lambda>b. fst b < lfree h) bl = us @ (p, e, False) # vs" and fit: "p + 16 + ?n \<le> e"
    using f by (rule first_fit_Some)
  then have "(p, e, False) \<in> set bl" by (metis in_set_conv_decomp set_dropWhileD)
  then obtain xs ys where bl: "bl = xs @ (p, e, False) # ys" using split_list by metis
  have S: "seg (hmem h) 0 0 (xs @ (p, e, False) # ys) (heap_end h)"
    using R by (auto simp: heap_rel_def chain_def bl)
  have nu: "(p, e', True) \<notin> set bl" for e'
    using heap_rel_unique[OF R, of p e False e' True] by (auto simp: bl)
  have "unat n \<le> ?n"
    using malloc_size_facts(3)[of n] unat_RT_ALIGN(1)[OF n] by (simp add: div_mult_self_is_m)
  then have "\<exists>e'. (p, e', True) \<in> set bl' \<and> p + 16 + unat n \<le> e'"
    using fit unfolding bl' bl bl_take_append[OF seg_not_before[OF S]]
    by (cases "p + ?n + 48 \<le> e") auto
  moreover have "d \<notin> fst ` set A" using L nu by (auto simp: live_in_def d)
  moreover have "(s, e', True) \<in> set bl'" if "(s, e', True) \<in> set bl" for s e'
    unfolding bl' by (rule set_bl_take_mono) (use nu that in auto)
  moreover have "live_in bl' A" using L calculation(3) unfolding live_in_def by blast
  ultimately show ?thesis unfolding d using live_add[of bl' A p _ "unat n"] by (auto simp: d)
qed

lemma release_live:
  assumes L: "live_in bl A" and d: "(p + 16, k) \<in> set A"
  shows "live_in (bl_release p bl) (remove1 (p + 16, k) A)"
  by (rule live_remove(1)[OF L d]) (force simp: bl_release_def)

lemma shrink_live:
  assumes R: "heap_rel h bl" and L: "live_in bl A" and d: "(p + 16, k) \<in> set A" and p: "(p, e, True) \<in> set bl"
    and k: "k' \<le> n"
  shows "live_in (bl_shrink n p bl) ((p + 16, k') # remove1 (p + 16, k) A)"
proof -
  have "(s, e', True) \<in> set (bl_shrink n p bl)" if "(s, e', True) \<in> set bl" "s \<noteq> p" for s e'
    using that by (force simp: bl_shrink_def)
  moreover have "(p, p + 16 + n, True) \<in> set (bl_shrink n p bl)"
    using p by (force simp: bl_shrink_def)
  ultimately show ?thesis
    using live_remove[OF L d, of "bl_shrink n p bl"] k by (intro live_add[of _ _ _ "p + 16 + n"]) auto
qed

lemma heap_rel_hdata [simp]: "heap_rel (h\<lparr>hdata := D\<rparr>) bl = heap_rel h bl"
  by (simp add: heap_rel_def chain_def lfree_ok_def heap_end_def)

lemma copy_data_rel [simp]: "heap_rel (copy_data a b n h) bl = heap_rel h bl"
  by (simp add: copy_data_def)

text \<open>One lemma for each call.\<close>

lemma malloc_inv:
  assumes I: "heap_inv h A" and n: "unat n + 7 < 2 ^ 32"
  obtains r h' where "rt_malloc n h = Some (r, h')" "r = None \<Longrightarrow> h' = h"
    "hdata h' = hdata h" "mem_size_aligned h' = mem_size_aligned h" "heap_inv h' A"
    "\<And>d. r = Some d \<Longrightarrow> heap_inv h' ((d, unat n) # A)"
proof -
  obtain bl where R: "heap_rel h bl" and L: "live_in bl A" using I by (auto simp: heap_inv_def)
  obtain r bl' where a: "ff_alloc n h bl = (r, bl')" by (cases "ff_alloc n h bl")
  obtain h' where m: "rt_malloc n h = Some (r, h')" "heap_rel h' bl'" "hdata h' = hdata h"
    "mem_size_aligned h' = mem_size_aligned h" "r = None \<Longrightarrow> h' = h"
    using rt_malloc_refines[OF R a] by metis
  have 1: "heap_inv h' ((d, unat n) # A)" if "r = Some d" for d
    using ff_alloc_live[OF R L a[unfolded that] n] m(2) by (auto simp: heap_inv_def)
  have 2: "heap_inv h' A"
  proof (cases r)
    case (Some d)
    then show ?thesis using 1 by (auto simp: heap_inv_def live_in_def)
  qed (use m(5) I in simp)
  show ?thesis by (rule that[OF m(1) m(5) m(3) m(4) 2 1])
qed

lemma free_inv:
  assumes I: "heap_inv h A" and d: "(d, k) \<in> set A"
  shows "heap_inv (rt_free (Some d) h) (remove1 (d, k) A)" and "hdata (rt_free (Some d) h) = hdata h"
    and "mem_size_aligned (rt_free (Some d) h) = mem_size_aligned h"
proof -
  obtain bl where R: "heap_rel h bl" and L: "live_in bl A" using I by (auto simp: heap_inv_def)
  obtain p e where p: "d = p + 16" "(p, e, True) \<in> set bl" using live_block[OF L d] by blast
  show "heap_inv (rt_free (Some d) h) (remove1 (d, k) A)"
    using rt_free_refines(1)[OF R p(2)] release_live[OF L d[unfolded p(1)]] by (auto simp: heap_inv_def p(1))
  show "hdata (rt_free (Some d) h) = hdata h"
    and "mem_size_aligned (rt_free (Some d) h) = mem_size_aligned h"
    using rt_free_refines(3,4)[OF R p(2)] by (simp_all add: p(1))
qed

lemma realloc_inv:
  assumes I: "heap_inv h A" and d: "(d, k) \<in> set A" and n: "unat n + 7 < 2 ^ 32"
  obtains r h' where "rt_realloc (Some d) n h = Some (r, h')" "r = None \<Longrightarrow> h' = h"
    "mem_size_aligned h' = mem_size_aligned h" "heap_inv h' (case r of None \<Rightarrow> A | Some d' \<Rightarrow> (d', unat n) # remove1 (d, k) A)"
    "\<And>d' i. r = Some d' \<Longrightarrow> i < k \<Longrightarrow> i < unat n \<Longrightarrow> hdata h' (d' + i) = hdata h (d + i)"
    "\<And>d2 k2 i. (d2, k2) \<in> set A \<Longrightarrow> i < k2 \<Longrightarrow> hdata h' (d2 + i) = hdata h (d2 + i)"
proof -
  obtain bl where R: "heap_rel h bl" and L: "live_in bl A" using I by (auto simp: heap_inv_def)
  obtain p e where p: "d = p + 16" "(p, e, True) \<in> set bl" "d + k \<le> e" using live_block[OF L d] by blast
  have S: "seg (hmem h) 0 0 bl (heap_end h)" and E: "endok (heap_end h) bl"
    using R by (auto simp: heap_rel_def chain_def)
  have B: "p + 16 \<le> e" "e \<le> heap_end h" using seg_in[OF S p(2)] by auto
  then have inside: "\<not> heap_end h \<le> d" using E p(2) by (fastforce simp: endok_def p(1))
  obtain xs ys where bl: "bl = xs @ (p, e, True) # ys" using p(2) split_list by metis
  have nx: "hnext (hmem h p) = e" using seg_middle(6)[OF S[unfolded bl]] .
  let ?ns = "unat (RT_ALIGN n)"
  have ns: "unat n \<le> ?ns" using unat_RT_ALIGN(1)[OF n] by (simp add: div_mult_self_is_m)
  have d8: "8 dvd ?ns" by (rule unat_RT_ALIGN(2))
  consider (big) "mem_size_aligned h < ?ns" | (same) "?ns \<le> mem_size_aligned h" "e - p - 16 = ?ns"
    | (shrink) "?ns \<le> mem_size_aligned h" "e - p - 16 \<noteq> ?ns" "?ns + 28 < e - p - 16"
    | (new) "?ns \<le> mem_size_aligned h" "e - p - 16 \<noteq> ?ns" "\<not> ?ns + 28 < e - p - 16" by linarith
  then show ?thesis
  proof cases
    case big
    then have "rt_realloc (Some d) n h = Some (None, h)" by (simp add: rt_realloc_def Let_def)
    then show ?thesis using that[of None h] I by simp
  next
    case same
    then have m: "rt_realloc (Some d) n h = Some (Some d, h)"
      using inside nx by (simp add: rt_realloc_def Let_def heap_consts p(1))
    have "live_in bl ((p + 16, unat n) # remove1 (p + 16, k) A)"
      using live_remove[OF L d[unfolded p(1)], of bl] p(2) same B ns by (intro live_add[of _ _ _ e]) auto
    then have "heap_inv h ((d, unat n) # remove1 (d, k) A)" using R by (auto simp: heap_inv_def p(1))
    then show ?thesis using that[OF m] by simp
  next
    case shrink
    define h1 where "h1 = realloc_shrink p ?ns (h\<lparr>used_mem := used_mem h - (e - p - 16 - ?ns)\<rparr>)"
    have m: "rt_realloc (Some d) n h = Some (Some d, h1)"
      using shrink inside nx by (simp add: rt_realloc_def Let_def heap_consts p(1) h1_def)
    have "p + ?ns + 44 < e" using shrink(3) by linarith
    note sh = realloc_shrink_refines[OF R p(2) this d8 h1_def]
    have "heap_inv h1 ((d, unat n) # remove1 (d, k) A)"
      using sh(1) shrink_live[OF R L d[unfolded p(1)] p(2) ns] by (auto simp: heap_inv_def p(1))
    then show ?thesis using that[OF m] sh(2,3) by simp
  next
    case new
    have "?ns + 7 < 2 ^ 32" using new(1) R by (auto simp: heap_rel_def)
    then obtain r h1 where m: "rt_malloc (RT_ALIGN n) h = Some (r, h1)" "r = None \<Longrightarrow> h1 = h"
      "hdata h1 = hdata h" "mem_size_aligned h1 = mem_size_aligned h"
      "\<And>d'. r = Some d' \<Longrightarrow> heap_inv h1 ((d', ?ns) # A)"
      using malloc_inv[OF I] by metis
    show ?thesis
    proof (cases r)
      case None
      then have "rt_realloc (Some d) n h = Some (None, h)"
        using new inside nx m(1,2) by (simp add: rt_realloc_def Let_def heap_consts p(1))
      then show ?thesis using that[of None h] I by simp
    next
      case (Some d')
      define c where "c = copy_data d' d (min (e - p - 16) ?ns) h1"
      define h2 where "h2 = rt_free (Some d) c"
      have r: "rt_realloc (Some d) n h = Some (Some d', h2)"
        using new inside nx m(1) Some
        by (simp add: rt_realloc_def Let_def heap_consts p(1) h2_def c_def)
      have I1: "heap_inv h1 ((d', ?ns) # A)" by (rule m(5)[OF Some])
      then have Ic: "heap_inv c ((d', ?ns) # A)" by (simp add: heap_inv_def c_def)
      have dd: "d' \<noteq> d" using I1 d by (force simp: heap_inv_def live_in_def)
      have dk: "(d, k) \<in> set ((d', ?ns) # A)" using d by simp
      note F = free_inv[OF Ic dk, folded h2_def]
      have 1: "heap_inv h2 ((d', unat n) # remove1 (d, k) A)"
        using F(1) dd live_less[OF _ ns] by (auto simp: heap_inv_def)
      have D: "hdata h2 = hdata c" by (rule F(2))
      obtain bl1 where R1: "heap_rel h1 bl1" and L1: "live_in bl1 ((d', ?ns) # A)"
        using I1 by (auto simp: heap_inv_def)
      have S1: "seg (hmem h1) 0 0 bl1 (heap_end h1)" using R1 by (simp add: heap_rel_def chain_def)
      have other: "hdata h2 (d2 + i) = hdata h (d2 + i)" if in2: "(d2, k2) \<in> set A" and i: "i < k2" for d2 k2 i
      proof -
        obtain p1 e1 where 1: "d' = p1 + 16" "(p1, e1, True) \<in> set bl1" "d' + ?ns \<le> e1"
          using live_block[OF L1, of d' ?ns] by auto
        obtain p2 e2 where 2: "d2 = p2 + 16" "(p2, e2, True) \<in> set bl1" "d2 + k2 \<le> e2"
          using live_block[OF L1, of d2 k2] in2 by auto
        have "d2 \<noteq> d'" using L1 in2 by (force simp: live_in_def)
        then have "e1 \<le> p2 \<or> e2 \<le> p1" using seg_disjoint[OF S1 1(2) 2(2)] 1 2 by auto
        then show ?thesis using 1 2 i by (auto simp: D c_def copy_data_def m(3))
      qed
      have copied: "hdata h2 (d' + i) = hdata h (d + i)" if "i < k" "i < unat n" for i
        using that ns p(1,3) by (auto simp: D c_def copy_data_def m(3))
      show ?thesis
      proof (rule that[OF r])
        show "mem_size_aligned h2 = mem_size_aligned h" using F(3) m(4) by (simp add: c_def copy_data_def)
        show "heap_inv h2 (case Some d' of None \<Rightarrow> A | Some d' \<Rightarrow> (d', unat n) # remove1 (d, k) A)" using 1 by simp
        show "hdata h2 (d2 + i) = hdata h (d2 + i)" if "(d2, k2) \<in> set A" "i < k2" for d2 k2 i
          by (rule other[OF that])
      qed (use copied in auto)
    qed
  qed
qed

lemma calloc_inv:
  assumes I: "heap_inv h A" and n: "unat (c * n) + 7 < 2 ^ 32"
  obtains r h' where "rt_calloc c n h = Some (r, h')" "heap_inv h' A"
    "\<And>d. r = Some d \<Longrightarrow> heap_inv h' ((d, unat (c * n)) # A)"
proof -
  obtain r h1 where m: "rt_malloc (c * n) h = Some (r, h1)" "heap_inv h1 A"
    "\<And>d. r = Some d \<Longrightarrow> heap_inv h1 ((d, unat (c * n)) # A)"
    using malloc_inv[OF I n] by metis
  show ?thesis
  proof (cases r)
    case None
    then show ?thesis using that[of None h1] m by (simp add: rt_calloc_def)
  next
    case (Some d)
    let ?h = "h1\<lparr>hdata := (\<lambda>a. if d \<le> a \<and> a < d + unat (c * n) then 0 else hdata h1 a)\<rparr>"
    have "rt_calloc c n h = Some (Some d, ?h)" using m(1) Some by (simp add: rt_calloc_def)
    then show ?thesis using that[of "Some d" ?h] m Some by (simp add: heap_inv_def)
  qed
qed

lemma heap_init_inv:
  assumes "rt_system_heap_init b e junk = Some h" and "16 \<le> mem_size_aligned h"
  shows "heap_rel h [(0, heap_end h, False)]" and "tight h [(0, heap_end h, False)]"
proof -
  let ?b = "unat (RT_ALIGN b)" and ?e = "unat (e AND NOT 7)"
  have ms: "mem_size_aligned h = ?e - ?b - 32" and ge: "?b + 32 \<le> ?e"
    and h: "hmem h 0 = \<lparr>magic = HEAP_MAGIC, hused = False, hnext = mem_size_aligned h + 16, hprev = 0\<rparr>"
      "lfree h = 0" "used_mem h = 0"
    using assms by (auto simp: rt_system_heap_init_def Let_def heap_consts split: if_splits)
  have "8 dvd ?b" by (rule unat_RT_ALIGN(2))
  moreover have "8 dvd ?e" unfolding unat_and_not7 by simp
  ultimately have "8 dvd ?e - ?b - 32" by (intro dvd_diff_nat) auto
  moreover have "?e < 2 ^ 32" using unsigned_less[of "e AND NOT 7", where ?'a = nat] by simp
  ultimately show "heap_rel h [(0, heap_end h, False)]"
    using assms(2) ge h
    by (auto simp: heap_rel_def chain_def noadj_Cons lfree_ok_def endok_def heap_end_def heap_consts ms)
  show "tight h [(0, heap_end h, False)]" by (simp add: tight_def h)
qed

section \<open>Everything a client can do\<close>

inductive heap_reach :: "heap \<Rightarrow> (nat \<times> nat) list \<Rightarrow> bool" where
  init: "rt_system_heap_init b e junk = Some h \<Longrightarrow> 16 \<le> mem_size_aligned h \<Longrightarrow> heap_reach h []"
| malloc: "heap_reach h A \<Longrightarrow> unat n + 7 < 2 ^ 32 \<Longrightarrow> rt_malloc n h = Some (Some d, h') \<Longrightarrow>
     heap_reach h' ((d, unat n) # A)"
| calloc: "heap_reach h A \<Longrightarrow> unat (c * n) + 7 < 2 ^ 32 \<Longrightarrow> rt_calloc c n h = Some (Some d, h') \<Longrightarrow>
     heap_reach h' ((d, unat (c * n)) # A)"
| realloc: "heap_reach h A \<Longrightarrow> (d, k) \<in> set A \<Longrightarrow> unat n + 7 < 2 ^ 32 \<Longrightarrow>
     rt_realloc (Some d) n h = Some (Some d', h') \<Longrightarrow> heap_reach h' ((d', unat n) # remove1 (d, k) A)"
| store: "heap_reach h A \<Longrightarrow> (d, k) \<in> set A \<Longrightarrow> i < k \<Longrightarrow> heap_reach (h\<lparr>hdata := (hdata h)(d + i := v)\<rparr>) A"
| free: "heap_reach h A \<Longrightarrow> (d, k) \<in> set A \<Longrightarrow> heap_reach (rt_free (Some d) h) (remove1 (d, k) A)"

lemma heap_reach_inv: "heap_reach h A \<Longrightarrow> heap_inv h A"
proof (induction rule: heap_reach.induct)
  case (init b e junk h)
  then show ?case using heap_init_inv(1)[OF init] by (auto simp: heap_inv_def live_in_def)
next
  case (malloc h A n d h')
  show ?case using malloc_inv[OF malloc.IH malloc.hyps(2)] malloc.hyps(3) by fastforce
next
  case (calloc h A c n d h')
  show ?case using calloc_inv[OF calloc.IH calloc.hyps(2)] calloc.hyps(3) by fastforce
next
  case (realloc h A d k n d' h')
  obtain r h2 where m: "rt_realloc (Some d) n h = Some (r, h2)"
    "heap_inv h2 (case r of None \<Rightarrow> A | Some d' \<Rightarrow> (d', unat n) # remove1 (d, k) A)"
    using realloc_inv[OF realloc.IH realloc.hyps(2,3)] by metis
  then show ?case using realloc.hyps(4) by (auto split: option.splits)
next
  case (store h A d k i v)
  then show ?case by (simp add: heap_inv_def)
next
  case (free h A d k)
  then show ?case by (simp add: free_inv)
qed

lemma first_fit_used:
  assumes S: "seg m pr p (xs @ ys) q" and x: "\<And>s e. (s, e, False) \<notin> set xs"
  shows "first_fit lim n (xs @ ys) = first_fit lim n ys"
  using assms
proof (induction xs arbitrary: pr p)
  case (Cons b xs)
  obtain s e u where b: "b = (s, e, u)" by (cases b)
  have u: "u" using Cons.prems(2)[of s e] by (auto simp: b)
  have T: "seg m s e (xs @ ys) q" and se: "s + 16 \<le> e" using Cons.prems(1) by (auto simp: b)
  have IH: "first_fit lim n (xs @ ys) = first_fit lim n ys"
    by (rule Cons.IH[OF T]) (use Cons.prems(2) in auto)
  show ?case
  proof (cases "s < lim")
    case False
    have "first_fit lim n ys = None"
    proof (cases ys)
      case (Cons c cs)
      obtain s' e' u' where c: "c = (s', e', u')" by (cases c)
      have "e \<le> s'" using seg_in[OF T, of s' e' u'] by (simp add: Cons c)
      then show ?thesis using False se by (simp add: Cons c)
    qed simp
    then show ?thesis using False by (simp add: b)
  qed (simp add: b u IH)
qed simp

text \<open>What \<open>first_fit\<close> finds on a chain: the lowest of the free blocks that are large enough and start below the limit.\<close>

lemma first_fit_lowest:
  assumes "seg m pr p bl q"
  shows "case first_fit lim n bl of
      None \<Rightarrow> \<forall>(s, e, u) \<in> set bl. \<not> u \<longrightarrow> s < lim \<longrightarrow> e < s + 16 + n
    | Some s \<Rightarrow> s < lim \<and> (\<exists>e. (s, e, False) \<in> set bl \<and> s + 16 + n \<le> e) \<and>
        (\<forall>(s', e', u') \<in> set bl. \<not> u' \<longrightarrow> s' + 16 + n \<le> e' \<longrightarrow> s \<le> s')"
  using assms
proof (induction bl arbitrary: pr p)
  case (Cons b bl)
  obtain s e u where b: "b = (s, e, u)" by (cases b)
  have S: "seg m s e bl q" and se: "s + 16 \<le> e" using Cons.prems by (auto simp: b)
  have above: "s < s'" if "(s', e', u') \<in> set bl" for s' e' u' using seg_in[OF S that] se by linarith
  show ?case
  proof (cases "s < lim")
    case False
    then show ?thesis using above by (auto simp: b dest: order.strict_trans)
  next
    case lim: True
    show ?thesis
    proof (cases "\<not> u \<and> s + 16 + n \<le> e")
      case True
      then show ?thesis using lim above by (auto simp: b less_imp_le)
    next
      case False
      then have f: "first_fit lim n (b # bl) = first_fit lim n bl" using lim by (auto simp: b)
      show ?thesis using Cons.IH[OF S] False unfolding f by (auto simp: b split: option.splits)
    qed
  qed
qed simp

section \<open>Properties\<close>

text \<open>
  C23: Whatever a client does with the heap - allocate, clear, resize, write to its memory, free -
  its allocations lie inside the heap, are aligned to 8 bytes, and any two of them are at least
  the 16 bytes of a block header apart.
\<close>

theorem heap_allocations:
  assumes "heap_reach h A"
  shows "(\<forall>(d, k) \<in> set A. 16 \<le> d \<and> 8 dvd d \<and> d + k \<le> heap_end h) \<and>
    (\<forall>i < length A. \<forall>j < length A. i \<noteq> j \<longrightarrow>
       fst (A ! i) + snd (A ! i) + 16 \<le> fst (A ! j) \<or> fst (A ! j) + snd (A ! j) + 16 \<le> fst (A ! i))"
proof -
  obtain bl where R: "heap_rel h bl" and L: "live_in bl A"
    using heap_reach_inv[OF assms] by (auto simp: heap_inv_def)
  have S: "seg (hmem h) 0 0 bl (heap_end h)" using R by (simp add: heap_rel_def chain_def)
  have "16 \<le> d \<and> 8 dvd d \<and> d + k \<le> heap_end h" if dk: "(d, k) \<in> set A" for d k
  proof -
    obtain p e where "d = p + 16" "(p, e, True) \<in> set bl" "d + k \<le> e" using live_block[OF L dk] by blast
    then show ?thesis using seg_in[OF S, of p e True] by auto
  qed
  moreover have "fst (A ! i) + snd (A ! i) + 16 \<le> fst (A ! j) \<or> fst (A ! j) + snd (A ! j) + 16 \<le> fst (A ! i)"
    if ij: "i < length A" "j < length A" "i \<noteq> j" for i j
  proof -
    obtain d k d' k' where A: "A ! i = (d, k)" "A ! j = (d', k')" by (cases "A ! i"; cases "A ! j")
    have "(d, k) \<in> set A" "(d', k') \<in> set A" using ij A nth_mem[of i A] nth_mem[of j A] by simp_all
    then obtain p e p' e' where b: "d = p + 16" "(p, e, True) \<in> set bl" "d + k \<le> e"
      "d' = p' + 16" "(p', e', True) \<in> set bl" "d' + k' \<le> e'"
      using live_block[OF L] by meson
    have "d \<noteq> d'"
      using L ij A nth_eq_iff_index_eq[of "map fst A" i j] by (auto simp: live_in_def)
    then show ?thesis using seg_disjoint[OF S b(2) b(5)] b A by auto
  qed
  ultimately show ?thesis by fast
qed

text \<open>
  C27: In every state a client can reach, allocating and resizing return.  A resize that fails
  changes nothing; one that succeeds carries over the contents up to the smaller of the two
  sizes, and no call changes a byte of another allocation.
\<close>

theorem realloc_keeps_data:
  assumes "heap_reach h A" and "unat n + 7 < 2 ^ 32" and "(d, k) \<in> set A"
  shows "(\<exists>r h'. rt_malloc n h = Some (r, h')) \<and>
    (\<exists>r h'. rt_realloc (Some d) n h = Some (r, h') \<and> (r = None \<longrightarrow> h' = h) \<and>
       (\<forall>d' i. r = Some d' \<longrightarrow> i < min k (unat n) \<longrightarrow> hdata h' (d' + i) = hdata h (d + i)) \<and>
       (\<forall>(d2, k2) \<in> set A. \<forall>i < k2. hdata h' (d2 + i) = hdata h (d2 + i)))"
proof -
  have I: "heap_inv h A" by (rule heap_reach_inv[OF assms(1)])
  obtain r h' where m: "rt_malloc n h = Some (r, h')" using malloc_inv[OF I assms(2)] by metis
  obtain r2 h2 where r: "rt_realloc (Some d) n h = Some (r2, h2)" "r2 = None \<Longrightarrow> h2 = h"
    "\<And>d' i. r2 = Some d' \<Longrightarrow> i < k \<Longrightarrow> i < unat n \<Longrightarrow> hdata h2 (d' + i) = hdata h (d + i)"
    "\<And>d2 k2 i. (d2, k2) \<in> set A \<Longrightarrow> i < k2 \<Longrightarrow> hdata h2 (d2 + i) = hdata h (d2 + i)"
    by (rule realloc_inv[OF I assms(3,2)]) blast
  show ?thesis
  proof (intro conjI exI)
    show "rt_malloc n h = Some (r, h')" by (rule m)
    show "rt_realloc (Some d) n h = Some (r2, h2)" by (rule r(1))
  qed (use r in auto)
qed

lemma malloc_tight:
  assumes "heap_rel h bl" and "tight h bl" and "n \<noteq> 0" and "rt_malloc n h = Some (r, h')"
  shows "r = map_option (\<lambda>p. p + 16) (first_fit (mem_size_aligned h - malloc_size n) (malloc_size n) bl)"
proof -
  obtain r2 bl' where a: "ff_alloc n h bl = (r2, bl')" by (cases "ff_alloc n h bl")
  have r: "r = r2" using rt_malloc_refines[OF assms(1) a] assms(4) by (metis option.inject prod.inject)
  have S: "seg (hmem h) 0 0 bl (heap_end h)" and L: "lfree_ok h bl" and ms: "16 \<le> mem_size_aligned h"
    "mem_size_aligned h + 32 \<le> 2 ^ 32"
    using assms(1) by (auto simp: heap_rel_def chain_def)
  show ?thesis
  proof (cases "mem_size_aligned h < unat (RT_ALIGN n)")
    case True
    have "mem_size_aligned h - malloc_size n = 0" using True malloc_size_facts(3)[of n] by simp
    then have "first_fit (mem_size_aligned h - malloc_size n) (malloc_size n) bl = None"
      by (cases "(0 :: nat, malloc_size n, bl)" rule: first_fit.cases) auto
    then show ?thesis using True a by (simp add: r ff_alloc_def)
  next
    case False
    then have "malloc_size n \<le> mem_size_aligned h"
      using ms(1) by (auto simp: malloc_size_def Let_def heap_consts)
    then have lim: "malloc_limit h (malloc_size n) = mem_size_aligned h - malloc_size n"
      using ms(2) by (rule malloc_limit_eq)
    obtain xs ys where bl: "bl = xs @ ys" and x: "\<forall>b \<in> set xs. fst b < lfree h"
      and dw: "dropWhile (\<lambda>b. fst b < lfree h) bl = ys"
      using assms(1) L by (elim lfree_split[rotated]) (auto simp: heap_rel_def)
    have "(s, e, False) \<notin> set xs" for s e
      using tightD[OF assms(2), of s e] bspec[OF x, of "(s, e, False)"] by (auto simp: bl)
    then have "first_fit (malloc_limit h (malloc_size n)) (malloc_size n) bl =
        first_fit (malloc_limit h (malloc_size n)) (malloc_size n) ys"
      using first_fit_used[of "hmem h" 0 0 xs ys "heap_end h"] S by (simp add: bl)
    then show ?thesis using False a assms(3) by (auto simp: r ff_alloc_def dw lim split: option.splits)
  qed
qed

text \<open>
  The same without the condition on \<open>lfree\<close>, and what is left.  The blocks that an allocation of \<open>n\<close> bytes considers
  are free, start at \<open>lfree\<close> or above and before the limit, and are large enough.
\<close>

definition suits :: "heap \<Rightarrow> nat \<Rightarrow> block \<Rightarrow> bool" where
  "suits h n b \<longleftrightarrow> (case b of (s, e, u) \<Rightarrow>
     \<not> u \<and> lfree h \<le> s \<and> s < mem_size_aligned h - n \<and> s + 16 + n \<le> e)"

lemma malloc_lowest:
  assumes "heap_rel h bl" and "n \<noteq> 0"
  shows "\<exists>r h'. rt_malloc n h = Some (r, h') \<and> hdata h' = hdata h \<and>
    (case r of
       None \<Rightarrow> h' = h \<and> (\<forall>b \<in> set bl. \<not> suits h (malloc_size n) b)
     | Some d \<Rightarrow> \<exists>p e. d = p + 16 \<and> (p, e, False) \<in> set bl \<and> suits h (malloc_size n) (p, e, False) \<and>
         (\<forall>b \<in> set bl. suits h (malloc_size n) b \<longrightarrow> p \<le> fst b) \<and> heap_rel h' (bl_take (malloc_size n) p bl))"
proof -
  obtain r bl' where a: "ff_alloc n h bl = (r, bl')" by (cases "ff_alloc n h bl")
  obtain h' where m: "rt_malloc n h = Some (r, h')" "heap_rel h' bl'" "hdata h' = hdata h" "r = None \<Longrightarrow> h' = h"
    using rt_malloc_refines[OF assms(1) a] by metis
  have C: "chain h bl" and L: "lfree_ok h bl" and ms: "16 \<le> mem_size_aligned h" "mem_size_aligned h + 32 \<le> 2 ^ 32"
    using assms(1) by (auto simp: heap_rel_def)
  show ?thesis
  proof (cases "mem_size_aligned h < unat (RT_ALIGN n)")
    case True
    then have "mem_size_aligned h - malloc_size n = 0" "r = None"
      using malloc_size_facts(3)[of n] a by (simp_all add: ff_alloc_def)
    then show ?thesis using m by (auto simp: suits_def)
  next
    case False
    then have "malloc_size n \<le> mem_size_aligned h" using ms(1) by (auto simp: malloc_size_def Let_def heap_consts)
    then have lim: "malloc_limit h (malloc_size n) = mem_size_aligned h - malloc_size n"
      using ms(2) by (rule malloc_limit_eq)
    obtain xs ys where bl: "bl = xs @ ys" and Y: "seg (hmem h) (lst 0 xs) (lfree h) ys (heap_end h)"
      and x: "\<forall>b \<in> set xs. fst b < lfree h" and dw: "dropWhile (\<lambda>b. fst b < lfree h) bl = ys"
      by (rule lfree_split[OF C L])
    have in_ys: "(s, e, u) \<in> set bl \<Longrightarrow> lfree h \<le> s \<Longrightarrow> (s, e, u) \<in> set ys" for s e u
      using bspec[OF x, of "(s, e, u)"] by (auto simp: bl)
    note f = first_fit_lowest[OF Y, of "mem_size_aligned h - malloc_size n" "malloc_size n"]
    show ?thesis
    proof (cases "first_fit (mem_size_aligned h - malloc_size n) (malloc_size n) ys")
      case None
      then have "r = None" using a False by (simp add: ff_alloc_def dw lim assms(2))
      moreover have "\<not> suits h (malloc_size n) b" if "b \<in> set bl" for b
      proof -
        obtain s e u where b: "b = (s, e, u)" by (cases b)
        show ?thesis using in_ys[of s e u] that f None by (fastforce simp: suits_def b)
      qed
      ultimately show ?thesis using m by auto
    next
      case (Some p)
      then have r: "r = Some (p + 16)" "bl' = bl_take (malloc_size n) p bl"
        using a False assms(2) by (simp_all add: ff_alloc_def dw lim)
      obtain e where e: "(p, e, False) \<in> set ys" "p + 16 + malloc_size n \<le> e" "p < mem_size_aligned h - malloc_size n"
          "\<forall>(s', e', u') \<in> set ys. \<not> u' \<longrightarrow> s' + 16 + malloc_size n \<le> e' \<longrightarrow> p \<le> s'"
        using f Some by auto
      have "lfree h \<le> p" using seg_in[OF Y e(1)] by simp
      then have "suits h (malloc_size n) (p, e, False)" using e(2,3) by (simp add: suits_def)
      moreover have "p \<le> fst b" if "b \<in> set bl" "suits h (malloc_size n) b" for b
      proof -
        obtain s e' u where b: "b = (s, e', u)" by (cases b)
        show ?thesis using that in_ys[of s e' u] bspec[OF e(4), of b] by (simp add: suits_def b)
      qed
      moreover have "(p, e, False) \<in> set bl" using e(1) by (simp add: bl)
      ultimately show ?thesis using m(1-3) unfolding r
        by (intro exI[of _ "Some (p + 16)"] exI[of _ h']) (simp, blast)
    qed
  qed
qed

text \<open>
  C28: First fit from \<open>lfree\<close> on.  Whatever blocks a heap is made of (and every heap a
  client can reach is made of blocks, \<open>heap_reach_inv\<close>), \<open>rt_malloc\<close> of a size other than 0 returns.  It takes, of the
  free blocks that start at \<open>lfree\<close> or above and before \<open>mem_size_aligned - size\<close> and are large enough, the
  one that starts lowest, splitting it when the rest can hold a block; and it fails, changing nothing, only when there is
  none.  A free block below \<open>lfree\<close>, which \<open>rt_realloc\<close> can leave behind, and one at the end that is just large
  enough are not found.  When no block below \<open>lfree\<close> is free, which allocating and freeing keep true, this is
  the first fit of the whole heap.
\<close>

theorem malloc_first_fit:
  assumes "heap_rel h bl" and "n \<noteq> 0"
  shows "\<exists>r h'. rt_malloc n h = Some (r, h') \<and> hdata h' = hdata h \<and>
    (case r of
       None \<Rightarrow> h' = h \<and> (\<forall>b \<in> set bl. \<not> suits h (malloc_size n) b)
     | Some d \<Rightarrow> \<exists>p e. d = p + 16 \<and> (p, e, False) \<in> set bl \<and> suits h (malloc_size n) (p, e, False) \<and>
         (\<forall>b \<in> set bl. suits h (malloc_size n) b \<longrightarrow> p \<le> fst b) \<and> heap_rel h' (bl_take (malloc_size n) p bl)) \<and>
    (tight h bl \<longrightarrow>
       r = map_option (\<lambda>p. p + 16) (first_fit (mem_size_aligned h - malloc_size n) (malloc_size n) bl))"
proof -
  from malloc_lowest[OF assms] obtain r h' where m: "rt_malloc n h = Some (r, h')" and rest: "hdata h' = hdata h \<and>
    (case r of
       None \<Rightarrow> h' = h \<and> (\<forall>b \<in> set bl. \<not> suits h (malloc_size n) b)
     | Some d \<Rightarrow> \<exists>p e. d = p + 16 \<and> (p, e, False) \<in> set bl \<and> suits h (malloc_size n) (p, e, False) \<and>
         (\<forall>b \<in> set bl. suits h (malloc_size n) b \<longrightarrow> p \<le> fst b) \<and> heap_rel h' (bl_take (malloc_size n) p bl))"
    by (elim exE conjE) (rule that, assumption, intro conjI)
  show ?thesis using m rest malloc_tight[OF assms(1) _ assms(2) m] by (intro exI[of _ r] exI[of _ h']) blast
qed

text \<open>
  \<open>rt_realloc\<close> does not lower \<open>lfree\<close> when it splits a block.  In a heap without free block the
  space it gives back is a free block of the chain, but no allocation finds it.
\<close>

theorem shrunk_block_lost:
  assumes "heap_rel h bl" and "\<forall>(s, e, u) \<in> set bl. u" and "(p, e, True) \<in> set bl"
    and "p + unat (RT_ALIGN n) + 44 < e" and "k \<noteq> 0"
  shows "\<exists>h'. rt_realloc (Some (p + 16)) n h = Some (Some (p + 16), h') \<and>
    \<not> hused (hmem h' (p + 16 + unat (RT_ALIGN n))) \<and> hnext (hmem h' (p + 16 + unat (RT_ALIGN n))) = e \<and>
    rt_malloc k h' = Some (None, h')"
proof -
  let ?ns = "unat (RT_ALIGN n)"
  let ?s2 = "p + 16 + ?ns"
  obtain xs ys where bl: "bl = xs @ (p, e, True) # ys" using assms(3) split_list by metis
  have S: "seg (hmem h) 0 0 (xs @ (p, e, True) # ys) (heap_end h)" and lok: "lfree_ok h bl"
    and E: "endok (heap_end h) bl" and ms: "16 \<le> mem_size_aligned h" "mem_size_aligned h + 32 \<le> 2 ^ 32"
    using assms(1) by (auto simp: heap_rel_def chain_def bl)
  have "(s, e', False) \<notin> set bl" for s e' using bspec[OF assms(2), of "(s, e', False)"] by auto
  then have L: "lfree h = heap_end h" using lok by (simp add: lfree_ok_def)
  note M = seg_middle[OF S]
  have "e = heap_end h \<longrightarrow> p + 16 < e" using bspec[OF E[unfolded endok_def] assms(3)] by simp
  then have inside: "\<not> heap_end h \<le> p + 16" using M(9,4) by linarith
  have next_used: "e = heap_end h \<or> hused (hmem h e)"
    using M(2) assms(2) by (cases ys) (auto simp: bl)
  define h0 where "h0 = h\<lparr>used_mem := used_mem h - (e - p - 16 - ?ns)\<rparr>"
  define h' where "h' = realloc_shrink p ?ns h0"
  have "?ns \<le> mem_size_aligned h" using assms(4) M(9) by (simp add: heap_end_def heap_consts)
  then have r: "rt_realloc (Some (p + 16)) n h = Some (Some (p + 16), h')"
    using inside M(6) assms(4) by (auto simp: rt_realloc_def Let_def heap_consts h'_def h0_def)
  define h4 where "h4 = h0\<lparr>hmem := (let m = (hmem h)
      (?s2 := (hmem h ?s2)\<lparr>magic := HEAP_MAGIC, hused := False, hnext := e, hprev := p\<rparr>, p := (hmem h p)\<lparr>hnext := ?s2\<rparr>)
      in if e = heap_end h then m else m(e := (m e)\<lparr>hprev := ?s2\<rparr>))\<rparr>"
  have h4: "h' = plug_holes ?s2 h4"
    unfolding h'_def realloc_shrink_def Let_def heap_consts
    by (rule arg_cong[where f = "plug_holes ?s2"], rule heap.equality)
      (use M(6) assms(4) in \<open>simp_all add: upd_blk_def h4_def h0_def Let_def heap_end_def heap_consts fun_eq_iff\<close>)
  have f: "plug_forward ?s2 h4 = h4"
    using next_used assms(4) by (auto simp: plug_forward_def Let_def h4_def h0_def heap_end_def)
  have b: "plug_backward ?s2 h4 = h4"
    using M(7) assms(4) by (auto simp: plug_backward_def Let_def h4_def h0_def)
  have h': "h' = h4" by (simp add: h4 plug_holes_def f b)
  have "\<not> hused (hmem h' ?s2)" "hnext (hmem h' ?s2) = e"
    using assms(4) by (auto simp: h' h4_def Let_def)
  moreover have "rt_malloc k h' = Some (None, h')"
  proof (cases "mem_size_aligned h < unat (RT_ALIGN k)")
    case True
    then show ?thesis by (simp add: rt_malloc_def h' h4_def h0_def)
  next
    case False
    have m: "mem_size_aligned h' = mem_size_aligned h" "lfree h' = heap_end h"
      by (simp_all add: h' h4_def h0_def L)
    have "malloc_size k \<le> mem_size_aligned h'"
      using False ms by (auto simp: malloc_size_def Let_def heap_consts m)
    then have "malloc_limit h' (malloc_size k) \<le> heap_end h"
      using malloc_limit_eq[of "malloc_size k" h'] ms by (simp add: m heap_end_def)
    then have "malloc_scan h' (malloc_size k) (lfree h') = Some None"
      using scan_first_fit[of h' 0 "heap_end h" "[]" "heap_end h"] by (simp add: m)
    then show ?thesis using False assms(5) by (simp add: rt_malloc_def m)
  qed
  ultimately show ?thesis using r by blast
qed

text \<open>A heap of 256 bytes in which two allocations use up everything.\<close>

definition heap0 :: heap where
  "heap0 = the (rt_system_heap_init 0x20000004 0x20000128 (\<lambda>_. 0))"

lemma heap0: "heap_reach heap0 []" "heap_rel heap0 [(0, 272, False)]" "tight heap0 [(0, 272, False)]"
  "mem_size_aligned heap0 = 256" "lfree heap0 = 0"
proof -
  have i: "rt_system_heap_init 0x20000004 0x20000128 (\<lambda>_. 0) = Some heap0"
    by (simp add: heap0_def rt_system_heap_init_def RT_ALIGN_def Let_def heap_consts)
  show m: "mem_size_aligned heap0 = 256" and "lfree heap0 = 0"
    by (simp_all add: heap0_def rt_system_heap_init_def RT_ALIGN_def Let_def heap_consts)
  show "heap_reach heap0 []" using heap_reach.init[OF i] m by simp
  have "heap_end heap0 = 272" by (simp add: heap_end_def m heap_consts)
  then show "heap_rel heap0 [(0, 272, False)]" "tight heap0 [(0, 272, False)]"
    using heap_init_inv[OF i] m by simp_all
qed

lemma heap_full:
  obtains h1 h2 where "rt_malloc 90 heap0 = Some (Some 16, h1)" "rt_malloc 130 h1 = Some (Some 128, h2)"
    "heap_rel h2 [(0, 112, True), (112, 272, True)]" "heap_reach h2 [(128, 130), (16, 90)]"
proof -
  have s: "malloc_size 90 = 96" "malloc_size 130 = 136" "RT_ALIGN 90 = 96" "RT_ALIGN 130 = 136" "RT_ALIGN 16 = 16"
    by (simp_all add: malloc_size_def RT_ALIGN_def Let_def heap_consts)
  have "ff_alloc 90 heap0 [(0, 272, False)] = (Some 16, [(0, 112, True), (112, 272, False)])"
    by (simp add: ff_alloc_def s heap0 malloc_limit_eq)
  then obtain h1 where h1: "rt_malloc 90 heap0 = Some (Some 16, h1)" "heap_rel h1 [(0, 112, True), (112, 272, False)]"
    "tight h1 [(0, 112, True), (112, 272, False)]" "mem_size_aligned h1 = 256"
    using rt_malloc_refines[OF heap0(2)] heap0(3,4) by metis
  have "lfree_ok h1 [(0, 112, True), (112, 272, False)]" using h1(2) by (simp add: heap_rel_def)
  then have l: "lfree h1 = 112"
    using h1(3) by (auto simp: lfree_ok_def tight_def heap_end_def h1(4) heap_consts)
  have "ff_alloc 130 h1 [(0, 112, True), (112, 272, False)] = (Some 128, [(0, 112, True), (112, 272, True)])"
    by (simp add: ff_alloc_def s h1(4) l malloc_limit_eq)
  then obtain h2 where h2: "rt_malloc 130 h1 = Some (Some 128, h2)" "heap_rel h2 [(0, 112, True), (112, 272, True)]"
    using rt_malloc_refines[OF h1(2)] by metis
  have "heap_reach h2 [(128, 130), (16, 90)]"
    using heap_reach.malloc[OF heap_reach.malloc[OF heap0(1) _ h1(1)] _ h2(1)] by simp
  then show ?thesis using that h1(1) h2 by blast
qed

theorem heap_allocations_witness:
  "\<exists>h. heap_reach h [(128, 130), (16, 90)] \<and>
     (\<forall>(d, k) \<in> set [(128, 130), (16, 90)]. 16 \<le> d \<and> 8 dvd d \<and> d + k \<le> heap_end h)"
proof -
  obtain h where h: "heap_reach h [(128, 130), (16, 90)]" using heap_full by metis
  show ?thesis using h conjunct1[OF heap_allocations[OF h]] by (intro exI[of _ h] conjI)
qed

theorem realloc_keeps_data_witness:
  "\<exists>h r h'. heap_reach h [(128, 130), (16, 90)] \<and> rt_realloc (Some 16) 16 h = Some (r, h') \<and>
     (\<forall>i < 130. hdata h' (128 + i) = hdata h (128 + i))"
proof -
  obtain h where h: "heap_reach h [(128, 130), (16, 90)]" using heap_full by metis
  have "unat (16 :: u32) + 7 < 2 ^ 32" "(16, 90) \<in> set [(128, 130), (16 :: nat, 90 :: nat)]" by simp_all
  from realloc_keeps_data[OF h this] obtain r h' where r: "rt_realloc (Some 16) 16 h = Some (r, h')"
    "\<forall>(d2, k2) \<in> set [(128, 130), (16, 90)]. \<forall>i < k2. hdata h' (d2 + i) = hdata h (d2 + i)"
    by blast
  have "\<forall>i < 130. hdata h' (128 + i) = hdata h (128 + i)" using r(2) by simp
  then show ?thesis using h r(1) by blast
qed

theorem malloc_first_fit_witness:
  "\<exists>h'. rt_malloc 90 heap0 = Some (Some 16, h') \<and> heap_rel h' (bl_take (malloc_size 90) 0 [(0, 272, False)]) \<and>
     Some 16 = map_option (\<lambda>p. p + 16) (first_fit (256 - malloc_size 90) (malloc_size 90) [(0, 272, False)])"
proof -
  obtain h1 where h: "rt_malloc 90 heap0 = Some (Some 16, h1)" using heap_full by metis
  have n: "(90 :: u32) \<noteq> 0" by simp
  obtain r h2 where m: "rt_malloc 90 heap0 = Some (r, h2) \<and> hdata h2 = hdata heap0 \<and>
    (case r of
       None \<Rightarrow> h2 = heap0 \<and> (\<forall>b \<in> set [(0, 272, False)]. \<not> suits heap0 (malloc_size 90) b)
     | Some d \<Rightarrow> \<exists>p e. d = p + 16 \<and> (p, e, False) \<in> set [(0, 272, False)] \<and> suits heap0 (malloc_size 90) (p, e, False) \<and>
         (\<forall>b \<in> set [(0, 272, False)]. suits heap0 (malloc_size 90) b \<longrightarrow> p \<le> fst b) \<and>
         heap_rel h2 (bl_take (malloc_size 90) p [(0, 272, False)])) \<and>
    (tight heap0 [(0, 272, False)] \<longrightarrow> r = map_option (\<lambda>p. p + 16)
       (first_fit (mem_size_aligned heap0 - malloc_size 90) (malloc_size 90) [(0, 272, False)]))"
    using malloc_first_fit[OF heap0(2) n] by (elim exE) (rule that)
  have r: "r = Some 16" "h2 = h1" using conjunct1[OF m] h by simp_all
  have "heap_rel h1 (bl_take (malloc_size 90) 0 [(0, 272, False)])"
    using m[THEN conjunct2, THEN conjunct2, THEN conjunct1] by (simp add: r)
  moreover have "Some 16 = map_option (\<lambda>p. p + 16) (first_fit (256 - malloc_size 90) (malloc_size 90) [(0, 272, False)])"
    using m[THEN conjunct2, THEN conjunct2, THEN conjunct2] heap0(3) unfolding r heap0(4) by (rule mp)
  ultimately show ?thesis using h by blast
qed

theorem shrunk_block_lost_witness:
  "\<exists>h h'. heap_reach h [(128, 130), (16, 90)] \<and> rt_realloc (Some 16) 16 h = Some (Some 16, h') \<and>
     \<not> hused (hmem h' 32) \<and> hnext (hmem h' 32) = 112 \<and> rt_malloc 8 h' = Some (None, h')"
proof -
  obtain h where h: "heap_rel h [(0, 112, True), (112, 272, True)]" "heap_reach h [(128, 130), (16, 90)]"
    using heap_full by metis
  have s: "unat (RT_ALIGN 16) = 16" by (simp add: RT_ALIGN_def)
  obtain h' where "rt_realloc (Some 16) 16 h = Some (Some 16, h')"
     "\<not> hused (hmem h' 32)" "hnext (hmem h' 32) = 112" "rt_malloc 8 h' = Some (None, h')"
    using shrunk_block_lost[OF h(1), of 0 112 16 8] by (auto simp: s)
  then show ?thesis using h(2) by blast
qed

end
