(* ===== verification/Kern_Pool.thy ===== *)
theory Kern_Pool
  imports Kern Kern_Mem
begin

unbundle bit_operations_syntax

text \<open>
  Memory pools (\<open>mempool.c\<close>): blocks of one size, each behind a word that links it into the list of free blocks or, while it
  is handed out, points to its pool.  The memory is a map from addresses to words; \<open>mp\<close> is the address of the
  pool.  A call that waits is cut into \<open>rt_mp_alloc\<close>, which returns or suspends the thread, and \<open>mp_wake\<close>.
\<close>

record mempool =
  start_address :: u32
  pool_size :: u32
  block_size :: u32
  block_list :: u32
  block_total_count :: u32
  block_free_count :: u32
  suspend_thread :: "nat list"
  suspend_thread_count :: u32

type_synonym words = "u32 \<Rightarrow> u32"
type_synonym pool = "mempool \<times> words \<times> threads"

datatype mp_result = Block_At u32 | Null | Waits

definition blk_addr :: "mempool \<Rightarrow> nat \<Rightarrow> u32" where
  "blk_addr m i = start_address m + of_nat i * (block_size m + 4)"

text \<open>The loop that links the free blocks, and the end of the list.\<close>

definition mp_link :: "mempool \<Rightarrow> words \<Rightarrow> words" where
  "mp_link m mem =
     (fold (\<lambda>i h. h(blk_addr m i := blk_addr m (i + 1))) [0..<unat (block_total_count m)] mem)
       (start_address m + (block_total_count m - 1) * (block_size m + 4) := 0)"

definition mp_fresh :: "u32 \<Rightarrow> u32 \<Rightarrow> u32 \<Rightarrow> u32 \<Rightarrow> mempool" where
  "mp_fresh start bytes bs blks =
     \<lparr>start_address = start, pool_size = bytes, block_size = bs, block_list = start, block_total_count = blks,
      block_free_count = blks, suspend_thread = [], suspend_thread_count = 0\<rparr>"

definition rt_mp_init :: "u32 \<Rightarrow> u32 \<Rightarrow> u32 \<Rightarrow> words \<Rightarrow> mempool \<times> words" where
  "rt_mp_init start bytes bsize mem =
     (let sz = bytes AND NOT 7; bs = RT_ALIGN bsize; m = mp_fresh start sz bs (sz div (bs + 4))
      in (m, mp_link m mem))"

text \<open>Whether the object can be allocated, and what \<open>rt_malloc\<close> returns for a size, are arguments.\<close>

definition rt_mp_create :: "bool \<Rightarrow> (u32 \<Rightarrow> u32) \<Rightarrow> u32 \<Rightarrow> u32 \<Rightarrow> words \<Rightarrow> (mempool \<times> words) option" where
  "rt_mp_create object alloc count bsize mem =
     (let bs = RT_ALIGN bsize; start = alloc ((bs + 4) * count); m = mp_fresh start ((bs + 4) * count) bs count
      in if \<not> object \<or> start = 0 then None else Some (m, mp_link m mem))"

definition rt_mp_alloc :: "u32 \<Rightarrow> nat \<Rightarrow> int \<Rightarrow> pool \<Rightarrow> mp_result \<times> pool" where
  "rt_mp_alloc mp t time s =
     (let (m, mem, ths) = s
      in if block_free_count m = 0
         then if time = 0 then (Null, (m, mem, set_error t (- RT_ETIMEOUT) ths))
              else (Waits, (m\<lparr>suspend_thread := t # suspend_thread m, suspend_thread_count := suspend_thread_count m + 1\<rparr>,
                            mem, start_timer t time (rt_thread_suspend t (set_error t 0 ths))))
         else (Block_At (block_list m + 4),
               (m\<lparr>block_free_count := block_free_count m - 1, block_list := mem (block_list m)\<rparr>,
                mem(block_list m := mp), ths)))"

text \<open>The rest of the call when the thread runs again, \<open>elapsed\<close> ticks later.\<close>

definition mp_wake :: "u32 \<Rightarrow> nat \<Rightarrow> int \<Rightarrow> u32 \<Rightarrow> pool \<Rightarrow> mp_result \<times> pool" where
  "mp_wake mp t time elapsed s =
     (if terror (snd (snd s) t) \<noteq> 0 then (Null, s)
      else rt_mp_alloc mp t (if time > 0 then max 0 (sint (of_int time - elapsed)) else time) s)"

text \<open>
  The pool of a block is what the word in front of it points to; the release of a block of another pool is \<open>None\<close>, and so is
  taking the first thread of the list when it is empty.
\<close>

definition rt_mp_free :: "u32 \<Rightarrow> u32 \<Rightarrow> pool \<Rightarrow> pool option" where
  "rt_mp_free mp blk s =
     (let (m, mem, ths) = s;
          m1 = m\<lparr>block_free_count := block_free_count m + 1, block_list := blk - 4\<rparr>;
          mem1 = mem(blk - 4 := block_list m)
      in if mem (blk - 4) \<noteq> mp then None
         else if suspend_thread_count m > 0
         then case suspend_thread m of
                [] \<Rightarrow> None
              | t # _ \<Rightarrow>
                  let (ws, ths1) = rt_ipc_list_resume (suspend_thread m, set_error t 0 ths)
                  in Some (m1\<lparr>suspend_thread := ws, suspend_thread_count := suspend_thread_count m - 1\<rparr>, mem1, ths1)
         else Some (m1, mem1, ths))"

text \<open>The loop over the waiting threads is written as in \<open>rt_ipc_list_resume_all\<close>, \<open>None\<close> included.\<close>

definition rt_mp_detach :: "pool \<Rightarrow> (int \<times> pool) option" where
  "rt_mp_detach s =
     (let (m, mem, ths) = s
      in map_option (\<lambda>ths1.
           (0, (m\<lparr>suspend_thread := [], suspend_thread_count := suspend_thread_count m - of_nat (length (suspend_thread m))\<rparr>,
                mem, ths1)))
           (rt_ipc_list_resume_all (suspend_thread m) ths))"

text \<open>\<open>rt_mp_delete\<close> releases the memory of the pool, which is the second component, and the object.\<close>

definition rt_mp_delete :: "pool \<Rightarrow> (int \<times> u32 \<times> pool) option" where
  "rt_mp_delete s = map_option (\<lambda>(r, s1). (r, start_address (fst s), s1)) (rt_mp_detach s)"

text \<open>\<open>rt_thread_timeout\<close> takes a waiting thread off the list and does not know the pool.\<close>

definition mp_timeout :: "nat \<Rightarrow> pool \<Rightarrow> pool" where
  "mp_timeout t s =
     (let (m, mem, ths) = s
      in (m\<lparr>suspend_thread := remove1 t (suspend_thread m)\<rparr>, mem, rt_thread_timeout t ths))"

section \<open>All states of a pool\<close>

text \<open>
  \<open>out\<close> are the blocks that are handed out, \<open>n\<close> is the number of waits that have expired.  The owner of a block writes
  into it, word by word.
\<close>

inductive pool_reach :: "u32 \<Rightarrow> nat \<Rightarrow> u32 set \<Rightarrow> pool \<Rightarrow> bool" for mp where
  init: "start \<noteq> 0 \<Longrightarrow> unat start + unat bytes < 2 ^ 32 \<Longrightarrow> rt_mp_init start bytes bsize mem = (m, mem1) \<Longrightarrow>
    block_total_count m \<noteq> 0 \<Longrightarrow> \<forall>t. \<not> suspended (ths t) \<Longrightarrow> pool_reach mp 0 {} (m, mem1, ths)"
| alloc: "pool_reach mp n out s \<Longrightarrow> \<not> suspended (snd (snd s) t) \<Longrightarrow> rt_mp_alloc mp t time s = (r, s1) \<Longrightarrow>
    pool_reach mp n (case r of Block_At b \<Rightarrow> insert b out | _ \<Rightarrow> out) s1"
| wake: "pool_reach mp n out s \<Longrightarrow> \<not> suspended (snd (snd s) t) \<Longrightarrow> mp_wake mp t time elapsed s = (r, s1) \<Longrightarrow>
    pool_reach mp n (case r of Block_At b \<Rightarrow> insert b out | _ \<Rightarrow> out) s1"
| free: "pool_reach mp n out s \<Longrightarrow> b \<in> out \<Longrightarrow> rt_mp_free mp b s = Some s1 \<Longrightarrow> pool_reach mp n (out - {b}) s1"
| timeout: "pool_reach mp n out s \<Longrightarrow> t \<in> set (suspend_thread (fst s)) \<Longrightarrow> pool_reach mp (Suc n) out (mp_timeout t s)"
| store: "pool_reach mp n out (m, mem, ths) \<Longrightarrow> b \<in> out \<Longrightarrow> 4 * j < unat (block_size m) \<Longrightarrow>
    pool_reach mp n out (m, mem(b + of_nat (4 * j) := v), ths)"

text \<open>The list of free blocks in memory.\<close>

fun linked :: "words \<Rightarrow> u32 \<Rightarrow> u32 list \<Rightarrow> bool" where
  "linked mem a [] \<longleftrightarrow> a = 0"
| "linked mem a (b # bs) \<longleftrightarrow> a = b \<and> linked mem (mem b) bs"

text \<open>The blocks fit into the address space.\<close>

definition geometry :: "mempool \<Rightarrow> bool" where
  "geometry m \<longleftrightarrow> start_address m \<noteq> 0 \<and>
     unat (block_size m) + 4 < 2 ^ 32 \<and>
     unat (start_address m) + unat (block_total_count m) * (unat (block_size m) + 4) < 2 ^ 32"

definition blocks :: "mempool \<Rightarrow> u32 set" where
  "blocks m = blk_addr m ` {..<unat (block_total_count m)}"

definition pool_inv :: "u32 \<Rightarrow> nat \<Rightarrow> u32 set \<Rightarrow> pool \<Rightarrow> bool" where
  "pool_inv mp n out s \<longleftrightarrow>
     (case s of (m, mem, ths) \<Rightarrow>
       geometry m \<and>
       (\<exists>fl. linked mem (block_list m) fl \<and> distinct fl \<and> unat (block_free_count m) = length fl \<and>
          set fl \<inter> (\<lambda>b. b - 4) ` out = {} \<and> set fl \<union> (\<lambda>b. b - 4) ` out = blocks m) \<and>
       (\<forall>b \<in> out. mem (b - 4) = mp) \<and>
       distinct (suspend_thread m) \<and> (\<forall>t. suspended (ths t) \<longleftrightarrow> t \<in> set (suspend_thread m)) \<and>
       suspend_thread_count m = of_nat (length (suspend_thread m) + n))"

lemma blk_unat:
  assumes "geometry m" and "i \<le> unat (block_total_count m)"
  shows "unat (blk_addr m i) = unat (start_address m) + i * (unat (block_size m) + 4)"
proof -
  let ?n = "unat (block_size m) + 4"
  have s: "unat (block_size m + 4) = ?n" using assms(1) by (simp add: geometry_def unat_word_ariths)
  have "i * ?n \<le> unat (block_total_count m) * ?n" using assms(2) by (rule mult_le_mono1)
  then have l: "unat (start_address m) + i * ?n < 2 ^ 32" using assms(1) unfolding geometry_def by linarith
  have "i \<le> i * ?n" by simp
  then have "i < 2 ^ 32" using l by linarith
  then have "unat (of_nat i :: u32) = i" by (simp add: unat_of_nat)
  then have "unat (of_nat i :: u32) * unat (block_size m + 4) = i * ?n" by (simp only: s)
  moreover have "i * ?n < 2 ^ 32" using l by linarith
  ultimately have m: "unat (of_nat i * (block_size m + 4)) = i * ?n"
    using iffD1[OF unat_mult_lem, of "of_nat i :: u32" "block_size m + 4"] by simp
  show ?thesis
    using iffD1[OF unat_add_lem, of "start_address m" "of_nat i * (block_size m + 4)"] l unfolding blk_addr_def m by simp
qed

lemma blk_inj: "geometry m \<Longrightarrow> inj_on (blk_addr m) {..unat (block_total_count m)}"
  by (rule inj_onI) (metis add_left_cancel atMost_iff blk_unat mult_cancel2 zero_neq_numeral add_is_0)

lemma blk_nonzero: "geometry m \<Longrightarrow> a \<in> blocks m \<Longrightarrow> a \<noteq> 0"
proof -
  assume g: "geometry m" and "a \<in> blocks m"
  then obtain i where "i < unat (block_total_count m)" "a = blk_addr m i" by (auto simp: blocks_def)
  then have "unat a \<ge> unat (start_address m)" using blk_unat[OF g] by simp
  then show "a \<noteq> 0" using g by (auto simp: geometry_def unat_eq_0)
qed

lemma linked_cong: "(\<And>b. b \<in> set fl \<Longrightarrow> mem1 b = mem b) \<Longrightarrow> linked mem1 a fl = linked mem a fl"
  by (induction fl arbitrary: a) auto

lemma linked_other [simp]: "c \<notin> set fl \<Longrightarrow> linked (mem(c := v)) a fl = linked mem a fl"
  by (rule linked_cong) auto

section \<open>The operations keep the invariant\<close>

lemma fold_updates:
  "inj_on f {..<n} \<Longrightarrow> i < n \<Longrightarrow> fold (\<lambda>i h. h(f i := g i)) [0..<n] h (f i) = g i"
proof (induction n)
  case (Suc n)
  then have "i = n \<or> i < n \<and> f i \<noteq> f n" by (auto simp: inj_on_def)
  then show ?case using Suc.IH Suc.prems(1) by (auto simp: inj_on_def)
qed simp

lemma link_at:
  assumes g: "geometry m" and i: "i < unat (block_total_count m)"
  shows "mp_link m mem (blk_addr m i) = (if Suc i = unat (block_total_count m) then 0 else blk_addr m (Suc i))"
proof -
  let ?n = "unat (block_total_count m)"
  have "block_total_count m \<noteq> 0" using i by auto
  then have "of_nat (?n - 1) = block_total_count m - 1" by (simp add: of_nat_diff unat_gt_0 Suc_leI)
  then have last: "start_address m + (block_total_count m - 1) * (block_size m + 4) = blk_addr m (?n - 1)"
    by (simp add: blk_addr_def)
  have "inj_on (blk_addr m) {..<?n}" using blk_inj[OF g] by (rule inj_on_subset) auto
  then have "fold (\<lambda>i h. h(blk_addr m i := blk_addr m (i + 1))) [0..<?n] mem (blk_addr m i) = blk_addr m (Suc i)"
    using fold_updates[of "blk_addr m" ?n i "\<lambda>i. blk_addr m (i + 1)"] i by simp
  moreover have "blk_addr m i = blk_addr m (?n - 1) \<longleftrightarrow> i = ?n - 1"
    using blk_inj[OF g] i by (auto dest: inj_onD)
  ultimately show ?thesis using i by (auto simp: mp_link_def last)
qed

lemma link_chain:
  assumes "geometry m" and "k \<le> unat (block_total_count m)"
  shows "linked (mp_link m mem) (if k = unat (block_total_count m) then 0 else blk_addr m k)
    (map (blk_addr m) [k..<unat (block_total_count m)])"
  using assms(2)
proof (induction rule: inc_induct)
  case (step k)
  then show ?case using link_at[OF assms(1) step.hyps(2)] by (simp add: upt_conv_Cons)
qed simp

lemma pool_init_inv:
  assumes "start \<noteq> 0" and "unat start + unat bytes < 2 ^ 32" and r: "rt_mp_init start bytes bsize mem = (m, mem1)"
    and "block_total_count m \<noteq> 0" and "\<forall>t. \<not> suspended (ths t)"
  shows "pool_inv mp 0 {} (m, mem1, ths)"
proof -
  let ?bs = "RT_ALIGN bsize" and ?sz = "bytes AND NOT 7"
  let ?n = "unat (block_total_count m)"
  have m: "m = mp_fresh start ?sz ?bs (?sz div (?bs + 4))" "mem1 = mp_link m mem"
    using r by (auto simp: rt_mp_init_def Let_def)
  obtain q where q: "unat ?bs = 8 * q" using unat_RT_ALIGN(2) by blast
  moreover have "unat ?bs < 2 ^ 32" using unsigned_less[of ?bs, where ?'a = nat] by simp
  ultimately have b4: "unat ?bs + 4 < 2 ^ 32" by simp
  then have u4: "unat (?bs + 4) = unat ?bs + 4" using iffD1[OF unat_add_lem, of ?bs 4] by simp
  have "?n = unat ?sz div (unat ?bs + 4)" by (simp add: m(1) mp_fresh_def unat_div u4)
  then have "?n * (unat ?bs + 4) \<le> unat ?sz" by simp
  moreover have "unat ?sz \<le> unat bytes" unfolding unat_and_not7 by simp
  ultimately have "?n * (unat ?bs + 4) \<le> unat bytes" by linarith
  then have g: "geometry m" using assms(1,2) b4 by (auto simp: geometry_def m(1) mp_fresh_def)
  let ?fl = "map (blk_addr m) [0..<?n]"
  have "linked mem1 (block_list m) ?fl"
    using link_chain[OF g, of 0 mem] assms(4) by (simp add: m(2) mp_fresh_def blk_addr_def unat_eq_0) (simp add: m(1) mp_fresh_def)
  moreover have "distinct ?fl" using blk_inj[OF g] by (auto simp: distinct_map intro: inj_on_subset)
  moreover have "set ?fl = blocks m" by (auto simp: blocks_def)
  ultimately show ?thesis using assms(5) g unfolding pool_inv_def prod.case
    by (intro conjI exI[of _ ?fl]) (auto simp: m(1) mp_fresh_def)
qed

text \<open>A block that is handed out is a block.\<close>

lemma out_block: "pool_inv mp n out (m, mem, ths) \<Longrightarrow> b \<in> out \<Longrightarrow> b - 4 \<in> blocks m"
  by (auto simp: pool_inv_def)

lemma alloc_inv:
  assumes i: "pool_inv mp n out s" and t: "\<not> suspended (snd (snd s) t)" and r: "rt_mp_alloc mp t time s = (r, s1)"
  shows "pool_inv mp n (case r of Block_At b \<Rightarrow> insert b out | _ \<Rightarrow> out) s1"
proof -
  obtain m mem ths where s: "s = (m, mem, ths)" by (metis prod_cases3)
  note d = i[unfolded pool_inv_def s prod.case]
  obtain fl where fl: "linked mem (block_list m) fl" "distinct fl" "unat (block_free_count m) = length fl"
    "set fl \<inter> (\<lambda>b. b - 4) ` out = {}" "set fl \<union> (\<lambda>b. b - 4) ` out = blocks m" using d by blast
  show ?thesis
  proof (cases "block_free_count m = 0")
    case True
    show ?thesis
    proof (cases "time = 0")
      case z: True
      then have "r = Null" "s1 = (m, mem, set_error t (- RT_ETIMEOUT) ths)" using r True by (simp_all add: s rt_mp_alloc_def)
      then show ?thesis using d by (simp add: pool_inv_def)
    next
      case False
      then have "r = Waits" "s1 = (m\<lparr>suspend_thread := t # suspend_thread m, suspend_thread_count := suspend_thread_count m + 1\<rparr>,
          mem, start_timer t time (rt_thread_suspend t (set_error t 0 ths)))"
        using r True by (simp_all add: s rt_mp_alloc_def)
      then show ?thesis using d t s by (auto simp: pool_inv_def geometry_def blocks_def blk_addr_def algebra_simps)
    qed
  next
    case False
    then obtain b bs where b: "fl = b # bs" using fl(3) by (cases fl) (auto simp: unat_eq_0)
    then have bl: "block_list m = b" "linked mem (mem b) bs" using fl(1) by simp_all
    let ?m = "m\<lparr>block_free_count := block_free_count m - 1, block_list := mem b\<rparr>"
    have r1: "r = Block_At (b + 4)" "s1 = (?m, mem(b := mp), ths)"
      using r False bl(1) by (simp_all add: s rt_mp_alloc_def)
    have f: "unat (block_free_count m - 1) = length bs" using fl(3) b False by (simp add: unat_minus_one)
    have "geometry ?m" "blocks ?m = blocks m" using d by (simp_all add: geometry_def blocks_def blk_addr_def)
    moreover have "linked (mem(b := mp)) (mem b) bs" using bl(2) fl(2) b by simp
    moreover have "set bs \<inter> (\<lambda>b. b - 4) ` insert (b + 4) out = {}" using fl(2,4) b by auto
    moreover have "set bs \<union> (\<lambda>b. b - 4) ` insert (b + 4) out = blocks m" using fl(5) b by auto
    moreover have "distinct bs" using fl(2) b by simp
    ultimately have "pool_inv mp n (insert (b + 4) out) (?m, mem(b := mp), ths)"
      using d f fl(4) b unfolding pool_inv_def prod.case by (intro conjI exI[of _ bs]) auto
    then show ?thesis by (simp add: r1)
  qed
qed

lemma wake_pool_inv:
  assumes "pool_inv mp n out s" and "\<not> suspended (snd (snd s) t)" and "mp_wake mp t time elapsed s = (r, s1)"
  shows "pool_inv mp n (case r of Block_At b \<Rightarrow> insert b out | _ \<Rightarrow> out) s1"
proof (cases "terror (snd (snd s) t) = 0")
  case True
  then show ?thesis using alloc_inv[OF assms(1,2)] assms(3) by (simp add: mp_wake_def)
next
  case False
  then have "r = Null" "s1 = s" using assms(3) by (simp_all add: mp_wake_def)
  then show ?thesis using assms(1) by simp
qed

text \<open>The release of a block, written out.\<close>

lemma free_cases:
  assumes i: "pool_inv mp n out (m, mem, ths)" and b: "b \<in> out"
  defines "m1 \<equiv> m\<lparr>block_free_count := block_free_count m + 1, block_list := b - 4\<rparr>"
  defines "mem1 \<equiv> mem(b - 4 := block_list m)"
  shows "rt_mp_free mp b (m, mem, ths) =
    (if suspend_thread_count m = 0 then Some (m1, mem1, ths)
     else case suspend_thread m of [] \<Rightarrow> None
       | t # ts \<Rightarrow> Some (m1\<lparr>suspend_thread := ts, suspend_thread_count := suspend_thread_count m - 1\<rparr>, mem1,
           rt_thread_resume t (set_error t 0 ths)))"
proof -
  have "mem (b - 4) = mp" using i b by (simp add: pool_inv_def)
  moreover have "suspended (ths t)" if "suspend_thread m = t # ts" for t ts using i that by (simp add: pool_inv_def)
  ultimately show ?thesis
    by (auto simp: rt_mp_free_def Let_def m1_def mem1_def rt_ipc_list_resume_def word_neq_0_conv split: list.split)
qed

lemma free_pool_inv:
  assumes i: "pool_inv mp n out s" and b: "b \<in> out" and r: "rt_mp_free mp b s = Some s1"
  shows "pool_inv mp n (out - {b}) s1"
proof -
  obtain m mem ths where s: "s = (m, mem, ths)" by (metis prod_cases3)
  note d = i[unfolded pool_inv_def s prod.case]
  obtain fl where fl: "linked mem (block_list m) fl" "distinct fl" "unat (block_free_count m) = length fl"
    "set fl \<inter> (\<lambda>b. b - 4) ` out = {}" "set fl \<union> (\<lambda>b. b - 4) ` out = blocks m" using d by blast
  let ?fl = "(b - 4) # fl"
  have nb: "b - 4 \<notin> set fl" using fl(4) b by auto
  have im: "(\<lambda>b. b - 4) ` (out - {b}) = (\<lambda>b. b - 4) ` out - {b - 4}" by auto
  have sub: "set ?fl \<subseteq> blocks m" using fl(5) b by auto
  have "card (set ?fl) \<le> card (blocks m)" using sub by (intro card_mono) (simp_all add: blocks_def)
  also have "\<dots> \<le> unat (block_total_count m)" using card_image_le[of "{..<unat (block_total_count m)}" "blk_addr m"]
    by (simp add: blocks_def)
  also have "\<dots> < 2 ^ 32" using unsigned_less[of "block_total_count m", where ?'a = nat] by simp
  finally have "length ?fl < 2 ^ 32" using fl(2) nb distinct_card[of ?fl] by simp
  then have f: "unat (block_free_count m + 1) = length ?fl"
    using fl(3) iffD1[OF unat_add_lem, of "block_free_count m" 1] by simp
  have inv: "pool_inv mp n (out - {b}) (m\<lparr>block_free_count := block_free_count m + 1, block_list := b - 4,
      suspend_thread := ws, suspend_thread_count := c\<rparr>, mem(b - 4 := block_list m), ths1)"
    if "distinct ws" "\<forall>t. suspended (ths1 t) \<longleftrightarrow> t \<in> set ws" "c = of_nat (length ws + n)" for ws c ths1
  proof -
    let ?m = "m\<lparr>block_free_count := block_free_count m + 1, block_list := b - 4, suspend_thread := ws, suspend_thread_count := c\<rparr>"
    have "geometry ?m" "blocks ?m = blocks m" using d by (simp_all add: geometry_def blocks_def blk_addr_def)
    moreover have "linked (mem(b - 4 := block_list m)) (b - 4) ?fl" using fl(1) nb by simp
    moreover have "set ?fl \<inter> (\<lambda>b. b - 4) ` (out - {b}) = {}" using fl(4) im by auto
    moreover have "set ?fl \<union> (\<lambda>b. b - 4) ` (out - {b}) = blocks m" using fl(5) im b by auto
    moreover have "\<forall>c \<in> out - {b}. (mem(b - 4 := block_list m)) (c - 4) = mp" using d by auto
    ultimately show ?thesis using that f nb fl(2) unfolding pool_inv_def prod.case
      by (intro conjI exI[of _ ?fl]) simp_all
  qed
  show ?thesis
  proof (cases "suspend_thread_count m = 0")
    case True
    then have "s1 = (m\<lparr>block_free_count := block_free_count m + 1, block_list := b - 4\<rparr>, mem(b - 4 := block_list m), ths)"
      using r free_cases[OF i[unfolded s] b] by (simp add: s)
    moreover have "pool_inv mp n (out - {b}) (m\<lparr>block_free_count := block_free_count m + 1, block_list := b - 4,
        suspend_thread := suspend_thread m, suspend_thread_count := suspend_thread_count m\<rparr>, mem(b - 4 := block_list m), ths)"
      by (rule inv) (use d in blast)+
    ultimately show ?thesis by simp
  next
    case False
    then obtain t ts where t: "suspend_thread m = t # ts"
      and s1: "s1 = (m\<lparr>block_free_count := block_free_count m + 1, block_list := b - 4,
        suspend_thread := ts, suspend_thread_count := suspend_thread_count m - 1\<rparr>, mem(b - 4 := block_list m),
        rt_thread_resume t (set_error t 0 ths))"
      using r free_cases[OF i[unfolded s] b] by (auto simp: s split: list.splits)
    show ?thesis unfolding s1 using d t by (intro inv) auto
  qed
qed

lemma timeout_pool_inv:
  assumes "pool_inv mp n out s" and "t \<in> set (suspend_thread (fst s))"
  shows "pool_inv mp (Suc n) out (mp_timeout t s)"
proof -
  obtain m mem ths where s: "s = (m, mem, ths)" by (metis prod_cases3)
  have "length (remove1 t (suspend_thread m)) + Suc n = length (suspend_thread m) + n"
    using assms(2) by (simp add: s length_remove1) (metis Suc_pred length_pos_if_in_set)
  then have "suspend_thread_count m = of_nat (length (remove1 t (suspend_thread m)) + Suc n)"
    using assms(1) by (simp only: s pool_inv_def prod.case)
  then show ?thesis using assms(1)
    by (auto simp: s mp_timeout_def pool_inv_def geometry_def blocks_def blk_addr_def)
qed

lemma store_pool_inv:
  assumes i: "pool_inv mp n out (m, mem, ths)" and b: "b \<in> out" and j: "4 * j < unat (block_size m)"
  shows "pool_inv mp n out (m, mem(b + of_nat (4 * j) := v), ths)"
proof -
  note d = i[unfolded pool_inv_def prod.case]
  have g: "geometry m" using d by blast
  let ?a = "b + of_nat (4 * j)"
  obtain k where k: "k < unat (block_total_count m)" "b - 4 = blk_addr m k"
    using out_block[OF i b] by (auto simp: blocks_def)
  have a: "?a \<notin> blocks m"
  proof
    assume "?a \<in> blocks m"
    then obtain l where l: "l < unat (block_total_count m)" "?a = blk_addr m l" by (auto simp: blocks_def)
    let ?n = "unat (block_size m) + 4"
    have "(Suc k) * ?n \<le> unat (block_total_count m) * ?n" using k(1) by (intro mult_le_mono1) simp
    then have "unat (blk_addr m k) + ?n < 2 ^ 32"
      using blk_unat[OF g, of k] k(1) g unfolding geometry_def by simp
    moreover have "blk_addr m l = blk_addr m k + of_nat (4 + 4 * j)" using k(2) l(2) by (simp add: algebra_simps)
    ultimately have "unat (blk_addr m l) = unat (blk_addr m k) + (4 + 4 * j)" using j
      by (simp add: unat_word_ariths unat_of_nat del: of_nat_add of_nat_mult)
    then have "l * ?n = k * ?n + (4 + 4 * j)" using blk_unat[OF g] k(1) l(1) by simp
    then have "(l * ?n) mod ?n = (4 + 4 * j) mod ?n" by (simp only: mod_mult_self3)
    moreover have "4 + 4 * j < ?n" using j by simp
    ultimately show False by simp
  qed
  have "\<forall>c \<in> out. (mem(?a := v)) (c - 4) = mp"
  proof
    fix c assume c: "c \<in> out"
    then have "c - 4 \<noteq> ?a" using out_block[OF i c] a by metis
    moreover have "mem (c - 4) = mp" using d c by blast
    ultimately show "(mem(?a := v)) (c - 4) = mp" by (metis fun_upd_other)
  qed
  moreover obtain fl where fl: "linked mem (block_list m) fl" "distinct fl" "unat (block_free_count m) = length fl"
    "set fl \<inter> (\<lambda>b. b - 4) ` out = {}" "set fl \<union> (\<lambda>b. b - 4) ` out = blocks m" using d by blast
  moreover have "?a \<notin> set fl" using fl(5) a by blast
  then have "linked (mem(?a := v)) (block_list m) fl" using fl(1) linked_other by metis
  ultimately show ?thesis using d unfolding pool_inv_def prod.case by (intro conjI exI[of _ fl]) simp_all
qed

lemma pool_reach_inv: "pool_reach mp n out s \<Longrightarrow> pool_inv mp n out s"
proof (induction rule: pool_reach.induct)
  case (init start bytes bsize mem m mem1 ths)
  then show ?case by (intro pool_init_inv) auto
next
  case (alloc n out s t time r s1)
  then show ?case by (intro alloc_inv)
next
  case (wake n out s t time elapsed r s1)
  then show ?case by (intro wake_pool_inv)
next
  case (free n out s b s1)
  then show ?case by (intro free_pool_inv)
next
  case (timeout n out s t)
  then show ?case by (intro timeout_pool_inv)
next
  case (store n out m mem ths b j v)
  then show ?case by (intro store_pool_inv)
qed

text \<open>A pool in use can be removed: the call returns, and everybody who waited for a block is woken.\<close>

lemma mp_detach_returns:
  assumes "pool_reach mp n out (m, mem, ths)"
  shows "rt_mp_detach (m, mem, ths) =
    Some (0, m\<lparr>suspend_thread := [], suspend_thread_count := of_nat n\<rparr>, mem, wake_all (suspend_thread m) ths)"
  using pool_reach_inv[OF assms] by (auto simp: pool_inv_def rt_mp_detach_def resume_all_eq)

section \<open>Properties\<close>

lemma blocks_apart:
  assumes g: "geometry m" and a: "a \<in> blocks m" and c: "c \<in> blocks m" and ne: "a \<noteq> c"
  shows "unat a + unat (block_size m) + 4 \<le> unat c \<or> unat c + unat (block_size m) + 4 \<le> unat a"
proof -
  let ?n = "unat (block_size m) + 4"
  obtain i j where i: "i < unat (block_total_count m)" "a = blk_addr m i" and j: "j < unat (block_total_count m)" "c = blk_addr m j"
    using a c by (auto simp: blocks_def)
  have u: "unat a = unat (start_address m) + i * ?n" "unat c = unat (start_address m) + j * ?n"
    using blk_unat[OF g] i j by simp_all
  have "i \<noteq> j" using ne i j by auto
  then have "Suc i \<le> j \<or> Suc j \<le> i" by arith
  then have "Suc i * ?n \<le> j * ?n \<or> Suc j * ?n \<le> i * ?n" using mult_le_mono1 by blast
  then show ?thesis using u by auto
qed

lemma block_inside:
  assumes g: "geometry m" and a: "a \<in> blocks m"
  shows "unat (start_address m) \<le> unat a"
    "unat a + unat (block_size m) + 4 \<le> unat (start_address m) + unat (block_total_count m) * (unat (block_size m) + 4)"
proof -
  let ?n = "unat (block_size m) + 4"
  obtain i where i: "i < unat (block_total_count m)" "a = blk_addr m i" using a by (auto simp: blocks_def)
  have u: "unat a = unat (start_address m) + i * ?n" using blk_unat[OF g] i by simp
  then show "unat (start_address m) \<le> unat a" by simp
  have "Suc i * ?n \<le> unat (block_total_count m) * ?n" using i(1) by (intro mult_le_mono1) simp
  then show "unat a + unat (block_size m) + 4 \<le> unat (start_address m) + unat (block_total_count m) * ?n" using u by simp
qed

lemma data_address:
  assumes g: "geometry m" and a: "b - 4 \<in> blocks m"
  shows "unat b = unat (b - 4) + 4"
proof -
  have "unat (b - 4) + 4 < 2 ^ 32" using block_inside(2)[OF g a] g unfolding geometry_def by linarith
  then show ?thesis using iffD1[OF unat_add_lem, of "b - 4" 4] by simp
qed

text \<open>C24: The blocks of a pool that are handed out and those that are free are together all its blocks; the blocks that are handed
  out lie inside of the memory of the pool and do not overlap, whatever their owners write into them; a request gets a block that
  is not handed out if there is one, and else returns at once or waits, as its time says.\<close>

theorem pool_blocks:
  assumes "pool_reach mp n out (m, mem, ths)"
  shows "finite out \<and> card out + unat (block_free_count m) = unat (block_total_count m) \<and>
    (\<forall>b \<in> out. unat (start_address m) \<le> unat b \<and>
       unat b + unat (block_size m) \<le> unat (start_address m) + unat (block_total_count m) * (unat (block_size m) + 4)) \<and>
    (\<forall>b \<in> out. \<forall>c \<in> out. b \<noteq> c \<longrightarrow> unat b + unat (block_size m) \<le> unat c \<or> unat c + unat (block_size m) \<le> unat b) \<and>
    (\<forall>t time. case fst (rt_mp_alloc mp t time (m, mem, ths)) of
       Block_At b \<Rightarrow> b \<notin> out \<and> b - 4 \<in> blocks m \<and> block_free_count m \<noteq> 0
     | Null \<Rightarrow> block_free_count m = 0 \<and> time = 0
     | Waits \<Rightarrow> block_free_count m = 0 \<and> time \<noteq> 0)"
proof -
  note i = pool_reach_inv[OF assms]
  note d = i[unfolded pool_inv_def prod.case]
  have g: "geometry m" using d by blast
  obtain fl where fl: "linked mem (block_list m) fl" "distinct fl" "unat (block_free_count m) = length fl"
    "set fl \<inter> (\<lambda>b. b - 4) ` out = {}" "set fl \<union> (\<lambda>b. b - 4) ` out = blocks m" using d by blast
  have inj: "inj_on (\<lambda>b. b - 4) out" by (auto intro: inj_onI)
  have "finite ((\<lambda>b. b - 4) ` out)" using fl(5) finite_subset[of "(\<lambda>b. b - 4) ` out" "blocks m"] by (auto simp: blocks_def)
  then have fin: "finite out" using inj by (simp add: finite_image_iff)
  have "inj_on (blk_addr m) {..<unat (block_total_count m)}" using blk_inj[OF g] by (rule inj_on_subset) auto
  then have "card (blocks m) = unat (block_total_count m)" by (simp add: blocks_def card_image)
  then have "card (set fl) + card ((\<lambda>b. b - 4) ` out) = unat (block_total_count m)"
    using card_Un_disjoint[of "set fl" "(\<lambda>b. b - 4) ` out"] fl(4,5) fin by simp
  then have c: "card out + unat (block_free_count m) = unat (block_total_count m)"
    using fl(2,3) inj by (simp add: card_image distinct_card)
  have "unat (start_address m) \<le> unat b \<and>
      unat b + unat (block_size m) \<le> unat (start_address m) + unat (block_total_count m) * (unat (block_size m) + 4)"
    if "b \<in> out" for b
    using block_inside[OF g out_block[OF i that]] data_address[OF g out_block[OF i that]] by simp
  moreover have "unat b + unat (block_size m) \<le> unat c \<or> unat c + unat (block_size m) \<le> unat b"
    if "b \<in> out" "c \<in> out" "b \<noteq> c" for b c
    using blocks_apart[OF g out_block[OF i that(1)] out_block[OF i that(2)]] that(3)
      data_address[OF g out_block[OF i that(1)]] data_address[OF g out_block[OF i that(2)]] by auto
  moreover have "b \<notin> out \<and> b - 4 \<in> blocks m" if "b = block_list m + 4" "block_free_count m \<noteq> 0" for b
  proof -
    have "b - 4 \<in> set fl" using fl(1,3) that by (cases fl) (auto simp: unat_eq_0)
    then show ?thesis using fl(4,5) by auto
  qed
  ultimately show ?thesis using fin c by (auto simp: rt_mp_alloc_def split: mp_result.split)
qed

text \<open>A pool of two blocks of eight bytes, both handed out; thread 3 waits for a block.\<close>

definition no_threads :: threads where
  "no_threads = (\<lambda>_. \<lparr>terror = 0, current_priority = 0, suspended = False, thread_timer = None\<rparr>)"

definition sample_pool :: pool where
  "sample_pool =
     (let (m, mem) = rt_mp_init 0x1000 24 8 (\<lambda>_. 0);
          s1 = snd (rt_mp_alloc 0x500 1 0 (m, mem, no_threads));
          s2 = snd (rt_mp_alloc 0x500 1 0 s1)
      in snd (rt_mp_alloc 0x500 3 7 s2))"

lemma sample_pool_reach:
  "pool_reach 0x500 0 {0x1004, 0x1010} sample_pool" "suspend_thread (fst sample_pool) = [3]"
  "block_size (fst sample_pool) = 8" "start_address (fst sample_pool) = 0x1000" "block_total_count (fst sample_pool) = 2"
proof -
  obtain m mem where m: "rt_mp_init 0x1000 24 8 (\<lambda>_. 0) = (m, mem)" by fastforce
  have e: "m = mp_fresh 0x1000 24 8 2" "mem = mp_link m (\<lambda>_. 0)"
    using m by (auto simp: rt_mp_init_def Let_def RT_ALIGN_def)
  have l: "mem 0x1000 = 0x100C" "mem 0x100C = 0"
  proof -
    have g: "geometry m" "unat (block_total_count m) = 2" by (simp_all add: e geometry_def mp_fresh_def)
    have b: "blk_addr m 0 = 0x1000" "blk_addr m 1 = 0x100C" by (simp_all add: e blk_addr_def mp_fresh_def)
    show "mem 0x1000 = 0x100C" "mem 0x100C = 0"
      using link_at[OF g(1), of 0 "\<lambda>_. 0"] link_at[OF g(1), of 1 "\<lambda>_. 0"] b g(2) by (simp_all add: e(2))
  qed
  let ?s0 = "(m, mem, no_threads)"
  have r0: "pool_reach 0x500 0 {} ?s0" using m by (rule pool_reach.init[rotated 2]) (simp_all add: e mp_fresh_def no_threads_def)
  obtain s1 where a1: "rt_mp_alloc 0x500 1 0 ?s0 = (Block_At 0x1004, s1)"
    "s1 = (m\<lparr>block_free_count := 1, block_list := 0x100C\<rparr>, mem(0x1000 := 0x500), no_threads)"
    using l by (simp add: rt_mp_alloc_def e mp_fresh_def)
  have r1: "pool_reach 0x500 0 {0x1004} s1" using pool_reach.alloc[OF r0 _ a1(1)] by (simp add: no_threads_def)
  obtain s2 where a2: "rt_mp_alloc 0x500 1 0 s1 = (Block_At 0x1010, s2)"
    "s2 = (m\<lparr>block_free_count := 0, block_list := 0\<rparr>, mem(0x1000 := 0x500, 0x100C := 0x500), no_threads)"
    using l by (simp add: rt_mp_alloc_def e mp_fresh_def a1(2))
  have r2: "pool_reach 0x500 0 {0x1010, 0x1004} s2" using pool_reach.alloc[OF r1 _ a2(1)] by (simp add: a1(2) no_threads_def)
  obtain s3 where a3: "rt_mp_alloc 0x500 3 7 s2 = (Waits, s3)"
    "fst s3 = m\<lparr>block_free_count := 0, block_list := 0, suspend_thread := [3], suspend_thread_count := 1\<rparr>"
    by (simp add: rt_mp_alloc_def e mp_fresh_def a2(2))
  have s: "sample_pool = s3" by (simp only: sample_pool_def m Let_def prod.case a1(1) a2(1) a3(1) snd_conv)
  show "pool_reach 0x500 0 {0x1004, 0x1010} sample_pool"
    using pool_reach.alloc[OF r2 _ a3(1)] by (simp add: s a2(2) no_threads_def insert_commute)
  show "suspend_thread (fst sample_pool) = [3]" "block_size (fst sample_pool) = 8" "start_address (fst sample_pool) = 0x1000"
    "block_total_count (fst sample_pool) = 2"
    by (simp_all add: s a3(2)) (simp_all add: e mp_fresh_def)
qed

theorem pool_blocks_witness:
  "unat (block_free_count (fst sample_pool)) = 0 \<and> (\<forall>t. fst (rt_mp_alloc 0x500 t 5 sample_pool) = Waits)"
proof -
  obtain m mem ths where s: "sample_pool = (m, mem, ths)" by (metis prod_cases3)
  note r = sample_pool_reach(1)[unfolded s]
  have f: "block_free_count m = 0" using pool_blocks[OF r] sample_pool_reach(5) by (simp add: s unat_eq_0)
  then show ?thesis by (simp add: s rt_mp_alloc_def)
qed

text \<open>C25: A release with threads that wait wakes the one that came last, and if that runs next it gets the very block.  But a wait that
  expires is never taken off the count of waiting threads: after one, a release while nobody waits takes the empty list for a
  thread; the release fails in this case only.\<close>

theorem pool_release:
  assumes "pool_reach mp n out (m, mem, ths)" and "b \<in> out" and "length (suspend_thread m) + n < 2 ^ 32"
  shows "(rt_mp_free mp b (m, mem, ths) = None \<longleftrightarrow> suspend_thread m = [] \<and> 0 < n) \<and>
    (case suspend_thread m of [] \<Rightarrow> True
     | t # ts \<Rightarrow> \<exists>s1. rt_mp_free mp b (m, mem, ths) = Some s1 \<and> \<not> suspended (snd (snd s1) t) \<and>
         suspend_thread (fst s1) = ts \<and> (\<forall>time elapsed. fst (mp_wake mp t time elapsed s1) = Block_At b))"
proof -
  note i = pool_reach_inv[OF assms(1)]
  have sc: "suspend_thread_count m = of_nat (length (suspend_thread m) + n)" using i by (simp add: pool_inv_def)
  then have "unat (suspend_thread_count m) = length (suspend_thread m) + n" using assms(3) by (simp add: unat_of_nat del: of_nat_add)
  then have z: "suspend_thread_count m = 0 \<longleftrightarrow> suspend_thread m = [] \<and> n = 0" by (metis add_is_0 length_0_conv unat_eq_0)
  note f = free_cases[OF i assms(2)]
  show ?thesis
  proof (cases "suspend_thread m")
    case Nil
    then show ?thesis using z by (simp add: f)
  next
    case (Cons t ts)
    let ?s = "(m\<lparr>block_free_count := block_free_count m + 1, block_list := b - 4, suspend_thread := ts,
      suspend_thread_count := suspend_thread_count m - 1\<rparr>, mem(b - 4 := block_list m), rt_thread_resume t (set_error t 0 ths))"
    have r: "rt_mp_free mp b (m, mem, ths) = Some ?s" using Cons z by (simp add: f)
    have "block_free_count m + 1 \<noteq> 0"
    proof -
      obtain fl where "linked (mem(b - 4 := block_list m)) (b - 4) fl" "unat (block_free_count m + 1) = length fl"
        using free_pool_inv[OF i assms(2) r] by (auto simp: pool_inv_def)
      moreover have "geometry m" using i by (simp add: pool_inv_def)
      then have "b - 4 \<noteq> 0" using blk_nonzero out_block[OF i assms(2)] by blast
      ultimately show ?thesis by (cases fl) auto
    qed
    then show ?thesis using r Cons by (simp add: mp_wake_def rt_mp_alloc_def)
  qed
qed

theorem pool_release_witness:
  "(\<exists>s1. rt_mp_free 0x500 0x1004 sample_pool = Some s1 \<and> fst (mp_wake 0x500 3 7 2 s1) = Block_At 0x1004) \<and>
   rt_mp_free 0x500 0x1004 (mp_timeout 3 sample_pool) = None"
proof -
  obtain m mem ths where s: "sample_pool = (m, mem, ths)" by (metis prod_cases3)
  note r = sample_pool_reach(1)[unfolded s]
  have w: "suspend_thread m = [3]" using sample_pool_reach(2) by (simp add: s)
  obtain m1 mem1 ths1 where t: "mp_timeout 3 (m, mem, ths) = (m1, mem1, ths1)" by (metis prod_cases3)
  have "suspend_thread m1 = []" using t w by (auto simp: mp_timeout_def)
  moreover have "pool_reach 0x500 1 {0x1004, 0x1010} (m1, mem1, ths1)"
    using pool_reach.timeout[OF r, of 3] w t by simp
  ultimately show ?thesis
    using pool_release[OF r, of "0x1004"] pool_release[of "0x500" 1 "{0x1004, 0x1010}" m1 mem1 ths1 "0x1004"] w
    by (auto simp: s t)
qed

text \<open>The size of a created pool wraps around: the pool has more blocks than its memory holds.\<close>

lemma pool_create_wraps:
  "\<exists>m mem1. rt_mp_create True (\<lambda>n. if n = 8 then 0x1000 else 0) 0x15555556 8 mem = Some (m, mem1) \<and>
     block_total_count m = 0x15555556 \<and> pool_size m = 8"
  by (simp add: rt_mp_create_def RT_ALIGN_def Let_def mp_fresh_def)

end
