(* ===== verification/Kern_Dataq.thy ===== *)
theory Kern_Dataq
  imports Kern
begin

unbundle bit_operations_syntax

text \<open>
  The objects device drivers use to hand data to threads (\<open>components/drivers/src/dataqueue.c\<close>, \<open>completion.c\<close>): a ring of
  pointers with a low water mark, and an event that is waited for once.  A call that can wait is cut into what it does
  up to the scheduling point and what it does when the thread runs again (\<open>*_wake\<close>).  The queue's notification function is
  modelled by the log of its calls.
\<close>

section \<open>The data queue\<close>

type_synonym data_item = "u32 \<times> u32"

record dataqueue =
  dq_size :: u16
  dq_lwm :: u16
  waiting_lwm :: bool
  get_index :: u16
  put_index :: u16
  dq_items :: "data_item list"
  push_list :: "nat list"
  pop_list :: "nat list"
  evt_notify :: bool
  dq_events :: "nat list"

type_synonym dstate = "dataqueue \<times> threads"

definition RT_DATAQUEUE_EVENT_POP :: nat where "RT_DATAQUEUE_EVENT_POP = 1"
definition RT_DATAQUEUE_EVENT_PUSH :: nat where "RT_DATAQUEUE_EVENT_PUSH = 2"
definition RT_DATAQUEUE_EVENT_LWM :: nat where "RT_DATAQUEUE_EVENT_LWM = 3"

text \<open>The allocated memory, whatever is in it, is an argument.\<close>

definition rt_data_queue_init :: "u16 \<Rightarrow> u16 \<Rightarrow> bool \<Rightarrow> data_item list option \<Rightarrow> int \<times> dataqueue" where
  "rt_data_queue_init n lwm evt memory =
     (let q = \<lparr>dq_size = n, dq_lwm = lwm, waiting_lwm = False, get_index = 0, put_index = 0, dq_items = [],
               push_list = [], pop_list = [], evt_notify = evt, dq_events = []\<rparr>
      in case memory of None \<Rightarrow> (-5, q) | Some xs \<Rightarrow> (0, q\<lparr>dq_items := xs\<rparr>))"

text \<open>The 16-bit indices are subtracted as \<open>int\<close>s.\<close>

definition dq_used :: "dataqueue \<Rightarrow> int" where
  "dq_used q = uint (put_index q) - uint (get_index q)"

definition dq_slot :: "dataqueue \<Rightarrow> u16 \<Rightarrow> nat" where
  "dq_slot q i = unat (i AND (dq_size q - 1))"

definition dq_notify :: "nat \<Rightarrow> dataqueue \<Rightarrow> dataqueue" where
  "dq_notify e q = (if evt_notify q then q\<lparr>dq_events := dq_events q @ [e]\<rparr> else q)"

definition dq_store :: "data_item \<Rightarrow> dstate \<Rightarrow> dstate" where
  "dq_store x s =
     (let (q, ths) = s; q1 = q\<lparr>dq_items := (dq_items q)[dq_slot q (put_index q) := x], put_index := put_index q + 1\<rparr>
      in if pop_list q \<noteq> [] then let (ws, ths1) = rt_ipc_list_resume (pop_list q, ths) in (q1\<lparr>pop_list := ws\<rparr>, ths1)
         else (dq_notify RT_DATAQUEUE_EVENT_PUSH q1, ths))"

definition rt_data_queue_push :: "nat \<Rightarrow> data_item \<Rightarrow> int \<Rightarrow> dstate \<Rightarrow> outcome \<times> dstate" where
  "rt_data_queue_push t x timeout s =
     (let (q, ths) = s; q1 = q\<lparr>waiting_lwm := True\<rparr>
      in if dq_used q = uint (dq_size q)
         then if timeout = 0 then (Return (- RT_ETIMEOUT), (q1, ths))
              else (Block, (q1\<lparr>push_list := push_list q @ [t]\<rparr>,
                            start_timer t timeout (rt_thread_suspend t (set_error t 0 ths))))
         else (Return 0, dq_store x s))"

definition push_wake :: "nat \<Rightarrow> data_item \<Rightarrow> int \<Rightarrow> dstate \<Rightarrow> outcome \<times> dstate" where
  "push_wake t x timeout s =
     (if terror (snd s t) \<noteq> 0 then (Return (terror (snd s t)), s) else rt_data_queue_push t x timeout s)"

definition dq_take :: "dstate \<Rightarrow> dstate" where
  "dq_take s =
     (let (q, ths) = s; q1 = q\<lparr>get_index := get_index q + 1\<rparr>
      in if waiting_lwm q \<and> dq_used q1 \<le> uint (dq_lwm q)
         then let (ws, ths1) = rt_ipc_list_resume (push_list q, ths)
              in (dq_notify RT_DATAQUEUE_EVENT_LWM (q1\<lparr>waiting_lwm := False, push_list := ws\<rparr>), ths1)
         else (dq_notify RT_DATAQUEUE_EVENT_POP q1, ths))"

text \<open>The data is the first component.\<close>

definition rt_data_queue_pop :: "nat \<Rightarrow> int \<Rightarrow> dstate \<Rightarrow> data_item option \<times> outcome \<times> dstate" where
  "rt_data_queue_pop t timeout s =
     (let (q, ths) = s
      in if get_index q = put_index q
         then if timeout = 0 then (None, Return (- RT_ETIMEOUT), s)
              else (None, Block, (q\<lparr>pop_list := pop_list q @ [t]\<rparr>,
                                  start_timer t timeout (rt_thread_suspend t (set_error t 0 ths))))
         else (Some (dq_items q ! dq_slot q (get_index q)), Return 0, dq_take s))"

definition pop_wake :: "nat \<Rightarrow> int \<Rightarrow> dstate \<Rightarrow> data_item option \<times> outcome \<times> dstate" where
  "pop_wake t timeout s =
     (if terror (snd s t) \<noteq> 0 then (None, Return (terror (snd s t)), s) else rt_data_queue_pop t timeout s)"

definition rt_data_queue_peak :: "dstate \<Rightarrow> data_item option \<times> int" where
  "rt_data_queue_peak s =
     (if get_index (fst s) = put_index (fst s) then (None, -4)
      else (Some (dq_items (fst s) ! dq_slot (fst s) (get_index (fst s))), 0))"

text \<open>The loops over the waiting threads are written as in \<open>rt_ipc_list_resume_all\<close>, \<open>None\<close> included.\<close>

definition rt_data_queue_reset :: "dstate \<Rightarrow> dstate option" where
  "rt_data_queue_reset s =
     (let (q, ths) = s
      in map_option (\<lambda>ths1. (q\<lparr>pop_list := [], push_list := []\<rparr>, ths1))
           (Option.bind (rt_ipc_list_resume_all (pop_list q) ths) (rt_ipc_list_resume_all (push_list q))))"

text \<open>The time of a waiting thread is over.\<close>

definition dq_timeout :: "nat \<Rightarrow> dstate \<Rightarrow> dstate" where
  "dq_timeout t s =
     (let (q, ths) = s
      in (q\<lparr>push_list := remove1 t (push_list q), pop_list := remove1 t (pop_list q)\<rparr>, rt_thread_timeout t ths))"

section \<open>All states of a data queue\<close>

text \<open>\<open>xs\<close> are the items that were pushed with success, \<open>ys\<close> those that were popped.\<close>

definition dq_kept :: "outcome \<Rightarrow> data_item \<Rightarrow> data_item list \<Rightarrow> data_item list" where
  "dq_kept r x xs = (if r = Return 0 then xs @ [x] else xs)"

inductive dq_reach :: "nat \<Rightarrow> data_item list \<Rightarrow> data_item list \<Rightarrow> dstate \<Rightarrow> bool" for k where
  init: "k < 16 \<Longrightarrow> length memory = 2 ^ k \<Longrightarrow> rt_data_queue_init (2 ^ k) lwm evt (Some memory) = (r, q) \<Longrightarrow>
    \<forall>t. \<not> suspended (ths t) \<Longrightarrow> dq_reach k [] [] (q, ths)"
| push: "dq_reach k xs ys s \<Longrightarrow> \<not> suspended (snd s t) \<Longrightarrow> rt_data_queue_push t x timeout s = (r, s1) \<Longrightarrow>
    dq_reach k (dq_kept r x xs) ys s1"
| push_again: "dq_reach k xs ys s \<Longrightarrow> \<not> suspended (snd s t) \<Longrightarrow> push_wake t x timeout s = (r, s1) \<Longrightarrow>
    dq_reach k (dq_kept r x xs) ys s1"
| pop: "dq_reach k xs ys s \<Longrightarrow> \<not> suspended (snd s t) \<Longrightarrow> rt_data_queue_pop t timeout s = (y, r, s1) \<Longrightarrow>
    dq_reach k xs (case y of None \<Rightarrow> ys | Some y \<Rightarrow> ys @ [y]) s1"
| pop_again: "dq_reach k xs ys s \<Longrightarrow> \<not> suspended (snd s t) \<Longrightarrow> pop_wake t timeout s = (y, r, s1) \<Longrightarrow>
    dq_reach k xs (case y of None \<Rightarrow> ys | Some y \<Rightarrow> ys @ [y]) s1"
| timeout: "dq_reach k xs ys s \<Longrightarrow> t \<in> set (push_list (fst s)) \<union> set (pop_list (fst s)) \<Longrightarrow> dq_reach k xs ys (dq_timeout t s)"
| reset: "dq_reach k xs ys s \<Longrightarrow> rt_data_queue_reset s = Some s1 \<Longrightarrow> dq_reach k xs ys s1"

definition dq_inv :: "nat \<Rightarrow> data_item list \<Rightarrow> data_item list \<Rightarrow> dstate \<Rightarrow> bool" where
  "dq_inv k xs ys s \<longleftrightarrow>
     (case s of (q, ths) \<Rightarrow>
       k < 16 \<and> dq_size q = 2 ^ k \<and> length (dq_items q) = 2 ^ k \<and>
       put_index q = of_nat (length xs) \<and> get_index q = of_nat (length ys) \<and>
       (length xs < 65536 \<longrightarrow> length ys \<le> length xs \<and> length xs \<le> length ys + 2 ^ k \<and> ys = take (length ys) xs \<and>
          (\<forall>i. length ys \<le> i \<longrightarrow> i < length xs \<longrightarrow> dq_items q ! (i mod 2 ^ k) = xs ! i)) \<and>
       distinct (push_list q @ pop_list q) \<and> (\<forall>t. suspended (ths t) \<longleftrightarrow> t \<in> set (push_list q @ pop_list q)))"

lemma dq_unat_u16: "n < 65536 \<Longrightarrow> unat (of_nat n :: u16) = n"
  by (simp add: unsigned_of_nat take_bit_nat_eq_self)

lemma dq_slot_mod:
  assumes "k < 16" and "dq_size q = 2 ^ k"
  shows "dq_slot q (of_nat n) = n mod 2 ^ k"
proof -
  have "dq_slot q (of_nat n) = unat (take_bit k (of_nat n :: u16))"
    using assms by (simp add: dq_slot_def take_bit_eq_mask mask_eq_exp_minus_1)
  also have "\<dots> = take_bit k (take_bit 16 n)" by (simp add: unsigned_take_bit_eq unsigned_of_nat)
  also have "\<dots> = n mod 2 ^ k" using assms(1) by (simp add: min_def take_bit_eq_mod[symmetric])
  finally show ?thesis .
qed

lemma dq_used_len:
  assumes "put_index q = of_nat (length xs)" and "get_index q = of_nat (length ys)"
    and "length xs < 65536" and "length ys \<le> length xs"
  shows "dq_used q = int (length xs) - int (length ys)"
  using assms by (simp add: dq_used_def unsigned_of_nat take_bit_nat_eq_self)

lemma dq_full_len:
  assumes "k < 16" and "dq_size q = 2 ^ k" and "put_index q = of_nat (length xs)" and "get_index q = of_nat (length ys)"
    and "length xs < 65536" and "length ys \<le> length xs"
  shows "dq_used q = uint (dq_size q) \<longleftrightarrow> length xs = length ys + 2 ^ k"
proof -
  have "(2 :: nat) ^ k < 2 ^ 16" using assms(1) by (intro power_strict_increasing) simp_all
  then have "unat (of_nat (2 ^ k) :: u16) = 2 ^ k" by (intro dq_unat_u16) simp
  then have "uint (dq_size q) = 2 ^ k" using assms(2) by (simp add: uint_nat)
  then have "dq_used q = uint (dq_size q) \<longleftrightarrow> int (length xs) = int (length ys + 2 ^ k)"
    using dq_used_len[OF assms(3-6)] by (simp add: diff_eq_eq add.commute)
  then show ?thesis by (simp only: of_nat_eq_iff)
qed

lemma dq_empty_len:
  assumes "put_index q = of_nat (length xs)" and "get_index q = of_nat (length ys)"
    and "length xs < 65536" and "length ys \<le> length xs"
  shows "get_index q = put_index q \<longleftrightarrow> length xs = length ys"
proof -
  have "unat (put_index q) = length xs" "unat (get_index q) = length ys"
    unfolding assms(1,2) by (rule dq_unat_u16, use assms(3,4) in simp)+
  then show ?thesis using assms(1,2) by metis
qed

lemma mod_window: "i < m \<Longrightarrow> m \<le> i + n \<Longrightarrow> i mod n = m mod n \<Longrightarrow> m = i + n" for i m n :: nat
proof -
  assume "i < m" "m \<le> i + n" "i mod n = m mod n"
  then have "n dvd m - i" using mod_eq_dvd_iff_nat[of i m n] by simp
  then have "n \<le> m - i" using \<open>i < m\<close> by (intro dvd_imp_le) simp_all
  then show "m = i + n" using \<open>m \<le> i + n\<close> \<open>i < m\<close> by simp
qed

lemma store_items:
  assumes i: "\<forall>i. m0 \<le> i \<longrightarrow> i < length xs \<longrightarrow> its ! (i mod n) = xs ! i" and "length xs < m0 + n" and "length its = n"
    and "m0 \<le> i" and "i < Suc (length xs)" and "0 < n"
  shows "its[length xs mod n := x] ! (i mod n) = (xs @ [x]) ! i"
proof (cases "i = length xs")
  case False
  then have "i mod n \<noteq> length xs mod n" using mod_window[of i "length xs" n] assms(2,4,5) by auto
  then show ?thesis using i assms(3-6) False by (simp add: nth_append)
qed (use assms(3,6) in simp)

text \<open>The parts of the invariant.\<close>

definition dq_ring :: "nat \<Rightarrow> data_item list \<Rightarrow> data_item list \<Rightarrow> dataqueue \<Rightarrow> bool" where
  "dq_ring k xs ys q \<longleftrightarrow>
     k < 16 \<and> dq_size q = 2 ^ k \<and> length (dq_items q) = 2 ^ k \<and>
     put_index q = of_nat (length xs) \<and> get_index q = of_nat (length ys) \<and>
     (length xs < 65536 \<longrightarrow> length ys \<le> length xs \<and> length xs \<le> length ys + 2 ^ k \<and> ys = take (length ys) xs \<and>
        (\<forall>i. length ys \<le> i \<longrightarrow> i < length xs \<longrightarrow> dq_items q ! (i mod 2 ^ k) = xs ! i))"

definition dq_waiting :: "nat list \<Rightarrow> nat list \<Rightarrow> threads \<Rightarrow> bool" where
  "dq_waiting ps gs ths \<longleftrightarrow> distinct (ps @ gs) \<and> (\<forall>t. suspended (ths t) \<longleftrightarrow> t \<in> set (ps @ gs))"

lemma dq_inv_parts: "dq_inv k xs ys (q, ths) \<longleftrightarrow> dq_ring k xs ys q \<and> dq_waiting (push_list q) (pop_list q) ths"
  by (simp only: dq_inv_def dq_ring_def dq_waiting_def prod.case conj_assoc)

lemma dq_ring_other [simp]:
  "dq_ring k xs ys (q\<lparr>waiting_lwm := b\<rparr>) = dq_ring k xs ys q" "dq_ring k xs ys (q\<lparr>push_list := ps\<rparr>) = dq_ring k xs ys q"
  "dq_ring k xs ys (q\<lparr>pop_list := gs\<rparr>) = dq_ring k xs ys q" "dq_ring k xs ys (q\<lparr>dq_events := es\<rparr>) = dq_ring k xs ys q"
  "dq_ring k xs ys (dq_notify e q) = dq_ring k xs ys q"
  "push_list (dq_notify e q) = push_list q" "pop_list (dq_notify e q) = pop_list q"
  by (simp_all add: dq_ring_def dq_notify_def)

lemma lists_suspend:
  assumes "dq_waiting ps gs ths" and "\<not> suspended (ths t)"
  shows "dq_waiting (ps @ [t]) gs (start_timer t n (rt_thread_suspend t (set_error t e ths)))"
    "dq_waiting ps (gs @ [t]) (start_timer t n (rt_thread_suspend t (set_error t e ths)))"
  using assms by (auto simp: dq_waiting_def)

lemma lists_resume:
  assumes "dq_waiting ps gs ths"
  shows "dq_waiting (fst (rt_ipc_list_resume (ps, ths))) gs (snd (rt_ipc_list_resume (ps, ths)))"
    "dq_waiting ps (fst (rt_ipc_list_resume (gs, ths))) (snd (rt_ipc_list_resume (gs, ths)))"
  using assms by (auto simp: dq_waiting_def rt_ipc_list_resume_def split: list.split)

lemma ring_store:
  assumes "dq_ring k xs ys q" and f: "dq_used q \<noteq> uint (dq_size q)"
  shows "dq_ring k (xs @ [x]) ys (q\<lparr>dq_items := (dq_items q)[dq_slot q (put_index q) := x], put_index := put_index q + 1\<rparr>)"
proof -
  note d = assms(1)[unfolded dq_ring_def]
  have slot: "dq_slot q (of_nat (length xs)) = length xs mod 2 ^ k" using dq_slot_mod[of k q "length xs"] d by simp
  have w: "length ys \<le> length (xs @ [x]) \<and> length (xs @ [x]) \<le> length ys + 2 ^ k \<and> ys = take (length ys) (xs @ [x]) \<and>
      (\<forall>i. length ys \<le> i \<longrightarrow> i < length (xs @ [x]) \<longrightarrow> (dq_items q)[length xs mod 2 ^ k := x] ! (i mod 2 ^ k) = (xs @ [x]) ! i)"
    if "length (xs @ [x]) < 65536"
  proof -
    have l: "length xs < 65536" "length ys \<le> length xs" "length xs \<le> length ys + 2 ^ k" "ys = take (length ys) xs"
      using that d by simp_all
    have "length xs \<noteq> length ys + 2 ^ k" using f dq_full_len[of k q xs ys] d l by simp
    then have lt: "length xs < length ys + 2 ^ k" using l(3) by simp
    have "(dq_items q)[length xs mod 2 ^ k := x] ! (i mod 2 ^ k) = (xs @ [x]) ! i" if "length ys \<le> i" "i < Suc (length xs)" for i
      by (rule store_items[of "length ys"]) (use d l(1) lt that in simp_all)
    then show ?thesis using l lt by simp
  qed
  show ?thesis using d w unfolding dq_ring_def by (simp add: slot)
qed

lemma store_dq_inv:
  assumes i: "dq_inv k xs ys (q, ths)" and f: "dq_used q \<noteq> uint (dq_size q)"
  shows "dq_inv k (xs @ [x]) ys (dq_store x (q, ths))"
  using ring_store[of k xs ys q x] lists_resume(2)[of "push_list q" "pop_list q" ths] i f
  by (cases "pop_list q = []") (simp_all add: dq_inv_parts dq_store_def Let_def case_prod_beta)

lemma push_dq_inv:
  assumes i: "dq_inv k xs ys s" and t: "\<not> suspended (snd s t)" and r: "rt_data_queue_push t x timeout s = (r, s1)"
  shows "dq_inv k (dq_kept r x xs) ys s1"
proof -
  obtain q ths where s: "s = (q, ths)" by fastforce
  note d = i[unfolded s dq_inv_parts]
  show ?thesis
  proof (cases "dq_used q = uint (dq_size q)")
    case True
    then show ?thesis using r d t lists_suspend(1)[of "push_list q" "pop_list q" ths t]
      by (auto simp: s rt_data_queue_push_def Let_def dq_kept_def RT_ETIMEOUT_def dq_inv_parts split: if_splits)
  next
    case False
    then have "r = Return 0" "s1 = dq_store x (q, ths)" using r by (simp_all add: s rt_data_queue_push_def Let_def)
    then show ?thesis using store_dq_inv[OF i[unfolded s] False] by (simp add: dq_kept_def)
  qed
qed

lemma ring_take:
  assumes "dq_ring k xs ys q" and ne: "get_index q \<noteq> put_index q"
  shows "dq_ring k xs (ys @ [dq_items q ! dq_slot q (get_index q)]) (q\<lparr>get_index := get_index q + 1\<rparr>)"
proof -
  note d = assms(1)[unfolded dq_ring_def]
  let ?y = "dq_items q ! dq_slot q (get_index q)"
  have slot: "dq_slot q (get_index q) = length ys mod 2 ^ k" using dq_slot_mod[of k q "length ys"] d by simp
  have "length ys < length xs \<and> ?y = xs ! length ys" if "length xs < 65536"
  proof -
    have "length ys \<noteq> length xs" using ne d by auto
    then show ?thesis using d that slot by simp
  qed
  then show ?thesis using d unfolding dq_ring_def by (auto simp: take_Suc_conv_app_nth)
qed

lemma pop_dq_inv:
  assumes i: "dq_inv k xs ys s" and t: "\<not> suspended (snd s t)" and r: "rt_data_queue_pop t timeout s = (y, r, s1)"
  shows "dq_inv k xs (case y of None \<Rightarrow> ys | Some y \<Rightarrow> ys @ [y]) s1"
proof -
  obtain q ths where s: "s = (q, ths)" by fastforce
  note d = i[unfolded s dq_inv_parts]
  show ?thesis
  proof (cases "get_index q = put_index q")
    case True
    then show ?thesis using r d t lists_suspend(2)[of "push_list q" "pop_list q" ths t]
      by (auto simp: s rt_data_queue_pop_def dq_inv_parts split: if_splits)
  next
    case False
    then have "y = Some (dq_items q ! dq_slot q (get_index q))" "s1 = dq_take (q, ths)"
      using r by (simp_all add: s rt_data_queue_pop_def)
    then show ?thesis using ring_take[of k xs ys q] lists_resume(1)[of "push_list q" "pop_list q" ths] d False
      by (simp add: dq_inv_parts dq_take_def Let_def case_prod_beta)
  qed
qed

lemma dq_reach_inv: "dq_reach k xs ys s \<Longrightarrow> dq_inv k xs ys s"
proof (induction rule: dq_reach.induct)
  case (init memory lwm evt r q ths)
  then show ?case by (auto simp: dq_inv_def rt_data_queue_init_def)
next
  case (push xs ys s t x timeout r s1)
  then show ?case by (intro push_dq_inv)
next
  case (push_again xs ys s t x timeout r s1)
  note p = push_dq_inv[OF push_again.IH push_again.hyps(2), of x timeout r s1]
  show ?case
  proof (cases "terror (snd s t) = 0")
    case True
    then show ?thesis using p push_again.hyps(3) by (simp add: push_wake_def)
  next
    case False
    then have "r = Return (terror (snd s t))" "s1 = s" using push_again.hyps(3) by (auto simp: push_wake_def)
    then show ?thesis using push_again.IH False by (simp add: dq_kept_def)
  qed
next
  case (pop xs ys s t timeout y r s1)
  then show ?case by (intro pop_dq_inv)
next
  case (pop_again xs ys s t timeout y r s1)
  then show ?case using pop_dq_inv[of k xs ys s t timeout] by (auto simp: pop_wake_def split: if_splits)
next
  case (timeout xs ys s t)
  obtain q ths where s: "s = (q, ths)" by fastforce
  show ?case using timeout.IH by (auto simp: s dq_timeout_def dq_inv_parts dq_waiting_def)
next
  case (reset xs ys s s1)
  obtain q ths where s: "s = (q, ths)" by fastforce
  have s1: "s1 = (q\<lparr>pop_list := [], push_list := []\<rparr>, wake_all (pop_list q @ push_list q) ths)"
    using reset.hyps(2) by (auto simp: s rt_data_queue_reset_def resume_all_eq wake_all_wake_all split: if_splits)
  show ?case using reset.IH by (auto simp: s s1 dq_inv_parts dq_waiting_def)
qed

text \<open>The reset of a queue that is in use returns and wakes everybody; the items stay.\<close>

lemma dq_reset_returns:
  assumes "dq_reach k xs ys (q, ths)"
  shows "rt_data_queue_reset (q, ths) =
    Some (q\<lparr>pop_list := [], push_list := []\<rparr>, wake_all (pop_list q @ push_list q) ths)"
  using dq_reach_inv[OF assms]
  by (auto simp: dq_inv_def rt_data_queue_reset_def resume_all_eq wake_all_wake_all)

section \<open>Properties of the data queue\<close>

text \<open>C26: As long as fewer than 65536 items were pushed, a data queue whose size is a power of two is a first-in first-out queue up to
  its full size: what was popped are the first items that were pushed; a push finds it full exactly when its size of items are in
  it, a pop takes the oldest item, and only an empty queue has none.\<close>

theorem dataqueue_fifo:
  assumes "dq_reach k xs ys (q, ths)" and "length xs < 65536"
  shows "ys = take (length ys) xs \<and> length ys \<le> length xs \<and> length xs - length ys \<le> 2 ^ k \<and>
    (\<forall>t x timeout. fst (rt_data_queue_push t x timeout (q, ths)) =
       (if length xs - length ys < 2 ^ k then Return 0 else if timeout = 0 then Return (- RT_ETIMEOUT) else Block)) \<and>
    (\<forall>t timeout. fst (rt_data_queue_pop t timeout (q, ths)) =
       (if length ys < length xs then Some (xs ! length ys) else None))"
proof -
  note d = dq_reach_inv[OF assms(1), unfolded dq_inv_parts dq_ring_def]
  have l: "length ys \<le> length xs" "length xs \<le> length ys + 2 ^ k" "ys = take (length ys) xs" using d assms(2) by simp_all
  have f: "dq_used q = uint (dq_size q) \<longleftrightarrow> length xs = length ys + 2 ^ k" using dq_full_len[of k q xs ys] d assms(2) l(1) by simp
  have e: "get_index q = put_index q \<longleftrightarrow> length xs = length ys" using dq_empty_len[of q xs ys] d assms(2) l(1) by simp
  have y: "dq_items q ! dq_slot q (get_index q) = xs ! length ys" if "length ys < length xs"
    using dq_slot_mod[of k q "length ys"] d assms(2) that by simp
  have "length xs - length ys \<le> 2 ^ k" using l by simp
  moreover have "fst (rt_data_queue_push t x timeout (q, ths)) =
      (if length xs - length ys < 2 ^ k then Return 0 else if timeout = 0 then Return (- RT_ETIMEOUT) else Block)" for t x timeout
    using f l(1,2) by (auto simp: rt_data_queue_push_def Let_def)
  moreover have "fst (rt_data_queue_pop t timeout (q, ths)) = (if length ys < length xs then Some (xs ! length ys) else None)"
    for t timeout
    using e l(1) y by (auto simp: rt_data_queue_pop_def)
  ultimately show ?thesis using l by blast
qed

text \<open>A queue of two items; \<open>run_dq\<close> lets threads push and pop.\<close>

datatype dq_op = Push nat data_item int | Push_Again nat data_item int | Pop nat

fun run_dq :: "dq_op list \<Rightarrow> data_item list \<Rightarrow> data_item list \<Rightarrow> dstate \<Rightarrow> data_item list \<times> data_item list \<times> dstate" where
  "run_dq [] xs ys s = (xs, ys, s)"
| "run_dq (Push t x n # ops) xs ys s =
     (let (r, s1) = rt_data_queue_push t x n s in run_dq ops (dq_kept r x xs) ys s1)"
| "run_dq (Push_Again t x n # ops) xs ys s =
     (let (r, s1) = push_wake t x n s in run_dq ops (dq_kept r x xs) ys s1)"
| "run_dq (Pop t # ops) xs ys s =
     (let (y, r, s1) = rt_data_queue_pop t 0 s in run_dq ops xs (case y of None \<Rightarrow> ys | Some y \<Rightarrow> ys @ [y]) s1)"

text \<open>Only threads that are ready take steps.\<close>

fun run_ready :: "dq_op list \<Rightarrow> dstate \<Rightarrow> bool" where
  "run_ready [] s = True"
| "run_ready (Push t x n # ops) s = (\<not> suspended (snd s t) \<and> run_ready ops (snd (rt_data_queue_push t x n s)))"
| "run_ready (Push_Again t x n # ops) s = (\<not> suspended (snd s t) \<and> run_ready ops (snd (push_wake t x n s)))"
| "run_ready (Pop t # ops) s = (\<not> suspended (snd s t) \<and> run_ready ops (snd (snd (rt_data_queue_pop t 0 s))))"

lemma run_dq_reach:
  "dq_reach k xs ys s \<Longrightarrow> run_ready ops s \<Longrightarrow> run_dq ops xs ys s = (xs1, ys1, s1) \<Longrightarrow> dq_reach k xs1 ys1 s1"
proof (induction ops arbitrary: xs ys s)
  case (Cons op ops)
  show ?case
  proof (cases op)
    case (Push t x n)
    obtain r s2 where r: "rt_data_queue_push t x n s = (r, s2)" by (rule prod.exhaust)
    have "dq_reach k (dq_kept r x xs) ys s2" using dq_reach.push[OF Cons.prems(1) _ r] Cons.prems(2) Push by simp
    from Cons.IH[OF this] show ?thesis using Cons.prems(2,3) Push r by simp
  next
    case (Push_Again t x n)
    obtain r s2 where r: "push_wake t x n s = (r, s2)" by (rule prod.exhaust)
    have "dq_reach k (dq_kept r x xs) ys s2" using dq_reach.push_again[OF Cons.prems(1) _ r] Cons.prems(2) Push_Again by simp
    from Cons.IH[OF this] show ?thesis using Cons.prems(2,3) Push_Again r by simp
  next
    case (Pop t)
    obtain y r s2 where r: "rt_data_queue_pop t 0 s = (y, r, s2)" by (metis prod_cases3)
    have "dq_reach k xs (case y of None \<Rightarrow> ys | Some y \<Rightarrow> ys @ [y]) s2"
      using dq_reach.pop[OF Cons.prems(1) _ r] Cons.prems(2) Pop by simp
    from Cons.IH[OF this] show ?thesis using Cons.prems(2,3) Pop r by simp
  qed
qed simp

definition two_items :: dstate where
  "two_items =
     (snd (rt_data_queue_init 2 0 False (Some [(0, 0), (0, 0)])),
      \<lambda>_. \<lparr>terror = 0, current_priority = 0, suspended = False, thread_timer = None\<rparr>)"

lemma two_items_reach: "dq_reach 1 [] [] two_items"
  unfolding two_items_def
  by (rule dq_reach.init[where r = 0 and memory = "[(0, 0), (0, 0)]" and lwm = 0 and evt = False])
    (simp_all add: rt_data_queue_init_def)

lemmas dq_eval = two_items_def rt_data_queue_init_def rt_data_queue_push_def push_wake_def rt_data_queue_pop_def dq_store_def
  dq_take_def dq_used_def dq_slot_def dq_notify_def dq_kept_def rt_ipc_list_resume_def rt_thread_resume_def rt_thread_suspend_def
  start_timer_def set_error_def

theorem dataqueue_fifo_witness:
  "case run_dq [Push 1 (7, 4) 0, Push 1 (8, 4) 0, Pop 2] [] [] two_items of
     (xs, ys, s) \<Rightarrow> ys = [(7, 4)] \<and> fst (rt_data_queue_push 1 (9, 4) 0 s) = Return 0 \<and>
       fst (rt_data_queue_pop 2 0 s) = Some (8, 4)"
proof -
  let ?ops = "[Push 1 (7, 4) 0, Push 1 (8, 4) 0, Pop 2]"
  obtain xs ys q ths where r: "run_dq ?ops [] [] two_items = (xs, ys, (q, ths))" by (metis prod_cases3 surj_pair)
  then have x: "xs = [(7, 4), (8, 4)]" "ys = [(7, 4)]" by (auto simp: dq_eval Let_def)
  have "run_ready ?ops two_items" by (simp add: dq_eval Let_def)
  from dataqueue_fifo[OF run_dq_reach[OF two_items_reach this r]] x show ?thesis
    unfolding r prod.case by simp
qed

text \<open>
  Two defects.  With two threads waiting to push, a pop at the low water mark wakes one of them and forgets that there are
  more: the second waits beside an empty queue.
\<close>

lemma waiting_push_forgotten:
  "\<exists>xs ys q ths. dq_reach 1 xs ys (q, ths) \<and> get_index q = put_index q \<and> push_list q = [4] \<and> \<not> waiting_lwm q"
proof -
  let ?ops = "[Push 1 (7, 4) 0, Push 1 (8, 4) 0, Push 3 (9, 4) (-1), Push 4 (5, 4) (-1), Pop 2, Pop 2, Push_Again 3 (9, 4) (-1), Pop 2]"
  obtain xs ys q ths where r: "run_dq ?ops [] [] two_items = (xs, ys, (q, ths))" by (metis prod_cases3 surj_pair)
  then have "get_index q = put_index q \<and> push_list q = [4] \<and> \<not> waiting_lwm q" by (auto simp: dq_eval Let_def)
  moreover have "run_ready ?ops two_items" by (simp add: dq_eval Let_def)
  ultimately show ?thesis using run_dq_reach[OF two_items_reach _ r] by blast
qed

text \<open>When the 16-bit index of the next push has wrapped around and that of the next pop has not, a full queue is not noticed.\<close>

lemma used_pairs:
  "\<exists>q. dq_reach 1 (replicate n x) (replicate n x) (q, snd two_items) \<and> put_index q = of_nat n \<and> get_index q = of_nat n \<and>
     \<not> waiting_lwm q \<and> \<not> evt_notify q \<and> pop_list q = [] \<and> push_list q = [] \<and> dq_size q = 2 \<and> length (dq_items q) = 2"
proof (induction n)
  case 0
  show ?case using two_items_reach by (intro exI[of _ "fst two_items"]) (simp add: two_items_def rt_data_queue_init_def)
next
  case (Suc n)
  then obtain q where q: "dq_reach 1 (replicate n x) (replicate n x) (q, snd two_items)" "put_index q = of_nat n"
    "get_index q = of_nat n" "\<not> waiting_lwm q" "\<not> evt_notify q" "pop_list q = []" "push_list q = []" "dq_size q = 2"
    "length (dq_items q) = 2" by blast
  let ?ths = "snd two_items"
  let ?i = "dq_slot q (put_index q)"
  let ?q1 = "q\<lparr>dq_items := (dq_items q)[?i := x], put_index := put_index q + 1\<rparr>"
  let ?q2 = "?q1\<lparr>get_index := get_index q + 1\<rparr>"
  have r: "\<not> suspended (?ths t)" for t by (simp add: two_items_def)
  have "rt_data_queue_push 1 x 0 (q, ?ths) = (Return 0, (?q1, ?ths))"
    using q by (simp add: rt_data_queue_push_def dq_store_def dq_used_def dq_notify_def Let_def)
  then have p: "dq_reach 1 (replicate n x @ [x]) (replicate n x) (?q1, ?ths)"
    using dq_reach.push[OF q(1), of 1 x 0] r by (simp add: dq_kept_def)
  have "?i < 2" using dq_slot_mod[of 1 q n] q(2,8) by simp
  then have "dq_items ?q1 ! dq_slot ?q1 (get_index ?q1) = x" using q by (simp add: dq_slot_def)
  then have "rt_data_queue_pop 1 0 (?q1, ?ths) = (Some x, Return 0, (?q2, ?ths))"
    using q by (simp add: rt_data_queue_pop_def dq_take_def dq_notify_def Let_def)
  then have "dq_reach 1 (replicate n x @ [x]) (replicate n x @ [x]) (?q2, ?ths)"
    using dq_reach.pop[OF p, of 1 0] r by simp
  then show ?case using q by (intro exI[of _ ?q2]) (simp add: replicate_append_same add.commute)
qed

lemma full_queue_overrun:
  "\<exists>s. dq_reach 1 (replicate 65535 (1, 4) @ [(7, 4), (8, 4), (9, 4)]) (replicate 65535 (1, 4) @ [(9, 4)]) s"
proof -
  obtain q where q: "dq_reach 1 (replicate 65535 (1, 4)) (replicate 65535 (1, 4)) (q, snd two_items)" "put_index q = 65535"
    "get_index q = 65535" "\<not> waiting_lwm q" "\<not> evt_notify q" "pop_list q = []" "push_list q = []" "dq_size q = 2"
    "length (dq_items q) = 2"
    using used_pairs[of 65535 "(1, 4)"] by auto
  let ?ops = "[Push 1 (7, 4) 0, Push 1 (8, 4) 0, Push 1 (9, 4) 0, Pop 1]"
  have th: "\<not> suspended (snd two_items t)" for t by (simp add: two_items_def)
  obtain a b where i: "dq_items q = [a, b]" using q(9) by (auto simp: numeral_2_eq_2 length_Suc_conv)
  have "run_ready ?ops (q, snd two_items)" using q(2-8) th by (simp add: dq_eval Let_def)
  moreover obtain s where "run_dq ?ops (replicate 65535 (1, 4)) (replicate 65535 (1, 4)) (q, snd two_items) =
      (replicate 65535 (1, 4) @ [(7, 4), (8, 4), (9, 4)], replicate 65535 (1, 4) @ [(9, 4)], s)"
    using q(2-8) th i by (simp add: dq_eval Let_def)
  ultimately show ?thesis using run_dq_reach[OF q(1)] by blast
qed

section \<open>Completion\<close>

text \<open>At most one thread waits; the code asserts it.\<close>

record completion =
  completed :: bool
  suspended_list :: "nat list"

type_synonym cstate = "completion \<times> threads"

definition rt_completion_init :: completion where
  "rt_completion_init = \<lparr>completed = False, suspended_list = []\<rparr>"

definition rt_completion_wait :: "nat \<Rightarrow> int \<Rightarrow> cstate \<Rightarrow> outcome \<times> cstate" where
  "rt_completion_wait t timeout s =
     (let (c, ths) = s
      in if completed c then (Return 0, (c\<lparr>completed := False\<rparr>, ths))
         else if timeout = 0 then (Return (- RT_ETIMEOUT), s)
         else (Block, (c\<lparr>suspended_list := suspended_list c @ [t]\<rparr>,
                       start_timer t timeout (rt_thread_suspend t (set_error t 0 ths)))))"

definition completion_wake :: "nat \<Rightarrow> cstate \<Rightarrow> int \<times> cstate" where
  "completion_wake t s = (terror (snd s t), ((fst s)\<lparr>completed := False\<rparr>, snd s))"

definition rt_completion_done :: "cstate \<Rightarrow> cstate" where
  "rt_completion_done s =
     (let (c, ths) = s
      in if completed c then s
         else let (ws, ths1) = rt_ipc_list_resume (suspended_list c, ths)
              in (c\<lparr>completed := True, suspended_list := ws\<rparr>, ths1))"

definition completion_timeout :: "nat \<Rightarrow> cstate \<Rightarrow> cstate" where
  "completion_timeout t s = ((fst s)\<lparr>suspended_list := remove1 t (suspended_list (fst s))\<rparr>, rt_thread_timeout t (snd s))"

text \<open>
  Thread \<open>t\<close> waits again and again, others complete: \<open>d\<close> completions were not ignored, \<open>w\<close> waits returned 0, \<open>e\<close> waits
  expired; \<open>b\<close> says that \<open>t\<close> is in a wait.
\<close>

inductive c_reach :: "nat \<Rightarrow> nat \<Rightarrow> nat \<Rightarrow> nat \<Rightarrow> bool \<Rightarrow> cstate \<Rightarrow> bool" for t where
  init: "\<not> suspended (ths t) \<Longrightarrow> c_reach t 0 0 0 False (rt_completion_init, ths)"
| wait: "c_reach t d w e False s \<Longrightarrow> rt_completion_wait t n s = (r, s1) \<Longrightarrow>
    c_reach t d (if r = Return 0 then Suc w else w) e (r = Block) s1"
| wake: "c_reach t d w e True s \<Longrightarrow> \<not> suspended (snd s t) \<Longrightarrow> completion_wake t s = (r, s1) \<Longrightarrow>
    c_reach t d (if r = 0 then Suc w else w) e False s1"
| complete: "c_reach t d w e b s \<Longrightarrow> c_reach t (if completed (fst s) then d else Suc d) w e b (rt_completion_done s)"
| expire: "c_reach t d w e b s \<Longrightarrow> suspended (snd s t) \<Longrightarrow> c_reach t d w (Suc e) b (completion_timeout t s)"

definition c_inv :: "nat \<Rightarrow> nat \<Rightarrow> nat \<Rightarrow> nat \<Rightarrow> bool \<Rightarrow> cstate \<Rightarrow> bool" where
  "c_inv t d w e b s \<longleftrightarrow>
     (case s of (c, ths) \<Rightarrow>
       suspended_list c = (if suspended (ths t) then [t] else []) \<and>
       (suspended (ths t) \<longrightarrow> b \<and> \<not> completed c \<and> terror (ths t) = 0) \<and>
       (b \<and> \<not> suspended (ths t) \<and> terror (ths t) = 0 \<longrightarrow> completed c) \<and>
       w + of_bool (completed c) \<le> d \<and>
       d + of_bool (b \<and> \<not> suspended (ths t) \<and> terror (ths t) \<noteq> 0) \<le> w + of_bool (completed c) + e)"

lemma c_reach_inv: "c_reach t d w e b s \<Longrightarrow> c_inv t d w e b s"
proof (induction rule: c_reach.induct)
  case (init ths)
  then show ?case by (simp add: c_inv_def rt_completion_init_def)
next
  case (wait d w e s n r s1)
  obtain c ths where s: "s = (c, ths)" by fastforce
  show ?case using wait.IH wait.hyps(2)
    by (auto simp: s c_inv_def rt_completion_wait_def RT_ETIMEOUT_def split: if_splits)
next
  case (wake d w e s r s1)
  obtain c ths where s: "s = (c, ths)" by fastforce
  show ?case using wake.IH wake.hyps(2,3)
    by (cases "terror (ths t) = 0"; cases "completed c") (auto simp: s c_inv_def completion_wake_def)
next
  case (complete d w e b s)
  obtain c ths where s: "s = (c, ths)" by fastforce
  show ?case using complete.IH
    by (cases "suspended (ths t)"; cases "completed c") (auto simp: s c_inv_def rt_completion_done_def rt_ipc_list_resume_def)
next
  case (expire d w e b s)
  obtain c ths where s: "s = (c, ths)" by fastforce
  show ?case using expire.IH expire.hyps(2)
    by (auto simp: s c_inv_def completion_timeout_def rt_thread_timeout_def RT_ETIMEOUT_def)
qed

text \<open>
  A wait returns 0 at most once for each completion; each completion that was not ignored is kept until a wait takes it, unless a
  wait has expired, which can lose one: the completion comes after the timer and before the thread runs.  No thread
  sleeps beside a completion.
\<close>

theorem completion_counts:
  assumes "c_reach t d w e b s"
  shows "w + of_bool (completed (fst s)) \<le> d" "d \<le> w + of_bool (completed (fst s)) + e"
    "completed (fst s) \<Longrightarrow> \<not> suspended (snd s t)"
  using c_reach_inv[OF assms] by (cases s; auto simp: c_inv_def)+

lemma completion_lost:
  "\<exists>s. c_reach 1 1 0 1 False s \<and> \<not> completed (fst s)"
proof -
  let ?ths = "snd two_items"
  let ?s1 = "snd (rt_completion_wait 1 5 (rt_completion_init, ?ths))"
  have n: "\<not> suspended (?ths t)" for t by (simp add: two_items_def)
  have w: "rt_completion_wait 1 5 (rt_completion_init, ?ths) = (Block, ?s1)"
    by (simp add: rt_completion_wait_def rt_completion_init_def)
  have s1: "\<not> completed (fst ?s1)" "suspended (snd ?s1 1)" by (simp_all add: rt_completion_wait_def rt_completion_init_def)
  have r1: "c_reach 1 0 0 0 True ?s1" using c_reach.wait[OF c_reach.init[of ?ths 1] w] n by simp
  let ?s2 = "completion_timeout 1 ?s1"
  have r2: "c_reach 1 0 0 1 True ?s2" using c_reach.expire[OF r1 s1(2)] by simp
  have c2: "\<not> completed (fst ?s2)" using s1(1) by (simp add: completion_timeout_def)
  let ?s3 = "rt_completion_done ?s2"
  have r3: "c_reach 1 1 0 1 True ?s3" using c_reach.complete[OF r2] c2 by simp
  have e3: "terror (snd ?s3 1) \<noteq> 0" "\<not> suspended (snd ?s3 1)"
    by (simp_all add: rt_completion_done_def completion_timeout_def rt_completion_wait_def rt_completion_init_def
        rt_ipc_list_resume_def rt_thread_timeout_def RT_ETIMEOUT_def case_prod_beta Let_def)
  have "completion_wake 1 ?s3 = (terror (snd ?s3 1), ((fst ?s3)\<lparr>completed := False\<rparr>, snd ?s3))"
    by (simp only: completion_wake_def)
  from c_reach.wake[OF r3 e3(2) this] e3(1) have "c_reach 1 1 0 1 False ((fst ?s3)\<lparr>completed := False\<rparr>, snd ?s3)" by simp
  then show ?thesis by force
qed

end
