(* ===== verification/Kserv_Mem.thy ===== *)
theory Kserv_Mem
  imports Prelude
begin

unbundle bit_operations_syntax

text \<open>
  The functions of \<open>kservice.c\<close> that fill, copy, move and compare memory.  The memory is a map from 32-bit addresses to
  bytes; a word is four bytes, the lowest first.  The counters count down to zero, so they are numbers.
\<close>

type_synonym memory = "u32 \<Rightarrow> u8"

definition load32 :: "u32 \<Rightarrow> memory \<Rightarrow> u32" where
  "load32 a m = ucast (m a) OR push_bit 8 (ucast (m (a + 1))) OR push_bit 16 (ucast (m (a + 2))) OR push_bit 24 (ucast (m (a + 3)))"

definition store32 :: "u32 \<Rightarrow> u32 \<Rightarrow> memory \<Rightarrow> memory" where
  "store32 a w m = m(a := ucast w, a + 1 := ucast (drop_bit 8 w), a + 2 := ucast (drop_bit 16 w), a + 3 := ucast (drop_bit 24 w))"

section \<open>Filling\<close>

fun set_bytes :: "u8 \<Rightarrow> nat \<Rightarrow> u32 \<Rightarrow> memory \<Rightarrow> memory" where
  "set_bytes c 0 a m = m"
| "set_bytes c (Suc n) a m = set_bytes c n (a + 1) (m(a := c))"

function set_words :: "u32 \<Rightarrow> nat \<Rightarrow> u32 \<Rightarrow> memory \<Rightarrow> nat \<times> u32 \<times> memory" where
  "set_words w n a m =
     (if 4 \<le> n then set_words w (n - 4) (a + 4) (store32 a w m) else (n, a, m))"
  by auto
termination by (relation "measure (\<lambda>(w, n, a, m). n)") auto

function set_blocks :: "u32 \<Rightarrow> nat \<Rightarrow> u32 \<Rightarrow> memory \<Rightarrow> nat \<times> u32 \<times> memory" where
  "set_blocks w n a m =
     (if 16 \<le> n
      then set_blocks w (n - 16) (a + 16) (store32 (a + 12) w (store32 (a + 8) w (store32 (a + 4) w (store32 a w m))))
      else (n, a, m))"
  by auto
termination by (relation "measure (\<lambda>(w, n, a, m). n)") auto

definition rt_memset :: "u32 \<Rightarrow> u32 \<Rightarrow> u32 \<Rightarrow> memory \<Rightarrow> memory" where
  "rt_memset s c count m =
     (let d = c AND 0xFF; b = push_bit 8 d OR d; buffer = b OR push_bit 16 b
      in if 4 \<le> count \<and> s AND 3 = 0
         then let (n, a, m1) = set_blocks buffer (unat count) s m; (n2, a2, m2) = set_words buffer n a m1
              in set_bytes (ucast d) n2 a2 m2
         else set_bytes (ucast d) (unat count) s m)"

section \<open>Copying\<close>

fun copy_bytes :: "nat \<Rightarrow> u32 \<Rightarrow> u32 \<Rightarrow> memory \<Rightarrow> memory" where
  "copy_bytes 0 d s m = m"
| "copy_bytes (Suc n) d s m = copy_bytes n (d + 1) (s + 1) (m(d := m s))"

definition copy32 :: "u32 \<Rightarrow> u32 \<Rightarrow> memory \<Rightarrow> memory" where
  "copy32 d s m = store32 d (load32 s m) m"

function copy_words :: "nat \<Rightarrow> u32 \<Rightarrow> u32 \<Rightarrow> memory \<Rightarrow> nat \<times> u32 \<times> u32 \<times> memory" where
  "copy_words n d s m =
     (if 4 \<le> n then copy_words (n - 4) (d + 4) (s + 4) (copy32 d s m) else (n, d, s, m))"
  by auto
termination by (relation "measure (\<lambda>(n, d, s, m). n)") auto

function copy_blocks :: "nat \<Rightarrow> u32 \<Rightarrow> u32 \<Rightarrow> memory \<Rightarrow> nat \<times> u32 \<times> u32 \<times> memory" where
  "copy_blocks n d s m =
     (if 16 \<le> n
      then copy_blocks (n - 16) (d + 16) (s + 16)
             (copy32 (d + 12) (s + 12) (copy32 (d + 8) (s + 8) (copy32 (d + 4) (s + 4) (copy32 d s m))))
      else (n, d, s, m))"
  by auto
termination by (relation "measure (\<lambda>(n, d, s, m). n)") auto

definition rt_memcpy :: "u32 \<Rightarrow> u32 \<Rightarrow> u32 \<Rightarrow> memory \<Rightarrow> memory" where
  "rt_memcpy dst src count m =
     (if 16 \<le> count \<and> (src AND 3) OR (dst AND 3) = 0
      then let (n, d, s, m1) = copy_blocks (unat count) dst src m; (n2, d2, s2, m2) = copy_words n d s m1
           in copy_bytes n2 d2 s2 m2
      else copy_bytes (unat count) dst src m)"

text \<open>The loop from the end decrements both addresses before it copies.\<close>

fun copy_down :: "nat \<Rightarrow> u32 \<Rightarrow> u32 \<Rightarrow> memory \<Rightarrow> memory" where
  "copy_down 0 d s m = m"
| "copy_down (Suc n) d s m = copy_down n (d - 1) (s - 1) (m(d - 1 := m (s - 1)))"

definition rt_memmove :: "u32 \<Rightarrow> u32 \<Rightarrow> u32 \<Rightarrow> memory \<Rightarrow> memory" where
  "rt_memmove dest src n m =
     (if src < dest \<and> dest < src + n then copy_down (unat n) (dest + n) (src + n) m
      else copy_bytes (unat n) dest src m)"

section \<open>Comparing\<close>

fun compare_bytes :: "nat \<Rightarrow> u32 \<Rightarrow> u32 \<Rightarrow> memory \<Rightarrow> int" where
  "compare_bytes 0 a b m = 0"
| "compare_bytes (Suc n) a b m =
     (let res = uint (m a) - uint (m b) in if res \<noteq> 0 then res else compare_bytes n (a + 1) (b + 1) m)"

definition rt_memcmp :: "u32 \<Rightarrow> u32 \<Rightarrow> u32 \<Rightarrow> memory \<Rightarrow> int" where
  "rt_memcmp cs ct count m = compare_bytes (unat count) cs ct m"

declare set_words.simps [simp del] set_blocks.simps [simp del] copy_words.simps [simp del] copy_blocks.simps [simp del]

section \<open>Filling by words is filling by bytes\<close>

lemma ucast_byte:
  fixes w :: u32
  shows "(ucast (drop_bit n w) :: u8) = w' \<longleftrightarrow> (\<forall>i < 8. bit w (n + i) = bit w' i)"
  by (auto simp: bit_eq_iff bit_simps add.commute dest: bit_imp_le_length)

lemma splat_bytes:
  fixes d :: u32
  assumes "d = c AND 0xFF"
  defines "w \<equiv> (push_bit 8 d OR d) OR push_bit 16 (push_bit 8 d OR d)"
  shows "(ucast w :: u8) = ucast d" "(ucast (drop_bit 8 w) :: u8) = ucast d" "(ucast (drop_bit 16 w) :: u8) = ucast d"
    "(ucast (drop_bit 24 w) :: u8) = ucast d"
proof -
  have m: "(0xFF :: u32) = mask 8" by (simp add: mask_numeral)
  have d: "bit d i \<longleftrightarrow> i < 8 \<and> bit c i" for i by (auto simp: assms(1) m bit_simps)
  show "(ucast w :: u8) = ucast d" "(ucast (drop_bit 8 w) :: u8) = ucast d" "(ucast (drop_bit 16 w) :: u8) = ucast d"
    "(ucast (drop_bit 24 w) :: u8) = ucast d"
    unfolding w_def by (rule bit_word_eqI; auto simp: bit_simps d)+
qed

lemma set_four:
  assumes "\<And>k. k \<in> {0, 8, 16, 24} \<Longrightarrow> ucast (drop_bit k w) = c"
  shows "store32 a w m = set_bytes c 4 a m"
  using assms[of 0] assms[of 8] assms[of 16] assms[of 24] by (simp add: store32_def numeral_eq_Suc add.assoc)

lemma set_bytes_add: "set_bytes c (n + k) a m = set_bytes c k (a + of_nat n) (set_bytes c n a m)"
  by (induction n arbitrary: a m) (simp_all add: algebra_simps)

lemma set_bytes_step: "k \<le> n \<Longrightarrow> set_bytes c n a m = set_bytes c (n - k) (a + of_nat k) (set_bytes c k a m)"
  using set_bytes_add[of c k "n - k" a m] by simp

lemma set_words_bytes:
  assumes "\<And>k. k \<in> {0, 8, 16, 24} \<Longrightarrow> ucast (drop_bit k w) = c"
  shows "case set_words w n a m of (n1, a1, m1) \<Rightarrow> set_bytes c n1 a1 m1 = set_bytes c n a m"
proof (induction n arbitrary: a m rule: less_induct)
  case (less n)
  show ?case
  proof (cases "4 \<le> n")
    case True
    then have "set_bytes c n a m = set_bytes c (n - 4) (a + 4) (store32 a w m)"
      using set_bytes_step[of 4 n c a m] set_four[OF assms, of a m] by simp
    then show ?thesis using less.IH[of "n - 4" "a + 4" "store32 a w m"] True by (subst set_words.simps) simp
  qed (subst set_words.simps, simp)
qed

lemma set_blocks_bytes:
  assumes "\<And>k. k \<in> {0, 8, 16, 24} \<Longrightarrow> ucast (drop_bit k w) = c"
  shows "case set_blocks w n a m of (n1, a1, m1) \<Rightarrow> set_bytes c n1 a1 m1 = set_bytes c n a m"
proof (induction n arbitrary: a m rule: less_induct)
  case (less n)
  show ?case
  proof (cases "16 \<le> n")
    case True
    let ?m = "store32 (a + 12) w (store32 (a + 8) w (store32 (a + 4) w (store32 a w m)))"
    have f: "store32 b w m' = set_bytes c 4 b m'" for b m' using set_four[of w c b m'] assms by blast
    have "set_bytes c 16 a m = ?m"
      using set_bytes_step[of 4 16 c a m] set_bytes_step[of 4 12 c "a + 4"] set_bytes_step[of 4 8 c "a + 8"]
      by (simp add: f add.assoc)
    then have "set_bytes c n a m = set_bytes c (n - 16) (a + 16) ?m"
      using set_bytes_step[of 16 n c a m] True by simp
    then show ?thesis using less.IH[of "n - 16" "a + 16" ?m] True by (subst set_blocks.simps) simp
  qed (subst set_blocks.simps, simp)
qed

lemma set_bytes_value: "n \<le> 2 ^ 32 \<Longrightarrow> set_bytes c n a m x = (if unat (x - a) < n then c else m x)"
proof (induction n arbitrary: a m)
  case (Suc n)
  show ?case
  proof (cases "x = a")
    case True
    then have "unat (x - (a + 1)) = 2 ^ 32 - 1" by (simp add: unsigned_minus_1_eq_mask mask_eq_exp_minus_1)
    then show ?thesis using Suc True by simp
  next
    case False
    then have "unat (x - a) = Suc (unat (x - a - 1))" by (simp add: unat_minus_one Suc_leI unat_gt_0)
    then show ?thesis using Suc False by (simp add: diff_diff_eq add.commute)
  qed
qed simp

text \<open>\<open>rt_memset\<close>, which stores words where it can, sets exactly the bytes of the region to the low byte of its argument.\<close>

theorem memset_fills: "rt_memset s c count m = (\<lambda>x. if x - s < count then ucast c else m x)"
proof -
  let ?d = "c AND 0xFF"
  let ?b = "push_bit 8 ?d OR ?d"
  have c: "(ucast ?d :: u8) = ucast c"
  proof -
    have m: "(0xFF :: u32) = mask 8" by (simp add: mask_numeral)
    show ?thesis unfolding m by (rule bit_word_eqI) (auto simp: bit_simps)
  qed
  have w: "ucast (drop_bit k (?b OR push_bit 16 ?b)) = (ucast c :: u8)" if "k \<in> {0, 8, 16, 24}" for k
    using that splat_bytes[of ?d c] c by auto
  obtain n a m1 where 1: "set_blocks (?b OR push_bit 16 ?b) (unat count) s m = (n, a, m1)" by (metis prod_cases3)
  obtain n2 a2 m2 where 2: "set_words (?b OR push_bit 16 ?b) n a m1 = (n2, a2, m2)" by (metis prod_cases3)
  have "rt_memset s c count m = set_bytes (ucast c) (unat count) s m"
    using set_blocks_bytes[OF w, of "unat count" s m] set_words_bytes[OF w, of n a m1] 1 2 c
    by (simp add: rt_memset_def Let_def)
  then show ?thesis
    using set_bytes_value[of "unat count" "ucast c" s m] unsigned_less[of count, where ?'a = nat]
    by (auto simp: word_less_nat_alt)
qed

section \<open>Copying by words is copying by bytes\<close>

text \<open>No byte is written before it is read.\<close>

definition clear :: "nat \<Rightarrow> u32 \<Rightarrow> u32 \<Rightarrow> bool" where
  "clear n d s \<longleftrightarrow> (\<forall>j < n. \<forall>i < j. d + of_nat i \<noteq> s + of_nat j)"

lemma clear_tail: "clear n d s \<Longrightarrow> k \<le> n \<Longrightarrow> clear (n - k) (d + of_nat k) (s + of_nat k)"
proof -
  assume c: "clear n d s" "k \<le> n"
  have "d + of_nat k + of_nat i \<noteq> s + of_nat k + of_nat j" if "j < n - k" "i < j" for i j
  proof -
    have "d + of_nat (k + i) \<noteq> s + of_nat (k + j)" using c that unfolding clear_def by auto
    then show ?thesis by (simp add: algebra_simps)
  qed
  then show ?thesis by (simp add: clear_def)
qed

lemma copy_bytes_add: "copy_bytes (n + k) d s m = copy_bytes k (d + of_nat n) (s + of_nat n) (copy_bytes n d s m)"
  by (induction n arbitrary: d s m) (simp_all add: algebra_simps)

lemma copy_bytes_step:
  "k \<le> n \<Longrightarrow> copy_bytes n d s m = copy_bytes (n - k) (d + of_nat k) (s + of_nat k) (copy_bytes k d s m)"
  using copy_bytes_add[of k "n - k" d s m] by simp

lemma load_bytes:
  "(ucast (load32 a m) :: u8) = m a" "(ucast (drop_bit 8 (load32 a m)) :: u8) = m (a + 1)"
  "(ucast (drop_bit 16 (load32 a m)) :: u8) = m (a + 2)" "(ucast (drop_bit 24 (load32 a m)) :: u8) = m (a + 3)"
  unfolding load32_def by (rule bit_word_eqI; auto simp: bit_simps dest: bit_imp_le_length)+

lemma copy_four:
  assumes "clear 4 d s"
  shows "copy32 d s m = copy_bytes 4 d s m"
proof -
  have c: "d + of_nat i \<noteq> s + of_nat j" if "i < j" "j < 4" for i j using assms that by (simp add: clear_def)
  have "s + 1 \<noteq> d" "s + 2 \<noteq> d" "s + 3 \<noteq> d" "s + 2 \<noteq> d + 1" "s + 3 \<noteq> d + 1" "s + 3 \<noteq> d + 2"
    using c[of 0 1] c[of 0 2] c[of 0 3] c[of 1 2] c[of 1 3] c[of 2 3] by auto
  moreover have "copy_bytes 4 d s m = (let m1 = m(d := m s); m2 = m1(d + 1 := m1 (s + 1)); m3 = m2(d + 2 := m2 (s + 2))
      in m3(d + 3 := m3 (s + 3)))"
    by (simp add: numeral_eq_Suc add.assoc Let_def)
  ultimately show ?thesis by (simp add: copy32_def store32_def load_bytes Let_def)
qed

lemma clear_le: "clear n d s \<Longrightarrow> k \<le> n \<Longrightarrow> clear k d s"
  by (simp add: clear_def)

lemma copy_words_bytes:
  "clear n d s \<Longrightarrow> case copy_words n d s m of (n1, d1, s1, m1) \<Rightarrow> copy_bytes n1 d1 s1 m1 = copy_bytes n d s m \<and> clear n1 d1 s1"
proof (induction n arbitrary: d s m rule: less_induct)
  case (less n)
  show ?case
  proof (cases "4 \<le> n")
    case True
    have "copy_bytes n d s m = copy_bytes (n - 4) (d + 4) (s + 4) (copy32 d s m)"
      using copy_bytes_step[OF True, of d s m] copy_four[OF clear_le[OF less.prems True], of m] by simp
    then show ?thesis using less.IH[of "n - 4" "d + 4" "s + 4" "copy32 d s m"] clear_tail[OF less.prems True] True
      by (subst copy_words.simps) simp
  qed (use less.prems in \<open>subst copy_words.simps, simp\<close>)
qed

lemma copy_blocks_bytes:
  "clear n d s \<Longrightarrow> case copy_blocks n d s m of (n1, d1, s1, m1) \<Rightarrow> copy_bytes n1 d1 s1 m1 = copy_bytes n d s m \<and> clear n1 d1 s1"
proof (induction n arbitrary: d s m rule: less_induct)
  case (less n)
  show ?case
  proof (cases "16 \<le> n")
    case True
    let ?m = "copy32 (d + 12) (s + 12) (copy32 (d + 8) (s + 8) (copy32 (d + 4) (s + 4) (copy32 d s m)))"
    have c: "clear 4 (d + of_nat k) (s + of_nat k)" if "k \<le> 12" for k
      using clear_le[OF clear_tail[OF less.prems, of k], of 4] that True by simp
    have f: "copy32 d s m' = copy_bytes 4 d s m'" "copy32 (d + 4) (s + 4) m' = copy_bytes 4 (d + 4) (s + 4) m'"
      "copy32 (d + 8) (s + 8) m' = copy_bytes 4 (d + 8) (s + 8) m'"
      "copy32 (d + 12) (s + 12) m' = copy_bytes 4 (d + 12) (s + 12) m'" for m'
      using copy_four[OF c[of 0]] copy_four[OF c[of 4]] copy_four[OF c[of 8]] copy_four[OF c[of 12]] by simp_all
    have "copy_bytes 16 d s m = ?m"
      using copy_bytes_step[of 4 16 d s m] copy_bytes_step[of 4 12 "d + 4" "s + 4"] copy_bytes_step[of 4 8 "d + 8" "s + 8"]
      by (simp add: f add.assoc)
    then have "copy_bytes n d s m = copy_bytes (n - 16) (d + 16) (s + 16) ?m"
      using copy_bytes_step[OF True, of d s m] by simp
    then show ?thesis using less.IH[of "n - 16" "d + 16" "s + 16" ?m] clear_tail[OF less.prems True] True
      by (subst copy_blocks.simps) simp
  qed (use less.prems in \<open>subst copy_blocks.simps, simp\<close>)
qed

text \<open>The value of a region after it was copied from its start to its end.\<close>

lemma copy_bytes_value:
  assumes "clear n d s" and "n \<le> 2 ^ 32"
  shows "copy_bytes n d s m x = (if unat (x - d) < n then m (s + (x - d)) else m x)"
  using assms
proof (induction n arbitrary: d s m)
  case (Suc n)
  let ?m = "m(d := m s)"
  have c: "clear n (d + 1) (s + 1)" using clear_tail[OF Suc.prems(1), of 1] by simp
  have ih: "copy_bytes n (d + 1) (s + 1) h x = (if unat (x - (d + 1)) < n then h (s + 1 + (x - (d + 1))) else h x)" for h
    using Suc.IH[OF c] Suc.prems(2) by simp
  show ?case
  proof (cases "x = d")
    case True
    then have "unat (x - (d + 1)) = 2 ^ 32 - 1" by (simp add: unsigned_minus_1_eq_mask mask_eq_exp_minus_1)
    then show ?thesis using Suc.prems(2) unfolding copy_bytes.simps ih by (simp add: True)
  next
    case False
    then have u: "unat (x - d) = Suc (unat (x - (d + 1)))"
      by (simp add: unat_minus_one Suc_leI unat_gt_0 diff_diff_eq[symmetric])
    define v where "v = s + (x - d)"
    have v: "s + 1 + (x - (d + 1)) = v" by (simp add: v_def)
    have "v \<noteq> d" if "unat (x - d) < Suc n"
    proof -
      have "d + of_nat 0 \<noteq> s + of_nat (unat (x - d))" using Suc.prems(1)[unfolded clear_def, rule_format, of "unat (x - d)" 0] that u by simp
      then show ?thesis by (auto simp: v_def)
    qed
    moreover define q where "q = unat (x - (d + 1))"
    ultimately show ?thesis using False unfolding copy_bytes.simps ih v v_def[symmetric] u q_def[symmetric] by simp
  qed
qed simp

lemma memcpy_bytes:
  assumes "clear (unat count) dst src"
  shows "rt_memcpy dst src count m = copy_bytes (unat count) dst src m"
proof -
  obtain n d s m1 where 1: "copy_blocks (unat count) dst src m = (n, d, s, m1)" by (metis prod_cases4)
  obtain n2 d2 s2 m2 where 2: "copy_words n d s m1 = (n2, d2, s2, m2)" by (metis prod_cases4)
  have "copy_bytes n d s m1 = copy_bytes (unat count) dst src m" "clear n d s"
    using copy_blocks_bytes[OF assms, of m] 1 by simp_all
  then show ?thesis using copy_words_bytes[of n d s m1] 1 2 by (simp add: rt_memcpy_def)
qed

text \<open>C30: \<open>rt_memcpy\<close>, which copies words where it can, copies exactly the bytes of the source, as long as no byte of the destination
  is a later byte of the source; so the regions may overlap if the destination is the lower one.\<close>

theorem memcpy_copies:
  assumes "\<forall>j < unat count. \<forall>i < j. dst + of_nat i \<noteq> src + of_nat j"
  shows "rt_memcpy dst src count m = (\<lambda>x. if x - dst < count then m (src + (x - dst)) else m x)"
proof -
  have c: "clear (unat count) dst src" using assms by (simp add: clear_def)
  show ?thesis
    using memcpy_bytes[OF c, of m] copy_bytes_value[OF c] unsigned_less[of count, where ?'a = nat]
    by (auto simp: word_less_nat_alt)
qed

theorem memcpy_copies_witness:
  "rt_memcpy 0x100 0x200 16 (\<lambda>a. ucast (drop_bit 4 a)) 0x10F = 0x20 \<and>
   rt_memcpy 0x100 0x200 16 (\<lambda>a. ucast (drop_bit 4 a)) 0x110 = 0x11"
proof -
  have "\<forall>j < unat (16 :: u32). \<forall>i < j. (0x100 :: u32) + of_nat i \<noteq> 0x200 + of_nat j"
  proof (intro allI impI)
    fix i j :: nat assume "j < unat (16 :: u32)" "i < j"
    then have "of_nat (0x100 + i) = (of_nat (0x200 + j) :: u32) \<longleftrightarrow> 0x100 + i = 0x200 + j"
      by (auto simp del: of_nat_add simp: word_unat_eq_iff unsigned_of_nat take_bit_nat_eq_self)
    then show "(0x100 :: u32) + of_nat i \<noteq> 0x200 + of_nat j" using \<open>i < j\<close> by simp
  qed
  from memcpy_copies[OF this, of "\<lambda>a. ucast (drop_bit 4 a)"] show ?thesis by (simp add: drop_bit_eq_div)
qed

section \<open>Moving\<close>

text \<open>From the end to the start.\<close>

lemma copy_down_value:
  assumes "\<And>i j. i < j \<Longrightarrow> j < n \<Longrightarrow> d + of_nat j \<noteq> s + of_nat i" and "n \<le> 2 ^ 32"
  shows "copy_down n (d + of_nat n) (s + of_nat n) m x = (if unat (x - d) < n then m (s + (x - d)) else m x)"
  using assms
proof (induction n arbitrary: m)
  case (Suc n)
  let ?m = "m(d + of_nat n := m (s + of_nat n))"
  have e: "copy_down (Suc n) (d + of_nat (Suc n)) (s + of_nat (Suc n)) m = copy_down n (d + of_nat n) (s + of_nat n) ?m"
    by (simp add: add.assoc)
  have ih: "copy_down n (d + of_nat n) (s + of_nat n) h x = (if unat (x - d) < n then h (s + (x - d)) else h x)" for h
    using Suc.IH[of h] Suc.prems by simp
  have un: "unat (of_nat n :: u32) = n" using Suc.prems(2) by (simp add: unsigned_of_nat take_bit_nat_eq_self)
  show ?case
  proof (cases "unat (x - d) < n")
    case True
    have "d + of_nat n \<noteq> s + of_nat (unat (x - d))" using Suc.prems(1)[OF True] by simp
    then show ?thesis unfolding e ih using True by auto
  next
    case False
    have "x = d + of_nat n \<longleftrightarrow> unat (x - d) = n"
    proof
      assume "unat (x - d) = n"
      moreover have "of_nat (unat (x - d)) = x - d" by simp
      ultimately have "of_nat n = x - d" by simp
      then show "x = d + of_nat n" by simp
    qed (simp add: un)
    then show ?thesis unfolding e ih using False by auto
  qed
qed simp

text \<open>\<open>rt_memmove\<close> copies a region however source and destination overlap, if neither reaches the end of the address space.\<close>

theorem memmove_moves:
  assumes "unat src + unat n < 2 ^ 32" and "unat dest + unat n < 2 ^ 32"
  shows "rt_memmove dest src n m = (\<lambda>x. if x - dest < n then m (src + (x - dest)) else m x)"
proof -
  have a: "unat (b + of_nat i) = unat b + i" if "unat b + unat n < 2 ^ 32" "i < unat n" for b :: u32 and i
  proof -
    have "unat (of_nat i :: u32) = i" using that by (simp add: unsigned_of_nat take_bit_nat_eq_self)
    then show ?thesis using iffD1[OF unat_add_lem, of b "of_nat i"] that by simp
  qed
  have e: "unat (src + n) = unat src + unat n" using iffD1[OF unat_add_lem, of src n] assms(1) by simp
  have n: "unat n \<le> 2 ^ 32" using unsigned_less[of n, where ?'a = nat] by simp
  show ?thesis
  proof (cases "src < dest \<and> dest < src + n")
    case True
    then have "unat src < unat dest" by (simp add: word_less_nat_alt)
    then have "dest + of_nat j \<noteq> src + of_nat i" if "i < j" "j < unat n" for i j
      using a[OF assms(1), of i] a[OF assms(2), of j] that by (metis add_less_mono less_irrefl less_trans)
    then have "copy_down (unat n) (dest + of_nat (unat n)) (src + of_nat (unat n)) m x =
        (if unat (x - dest) < unat n then m (src + (x - dest)) else m x)" for x
      using copy_down_value[of "unat n" dest src m x] n by blast
    then show ?thesis using True by (auto simp: rt_memmove_def word_less_nat_alt)
  next
    case False
    then have "unat dest \<le> unat src \<or> unat src + unat n \<le> unat dest" using e by (simp add: word_less_nat_alt) linarith
    then have "dest + of_nat i \<noteq> src + of_nat j" if "i < j" "j < unat n" for i j
      using a[OF assms(1), of j] a[OF assms(2), of i] that by (intro notI) auto
    then have "clear (unat n) dest src" by (simp add: clear_def)
    from copy_bytes_value[OF this n] show ?thesis using False by (auto simp: rt_memmove_def word_less_nat_alt)
  qed
qed

theorem memmove_moves_witness:
  "rt_memmove 0x102 0x100 4 m 0x105 = m 0x103 \<and> rt_memmove 0x100 0x102 4 m 0x100 = m 0x102"
  using memmove_moves[where src = "0x100" and n = 4 and dest = "0x102"] memmove_moves[where src = "0x102" and n = 4 and dest = "0x100"]
  by simp

section \<open>Comparing\<close>

lemma memcmp_first_difference:
  "rt_memcmp a b n m =
     (if \<forall>i < unat n. m (a + of_nat i) = m (b + of_nat i) then 0
      else let i = (LEAST i. m (a + of_nat i) \<noteq> m (b + of_nat i)) in uint (m (a + of_nat i)) - uint (m (b + of_nat i)))"
proof -
  have "compare_bytes k a b m =
     (if \<forall>i < k. m (a + of_nat i) = m (b + of_nat i) then 0
      else let i = (LEAST i. m (a + of_nat i) \<noteq> m (b + of_nat i)) in uint (m (a + of_nat i)) - uint (m (b + of_nat i)))" for k
  proof (induction k arbitrary: a b)
    case (Suc k)
    show ?case
    proof (cases "m a = m b")
      case True
      have s: "(\<forall>i < Suc k. m (a + of_nat i) = m (b + of_nat i)) \<longleftrightarrow> (\<forall>i < k. m (a + 1 + of_nat i) = m (b + 1 + of_nat i))"
        using True by (auto simp: less_Suc_eq_0_disj add.assoc)
      show ?thesis
      proof (cases "\<forall>i < Suc k. m (a + of_nat i) = m (b + of_nat i)")
        case False
        then obtain i where i: "m (a + of_nat i) \<noteq> m (b + of_nat i)" by blast
        have "(LEAST i. m (a + of_nat i) \<noteq> m (b + of_nat i)) = Suc (LEAST i. m (a + of_nat (Suc i)) \<noteq> m (b + of_nat (Suc i)))"
          by (rule Least_Suc[where P = "\<lambda>i. m (a + of_nat i) \<noteq> m (b + of_nat i)", OF i]) (use True in simp)
        moreover have "\<not> (\<forall>i < k. m (a + 1 + of_nat i) = m (b + 1 + of_nat i))" using False s by blast
        then have "compare_bytes k (a + 1) (b + 1) m = (let i = (LEAST i. m (a + 1 + of_nat i) \<noteq> m (b + 1 + of_nat i))
            in uint (m (a + 1 + of_nat i)) - uint (m (b + 1 + of_nat i)))"
          using Suc[of "a + 1" "b + 1"] by (simp only: if_False)
        moreover have "compare_bytes (Suc k) a b m = compare_bytes k (a + 1) (b + 1) m" using True by simp
        ultimately show ?thesis using False by (simp only: if_False Let_def of_nat_Suc add.assoc)
      qed (use Suc[of "a + 1" "b + 1"] s True in simp)
    next
      case False
      then have "(LEAST i. m (a + of_nat i) \<noteq> m (b + of_nat i)) = 0" by (intro Least_eq_0) simp
      moreover have "\<not> (\<forall>i < Suc k. m (a + of_nat i) = m (b + of_nat i))" using False by force
      moreover have "uint (m a) \<noteq> uint (m b)" using False by (simp add: word_uint_eq_iff)
      ultimately show ?thesis by (simp add: Let_def)
    qed
  qed simp
  then show ?thesis by (simp add: rt_memcmp_def)
qed

end
