(* ===== verification/Kserv_Str.thy ===== *)
theory Kserv_Str
  imports Kserv_Mem
begin

text \<open>
  The string functions of \<open>kservice.c\<close>, on the memory of \<open>Kserv_Mem\<close>.  A character is an unsigned byte, as on the ARM
  processor.  Where a loop runs until it finds a zero the function is an option; if there is no zero it does not end.
\<close>

partial_function (option) strlen_loop :: "memory \<Rightarrow> u32 \<Rightarrow> u32 \<Rightarrow> u32 option" where
  "strlen_loop m s sc = (if m sc = 0 then Some (sc - s) else strlen_loop m s (sc + 1))"

definition rt_strlen :: "u32 \<Rightarrow> memory \<Rightarrow> u32 option" where
  "rt_strlen s m = strlen_loop m s s"

partial_function (option) rt_strcmp :: "u32 \<Rightarrow> u32 \<Rightarrow> memory \<Rightarrow> int option" where
  "rt_strcmp cs ct m =
     (if m cs \<noteq> 0 \<and> m cs = m ct then rt_strcmp (cs + 1) (ct + 1) m else Some (uint (m cs) - uint (m ct)))"

text \<open>The difference is kept in a \<open>signed char\<close>.\<close>

fun strncmp_loop :: "nat \<Rightarrow> int \<Rightarrow> u32 \<Rightarrow> u32 \<Rightarrow> memory \<Rightarrow> int" where
  "strncmp_loop 0 res cs ct m = res"
| "strncmp_loop (Suc n) res cs ct m =
     (let res = sint (m cs - m ct) in if res \<noteq> 0 \<or> m cs = 0 then res else strncmp_loop n res (cs + 1) (ct + 1) m)"

definition rt_strncmp :: "u32 \<Rightarrow> u32 \<Rightarrow> u32 \<Rightarrow> memory \<Rightarrow> int" where
  "rt_strncmp cs ct count m = strncmp_loop (unat count) 0 cs ct m"

definition lower_case :: "u8 \<Rightarrow> u8" where
  "lower_case c = (if 0x41 \<le> c \<and> c \<le> 0x5a then c + 0x20 else c)"

text \<open>The difference is returned as an unsigned number.\<close>

partial_function (option) rt_strcasecmp :: "u32 \<Rightarrow> u32 \<Rightarrow> memory \<Rightarrow> u32 option" where
  "rt_strcasecmp a b m =
     (let ca = lower_case (m a); cb = lower_case (m b)
      in if ca = cb \<and> ca \<noteq> 0 then rt_strcasecmp (a + 1) (b + 1) m else Some (ucast ca - ucast cb))"

fun strncpy_loop :: "nat \<Rightarrow> u32 \<Rightarrow> u32 \<Rightarrow> memory \<Rightarrow> memory" where
  "strncpy_loop 0 d s m = m"
| "strncpy_loop (Suc n) d s m =
     (if m s = 0 then set_bytes 0 n (d + 1) (m(d := 0)) else strncpy_loop n (d + 1) (s + 1) (m(d := m s)))"

definition rt_strncpy :: "u32 \<Rightarrow> u32 \<Rightarrow> u32 \<Rightarrow> memory \<Rightarrow> memory" where
  "rt_strncpy dst src n m = strncpy_loop (unat n) dst src m"

fun strstr_loop :: "nat \<Rightarrow> u32 \<Rightarrow> u32 \<Rightarrow> u32 \<Rightarrow> memory \<Rightarrow> u32" where
  "strstr_loop 0 l2 s1 s2 m = 0"
| "strstr_loop (Suc k) l2 s1 s2 m = (if rt_memcmp s1 s2 l2 m = 0 then s1 else strstr_loop k l2 (s1 + 1) s2 m)"

text \<open>The lengths are \<open>int\<close>s; the loop runs while what is left is not shorter than the second string.\<close>

definition rt_strstr :: "u32 \<Rightarrow> u32 \<Rightarrow> memory \<Rightarrow> u32 option" where
  "rt_strstr s1 s2 m =
     (case rt_strlen s2 m of
        None \<Rightarrow> None
      | Some l2 \<Rightarrow>
          if l2 = 0 then Some s1
          else case rt_strlen s1 m of
                 None \<Rightarrow> None
               | Some l1 \<Rightarrow> Some (strstr_loop (nat (sint l1 - sint l2 + 1)) l2 s1 s2 m))"

text \<open>The heap is a function from the size that is asked for to an address, 0 if there is none.\<close>

definition rt_strdup :: "(u32 \<Rightarrow> u32) \<Rightarrow> u32 \<Rightarrow> memory \<Rightarrow> (u32 \<times> memory) option" where
  "rt_strdup malloc s m =
     (case rt_strlen s m of
        None \<Rightarrow> None
      | Some n \<Rightarrow> let len = n + 1; tmp = malloc len in if tmp = 0 then Some (0, m) else Some (tmp, rt_memcpy tmp s len m))"

section \<open>Strings in memory\<close>

fun cstring :: "memory \<Rightarrow> u32 \<Rightarrow> u8 list \<Rightarrow> bool" where
  "cstring m a [] \<longleftrightarrow> m a = 0"
| "cstring m a (c # cs) \<longleftrightarrow> c \<noteq> 0 \<and> m a = c \<and> cstring m (a + 1) cs"

lemma strlen_loop_length: "cstring m a cs \<Longrightarrow> strlen_loop m s a = Some (a - s + of_nat (length cs))"
proof (induction cs arbitrary: a)
  case (Cons c cs)
  then show ?case by (subst strlen_loop.simps) (simp add: algebra_simps)
qed (subst strlen_loop.simps, simp)

lemma strlen_length: "cstring m a cs \<Longrightarrow> rt_strlen a m = Some (of_nat (length cs))"
  by (simp add: rt_strlen_def strlen_loop_length)

text \<open>The first difference of two strings, their zeros included.\<close>

fun difference :: "u8 list \<Rightarrow> u8 list \<Rightarrow> int" where
  "difference [] ds = (case ds of [] \<Rightarrow> 0 | d # _ \<Rightarrow> - uint d)"
| "difference (c # cs) [] = uint c"
| "difference (c # cs) (d # ds) = (if c = d then difference cs ds else uint c - uint d)"

lemma strcmp_difference: "cstring m a cs \<Longrightarrow> cstring m b ds \<Longrightarrow> rt_strcmp a b m = Some (difference cs ds)"
proof (induction cs ds arbitrary: a b rule: difference.induct)
  case (1 ds)
  then show ?case by (subst rt_strcmp.simps) (auto split: list.split)
next
  case (2 c cs)
  then show ?case by (subst rt_strcmp.simps) simp
next
  case (3 c cs d ds)
  then show ?case by (subst rt_strcmp.simps) auto
qed

lemma difference_0: "0 \<notin> set cs \<Longrightarrow> 0 \<notin> set ds \<Longrightarrow> difference cs ds = 0 \<longleftrightarrow> cs = ds"
proof (induction cs ds rule: difference.induct)
  case (1 ds)
  then show ?case by (auto simp: unsigned_eq_0_iff split: list.split)
next
  case (2 c cs)
  then show ?case by (simp add: unsigned_eq_0_iff)
next
  case (3 c cs d ds)
  then show ?case by (cases "c = d") (simp_all flip: word_uint_eq_iff)
qed

lemma cstring_set: "cstring m a cs \<Longrightarrow> 0 \<notin> set cs"
  by (induction cs arbitrary: a) auto

text \<open>\<open>rt_strcmp\<close> returns for any two strings, 0 exactly for equal ones, and else the difference of the first characters that differ.\<close>

theorem strcmp_compares:
  assumes "cstring m a cs" and "cstring m b ds"
  shows "\<exists>r. rt_strcmp a b m = Some r \<and> (r = 0 \<longleftrightarrow> cs = ds) \<and> r = difference cs ds"
  using strcmp_difference[OF assms] difference_0[OF cstring_set[OF assms(1)] cstring_set[OF assms(2)]] by simp

text \<open>\<open>rt_strncmp\<close> has the wrong sign for characters that are 128 or more apart.\<close>

lemma strncmp_wrong_sign: "m a = 0xFF \<Longrightarrow> m b = 0x01 \<Longrightarrow> rt_strncmp a b 1 m = -2 \<and> uint (m b) < uint (m a)"
  by (simp add: rt_strncmp_def)

text \<open>The search in a string: where the second one starts in the first one.\<close>

lemma memcmp_equal: "rt_memcmp a b n m = 0 \<longleftrightarrow> (\<forall>i < unat n. m (a + of_nat i) = m (b + of_nat i))"
proof -
  have "compare_bytes k a b m = 0 \<longleftrightarrow> (\<forall>i < k. m (a + of_nat i) = m (b + of_nat i))" for k
  proof (induction k arbitrary: a b)
    case (Suc k)
    then show ?case by (auto simp: Let_def word_uint_eq_iff less_Suc_eq_0_disj add.assoc)
  qed simp
  then show ?thesis by (simp add: rt_memcmp_def)
qed

lemma strstr_first:
  "strstr_loop k l s1 s2 m =
     (if \<exists>i < k. rt_memcmp (s1 + of_nat i) s2 l m = 0 then s1 + of_nat (LEAST i. rt_memcmp (s1 + of_nat i) s2 l m = 0) else 0)"
proof (induction k arbitrary: s1)
  case (Suc k)
  show ?case
  proof (cases "rt_memcmp s1 s2 l m = 0")
    case True
    then have "(LEAST i. rt_memcmp (s1 + of_nat i) s2 l m = 0) = 0" by (intro Least_eq_0) simp
    moreover have "\<exists>i < Suc k. rt_memcmp (s1 + of_nat i) s2 l m = 0" using True by (intro exI[of _ 0]) simp
    ultimately show ?thesis using True by simp
  next
    case False
    have e: "(\<exists>i < Suc k. rt_memcmp (s1 + of_nat i) s2 l m = 0) \<longleftrightarrow> (\<exists>i < k. rt_memcmp (s1 + 1 + of_nat i) s2 l m = 0)"
      using False by (auto simp: less_Suc_eq_0_disj add.assoc)
    have r: "strstr_loop (Suc k) l s1 s2 m = strstr_loop k l (s1 + 1) s2 m" using False by simp
    show ?thesis
    proof (cases "\<exists>i < Suc k. rt_memcmp (s1 + of_nat i) s2 l m = 0")
      case True
      then obtain i where i: "rt_memcmp (s1 + of_nat i) s2 l m = 0" by blast
      have "(LEAST i. rt_memcmp (s1 + of_nat i) s2 l m = 0) = Suc (LEAST i. rt_memcmp (s1 + of_nat (Suc i)) s2 l m = 0)"
        by (rule Least_Suc[where P = "\<lambda>i. rt_memcmp (s1 + of_nat i) s2 l m = 0", OF i]) (use False in simp)
      moreover have "\<exists>i < k. rt_memcmp (s1 + 1 + of_nat i) s2 l m = 0" using True e by blast
      ultimately show ?thesis using True unfolding r Suc[of "s1 + 1"] by (simp only: if_True of_nat_Suc add.assoc)
    next
      case False
      moreover from this have "\<not> (\<exists>i < k. rt_memcmp (s1 + 1 + of_nat i) s2 l m = 0)" using e by blast
      ultimately show ?thesis unfolding r Suc[of "s1 + 1"] by (simp only: if_False)
    qed
  qed
qed simp

text \<open>The characters of a string, with the zero.\<close>

lemma cstring_nth: "cstring m a cs \<Longrightarrow> i \<le> length cs \<Longrightarrow> m (a + of_nat i) = (cs @ [0]) ! i"
proof (induction cs arbitrary: a i)
  case (Cons c cs)
  then show ?case by (cases i) (simp_all flip: add.assoc)
qed simp

lemma cstring_chars: "0 \<notin> set cs \<Longrightarrow> (\<And>i. i \<le> length cs \<Longrightarrow> m (a + of_nat i) = (cs @ [0]) ! i) \<Longrightarrow> cstring m a cs"
proof (induction cs arbitrary: a)
  case Nil
  then show ?case using Nil.prems(2)[of 0] by simp
next
  case (Cons c cs)
  have "m (a + 1 + of_nat i) = (cs @ [0]) ! i" if "i \<le> length cs" for i
    using Cons.prems(2)[of "Suc i"] that by (simp add: add.assoc)
  then have "cstring m (a + 1) cs" using Cons.prems(1) by (intro Cons.IH) auto
  then show ?case using Cons.prems(1) Cons.prems(2)[of 0] by auto
qed

lemma memcmp_at:
  assumes "cstring m a cs" and "cstring m b ds" and "i + length ds \<le> length cs" and "length ds < 2 ^ 32"
  shows "rt_memcmp (a + of_nat i) b (of_nat (length ds)) m = 0 \<longleftrightarrow> take (length ds) (drop i cs) = ds"
proof -
  have u: "unat (of_nat (length ds) :: u32) = length ds" using assms(4) by (simp add: unsigned_of_nat take_bit_nat_eq_self)
  have "m (a + of_nat i + of_nat j) = m (b + of_nat j) \<longleftrightarrow> cs ! (i + j) = ds ! j" if "j < length ds" for j
    using cstring_nth[OF assms(1), of "i + j"] cstring_nth[OF assms(2), of j] that assms(3)
    by (simp add: nth_append add.assoc)
  then have "rt_memcmp (a + of_nat i) b (of_nat (length ds)) m = 0 \<longleftrightarrow> (\<forall>j < length ds. cs ! (i + j) = ds ! j)"
    unfolding memcmp_equal u by blast
  also have "\<dots> \<longleftrightarrow> take (length ds) (drop i cs) = ds" using assms(3) by (auto simp: list_eq_iff_nth_eq)
  finally show ?thesis .
qed

text \<open>
  C31: \<open>rt_strstr\<close> finds the first place of the first string where the second one stands, and returns 0 if there is none, for
  strings whose lengths are non-negative as \<open>int\<close>s.
\<close>

theorem strstr_finds:
  assumes "cstring m a cs" and "cstring m b ds" and "length cs < 2 ^ 31" and "length ds < 2 ^ 31"
  shows "rt_strstr a b m =
    Some (if \<exists>i. i \<le> length cs \<and> take (length ds) (drop i cs) = ds
          then a + of_nat (LEAST i. i \<le> length cs \<and> take (length ds) (drop i cs) = ds) else 0)"
proof (cases "ds = []")
  case True
  have "(LEAST i. i \<le> length cs) = 0" by (intro Least_eq_0) simp
  then show ?thesis using True strlen_length[OF assms(2)] by (auto simp: rt_strstr_def)
next
  case False
  let ?at = "\<lambda>i. i \<le> length cs \<and> take (length ds) (drop i cs) = ds"
  let ?eq = "\<lambda>i. rt_memcmp (a + of_nat i) b (of_nat (length ds)) m = 0"
  define k where "k = nat (int (length cs) - int (length ds) + 1)"
  have eq: "?eq i \<longleftrightarrow> ?at i" if "i < k" for i
    using memcmp_at[OF assms(1,2), of i] that assms(4) by (auto simp: k_def)
  have at: "i < k" if "?at i" for i
  proof -
    have "length (take (length ds) (drop i cs)) = length ds" using that by simp
    then have "length ds \<le> length cs - i" by simp
    moreover have "0 < length ds" using False by simp
    ultimately have "i + length ds \<le> length cs" using that by linarith
    then show ?thesis by (simp add: k_def zless_nat_eq_int_zless)
  qed
  have r: "rt_strstr a b m = Some (strstr_loop k (of_nat (length ds)) a b m)"
  proof -
    have "(of_nat (length ds) :: u32) \<noteq> 0"
      using False assms(4) by (simp add: word_unat_eq_iff unsigned_of_nat take_bit_nat_eq_self)
    moreover have "sint (of_nat (length cs) :: u32) = int (length cs)" "sint (of_nat (length ds) :: u32) = int (length ds)"
      using assms(3,4) by (simp_all add: signed_of_nat signed_take_bit_int_eq_self)
    ultimately show ?thesis
      using strlen_length[OF assms(1)] strlen_length[OF assms(2)] by (simp add: rt_strstr_def k_def)
  qed
  have ex: "(\<exists>i < k. ?eq i) \<longleftrightarrow> (\<exists>i. ?at i)" using eq at by blast
  have "(LEAST i. ?eq i) = (LEAST i. ?at i)" if "\<exists>i. ?at i"
  proof (rule Least_equality)
    have l: "?at (LEAST i. ?at i)" using that by (rule LeastI_ex)
    then show "?eq (LEAST i. ?at i)" using eq at by blast
    show "(LEAST i. ?at i) \<le> i" if "?eq i" for i
    proof (rule ccontr)
      assume "\<not> (LEAST i. ?at i) \<le> i"
      then have "i < (LEAST i. ?at i)" by simp
      then have "i < k" using at[OF l] by simp
      then have "?at i" using eq that by blast
      then show False using not_less_Least[of i ?at] \<open>i < (LEAST i. ?at i)\<close> by blast
    qed
  qed
  then show ?thesis unfolding r strstr_first ex by (cases "\<exists>i. ?at i") (simp_all only: if_True if_False)
qed

theorem strstr_finds_witness:
  "let m = (\<lambda>_. 0)(0x100 := 0x61, 0x101 := 0x62, 0x102 := 0x61, 0x103 := 0x62, 0x200 := 0x62)
   in rt_strstr 0x100 0x200 m = Some 0x101 \<and> rt_strstr 0x200 0x100 m = Some 0"
proof -
  let ?m = "(\<lambda>_. 0)(0x100 := 0x61, 0x101 := 0x62, 0x102 := 0x61, 0x103 := 0x62, 0x200 := 0x62) :: memory"
  have c: "cstring ?m 0x100 [0x61, 0x62, 0x61, 0x62]" "cstring ?m 0x200 [0x62]" by simp_all
  let ?cs = "[0x61, 0x62, 0x61, 0x62] :: u8 list" and ?ds = "[0x62] :: u8 list"
  have b: "length ?cs < 2 ^ 31" "length ?ds < 2 ^ 31" by simp_all
  have ex: "\<exists>i. i \<le> length ?cs \<and> take (length ?ds) (drop i ?cs) = ?ds" by (rule exI[of _ 1]) simp
  have l: "(LEAST i. i \<le> length ?cs \<and> take (length ?ds) (drop i ?cs) = ?ds) = 1"
  proof (rule Least_equality)
    show "1 \<le> i" if "i \<le> length ?cs \<and> take (length ?ds) (drop i ?cs) = ?ds" for i
      using that by (cases i) simp_all
  qed simp
  have "rt_strstr 0x100 0x200 ?m = Some (0x100 + of_nat 1)"
    using strstr_finds[OF c b] by (simp only: l ex if_True)
  then have "rt_strstr 0x100 0x200 ?m = Some 0x101" by simp
  moreover have "rt_strstr 0x200 0x100 ?m = Some 0"
    using strstr_finds[OF c(2,1)] by (simp add: take_Cons' drop_Cons')
  ultimately show ?thesis by (simp only: Let_def)
qed

text \<open>A duplicate is the same string at another place.\<close>

lemma strdup_copies:
  assumes c: "cstring m s cs" and l: "Suc (length cs) < 2 ^ 32"
    and p: "malloc (of_nat (length cs) + 1) = p" "p \<noteq> 0"
    and d: "\<And>i j. i \<le> length cs \<Longrightarrow> j \<le> length cs \<Longrightarrow> p + of_nat i \<noteq> s + of_nat j"
  shows "\<exists>m1. rt_strdup malloc s m = Some (p, m1) \<and> cstring m1 p cs \<and> cstring m1 s cs"
proof -
  let ?n = "of_nat (length cs) + 1 :: u32"
  have n: "unat ?n = Suc (length cs)"
  proof -
    have "?n = of_nat (Suc (length cs))" by simp
    then show ?thesis using l by (simp only: unsigned_of_nat take_bit_nat_eq_self_iff) (simp add: take_bit_nat_eq_self)
  qed
  have cl: "clear (Suc (length cs)) p s" using d by (simp add: clear_def)
  define m1 where "m1 = rt_memcpy p s ?n m"
  have v: "m1 x = (if unat (x - p) < Suc (length cs) then m (s + (x - p)) else m x)" for x
    using memcpy_bytes[of ?n p s m] copy_bytes_value[OF cl] cl l by (simp only: m1_def n)
  have "m1 (p + of_nat i) = (cs @ [0]) ! i" if "i \<le> length cs" for i
    using that l cstring_nth[OF c that] by (simp add: v unsigned_of_nat take_bit_nat_eq_self)
  moreover have "m1 (s + of_nat i) = (cs @ [0]) ! i" if "i \<le> length cs" for i
  proof -
    have "\<not> unat (s + of_nat i - p) < Suc (length cs)"
      using d[of "unat (s + of_nat i - p)" i] that by auto
    then show ?thesis using cstring_nth[OF c that] by (simp only: v if_False)
  qed
  ultimately have "cstring m1 p cs" "cstring m1 s cs" using cstring_set[OF c] by (auto intro: cstring_chars)
  moreover have "rt_strdup malloc s m = Some (p, m1)" using strlen_length[OF c] p by (simp add: rt_strdup_def m1_def)
  ultimately show ?thesis by blast
qed

end
