(* ===== verification/Kserv_Fmt.thy ===== *)
theory Kserv_Fmt
  imports Prelude
begin

unbundle bit_operations_syntax

text \<open>
  Formatted output (\<open>rt_vsnprintf\<close> and \<open>print_number\<close> of \<open>kservice.c\<close>).  The output is the number of characters so far and
  the memory from the start of the buffer on; a character that comes behind the end is counted and not
  stored.  The format has no zero in it; the rest of an empty list is the terminating zero.  A missing argument, or one of
  another type, is \<open>None\<close>.
\<close>

type_synonym outbuf = "nat \<times> (nat \<Rightarrow> u8)"

datatype arg = A_Int u32 | A_Str "u8 list option"

definition ZEROPAD :: u8 where "ZEROPAD = 1"
definition SIGN :: u8 where "SIGN = 2"
definition PLUS :: u8 where "PLUS = 4"
definition SPACE :: u8 where "SPACE = 8"
definition LEFT :: u8 where "LEFT = 16"
definition SPECIAL :: u8 where "SPECIAL = 32"
definition LARGE :: u8 where "LARGE = 64"

definition emit :: "nat \<Rightarrow> u8 \<Rightarrow> outbuf \<Rightarrow> outbuf" where
  "emit e c s = (Suc (fst s), if fst s \<le> e then (snd s)(fst s := c) else snd s)"

definition emits :: "nat \<Rightarrow> u8 list \<Rightarrow> outbuf \<Rightarrow> outbuf" where
  "emits e cs s = fold (emit e) cs s"

section \<open>Numbers\<close>

text \<open>\<open>divide\<close> knows the bases 10 and 16 only.\<close>

definition divisor :: "nat \<Rightarrow> nat" where
  "divisor base = (if base = 10 then 10 else 16)"

function digits_of :: "nat \<Rightarrow> nat \<Rightarrow> nat list" where
  "digits_of base n = (if n = 0 then [] else n mod divisor base # digits_of base (n div divisor base))"
  by auto
termination by (relation "measure snd") (auto simp: divisor_def)

declare digits_of.simps [simp del]

definition digit_char :: "bool \<Rightarrow> nat \<Rightarrow> u8" where
  "digit_char large d = of_nat (if d < 10 then 48 + d else if large then 55 + d else 87 + d)"

text \<open>The digits in the temporary array, the lowest first.\<close>

definition number_tmp :: "bool \<Rightarrow> nat \<Rightarrow> u32 \<Rightarrow> u8 list" where
  "number_tmp large base num = (if num = 0 then [48] else map (digit_char large) (digits_of base (unat num)))"

definition sign_char :: "u8 \<Rightarrow> u32 \<Rightarrow> u8 option" where
  "sign_char type num =
     (if type AND SIGN = 0 then None
      else if sint num < 0 then Some 0x2d
      else if type AND PLUS \<noteq> 0 then Some 0x2b
      else if type AND SPACE \<noteq> 0 then Some 0x20 else None)"

text \<open>\<open>while (size-- > 0)\<close>: the value of \<open>size\<close> afterwards.\<close>

definition run_down :: "int \<Rightarrow> int" where
  "run_down n = (if n > 0 then -1 else n - 1)"

definition print_number :: "nat \<Rightarrow> u32 \<Rightarrow> nat \<Rightarrow> int \<Rightarrow> int \<Rightarrow> u8 \<Rightarrow> outbuf \<Rightarrow> outbuf" where
  "print_number e num base width precision type s =
     (let left = (type AND LEFT \<noteq> 0);
          zeropad = (type AND ZEROPAD \<noteq> 0 \<and> \<not> left);
          c = (if zeropad then 0x30 else 0x20);
          sign = sign_char type num;
          tmp = number_tmp (type AND LARGE \<noteq> 0) base (if sign = Some 0x2d then - num else num);
          prec = max (int (length tmp)) precision;
          size0 = width - prec;
          lead = (if sign \<noteq> None \<and> size0 > 0 then size0 - 1 else size0);
          (s1, size1) = (if zeropad \<or> left then (s, size0) else (emits e (replicate (nat lead) 0x20) s, run_down lead));
          (s2, size2) = (case sign of None \<Rightarrow> (s1, size1) | Some x \<Rightarrow> (emit e x s1, if fst s1 \<le> e then size1 - 1 else size1));
          (s3, size3) = (if left then (s2, size2) else (emits e (replicate (nat size2) c) s2, run_down size2));
          s4 = emits e (replicate (nat (prec - int (length tmp))) 0x30) s3;
          s5 = emits e (rev tmp) s4
      in emits e (replicate (nat size3) 0x20) s5)"

section \<open>Formats\<close>

definition isdigit :: "u8 \<Rightarrow> bool" where
  "isdigit c = (c - 48 < 10)"

definition wrap32 :: "int \<Rightarrow> int" where
  "wrap32 x = sint (of_int x :: 32 word)"

fun skip_atoi :: "int \<Rightarrow> u8 list \<Rightarrow> int \<times> u8 list" where
  "skip_atoi i [] = (i, [])"
| "skip_atoi i (c # cs) = (if isdigit c then skip_atoi (wrap32 (i * 10 + uint c - 48)) cs else (i, c # cs))"

fun fmt_flags :: "u8 \<Rightarrow> u8 list \<Rightarrow> u8 \<times> u8 list" where
  "fmt_flags flags [] = (flags, [])"
| "fmt_flags flags (c # cs) =
     (if c = 0x2d then fmt_flags (flags OR LEFT) cs
      else if c = 0x2b then fmt_flags (flags OR PLUS) cs
      else if c = 0x20 then fmt_flags (flags OR SPACE) cs
      else if c = 0x23 then fmt_flags (flags OR SPECIAL) cs
      else if c = 0x30 then fmt_flags (flags OR ZEROPAD) cs
      else (flags, c # cs))"

definition fmt_width :: "u8 \<Rightarrow> u8 list \<Rightarrow> arg list \<Rightarrow> (int \<times> u8 \<times> u8 list \<times> arg list) option" where
  "fmt_width flags fmt args =
     (case fmt of
        [] \<Rightarrow> Some (-1, flags, [], args)
      | c # cs \<Rightarrow>
          if isdigit c then let (w, rest) = skip_atoi 0 fmt in Some (w, flags, rest, args)
          else if c = 0x2a
          then case args of
                 A_Int a # as \<Rightarrow>
                   Some (if sint a < 0 then (wrap32 (- sint a), flags OR LEFT, cs, as) else (sint a, flags, cs, as))
               | _ \<Rightarrow> None
          else Some (-1, flags, fmt, args))"

definition fmt_precision :: "u8 list \<Rightarrow> arg list \<Rightarrow> (int \<times> u8 list \<times> arg list) option" where
  "fmt_precision fmt args =
     (case fmt of
        [] \<Rightarrow> Some (-1, [], args)
      | c # cs \<Rightarrow>
          if c \<noteq> 0x2e then Some (-1, fmt, args)
          else case cs of
                 [] \<Rightarrow> Some (0, [], args)
               | c1 # cs1 \<Rightarrow>
                   if isdigit c1 then let (p, rest) = skip_atoi 0 cs in Some (max 0 p, rest, args)
                   else if c1 = 0x2a
                   then case args of A_Int a # as \<Rightarrow> Some (max 0 (sint a), cs1, as) | _ \<Rightarrow> None
                   else Some (0, cs, args))"

definition fmt_qualifier :: "u8 list \<Rightarrow> u8 \<times> u8 list" where
  "fmt_qualifier fmt =
     (case fmt of [] \<Rightarrow> (0, []) | c # cs \<Rightarrow> if c = 0x68 \<or> c = 0x6c then (c, cs) else (0, fmt))"

definition number_arg :: "u8 \<Rightarrow> bool \<Rightarrow> u32 \<Rightarrow> u32" where
  "number_arg qualifier sg v =
     (if qualifier = 0x68 then if sg then scast (ucast v :: u16) else ucast (ucast v :: u16) else v)"

definition put_char :: "nat \<Rightarrow> u8 \<Rightarrow> int \<Rightarrow> u8 \<Rightarrow> outbuf \<Rightarrow> outbuf" where
  "put_char e flags width c s =
     (let pad = replicate (nat (width - 1)) 0x20
      in if flags AND LEFT = 0 then emit e c (emits e pad s) else emits e pad (emit e c s))"

definition put_string :: "nat \<Rightarrow> u8 \<Rightarrow> int \<Rightarrow> int \<Rightarrow> u8 list option \<Rightarrow> outbuf \<Rightarrow> outbuf" where
  "put_string e flags width precision str s =
     (let cs = (case str of None \<Rightarrow> [0x28, 0x4e, 0x55, 0x4c, 0x4c, 0x29] | Some cs \<Rightarrow> cs);
          len = (if precision > 0 \<and> int (length cs) > precision then nat precision else length cs);
          pad = replicate (nat (width - int len)) 0x20
      in if flags AND LEFT = 0 then emits e (take len cs) (emits e pad s) else emits e pad (emits e (take len cs) s))"

definition put_number :: "nat \<Rightarrow> u8 \<Rightarrow> u8 \<Rightarrow> int \<Rightarrow> int \<Rightarrow> nat \<Rightarrow> u8 list \<Rightarrow> arg list \<Rightarrow> outbuf \<Rightarrow>
    (u8 list \<times> arg list \<times> outbuf) option" where
  "put_number e qualifier flags width precision base fmt args s =
     (case args of
        A_Int v # as \<Rightarrow>
          Some (fmt, as, print_number e (number_arg qualifier (flags AND SIGN \<noteq> 0) v) base width precision flags s)
      | _ \<Rightarrow> None)"

definition conversion :: "nat \<Rightarrow> u8 \<Rightarrow> u8 \<Rightarrow> int \<Rightarrow> int \<Rightarrow> u8 list \<Rightarrow> arg list \<Rightarrow> outbuf \<Rightarrow>
    (u8 list \<times> arg list \<times> outbuf) option" where
  "conversion e qualifier flags width precision fmt args s =
     (case fmt of
        [] \<Rightarrow> Some ([], args, emit e 0x25 s)
      | c # cs \<Rightarrow>
          if c = 0x63 then (case args of A_Int a # as \<Rightarrow> Some (cs, as, put_char e flags width (ucast a) s) | _ \<Rightarrow> None)
          else if c = 0x73
          then (case args of A_Str a # as \<Rightarrow> Some (cs, as, put_string e flags width precision a s) | _ \<Rightarrow> None)
          else if c = 0x70
          then (case args of
                  A_Int a # as \<Rightarrow>
                    Some (cs, as, if width = -1 then print_number e a 16 8 precision (flags OR ZEROPAD) s
                                  else print_number e a 16 width precision flags s)
                | _ \<Rightarrow> None)
          else if c = 0x25 then Some (cs, args, emit e 0x25 s)
          else if c = 0x6f then put_number e qualifier flags width precision 8 cs args s
          else if c = 0x58 then put_number e qualifier (flags OR LARGE) width precision 16 cs args s
          else if c = 0x78 then put_number e qualifier flags width precision 16 cs args s
          else if c = 0x64 \<or> c = 0x69 then put_number e qualifier (flags OR SIGN) width precision 10 cs args s
          else if c = 0x75 then put_number e qualifier flags width precision 10 cs args s
          else Some (cs, args, emit e c (emit e 0x25 s)))"

text \<open>What follows a percent sign.\<close>

definition directive :: "nat \<Rightarrow> u8 list \<Rightarrow> arg list \<Rightarrow> outbuf \<Rightarrow> (u8 list \<times> arg list \<times> outbuf) option" where
  "directive e fmt args s =
     (let (flags, fmt1) = fmt_flags 0 fmt
      in Option.bind (fmt_width flags fmt1 args) (\<lambda>(width, flags, fmt2, args).
         Option.bind (fmt_precision fmt2 args) (\<lambda>(precision, fmt3, args).
         let (qualifier, fmt4) = fmt_qualifier fmt3
         in conversion e qualifier flags width precision fmt4 args s)))"

lemma skip_atoi_length: "length (snd (skip_atoi i fmt)) \<le> length fmt"
  by (induction i fmt rule: skip_atoi.induct) auto

lemma fmt_flags_length: "length (snd (fmt_flags fl fmt)) \<le> length fmt"
  by (induction fl fmt rule: fmt_flags.induct) auto

lemma fmt_width_length: "fmt_width fl fmt args = Some (w, fl1, fmt1, args1) \<Longrightarrow> length fmt1 \<le> length fmt"
  using skip_atoi_length[of 0 fmt]
  by (auto simp: fmt_width_def Let_def case_prod_beta split: list.splits arg.splits if_splits)

lemma fmt_precision_length: "fmt_precision fmt args = Some (p, fmt1, args1) \<Longrightarrow> length fmt1 \<le> length fmt"
  using skip_atoi_length[of 0 "tl fmt"]
  by (auto simp: fmt_precision_def Let_def case_prod_beta split: list.splits arg.splits if_splits)

lemma fmt_qualifier_length: "length (snd (fmt_qualifier fmt)) \<le> length fmt"
  by (auto simp: fmt_qualifier_def split: list.split)

lemma conversion_length: "conversion e q fl w p fmt args s = Some (fmt1, args1, s1) \<Longrightarrow> length fmt1 \<le> length fmt"
  by (auto simp: conversion_def put_number_def split: list.splits arg.splits if_splits)

lemma directive_length:
  assumes "directive e fmt args s = Some (fmt1, args1, s1)"
  shows "length fmt1 \<le> length fmt"
proof -
  obtain fl f1 where 1: "fmt_flags 0 fmt = (fl, f1)" by fastforce
  from assms obtain w fl2 f2 a2 p f3 a3 where 2: "fmt_width fl f1 args = Some (w, fl2, f2, a2)"
    "fmt_precision f2 a2 = Some (p, f3, a3)" "conversion e (fst (fmt_qualifier f3)) fl2 w p (snd (fmt_qualifier f3)) a3 s = Some (fmt1, args1, s1)"
    by (auto simp: directive_def 1 Let_def case_prod_beta bind_eq_Some_conv)
  show ?thesis
    using fmt_flags_length[of 0 fmt] 1 fmt_width_length[OF 2(1)] fmt_precision_length[OF 2(2)] fmt_qualifier_length[of f3]
      conversion_length[OF 2(3)] by simp
qed

function fmt_loop :: "nat \<Rightarrow> u8 list \<Rightarrow> arg list \<Rightarrow> outbuf \<Rightarrow> outbuf option" where
  "fmt_loop e [] args s = Some s"
| "fmt_loop e (c # cs) args s =
     (if c \<noteq> 0x25 then fmt_loop e cs args (emit e c s)
      else case directive e cs args s of None \<Rightarrow> None | Some (fmt1, args1, s1) \<Rightarrow> fmt_loop e fmt1 args1 s1)"
  by pat_completeness auto
termination
  by (relation "measure (\<lambda>(e, fmt, args, s). length fmt)") (auto dest: directive_length)

text \<open>The offset of the last byte of the buffer; a size of 0, or one that reaches over the end of the memory, means no bound.\<close>

definition last_offset :: "u32 \<Rightarrow> u32 \<Rightarrow> nat" where
  "last_offset buf n = (let e = buf + n - 1 in if e < buf then unat (0xFFFFFFFF - buf) else unat (e - buf))"

definition rt_vsnprintf :: "u32 \<Rightarrow> u32 \<Rightarrow> u8 list \<Rightarrow> arg list \<Rightarrow> (nat \<Rightarrow> u8) \<Rightarrow> (nat \<times> (nat \<Rightarrow> u8)) option" where
  "rt_vsnprintf buf n fmt args mem =
     (let e = last_offset buf n
      in map_option (\<lambda>(k, m). (k, if k \<le> e then m(k := 0) else m(e := 0))) (fmt_loop e fmt args (0, mem)))"

definition rt_snprintf :: "u32 \<Rightarrow> u32 \<Rightarrow> u8 list \<Rightarrow> arg list \<Rightarrow> (nat \<Rightarrow> u8) \<Rightarrow> (nat \<times> (nat \<Rightarrow> u8)) option" where
  "rt_snprintf buf n fmt args mem = rt_vsnprintf buf n fmt args mem"

definition rt_vsprintf :: "u32 \<Rightarrow> u8 list \<Rightarrow> arg list \<Rightarrow> (nat \<Rightarrow> u8) \<Rightarrow> (nat \<times> (nat \<Rightarrow> u8)) option" where
  "rt_vsprintf buf fmt args mem = rt_vsnprintf buf (-1) fmt args mem"

definition rt_sprintf :: "u32 \<Rightarrow> u8 list \<Rightarrow> arg list \<Rightarrow> (nat \<Rightarrow> u8) \<Rightarrow> (nat \<times> (nat \<Rightarrow> u8)) option" where
  "rt_sprintf buf fmt args mem = rt_vsprintf buf fmt args mem"

section \<open>Buffers of different sizes\<close>

text \<open>
  Two runs into buffers that end at \<open>e\<close> and at \<open>e'\<close>, which is not before: they agree up to \<open>e\<close>, and on the number of
  characters unless both are beyond it.
\<close>

definition same_text :: "nat \<Rightarrow> outbuf \<Rightarrow> outbuf \<Rightarrow> bool" where
  "same_text e s s' \<longleftrightarrow> (\<forall>i \<le> e. snd s i = snd s' i) \<and> (fst s = fst s' \<or> e < fst s \<and> e < fst s')"

lemma emits_simps [simp]:
  "emits e [] s = s" "emits e (c # cs) s = emits e cs (emit e c s)" "emits e (cs @ ds) s = emits e ds (emits e cs s)"
  by (simp_all add: emits_def)

lemma emits_pos [simp]: "fst (emit e c s) = Suc (fst s)" "fst (emits e cs s) = fst s + length cs"
proof -
  show "fst (emits e cs s) = fst s + length cs" by (induction cs arbitrary: s) (simp_all add: emit_def)
qed (simp add: emit_def)

lemma emits_mem: "snd (emits e cs s) i = (if fst s \<le> i \<and> i < fst s + length cs \<and> i \<le> e then cs ! (i - fst s) else snd s i)"
proof (induction cs arbitrary: s)
  case (Cons c cs)
  then show ?case by (cases "i = fst s") (auto simp: emit_def nth_Cons')
qed auto

lemma emit_emits: "emit e c s = emits e [c] s"
  by simp

lemma same_emits: "same_text e s s' \<Longrightarrow> e \<le> e' \<Longrightarrow> same_text e (emits e cs s) (emits e' cs s')"
  by (auto simp: same_text_def emits_mem)

lemma same_emit: "same_text e s s' \<Longrightarrow> e \<le> e' \<Longrightarrow> same_text e (emit e c s) (emit e' c s')"
  unfolding emit_emits by (rule same_emits)

text \<open>Beyond the end the texts may differ.\<close>

lemma beyond_emits:
  assumes "same_text e s s'" and "e < fst s" and "e < fst s'"
  shows "same_text e (emits e cs s) (emits e' ds s')"
  using assms by (auto simp: same_text_def emits_mem)

text \<open>The text of a number: blanks in front, and the rest, which depends on whether its sign was stored.\<close>

definition number_shape :: "u32 \<Rightarrow> nat \<Rightarrow> int \<Rightarrow> int \<Rightarrow> u8 \<Rightarrow> u8 option \<times> u8 list \<times> int \<times> int" where
  "number_shape num base width precision type =
     (let sign = sign_char type num;
          tmp = number_tmp (type AND LARGE \<noteq> 0) base (if sign = Some 0x2d then - num else num);
          prec = max (int (length tmp)) precision
      in (sign, tmp, prec, width - prec))"

definition number_lead :: "u32 \<Rightarrow> nat \<Rightarrow> int \<Rightarrow> int \<Rightarrow> u8 \<Rightarrow> u8 list" where
  "number_lead num base width precision type =
     (let (sign, tmp, prec, n) = number_shape num base width precision type
      in if type AND ZEROPAD \<noteq> 0 \<or> type AND LEFT \<noteq> 0 then []
         else replicate (nat (if sign \<noteq> None \<and> n > 0 then n - 1 else n)) 0x20)"

definition number_tail :: "bool \<Rightarrow> u32 \<Rightarrow> nat \<Rightarrow> int \<Rightarrow> int \<Rightarrow> u8 \<Rightarrow> u8 list" where
  "number_tail stored num base width precision type =
     (let (sign, tmp, prec, n) = number_shape num base width precision type;
          m = nat (if sign \<noteq> None \<and> stored then n - 1 else n);
          digits = replicate (nat (prec - int (length tmp))) 0x30 @ rev tmp
      in (case sign of None \<Rightarrow> [] | Some x \<Rightarrow> [x]) @
         (if type AND LEFT \<noteq> 0 then digits @ replicate m 0x20
          else if type AND ZEROPAD \<noteq> 0 then replicate m 0x30 @ digits else digits))"

definition number_steps :: "nat \<Rightarrow> bool \<Rightarrow> bool \<Rightarrow> u8 option \<Rightarrow> u8 list \<Rightarrow> int \<Rightarrow> int \<Rightarrow> outbuf \<Rightarrow> outbuf" where
  "number_steps e left zeropad sign tmp prec n s =
     (let lead = (if sign \<noteq> None \<and> n > 0 then n - 1 else n);
          (s1, size1) = (if zeropad \<or> left then (s, n) else (emits e (replicate (nat lead) 0x20) s, run_down lead));
          (s2, size2) = (case sign of None \<Rightarrow> (s1, size1) | Some x \<Rightarrow> (emit e x s1, if fst s1 \<le> e then size1 - 1 else size1));
          (s3, size3) = (if left then (s2, size2)
            else (emits e (replicate (nat size2) (if zeropad then 0x30 else 0x20)) s2, run_down size2));
          s4 = emits e (replicate (nat (prec - int (length tmp))) 0x30) s3;
          s5 = emits e (rev tmp) s4
      in emits e (replicate (nat size3) 0x20) s5)"

lemma nat_run_down [simp]: "nat (run_down n) = 0" "nat (run_down n - 1) = 0" "run_down n < 0"
  by (simp_all add: run_down_def)

lemma number_steps_text:
  "number_steps e left zeropad sign tmp prec n s =
     (let s1 = emits e (if zeropad \<or> left then [] else replicate (nat (if sign \<noteq> None \<and> n > 0 then n - 1 else n)) 0x20) s;
          m = nat (if sign \<noteq> None \<and> fst s1 \<le> e then n - 1 else n);
          digits = replicate (nat (prec - int (length tmp))) 0x30 @ rev tmp
      in emits e ((case sign of None \<Rightarrow> [] | Some x \<Rightarrow> [x]) @
           (if left then digits @ replicate m 0x20 else if zeropad then replicate m 0x30 @ digits else digits)) s1)"
  by (cases sign; cases left; cases zeropad) (simp_all add: number_steps_def Let_def)

lemma print_number_text:
  "print_number e num base width precision type s =
     (let s1 = emits e (number_lead num base width precision type) s
      in emits e (number_tail (fst s1 \<le> e) num base width precision type) s1)"
proof -
  obtain sign tmp prec n where sh: "number_shape num base width precision type = (sign, tmp, prec, n)" by (metis prod_cases4)
  let ?l = "type AND LEFT \<noteq> 0" and ?z = "type AND ZEROPAD \<noteq> 0"
  have eq: "sign = sign_char type num"
    "tmp = number_tmp (type AND LARGE \<noteq> 0) base (if sign_char type num = Some 0x2d then - num else num)"
    "prec = max (int (length tmp)) precision" "n = width - prec"
    using sh by (auto simp: number_shape_def Let_def)
  have "print_number e num base width precision type s = number_steps e ?l (?z \<and> \<not> ?l) sign tmp prec n s"
    by (simp only: print_number_def number_steps_def Let_def eq)
  then show ?thesis
    by (cases ?l; cases ?z) (simp_all add: number_steps_text number_lead_def number_tail_def sh Let_def)
qed

lemma same_number:
  assumes "same_text e s s'" and "e \<le> e'"
  shows "same_text e (print_number e num base width precision type s) (print_number e' num base width precision type s')"
proof -
  let ?s1 = "emits e (number_lead num base width precision type) s"
  let ?s1' = "emits e' (number_lead num base width precision type) s'"
  have s1: "same_text e ?s1 ?s1'" by (rule same_emits[OF assms])
  show ?thesis
  proof (cases "(fst ?s1 \<le> e) = (fst ?s1' \<le> e')")
    case True
    then show ?thesis using same_emits[OF s1 assms(2)] by (simp add: print_number_text Let_def)
  next
    case False
    then have "e < fst ?s1" "e < fst ?s1'" using s1 assms(2) by (auto simp: same_text_def)
    then show ?thesis using beyond_emits[OF s1] by (simp add: print_number_text Let_def)
  qed
qed

lemma same_put:
  assumes "same_text e s s'" and "e \<le> e'"
  shows "same_text e (put_char e fl w c s) (put_char e' fl w c s')"
    "same_text e (put_string e fl w p str s) (put_string e' fl w p str s')"
  using assms by (simp_all add: put_char_def put_string_def Let_def same_emits same_emit)

definition same_result :: "nat \<Rightarrow> ('a \<times> 'b \<times> outbuf) option \<Rightarrow> ('a \<times> 'b \<times> outbuf) option \<Rightarrow> bool" where
  "same_result e r r' \<longleftrightarrow>
     (case r of None \<Rightarrow> r' = None | Some (f, a, s) \<Rightarrow> \<exists>s'. r' = Some (f, a, s') \<and> same_text e s s')"

lemma same_resultI:
  "same_result e None None" "same_text e s s' \<Longrightarrow> same_result e (Some (f, a, s)) (Some (f, a, s'))"
  by (simp_all add: same_result_def)

lemma same_put_number:
  "same_text e s s' \<Longrightarrow> e \<le> e' \<Longrightarrow> same_result e (put_number e q fl w p base fmt args s) (put_number e' q fl w p base fmt args s')"
  by (auto simp: put_number_def intro!: same_resultI same_number split: list.split arg.split)

lemma same_if:
  "(b \<Longrightarrow> same_result e x x') \<Longrightarrow> (\<not> b \<Longrightarrow> same_result e y y') \<Longrightarrow> same_result e (if b then x else y) (if b then x' else y')"
  by simp

lemma same_args:
  "(\<And>a as. same_result e (f a as) (f' a as)) \<Longrightarrow>
     same_result e (case args of A_Int a # as \<Rightarrow> f a as | _ \<Rightarrow> None) (case args of A_Int a # as \<Rightarrow> f' a as | _ \<Rightarrow> None)"
  "(\<And>a as. same_result e (g a as) (g' a as)) \<Longrightarrow>
     same_result e (case args of A_Str a # as \<Rightarrow> g a as | _ \<Rightarrow> None) (case args of A_Str a # as \<Rightarrow> g' a as | _ \<Rightarrow> None)"
  by (auto simp: same_resultI split: list.split arg.split)

lemma same_conversion:
  assumes "same_text e s s'" and "e \<le> e'"
  shows "same_result e (conversion e q fl w p fmt args s) (conversion e' q fl w p fmt args s')"
proof (cases fmt)
  case Nil
  then show ?thesis using same_emit[OF assms] by (simp add: conversion_def same_resultI)
next
  case (Cons c cs)
  have p: "same_text e (if b then print_number e x 16 8 p fl s else print_number e x 16 w p fl' s)
      (if b then print_number e' x 16 8 p fl s' else print_number e' x 16 w p fl' s')" for b x fl fl'
    using same_number[OF assms] by simp
  show ?thesis unfolding conversion_def Cons list.case
    by (intro same_if same_args same_resultI same_put[OF assms] same_emit[OF same_emit[OF assms] assms(2)] same_emit[OF assms]
        same_put_number[OF assms] p)
qed

lemma same_directive:
  assumes "same_text e s s'" and "e \<le> e'"
  shows "same_result e (directive e fmt args s) (directive e' fmt args s')"
  using same_conversion[OF assms]
  by (auto simp: directive_def Let_def case_prod_beta same_resultI split: Option.bind_split)

lemma same_loop:
  assumes "same_text e s s'" and "e \<le> e'"
  shows "rel_option (same_text e) (fmt_loop e fmt args s) (fmt_loop e' fmt args s')"
  using assms(1)
proof (induction "length fmt" arbitrary: fmt args s s' rule: less_induct)
  case less
  show ?case
  proof (cases fmt)
    case Nil
    then show ?thesis using less.prems by simp
  next
    case (Cons c cs)
    show ?thesis
    proof (cases "c = 0x25")
      case True
      note d = same_directive[OF less.prems assms(2), of cs args]
      show ?thesis
      proof (cases "directive e cs args s")
        case None
        then show ?thesis using d True Cons by (simp add: same_result_def)
      next
        case (Some r)
        obtain f a s1 where r: "r = (f, a, s1)" by (metis prod_cases3)
        obtain s1' where s1: "directive e' cs args s' = Some (f, a, s1')" "same_text e s1 s1'"
          using d Some r by (auto simp: same_result_def)
        have "length f < length fmt" using directive_length[of e cs args s] Some r Cons by simp
        from less.hyps[OF this s1(2)] show ?thesis using Some r s1(1) True Cons by simp
      qed
    next
      case False
      have "length cs < length fmt" using Cons by simp
      from less.hyps[OF this same_emit[OF less.prems assms(2)]] show ?thesis using Cons False by simp
    qed
  qed
qed

text \<open>A run only adds to the text.\<close>

lemma conversion_emits: "conversion e q fl w p fmt args s = Some (f, a, s1) \<Longrightarrow> \<exists>cs. s1 = emits e cs s"
proof -
  have n: "\<exists>cs. print_number e num base w p fl s = emits e cs s" for num base w p fl
    by (simp add: print_number_text Let_def flip: emits_simps(3)) blast
  have c: "\<exists>cs. put_char e fl w c s = emits e cs s" for fl c w
    by (simp add: put_char_def Let_def emit_emits del: emits_simps(1,2) flip: emits_simps(3)) blast
  have t: "\<exists>cs. put_string e fl w p str s = emits e cs s" for fl w p str
    by (simp add: put_string_def Let_def flip: emits_simps(3)) blast
  have p: "put_number e q fl w p base fmt args s = Some (f, a, s1) \<Longrightarrow> \<exists>cs. s1 = emits e cs s" for fl base fmt
    using n by (auto simp: put_number_def split: list.splits arg.splits)
  have m: "\<exists>cs. emit e x s = emits e cs s" "\<exists>cs. emit e y (emit e x s) = emits e cs s" for x y
    by (metis emits_simps(1,2))+
  assume "conversion e q fl w p fmt args s = Some (f, a, s1)"
  then show ?thesis using n c t p m
    by (auto simp: conversion_def split: list.splits arg.splits if_splits)
qed

lemma loop_emits: "fmt_loop e fmt args s = Some s1 \<Longrightarrow> \<exists>cs. s1 = emits e cs s"
proof (induction e fmt args s rule: fmt_loop.induct)
  case (1 e args s)
  then show ?case by (metis emits_simps(1) fmt_loop.simps(1) option.inject)
next
  case (2 e c cs args s)
  show ?case
  proof (cases "c = 0x25")
    case True
    then obtain f a s2 where d: "directive e cs args s = Some (f, a, s2)" "fmt_loop e f a s2 = Some s1"
      using "2.prems" by (auto split: option.splits)
    have "\<exists>ds. s1 = emits e ds s2" using "2.IH"(2)[of "(f, a, s2)" f "(a, s2)" a s2] True d by simp
    moreover have "\<exists>ds. s2 = emits e ds s"
      using d(1) by (auto simp: directive_def Let_def case_prod_beta bind_eq_Some_conv intro: conversion_emits)
    ultimately show ?thesis by (metis emits_simps(3))
  next
    case False
    then have "\<exists>ds. s1 = emits e ds (emit e c s)" using "2.IH"(1) "2.prems" by simp
    then show ?thesis by (metis emits_simps(2))
  qed
qed

lemma last_offset_size:
  assumes "0 < n" and "unat buf + unat n \<le> 2 ^ 32"
  shows "last_offset buf n = unat n - 1"
proof -
  have "n \<noteq> 0" using assms(1) by auto
  then have n: "unat (n - 1) = unat n - 1" "0 < unat n" by (simp_all add: unat_minus_one unat_gt_0)
  have "unat (buf + (n - 1)) = unat buf + (unat n - 1)"
    using iffD1[OF unat_add_lem, of buf "n - 1"] assms(2) n by simp
  then have "\<not> buf + n - 1 < buf" by (simp add: word_less_nat_alt algebra_simps)
  moreover have "buf + n - 1 - buf = n - 1" by simp
  ultimately show ?thesis by (simp only: last_offset_def Let_def if_False n(1))
qed

text \<open>C32: What \<open>rt_vsnprintf\<close> writes into a small buffer is what it writes into a large one, cut off one byte before the end and
  closed by a zero; nothing behind the buffer changes, and the result is the length of the whole text if that fits and at
  least the size of the buffer if it does not.\<close>

theorem vsnprintf_truncates:
  assumes "0 < n" and "n \<le> n'" and "unat buf + unat n' \<le> 2 ^ 32"
    and "rt_vsnprintf buf n' fmt args mem = Some (k', m')"
  shows "\<exists>k m. rt_vsnprintf buf n fmt args mem = Some (k, m) \<and> (\<forall>i \<ge> unat n. m i = mem i) \<and>
    (if k' < unat n then k = k' \<and> (\<forall>i < k. m i = m' i) \<and> m k = 0
     else unat n \<le> k \<and> (\<forall>i < unat n - 1. m i = m' i) \<and> m (unat n - 1) = 0)"
proof -
  have n: "0 < unat n" "unat n \<le> unat n'" using assms(1,2) by (simp_all add: word_less_nat_alt word_le_nat_alt)
  then have "0 < n'" by (simp add: word_less_nat_alt)
  then have e': "last_offset buf n' = unat n' - 1" by (rule last_offset_size[OF _ assms(3)])
  have e: "last_offset buf n = unat n - 1" using last_offset_size[OF assms(1), of buf] assms(3) n by simp
  obtain b' where r': "fmt_loop (unat n' - 1) fmt args (0, mem) = Some (k', b')"
    "m' = (if k' \<le> unat n' - 1 then b'(k' := 0) else b'(unat n' - 1 := 0))"
    using assms(4) by (auto simp: rt_vsnprintf_def e' Let_def)
  have "same_text (unat n - 1) (0, mem) (0, mem)" by (simp add: same_text_def)
  then have "rel_option (same_text (unat n - 1)) (fmt_loop (unat n - 1) fmt args (0, mem)) (Some (k', b'))"
    using same_loop[of "unat n - 1" "(0, mem)" "(0, mem)" "unat n' - 1" fmt args] n r'(1) by simp
  then obtain k b where r: "fmt_loop (unat n - 1) fmt args (0, mem) = Some (k, b)" "same_text (unat n - 1) (k, b) (k', b')"
    by (auto simp: option_rel_Some2)
  obtain cs where cs: "(k, b) = emits (unat n - 1) cs (0, mem)" using loop_emits[OF r(1)] by blast
  have f: "b i = mem i" if "unat n \<le> i" for i
    using emits_mem[of "unat n - 1" cs "(0, mem)" i] cs[symmetric] that n(1) by auto
  have s: "\<forall>i \<le> unat n - 1. b i = b' i" "k = k' \<or> unat n \<le> k \<and> unat n \<le> k'" using r(2) n(1) by (auto simp: same_text_def)
  let ?m = "if k \<le> unat n - 1 then b(k := 0) else b(unat n - 1 := 0)"
  have "rt_vsnprintf buf n fmt args mem = Some (k, ?m)"
    unfolding rt_vsnprintf_def e Let_def r(1) by simp
  moreover have "\<forall>i \<ge> unat n. ?m i = mem i" using f n(1) by auto
  moreover have "if k' < unat n then k = k' \<and> (\<forall>i < k. ?m i = m' i) \<and> ?m k = 0
     else unat n \<le> k \<and> (\<forall>i < unat n - 1. ?m i = m' i) \<and> ?m (unat n - 1) = 0"
    using s n by (auto simp: r'(2))
  ultimately show ?thesis by blast
qed

section \<open>Numbers are read back\<close>

lemma wrap32_step: "wrap32 (wrap32 x * 10 + y) = wrap32 (x * 10 + y)"
  by (simp add: wrap32_def)

lemma wrap32_sint [simp]: "wrap32 (sint (v :: 32 word)) = sint v" "wrap32 (uint v) = sint v"
  by (simp_all add: wrap32_def)

lemma digit_char_props:
  assumes "d < 10"
  shows "isdigit (digit_char l d)" "uint (digit_char l d) = 48 + int d"
proof -
  have "d \<in> {0, 1, 2, 3, 4, 5, 6, 7, 8, 9}" using assms by auto
  then show "isdigit (digit_char l d)" "uint (digit_char l d) = 48 + int d"
    by (auto simp: isdigit_def digit_char_def)
qed

lemma read_digits:
  "skip_atoi 0 (map (digit_char l) (rev (digits_of 10 n)) @ rest) = skip_atoi (wrap32 (int n)) rest"
proof (induction n arbitrary: rest rule: less_induct)
  case (less n)
  show ?case
  proof (cases "n = 0")
    case True
    then show ?thesis by (simp add: digits_of.simps wrap32_def)
  next
    case False
    have d: "n mod 10 < 10" by simp
    have "digits_of 10 n = n mod 10 # digits_of 10 (n div 10)" using False by (subst digits_of.simps) (simp add: divisor_def)
    then have "skip_atoi 0 (map (digit_char l) (rev (digits_of 10 n)) @ rest) =
        skip_atoi (wrap32 (int (n div 10))) (digit_char l (n mod 10) # rest)"
      using less[of "n div 10" "digit_char l (n mod 10) # rest"] False by simp
    also have "\<dots> = skip_atoi (wrap32 (int (n div 10) * 10 + int (n mod 10))) rest"
      using digit_char_props[OF d, of l] wrap32_step[of "int (n div 10)" "int (n mod 10)"] by simp
    also have "int (n div 10) * 10 + int (n mod 10) = int n" by (metis div_mult_mod_eq of_nat_add of_nat_mult of_nat_numeral)
    finally show ?thesis .
  qed
qed

lemma read_number: "skip_atoi 0 (rev (number_tmp l 10 v)) = (sint v, [])"
proof (cases "v = 0")
  case False
  then show ?thesis using read_digits[of l "unat v" "[]"] by (simp add: number_tmp_def rev_map)
qed (simp add: number_tmp_def isdigit_def wrap32_def)

lemma digits_length: "n < 10 ^ k \<Longrightarrow> length (digits_of 10 n) \<le> k"
proof (induction k arbitrary: n)
  case (Suc k)
  then have "n div 10 < 10 ^ k" by (simp add: less_mult_imp_div_less mult.commute)
  then show ?case using Suc.IH by (subst digits_of.simps) (simp add: divisor_def)
qed (simp add: digits_of.simps)

lemma number_length: "length (number_tmp l 10 v) \<le> 10" "0 < length (number_tmp l 10 v)"
proof -
  have "unat v < 10 ^ 10" using unsigned_less[of v, where ?'a = nat] by simp
  then show "length (number_tmp l 10 v) \<le> 10" using digits_length[of "unat v" 10] by (simp add: number_tmp_def)
  show "0 < length (number_tmp l 10 v)" by (auto simp: number_tmp_def digits_of.simps[of 10 "unat v"] unat_eq_0)
qed

definition int_text :: "u32 \<Rightarrow> u8 list" where
  "int_text v = (if sint v < 0 then 0x2d # rev (number_tmp False 10 (- v)) else rev (number_tmp False 10 v))"

lemma print_plain: "print_number e v 10 (-1) (-1) SIGN s = emits e (int_text v) s"
proof -
  have "nat (- 1 - int k) = 0" "nat (- 1 - int k - 1) = 0" for k by simp_all
  then show ?thesis
    using number_length(2)[of False v] number_length(2)[of False "- v"]
    by (auto simp: print_number_text number_lead_def number_tail_def number_shape_def int_text_def sign_char_def
        Let_def SIGN_def PLUS_def SPACE_def ZEROPAD_def LEFT_def LARGE_def max_def)
qed

lemma decimal_directive: "fmt_loop e [0x25, 0x64] [A_Int v] s = Some (emits e (int_text v) s)"
proof -
  have "directive e [0x64] [A_Int v] s = Some ([], [], print_number e v 10 (-1) (-1) SIGN s)"
    by (simp add: directive_def fmt_width_def fmt_precision_def fmt_qualifier_def conversion_def put_number_def
        number_arg_def isdigit_def)
  then show ?thesis by (simp add: print_plain)
qed

text \<open>C33: A number that is printed with \<open>%d\<close> takes at most eleven characters and a zero, and is read back by the program's own
  reader of numbers, behind a minus sign if it is negative.\<close>

theorem number_roundtrip:
  assumes "2 \<le> buf" and "unat buf + 12 \<le> 2 ^ 32"
  shows "\<exists>text m. rt_sprintf buf [0x25, 0x64] [A_Int v] mem = Some (length text, m) \<and> length text \<le> 11 \<and>
    (\<forall>i < length text. m i = text ! i) \<and> m (length text) = 0 \<and> (\<forall>i > length text. m i = mem i) \<and>
    (if 0 \<le> sint v then skip_atoi 0 text = (sint v, [])
     else \<exists>ds. text = 0x2d # ds \<and> skip_atoi 0 ds = (wrap32 (- sint v), []))"
proof -
  let ?e = "last_offset buf (- 1)" and ?t = "int_text v"
  have l: "length ?t \<le> 11" using number_length(1)[of False v] number_length(1)[of False "- v"] by (simp add: int_text_def)
  have e: "11 \<le> ?e"
  proof -
    have "buf + - 1 - 1 = buf - 2" by simp
    moreover have "buf - 2 < buf" using assms(1) by unat_arith
    ultimately have "?e = unat (0xFFFFFFFF - buf)" by (simp add: last_offset_def Let_def)
    also have "\<dots> = 0xFFFFFFFF - unat buf"
      by (subst unat_sub) (simp_all add: word_le_nat_alt, use assms(2) in simp)
    finally show ?thesis using assms(2) by simp
  qed
  have le: "length ?t \<le> ?e" using l e by linarith
  obtain k b where kb: "emits ?e ?t (0, mem) = (k, b)" by fastforce
  then have k: "k = length ?t" using emits_pos(2)[of ?e ?t "(0, mem)"] by simp
  have b: "b i = (if i < length ?t \<and> i \<le> ?e then ?t ! i else mem i)" for i
    using emits_mem[of ?e ?t "(0, mem)" i] kb by simp
  have "rt_sprintf buf [0x25, 0x64] [A_Int v] mem = Some (length ?t, b(length ?t := 0))"
    unfolding rt_sprintf_def rt_vsprintf_def rt_vsnprintf_def Let_def decimal_directive kb using le k by simp
  moreover have "if 0 \<le> sint v then skip_atoi 0 ?t = (sint v, [])
     else \<exists>ds. ?t = 0x2d # ds \<and> skip_atoi 0 ds = (wrap32 (- sint v), [])"
    by (auto simp: int_text_def read_number wrap32_def)
  ultimately show ?thesis using l le b by (intro exI[of _ ?t] exI[of _ "b(length ?t := 0)"]) simp
qed

theorem number_roundtrip_witness:
  "\<exists>text m. rt_sprintf 0x1000 [0x25, 0x64] [A_Int (- 273)] (\<lambda>_. 0) = Some (length text, m) \<and>
     (\<exists>ds. text = 0x2d # ds \<and> skip_atoi 0 ds = (273, []))"
  using number_roundtrip[of "0x1000" "- 273" "\<lambda>_. 0"] by (auto simp: wrap32_def)

text \<open>A text of three characters with room for one.\<close>

theorem vsnprintf_truncates_witness:
  "\<exists>k m. rt_vsnprintf 0x1000 2 [0x61, 0x62, 0x63] [] (\<lambda>_. 7) = Some (k, m) \<and> 2 \<le> k \<and> m 0 = 0x61 \<and> m 1 = 0 \<and> m 2 = 7"
proof -
  have e: "last_offset 0x1000 9 = 8" using last_offset_size[of 9 "0x1000"] by simp
  let ?m = "(\<lambda>_. 7)(0 := 0x61, Suc 0 := 0x62, Suc (Suc 0) := 0x63, Suc (Suc (Suc 0)) := 0)"
  have r: "rt_vsnprintf 0x1000 9 [0x61, 0x62, 0x63] [] (\<lambda>_. 7) = Some (Suc (Suc (Suc 0)), ?m)"
    by (simp add: rt_vsnprintf_def e emit_def Let_def)
  show ?thesis using vsnprintf_truncates[OF _ _ _ r, of 2] by fastforce
qed

section \<open>Defects\<close>

text \<open>An octal number is printed in hexadecimal.\<close>

lemma octal_is_hexadecimal: "print_number e v 8 w p type s = print_number e v 16 w p type s"
proof -
  have d: "digits_of 8 n = digits_of 16 n" for n
  proof (induction n rule: less_induct)
    case (less n)
    show ?case by (subst (1 2) digits_of.simps) (use less.IH[of "n div 16"] in \<open>simp add: divisor_def\<close>)
  qed
  have "number_tmp l 8 n = number_tmp l 16 n" for l n by (simp add: number_tmp_def d)
  then show ?thesis by (simp only: print_number_def)
qed

text \<open>With size 0 the buffer has no end.\<close>

lemma size_zero_unbounded: "\<exists>m. rt_vsnprintf 0x1000 0 [0x61] [] mem = Some (1, m) \<and> m 0 = 0x61 \<and> m 1 = 0"
  by (simp add: rt_vsnprintf_def last_offset_def Let_def emit_def)

text \<open>
  A sign that does not fit is not taken off the width: the length that is returned for a truncated text is one too large.
\<close>

lemma truncated_sign_counted_twice:
  assumes "type AND ZEROPAD \<noteq> 0" and "type AND LEFT = 0" and "sign_char type v = Some x" and "e < fst s" and "fst s \<le> e'"
    and "int (length (number_tmp (type AND LARGE \<noteq> 0) base (if x = 0x2d then - v else v))) < w"
  shows "fst (print_number e v base w (-1) type s) = fst (print_number e' v base w (-1) type s) + 1"
  using assms by (simp add: print_number_text number_lead_def number_tail_def number_shape_def Let_def max_def)

end
