(* ===== verification/Ring_Buffer.thy ===== *)
theory Ring_Buffer
  imports Queue_Iface
begin

text \<open>
  The byte ring of the device drivers (\<open>ringbuffer.c\<close>, the inline functions of \<open>rtdevice.h\<close>).
  Each index has a mirror bit that flips when it goes round, which tells a full
  ring from an empty one.  The source of a block write is memory behind a pointer: a function
  of the offset, because the code can read past the block the caller names.
\<close>

section \<open>State and operations\<close>

record ringbuffer =
  buffer_ptr :: "u8 list"
  read_mirror :: bool
  read_index :: nat
  write_mirror :: bool
  write_index :: nat
  buffer_size :: nat

datatype ringbuffer_state = RT_RINGBUFFER_EMPTY | RT_RINGBUFFER_FULL | RT_RINGBUFFER_HALFFULL

definition rt_ringbuffer_init :: "u8 list \<Rightarrow> nat \<Rightarrow> ringbuffer" where
  "rt_ringbuffer_init pool n =
     \<lparr>buffer_ptr = pool, read_mirror = False, read_index = 0, write_mirror = False, write_index = 0,
      buffer_size = n div 8 * 8\<rparr>"

definition rt_ringbuffer_status :: "ringbuffer \<Rightarrow> ringbuffer_state" where
  "rt_ringbuffer_status rb =
     (if read_index rb = write_index rb
      then if read_mirror rb = write_mirror rb then RT_RINGBUFFER_EMPTY else RT_RINGBUFFER_FULL
      else RT_RINGBUFFER_HALFFULL)"

definition rt_ringbuffer_data_len :: "ringbuffer \<Rightarrow> nat" where
  "rt_ringbuffer_data_len rb =
     (case rt_ringbuffer_status rb of
        RT_RINGBUFFER_EMPTY \<Rightarrow> 0
      | RT_RINGBUFFER_FULL \<Rightarrow> buffer_size rb
      | RT_RINGBUFFER_HALFFULL \<Rightarrow>
          if write_index rb > read_index rb then write_index rb - read_index rb
          else buffer_size rb - (read_index rb - write_index rb))"

definition rt_ringbuffer_space_len :: "ringbuffer \<Rightarrow> nat" where
  "rt_ringbuffer_space_len rb = buffer_size rb - rt_ringbuffer_data_len rb"

text \<open>The copy in both block writes.\<close>

definition ring_copy :: "(nat \<Rightarrow> u8) \<Rightarrow> nat \<Rightarrow> ringbuffer \<Rightarrow> ringbuffer" where
  "ring_copy ptr len rb =
     (let w = write_index rb; k = buffer_size rb - w
      in if k > len
         then rb\<lparr>buffer_ptr := buf_put w (map ptr [0..<len]) (buffer_ptr rb), write_index := w + len\<rparr>
         else rb\<lparr>buffer_ptr := buf_put 0 (map ptr [k..<len]) (buf_put w (map ptr [0..<k]) (buffer_ptr rb)),
                 write_mirror := \<not> write_mirror rb, write_index := len - k\<rparr>)"

definition rt_ringbuffer_put :: "(nat \<Rightarrow> u8) \<Rightarrow> nat \<Rightarrow> ringbuffer \<Rightarrow> nat \<times> ringbuffer" where
  "rt_ringbuffer_put ptr len rb =
     (let n = rt_ringbuffer_space_len rb
      in if n = 0 then (0, rb)
         else let l = (if n < len then n else len) in (l, ring_copy ptr l rb))"

definition rt_ringbuffer_put_force :: "(nat \<Rightarrow> u8) \<Rightarrow> nat \<Rightarrow> ringbuffer \<Rightarrow> nat \<times> ringbuffer" where
  "rt_ringbuffer_put_force ptr len rb =
     (let space = rt_ringbuffer_space_len rb; l = (if len > space then buffer_size rb else len);
          rb1 = ring_copy ptr l rb
      in (l, if l > space
             then if buffer_size rb - write_index rb > l then rb1\<lparr>read_index := write_index rb1\<rparr>
                  else rb1\<lparr>read_mirror := \<not> read_mirror rb1, read_index := write_index rb1\<rparr>
             else rb1))"

definition rt_ringbuffer_get :: "nat \<Rightarrow> ringbuffer \<Rightarrow> u8 list \<times> ringbuffer" where
  "rt_ringbuffer_get len rb =
     (let n = rt_ringbuffer_data_len rb
      in if n = 0 then ([], rb)
         else let l = (if n < len then n else len); r = read_index rb; k = buffer_size rb - r
              in if k > l then (buf_get r l (buffer_ptr rb), rb\<lparr>read_index := r + l\<rparr>)
                 else (buf_get r k (buffer_ptr rb) @ buf_get 0 (l - k) (buffer_ptr rb),
                       rb\<lparr>read_mirror := \<not> read_mirror rb, read_index := l - k\<rparr>))"

text \<open>Storing one byte and stepping the write index; taking one off.\<close>

definition ring_push :: "u8 \<Rightarrow> ringbuffer \<Rightarrow> ringbuffer" where
  "ring_push ch rb =
     (let rb1 = rb\<lparr>buffer_ptr := (buffer_ptr rb)[write_index rb := ch]\<rparr>
      in if write_index rb = buffer_size rb - 1
         then rb1\<lparr>write_mirror := \<not> write_mirror rb, write_index := 0\<rparr>
         else rb1\<lparr>write_index := write_index rb + 1\<rparr>)"

definition ring_pop :: "ringbuffer \<Rightarrow> ringbuffer" where
  "ring_pop rb =
     (if read_index rb = buffer_size rb - 1
      then rb\<lparr>read_mirror := \<not> read_mirror rb, read_index := 0\<rparr>
      else rb\<lparr>read_index := read_index rb + 1\<rparr>)"

definition rt_ringbuffer_putchar :: "u8 \<Rightarrow> ringbuffer \<Rightarrow> nat \<times> ringbuffer" where
  "rt_ringbuffer_putchar ch rb = (if rt_ringbuffer_space_len rb = 0 then (0, rb) else (1, ring_push ch rb))"

definition rt_ringbuffer_putchar_force :: "u8 \<Rightarrow> ringbuffer \<Rightarrow> nat \<times> ringbuffer" where
  "rt_ringbuffer_putchar_force ch rb =
     (let full = (rt_ringbuffer_status rb = RT_RINGBUFFER_FULL); rb1 = ring_push ch rb
      in (1, if \<not> full then rb1
             else if write_index rb = buffer_size rb - 1
             then rb1\<lparr>read_mirror := \<not> read_mirror rb, read_index := write_index rb1\<rparr>
             else rb1\<lparr>read_index := write_index rb1\<rparr>))"

definition rt_ringbuffer_getchar :: "ringbuffer \<Rightarrow> u8 option \<times> ringbuffer" where
  "rt_ringbuffer_getchar rb =
     (if rt_ringbuffer_data_len rb = 0 then (None, rb)
      else (Some (buffer_ptr rb ! read_index rb), ring_pop rb))"

section \<open>The ring as a queue\<close>

definition rb_contents :: "ringbuffer \<Rightarrow> u8 list" where
  "rb_contents rb = ring_list (buffer_ptr rb) (read_index rb) (rt_ringbuffer_data_len rb) (buffer_size rb)"

definition rb_wf :: "nat \<Rightarrow> ringbuffer \<Rightarrow> bool" where
  "rb_wf n rb \<longleftrightarrow> 0 < n \<and> buffer_size rb = n \<and> length (buffer_ptr rb) = n \<and> read_index rb < n \<and> write_index rb < n \<and>
     (if read_mirror rb = write_mirror rb then read_index rb \<le> write_index rb else write_index rb \<le> read_index rb)"

lemma rb_init_wf: "0 < n \<Longrightarrow> 8 dvd n \<Longrightarrow> length pool = n \<Longrightarrow> rb_wf n (rt_ringbuffer_init pool n)"
  by (simp add: rb_wf_def rt_ringbuffer_init_def)

lemma rb_len:
  "rb_wf n rb \<Longrightarrow> rt_ringbuffer_data_len rb =
     (if read_mirror rb = write_mirror rb then write_index rb - read_index rb else n - (read_index rb - write_index rb))"
  by (auto simp: rb_wf_def rt_ringbuffer_data_len_def rt_ringbuffer_status_def split: if_splits)

lemma rb_len_le: "rb_wf n rb \<Longrightarrow> rt_ringbuffer_data_len rb \<le> n"
  by (simp add: rb_len) (auto simp: rb_wf_def)

lemma length_rb_contents [simp]: "length (rb_contents rb) = rt_ringbuffer_data_len rb"
  by (simp add: rb_contents_def)

lemma rb_write_index:
  assumes "rb_wf n rb"
  shows "write_index rb = (read_index rb + rt_ringbuffer_data_len rb) mod n"
proof (cases "read_mirror rb = write_mirror rb")
  case False
  then have "read_index rb + rt_ringbuffer_data_len rb = write_index rb + n"
    using assms by (simp add: rb_len) (auto simp: rb_wf_def)
  then show ?thesis using assms by (simp add: rb_wf_def)
qed (use assms in \<open>simp add: rb_len, simp add: rb_wf_def\<close>)

lemma ring_push_queue:
  assumes W: "rb_wf n rb" and space: "rt_ringbuffer_data_len rb < n"
  shows "rb_wf n (ring_push ch rb)" and "rb_contents (ring_push ch rb) = rb_contents rb @ [ch]"
    and "rt_ringbuffer_data_len (ring_push ch rb) = Suc (rt_ringbuffer_data_len rb)"
proof -
  show W': "rb_wf n (ring_push ch rb)"
    using W space by (simp add: rb_len) (auto simp: rb_wf_def ring_push_def Let_def split: if_splits)
  show L: "rt_ringbuffer_data_len (ring_push ch rb) = Suc (rt_ringbuffer_data_len rb)"
    using W space unfolding rb_len[OF W'] rb_len[OF W]
    by (auto simp: rb_wf_def ring_push_def Let_def split: if_splits)
  have "buffer_ptr (ring_push ch rb) = (buffer_ptr rb)[write_index rb := ch]"
    "read_index (ring_push ch rb) = read_index rb" "buffer_size (ring_push ch rb) = n" "buffer_size rb = n"
    "length (buffer_ptr rb) = n"
    using W by (auto simp: ring_push_def Let_def rb_wf_def)
  then show "rb_contents (ring_push ch rb) = rb_contents rb @ [ch]"
    using ring_list_store[OF space, of "buffer_ptr rb" "read_index rb" ch] rb_write_index[OF W]
    by (simp add: rb_contents_def L)
qed

lemma ring_pop_queue:
  assumes W: "rb_wf n rb" and ne: "rt_ringbuffer_data_len rb \<noteq> 0"
  shows "rb_wf n (ring_pop rb)" and "rb_contents rb = buffer_ptr rb ! read_index rb # rb_contents (ring_pop rb)"
    and "rt_ringbuffer_data_len rb = Suc (rt_ringbuffer_data_len (ring_pop rb))"
proof -
  show W': "rb_wf n (ring_pop rb)"
    using W ne by (simp add: rb_len) (auto simp: rb_wf_def ring_pop_def split: if_splits)
  show L: "rt_ringbuffer_data_len rb = Suc (rt_ringbuffer_data_len (ring_pop rb))"
    using W ne unfolding rb_len[OF W'] rb_len[OF W]
    by (auto simp: rb_wf_def ring_pop_def split: if_splits)
  have "buffer_ptr (ring_pop rb) = buffer_ptr rb" "buffer_size (ring_pop rb) = n" "buffer_size rb = n" "read_index rb < n"
    "read_index (ring_pop rb) = Suc (read_index rb) mod n"
    using W by (auto simp: ring_pop_def rb_wf_def)
  then show "rb_contents rb = buffer_ptr rb ! read_index rb # rb_contents (ring_pop rb)"
    using ring_list_fetch[of "read_index rb" n] by (simp add: rb_contents_def L)
qed

definition rb_empty :: "ringbuffer \<Rightarrow> bool" where
  "rb_empty rb \<longleftrightarrow> rt_ringbuffer_status rb = RT_RINGBUFFER_EMPTY"

definition rb_store :: "u8 \<Rightarrow> ringbuffer \<Rightarrow> ringbuffer" where
  "rb_store ch rb = snd (rt_ringbuffer_putchar ch rb)"

definition rb_fetch :: "ringbuffer \<Rightarrow> u8 \<times> ringbuffer" where
  "rb_fetch rb = (let (c, rb') = rt_ringbuffer_getchar rb in (the c, rb'))"

interpretation rbq: bounded_queue "rb_wf n" rb_contents n "\<lambda>_. True" rb_store rb_empty rb_fetch for n :: nat
proof unfold_locales
  fix q :: ringbuffer and x :: u8
  assume W: "rb_wf n q"
  have "rb_empty q \<longleftrightarrow> rt_ringbuffer_data_len q = 0"
    using W by (simp add: rb_empty_def rt_ringbuffer_status_def rb_len) (auto simp: rb_wf_def split: if_splits)
  then show "rb_empty q \<longleftrightarrow> rb_contents q = []" by (metis length_0_conv length_rb_contents)
  {
    assume "length (rb_contents q) < n"
    then have l: "rt_ringbuffer_data_len q < n" by simp
    then have "rb_store x q = ring_push x q"
      using W by (simp add: rb_store_def rt_ringbuffer_putchar_def rt_ringbuffer_space_len_def rb_wf_def)
    then show "rb_wf n (rb_store x q)" "rb_contents (rb_store x q) = rb_contents q @ [x]"
      using ring_push_queue[OF W l] by simp_all
  }
  {
    assume "rb_contents q \<noteq> []"
    then have l: "rt_ringbuffer_data_len q \<noteq> 0" by (metis length_0_conv length_rb_contents)
    then have "rb_fetch q = (buffer_ptr q ! read_index q, ring_pop q)"
      by (simp add: rb_fetch_def rt_ringbuffer_getchar_def)
    then show "rb_wf n (snd (rb_fetch q))" "fst (rb_fetch q) # rb_contents (snd (rb_fetch q)) = rb_contents q"
      using ring_pop_queue[OF W l] by simp_all
  }
qed

section \<open>Blocks are bytes one by one\<close>

lemma fold_push_nowrap:
  "write_index rb + length xs < buffer_size rb \<Longrightarrow>
     fold ring_push xs rb = rb\<lparr>buffer_ptr := buf_put (write_index rb) xs (buffer_ptr rb), write_index := write_index rb + length xs\<rparr>"
proof (induction xs arbitrary: rb)
  case (Cons x xs)
  then have "ring_push x rb = rb\<lparr>buffer_ptr := (buffer_ptr rb)[write_index rb := x], write_index := write_index rb + 1\<rparr>"
    by (simp add: ring_push_def Let_def)
  then show ?case using Cons.IH[of "ring_push x rb"] Cons.prems by simp
qed simp

lemma fold_push_wrap:
  assumes "write_index rb + length xs = buffer_size rb" and "xs \<noteq> []"
  shows "fold ring_push xs rb = rb\<lparr>buffer_ptr := buf_put (write_index rb) xs (buffer_ptr rb),
     write_mirror := \<not> write_mirror rb, write_index := 0\<rparr>"
proof -
  obtain ys y where xs: "xs = ys @ [y]" using assms(2) by (metis rev_exhaust)
  have "write_index rb + length ys < buffer_size rb" using assms(1) xs by simp
  from fold_push_nowrap[OF this] show ?thesis
    using assms(1) by (cases rb) (simp add: xs ring_push_def Let_def buf_put_append)
qed

lemma ring_copy_push:
  assumes W: "rb_wf n rb" and len: "len \<le> n"
  shows "ring_copy ptr len rb = fold ring_push (map ptr [0..<len]) rb"
proof (cases "n - write_index rb > len")
  case True
  then show ?thesis
    using W by (simp add: ring_copy_def Let_def fold_push_nowrap rb_wf_def)
next
  case False
  let ?k = "n - write_index rb"
  have k: "0 < ?k" "?k \<le> len" "write_index rb + ?k = n" "buffer_size rb = n" using W False by (auto simp: rb_wf_def)
  have "[0..<len] = [0..<?k] @ [?k..<len]" using k(2) by (metis le_iff_add plus_nat.add_0 upt_add_eq_append zero_le)
  then have "fold ring_push (map ptr [0..<len]) rb = fold ring_push (map ptr [?k..<len]) (fold ring_push (map ptr [0..<?k]) rb)"
    by simp
  also have "fold ring_push (map ptr [0..<?k]) rb = rb\<lparr>buffer_ptr := buf_put (write_index rb) (map ptr [0..<?k]) (buffer_ptr rb),
     write_mirror := \<not> write_mirror rb, write_index := 0\<rparr>" (is "_ = ?r")
    by (rule fold_push_wrap) (use k in simp_all)
  also have "fold ring_push (map ptr [?k..<len]) ?r = ?r\<lparr>buffer_ptr := buf_put 0 (map ptr [?k..<len]) (buffer_ptr ?r), write_index := len - ?k\<rparr>"
    using fold_push_nowrap[of ?r "map ptr [?k..<len]"] k len by simp
  finally show ?thesis using False k by (simp add: ring_copy_def Let_def)
qed

lemma fold_push_queue:
  "rb_wf n rb \<Longrightarrow> rt_ringbuffer_data_len rb + length xs \<le> n \<Longrightarrow>
     rb_wf n (fold ring_push xs rb) \<and> rb_contents (fold ring_push xs rb) = rb_contents rb @ xs \<and>
     rt_ringbuffer_data_len (fold ring_push xs rb) = rt_ringbuffer_data_len rb + length xs"
proof (induction xs arbitrary: rb)
  case (Cons x xs)
  have l: "rt_ringbuffer_data_len rb < n" using Cons.prems(2) by simp
  show ?case using Cons.IH[OF ring_push_queue(1)[OF Cons.prems(1) l]] ring_push_queue(2,3)[OF Cons.prems(1) l] Cons.prems(2)
    by simp
qed simp

lemma pop_funpow_queue:
  "rb_wf n rb \<Longrightarrow> l \<le> rt_ringbuffer_data_len rb \<Longrightarrow>
     rb_wf n ((ring_pop ^^ l) rb) \<and> rb_contents ((ring_pop ^^ l) rb) = drop l (rb_contents rb) \<and>
     rt_ringbuffer_data_len ((ring_pop ^^ l) rb) = rt_ringbuffer_data_len rb - l"
proof (induction l)
  case (Suc l)
  then have IH: "rb_wf n ((ring_pop ^^ l) rb)" "rb_contents ((ring_pop ^^ l) rb) = drop l (rb_contents rb)"
    "rt_ringbuffer_data_len ((ring_pop ^^ l) rb) = rt_ringbuffer_data_len rb - l" by simp_all
  then have ne: "rt_ringbuffer_data_len ((ring_pop ^^ l) rb) \<noteq> 0" using Suc.prems(2) by simp
  note P = ring_pop_queue[OF IH(1) ne]
  have "drop (Suc l) (rb_contents rb) = rb_contents (ring_pop ((ring_pop ^^ l) rb))"
    using P(2) IH(2) by (metis drop_Suc list.sel(3) tl_drop)
  then show ?case using P(1,3) IH(3) by simp
qed simp

lemma pop_funpow_index:
  "l + read_index rb < buffer_size rb \<Longrightarrow> (ring_pop ^^ l) rb = rb\<lparr>read_index := read_index rb + l\<rparr>"
  by (induction l) (auto simp: ring_pop_def)

lemma pop_funpow_wrap:
  assumes "l + read_index rb = buffer_size rb" and "0 < l"
  shows "(ring_pop ^^ l) rb = rb\<lparr>read_mirror := \<not> read_mirror rb, read_index := 0\<rparr>"
proof -
  obtain m where l: "l = Suc m" using assms(2) by (metis gr0_conv_Suc)
  then show ?thesis using assms(1) pop_funpow_index[of m rb] by (simp add: ring_pop_def)
qed

lemma ring_list_slice:
  "r + k \<le> n \<Longrightarrow> length buf = n \<Longrightarrow> r < n \<Longrightarrow> ring_list buf r k n = buf_get r k buf"
  by (rule nth_equalityI) (auto simp: ring_list_def nth_buf_get)

lemma ring_list_wrap:
  assumes "r < n" "n - r \<le> k" "k \<le> n" "length buf = n"
  shows "ring_list buf r k n = buf_get r (n - r) buf @ buf_get 0 (k - (n - r)) buf"
proof (rule nth_equalityI)
  fix i assume "i < length (ring_list buf r k n)"
  then have i: "i < k" by simp
  have m: "(r + i) mod n = r + i - n" if "\<not> i < n - r"
    using that i assms by (auto simp: mod_if)
  show "ring_list buf r k n ! i = (buf_get r (n - r) buf @ buf_get 0 (k - (n - r)) buf) ! i"
    using i assms m by (auto simp: ring_list_def nth_append nth_buf_get algebra_simps)
qed (use assms in simp)

lemma take_ring_list: "take l (ring_list buf r k n) = ring_list buf r (min l k) n"
  by (rule nth_equalityI) (auto simp: ring_list_def)

lemma ring_get_pop:
  assumes W: "rb_wf n rb"
  shows "rt_ringbuffer_get len rb =
    (take len (rb_contents rb), (ring_pop ^^ min len (rt_ringbuffer_data_len rb)) rb)"
proof (cases "rt_ringbuffer_data_len rb = 0")
  case True
  then have "rb_contents rb = []" by (metis length_0_conv length_rb_contents)
  then show ?thesis using True by (simp add: rt_ringbuffer_get_def)
next
  case False
  let ?l = "min len (rt_ringbuffer_data_len rb)" and ?r = "read_index rb" and ?b = "buffer_ptr rb"
  have w: "buffer_size rb = n" "?r < n" "length ?b = n" using W by (auto simp: rb_wf_def)
  have l: "?l \<le> n" using rb_len_le[OF W] by simp
  have c: "take len (rb_contents rb) = ring_list ?b ?r ?l n"
    by (simp add: rb_contents_def w take_ring_list)
  show ?thesis
  proof (cases "n - ?r > ?l")
    case True
    then have "rt_ringbuffer_get len rb = (buf_get ?r ?l ?b, rb\<lparr>read_index := ?r + ?l\<rparr>)"
      using False w by (auto simp: rt_ringbuffer_get_def Let_def min_def)
    then show ?thesis using True w c ring_list_slice[of ?r ?l n ?b] pop_funpow_index[of ?l rb] by simp
  next
    case F: False
    let ?k = "n - ?r"
    have "rt_ringbuffer_get len rb = (buf_get ?r ?k ?b @ buf_get 0 (?l - ?k) ?b,
        rb\<lparr>read_mirror := \<not> read_mirror rb, read_index := ?l - ?k\<rparr>)"
      using False F w by (auto simp: rt_ringbuffer_get_def Let_def min_def)
    moreover have "(ring_pop ^^ ?l) rb = (ring_pop ^^ (?l - ?k)) ((ring_pop ^^ ?k) rb)"
      using F by (metis funpow_add comp_apply le_add_diff_inverse2 not_less)
    moreover have "(ring_pop ^^ ?k) rb = rb\<lparr>read_mirror := \<not> read_mirror rb, read_index := 0\<rparr>" (is "_ = ?rb")
      by (rule pop_funpow_wrap) (use w in simp_all)
    moreover have "(ring_pop ^^ (?l - ?k)) ?rb = ?rb\<lparr>read_index := ?l - ?k\<rparr>"
      using pop_funpow_index[of "?l - ?k" ?rb] w l by simp
    moreover have "ring_list ?b ?r ?l n = buf_get ?r ?k ?b @ buf_get 0 (?l - ?k) ?b"
      by (rule ring_list_wrap) (use F w l in linarith)+
    ultimately show ?thesis using c by simp
  qed
qed

section \<open>Properties\<close>

text \<open>
  C29: The byte ring is a first-in first-out queue that holds as many bytes as it has places:
  from a new ring, as long as no byte is stored in a full one, the bytes taken off are the first
  of the bytes stored and the rest are those still in the ring, in order.
\<close>

theorem ring_fifo:
  assumes "0 < n" and "8 dvd n" and "length pool = n" and "fits (\<lambda>_. True) n ops 0"
  shows "let (out, rb) = qrun rb_store rb_empty rb_fetch ops (rt_ringbuffer_init pool n)
    in stored ops = out @ rb_contents rb \<and> rb_wf n rb"
proof -
  let ?i = "rt_ringbuffer_init pool n"
  have W: "rb_wf n ?i" by (rule rb_init_wf[OF assms(1,2,3)])
  have "rb_contents ?i = []"
    by (simp add: rb_contents_def rt_ringbuffer_init_def rt_ringbuffer_data_len_def rt_ringbuffer_status_def)
  then show ?thesis
    using rbq.run_fifo[OF W, of ops] assms(4) by (simp add: case_prod_beta)
qed

lemma fold_putchar:
  "rb_wf n rb \<Longrightarrow> fold (\<lambda>c r. snd (rt_ringbuffer_putchar c r)) xs rb =
     fold ring_push (take (n - rt_ringbuffer_data_len rb) xs) rb"
proof (induction xs arbitrary: rb)
  case (Cons x xs)
  have b: "buffer_size rb = n" using Cons.prems by (simp add: rb_wf_def)
  show ?case
  proof (cases "rt_ringbuffer_data_len rb < n")
    case True
    note P = ring_push_queue[OF Cons.prems True]
    show ?thesis
      using Cons.IH[OF P(1)] True P(3)
      by (simp add: rt_ringbuffer_putchar_def rt_ringbuffer_space_len_def b take_Cons' Suc_diff_Suc)
  next
    case False
    then show ?thesis
      using Cons.IH[OF Cons.prems] by (simp add: rt_ringbuffer_putchar_def rt_ringbuffer_space_len_def b)
  qed
qed simp

text \<open>
  A block write is the same as storing its bytes one by one until the ring is full; a block
  read takes off the oldest bytes.  Both keep the ring well formed.
\<close>

theorem ring_blocks:
  assumes W: "rb_wf n rb"
  shows "let (k, rb1) = rt_ringbuffer_put ptr len rb; (out, rb2) = rt_ringbuffer_get len2 rb1
    in k = min len (rt_ringbuffer_space_len rb) \<and>
       rb1 = fold (\<lambda>c r. snd (rt_ringbuffer_putchar c r)) (map ptr [0..<len]) rb \<and>
       rb_contents rb1 = rb_contents rb @ map ptr [0..<k] \<and>
       out = take len2 (rb_contents rb1) \<and> rb_contents rb2 = drop len2 (rb_contents rb1) \<and> rb_wf n rb2"
proof -
  let ?k = "min len (rt_ringbuffer_space_len rb)" and ?xs = "map ptr [0..<len]"
  have b: "rt_ringbuffer_space_len rb = n - rt_ringbuffer_data_len rb" "rt_ringbuffer_data_len rb \<le> n"
    using W rb_len_le[OF W] by (simp_all add: rb_wf_def rt_ringbuffer_space_len_def)
  have tk: "take (n - rt_ringbuffer_data_len rb) ?xs = map ptr [0..<?k]"
    by (simp add: b take_map take_upt min_def)
  define rb1 where "rb1 = fold ring_push (map ptr [0..<?k]) rb"
  have put: "rt_ringbuffer_put ptr len rb = (?k, rb1)"
  proof (cases "rt_ringbuffer_space_len rb = 0")
    case False
    have "(if rt_ringbuffer_space_len rb < len then rt_ringbuffer_space_len rb else len) = ?k" by simp
    moreover have "ring_copy ptr ?k rb = rb1"
      unfolding rb1_def by (rule ring_copy_push[OF W]) (simp add: b)
    ultimately show ?thesis using False unfolding rt_ringbuffer_put_def Let_def by simp
  qed (simp add: rt_ringbuffer_put_def rb1_def)
  have F: "rb_wf n rb1 \<and> rb_contents rb1 = rb_contents rb @ map ptr [0..<?k] \<and>
      rt_ringbuffer_data_len rb1 = rt_ringbuffer_data_len rb + ?k"
    unfolding rb1_def using fold_push_queue[OF W, of "map ptr [0..<?k]"] b by simp
  have one: "rb1 = fold (\<lambda>c r. snd (rt_ringbuffer_putchar c r)) ?xs rb"
    unfolding rb1_def fold_putchar[OF W] tk ..
  let ?l = "min len2 (rt_ringbuffer_data_len rb1)"
  have get: "rt_ringbuffer_get len2 rb1 = (take len2 (rb_contents rb1), (ring_pop ^^ ?l) rb1)"
    by (rule ring_get_pop) (use F in blast)
  have "drop ?l (rb_contents rb1) = drop len2 (rb_contents rb1)"
    by (cases "len2 \<le> rt_ringbuffer_data_len rb1") (simp_all add: min_def)
  moreover have "?l \<le> rt_ringbuffer_data_len rb1" by simp
  ultimately have G: "rb_wf n ((ring_pop ^^ ?l) rb1)" "rb_contents ((ring_pop ^^ ?l) rb1) = drop len2 (rb_contents rb1)"
    using pop_funpow_queue[of n rb1 ?l] F by auto
  show ?thesis
    unfolding put get Let_def prod.case
    by (intro conjI refl one G) (use F in blast)
qed

text \<open>
  Forcing one byte into a full ring drops the oldest byte.  Forcing a block that does not fit
  does not: it always copies \<open>buffer_size\<close> bytes, more than the caller gave when the block is
  shorter, and when the ring held data and both indices were on the same side of the mirror, it
  is empty afterwards: the old and the new bytes are lost.
\<close>

theorem put_force_loses:
  assumes W: "rb_wf n rb"
  shows "rb_contents (snd (rt_ringbuffer_putchar_force ch rb)) =
      (if rt_ringbuffer_data_len rb = n then tl (rb_contents rb) else rb_contents rb) @ [ch] \<and>
    (len > rt_ringbuffer_space_len rb \<longrightarrow>
       fst (rt_ringbuffer_put_force ptr len rb) = n \<and>
       rb_contents (snd (rt_ringbuffer_put_force ptr len rb)) =
         (if read_mirror rb = write_mirror rb \<and> rt_ringbuffer_data_len rb \<noteq> 0 then [] else map ptr [0..<n]))"
proof (intro conjI impI)
  have w: "0 < n" "buffer_size rb = n" "length (buffer_ptr rb) = n" "read_index rb < n" "write_index rb < n"
    using W by (auto simp: rb_wf_def)
  have full: "rt_ringbuffer_status rb = RT_RINGBUFFER_FULL \<longleftrightarrow> rt_ringbuffer_data_len rb = n"
    using W by (simp add: rt_ringbuffer_status_def rb_len) (auto simp: rb_wf_def split: if_splits)
  show "rb_contents (snd (rt_ringbuffer_putchar_force ch rb)) =
      (if rt_ringbuffer_data_len rb = n then tl (rb_contents rb) else rb_contents rb) @ [ch]"
  proof (cases "rt_ringbuffer_data_len rb = n")
    case False
    then have "rt_ringbuffer_data_len rb < n" using rb_len_le[OF W] by simp
    then show ?thesis
      using ring_push_queue(2)[OF W] False by (simp add: rt_ringbuffer_putchar_force_def full)
  next
    case True
    have same: "read_index rb = write_index rb" and mir: "read_mirror rb \<noteq> write_mirror rb"
      using full True by (auto simp: rt_ringbuffer_status_def split: if_splits)
    have ne: "rt_ringbuffer_data_len rb \<noteq> 0" using True w(1) by simp
    note P = ring_pop_queue[OF W ne]
    have lt: "rt_ringbuffer_data_len (ring_pop rb) < n" using P(3) True by simp
    have "snd (rt_ringbuffer_putchar_force ch rb) = ring_push ch (ring_pop rb)"
      using True full same by (cases rb)
        (simp add: rt_ringbuffer_putchar_force_def ring_push_def ring_pop_def Let_def)
    then show ?thesis using ring_push_queue(2)[OF P(1) lt, of ch] True P(2) by simp
  qed
  assume len: "len > rt_ringbuffer_space_len rb"
  let ?w = "write_index rb" and ?k = "n - write_index rb"
  let ?b = "buf_put 0 (map ptr [?k..<n]) (buf_put ?w (map ptr [0..<?k]) (buffer_ptr rb))"
  have fst: "fst (rt_ringbuffer_put_force ptr len rb) = n"
    using len w by (simp add: rt_ringbuffer_put_force_def Let_def)
  then show "fst (rt_ringbuffer_put_force ptr len rb) = n" .
  show "rb_contents (snd (rt_ringbuffer_put_force ptr len rb)) =
      (if read_mirror rb = write_mirror rb \<and> rt_ringbuffer_data_len rb \<noteq> 0 then [] else map ptr [0..<n])"
  proof (cases "rt_ringbuffer_data_len rb = 0")
    case True
    then have "snd (rt_ringbuffer_put_force ptr len rb) = ring_copy ptr n rb"
      using len w by (simp add: rt_ringbuffer_put_force_def Let_def rt_ringbuffer_space_len_def)
    moreover have "rb_contents rb = []" using True by (metis length_0_conv length_rb_contents)
    ultimately show ?thesis
      using fold_push_queue[OF W, of "map ptr [0..<n]"] ring_copy_push[OF W, of n ptr] True by simp
  next
    case False
    have "n > rt_ringbuffer_space_len rb" using False w by (simp add: rt_ringbuffer_space_len_def)
    then have s: "snd (rt_ringbuffer_put_force ptr len rb) = rb\<lparr>buffer_ptr := ?b, write_mirror := \<not> write_mirror rb,
        write_index := ?w, read_mirror := \<not> read_mirror rb, read_index := ?w\<rparr>"
      using len w by (cases rb) (simp add: rt_ringbuffer_put_force_def Let_def ring_copy_def)
    show ?thesis
    proof (cases "read_mirror rb = write_mirror rb")
      case True
      then have "rt_ringbuffer_data_len (snd (rt_ringbuffer_put_force ptr len rb)) = 0"
        by (simp add: s rt_ringbuffer_data_len_def rt_ringbuffer_status_def)
      then show ?thesis using True False by (simp add: rb_contents_def)
    next
      case F: False
      have "rb_contents (snd (rt_ringbuffer_put_force ptr len rb)) = ring_list ?b ?w n n"
        using F w by (auto simp: s rb_contents_def rt_ringbuffer_data_len_def rt_ringbuffer_status_def)
      also have "\<dots> = buf_get ?w (n - ?w) ?b @ buf_get 0 (n - (n - ?w)) ?b"
        by (rule ring_list_wrap) (use w in auto)
      also have "buf_get ?w (n - ?w) ?b = map ptr [0..<?k]"
        using buf_get_put_disjoint[of ?w ?k 0 "map ptr [?k..<n]"] buf_get_put_same[of ?w "map ptr [0..<?k]" "buffer_ptr rb"] w
        by simp
      also have "buf_get 0 (n - (n - ?w)) ?b = map ptr [?k..<n]"
        using buf_get_put_same[of 0 "map ptr [?k..<n]" "buf_put ?w (map ptr [0..<?k]) (buffer_ptr rb)"] w by simp
      also have "map ptr [0..<?k] @ map ptr [?k..<n] = map ptr [0..<n]"
        using w upt_add_eq_append[of 0 ?k "n - ?k"] by (simp flip: map_append)
      finally show ?thesis using F by simp
    qed
  qed
qed

text \<open>A ring of 8 bytes that holds 3.\<close>

definition ring3 :: ringbuffer where
  "ring3 = snd (rt_ringbuffer_put (\<lambda>i. of_nat i) 3 (rt_ringbuffer_init (replicate 8 0) 8))"

lemma ring3_eq: "ring3 = \<lparr>buffer_ptr = [0, 1, 2, 0, 0, 0, 0, 0], read_mirror = False, read_index = 0,
    write_mirror = False, write_index = 3, buffer_size = 8\<rparr>"
  by code_simp

lemma ring3: "rb_wf 8 ring3" "rt_ringbuffer_data_len ring3 = 3" "read_mirror ring3 = write_mirror ring3"
  "buffer_size ring3 = 8" "rb_contents ring3 = [0, 1, 2]"
  by (simp_all add: ring3_eq rb_wf_def rt_ringbuffer_data_len_def rt_ringbuffer_status_def rb_contents_def ring_list_def upt_rec)

theorem ring_fifo_witness:
  "let (out, rb) = qrun rb_store rb_empty rb_fetch [Store 7, Store 8, Fetch] (rt_ringbuffer_init (replicate 8 0) 8)
    in [7, 8] = out @ rb_contents rb \<and> rb_wf 8 rb"
  using ring_fifo[of 8 "replicate 8 0" "[Store 7, Store 8, Fetch]"] by simp

theorem ring_blocks_witness:
  "let (k, rb1) = rt_ringbuffer_put (\<lambda>_. 9) 6 ring3; (out, rb2) = rt_ringbuffer_get 4 rb1
    in k = 5 \<and> out = [0, 1, 2, 9]"
proof -
  obtain k rb1 out rb2 where p: "rt_ringbuffer_put (\<lambda>_. 9) 6 ring3 = (k, rb1)" "rt_ringbuffer_get 4 rb1 = (out, rb2)"
    by (metis surj_pair)
  have k: "k = 5" and c: "rb_contents rb1 = [0, 1, 2] @ map (\<lambda>_. 9) [0..<k]" and o: "out = take 4 (rb_contents rb1)"
    using ring_blocks[OF ring3(1), of "\<lambda>_. 9" 6 4] unfolding p Let_def prod.case
    by (auto simp: rt_ringbuffer_space_len_def ring3)
  have "out = take 4 ([0, 1, 2] @ map (\<lambda>_. 9) [0..<5])" unfolding o c k ..
  with k show ?thesis by (simp add: p upt_rec)
qed

theorem put_force_loses_witness:
  "rb_contents ring3 = [0, 1, 2] \<and> fst (rt_ringbuffer_put_force (\<lambda>_. 9) 6 ring3) = 8 \<and>
     rb_contents (snd (rt_ringbuffer_put_force (\<lambda>_. 9) 6 ring3)) = []"
  using put_force_loses[OF ring3(1), of 0 6 "\<lambda>_. 9"] by (simp add: rt_ringbuffer_space_len_def ring3)

end
