(* ===== verification/Web_Form.thy ===== *)
theory Web_Form
  imports Prelude "HOL-Library.Sublist"
begin

text \<open>
  Form data of the web server: the character helpers of \<open>miscfun.c\<close> and the search of the request
  body for a parameter, \<open>http_search_body\<close> of \<open>httpd.c\<close>.

  A pointer into the body buffer is the rest of the buffer from it on; a byte read behind the end
  of the buffer, which the code does not guard against, is given as 0.
\<close>

section \<open>Characters\<close>

definition bytes :: "string \<Rightarrow> u8 list" where
  "bytes s = map (\<lambda>c. of_char c) s"

definition conv_to_upper_case :: "u8 \<Rightarrow> u8" where
  "conv_to_upper_case ch = (if 0x61 \<le> ch \<and> ch \<le> 0x7a then ch - 0x20 else ch)"

fun str_conv_to_upper_case :: "u8 list \<Rightarrow> u8 list" where
  "str_conv_to_upper_case [] = []"
| "str_conv_to_upper_case (c # cs) =
     (if c = 0 then c # cs
      else (if 0x61 \<le> c \<and> c \<le> 0x7a then c - 0x20 else c) # str_conv_to_upper_case cs)"

definition ascii_to_hex_nib :: "u8 \<Rightarrow> u8" where
  "ascii_to_hex_nib ch =
     (let ch = conv_to_upper_case ch
      in if 0x30 \<le> ch \<and> ch \<le> 0x39 then ch - 0x30
         else if 0x41 \<le> ch \<and> ch \<le> 0x46 then ch - 0x41 + 10
         else 0xff)"

definition hex_to_ascii_nib :: "u8 \<Rightarrow> u8" where
  "hex_to_ascii_nib nib = (if nib < 10 then nib + 0x30 else (nib - 10) + 0x61)"

section \<open>The search\<close>

definition deref_byte :: "u8 list \<Rightarrow> u8" where
  "deref_byte p = (case p of [] \<Rightarrow> 0 | c # _ \<Rightarrow> c)"

text \<open>The first loop: the value of \<open>name\<close>, looked for at \<open>n\<close> places.\<close>

definition name_at :: "u8 list \<Rightarrow> u8 list \<Rightarrow> bool" where
  "name_at name p \<longleftrightarrow>
     deref_byte p = deref_byte name \<and> take (length name) p = name \<and> deref_byte (drop (length name) p) = 0x3d"

fun find_name :: "u8 list \<Rightarrow> nat \<Rightarrow> u8 list \<Rightarrow> u8 list option" where
  "find_name name 0 p = None"
| "find_name name (Suc n) p =
     (if name_at name p then Some (drop (length name + 1) p) else find_name name n (tl p))"

text \<open>
  The second loop.  It ends at a carriage return, an ampersand or a zero byte, or when the counter
  \<open>bufsiz\<close> of 8 bits has gone down to 1; \<open>get_value k\<close> makes at most \<open>k\<close> turns.
\<close>

definition turns :: "nat \<Rightarrow> nat" where
  "turns bufsiz = (bufsiz + 254) mod 256 + 1"

primrec get_value :: "nat \<Rightarrow> u8 list \<Rightarrow> u8 list" where
  "get_value 0 p = []"
| "get_value (Suc k) p =
     (let c = deref_byte p
      in if c = 0x0d \<or> c = 0x26 \<or> c = 0 then []
         else if c = 0x25
         then (push_bit 4 (ascii_to_hex_nib (deref_byte (drop 1 p))) OR ascii_to_hex_nib (deref_byte (drop 2 p)))
                # get_value k (drop 3 p)
         else if c = 0x2b then 0x20 # get_value k (drop 1 p)
         else c # get_value k (drop 1 p))"

text \<open>The value as a C string, without its final zero byte; \<open>None\<close> is the result 0.\<close>

definition http_search_body :: "u8 list \<Rightarrow> nat \<Rightarrow> u8 list \<Rightarrow> nat \<Rightarrow> u8 list option" where
  "http_search_body body_buf body_len name bufsiz =
     (case find_name name body_len body_buf of
        None \<Rightarrow> None
      | Some p \<Rightarrow> Some (get_value (turns bufsiz) p))"

section \<open>Bounds of the value\<close>

lemma length_get_value: "length (get_value k p) \<le> k"
  by (induction k arbitrary: p) (auto simp: Let_def)

lemma turns_eq:
  assumes "2 \<le> n" and "n < 256"
  shows "turns n = n - 1"
proof -
  have e: "n + 254 = (n - 2) + 256" using assms(1) by simp
  have "(n + 254) mod 256 = n - 2" unfolding e mod_add_self2 using assms by simp
  then show ?thesis using assms by (simp add: turns_def)
qed

lemma search_body_bound:
  assumes "http_search_body b l name n = Some v" and "2 \<le> n" and "n < 256"
  shows "length v < n"
proof -
  obtain p where "v = get_value (n - 1) p"
    using assms by (auto simp: http_search_body_def turns_eq split: option.splits)
  then show ?thesis using length_get_value[of "n - 1" p] assms(2) by simp
qed

section \<open>Forms\<close>

text \<open>
  What a browser sends: letters, digits and the underscore as they are, a blank as a plus sign,
  everything else as a percent sign with two hexadecimal digits; fields joined with ampersands.
\<close>

definition plain :: "u8 \<Rightarrow> bool" where
  "plain c \<longleftrightarrow> 0x30 \<le> c \<and> c \<le> 0x39 \<or> 0x41 \<le> c \<and> c \<le> 0x5a \<or> 0x61 \<le> c \<and> c \<le> 0x7a \<or> c = 0x5f"

definition hex_digit :: "u8 \<Rightarrow> u8" where
  "hex_digit n = (if n < 10 then n + 0x30 else n - 10 + 0x41)"

definition enc_char :: "u8 \<Rightarrow> u8 list" where
  "enc_char c =
     (if plain c then [c] else if c = 0x20 then [0x2b]
      else [0x25, hex_digit (drop_bit 4 c), hex_digit (c AND 0x0f)])"

definition enc_value :: "u8 list \<Rightarrow> u8 list" where
  "enc_value v = concat (map enc_char v)"

definition enc_field :: "u8 list \<times> u8 list \<Rightarrow> u8 list" where
  "enc_field f = fst f @ 0x3d # enc_value (snd f)"

fun enc_form :: "(u8 list \<times> u8 list) list \<Rightarrow> u8 list" where
  "enc_form [] = []"
| "enc_form [f] = enc_field f"
| "enc_form (f # g # fs) = enc_field f @ 0x26 # enc_form (g # fs)"

definition field_ok :: "u8 list \<times> u8 list \<Rightarrow> bool" where
  "field_ok f \<longleftrightarrow> fst f \<noteq> [] \<and> list_all plain (fst f)"

lemma nib_cases:
  assumes "(n :: u8) < 16" and "\<forall>k \<in> set [0..<16]. P (of_nat k)"
  shows "P n"
proof -
  have "unat n \<in> set [0..<16]" using assms(1) by (simp add: word_less_nat_alt)
  with assms(2) have "P (of_nat (unat n))" by blast
  then show ?thesis by simp
qed

lemma nib_roundtrip: "n < 16 \<Longrightarrow> ascii_to_hex_nib (hex_to_ascii_nib n) = n"
  by (erule nib_cases) code_simp

lemma digit_nib: "n < 16 \<Longrightarrow> ascii_to_hex_nib (hex_digit n) = n"
  by (erule nib_cases) code_simp

lemma digit_range:
  assumes "n < 16"
  shows "0x30 \<le> hex_digit n \<and> hex_digit n \<le> 0x46"
  using assms by (rule nib_cases) code_simp

lemma nibbles: "push_bit 4 (drop_bit 4 c) OR (c AND 0x0f) = (c :: u8)"
proof -
  have m: "(0x0f :: u8) = mask 4" by code_simp
  show ?thesis unfolding m
    by (rule bit_word_eqI) (auto simp: bit_simps simp del: bit_numeral_word_iff)
qed

lemma plain_chars:
  assumes "plain c"
  shows "c \<notin> {0x0d, 0x26, 0, 0x25, 0x2b, 0x3d}"
  using assms by (auto simp: plain_def)

lemma enc_char_Cons:
  "\<exists>d ds. enc_char c = d # ds \<and> d \<notin> {0x0d, 0x26, 0}"
  by (auto simp: enc_char_def dest: plain_chars)

lemma high_nib: "drop_bit 4 c < (16 :: u8)"
proof -
  have "unat c < 2 ^ LENGTH(8)" by (rule unsigned_less)
  then show ?thesis by (simp add: word_less_nat_alt unsigned_drop_bit_eq drop_bit_eq_div unat_div)
qed

lemma low_nib: "c AND 0x0f < (16 :: u8)"
  by (rule le_less_trans[OF word_and_le1]) simp

lemma get_value_enc_char: "get_value (Suc k) (enc_char c @ p) = c # get_value k p"
proof -
  have n: "drop_bit 4 c < 16" "c AND 0x0f < 16"
    by (rule high_nib, rule low_nib)
  show ?thesis
    by (auto simp: enc_char_def deref_byte_def Let_def digit_nib n nibbles dest: plain_chars)
qed

definition value_end :: "u8 list \<Rightarrow> bool" where
  "value_end p \<longleftrightarrow> deref_byte p \<in> {0x0d, 0x26, 0}"

lemma get_value_enc:
  assumes "length v \<le> k" and "value_end p"
  shows "get_value k (enc_value v @ p) = v"
  using assms(1)
proof (induction v arbitrary: k)
  case Nil
  then show ?case using assms(2) by (cases k) (auto simp: enc_value_def value_end_def Let_def)
next
  case (Cons c v)
  then obtain k' where k: "k = Suc k'" by (cases k) auto
  show ?case using Cons get_value_enc_char[of k' c "enc_value v @ p"]
    by (simp add: k enc_value_def)
qed

text \<open>Where the search for a name can stop: only right before an equals sign.\<close>

lemma name_at_eq:
  assumes "n \<noteq> []" and "0x3d \<notin> set n" and "0x3d \<notin> set u"
  shows "name_at n (u @ 0x3d # p) \<longleftrightarrow> u = n"
proof
  assume h: "name_at n (u @ 0x3d # p)"
  have t: "take (length n) (u @ 0x3d # p) = n" and d: "deref_byte (drop (length n) (u @ 0x3d # p)) = 0x3d"
    using h by (auto simp: name_at_def)
  consider "length n < length u" | "length n = length u" | "length u < length n" by linarith
  then show "u = n"
  proof cases
    case 1
    then have "deref_byte (drop (length n) (u @ 0x3d # p)) = u ! length n"
      by (simp add: deref_byte_def Cons_nth_drop_Suc[symmetric])
    with 1 d assms(3) show ?thesis by (metis nth_mem)
  next
    case 2
    then show ?thesis using t by simp
  next
    case 3
    then have "n ! length u = (u @ 0x3d # p) ! length u" using t by (metis nth_take)
    with 3 assms(2) show ?thesis by (metis nth_append_length nth_mem)
  qed
next
  assume "u = n"
  with assms(1) show "name_at n (u @ 0x3d # p)" by (cases n) (auto simp: name_at_def deref_byte_def)
qed

lemma find_name_skip:
  assumes "\<And>s t. w = s @ t \<Longrightarrow> t \<noteq> [] \<Longrightarrow> \<not> name_at n (t @ p)"
  shows "find_name n (length w + k) (w @ p) = find_name n k p"
  using assms
proof (induction w)
  case (Cons c w)
  have "\<not> name_at n ((c # w) @ p)" using Cons.prems[of "[]" "c # w"] by simp
  moreover have "find_name n (length w + k) (w @ p) = find_name n k p"
    using Cons.prems by (intro Cons.IH) (metis append_Cons)
  ultimately show ?case by simp
qed simp

lemma enc_chars: "c \<in> set (enc_value v) \<Longrightarrow> c \<notin> {0x0d, 0x26, 0x3d, 0}"
proof -
  have h: "hex_digit n \<notin> {0x0d, 0x26, 0x3d, 0}" if "n < 16" for n
    using that by (rule nib_cases) code_simp
  assume "c \<in> set (enc_value v)"
  then show ?thesis
    by (auto simp: enc_value_def enc_char_def dest: plain_chars split: if_splits)
      (use h[OF high_nib] h[OF low_nib] in auto)
qed

lemma plain_name: "list_all plain n \<Longrightarrow> c \<in> set n \<Longrightarrow> c \<notin> {0x26, 0x3d}"
  by (auto simp: list_all_iff dest: plain_chars)

lemma enc_form_Cons: "fs \<noteq> [] \<Longrightarrow> enc_form (f # fs) = enc_field f @ 0x26 # enc_form fs"
  by (cases fs) auto

lemma enc_form_hd: "fs \<noteq> [] \<Longrightarrow> \<exists>p. enc_form fs = fst (hd fs) @ 0x3d # p"
  by (cases fs rule: enc_form.cases) (auto simp: enc_field_def)

lemma find_name_field:
  assumes n: "n \<noteq> []" "list_all plain n" and f: "list_all plain (fst f)" "\<not> suffix n (fst f)"
    and g: "list_all plain u"
  shows "find_name n (length (enc_field f @ [0x26]) + k) ((enc_field f @ [0x26]) @ u @ 0x3d # p) =
    find_name n k (u @ 0x3d # p)"
proof (rule find_name_skip)
  fix s t assume w: "enc_field f @ [0x26] = s @ t" and t: "t \<noteq> []"
  have nn: "0x3d \<notin> set n" "0x26 \<notin> set n" "0x3d \<notin> set u" using plain_name n(2) g by blast+
  from w have "(\<exists>r. fst f = s @ r \<and> t = r @ 0x3d # enc_value (snd f) @ [0x26]) \<or>
      (\<exists>r. enc_value (snd f) @ [0x26] = r @ t)"
    by (auto simp: enc_field_def append_eq_append_conv2 Cons_eq_append_conv append_eq_Cons_conv)
  then show "\<not> name_at n (t @ u @ 0x3d # p)"
  proof (elim disjE exE conjE)
    fix r assume r: "fst f = s @ r" "t = r @ 0x3d # enc_value (snd f) @ [0x26]"
    have "0x3d \<notin> set r" using plain_name[OF f(1)] r(1) by auto
    moreover have "r \<noteq> n" using f(2) r(1) by (auto simp: suffix_def)
    ultimately show ?thesis using name_at_eq[OF n(1) nn(1), of r] r(2) by simp
  next
    fix r assume r: "enc_value (snd f) @ [0x26] = r @ t"
    then have "0x26 \<in> set t" using t by (metis last_appendR last_in_set last_snoc)
    moreover have "0x3d \<notin> set t"
    proof -
      have "set t \<subseteq> set (enc_value (snd f) @ [0x26])" using r by auto
      then show ?thesis using enc_chars by fastforce
    qed
    ultimately show ?thesis using name_at_eq[OF n(1) nn(1), of "t @ u" p] nn by auto
  qed
qed

lemma find_name_form:
  assumes "list_all field_ok fs" and "i < length fs" and "\<And>j. j < i \<Longrightarrow> \<not> suffix (fst (fs ! i)) (fst (fs ! j))"
    and "length (enc_form fs) \<le> k" and "value_end p"
  shows "\<exists>q. find_name (fst (fs ! i)) k (enc_form fs @ p) = Some (enc_value (snd (fs ! i)) @ q) \<and> value_end q"
  using assms(1-4)
proof (induction fs arbitrary: i k)
  case (Cons f fs)
  let ?n = "fst ((f # fs) ! i)"
  have n: "?n \<noteq> []" "list_all plain ?n"
    using Cons.prems(1,2) by (metis field_ok_def list_all_length)+
  show ?case
  proof (cases i)
    case 0
    obtain q where q: "enc_form (f # fs) @ p = enc_field f @ q" "value_end q"
    proof (cases fs)
      case Nil
      then show ?thesis using that[of p] assms(5) by simp
    next
      case (Cons g gs)
      then show ?thesis using that[of "0x26 # enc_form fs @ p"] by (simp add: value_end_def deref_byte_def)
    qed
    have "length (enc_field f) \<le> k"
      using Cons.prems(4) by (cases fs) auto
    then obtain k' where k: "k = Suc k'" by (cases k) (auto simp: enc_field_def)
    have "0x3d \<notin> set (fst f)" using n plain_name 0 by auto
    then have "name_at (fst f) (fst f @ 0x3d # enc_value (snd f) @ q)"
      using name_at_eq[of "fst f" "fst f"] n 0 by simp
    then have "find_name (fst f) k (enc_field f @ q) = Some (enc_value (snd f) @ q)"
      by (simp add: k enc_field_def)
    with 0 q show ?thesis by auto
  next
    case (Suc i')
    then have fs: "fs \<noteq> []" "i' < length fs" using Cons.prems(2) by auto
    obtain r where r: "enc_form fs = fst (hd fs) @ 0x3d # r" using enc_form_hd[OF fs(1)] by auto
    have hd: "list_all plain (fst (hd fs))" using Cons.prems(1) fs(1) by (cases fs) (auto simp: field_ok_def)
    obtain k' where k: "k = length (enc_field f @ [0x26]) + k'" "length (enc_form fs) \<le> k'"
      using Cons.prems(4) by (auto simp: enc_form_Cons[OF fs(1)] le_iff_add)
    have pf: "list_all plain (fst f)" "\<not> suffix ?n (fst f)"
      using Cons.prems(1) Cons.prems(3)[of 0] Suc by (auto simp: field_ok_def)
    have e: "enc_form (f # fs) @ p = (enc_field f @ [0x26]) @ fst (hd fs) @ 0x3d # (r @ p)"
      by (simp add: enc_form_Cons[OF fs(1)] r)
    have "find_name ?n k (enc_form (f # fs) @ p) = find_name ?n k' (enc_form fs @ p)"
      unfolding e k(1) find_name_field[OF n pf hd] by (simp add: r)
    moreover have "\<exists>q. find_name (fst (fs ! i')) k' (enc_form fs @ p) = Some (enc_value (snd (fs ! i')) @ q) \<and> value_end q"
    proof (rule Cons.IH)
      show "\<not> suffix (fst (fs ! i')) (fst (fs ! j))" if "j < i'" for j
        using Cons.prems(3)[of "Suc j"] that Suc by simp
    qed (use Cons.prems(1) fs(2) k(2) in auto)
    ultimately show ?thesis using Suc by simp
  qed
qed simp

text \<open>The value of a field is found and decoded.\<close>

lemma search_field:
  assumes "list_all field_ok fs" and "i < length fs" and "fs ! i = (name, v)"
    and "\<And>j. j < i \<Longrightarrow> \<not> suffix name (fst (fs ! j))"
    and "length (enc_form fs) \<le> l" and "value_end p"
    and "length v < n" and "2 \<le> n" and "n < 256"
  shows "http_search_body (enc_form fs @ p) l name n = Some v"
proof -
  have "\<not> suffix (fst (fs ! i)) (fst (fs ! j))" if "j < i" for j
    using assms(3) assms(4)[OF that] by simp
  then obtain q where q: "find_name name l (enc_form fs @ p) = Some (enc_value v @ q)" "value_end q"
    using find_name_form[OF assms(1,2) _ assms(5,6)] assms(3) by auto
  have "get_value (turns n) (enc_value v @ q) = v"
    by (rule get_value_enc) (use assms(7-9) q(2) in \<open>auto simp: turns_eq\<close>)
  with q(1) show ?thesis by (simp add: http_search_body_def)
qed

end
