(* ===== verification/Web_State.thy ===== *)
theory Web_State
  imports Web_Form Shdsl_App
begin

text \<open>
  The data of the web server: a connection (\<open>struct httpd_state\<close> with its \<open>http_t\<close>, fields of
  \<open>httpd.h\<close>), the buffers and variables the connections share (\<open>httpd.c\<close>, \<open>webpost.c\<close>,
  \<open>webhnd.c\<close>), and the application the server configures.

  The record \<open>httpd\<close> holds the connection the global pointer \<open>hs\<close> points to together with what the
  parser of requests uses besides; \<open>web\<close> adds the rest.  Bytes that hold only 0 and 1 are truth values.
  A C array is a list of fixed length; an access outside of one gives \<open>None\<close>.
\<close>

section \<open>Connections\<close>

datatype file_type = STATIC | STATIC_SPC | DYNAMIC | DYNAMIC_NOSPC

text \<open>\<open>hs->file.type >= DYNAMIC\<close>\<close>

definition is_dynamic :: "file_type \<Rightarrow> bool" where
  "is_dynamic t \<longleftrightarrow> t = DYNAMIC \<or> t = DYNAMIC_NOSPC"

record fs_file =
  f_dat :: "u8 list"
  f_len :: int
  f_type :: file_type

datatype http_state = HTTP_METHOD | HTTP_URI | HTTP_VERSION | HTTP_HEADER | HTTP_BODY | HTTP_BOUNDARY
  | HTTP_MULTI_HEADER | HTTP_UPLOAD_CONTENT | HTTP_END

datatype upload_case = WEB_UPLOAD_IDLE | WEB_UPLOAD_SW | WEB_UPLOAD_CFG

text \<open>
  \<open>dataptr\<close> is the memory from the pointer on, \<open>dataptr_rom\<close> an offset into \<open>f_dat\<close>.  \<open>burns\<close>
  records what was written to the flash: block number and the 4096 bytes.
\<close>

record httpd =
  hstate :: http_state
  hfile :: fs_file
  hcount :: u16
  dataptr :: "u8 list"
  count_rom :: u16
  dataptr_rom :: nat
  hmethod :: u8
  uri_len :: u8
  uri :: "u8 list"
  body_i :: u16
  body_len :: u32
  boundary_len :: u8
  boundary_match :: u8
  prev_ch :: u8
  expect_iso_nl :: bool
  content_len_match :: u8
  content_type_match :: u8
  content_type_appl_match :: u8
  filename_match :: u8
  herror :: bool
  boundary_buf :: "u8 list"
  body_buf :: "u8 list"
  file_buff :: "u8 list"
  g_name :: "u8 list"
  g_filedownload :: bool
  upload_file_length :: u32
  g_totalpage :: u32
  g_filetype :: u8
  upload_busy :: bool
  web_upload_case :: upload_case
  burns :: "(u32 \<times> u8 list) list"

text \<open>
  \<open>hs_id\<close> tells the connections apart.  \<open>reboot_hs\<close> is a null pointer and stays one: the functions that
  would set it are compiled out.
\<close>

record 'h web = httpd +
  form_var :: "u8 list"
  submit_buf :: "u8 list"
  Vxy :: "u8 list"
  web_logged_in :: bool
  reboot_pending :: u8
  reboot_execute :: bool
  reboot_timer :: u8
  reboot_hs :: "nat option"
  hs_id :: nat
  app :: "'h shdsl"

definition MAX_URI_LEN :: nat where "MAX_URI_LEN = 80"
definition MAX_BODY_LEN :: nat where "MAX_BODY_LEN = 1000"
definition MAX_BOUNDARY_LEN :: nat where "MAX_BOUNDARY_LEN = 80"

section \<open>Surroundings\<close>

text \<open>The page texts, which a tool generates from the HTML files.\<close>

record web_pages =
  index_htm :: "u8 list"
  left_htm :: "u8 list"
  top_htm :: "u8 list"
  bg_gif :: "u8 list"
  sys_htm :: "u8 list"
  upload_htm :: "u8 list"
  uploaddone_htm :: "u8 list"
  config_htm :: "u8 list"
  default_css :: "u8 list"
  manage_htm :: "u8 list"
  status_htm :: "u8 list"

text \<open>
  \<open>web_env\<close>: the surroundings of the application, the pages, whether the flash device was found, the
  addresses the IP stack holds, the time stamp of the build, and what the stack held where
  \<open>web_build_dyn\<close> has its \<open>var_buf\<close> and \<open>http_process\<close> its \<open>j\<close>, both not initialised.
\<close>

record 'h web_env =
  senv_of :: "'h senv"
  pages :: web_pages
  spi_found :: bool
  ethaddr :: "u8 list"
  hostaddr :: "u16 \<times> u16"
  netmask :: "u16 \<times> u16"
  draddr :: "u16 \<times> u16"
  build_stamp :: "u8 list"
  var_junk :: "u8 list"
  j_junk :: int

text \<open>
  What the IP stack tells \<open>httpd_appcall\<close>: the flags of \<open>uip_flags\<close>, the data that arrived with what the
  buffer holds behind it, the number of bytes, the amount sent last and the maximal segment size.
\<close>

record uip_event =
  uip_connected :: bool
  uip_poll :: bool
  uip_newdata :: bool
  uip_acked :: bool
  uip_rexmit :: bool
  uip_closed :: bool
  uip_appdata :: "u8 list"
  uip_len :: u16
  conn_len :: u16
  uip_mss :: u16

datatype uip_action = Uip_abort | Uip_close | Uip_send "u8 list"

text \<open>Writing and reading arrays.\<close>

definition arr_set :: "nat \<Rightarrow> 'a \<Rightarrow> 'a list \<Rightarrow> 'a list option" where
  "arr_set i v a = (if i < length a then Some (a[i := v]) else None)"

definition arr_get :: "nat \<Rightarrow> 'a list \<Rightarrow> 'a option" where
  "arr_get i a = (if i < length a then Some (a ! i) else None)"

lemma arr_set_Some [simp]: "i < length a \<Longrightarrow> arr_set i v a = Some (a[i := v])"
  by (simp add: arr_set_def)

lemma arr_get_Some [simp]: "i < length a \<Longrightarrow> arr_get i a = Some (a ! i)"
  by (simp add: arr_get_def)

lemma arr_set_SomeD: "arr_set i v a = Some b \<Longrightarrow> i < length a \<and> b = a[i := v]"
  by (auto simp: arr_set_def split: if_splits)

lemma arr_get_SomeD: "arr_get i a = Some c \<Longrightarrow> i < length a \<and> c = a ! i"
  by (auto simp: arr_get_def split: if_splits)

end
