(* ===== verification/Http.thy ===== *)
theory Http
  imports Web_State
begin

text \<open>
  The parser of requests: \<open>http_process\<close> and \<open>http_process_init\<close> of \<open>httpd.c\<close>, with the writing of
  uploaded files to the flash (\<open>rt_burnapp\<close> of \<open>platform.c\<close>).

  The loop reads the segment byte by byte.  In the first state it looks ahead, at up to five bytes
  that may lie behind the data that arrived; there and at the arrays of the parser an access outside of
  the array gives \<open>None\<close>.
\<close>

section \<open>Characters and texts\<close>

abbreviation ISO_G :: u8 where "ISO_G \<equiv> 0x47"
abbreviation ISO_P :: u8 where "ISO_P \<equiv> 0x50"
abbreviation ISO_space :: u8 where "ISO_space \<equiv> 0x20"
abbreviation ISO_nl :: u8 where "ISO_nl \<equiv> 0x0a"
abbreviation ISO_cr :: u8 where "ISO_cr \<equiv> 0x0d"

definition content_length_text :: "u8 list" where
  "content_length_text = bytes ''Content-Length: ''"

definition content_type_upload_text :: "u8 list" where
  "content_type_upload_text = bytes ''CONTENT-TYPE: MULTIPART/FORM-DATA; BOUNDARY=''"

definition content_type_appl_text :: "u8 list" where
  "content_type_appl_text = bytes ''CONTENT-TYPE: APPLICATION/OCTET-STREAM''"

definition content_filename_text :: "u8 list" where
  "content_filename_text = bytes ''filename=''"

section \<open>Flash\<close>

text \<open>The first block of the area a file type is written to.\<close>

definition burn_base :: "u8 \<Rightarrow> u32 option" where
  "burn_base filetype =
     (if filetype = 1 then Some 0x100 else if filetype = 2 then Some 0 else if filetype = 3 then Some 50
      else if filetype = 4 then Some 0x180 else if filetype = 5 then Some 0x1ff else None)"

definition rt_burnapp :: "bool \<Rightarrow> u8 list \<Rightarrow> u32 \<Rightarrow> u8 \<Rightarrow> 'a httpd_scheme \<Rightarrow> 'a httpd_scheme" where
  "rt_burnapp spi buf pos filetype w =
     (if spi
      then case burn_base filetype of
             None \<Rightarrow> w
           | Some base \<Rightarrow> w\<lparr>burns := burns w @ [(base + pos, buf)]\<rparr>
      else w)"

text \<open>An upload is started even when one is going on: the result of \<open>reserve_updown_load\<close> comes too late.\<close>

definition reserve_updown_load :: "'a httpd_scheme \<Rightarrow> bool \<times> 'a httpd_scheme" where
  "reserve_updown_load w = (if upload_busy w then (False, w) else (True, w\<lparr>upload_busy := True\<rparr>))"

definition release_updown_load :: "'a httpd_scheme \<Rightarrow> 'a httpd_scheme" where
  "release_updown_load w = w\<lparr>upload_busy := False\<rparr>"

definition web_upload_init :: "u8 list \<Rightarrow> 'a httpd_scheme \<Rightarrow> 'a httpd_scheme" where
  "web_upload_init name w =
     (let w1 = w\<lparr>web_upload_case := WEB_UPLOAD_CFG, upload_file_length := 0, g_filedownload := True\<rparr>;
          (ok, w2) = reserve_updown_load w1
      in if ok \<and> take 11 name = bytes ''/fileupload''
         then w2\<lparr>web_upload_case := WEB_UPLOAD_CFG, upload_file_length := 0\<rparr> else w2)"

section \<open>The states\<close>

definition http_process_init :: "'a httpd_scheme \<Rightarrow> 'a httpd_scheme" where
  "http_process_init w =
     w\<lparr>hstate := HTTP_METHOD, hcount := 0, hmethod := 0, prev_ch := 0, expect_iso_nl := False,
       boundary_len := 0, boundary_match := 0, body_len := 0, body_i := 0, uri_len := 0,
       content_len_match := 0, content_type_match := 0, content_type_appl_match := 0,
       filename_match := 0, herror := False\<rparr>"

text \<open>The comparison of the next bytes stops at the first that differs.\<close>

fun look_ahead :: "u8 list \<Rightarrow> nat \<Rightarrow> u8 list \<Rightarrow> bool option" where
  "look_ahead buf i [] = Some True"
| "look_ahead buf i (c # cs) =
     (case arr_get i buf of None \<Rightarrow> None
      | Some d \<Rightarrow> if d = c then look_ahead buf (Suc i) cs else Some False)"

definition http_method_step ::
  "u8 list \<Rightarrow> nat \<Rightarrow> u16 \<Rightarrow> 'a httpd_scheme \<Rightarrow> (nat \<times> u16 \<times> 'a httpd_scheme) option" where
  "http_method_step buf i remainder w =
     (case look_ahead buf i (bytes ''GET '') of
        None \<Rightarrow> None
      | Some True \<Rightarrow> Some (i + 3, remainder - 3, w\<lparr>hmethod := ISO_G, hstate := HTTP_URI\<rparr>)
      | Some False \<Rightarrow>
          (case look_ahead buf i (bytes ''POST '') of
             None \<Rightarrow> None
           | Some True \<Rightarrow> Some (i + 4, remainder - 4, w\<lparr>hmethod := ISO_P, hstate := HTTP_URI\<rparr>)
           | Some False \<Rightarrow> Some (i, remainder, w\<lparr>hmethod := 0, hstate := HTTP_END\<rparr>)))"

definition http_uri_step :: "u8 \<Rightarrow> 'a httpd_scheme \<Rightarrow> 'a httpd_scheme option" where
  "http_uri_step ch w =
     (if ch = ISO_space then Some (w\<lparr>hstate := HTTP_VERSION\<rparr>)
      else if ch = ISO_cr then Some (w\<lparr>hstate := HTTP_END\<rparr>)
      else if unat (uri_len w) < MAX_URI_LEN
      then map_option (\<lambda>u. w\<lparr>uri := u, uri_len := uri_len w + 1\<rparr>) (arr_set (unat (uri_len w)) ch (uri w))
      else Some (w\<lparr>herror := True, hstate := HTTP_END\<rparr>))"

text \<open>Two dashes are put behind the boundary at the end of every header line.\<close>

definition close_boundary :: "'a httpd_scheme \<Rightarrow> 'a httpd_scheme option" where
  "close_boundary w =
     (if boundary_len w \<noteq> 0
      then case arr_set (unat (boundary_len w)) 0x2d (boundary_buf w) of
             None \<Rightarrow> None
           | Some b \<Rightarrow>
               map_option (\<lambda>b'. w\<lparr>boundary_buf := b'\<rparr>) (arr_set (unat (boundary_len w) + 1) 0x2d b)
      else Some w)"

definition match_length :: "u8 \<Rightarrow> 'a httpd_scheme \<Rightarrow> 'a httpd_scheme option" where
  "match_length ch w =
     map_option (\<lambda>r. if ch = conv_to_upper_case r then w\<lparr>content_len_match := content_len_match w + 1\<rparr>
                     else w\<lparr>content_len_match := 0\<rparr>)
       (arr_get (unat (content_len_match w)) (content_length_text @ [0]))"

definition match_upload :: "u8 \<Rightarrow> 'a httpd_scheme \<Rightarrow> 'a httpd_scheme option" where
  "match_upload ch w =
     map_option (\<lambda>r. let r = conv_to_upper_case r
        in if ch = r \<or> r = 0x3b \<or> r = 0x20
           then let w1 = w\<lparr>content_type_match := content_type_match w + 1\<rparr>
                in if unat (content_type_match w1) = length content_type_upload_text
                   then w1\<lparr>boundary_buf := (boundary_buf w1)[0 := 0x2d, 1 := 0x2d], boundary_len := 2\<rparr>
                   else w1
           else w\<lparr>content_type_match := 0\<rparr>)
       (arr_get (unat (content_type_match w)) (content_type_upload_text @ [0]))"

text \<open>The byte, changed to upper case where the code changes it, is kept as the previous one.\<close>

definition http_header_step :: "u8 \<Rightarrow> 'a httpd_scheme \<Rightarrow> (u8 \<times> 'a httpd_scheme) option" where
  "http_header_step ch w =
     (if ch = ISO_cr \<and> prev_ch w = ISO_nl
      then Some (ch, (if hmethod w = ISO_P
             then (if boundary_len w \<noteq> 0 then w\<lparr>hstate := HTTP_BOUNDARY, boundary_match := 0\<rparr>
                   else w\<lparr>hstate := HTTP_BODY\<rparr>)
             else w\<lparr>hstate := HTTP_END\<rparr>)\<lparr>expect_iso_nl := True\<rparr>)
      else if hmethod w = ISO_P
      then (if ch = ISO_cr
            then map_option (Pair ch)
                   (close_boundary (w\<lparr>expect_iso_nl := True, content_len_match := 0, content_type_match := 0\<rparr>))
            else if unat (content_len_match w) = length content_length_text
            then let n = (if 0x30 \<le> ch \<and> ch \<le> 0x39 then body_len w * 10 + ucast (ch - 0x30) else body_len w)
                 in Some (ch, w\<lparr>body_len := (if unat n > MAX_BODY_LEN then of_nat MAX_BODY_LEN else n)\<rparr>)
            else if unat (content_type_match w) = length content_type_upload_text
            then (if unat (boundary_len w) < MAX_BOUNDARY_LEN
                  then map_option (\<lambda>b. (ch, w\<lparr>boundary_buf := b, boundary_len := boundary_len w + 1\<rparr>))
                         (arr_set (unat (boundary_len w)) ch (boundary_buf w))
                  else Some (ch, w))
            else let ch = conv_to_upper_case ch
                 in case match_length ch w of
                      None \<Rightarrow> None
                    | Some w1 \<Rightarrow> map_option (Pair ch) (match_upload ch w1))
      else Some (ch, w))"

definition http_body_step :: "u8 \<Rightarrow> 'a httpd_scheme \<Rightarrow> 'a httpd_scheme option" where
  "http_body_step ch w =
     (if ch = ISO_cr
      then map_option (\<lambda>b. w\<lparr>hstate := HTTP_END, body_buf := b\<rparr>) (arr_set (unat (body_i w)) 0 (body_buf w))
      else case (if unat (body_i w) < unat (body_len w)
                 then map_option (\<lambda>b. w\<lparr>body_buf := b, body_i := body_i w + 1\<rparr>)
                        (arr_set (unat (body_i w)) ch (body_buf w))
                 else Some w) of
             None \<Rightarrow> None
           | Some w1 \<Rightarrow>
               if unat (body_i w1) \<ge> unat (body_len w1)
               then map_option (\<lambda>b. w1\<lparr>hstate := HTTP_END, body_buf := b\<rparr>)
                      (arr_set (unat (body_i w1)) 0 (body_buf w1))
               else Some w1)"

definition http_boundary_step :: "u8 \<Rightarrow> 'a httpd_scheme \<Rightarrow> 'a httpd_scheme option" where
  "http_boundary_step ch w =
     (if boundary_match w < boundary_len w
      then map_option (\<lambda>b. w\<lparr>boundary_match := (if ch = b then boundary_match w + 1 else 0)\<rparr>)
             (arr_get (unat (boundary_match w)) (boundary_buf w))
      else Some (if ch = ISO_cr then w\<lparr>expect_iso_nl := True, hstate := HTTP_MULTI_HEADER\<rparr> else w))"

text \<open>
  The header of a part: \<open>j\<close>, the local variable of \<open>http_process\<close>, is the place in \<open>g_name\<close> for the next
  character of the file name, -1 behind its end.
\<close>

definition name_set :: "int \<Rightarrow> u8 \<Rightarrow> 'a httpd_scheme \<Rightarrow> 'a httpd_scheme option" where
  "name_set j ch w =
     (if j < 0 then None else map_option (\<lambda>b. w\<lparr>g_name := b\<rparr>) (arr_set (nat j) ch (g_name w)))"

definition match_appl :: "u8 \<Rightarrow> 'a httpd_scheme \<Rightarrow> 'a httpd_scheme" where
  "match_appl ch w =
     (if unat (content_type_appl_match w) < length content_type_appl_text
      then let r = conv_to_upper_case (content_type_appl_text ! unat (content_type_appl_match w))
           in if conv_to_upper_case ch = r \<or> r = 0x20
              then w\<lparr>content_type_appl_match := content_type_appl_match w + 1\<rparr>
              else w\<lparr>content_type_appl_match := 0\<rparr>
      else w)"

definition match_filename :: "u8 \<Rightarrow> int \<Rightarrow> 'a httpd_scheme \<Rightarrow> (int \<times> 'a httpd_scheme) option" where
  "match_filename ch j w =
     (if unat (filename_match w) < length content_filename_text
      then let r = conv_to_upper_case (content_filename_text ! unat (filename_match w))
           in if conv_to_upper_case ch = r \<or> r = 0x20
              then Some (j, w\<lparr>filename_match := filename_match w + 1\<rparr>)
              else Some (0, w\<lparr>filename_match := 0\<rparr>)
      else if ch = 0x22
      then (if j \<noteq> 0 then map_option (Pair (-1)) (name_set j 0 w) else Some (j, w))
      else (if j \<noteq> -1 then map_option (Pair (j + 1)) (name_set j ch w) else Some (j, w)))"

definition name_is :: "u8 list \<Rightarrow> string \<Rightarrow> bool" where
  "name_is name s \<longleftrightarrow> take (length s + 1) name = bytes s @ [0]"

text \<open>Which file is uploaded.\<close>

definition upload_file :: "'a httpd_scheme \<Rightarrow> 'a httpd_scheme" where
  "upload_file w =
     (let w1 = (web_upload_init (uri w) w)\<lparr>g_totalpage := 0\<rparr>
      in if name_is (g_name w) ''rtthread.bin'' then w1\<lparr>g_filetype := 1\<rparr>
         else if name_is (g_name w) ''shdsl.bin'' then w1\<lparr>g_filetype := 2\<rparr>
         else if name_is (g_name w) ''IDC.bin'' then w1\<lparr>g_filetype := 3\<rparr>
         else if name_is (g_name w) ''remedy.bin'' then w1\<lparr>g_filetype := 4\<rparr>
         else w\<lparr>g_filedownload := False, g_filetype := 0xff\<rparr>)"

definition http_multi_step :: "u8 \<Rightarrow> int \<Rightarrow> 'a httpd_scheme \<Rightarrow> (int \<times> 'a httpd_scheme) option" where
  "http_multi_step ch j w =
     (case match_filename ch j (match_appl ch w) of
        None \<Rightarrow> None
      | Some (j1, w1) \<Rightarrow>
          Some (j1, if ch = ISO_cr \<and> prev_ch w = ISO_nl
                    then (upload_file (w1\<lparr>hstate := HTTP_UPLOAD_CONTENT\<rparr>))\<lparr>expect_iso_nl := True, boundary_match := 0\<rparr>
                    else w1))"

definition upload_store :: "bool \<Rightarrow> u8 \<Rightarrow> 'a httpd_scheme \<Rightarrow> 'a httpd_scheme option" where
  "upload_store spi ch w =
     (if g_filedownload w
      then case arr_set (unat (upload_file_length w)) ch (file_buff w) of
             None \<Rightarrow> None
           | Some b \<Rightarrow>
               let w1 = w\<lparr>file_buff := b, upload_file_length := upload_file_length w + 1\<rparr>
               in Some (if upload_file_length w1 = 4096
                        then (rt_burnapp spi (file_buff w1) (g_totalpage w1) (g_filetype w1) w1)
                               \<lparr>g_totalpage := g_totalpage w1 + 1, upload_file_length := 0\<rparr>
                        else w1)
      else Some w)"

definition http_upload_step :: "bool \<Rightarrow> u8 \<Rightarrow> 'a httpd_scheme \<Rightarrow> 'a httpd_scheme option" where
  "http_upload_step spi ch w =
     (if unat (boundary_match w) < unat (boundary_len w) + 2
      then case arr_get (unat (boundary_match w)) (boundary_buf w) of
             None \<Rightarrow> None
           | Some b \<Rightarrow>
               map_option (\<lambda>w1. w1\<lparr>hcount := 0\<rparr>)
                 (upload_store spi ch (w\<lparr>boundary_match := (if ch = b then boundary_match w + 1 else 0)\<rparr>))
      else if ch = ISO_cr
      then Some (w\<lparr>hstate := HTTP_END,
                   upload_file_length := upload_file_length w - (ucast (boundary_len w) + 2 + 2)\<rparr>)
      else map_option (\<lambda>w1. w1\<lparr>hcount := 0\<rparr>) (upload_store spi ch w))"

section \<open>The loop\<close>

text \<open>One byte in any state but the first.\<close>

definition http_char :: "bool \<Rightarrow> u8 \<Rightarrow> int \<times> 'a httpd_scheme \<Rightarrow> (int \<times> 'a httpd_scheme) option" where
  "http_char spi ch = (\<lambda>(j, w).
     if expect_iso_nl w
     then Some (j, (if ch \<noteq> ISO_nl then w\<lparr>expect_iso_nl := False, herror := True, hstate := HTTP_END\<rparr>
                    else w\<lparr>expect_iso_nl := False\<rparr>)\<lparr>prev_ch := ch\<rparr>)
     else case hstate w of
       HTTP_METHOD \<Rightarrow> Some (j, w\<lparr>prev_ch := ch\<rparr>)
     | HTTP_URI \<Rightarrow> map_option (\<lambda>w1. (j, w1\<lparr>prev_ch := ch\<rparr>)) (http_uri_step ch w)
     | HTTP_VERSION \<Rightarrow> Some (j, (if ch = ISO_nl then w\<lparr>hstate := HTTP_HEADER\<rparr> else w)\<lparr>prev_ch := ch\<rparr>)
     | HTTP_HEADER \<Rightarrow> map_option (\<lambda>(ch1, w1). (j, w1\<lparr>prev_ch := ch1\<rparr>)) (http_header_step ch w)
     | HTTP_BODY \<Rightarrow> map_option (\<lambda>w1. (j, w1\<lparr>prev_ch := ch\<rparr>)) (http_body_step ch w)
     | HTTP_BOUNDARY \<Rightarrow> map_option (\<lambda>w1. (j, w1\<lparr>prev_ch := ch\<rparr>)) (http_boundary_step ch w)
     | HTTP_MULTI_HEADER \<Rightarrow> map_option (\<lambda>(j1, w1). (j1, w1\<lparr>prev_ch := ch\<rparr>)) (http_multi_step ch j w)
     | HTTP_UPLOAD_CONTENT \<Rightarrow> map_option (\<lambda>w1. (j, w1\<lparr>prev_ch := ch\<rparr>)) (http_upload_step spi ch w)
     | HTTP_END \<Rightarrow> Some (j, w\<lparr>prev_ch := ch\<rparr>))"

text \<open>One turn of the loop: \<open>i\<close> is the place of \<open>dat\<close> in the buffer.  \<open>remainder\<close> has 16 bits.\<close>

definition http_turn ::
  "bool \<Rightarrow> u8 list \<Rightarrow> nat \<Rightarrow> u16 \<Rightarrow> int \<times> 'a httpd_scheme \<Rightarrow> (nat \<times> u16 \<times> int \<times> 'a httpd_scheme) option" where
  "http_turn spi buf i remainder = (\<lambda>(j, w).
     case arr_get i buf of
       None \<Rightarrow> None
     | Some ch \<Rightarrow>
         if \<not> expect_iso_nl w \<and> hstate w = HTTP_METHOD
         then map_option (\<lambda>(i1, rem, w1). (i1 + 1, rem, j, w1\<lparr>prev_ch := ch\<rparr>))
                (http_method_step buf i (remainder - 1) w)
         else map_option (\<lambda>s. (i + 1, remainder - 1, s)) (http_char spi ch (j, w)))"

lemmas http_steps = http_uri_step_def http_header_step_def http_body_step_def http_boundary_step_def
  http_multi_step_def http_upload_step_def close_boundary_def match_length_def match_upload_def
  match_filename_def match_appl_def name_set_def upload_store_def arr_get_def arr_set_def Let_def

lemma upload_frame [simp]:
  "hstate (rt_burnapp spi b p t w) = hstate w" "hstate (web_upload_init n w) = hstate w"
  "hstate (upload_file w) = hstate w"
  by (simp_all add: rt_burnapp_def web_upload_init_def reserve_updown_load_def upload_file_def Let_def
      split: option.splits)

lemma match_length_state: "match_length ch w = Some w1 \<Longrightarrow> hstate w1 = hstate w"
  by (clarsimp simp: http_steps split: if_split_asm)

lemma match_upload_state: "match_upload ch w = Some w1 \<Longrightarrow> hstate w1 = hstate w"
  by (clarsimp simp: http_steps split: if_split_asm)

lemma close_boundary_state: "close_boundary w = Some w1 \<Longrightarrow> hstate w1 = hstate w"
  by (clarsimp simp: http_steps split: if_split_asm option.split_asm)

lemma upload_store_state: "upload_store spi ch w = Some w1 \<Longrightarrow> hstate w1 = hstate w"
  by (clarsimp simp: http_steps split: if_split_asm option.split_asm)

lemma match_filename_state: "match_filename ch j w = Some (j1, w1) \<Longrightarrow> hstate w1 = hstate w"
  by (clarsimp simp: http_steps split: if_split_asm option.split_asm)

lemma match_appl_state [simp]: "hstate (match_appl ch w) = hstate w"
  by (simp add: match_appl_def Let_def)

lemma header_step_state:
  assumes "http_header_step ch w = Some (c, w1)" and "hstate w = HTTP_HEADER"
  shows "hstate w1 \<noteq> HTTP_METHOD"
  using assms unfolding http_header_step_def Let_def
  by (clarsimp split: if_split_asm option.split_asm)
    (auto dest!: close_boundary_state match_length_state match_upload_state)

lemma step_states:
  "http_uri_step ch w = Some w1 \<Longrightarrow> hstate w = HTTP_URI \<Longrightarrow> hstate w1 \<noteq> HTTP_METHOD"
  "http_body_step ch w = Some w1 \<Longrightarrow> hstate w = HTTP_BODY \<Longrightarrow> hstate w1 \<noteq> HTTP_METHOD"
  "http_boundary_step ch w = Some w1 \<Longrightarrow> hstate w = HTTP_BOUNDARY \<Longrightarrow> hstate w1 \<noteq> HTTP_METHOD"
  by (clarsimp simp: http_uri_step_def http_body_step_def http_boundary_step_def arr_set_def arr_get_def
      split: if_split_asm option.split_asm)+

lemma step_states2:
  "http_multi_step ch j w = Some (j1, w1) \<Longrightarrow> hstate w = HTTP_MULTI_HEADER \<Longrightarrow> hstate w1 \<noteq> HTTP_METHOD"
  "http_upload_step spi ch w = Some w1 \<Longrightarrow> hstate w = HTTP_UPLOAD_CONTENT \<Longrightarrow> hstate w1 \<noteq> HTTP_METHOD"
proof -
  show "http_multi_step ch j w = Some (j1, w1) \<Longrightarrow> hstate w = HTTP_MULTI_HEADER \<Longrightarrow> hstate w1 \<noteq> HTTP_METHOD"
    by (clarsimp simp: http_multi_step_def split: option.split_asm prod.split_asm if_split_asm)
      (auto dest!: match_filename_state)
  show "http_upload_step spi ch w = Some w1 \<Longrightarrow> hstate w = HTTP_UPLOAD_CONTENT \<Longrightarrow> hstate w1 \<noteq> HTTP_METHOD"
    by (clarsimp simp: http_upload_step_def split: option.split_asm if_split_asm)
      (auto dest!: upload_store_state)
qed

lemma http_char_state:
  assumes "http_char spi ch (j, w) = Some (j1, w1)" and "hstate w1 = HTTP_METHOD"
  shows "hstate w = HTTP_METHOD"
proof (rule ccontr)
  assume n: "hstate w \<noteq> HTTP_METHOD"
  show False
    using assms n
    by (clarsimp simp: http_char_def split: if_split_asm http_state.split_asm)
      (auto dest: step_states step_states2 header_step_state)
qed

text \<open>
  The first state is left once and for all, which gives the remainder, having wrapped around below
  zero in the look-ahead, at most one more round of 16 bits: the loop ends.
\<close>

definition loop_measure :: "u16 \<Rightarrow> int \<times> 'a httpd_scheme \<Rightarrow> nat" where
  "loop_measure remainder s = (if hstate (snd s) = HTTP_METHOD then 65536 else 0) + unat remainder"

lemma u16_dec: "r \<noteq> 0 \<Longrightarrow> unat (r - 1 :: u16) < unat r"
  by (simp add: unat_minus_one unat_gt_0)

lemma http_turn_measure:
  assumes "http_turn spi buf i r s = Some (i1, r1, s1)" and "r \<noteq> 0"
  shows "loop_measure r1 s1 < loop_measure r s"
proof -
  obtain j w where s: "s = (j, w)" by fastforce
  obtain ch where ch: "arr_get i buf = Some ch" using assms(1) by (auto simp: http_turn_def s split: option.splits)
  have d: "unat (r - 1) < unat r" using assms(2) by (rule u16_dec)
  show ?thesis
  proof (cases "\<not> expect_iso_nl w \<and> hstate w = HTTP_METHOD")
    case True
    then obtain w1 where m: "http_method_step buf i (r - 1) w = Some (i1 - 1, r1, w1)" "s1 = (j, w1\<lparr>prev_ch := ch\<rparr>)"
      using assms(1) by (clarsimp simp: http_turn_def s ch)
    then have "hstate w1 \<noteq> HTTP_METHOD"
      by (clarsimp simp: http_method_step_def split: option.split_asm bool.split_asm)
    moreover have "unat r1 < 65536" using unsigned_less[of r1] by simp
    ultimately show ?thesis using True m(2) by (simp add: loop_measure_def s)
  next
    case False
    then have c: "http_char spi ch (j, w) = Some s1" "r1 = r - 1"
      using assms(1) by (clarsimp simp: http_turn_def s ch)+
    obtain j1 w1 where s1: "s1 = (j1, w1)" by fastforce
    have "hstate w1 = HTTP_METHOD \<Longrightarrow> hstate w = HTTP_METHOD"
      using http_char_state c(1) s1 by blast
    with d c(2) show ?thesis by (auto simp: loop_measure_def s s1)
  qed
qed

function http_loop :: "bool \<Rightarrow> u8 list \<Rightarrow> nat \<Rightarrow> u16 \<Rightarrow> int \<times> 'a httpd_scheme \<Rightarrow> 'a httpd_scheme option" where
  "http_loop spi buf i remainder s =
     (if remainder = 0 then Some (snd s)
      else case http_turn spi buf i remainder s of
             None \<Rightarrow> None
           | Some (i1, r1, s1) \<Rightarrow> http_loop spi buf i1 r1 s1)"
  by pat_completeness auto
termination
  by (relation "measure (\<lambda>(spi, buf, i, r, s). loop_measure r s)") (auto intro: http_turn_measure)

definition http_process :: "'h web_env \<Rightarrow> uip_event \<Rightarrow> 'a httpd_scheme \<Rightarrow> 'a httpd_scheme option" where
  "http_process env ev w = http_loop (spi_found env) (uip_appdata ev) 0 (uip_len ev) (j_junk env, w)"

declare http_loop.simps [simp del]

section \<open>Bytes in sequence\<close>

text \<open>Outside of the first state the loop handles the bytes one after the other.\<close>

fun http_bytes :: "bool \<Rightarrow> u8 list \<Rightarrow> int \<times> 'a httpd_scheme \<Rightarrow> (int \<times> 'a httpd_scheme) option" where
  "http_bytes spi [] s = Some s"
| "http_bytes spi (c # cs) s =
     (case http_char spi c s of None \<Rightarrow> None | Some s1 \<Rightarrow> http_bytes spi cs s1)"

lemma http_bytes_append:
  "http_bytes spi (xs @ ys) s =
     (case http_bytes spi xs s of None \<Rightarrow> None | Some s1 \<Rightarrow> http_bytes spi ys s1)"
  by (induction xs arbitrary: s) (auto split: option.split)

lemma http_loop_bytes:
  assumes "hstate (snd s) \<noteq> HTTP_METHOD" and "i + unat r \<le> length buf"
  shows "http_loop spi buf i r s = map_option snd (http_bytes spi (take (unat r) (drop i buf)) s)"
  using assms
proof (induction "unat r" arbitrary: i r s)
  case 0
  then have "r = 0" by (simp add: unat_eq_zero)
  then show ?case by (simp add: http_loop.simps)
next
  case (Suc n)
  obtain j w where s: "s = (j, w)" by fastforce
  have r: "r \<noteq> 0" using Suc.hyps(2) by auto
  have n: "n = unat (r - 1)" using Suc.hyps(2) r by (simp add: unat_minus_one)
  have i: "i < length buf" using Suc.prems(2) Suc.hyps(2) by simp
  then have t: "take (unat r) (drop i buf) = buf ! i # take n (drop (i + 1) buf)"
    by (simp add: Suc.hyps(2)[symmetric] Cons_nth_drop_Suc[symmetric])
  have turn: "http_turn spi buf i r s = map_option (\<lambda>s. (i + 1, r - 1, s)) (http_char spi (buf ! i) s)"
    using i Suc.prems(1) by (simp add: http_turn_def s)
  show ?case
  proof (cases "http_char spi (buf ! i) s")
    case None
    then show ?thesis using r by (subst http_loop.simps) (simp add: t turn)
  next
    case (Some s1)
    obtain j1 w1 where s1: "s1 = (j1, w1)" by fastforce
    have "hstate (snd s1) \<noteq> HTTP_METHOD"
      using http_char_state[of spi "buf ! i" j w j1 w1] Some Suc.prems(1) by (auto simp: s s1)
    then have "http_loop spi buf (i + 1) (r - 1) s1 =
        map_option snd (http_bytes spi (take n (drop (i + 1) buf)) s1)"
      using Suc.hyps(1)[OF n, of s1 "i + 1"] Suc.prems(2) Suc.hyps(2) n by simp
    then show ?thesis using r Some by (subst http_loop.simps) (simp add: t turn)
  qed
qed

section \<open>The arrays of the parser\<close>

definition http_arrays :: "'a httpd_scheme \<Rightarrow> bool" where
  "http_arrays w \<longleftrightarrow> length (uri w) = MAX_URI_LEN + 4 \<and> length (boundary_buf w) = MAX_BOUNDARY_LEN \<and>
     length (body_buf w) = MAX_BODY_LEN + 4 \<and> length (file_buff w) = 4096 \<and> length (g_name w) = 30"

definition http_counts :: "'a httpd_scheme \<Rightarrow> bool" where
  "http_counts w \<longleftrightarrow> unat (uri_len w) \<le> MAX_URI_LEN \<and> unat (body_i w) \<le> unat (body_len w) \<and>
     unat (body_len w) \<le> MAX_BODY_LEN \<and> unat (boundary_len w) \<le> MAX_BOUNDARY_LEN \<and>
     unat (content_len_match w) \<le> 16 \<and> unat (content_type_match w) \<le> 44 \<and>
     unat (filename_match w) \<le> 9"

definition http_inv :: "'a httpd_scheme \<Rightarrow> bool" where
  "http_inv w \<longleftrightarrow> http_arrays w \<and> http_counts w \<and>
     (g_filedownload w \<and> hstate w \<noteq> HTTP_END \<longrightarrow> unat (upload_file_length w) < 4096)"

lemmas http_inv_defs = http_inv_def http_arrays_def http_counts_def MAX_URI_LEN_def MAX_BODY_LEN_def
  MAX_BOUNDARY_LEN_def

lemma text_lengths [simp]:
  "length content_length_text = 16" "length content_type_upload_text = 44"
  "length content_type_appl_text = 38" "length content_filename_text = 9"
  by (simp_all add: content_length_text_def content_type_upload_text_def content_type_appl_text_def
      content_filename_text_def bytes_def)

lemma unat_Suc_u8: "unat x < 255 \<Longrightarrow> unat (x + 1 :: u8) = unat x + 1"
  by (simp add: unat_word_ariths)

lemma unat_Suc_u16: "unat x < 65535 \<Longrightarrow> unat (x + 1 :: u16) = unat x + 1"
  by (simp add: unat_word_ariths)

lemma unat_Suc_u32: "unat x < 4096 \<Longrightarrow> unat (x + 1 :: u32) = unat x + 1"
  by (simp add: unat_word_ariths)

lemma word_eq_4096: "unat (x :: u32) = 4096 \<longleftrightarrow> x = 4096"
  by (simp add: word_unat_eq_iff)

lemma digit_len:
  assumes "unat n \<le> 1000" and "0x30 \<le> ch" and "ch \<le> 0x39"
  shows "unat (n * 10 + ucast (ch - 0x30 :: u8) :: u32) = unat n * 10 + unat (ch - 0x30)"
proof -
  have "unat (ch - 0x30) < 2 ^ LENGTH(8)" by (rule unsigned_less)
  then show ?thesis using assms(1)
    by (simp add: unat_word_ariths unsigned_ucast_eq take_bit_eq_mod)
qed

lemma uri_step_safe:
  assumes "http_inv w" and "hstate w = HTTP_URI"
  shows "\<exists>w1. http_uri_step ch w = Some w1 \<and> http_inv w1"
  using assms by (auto simp: http_uri_step_def http_inv_defs unat_Suc_u8)

lemma body_step_safe:
  assumes "http_inv w" and "hstate w = HTTP_BODY"
  shows "\<exists>w1. http_body_step ch w = Some w1 \<and> http_inv w1"
  using assms by (auto simp: http_body_step_def http_inv_defs unat_Suc_u16)

lemma boundary_step_safe:
  assumes "http_inv w" and "hstate w = HTTP_BOUNDARY"
  shows "\<exists>w1. http_boundary_step ch w = Some w1 \<and> http_inv w1"
proof -
  have "boundary_match w < boundary_len w \<Longrightarrow> unat (boundary_match w) < 80"
    using assms(1) by (simp add: http_inv_defs word_less_nat_alt)
  then show ?thesis using assms by (auto simp: http_boundary_step_def http_inv_defs)
qed

lemma close_boundary_safe:
  assumes "http_inv w" and "unat (boundary_len w) < 79"
  shows "\<exists>w1. close_boundary w = Some w1 \<and> http_inv w1 \<and> hstate w1 = hstate w"
  using assms by (auto simp: close_boundary_def http_inv_defs)

lemma close_boundary_fault:
  "http_inv w \<Longrightarrow> 79 \<le> unat (boundary_len w) \<Longrightarrow> close_boundary w = None"
  by (auto simp: close_boundary_def http_inv_defs arr_set_def split: option.split)

lemma match_length_safe:
  assumes "http_inv w" and "unat (content_len_match w) \<noteq> 16"
  shows "\<exists>w1. match_length ch w = Some w1 \<and> http_inv w1 \<and> content_type_match w1 = content_type_match w"
  using assms by (auto simp: match_length_def http_inv_defs unat_Suc_u8)

lemma match_upload_safe:
  assumes "http_inv w" and "unat (content_type_match w) \<noteq> 44"
  shows "\<exists>w1. match_upload ch w = Some w1 \<and> http_inv w1"
  using assms by (auto simp: match_upload_def http_inv_defs unat_Suc_u8 Let_def)

definition header_fault :: "u8 \<Rightarrow> 'a httpd_scheme \<Rightarrow> bool" where
  "header_fault ch w \<longleftrightarrow> hmethod w = ISO_P \<and> ch = ISO_cr \<and> prev_ch w \<noteq> ISO_nl \<and> 79 \<le> unat (boundary_len w)"

lemma inv_simps [simp]:
  "http_inv (w\<lparr>expect_iso_nl := b\<rparr>) = http_inv w" "http_inv (w\<lparr>prev_ch := c\<rparr>) = http_inv w"
  "http_inv (w\<lparr>boundary_match := m\<rparr>) = http_inv w" "http_inv (w\<lparr>hcount := n\<rparr>) = http_inv w"
  "http_inv (w\<lparr>herror := b\<rparr>) = http_inv w" "http_inv (w\<lparr>content_type_appl_match := m\<rparr>) = http_inv w"
  "http_inv (w\<lparr>hmethod := m\<rparr>) = http_inv w"
  by (simp_all add: http_inv_defs)

lemma inv_state: "http_inv w \<Longrightarrow> hstate w \<noteq> HTTP_END \<Longrightarrow> http_inv (w\<lparr>hstate := s\<rparr>)"
  by (auto simp: http_inv_defs)

lemma header_step_safe:
  assumes "http_inv w" and "hstate w = HTTP_HEADER"
  shows "if header_fault ch w then http_header_step ch w = None
    else \<exists>c w1. http_header_step ch w = Some (c, w1) \<and> http_inv w1"
proof -
  let ?w = "w\<lparr>expect_iso_nl := True, content_len_match := 0, content_type_match := 0\<rparr>"
  have i: "http_inv ?w" using assms(1) by (simp add: http_inv_defs)
  consider "ch = ISO_cr" "prev_ch w = ISO_nl" | "hmethod w \<noteq> ISO_P" "\<not> (ch = ISO_cr \<and> prev_ch w = ISO_nl)"
    | "hmethod w = ISO_P" "ch = ISO_cr" "prev_ch w \<noteq> ISO_nl"
    | "hmethod w = ISO_P" "ch \<noteq> ISO_cr" by blast
  then show ?thesis
  proof cases
    case 1
    then show ?thesis using assms by (auto simp: header_fault_def http_header_step_def inv_state)
  next
    case 2
    then show ?thesis using assms by (auto simp: header_fault_def http_header_step_def)
  next
    case 3
    then show ?thesis using close_boundary_safe[OF i] close_boundary_fault[OF i]
      by (auto simp: header_fault_def http_header_step_def)
  next
    case 4
    then have nf: "\<not> header_fault ch w" by (simp add: header_fault_def)
    consider "unat (content_len_match w) = 16"
      | "unat (content_len_match w) \<noteq> 16" "unat (content_type_match w) = 44"
      | "unat (content_len_match w) \<noteq> 16" "unat (content_type_match w) \<noteq> 44" by blast
    then show ?thesis
    proof cases
      case 1
      have "unat (body_len w) \<le> 1000" "unat (body_i w) \<le> unat (body_len w)"
        using assms(1) by (simp_all add: http_inv_defs)
      then show ?thesis using 1 4 nf assms(1) digit_len[of "body_len w" ch]
        by (simp add: http_header_step_def http_inv_defs Let_def)
    next
      case 2
      then show ?thesis using 4 nf assms(1) by (auto simp: http_header_step_def http_inv_defs unat_Suc_u8)
    next
      case 3
      obtain w1 where w1: "match_length (conv_to_upper_case ch) w = Some w1" "http_inv w1"
          "content_type_match w1 = content_type_match w"
        using match_length_safe[OF assms(1) 3(1)] by blast
      moreover obtain w2 where "match_upload (conv_to_upper_case ch) w1 = Some w2" "http_inv w2"
        using match_upload_safe[OF w1(2)] 3(2) w1(3) by auto
      ultimately show ?thesis using 3 4 nf by (simp add: http_header_step_def Let_def)
    qed
  qed
qed

definition name_fault :: "u8 \<Rightarrow> int \<Rightarrow> 'a httpd_scheme \<Rightarrow> bool" where
  "name_fault ch j w \<longleftrightarrow> unat (filename_match w) = 9 \<and> (if ch = 0x22 then j \<noteq> 0 else j \<noteq> -1) \<and> \<not> (0 \<le> j \<and> j < 30)"

lemma match_appl_inv: "http_inv w \<Longrightarrow> http_inv (match_appl ch w)"
  by (simp add: match_appl_def Let_def)

lemma match_appl_sel [simp]:
  "filename_match (match_appl ch w) = filename_match w" "g_name (match_appl ch w) = g_name w"
  by (simp_all add: match_appl_def Let_def)

lemma match_filename_safe:
  assumes "http_inv w"
  shows "if name_fault ch j w then match_filename ch j w = None
    else \<exists>j1 w1. match_filename ch j w = Some (j1, w1) \<and> http_inv w1 \<and> hstate w1 = hstate w"
proof -
  have l: "length (g_name w) = 30" "unat (filename_match w) \<le> 9" using assms by (simp_all add: http_inv_defs)
  have s: "name_set j c w = (if 0 \<le> j \<and> j < 30 then Some (w\<lparr>g_name := (g_name w)[nat j := c]\<rparr>) else None)" for c
    using l(1) by (auto simp: name_set_def arr_set_def)
  have i: "http_inv (w\<lparr>g_name := (g_name w)[nat j := c]\<rparr>)" for c
    using assms by (simp add: http_inv_defs)
  show ?thesis
  proof (cases "unat (filename_match w) < 9")
    case True
    then have "http_inv (w\<lparr>filename_match := filename_match w + 1\<rparr>)" "http_inv (w\<lparr>filename_match := 0\<rparr>)"
      using assms by (simp_all add: http_inv_defs unat_Suc_u8)
    with True show ?thesis by (simp add: match_filename_def name_fault_def Let_def)
  next
    case False
    with l(2) show ?thesis using assms by (auto simp: match_filename_def name_fault_def s i)
  qed
qed

lemma upload_file_inv: "http_inv w \<Longrightarrow> http_inv (upload_file w)"
  by (auto simp: upload_file_def web_upload_init_def reserve_updown_load_def http_inv_defs Let_def)

lemma multi_step_safe:
  assumes "http_inv w" and "hstate w = HTTP_MULTI_HEADER"
  shows "if name_fault ch j w then http_multi_step ch j w = None
    else \<exists>j1 w1. http_multi_step ch j w = Some (j1, w1) \<and> http_inv w1"
proof -
  have f: "name_fault ch j (match_appl ch w) = name_fault ch j w" by (simp add: name_fault_def)
  show ?thesis
    using match_filename_safe[OF match_appl_inv[OF assms(1)], of ch j ch] assms(2)
    by (auto simp: f http_multi_step_def intro!: upload_file_inv inv_state split: if_splits)
qed

lemma rt_burnapp_inv: "http_inv w \<Longrightarrow> http_inv (rt_burnapp spi b p t w)"
  by (simp add: rt_burnapp_def http_inv_defs split: option.split)

lemma rt_burnapp_sel [simp]:
  "upload_file_length (rt_burnapp spi b p t w) = upload_file_length w"
  "g_filedownload (rt_burnapp spi b p t w) = g_filedownload w"
  "file_buff (rt_burnapp spi b p t w) = file_buff w" "boundary_len (rt_burnapp spi b p t w) = boundary_len w"
  by (simp_all add: rt_burnapp_def split: option.split)

lemma rt_burnapp_upd:
  "(rt_burnapp spi b p t w)\<lparr>g_totalpage := g, upload_file_length := n\<rparr> =
     rt_burnapp spi b p t (w\<lparr>g_totalpage := g, upload_file_length := n\<rparr>)"
  by (simp add: rt_burnapp_def split: option.split)

lemma upload_store_safe:
  assumes "http_inv w" and "hstate w \<noteq> HTTP_END"
  shows "\<exists>w1. upload_store spi ch w = Some w1 \<and> http_inv w1"
proof (cases "g_filedownload w")
  case True
  let ?w = "w\<lparr>file_buff := (file_buff w)[unat (upload_file_length w) := ch],
    upload_file_length := upload_file_length w + 1\<rparr>"
  have n: "unat (upload_file_length w) < 4096" "length (file_buff w) = 4096"
    using assms True by (simp_all add: http_inv_defs)
  have u: "unat (upload_file_length w + 1) = unat (upload_file_length w) + 1" using n(1) by (rule unat_Suc_u32)
  show ?thesis
  proof (cases "upload_file_length w + 1 = 4096")
    case full: True
    have "http_inv (?w\<lparr>g_totalpage := g, upload_file_length := 0\<rparr>)" for g
      using assms(1) by (simp add: http_inv_defs)
    then show ?thesis using True n full by (simp add: upload_store_def Let_def rt_burnapp_upd rt_burnapp_inv)
  next
    case False
    then have "unat (upload_file_length w + 1) \<noteq> 4096" by (metis word_eq_4096)
    then have "http_inv ?w" using assms(1) n(1) by (simp add: http_inv_defs u)
    then show ?thesis using True n False by (simp add: upload_store_def Let_def)
  qed
qed (use assms in \<open>simp add: upload_store_def\<close>)

definition upload_fault :: "'a httpd_scheme \<Rightarrow> bool" where
  "upload_fault w \<longleftrightarrow> 80 \<le> unat (boundary_match w) \<and> unat (boundary_match w) < unat (boundary_len w) + 2"

lemma upload_step_safe:
  assumes "http_inv w" and "hstate w = HTTP_UPLOAD_CONTENT"
  shows "if upload_fault w then http_upload_step spi ch w = None
    else \<exists>w1. http_upload_step spi ch w = Some w1 \<and> http_inv w1"
proof -
  have l: "length (boundary_buf w) = 80" using assms(1) by (simp add: http_inv_defs)
  obtain w1 where w1: "upload_store spi ch w = Some w1" "http_inv w1"
    using upload_store_safe[of w] assms by auto
  have w2: "\<exists>w2. upload_store spi ch (w\<lparr>boundary_match := m\<rparr>) = Some w2 \<and> http_inv w2" for m
    using upload_store_safe[of "w\<lparr>boundary_match := m\<rparr>"] assms by simp
  show ?thesis
  proof (cases "unat (boundary_match w) < unat (boundary_len w) + 2")
    case True
    obtain w2 where "upload_store spi ch (w\<lparr>boundary_match :=
        (if ch = boundary_buf w ! unat (boundary_match w) then boundary_match w + 1 else 0)\<rparr>) = Some w2" "http_inv w2"
      using w2 by blast
    then show ?thesis using True l by (auto simp: http_upload_step_def upload_fault_def arr_get_def)
  next
    case False
    have "http_inv (w\<lparr>hstate := HTTP_END, upload_file_length := n\<rparr>)" for n
      using assms(1) by (simp add: http_inv_defs)
    with False w1 show ?thesis by (auto simp: http_upload_step_def upload_fault_def)
  qed
qed

text \<open>The accesses outside of an array the parser can make.\<close>

definition http_fault :: "u8 \<Rightarrow> int \<times> 'a httpd_scheme \<Rightarrow> bool" where
  "http_fault ch = (\<lambda>(j, w). \<not> expect_iso_nl w \<and>
     (hstate w = HTTP_HEADER \<and> header_fault ch w \<or> hstate w = HTTP_MULTI_HEADER \<and> name_fault ch j w \<or>
      hstate w = HTTP_UPLOAD_CONTENT \<and> upload_fault w))"

lemma http_char_safe:
  assumes "http_inv w"
  shows "if http_fault ch (j, w) then http_char spi ch (j, w) = None
    else \<exists>j1 w1. http_char spi ch (j, w) = Some (j1, w1) \<and> http_inv w1"
proof (cases "expect_iso_nl w")
  case True
  have "http_inv (w\<lparr>expect_iso_nl := False, herror := True, hstate := HTTP_END\<rparr>)"
    using assms by (simp add: http_inv_defs)
  with True assms show ?thesis by (auto simp: http_char_def http_fault_def)
next
  case False
  show ?thesis
  proof (cases "hstate w")
    case HTTP_URI
    then show ?thesis using uri_step_safe[OF assms, of ch] False by (auto simp: http_char_def http_fault_def)
  next
    case HTTP_VERSION
    then show ?thesis using assms False by (auto simp: http_char_def http_fault_def inv_state)
  next
    case HTTP_HEADER
    then show ?thesis using header_step_safe[OF assms, of ch] False
      by (auto simp: http_char_def http_fault_def split: if_splits)
  next
    case HTTP_BODY
    then show ?thesis using body_step_safe[OF assms, of ch] False by (auto simp: http_char_def http_fault_def)
  next
    case HTTP_BOUNDARY
    then show ?thesis using boundary_step_safe[OF assms, of ch] False by (auto simp: http_char_def http_fault_def)
  next
    case HTTP_MULTI_HEADER
    then show ?thesis using multi_step_safe[OF assms, of ch j] False
      by (auto simp: http_char_def http_fault_def split: if_splits)
  next
    case HTTP_UPLOAD_CONTENT
    then show ?thesis using upload_step_safe[OF assms, of spi ch] False
      by (auto simp: http_char_def http_fault_def split: if_splits)
  qed (use assms False in \<open>auto simp: http_char_def http_fault_def\<close>)
qed

section \<open>A segment as a sequence of bytes\<close>

text \<open>Where the bytes after the method begin, and the state then.\<close>

definition http_start :: "u8 list \<Rightarrow> 'a httpd_scheme \<Rightarrow> nat \<times> 'a httpd_scheme" where
  "http_start buf w =
     (if hstate w \<noteq> HTTP_METHOD then (0, w)
      else if take 4 buf = bytes ''GET '' then (4, w\<lparr>hmethod := ISO_G, hstate := HTTP_URI, prev_ch := ISO_G\<rparr>)
      else if take 5 buf = bytes ''POST '' then (5, w\<lparr>hmethod := ISO_P, hstate := HTTP_URI, prev_ch := ISO_P\<rparr>)
      else (1, w\<lparr>hmethod := 0, hstate := HTTP_END, prev_ch := buf ! 0\<rparr>))"

text \<open>A segment the parser starts a request with has all the bytes the look-ahead reads.\<close>

definition segment_ok :: "uip_event \<Rightarrow> 'a httpd_scheme \<Rightarrow> bool" where
  "segment_ok ev w \<longleftrightarrow> unat (uip_len ev) \<le> length (uip_appdata ev) \<and>
     (hstate w = HTTP_METHOD \<longrightarrow> 5 \<le> unat (uip_len ev) \<and> \<not> expect_iso_nl w)"

lemma look_ahead_take:
  "i + length cs \<le> length buf \<Longrightarrow> look_ahead buf i cs = Some (take (length cs) (drop i buf) = cs)"
  by (induction buf i cs rule: look_ahead.induct) (auto simp: Cons_nth_drop_Suc[symmetric])

lemma method_texts: "bytes ''GET '' = [0x47, 0x45, 0x54, 0x20]" "bytes ''POST '' = [0x50, 0x4f, 0x53, 0x54, 0x20]"
  by code_simp+

lemma method_len: "length (bytes ''GET '') = 4" "length (bytes ''POST '') = 5"
  by (simp_all add: method_texts)

lemma u16_minus: "unat k \<le> unat r \<Longrightarrow> unat (r - k :: u16) = unat r - unat k"
  by (simp add: unat_sub word_le_nat_alt)

lemma http_process_bytes:
  assumes "segment_ok ev w"
  shows "http_process env ev w =
    map_option snd (http_bytes (spi_found env)
      (drop (fst (http_start (uip_appdata ev) w)) (take (unat (uip_len ev)) (uip_appdata ev)))
      (j_junk env, snd (http_start (uip_appdata ev) w)))"
proof (cases "hstate w = HTTP_METHOD")
  case False
  then show ?thesis
    using assms http_loop_bytes[of "(j_junk env, w)" 0 "uip_len ev" "uip_appdata ev" "spi_found env"]
    by (simp add: http_process_def http_start_def segment_ok_def)
next
  case True
  define buf where "buf = uip_appdata ev"
  define r where "r = uip_len ev"
  obtain n v where st: "http_start buf w = (n, v)" by fastforce
  have a: "unat r \<le> length buf" "5 \<le> unat r" "\<not> expect_iso_nl w"
    using assms True by (simp_all add: segment_ok_def buf_def r_def)
  then have l: "look_ahead buf 0 (bytes ''GET '') = Some (take 4 buf = bytes ''GET '')"
      "look_ahead buf 0 (bytes ''POST '') = Some (take 5 buf = bytes ''POST '')"
    using look_ahead_take[of 0 "bytes ''GET ''" buf] look_ahead_take[of 0 "bytes ''POST ''" buf]
    by (simp_all only: method_len drop_0 add_0)
  have b0: "buf ! 0 = ISO_G" if "take 4 buf = bytes ''GET ''" using that a by (cases buf) (auto simp: method_texts)
  have b1: "buf ! 0 = ISO_P" if "take 5 buf = bytes ''POST ''" using that a by (cases buf) (auto simp: method_texts)
  have g: "arr_get 0 buf = Some (buf ! 0)" by (rule arr_get_Some) (use a in linarith)
  have rem: "unat (r - 1) = unat r - 1" "unat (r - 1 - 3) = unat r - 4" "unat (r - 1 - 4) = unat r - 5"
    using a(2) u16_minus[of 1 r] u16_minus[of 3 "r - 1"] u16_minus[of 4 "r - 1"] by simp_all
  define r1 where "r1 = (if n = 4 then r - 1 - 3 else if n = 5 then r - 1 - 4 else r - 1)"
  have turn: "http_turn (spi_found env) buf 0 r (j_junk env, w) =
      (if take 4 buf = bytes ''GET ''
       then Some (4, r - 1 - 3, j_junk env, w\<lparr>hmethod := ISO_G, hstate := HTTP_URI, prev_ch := buf ! 0\<rparr>)
       else if take 5 buf = bytes ''POST ''
       then Some (5, r - 1 - 4, j_junk env, w\<lparr>hmethod := ISO_P, hstate := HTTP_URI, prev_ch := buf ! 0\<rparr>)
       else Some (1, r - 1, j_junk env, w\<lparr>hmethod := 0, hstate := HTTP_END, prev_ch := buf ! 0\<rparr>))"
    by (simp add: http_turn_def g a(3) True http_method_step_def l)
  have t: "http_turn (spi_found env) buf 0 r (j_junk env, w) = Some (n, r1, j_junk env, v)"
      "unat r1 = unat r - n" "n \<le> 5" "hstate v \<noteq> HTTP_METHOD"
    using st a True rem unfolding turn r1_def http_start_def
    by (auto simp: b0 b1 split: if_split_asm)
  have r0: "r \<noteq> 0" using a(2) by auto
  have "http_process env ev w = http_loop (spi_found env) buf n r1 (j_junk env, v)"
    unfolding http_process_def buf_def[symmetric] r_def[symmetric]
    using r0 t(1) by (subst http_loop.simps) simp
  also have "\<dots> = map_option snd (http_bytes (spi_found env) (take (unat r1) (drop n buf)) (j_junk env, v))"
    using t a by (intro http_loop_bytes) auto
  also have "take (unat r1) (drop n buf) = drop n (take (unat r) buf)"
    by (simp add: t(2) drop_take)
  finally show ?thesis by (simp add: st buf_def[symmetric] r_def[symmetric])
qed

lemma http_start_inv:
  assumes "http_inv w"
  shows "http_inv (snd (http_start buf w))"
proof (cases "hstate w = HTTP_METHOD")
  case True
  then have "http_inv (w\<lparr>hmethod := m, hstate := s\<rparr>)" for m s using assms inv_state[of "w\<lparr>hmethod := m\<rparr>" s] by simp
  with True show ?thesis by (simp add: http_start_def)
qed (use assms in \<open>simp add: http_start_def\<close>)

lemma http_bytes_safe:
  assumes "http_inv (snd s)"
  shows "case http_bytes spi bs s of
      Some s1 \<Rightarrow> http_inv (snd s1)
    | None \<Rightarrow> \<exists>xs c ys s1. bs = xs @ c # ys \<and> http_bytes spi xs s = Some s1 \<and> http_inv (snd s1) \<and> http_fault c s1"
  using assms
proof (induction bs arbitrary: s)
  case (Cons c bs)
  obtain j w where s: "s = (j, w)" by fastforce
  show ?case
  proof (cases "http_fault c s")
    case True
    then have "http_char spi c s = None" using http_char_safe[of w c j spi] Cons.prems by (simp add: s)
    with True Cons.prems show ?thesis by (auto simp: s intro!: exI[of _ "[]"])
  next
    case False
    then obtain s1 where s1: "http_char spi c s = Some s1" "http_inv (snd s1)"
      using http_char_safe[of w c j spi] Cons.prems by (auto simp: s)
    show ?thesis
    proof (cases "http_bytes spi bs s1")
      case None
      then obtain xs d ys s2 where "bs = xs @ d # ys" "http_bytes spi xs s1 = Some s2" "http_inv (snd s2)" "http_fault d s2"
        using Cons.IH[OF s1(2)] by auto
      then show ?thesis using None s1(1) by (cases s2) (auto intro!: exI[of _ "c # xs"])
    next
      case (Some s2)
      then show ?thesis using Cons.IH[OF s1(2)] s1(1) by simp
    qed
  qed
qed simp

text \<open>What is not a POST request never gets to the states that can fault.\<close>

definition plain_request :: "'a httpd_scheme \<Rightarrow> bool" where
  "plain_request w \<longleftrightarrow> hmethod w \<noteq> ISO_P \<and> hstate w \<in> {HTTP_URI, HTTP_VERSION, HTTP_HEADER, HTTP_END}"

lemma plain_request_char:
  assumes "plain_request w" and "http_char spi c (j, w) = Some (j1, w1)"
  shows "plain_request w1 \<and> j1 = j"
  using assms unfolding plain_request_def
  by (clarsimp simp: http_char_def split: if_split_asm http_state.split_asm)
    (auto simp: http_uri_step_def http_header_step_def arr_set_def split: if_splits)

lemma plain_request_bytes:
  assumes "http_inv w" and "plain_request w"
  shows "http_bytes spi bs (j, w) \<noteq> None"
  using assms
proof (induction bs arbitrary: w)
  case (Cons c bs)
  have "\<not> http_fault c (j, w)"
    using Cons.prems(2) by (auto simp: http_fault_def header_fault_def plain_request_def)
  then obtain j1 w1 where "http_char spi c (j, w) = Some (j1, w1)" "http_inv w1"
    using http_char_safe[OF Cons.prems(1), of c j spi] by auto
  moreover from this have "plain_request w1" "j1 = j"
    using plain_request_char[OF Cons.prems(2)] by blast+
  ultimately show ?case using Cons.IH by simp
qed simp

section \<open>Writing an upload to the flash\<close>

text \<open>
  The part of \<open>httpd_appcall\<close> that ends an upload: the last page is filled up and written, and for
  the application image the block with its length.  An \<open>int\<close> below zero is an index outside of the buffer.
\<close>

definition image_info :: "u32 \<Rightarrow> u8 list" where
  "image_info imgsize = le32 1 @ le32 imgsize @ replicate 4088 0xff"

definition pad_page :: "'a httpd_scheme \<Rightarrow> 'a httpd_scheme option" where
  "pad_page w =
     (let i = sint (upload_file_length w)
      in if i < 0 then None
         else Some (w\<lparr>file_buff := buf_put (nat i) (replicate (4096 - nat i) 0xff) (file_buff w)\<rparr>))"

definition finish_upload :: "bool \<Rightarrow> 'a httpd_scheme \<Rightarrow> 'a httpd_scheme option" where
  "finish_upload spi w =
     (if g_filedownload w
      then case (if upload_file_length w \<noteq> 0
                 then map_option (\<lambda>v. rt_burnapp spi (file_buff v) (g_totalpage v) (g_filetype v) v)
                        (pad_page (w\<lparr>g_filedownload := False\<rparr>))
                 else Some (w\<lparr>g_filedownload := False\<rparr>)) of
             None \<Rightarrow> None
           | Some v \<Rightarrow>
               Some (if g_filetype v = 1
                     then let info = image_info (g_totalpage v * 4096 + upload_file_length v)
                          in rt_burnapp spi info 0 5 (v\<lparr>file_buff := info\<rparr>)
                     else v)
      else Some w)"

text \<open>The pages of a file, the last one filled up with ones.\<close>

definition page :: "u8 list \<Rightarrow> nat \<Rightarrow> u8 list" where
  "page xs k = take 4096 (drop (4096 * k) xs)"

definition full_pages :: "u32 \<Rightarrow> u8 list \<Rightarrow> (u32 \<times> u8 list) list" where
  "full_pages base xs = map (\<lambda>k. (base + of_nat k, page xs k)) [0..<length xs div 4096]"

definition file_pages :: "u32 \<Rightarrow> u8 list \<Rightarrow> (u32 \<times> u8 list) list" where
  "file_pages base xs = full_pages base xs @
     (let n = length xs div 4096; rest = drop (4096 * n) xs
      in if rest = [] then [] else [(base + of_nat n, rest @ replicate (4096 - length rest) 0xff)])"

text \<open>The bytes \<open>xs\<close> have been stored since the upload began.\<close>

definition file_stored :: "u32 \<Rightarrow> (u32 \<times> u8 list) list \<Rightarrow> u8 list \<Rightarrow> 'a httpd_scheme \<Rightarrow> bool" where
  "file_stored base old xs w \<longleftrightarrow> g_filedownload w \<and> length (file_buff w) = 4096 \<and>
     burn_base (g_filetype w) = Some base \<and>
     upload_file_length w = of_nat (length xs mod 4096) \<and> g_totalpage w = of_nat (length xs div 4096) \<and>
     burns w = old @ full_pages base xs \<and>
     take (length xs mod 4096) (file_buff w) = drop (4096 * (length xs div 4096)) xs"

lemma page_room:
  assumes "k < n div 4096"
  shows "4096 * k + 4096 \<le> (n :: nat)"
proof -
  have "Suc k * 4096 \<le> n div 4096 * 4096" using assms by (intro mult_le_mono1) simp
  also have "\<dots> \<le> n" by simp
  finally show ?thesis by simp
qed

lemma page_next:
  "Suc n mod 4096 = 0 \<Longrightarrow> Suc n div 4096 = Suc (n div 4096) \<and> n mod 4096 = 4095 \<and> 4096 * (n div 4096) + 4095 = n"
  "Suc n mod 4096 \<noteq> 0 \<Longrightarrow> Suc n div 4096 = n div 4096 \<and> Suc n mod 4096 = Suc (n mod 4096) \<and> Suc (n mod 4096) < 4096"
proof -
  have e: "4096 * (n div 4096) + n mod 4096 = n" by simp
  show "Suc n mod 4096 = 0 \<Longrightarrow> Suc n div 4096 = Suc (n div 4096) \<and> n mod 4096 = 4095 \<and> 4096 * (n div 4096) + 4095 = n"
  proof -
    assume a: "Suc n mod 4096 = 0"
    then have m: "n mod 4096 = 4095" by (simp add: mod_Suc split: if_splits)
    then have "Suc n div 4096 = Suc (n div 4096)" using a by (simp add: div_Suc)
    moreover have "4096 * (n div 4096) + 4095 = n" using e unfolding m .
    ultimately show "Suc n div 4096 = Suc (n div 4096) \<and> n mod 4096 = 4095 \<and> 4096 * (n div 4096) + 4095 = n"
      using m by blast
  qed
  have "n mod 4096 < 4096" by simp
  then show "Suc n mod 4096 \<noteq> 0 \<Longrightarrow> Suc n div 4096 = n div 4096 \<and> Suc n mod 4096 = Suc (n mod 4096) \<and> Suc (n mod 4096) < 4096"
    by (simp add: mod_Suc div_Suc split: if_splits)
qed

lemma full_pages_snoc:
  "full_pages base (xs @ [c]) =
     (if Suc (length xs) mod 4096 = 0
      then full_pages base xs @ [(base + of_nat (length xs div 4096), drop (4096 * (length xs div 4096)) xs @ [c])]
      else full_pages base xs)"
proof -
  let ?n = "length xs div 4096"
  have p: "page (xs @ [c]) k = page xs k" if "k < ?n" for k
  proof -
    have "4096 * k + 4096 \<le> length xs" using that by (rule page_room)
    then show ?thesis by (simp add: page_def)
  qed
  show ?thesis
  proof (cases "Suc (length xs) mod 4096 = 0")
    case True
    then have d: "Suc (length xs) div 4096 = Suc ?n" "4096 * ?n + 4095 = length xs" using page_next(1)[OF True] by auto
    have "page (xs @ [c]) ?n = drop (4096 * ?n) xs @ [c]"
      using d(2) by (simp add: page_def)
    then show ?thesis using True d(1) p by (simp add: full_pages_def)
  next
    case False
    then have "Suc (length xs) div 4096 = ?n" using page_next(2) by blast
    then show ?thesis using False p by (simp add: full_pages_def)
  qed
qed

lemma upload_store_stored:
  assumes "file_stored base old xs w"
  shows "\<exists>w1. upload_store True c w = Some w1 \<and> file_stored base old (xs @ [c]) w1 \<and>
    hstate w1 = hstate w \<and> expect_iso_nl w1 = expect_iso_nl w \<and> boundary_match w1 = boundary_match w \<and>
    boundary_len w1 = boundary_len w \<and> boundary_buf w1 = boundary_buf w"
proof -
  define m where "m = length xs mod 4096"
  have m: "m < 4096" by (simp add: m_def)
  have st: "g_filedownload w" "length (file_buff w) = 4096" "burn_base (g_filetype w) = Some base"
      "upload_file_length w = of_nat m" "g_totalpage w = of_nat (length xs div 4096)"
      "burns w = old @ full_pages base xs" "take m (file_buff w) = drop (4096 * (length xs div 4096)) xs"
    using assms by (simp_all add: file_stored_def m_def)
  have u: "unat (of_nat m :: u32) = m" using m by (simp add: unat_of_nat)
  let ?fb = "(file_buff w)[m := c]"
  have fb: "take (Suc m) ?fb = drop (4096 * (length xs div 4096)) xs @ [c]"
    using st(2,7) m by (simp add: take_Suc_conv_app_nth)
  have l: "length ?fb = 4096" "m < length (file_buff w)" using st(2) m by simp_all
  show ?thesis
  proof (cases "Suc (length xs) mod 4096 = 0")
    case True
    then have e: "m = 4095" "Suc (length xs) div 4096 = Suc (length xs div 4096)"
      unfolding m_def using page_next(1)[OF True] by auto
    have fb1: "?fb = drop (4096 * (length xs div 4096)) xs @ [c]" using fb l e(1) by simp
    have c: "(of_nat m + 1 :: u32) = 4096" unfolding e(1) by simp
    let ?w = "w\<lparr>file_buff := ?fb, burns := burns w @ [(base + g_totalpage w, ?fb)],
      g_totalpage := g_totalpage w + 1, upload_file_length := 0\<rparr>"
    have up: "upload_store True c w = Some ?w"
      by (simp add: upload_store_def Let_def rt_burnapp_def st(1,3,4) u l(2) c)
    have "file_stored base old (xs @ [c]) ?w"
      using st(1,3) l(1) fb1 True
      by (simp add: file_stored_def full_pages_snoc e(2) st(5,6))
    with up show ?thesis by simp
  next
    case False
    then have e: "Suc (length xs) mod 4096 = Suc m" "Suc (length xs) div 4096 = length xs div 4096" "Suc m < 4096"
      unfolding m_def using page_next(2)[OF False] by auto
    have "unat (of_nat (Suc m) :: u32) = Suc m" using e(3) by (simp only: unat_of_nat) simp
    then have c: "(of_nat m + 1 :: u32) \<noteq> 4096"
      using e(3) unfolding word_eq_4096[symmetric] by (simp add: add.commute)
    let ?w = "w\<lparr>file_buff := ?fb, upload_file_length := of_nat m + 1\<rparr>"
    have up: "upload_store True c w = Some ?w"
      by (simp add: upload_store_def Let_def st(1,4) u l(2) c)
    have "file_stored base old (xs @ [c]) ?w"
      using st(1,3) l(1) fb False
      by (simp add: file_stored_def full_pages_snoc e(1,2) st(5,6) add.commute)
    with up show ?thesis by simp
  qed
qed

text \<open>The end mark \<open>B\<close> of the part, of which \<open>m\<close> bytes have matched, while \<open>xs\<close> was stored.\<close>

definition uploading ::
  "u32 \<Rightarrow> (u32 \<times> u8 list) list \<Rightarrow> u8 list \<Rightarrow> u8 list \<Rightarrow> nat \<Rightarrow> 'a httpd_scheme \<Rightarrow> bool" where
  "uploading base old B xs m w \<longleftrightarrow> file_stored base old xs w \<and> hstate w = HTTP_UPLOAD_CONTENT \<and> \<not> expect_iso_nl w \<and>
     unat (boundary_match w) = m \<and> unat (boundary_len w) + 2 = length B \<and> length B \<le> length (boundary_buf w) \<and>
     length (boundary_buf w) = MAX_BOUNDARY_LEN \<and> take (length B) (boundary_buf w) = B"

lemma file_stored_cong [simp]:
  "file_stored base old xs (w\<lparr>boundary_match := m\<rparr>) = file_stored base old xs w"
  "file_stored base old xs (w\<lparr>hcount := n\<rparr>) = file_stored base old xs w"
  "file_stored base old xs (w\<lparr>prev_ch := c\<rparr>) = file_stored base old xs w"
  by (simp_all add: file_stored_def)

lemma uploading_char:
  assumes "uploading base old B xs m w" and "m < length B"
  shows "\<exists>w1. http_char True c (j, w) = Some (j, w1) \<and>
    uploading base old B (xs @ [c]) (if c = B ! m then Suc m else 0) w1"
proof -
  have u: "file_stored base old xs w" "hstate w = HTTP_UPLOAD_CONTENT" "\<not> expect_iso_nl w" "unat (boundary_match w) = m"
      "unat (boundary_len w) + 2 = length B" "length (boundary_buf w) = 80" "take (length B) (boundary_buf w) = B"
      "length B \<le> 80"
    using assms(1) by (simp_all add: uploading_def MAX_BOUNDARY_LEN_def)
  have b: "boundary_buf w ! m = B ! m" using u(7) assms(2) by (metis nth_take)
  let ?w = "w\<lparr>boundary_match := (if c = B ! m then boundary_match w + 1 else 0)\<rparr>"
  obtain w1 where w1: "upload_store True c ?w = Some w1" "file_stored base old (xs @ [c]) w1"
      "hstate w1 = HTTP_UPLOAD_CONTENT" "\<not> expect_iso_nl w1" "boundary_match w1 = boundary_match ?w"
      "boundary_len w1 = boundary_len w" "boundary_buf w1 = boundary_buf w"
    using upload_store_stored[of base old xs ?w c] u(1-3) by auto
  have m: "unat (boundary_match ?w) = (if c = B ! m then Suc m else 0)"
    using u(4,8) assms(2) by (simp add: unat_Suc_u8)
  have "http_upload_step True c w = Some (w1\<lparr>hcount := 0\<rparr>)"
    using u(4-6) assms(2) u(8) b w1(1) by (simp add: http_upload_step_def)
  then show ?thesis
    using u w1 m by (simp add: http_char_def uploading_def MAX_BOUNDARY_LEN_def)
qed

lemma uploading_data:
  assumes "uploading base old B xs m w" and "m < length B" and "suffix (take m B) xs" and "\<not> sublist B (xs @ zs)"
  shows "\<exists>m1 w1. http_bytes True zs (j, w) = Some (j, w1) \<and> uploading base old B (xs @ zs) m1 w1 \<and>
    m1 < length B \<and> suffix (take m1 B) (xs @ zs)"
  using assms
proof (induction zs arbitrary: xs m w)
  case (Cons c zs)
  let ?m = "if c = B ! m then Suc m else 0"
  obtain w1 where w1: "http_char True c (j, w) = Some (j, w1)" "uploading base old B (xs @ [c]) ?m w1"
    using uploading_char[OF Cons.prems(1,2)] by blast
  have s: "suffix (take ?m B) (xs @ [c])"
    using Cons.prems(2,3) by (auto simp: take_Suc_conv_app_nth suffix_def)
  have "?m \<noteq> length B"
  proof
    assume "?m = length B"
    then have "suffix B (xs @ [c])" using s by simp
    then obtain p where "xs @ [c] = p @ B" by (auto simp: suffix_def)
    then have "(xs @ [c]) @ zs = p @ B @ zs" by simp
    then have "sublist B ((xs @ [c]) @ zs)" unfolding sublist_def by blast
    then show False using Cons.prems(4) by simp
  qed
  then have "?m < length B" using Cons.prems(2) by auto
  then show ?case using Cons.IH[OF w1(2) _ s] Cons.prems(4) w1(1) by simp
qed auto

lemma uploading_mark:
  assumes "uploading base old B xs 0 w" and "k \<le> length B"
  shows "\<exists>w1. http_bytes True (take k B) (j, w) = Some (j, w1) \<and> uploading base old B (xs @ take k B) k w1"
  using assms(2)
proof (induction k)
  case 0
  then show ?case using assms(1) by simp
next
  case (Suc k)
  then obtain w1 where w1: "http_bytes True (take k B) (j, w) = Some (j, w1)" "uploading base old B (xs @ take k B) k w1"
    by auto
  obtain w2 where "http_char True (B ! k) (j, w1) = Some (j, w2)"
      "uploading base old B ((xs @ take k B) @ [B ! k]) (Suc k) w2"
    using uploading_char[OF w1(2), of "B ! k" j] Suc.prems by auto
  then show ?case using w1(1) Suc.prems by (simp add: take_Suc_conv_app_nth http_bytes_append)
qed

lemma uploading_part:
  assumes "uploading base old B [] 0 w" and "\<not> sublist B (data @ [ISO_cr, ISO_nl])" and "ISO_nl \<notin> set B"
  shows "\<exists>w1. http_bytes True (data @ [ISO_cr, ISO_nl] @ B) (j, w) = Some (j, w1) \<and>
    uploading base old B (data @ [ISO_cr, ISO_nl] @ B) (length B) w1"
proof -
  have "0 < length B" using assms(2) by auto
  then obtain m w1 where w1: "http_bytes True (data @ [ISO_cr, ISO_nl]) (j, w) = Some (j, w1)"
      "uploading base old B (data @ [ISO_cr, ISO_nl]) m w1" "m < length B" "suffix (take m B) (data @ [ISO_cr, ISO_nl])"
    using uploading_data[OF assms(1), of "data @ [ISO_cr, ISO_nl]" j] assms(2) by auto
  have "m = 0"
  proof (rule ccontr)
    assume "m \<noteq> 0"
    then have n: "take m B \<noteq> []" using w1(3) by auto
    obtain p where "data @ [ISO_cr, ISO_nl] = p @ take m B" using w1(4) by (auto simp: suffix_def)
    then have "last (data @ [ISO_cr, ISO_nl]) = last (p @ take m B)" by (rule arg_cong)
    then have "last (take m B) = ISO_nl" using n by simp
    with n have "ISO_nl \<in> set (take m B)" by (metis last_in_set)
    then show False using assms(3) by (auto dest: in_set_takeD)
  qed
  then obtain w2 where "http_bytes True (take (length B) B) (j, w1) = Some (j, w2)"
      "uploading base old B ((data @ [ISO_cr, ISO_nl]) @ take (length B) B) (length B) w2"
    using uploading_mark[of base old B "data @ [ISO_cr, ISO_nl]" w1 "length B" j] w1(2) by auto
  then show ?thesis using w1(1)
    by (simp only: http_bytes_append append_assoc[symmetric]) simp
qed

lemma uploading_end:
  assumes "uploading base old B xs (length B) w"
  shows "http_char True ISO_cr (j, w) = Some (j, w\<lparr>hstate := HTTP_END,
    upload_file_length := upload_file_length w - of_nat (length B + 2), prev_ch := ISO_cr\<rparr>)"
proof -
  have l: "unat (boundary_len w) + 2 = length B" "length B \<le> 80" "unat (boundary_match w) = length B"
      "hstate w = HTTP_UPLOAD_CONTENT" "\<not> expect_iso_nl w"
    using assms by (simp_all add: uploading_def MAX_BOUNDARY_LEN_def)
  have e: "ucast (boundary_len w) + 2 + 2 = (of_nat (length B + 2) :: u32)" by (simp add: l(1)[symmetric])
  have n: "\<not> unat (boundary_match w) < Suc (Suc (unat (boundary_len w)))" using l(1,3) by simp
  show ?thesis by (simp add: http_char_def http_upload_step_def l(4,5) n e)
qed

lemma buf_put_tail: "i + length xs = length b \<Longrightarrow> buf_put i xs b = take i b @ xs"
  by (rule nth_equalityI) (auto simp: nth_buf_put nth_append)

lemma burn_base_inj: "burn_base t = Some b \<Longrightarrow> (t = 1) = (b = 0x100)"
  by (auto simp: burn_base_def split: if_splits)

lemma div_mod_tail:
  assumes "(n :: nat) mod 4096 + t < 4096"
  shows "(n + t) mod 4096 = n mod 4096 + t" "(n + t) div 4096 = n div 4096"
proof -
  have "(n + t) mod 4096 = (n mod 4096 + t) mod 4096" by (simp add: mod_add_left_eq)
  with assms show m: "(n + t) mod 4096 = n mod 4096 + t" by simp
  have "(n mod 4096 + t) div 4096 = 0" using assms by simp
  moreover have "n + t = 4096 * (n div 4096) + (n mod 4096 + t)" by simp
  ultimately show "(n + t) div 4096 = n div 4096"
    by (metis add.right_neutral div_mult_self4 zero_neq_numeral)
qed

text \<open>The last page is written when the end mark has not spilled into the next one.\<close>

lemma finish_written:
  assumes s: "file_stored base old (data @ tail) w" and fit: "length data mod 4096 + length tail < 4096"
    and w1: "w1 = w\<lparr>hstate := HTTP_END, upload_file_length := upload_file_length w - of_nat (length tail), prev_ch := c\<rparr>"
  shows "\<exists>w2. finish_upload True w1 = Some w2 \<and> burns w2 = old @ file_pages base data @
    (if base = 0x100 then [(0x1ff, image_info (of_nat (length data)))] else [])"
proof -
  define m where "m = length data mod 4096"
  define n where "n = length data div 4096"
  have m: "m < 4096" using fit by (simp add: m_def)
  have dm: "(length data + length tail) mod 4096 = m + length tail" "(length data + length tail) div 4096 = n"
    using div_mod_tail[OF fit] by (simp_all add: m_def n_def)
  have len: "n * 4096 + m = length data" by (simp add: m_def n_def)
  have ul: "upload_file_length w1 = of_nat m"
    using s by (simp add: w1 file_stored_def dm)
  have st: "g_filedownload w1" "length (file_buff w1) = 4096" "burn_base (g_filetype w1) = Some base"
      "g_totalpage w1 = of_nat n" "burns w1 = old @ full_pages base data"
      "take (m + length tail) (file_buff w1) = drop (4096 * n) data @ tail"
  proof -
    have "full_pages base (data @ tail) = full_pages base data"
    proof -
      have "page (data @ tail) k = page data k" if "k < n" for k
        using page_room[OF that[unfolded n_def]] by (simp add: page_def)
      then show ?thesis by (simp add: full_pages_def dm n_def[symmetric])
    qed
    then show "burns w1 = old @ full_pages base data" using s by (simp add: w1 file_stored_def)
    have "4096 * n \<le> length data" using len by simp
    then show "take (m + length tail) (file_buff w1) = drop (4096 * n) data @ tail"
      using s by (simp add: w1 file_stored_def dm)
  qed (use s in \<open>simp_all add: w1 file_stored_def dm\<close>)
  have rest: "length (drop (4096 * n) data) = m" using len by simp
  have fb: "take m (file_buff w1) = drop (4096 * n) data"
  proof -
    have "take m (file_buff w1) = take m (take (m + length tail) (file_buff w1))" by (simp add: min_def)
    then show ?thesis unfolding st(6) using rest by simp
  qed
  have sm: "sint (of_nat m :: u32) = int m" "(of_nat m :: u32) = 0 \<longleftrightarrow> m = 0"
    using m by (simp_all add: signed_of_nat signed_take_bit_int_eq_self word_of_nat_eq_0_iff)
      (auto dest: nat_dvd_not_less)
  have img: "of_nat n * 4096 + of_nat m = (of_nat (length data) :: u32)" by (simp add: len[symmetric])
  then have img0: "of_nat n * 4096 = (of_nat (length data) :: u32)" if "m = 0" using that by simp
  have t1: "(g_filetype w1 = 1) = (base = 0x100)" using burn_base_inj[OF st(3)] .
  have pages: "file_pages base data = full_pages base data @
      (if m = 0 then [] else [(base + of_nat n, drop (4096 * n) data @ replicate (4096 - m) 0xff)])"
    using rest by (auto simp: file_pages_def n_def[symmetric] Let_def)
  have pad: "buf_put m (replicate (4096 - m) 0xff) (file_buff w1) = drop (4096 * n) data @ replicate (4096 - m) 0xff"
    using m st(2) fb by (simp add: buf_put_tail)
  show ?thesis
    using st(1,3-5) t1 by (auto simp: finish_upload_def pad_page_def ul sm pad pages img img0 rt_burnapp_def Let_def burn_base_def)
qed

text \<open>If it has, the length of the rest wraps around below zero and the code writes in front of the buffer.\<close>

lemma finish_faults:
  assumes s: "file_stored base old (data @ tail) w" and over: "4096 \<le> length data mod 4096 + length tail"
    and t: "length tail < 4096"
    and w1: "w1 = w\<lparr>hstate := HTTP_END, upload_file_length := upload_file_length w - of_nat (length tail), prev_ch := c\<rparr>"
  shows "finish_upload True w1 = None"
proof -
  define m where "m = length data mod 4096 + length tail - 4096"
  have m: "m < length tail" using over by (simp add: m_def)
  have "(length data + length tail) mod 4096 = (length data mod 4096 + length tail) mod 4096" by (simp add: mod_add_left_eq)
  also have "length data mod 4096 + length tail = m + 4096" using over by (simp add: m_def)
  finally have "(length data + length tail) mod 4096 = m" using m t by simp
  then have ul: "upload_file_length w1 = of_nat m - of_nat (length tail)" "g_filedownload w1"
    using s by (simp_all add: w1 file_stored_def)
  define k where "k = length tail - m"
  have k: "0 < k" "k < 4096" using m t by (simp_all add: k_def)
  have "upload_file_length w1 = - of_nat k" unfolding ul(1) using m by (simp add: k_def of_nat_diff)
  then have w: "upload_file_length w1 = word_of_int (- int k)" by simp
  have "sint (upload_file_length w1) = - int k"
    unfolding w signed_of_int of_int_eq_id id_apply using k by (intro signed_take_bit_int_eq_self) simp_all
  moreover from this have "upload_file_length w1 \<noteq> 0" using k by auto
  ultimately show ?thesis using ul(2) k(1) by (simp add: finish_upload_def pad_page_def)
qed

end
