(* ===== verification/Web_Page.thy ===== *)
theory Web_Page
  imports Web_State
begin

text \<open>
  Pages of the web server: the directory of files (\<open>fs.c\<close>, \<open>filedir.c\<close>), the variables of dynamic
  pages (\<open>webvar.c\<close>) and the building of a page segment by segment (\<open>webhnd.c\<close>).

  A pointer into a string or a page is the rest of it from there on.
\<close>

section \<open>Files\<close>

text \<open>
  \<open>fs_strcmp\<close> gives 0 for names that match, which is \<open>True\<close> here.  \<open>str2\<close> is the name in the
  directory, without its terminating zero; the loop ends within it.
\<close>

fun fs_strcmp :: "u8 list \<Rightarrow> u8 list \<Rightarrow> bool" where
  "fs_strcmp str1 [] = (deref_byte str1 \<in> {0x0d, 0x0a, 0x3f, 0})"
| "fs_strcmp str1 (c # str2) =
     (if c = 0x2e \<and> deref_byte str1 = 0 then True
      else if deref_byte str1 \<noteq> c then False
      else fs_strcmp (drop 1 str1) str2)"

definition http_status_400 :: "u8 list" where
  "http_status_400 = bytes ''HTTP/1.0 400 Bad Request'' @ [0x0d, 0x0a, 0x0d, 0x0a] @ bytes ''Bad Request'' @ [0, 0]"

definition http_status_404 :: "u8 list" where
  "http_status_404 = bytes ''HTTP/1.0 404 Not Found'' @ [0x0d, 0x0a, 0x0d, 0x0a] @ bytes ''Not Found'' @ [0]"

definition http_status_501 :: "u8 list" where
  "http_status_501 =
     bytes ''HTTP/1.0 501 Not Implemented'' @ [0x0d, 0x0a, 0x0d, 0x0a] @ bytes ''Not Implemented'' @ [0]"

definition http_status_503 :: "u8 list" where
  "http_status_503 =
     bytes ''HTTP/1.0 503 Service Unavailable'' @ [0x0d, 0x0a, 0x0d, 0x0a] @ bytes ''Service Unavailable'' @ [0]"

definition file_dir :: "web_pages \<Rightarrow> (u8 list \<times> u8 list \<times> file_type) list" where
  "file_dir P =
    [(bytes ''index.htm'', index_htm P, DYNAMIC_NOSPC),
     (bytes ''400.htm'', http_status_400, STATIC),
     (bytes ''404.htm'', http_status_404, STATIC),
     (bytes ''501.htm'', http_status_501, STATIC),
     (bytes ''503.htm'', http_status_503, STATIC),
     (bytes ''left.htm'', left_htm P, STATIC),
     (bytes ''top.htm'', top_htm P, DYNAMIC_NOSPC),
     (bytes ''bg.gif'', bg_gif P, STATIC),
     (bytes ''sys'', sys_htm P, DYNAMIC),
     (bytes ''upload'', upload_htm P, STATIC_SPC),
     (bytes ''uploaddone'', uploaddone_htm P, DYNAMIC),
     (bytes ''config'', config_htm P, DYNAMIC),
     (bytes ''default.css'', default_css P, STATIC),
     (bytes ''manage'', manage_htm P, STATIC),
     (bytes ''status'', status_htm P, DYNAMIC)]"

fun file_find :: "u8 list \<Rightarrow> (u8 list \<times> u8 list \<times> file_type) list \<Rightarrow> fs_file option" where
  "file_find name [] = None"
| "file_find name ((n, d, t) # dir) =
     (if fs_strcmp name n then Some \<lparr>f_dat = d, f_len = int (length d), f_type = t\<rparr> else file_find name dir)"

text \<open>Opening the status page asks the modem for its noise margin first; the call may block (\<open>None\<close>).\<close>

definition fs_open :: "'h web_env \<Rightarrow> u8 list \<Rightarrow> 'h web \<Rightarrow> (bool \<times> 'h web) option" where
  "fs_open env name w =
     (case (if fs_strcmp name (bytes ''status'') \<and> linkStatus (g_lineStatus (app w)) = 0
            then rt_checkSNR (senv_of env) (app w) else Some (app w)) of
        None \<Rightarrow> None
      | Some a \<Rightarrow>
          (case file_find name (file_dir (pages env)) of
             Some f \<Rightarrow> Some (True, w\<lparr>app := a, hfile := f\<rparr>)
           | None \<Rightarrow> Some (False, w\<lparr>app := a\<rparr>)))"

section \<open>Variables\<close>

fun dec_nat :: "nat \<Rightarrow> u8 list" where
  "dec_nat n = (if n < 10 then [of_nat n + 0x30] else dec_nat (n div 10) @ [of_nat (n mod 10) + 0x30])"

definition dec :: "int \<Rightarrow> u8 list" where
  "dec i = (if i < 0 then 0x2d # dec_nat (nat (- i)) else dec_nat (nat i))"

definition hex2 :: "u8 \<Rightarrow> u8 list" where
  "hex2 b = [hex_digit (drop_bit 4 b), hex_digit (b AND 0x0f)]"

fun join :: "u8 \<Rightarrow> u8 list list \<Rightarrow> u8 list" where
  "join c [] = []"
| "join c [s] = s"
| "join c (s # t # ts) = s @ c # join c (t # ts)"

definition print_ip_str :: "u16 \<times> u16 \<Rightarrow> u8 list" where
  "print_ip_str addr =
     join 0x2e [dec (uint (fst addr AND 0xff)), dec (uint (drop_bit 8 (fst addr))),
                dec (uint (snd addr AND 0xff)), dec (uint (drop_bit 8 (snd addr)))]"

text \<open>
  The array \<open>dat\<close> of a variable buffer has 510 bytes.  \<open>c_print\<close> stores a string with its zero byte in it,
  \<open>c_strlen\<close> is \<open>strlen\<close>, \<open>c_str\<close> the string an array holds.
\<close>

definition c_print :: "u8 list \<Rightarrow> u8 list \<Rightarrow> u8 list option" where
  "c_print s d = (if length s < length d then Some (buf_put 0 (s @ [0]) d) else None)"

definition c_str :: "u8 list \<Rightarrow> u8 list" where
  "c_str d = takeWhile (\<lambda>c. c \<noteq> 0) d"

definition c_strlen :: "u8 list \<Rightarrow> nat option" where
  "c_strlen d = (if 0 \<in> set d then Some (length (c_str d)) else None)"

definition str_result :: "u8 list option \<Rightarrow> (u16 \<times> u8 list) option" where
  "str_result r =
     (case r of None \<Rightarrow> None
      | Some d \<Rightarrow> (case c_strlen d of None \<Rightarrow> None | Some n \<Rightarrow> Some (of_nat n, d)))"

definition type_a_functions :: "u8 list \<Rightarrow> (u16 \<times> u8 list) option" where
  "type_a_functions d = str_result (c_print (bytes ''PicoLink Shdsl Bridge Device'') d)"

definition var_number :: "u8 list \<Rightarrow> u8 option" where
  "var_number esc =
     (case esc of a # b # _ \<Rightarrow> Some ((a - 0x30) * 10 + (b - 0x30)) | _ \<Rightarrow> None)"

definition type_b_functions :: "'h web_env \<Rightarrow> 'h web \<Rightarrow> u8 list \<Rightarrow> u8 list \<Rightarrow> (u16 \<times> u8 list) option" where
  "type_b_functions env w esc d =
     (case var_number esc of None \<Rightarrow> None
      | Some p1 \<Rightarrow> str_result
         (if p1 = 0 then c_print (join 0x2d (map hex2 (take 6 (ethaddr env)))) d
          else if p1 = 1 then c_print (c_str (Vxy w)) d
          else if p1 = 2 then c_print (print_ip_str (hostaddr env)) d
          else if p1 = 3 then c_print (print_ip_str (netmask env)) d
          else if p1 = 4 then c_print (print_ip_str (draddr env)) d
          else if p1 = 5 then c_print (dec (sint (maxrate (g_config (app w))))) d
          else if p1 = 6 then c_print (build_stamp env) d
          else Some d))"

definition type_d_functions :: "'h web \<Rightarrow> u8 list \<Rightarrow> u8 list \<Rightarrow> (u16 \<times> u8 list) option" where
  "type_d_functions w esc d =
     (case var_number esc of None \<Rightarrow> None
      | Some p1 \<Rightarrow>
          let c = g_config (app w); l = g_lineStatus (app w)
          in str_result
         (if p1 = 1 then c_print (dec (sint (dslWires c))) d
          else if p1 = 2 then c_print (dec (sint (dslStandard c))) d
          else if p1 = 3 then c_print (dec (sint (lineprobe c))) d
          else if p1 = 4 then c_print (dec (sint (cfg_extend c))) d
          else if p1 = 5 then c_print (dec (sint (cfg_extend_rate_fix_value c))) d
          else if p1 = 6 then c_print (dec (sint (minrate c))) d
          else if p1 = 7 then c_print (dec (sint (maxrate c))) d
          else if p1 = 8 then c_print (dec (sint (dslmode c))) d
          else if p1 = 9 then c_print (dec (sint (dslService c))) d
          else if p1 = 97
          then c_print (bytes ''SNR(Costumer)'' @ dec (sint (ls_snr_c l)) @ bytes '':SNR(Network)'' @
                 dec (sint (ls_snr_n l))) d
          else if p1 = 98 then c_print (dec (dateRate l) @ bytes '' kbps'') d
          else if p1 = 99
          then c_print (if linkStatus l = 0 then bytes ''Activated'' else bytes ''Idle mode'') d
          else Some d))"

text \<open>The length of the escape sequence, the length of the value and the buffer that holds it.\<close>

definition web_get_var :: "'h web_env \<Rightarrow> 'h web \<Rightarrow> u8 list \<Rightarrow> u8 list \<Rightarrow> (u16 \<times> u16 \<times> u8 list) option" where
  "web_get_var env w d src =
     (case drop 1 src of
        [] \<Rightarrow> None
      | c # esc \<Rightarrow>
          if c = 0x40 then Some (2, 1, d[0 := 0x40])
          else if c = 0x41 then map_option (Pair 2) (type_a_functions d)
          else if c = 0x42 then map_option (Pair 4) (type_b_functions env w esc d)
          else if c = 0x43
          then map_option (Pair 2) (str_result (c_print (dec (sint (g_totalpage w * 4096 + upload_file_length w))) d))
          else if c = 0x44 then map_option (Pair 4) (type_d_functions w esc d)
          else Some (2, 0, d))"

section \<open>Building a page\<close>

text \<open>
  \<open>web_copy\<close>: what is left to copy when an at sign or the end of the count is met, and what was copied.
\<close>

fun web_copy :: "nat \<Rightarrow> u8 list \<Rightarrow> (nat \<times> u8 list) option" where
  "web_copy 0 src = Some (0, [])"
| "web_copy (Suc count) [] = None"
| "web_copy (Suc count) (c # src) =
     (if c = 0x40 then Some (Suc count, [])
      else map_option (apsnd (Cons c)) (web_copy count src))"

lemma web_get_var_src: "web_get_var env w d src = Some (esc, n, d1) \<Longrightarrow> 2 \<le> length src \<and> 2 \<le> unat esc"
  by (cases src; cases "tl src") (auto simp: web_get_var_def split: if_splits)

text \<open>
  The loop of \<open>web_build_dyn\<close>: \<open>file_left\<close> bytes of the page are at \<open>src\<close>, \<open>out\<close> is in the buffer of the
  IP stack, \<open>d\<close> is the variable buffer.  It ends when the segment is full, when a value does not fit
  any more or when the page ends, with the segment and what is left of the page.
\<close>

function build_loop ::
  "'h web_env \<Rightarrow> 'h web \<Rightarrow> nat \<Rightarrow> u16 \<Rightarrow> u8 list \<Rightarrow> u8 list \<Rightarrow> u8 list \<Rightarrow> (u8 list \<times> u8 list) option" where
  "build_loop env w mss file_left src d out =
     (if file_left = 0 then Some (out, src)
      else let max_copy = min (unat file_left) (mss - length out)
           in case web_copy max_copy src of
                None \<Rightarrow> None
              | Some (left, bs) \<Rightarrow>
                  let copied = max_copy - left; src1 = drop copied src; out1 = out @ bs
                  in if left = 0 then Some (out1, src1)
                     else case web_get_var env w d src1 of
                            None \<Rightarrow> None
                          | Some (esc, n, d1) \<Rightarrow>
                              if length out1 + unat n \<le> mss
                              then build_loop env w mss (file_left - of_nat copied - esc) (drop (unat esc) src1) d1
                                     (out1 @ take (unat n) d1)
                              else Some (out1, src1))"
  by pat_completeness auto
termination
proof (relation "measure (\<lambda>(env, w, mss, file_left, src, d, out). length src)", goal_cases)
  case (2 env w mss file_left src d out mc p left bs copied src1 out1 q esc r n d1)
  then have "2 \<le> length src1 \<and> 2 \<le> unat esc" by (intro web_get_var_src) auto
  then show ?case using 2 by (auto intro!: diff_less)
qed simp

datatype web_dyn_state = WEB_DYN_PAGE_CREATE | WEB_DYN_PAGE_CONTINUE | WEB_DYN_PAGE_REPEAT

definition web_build_dyn :: "'h web_env \<Rightarrow> u16 \<Rightarrow> web_dyn_state \<Rightarrow> 'h web \<Rightarrow> 'h web option" where
  "web_build_dyn env mss state w =
     (let rom = (case state of
             WEB_DYN_PAGE_CREATE \<Rightarrow> 0
           | WEB_DYN_PAGE_CONTINUE \<Rightarrow> dataptr_rom w + unat (count_rom w)
           | WEB_DYN_PAGE_REPEAT \<Rightarrow> dataptr_rom w);
          file_ptr = drop rom (f_dat (hfile w));
          file_left = word_of_int (f_len (hfile w) - int rom)
      in case build_loop env w (unat mss) file_left file_ptr (var_junk env) [] of
           None \<Rightarrow> None
         | Some (out, src) \<Rightarrow>
             Some (w\<lparr>dataptr := out, hcount := of_nat (length out),
                    count_rom := of_nat (length file_ptr - length src), dataptr_rom := rom\<rparr>))"

definition web_send_complete :: "'h web \<Rightarrow> 'h web" where
  "web_send_complete w =
     (if reboot_pending w \<noteq> 0 \<and> reboot_hs w = Some (hs_id w)
      then w\<lparr>reboot_execute := True, reboot_timer := 0\<rparr> else w)"

text \<open>A static file, or the login page for the others when nobody is logged in.\<close>

definition send_file :: "'h web \<Rightarrow> 'h web" where
  "send_file w = w\<lparr>dataptr := f_dat (hfile w), hcount := word_of_int (f_len (hfile w))\<rparr>"

definition open_or_404 :: "'h web_env \<Rightarrow> u8 list \<Rightarrow> 'h web \<Rightarrow> 'h web option" where
  "open_or_404 env name w =
     (case fs_open env name w of
        None \<Rightarrow> None
      | Some (True, w1) \<Rightarrow> Some w1
      | Some (False, w1) \<Rightarrow> map_option snd (fs_open env (bytes ''404'') w1))"

definition web_select_page :: "'h web_env \<Rightarrow> u16 \<Rightarrow> u8 list \<Rightarrow> 'h web \<Rightarrow> 'h web option" where
  "web_select_page env mss name w =
     (case open_or_404 env name w of
        None \<Rightarrow> None
      | Some w1 \<Rightarrow>
          if f_type (hfile w1) = STATIC then Some (send_file w1)
          else if f_type (hfile w1) \<noteq> DYNAMIC_NOSPC \<and> \<not> web_logged_in w1
          then map_option send_file (open_or_404 env (bytes ''password'') w1)
          else if f_type (hfile w1) = STATIC_SPC then Some (send_file w1)
          else web_build_dyn env mss WEB_DYN_PAGE_CREATE w1)"

declare dec_nat.simps [simp del] build_loop.simps [simp del]

section \<open>What a page expands to\<close>

text \<open>
  A page as its author sees it: characters and variables.  \<open>var_table\<close> gives the text of each variable a
  page can name; \<open>tok_ok\<close> excludes the unknown ones and texts that do not fit one segment.
\<close>

datatype tok = Chr u8 | Var string

definition var_table :: "'h web_env \<Rightarrow> 'h web \<Rightarrow> (string \<times> u8 list) list" where
  "var_table env w =
    (let c = g_config (app w); l = g_lineStatus (app w); num = (\<lambda>v. dec (sint (v :: u32))) in
     [(''@'', [0x40]), (''A'', bytes ''PicoLink Shdsl Bridge Device''),
      (''B00'', join 0x2d (map hex2 (take 6 (ethaddr env)))), (''B01'', c_str (Vxy w)),
      (''B02'', print_ip_str (hostaddr env)), (''B03'', print_ip_str (netmask env)),
      (''B04'', print_ip_str (draddr env)), (''B05'', num (maxrate c)), (''B06'', build_stamp env),
      (''C'', num (g_totalpage w * 4096 + upload_file_length w)),
      (''D01'', num (dslWires c)), (''D02'', num (dslStandard c)), (''D03'', num (lineprobe c)),
      (''D04'', num (cfg_extend c)), (''D05'', num (cfg_extend_rate_fix_value c)),
      (''D06'', num (minrate c)), (''D07'', num (maxrate c)), (''D08'', num (dslmode c)),
      (''D09'', num (dslService c)),
      (''D97'', bytes ''SNR(Costumer)'' @ num (ls_snr_c l) @ bytes '':SNR(Network)'' @ num (ls_snr_n l)),
      (''D98'', dec (dateRate l) @ bytes '' kbps''),
      (''D99'', if linkStatus l = 0 then bytes ''Activated'' else bytes ''Idle mode'')])"

fun tok_src :: "tok \<Rightarrow> u8 list" where
  "tok_src (Chr c) = [c]"
| "tok_src (Var s) = 0x40 # bytes s"

fun tok_text :: "'h web_env \<Rightarrow> 'h web \<Rightarrow> tok \<Rightarrow> u8 list" where
  "tok_text env w (Chr c) = [c]"
| "tok_text env w (Var s) = the (map_of (var_table env w) s)"

definition page_src :: "tok list \<Rightarrow> u8 list" where
  "page_src ts = concat (map tok_src ts)"

definition page_text :: "'h web_env \<Rightarrow> 'h web \<Rightarrow> tok list \<Rightarrow> u8 list" where
  "page_text env w ts = concat (map (tok_text env w) ts)"

fun tok_ok :: "'h web_env \<Rightarrow> 'h web \<Rightarrow> nat \<Rightarrow> tok \<Rightarrow> bool" where
  "tok_ok env w mss (Chr c) = (c \<noteq> 0x40)"
| "tok_ok env w mss (Var s) =
     (case map_of (var_table env w) s of None \<Rightarrow> False
      | Some t \<Rightarrow> 0 \<notin> set t \<and> length t < 510 \<and> length t \<le> mss)"

lemma page_simps [simp]:
  "page_src [] = []" "page_src (t # ts) = tok_src t @ page_src ts"
  "page_src (ts @ us) = page_src ts @ page_src us" "page_src (map Chr cs) = cs"
  "page_text env w [] = []" "page_text env w (t # ts) = tok_text env w t @ page_text env w ts"
  "page_text env w (ts @ us) = page_text env w ts @ page_text env w us" "page_text env w (map Chr cs) = cs"
proof -
  show "page_src (map Chr cs) = cs" by (induction cs) (auto simp: page_src_def)
  show "page_text env w (map Chr cs) = cs" by (induction cs) (auto simp: page_text_def)
qed (simp_all add: page_src_def page_text_def)

lemma buf_put_0: "length xs \<le> length d \<Longrightarrow> buf_put 0 xs d = xs @ drop (length xs) d"
  by (rule nth_equalityI) (auto simp: nth_buf_put nth_append)

lemma str_result_print:
  assumes "0 \<notin> set t" and "length t < length d"
  shows "str_result (c_print t d) = Some (of_nat (length t), t @ 0 # drop (Suc (length t)) d)"
proof -
  have e: "buf_put 0 (t @ [0]) d = t @ 0 # drop (Suc (length t)) d"
    using assms(2) by (simp add: buf_put_0)
  have "c_str (t @ 0 # drop (Suc (length t)) d) = t"
    using assms(1) by (auto simp: c_str_def takeWhile_append2 intro!: takeWhile_append2[THEN trans])
  then show ?thesis
    using assms(2) by (simp add: str_result_def c_print_def e c_strlen_def)
qed

lemma esc_bytes:
  "bytes ''@'' = [0x40]" "bytes ''A'' = [0x41]" "bytes ''C'' = [0x43]"
  "bytes ''B00'' = [0x42, 0x30, 0x30]" "bytes ''B01'' = [0x42, 0x30, 0x31]" "bytes ''B02'' = [0x42, 0x30, 0x32]"
  "bytes ''B03'' = [0x42, 0x30, 0x33]" "bytes ''B04'' = [0x42, 0x30, 0x34]" "bytes ''B05'' = [0x42, 0x30, 0x35]"
  "bytes ''B06'' = [0x42, 0x30, 0x36]"
  "bytes ''D01'' = [0x44, 0x30, 0x31]" "bytes ''D02'' = [0x44, 0x30, 0x32]" "bytes ''D03'' = [0x44, 0x30, 0x33]"
  "bytes ''D04'' = [0x44, 0x30, 0x34]" "bytes ''D05'' = [0x44, 0x30, 0x35]" "bytes ''D06'' = [0x44, 0x30, 0x36]"
  "bytes ''D07'' = [0x44, 0x30, 0x37]" "bytes ''D08'' = [0x44, 0x30, 0x38]" "bytes ''D09'' = [0x44, 0x30, 0x39]"
  "bytes ''D97'' = [0x44, 0x39, 0x37]" "bytes ''D98'' = [0x44, 0x39, 0x38]" "bytes ''D99'' = [0x44, 0x39, 0x39]"
  by code_simp+

text \<open>The code computes the table.\<close>

lemma web_get_var_text:
  assumes "map_of (var_table env w) s = Some t" and "0 \<notin> set t" and "length t < 510" and "length d = 510"
  shows "\<exists>d1. web_get_var env w d (0x40 # bytes s @ p) = Some (of_nat (Suc (length s)), of_nat (length t), t @ d1) \<and>
    length (t @ d1) = 510"
proof (cases "s = ''@''")
  case True
  then have "t = [0x40]" using assms(1) by (auto simp: var_table_def Let_def)
  moreover have "d[0 := 0x40] = [0x40] @ tl d" using assms(4) by (cases d) auto
  ultimately show ?thesis using assms(4) True by (simp add: web_get_var_def esc_bytes)
next
  case False
  have "web_get_var env w d (0x40 # bytes s @ p) =
      map_option (Pair (of_nat (Suc (length s)))) (str_result (c_print t d))"
    using assms(1) False
    by (auto simp: var_table_def Let_def split: if_splits)
      (simp_all add: web_get_var_def esc_bytes type_a_functions_def type_b_functions_def type_d_functions_def
        var_number_def Let_def)
  then show ?thesis using str_result_print[of t d] assms(2-4) by auto
qed

lemma unat_u16: "k < 65536 \<Longrightarrow> unat (of_nat k :: u16) = k"
  by (simp add: unat_of_nat)

lemma web_copy_run:
  assumes "0x40 \<notin> set cs" and "r = [] \<or> hd r = 0x40" and "k \<le> length (cs @ r)"
  shows "web_copy k (cs @ r) = (if k \<le> length cs then Some (0, take k cs) else Some (k - length cs, cs))"
  using assms(1,3)
proof (induction cs arbitrary: k)
  case Nil
  then show ?case using assms(2) by (cases k; cases r) auto
next
  case (Cons c cs)
  show ?case
  proof (cases k)
    case (Suc k')
    then show ?thesis using Cons.IH[of k'] Cons.prems by auto
  qed simp
qed

lemma tok_split:
  "\<exists>cs us. ts = map Chr cs @ us \<and> (us = [] \<or> (\<exists>s vs. us = Var s # vs))"
proof (induction ts)
  case (Cons t ts)
  then obtain cs us where h: "ts = map Chr cs @ us" "us = [] \<or> (\<exists>s vs. us = Var s # vs)" by auto
  show ?case
  proof (cases t)
    case (Chr c)
    with h show ?thesis by (intro exI[of _ "c # cs"] exI[of _ us]) auto
  next
    case (Var s)
    with h show ?thesis by (intro exI[of _ "[]"] exI[of _ "t # ts"]) auto
  qed
qed simp

definition chunk_end :: "'h web_env \<Rightarrow> 'h web \<Rightarrow> nat \<Rightarrow> u8 list \<Rightarrow> tok list \<Rightarrow> bool" where
  "chunk_end env w mss out us \<longleftrightarrow> length out \<le> mss \<and>
     (us = [] \<or> length out = mss \<or> mss < length out + length (tok_text env w (hd us)))"

text \<open>
  One run of the loop puts the texts of the next tokens into the segment, as many as fit, and stops
  right before the first that does not.
\<close>

lemma build_loop_toks:
  assumes "list_all (tok_ok env w mss) ts" and "length (page_src ts) < 65536" and "length d = 510"
    and "length out \<le> mss"
  shows "\<exists>ts1 ts2. ts = ts1 @ ts2 \<and>
    build_loop env w mss (of_nat (length (page_src ts))) (page_src ts) d out =
      Some (out @ page_text env w ts1, page_src ts2) \<and> chunk_end env w mss (out @ page_text env w ts1) ts2"
  using assms
proof (induction ts arbitrary: d out rule: length_induct)
  case (1 ts)
  let ?n = "length (page_src ts)" and ?room = "mss - length out"
  have u: "unat (of_nat ?n :: u16) = ?n" by (rule unat_u16) (use "1.prems"(2) in simp)
  show ?case
  proof (cases "ts = []")
    case True
    with "1.prems"(4) show ?thesis by (simp add: build_loop.simps chunk_end_def)
  next
    case False
    obtain cs us where ts: "ts = map Chr cs @ us" and us: "us = [] \<or> (\<exists>s vs. us = Var s # vs)"
      using tok_split by blast
    have cs: "0x40 \<notin> set cs" using "1.prems"(1) by (auto simp: ts list_all_iff dest!: bspec[of _ _ "Chr 0x40"])
    have n0: "(of_nat ?n :: u16) \<noteq> 0"
    proof
      assume "(of_nat ?n :: u16) = 0"
      then have "?n = 0" using u by simp
      with False show False by (cases ts; cases "hd ts") auto
    qed
    define m where "m = min ?n ?room"
    have cp: "web_copy m (page_src ts) = (if m \<le> length cs then Some (0, take m cs) else Some (m - length cs, cs))"
      unfolding ts page_simps by (rule web_copy_run) (use cs us in \<open>auto simp: m_def ts\<close>)
    show ?thesis
    proof (cases "m \<le> length cs")
      case True
      have "build_loop env w mss (of_nat ?n) (page_src ts) d out = Some (out @ take m cs, drop m (page_src ts))"
        using n0 cp True by (subst build_loop.simps) (simp add: u m_def[symmetric])
      moreover have "ts = map Chr (take m cs) @ map Chr (drop m cs) @ us" by (simp add: ts flip: map_append)
      moreover have "chunk_end env w mss (out @ take m cs) (map Chr (drop m cs) @ us)"
        using "1.prems"(4) True us
        by (auto simp: chunk_end_def m_def ts min_def split: if_splits)
      moreover have "drop m (page_src ts) = page_src (map Chr (drop m cs) @ us)" using True by (simp add: ts)
      ultimately show ?thesis
        by (intro exI conjI[of "ts = _"]) (assumption, simp)
    next
      case False
      then obtain s vs where us: "us = Var s # vs" using us by (auto simp: m_def ts)
      have "tok_ok env w mss (Var s)" using "1.prems"(1) by (simp add: ts us)
      then obtain t where t: "map_of (var_table env w) s = Some t" "0 \<notin> set t" "length t < 510" "length t \<le> mss"
        by (auto split: option.splits)
      define e :: u16 where "e = of_nat (Suc (length s))"
      obtain d1 where v: "web_get_var env w d (0x40 # bytes s @ page_src vs) =
          Some (e, of_nat (length t), t @ d1)" "length (t @ d1) = 510"
        unfolding e_def using web_get_var_text[OF t(1-3) "1.prems"(3)] by blast
      have ls: "length (bytes s) = length s" by (simp add: bytes_def)
      have un: "unat (of_nat (length t) :: u16) = length t" "unat e = Suc (length s)"
        unfolding e_def by (rule unat_u16, use t(3) "1.prems"(2) ls in \<open>simp add: ts us\<close>)+
      have d: "m - (m - length cs) = length cs" using False by simp
      have src: "drop (length cs) (page_src ts) = 0x40 # bytes s @ page_src vs" by (simp add: ts us)
      show ?thesis
      proof (cases "length (out @ cs) + length t \<le> mss")
        case fits: True
        have "(of_nat ?n :: u16) - of_nat (length cs) - e = of_nat (length (page_src vs))"
          by (simp add: ts us ls e_def)
        then have step: "build_loop env w mss (of_nat ?n) (page_src ts) d out =
            build_loop env w mss (of_nat (length (page_src vs))) (page_src vs) (t @ d1) (out @ cs @ t)"
          using n0 cp False fits by (subst build_loop.simps) (simp add: u m_def[symmetric] d src v un ls)
        have "length vs < length ts" by (simp add: ts us)
        then obtain ts1 ts2 where ih: "vs = ts1 @ ts2"
            "build_loop env w mss (of_nat (length (page_src vs))) (page_src vs) (t @ d1) (out @ cs @ t) =
             Some ((out @ cs @ t) @ page_text env w ts1, page_src ts2)"
            "chunk_end env w mss ((out @ cs @ t) @ page_text env w ts1) ts2"
          using "1.IH"[rule_format, of vs "t @ d1" "out @ cs @ t"] "1.prems"(1,2) v(2) fits by (auto simp: ts us)
        then show ?thesis
          unfolding step by - (rule exI[of _ "map Chr cs @ Var s # ts1"], rule exI[of _ ts2], simp add: ts us t(1))
      next
        case full: False
        have "build_loop env w mss (of_nat ?n) (page_src ts) d out = Some (out @ cs, page_src us)"
          using n0 cp False full by (subst build_loop.simps) (simp add: u m_def[symmetric] d src v un us)
        moreover have "chunk_end env w mss (out @ cs) us"
          using full False "1.prems"(4) by (auto simp: chunk_end_def us t(1) m_def)
        ultimately show ?thesis by - (rule exI[of _ "map Chr cs"], rule exI[of _ us], simp add: ts)
      qed
    qed
  qed
qed

section \<open>The segments of a page\<close>

text \<open>\<open>seg_of env w w' ps ts ts1\<close>: the segment in \<open>w'\<close> holds the texts of \<open>ts1\<close>, which follow \<open>ps\<close> in the page.\<close>

definition seg_upd :: "'h web_env \<Rightarrow> 'h web \<Rightarrow> tok list \<Rightarrow> tok list \<Rightarrow> 'h web" where
  "seg_upd env w ps ts =
     w\<lparr>dataptr := page_text env w ts, hcount := of_nat (length (page_text env w ts)),
       count_rom := of_nat (length (page_src ts)), dataptr_rom := length (page_src ps)\<rparr>"

definition page_file :: "'h web_env \<Rightarrow> u16 \<Rightarrow> tok list \<Rightarrow> 'h web \<Rightarrow> bool" where
  "page_file env mss ts w \<longleftrightarrow>
     f_dat (hfile w) = page_src ts \<and> f_len (hfile w) = int (length (page_src ts)) \<and>
     length (page_src ts) < 65536 \<and> length (var_junk env) = 510 \<and>
     list_all (tok_ok env w (unat mss)) ts \<and> is_dynamic (f_type (hfile w))"

lemma build_from:
  assumes "page_file env mss (ps @ ts) w"
    and "(case st of WEB_DYN_PAGE_CREATE \<Rightarrow> 0 | WEB_DYN_PAGE_CONTINUE \<Rightarrow> dataptr_rom w + unat (count_rom w)
          | WEB_DYN_PAGE_REPEAT \<Rightarrow> dataptr_rom w) = length (page_src ps)"
  shows "\<exists>ts1 ts2. ts = ts1 @ ts2 \<and> web_build_dyn env mss st w = Some (seg_upd env w ps ts1) \<and>
    chunk_end env w (unat mss) (page_text env w ts1) ts2"
proof -
  have f: "f_dat (hfile w) = page_src (ps @ ts)" "f_len (hfile w) = int (length (page_src (ps @ ts)))"
    using assms(1) by (simp_all add: page_file_def)
  have left: "word_of_int (f_len (hfile w) - int (length (page_src ps))) = (of_nat (length (page_src ts)) :: u16)"
    unfolding f by simp
  have ptr: "drop (length (page_src ps)) (f_dat (hfile w)) = page_src ts" unfolding f by simp
  obtain ts1 ts2 where h: "ts = ts1 @ ts2"
      "build_loop env w (unat mss) (of_nat (length (page_src ts))) (page_src ts) (var_junk env) [] =
       Some ([] @ page_text env w ts1, page_src ts2)"
      "chunk_end env w (unat mss) ([] @ page_text env w ts1) ts2"
    using build_loop_toks[of env w "unat mss" ts "var_junk env" "[]"] assms(1) by (auto simp: page_file_def)
  have "web_build_dyn env mss st w = Some (seg_upd env w ps ts1)"
    unfolding web_build_dyn_def assms(2) Let_def left ptr h(2)
    by (simp add: seg_upd_def h(1))
  with h show ?thesis by auto
qed

lemma seg_upd_sel [simp]:
  "hfile (seg_upd env w ps ts) = hfile w" "dataptr (seg_upd env w ps ts) = page_text env w ts"
  "dataptr_rom (seg_upd env w ps ts) = length (page_src ps)"
  "hcount (seg_upd env w ps ts) = of_nat (length (page_text env w ts))"
  "count_rom (seg_upd env w ps ts) = of_nat (length (page_src ts))" "hstate (seg_upd env w ps ts) = hstate w"
  "var_table env' (seg_upd env w ps ts) = var_table env' w"
  by (simp_all add: seg_upd_def var_table_def)

lemma toks_cong:
  assumes "var_table env w' = var_table env w"
  shows "tok_text env w' = tok_text env w" "page_text env w' = page_text env w" "tok_ok env w' m = tok_ok env w m"
proof -
  have "tok_text env w' t = tok_text env w t" for t using assms by (cases t) auto
  then show t: "tok_text env w' = tok_text env w" by (rule ext)
  show "page_text env w' = page_text env w" by (rule ext) (simp add: page_text_def t)
  have "tok_ok env w' m t = tok_ok env w m t" for t using assms by (cases t) auto
  then show "tok_ok env w' m = tok_ok env w m" by (rule ext)
qed

lemma page_file_cong:
  assumes "var_table env w' = var_table env w" and "hfile w' = hfile w"
  shows "page_file env mss ts w' = page_file env mss ts w"
  unfolding page_file_def toks_cong[OF assms(1)] assms(2) ..

end
