(* ===== verification/Web_Post.thy ===== *)
theory Web_Post
  imports Http Web_Page
begin

text \<open>
  The handlers of posted forms (\<open>webpost.c\<close>), their directory (\<open>funcdir.c\<close>) and the callback of the IP
  stack, \<open>httpd_appcall\<close> of \<open>httpd.c\<close>, which runs the parser, answers a request and sends the page
  segment by segment.
\<close>

section \<open>Form variables\<close>

definition find_form_var :: "string \<Rightarrow> 'h web \<Rightarrow> bool \<times> 'h web" where
  "find_form_var name w =
     (case http_search_body (body_buf w) (unat (ucast (body_len w) :: u16)) (bytes name) 40 of
        None \<Rightarrow> (False, w)
      | Some v \<Rightarrow> (True, w\<lparr>form_var := buf_put 0 (v @ [0]) (form_var w)\<rparr>))"

definition find_submit_value :: "'h web \<Rightarrow> bool \<times> 'h web" where
  "find_submit_value w =
     (let w1 = w\<lparr>submit_buf := replicate 14 0x20 @ [0]\<rparr>
      in case http_search_body (body_buf w1) (unat (ucast (body_len w1) :: u16)) (bytes ''submit'') 15 of
           None \<Rightarrow> (False, w1)
         | Some v \<Rightarrow> (True, w1\<lparr>submit_buf := buf_put 0 (v @ [0]) (submit_buf w1)\<rparr>))"

text \<open>
  \<open>atoi\<close> of the C library: blanks, a sign, digits.  A number that is no \<open>int\<close> has no meaning in C; here it
  becomes the nearest \<open>int\<close>, as with \<open>strtol\<close>.
\<close>

definition is_space :: "u8 \<Rightarrow> bool" where
  "is_space c \<longleftrightarrow> c = 0x20 \<or> 9 \<le> c \<and> c \<le> 13"

definition is_digit :: "u8 \<Rightarrow> bool" where
  "is_digit c \<longleftrightarrow> 0x30 \<le> c \<and> c \<le> 0x39"

definition digits_value :: "u8 list \<Rightarrow> int" where
  "digits_value ds = foldl (\<lambda>n d. n * 10 + uint (d - 0x30)) 0 ds"

definition parse_int :: "u8 list \<Rightarrow> int" where
  "parse_int s =
     (let s1 = dropWhile is_space s; sign = deref_byte s1;
          s2 = (if sign = 0x2d \<or> sign = 0x2b then drop 1 s1 else s1);
          n = digits_value (takeWhile is_digit s2)
      in if sign = 0x2d then - n else n)"

definition atoi :: "u8 list \<Rightarrow> u32" where
  "atoi s = word_of_int (max (- (2 ^ 31)) (min (2 ^ 31 - 1) (parse_int s)))"

section \<open>Handlers\<close>

definition password_ok :: "u8 list \<Rightarrow> bool" where
  "password_ok entry_ptr = True"

text \<open>Without a login the login page is sent and the handler ends.\<close>

definition when_entered ::
  "'h web_env \<Rightarrow> u16 \<Rightarrow> ('h web \<Rightarrow> 'h web option) \<Rightarrow> 'h web \<Rightarrow> 'h web option" where
  "when_entered env mss f w =
     (if \<not> web_logged_in w then web_select_page env mss (bytes ''password'') w else f w)"

definition web_password_func :: "'h web_env \<Rightarrow> u16 \<Rightarrow> 'h web \<Rightarrow> 'h web option" where
  "web_password_func env mss w =
     (case find_form_var ''password'' w of
        (False, w1) \<Rightarrow> web_select_page env mss (bytes ''password'') w1
      | (True, w1) \<Rightarrow>
          (case c_strlen (form_var w1) of
             None \<Rightarrow> None
           | Some n \<Rightarrow>
               let w2 = w1\<lparr>form_var := (form_var w1)[min n 39 := 0x0d]\<rparr>
               in if password_ok (form_var w2)
                  then web_select_page env mss (bytes ''pwconfirm'') (w2\<lparr>web_logged_in := True\<rparr>)
                  else web_select_page env mss (bytes ''password'') w2))"

definition web_upload_func_done :: "'h web_env \<Rightarrow> u16 \<Rightarrow> 'h web \<Rightarrow> 'h web option" where
  "web_upload_func_done env mss w =
     map_option release_updown_load
       (if web_upload_case w = WEB_UPLOAD_CFG then web_select_page env mss (bytes ''uploaddone'') w else Some w)"

definition upper_form_var :: "'h web \<Rightarrow> 'h web" where
  "upper_form_var w = w\<lparr>form_var := str_conv_to_upper_case (form_var w)\<rparr>"

definition web_led_func :: "'h web_env \<Rightarrow> u16 \<Rightarrow> 'h web \<Rightarrow> 'h web option" where
  "web_led_func env mss = when_entered env mss (\<lambda>w.
     case find_form_var ''submit'' w of (found, w1) \<Rightarrow>
       web_select_page env mss (bytes ''get'') (if found then upper_form_var w1 else w1))"

definition web_select_func :: "'h web_env \<Rightarrow> u16 \<Rightarrow> 'h web \<Rightarrow> 'h web option" where
  "web_select_func env mss = when_entered env mss (\<lambda>w.
     case find_form_var ''led'' w of (found, w1) \<Rightarrow>
       let w2 = (if found then upper_form_var w1 else w1)
       in web_select_page env mss (bytes ''postdemo'') (snd (find_form_var ''dslmode'' w2)))"

text \<open>\<open>strcpy(Vxy, form_var)\<close> into ten bytes.\<close>

definition web_text_func :: "'h web_env \<Rightarrow> u16 \<Rightarrow> 'h web \<Rightarrow> 'h web option" where
  "web_text_func env mss = when_entered env mss (\<lambda>w.
     case find_form_var ''text'' w of
       (False, w1) \<Rightarrow> web_select_page env mss (bytes ''postdemo'') w1
     | (True, w1) \<Rightarrow>
         (case c_print (c_str (form_var w1)) (Vxy w1) of
            None \<Rightarrow> None
          | Some v \<Rightarrow> web_select_page env mss (bytes ''postdemo'') (upper_form_var (w1\<lparr>Vxy := v\<rparr>))))"

definition web_check_func :: "'h web_env \<Rightarrow> u16 \<Rightarrow> 'h web \<Rightarrow> 'h web option" where
  "web_check_func env mss = when_entered env mss (\<lambda>w.
     web_select_page env mss (bytes ''postdemo'') (snd (find_form_var ''led'' w)))"

definition web_radio_func :: "'h web_env \<Rightarrow> u16 \<Rightarrow> 'h web \<Rightarrow> 'h web option" where
  "web_radio_func env mss = when_entered env mss (\<lambda>w.
     web_select_page env mss (bytes ''postdemo'') (snd (find_form_var ''led'' w)))"

text \<open>The form of the DSL settings: every field that is there replaces the setting of its name.\<close>

definition set_config :: "string \<Rightarrow> (u32 \<Rightarrow> config \<Rightarrow> config) \<Rightarrow> 'h web \<Rightarrow> 'h web" where
  "set_config name upd w =
     (case find_form_var name w of
        (False, w1) \<Rightarrow> w1
      | (True, w1) \<Rightarrow>
          w1\<lparr>app := (app w1)\<lparr>g_config := upd (atoi (c_str (form_var w1))) (g_config (app w1))\<rparr>\<rparr>)"

definition config_fields :: "(string \<times> (u32 \<Rightarrow> config \<Rightarrow> config)) list" where
  "config_fields =
    [(''dslService'', \<lambda>v c. c\<lparr>dslService := v\<rparr>),
     (''caplist_co'', \<lambda>v c. c\<lparr>caplist_co := v\<rparr>),
     (''caplist_rt'', \<lambda>v c. c\<lparr>caplist_rt := v\<rparr>),
     (''dslWires'', \<lambda>v c. c\<lparr>dslWires := v\<rparr>),
     (''dslStandard'', \<lambda>v c. c\<lparr>dslStandard := v\<rparr>),
     (''lineprobe'', \<lambda>v c. c\<lparr>lineprobe := v\<rparr>),
     (''extend'', \<lambda>v c. c\<lparr>cfg_extend := v\<rparr>),
     (''extend_rate_fix_value'', \<lambda>v c. c\<lparr>cfg_extend_rate_fix_value := v\<rparr>),
     (''maxrate'', \<lambda>v c. c\<lparr>maxrate := v\<rparr>),
     (''minrate'', \<lambda>v c. c\<lparr>minrate := v\<rparr>),
     (''dslmode'', \<lambda>v c. c\<lparr>dslmode := v\<rparr>)]"

definition set_configs :: "'h web \<Rightarrow> 'h web" where
  "set_configs w = foldl (\<lambda>w (name, upd). set_config name upd w) w config_fields"

definition web_dslconfig_func :: "'h web_env \<Rightarrow> u16 \<Rightarrow> 'h web \<Rightarrow> 'h web option" where
  "web_dslconfig_func env mss = when_entered env mss (\<lambda>w.
     map_option (\<lambda>w1. w1\<lparr>app := rt_sendmb (senv_of env) 100 (app w1)\<rparr>)
       (web_select_page env mss (bytes ''config'') (set_configs w)))"

text \<open>\<open>func_dir\<close> and \<open>fs_post_func\<close>\<close>

definition func_dir :: "(u8 list \<times> ('h web_env \<Rightarrow> u16 \<Rightarrow> 'h web \<Rightarrow> 'h web option)) list" where
  "func_dir =
    [(bytes ''pass'', web_password_func), (bytes ''led'', web_led_func),
     (bytes ''select'', web_select_func), (bytes ''text'', web_text_func),
     (bytes ''check'', web_check_func), (bytes ''radio'', web_radio_func),
     (bytes ''file'', web_upload_func_done), (bytes ''config'', web_dslconfig_func)]"

definition fs_post_func :: "u8 list \<Rightarrow> ('h web_env \<Rightarrow> u16 \<Rightarrow> 'h web \<Rightarrow> 'h web option) option" where
  "fs_post_func name = map_option snd (find (\<lambda>(n, f). fs_strcmp name n) func_dir)"

section \<open>Answering\<close>

text \<open>\<open>build_status_code\<close>, with the name of the status page.\<close>

definition build_status_code :: "'h web_env \<Rightarrow> string \<Rightarrow> 'h web \<Rightarrow> 'h web option" where
  "build_status_code env code w = map_option (\<lambda>(_, w1). send_file w1) (fs_open env (bytes code) w)"

text \<open>A GET request with a question mark is turned into a POST request of what follows it.\<close>

definition split_query :: "'h web \<Rightarrow> 'h web" where
  "split_query w =
     (let path = takeWhile (\<lambda>c. c \<noteq> 0x3f) (take (unat (uri_len w)) (uri w)); j = length path;
          query = drop (Suc j) (take (unat (uri_len w)) (uri w))
      in if hmethod w = ISO_G \<and> j < unat (uri_len w)
         then w\<lparr>uri := (uri w)[j := 0], hmethod := ISO_P, body_buf := buf_put 0 (query @ [0]) (body_buf w),
                body_i := of_nat (length query), body_len := of_nat (length query)\<rparr>
         else w)"

definition answer_method :: "'h web_env \<Rightarrow> u16 \<Rightarrow> 'h web \<Rightarrow> 'h web option" where
  "answer_method env mss w =
     (if hmethod w = ISO_G
      then (if uri w ! 0 = 0x2f \<and> uri_len w = 1 then web_select_page env mss (bytes ''index'') w
            else web_select_page env mss (drop 1 (uri w)) w)
      else if hmethod w = ISO_P
      then (if body_len w = 0 then build_status_code env ''400'' w
            else case fs_post_func (drop 1 (uri w)) of
                   Some f \<Rightarrow> f env mss w
                 | None \<Rightarrow> build_status_code env ''404'' w)
      else build_status_code env ''501'' w)"

definition handle_request :: "'h web_env \<Rightarrow> u16 \<Rightarrow> 'h web \<Rightarrow> 'h web option" where
  "handle_request env mss w =
     (case finish_upload (spi_found env) w of
        None \<Rightarrow> None
      | Some w1 \<Rightarrow>
          if uri_len w1 = 0 \<or> herror w1 then build_status_code env ''400'' w1
          else case arr_set (unat (uri_len w1)) 0 (uri w1) of
                 None \<Rightarrow> None
               | Some u \<Rightarrow> answer_method env mss (split_query (w1\<lparr>uri := u\<rparr>)))"

section \<open>The callback\<close>

definition on_newdata :: "'h web_env \<Rightarrow> uip_event \<Rightarrow> 'h web \<Rightarrow> 'h web option" where
  "on_newdata env ev w =
     (if uip_newdata ev
      then case http_process env ev w of
             None \<Rightarrow> None
           | Some w1 \<Rightarrow> if hstate w1 = HTTP_END then handle_request env (uip_mss ev) w1 else Some w1
      else Some w)"

text \<open>What was acknowledged is behind; when a dynamic page has been sent so far, its next segment is built.\<close>

definition on_acked :: "'h web_env \<Rightarrow> uip_event \<Rightarrow> 'h web \<Rightarrow> (uip_action list \<times> 'h web) option" where
  "on_acked env ev w =
     (let w1 = (if hcount w \<ge> conn_len ev
                then w\<lparr>hcount := hcount w - conn_len ev, dataptr := drop (unat (conn_len ev)) (dataptr w)\<rparr>
                else w\<lparr>hcount := 0\<rparr>)
      in case (if is_dynamic (f_type (hfile w1)) \<and> hcount w1 = 0
               then web_build_dyn env (uip_mss ev) WEB_DYN_PAGE_CONTINUE w1 else Some w1) of
           None \<Rightarrow> None
         | Some w2 \<Rightarrow> Some (if hcount w2 = 0 then ([Uip_close], web_send_complete w2) else ([], w2)))"

definition send_segment :: "'h web_env \<Rightarrow> uip_event \<Rightarrow> 'h web \<Rightarrow> (uip_action list \<times> 'h web) option" where
  "send_segment env ev w =
     (case (if uip_acked ev then on_acked env ev w
            else if uip_rexmit ev \<and> is_dynamic (f_type (hfile w))
            then map_option (Pair []) (web_build_dyn env (uip_mss ev) WEB_DYN_PAGE_REPEAT w)
            else Some ([], w)) of
        None \<Rightarrow> None
      | Some (acts, w1) \<Rightarrow> Some (acts @ [Uip_send (take (unat (hcount w1)) (dataptr w1))], w1))"

definition httpd_appcall :: "'h web_env \<Rightarrow> uip_event \<Rightarrow> 'h web \<Rightarrow> (uip_action list \<times> 'h web) option" where
  "httpd_appcall env ev w =
     (if uip_connected ev then Some ([], http_process_init w)
      else if uip_poll ev
      then Some ((if hcount w \<ge> 10 then [Uip_abort] else []), w\<lparr>hcount := hcount w + 1\<rparr>)
      else case on_newdata env ev w of
             None \<Rightarrow> None
           | Some w1 \<Rightarrow>
               if uip_closed ev then Some ([], http_process_init (web_send_complete w1))
               else if hstate w1 = HTTP_END then send_segment env ev w1
               else Some ([], w1))"

end
