(* ===== verification/Web_Serve.thy ===== *)
theory Web_Serve
  imports Web_Post
begin

text \<open>
  A dynamic page on its way to the browser: the segments that \<open>httpd_appcall\<close> sends as they are
  acknowledged, one after the other, are the page with its variables filled in.
\<close>

section \<open>Events\<close>

definition no_event :: "u16 \<Rightarrow> uip_event" where
  "no_event mss = \<lparr>uip_connected = False, uip_poll = False, uip_newdata = False, uip_acked = False,
     uip_rexmit = False, uip_closed = False, uip_appdata = [], uip_len = 0, conn_len = 0, uip_mss = mss\<rparr>"

definition ack_event :: "u16 \<Rightarrow> u16 \<Rightarrow> uip_event" where
  "ack_event mss n = (no_event mss)\<lparr>uip_acked := True, conn_len := n\<rparr>"

definition rexmit_event :: "u16 \<Rightarrow> uip_event" where
  "rexmit_event mss = (no_event mss)\<lparr>uip_rexmit := True\<rparr>"

text \<open>The browser acknowledges each segment; \<open>transfer k\<close> follows at most \<open>k\<close> acknowledgements up to the close.\<close>

fun transfer :: "'h web_env \<Rightarrow> u16 \<Rightarrow> nat \<Rightarrow> 'h web \<Rightarrow> (u8 list list \<times> 'h web) option" where
  "transfer env mss 0 w = None"
| "transfer env mss (Suc k) w =
     (case httpd_appcall env (ack_event mss (hcount w)) w of
        Some ([Uip_send s], w1) \<Rightarrow> map_option (apfst (Cons s)) (transfer env mss k w1)
      | Some (acts, w1) \<Rightarrow> if Uip_close \<in> set acts then Some ([], w1) else None
      | None \<Rightarrow> None)"

text \<open>
  \<open>served env mss w xs\<close>: from the state \<open>w\<close> each acknowledgement brings the next segment and state of the list, and the
  one after the last closes the connection; asked in any of these states to send again, the server sends
  that segment again and the state stays.
\<close>

fun served :: "'h web_env \<Rightarrow> u16 \<Rightarrow> 'h web \<Rightarrow> (u8 list \<times> 'h web) list \<Rightarrow> bool" where
  "served env mss w [] \<longleftrightarrow>
     (case httpd_appcall env (ack_event mss (hcount w)) w of
        Some (acts, w1) \<Rightarrow> Uip_close \<in> set acts
      | None \<Rightarrow> False)"
| "served env mss w ((s, w1) # xs) \<longleftrightarrow>
     httpd_appcall env (ack_event mss (hcount w)) w = Some ([Uip_send s], w1) \<and>
     httpd_appcall env (rexmit_event mss) w1 = Some ([Uip_send s], w1) \<and> served env mss w1 xs"

section \<open>One segment after the other\<close>

text \<open>
  \<open>ps\<close> has been sent before, \<open>ts1\<close> is in the segment, \<open>ts2\<close> is to come; building the segment again
  changes nothing.
\<close>

definition in_transit ::
  "'h web_env \<Rightarrow> u16 \<Rightarrow> tok list \<Rightarrow> tok list \<Rightarrow> tok list \<Rightarrow> 'h web \<Rightarrow> bool" where
  "in_transit env mss ps ts1 ts2 w \<longleftrightarrow> page_file env mss (ps @ ts1 @ ts2) w \<and> hstate w = HTTP_END \<and> reboot_pending w = 0 \<and>
     dataptr w = page_text env w ts1 \<and> hcount w = of_nat (length (page_text env w ts1)) \<and>
     count_rom w = of_nat (length (page_src ts1)) \<and> dataptr_rom w = length (page_src ps) \<and>
     chunk_end env w (unat mss) (page_text env w ts1) ts2 \<and>
     web_build_dyn env mss WEB_DYN_PAGE_REPEAT w = Some w"

lemma seg_upd_vars [simp]:
  "Vxy (seg_upd env w ps ts) = Vxy w" "app (seg_upd env w ps ts) = app w"
  "g_totalpage (seg_upd env w ps ts) = g_totalpage w" "upload_file_length (seg_upd env w ps ts) = upload_file_length w"
  "reboot_pending (seg_upd env w ps ts) = reboot_pending w"
  by (simp_all add: seg_upd_def)

lemma web_get_var_seg: "web_get_var env (seg_upd env' w ps ts) d src = web_get_var env w d src"
  unfolding web_get_var_def type_b_functions_def type_d_functions_def seg_upd_vars ..

lemma build_loop_cong:
  assumes "\<And>d src. web_get_var env w' d src = web_get_var env w d src"
  shows "build_loop env w' mss l src d out = build_loop env w mss l src d out"
proof (induction src arbitrary: l d out rule: length_induct)
  case (1 src)
  let ?m = "min (unat l) (mss - length out)"
  note s = build_loop.simps[of env w' mss l src d out] build_loop.simps[of env w mss l src d out]
  show ?case
  proof (cases "l = 0 \<or> web_copy ?m src = None")
    case True
    then show ?thesis unfolding s by (auto simp: Let_def)
  next
    case False
    then obtain left bs where c: "l \<noteq> 0" "web_copy ?m src = Some (left, bs)" by auto
    define src1 where "src1 = drop (?m - left) src"
    show ?thesis
    proof (cases "left = 0 \<or> web_get_var env w d src1 = None")
      case True
      then show ?thesis unfolding s Let_def c(2) using c(1) by (auto simp: assms src1_def)
    next
      case False
      then obtain esc n d1 where v: "left \<noteq> 0" "web_get_var env w d src1 = Some (esc, n, d1)" by auto
      have "2 \<le> length src1" "2 \<le> unat esc" using web_get_var_src[OF v(2)] by simp_all
      then have "length (drop (unat esc) src1) < length src" by (auto simp: src1_def)
      then have ih: "build_loop env w' mss l' (drop (unat esc) src1) d' out' = build_loop env w mss l' (drop (unat esc) src1) d' out'"
        for l' d' out' using "1.IH" by blast
      show ?thesis unfolding s Let_def c(2) using c(1) v(1)
        by (simp only: option.case prod.case src1_def[symmetric] assms v(2) ih if_False if_True)
    qed
  qed
qed

lemma build_loop_seg: "build_loop env (seg_upd env' w ps ts) mss l src d out = build_loop env w mss l src d out"
  by (rule build_loop_cong) (rule web_get_var_seg)

lemma build_repeat:
  assumes "web_build_dyn env mss st w = Some (seg_upd env w ps ts)"
  shows "web_build_dyn env mss WEB_DYN_PAGE_REPEAT (seg_upd env w ps ts) = Some (seg_upd env w ps ts)"
proof -
  let ?r = "case st of WEB_DYN_PAGE_CREATE \<Rightarrow> 0 | WEB_DYN_PAGE_CONTINUE \<Rightarrow> dataptr_rom w + unat (count_rom w)
    | WEB_DYN_PAGE_REPEAT \<Rightarrow> dataptr_rom w"
  obtain out src where b: "build_loop env w (unat mss) (word_of_int (f_len (hfile w) - int ?r))
        (drop ?r (f_dat (hfile w))) (var_junk env) [] = Some (out, src)"
      and e: "w\<lparr>dataptr := out, hcount := of_nat (length out),
        count_rom := of_nat (length (drop ?r (f_dat (hfile w))) - length src), dataptr_rom := ?r\<rparr> = seg_upd env w ps ts"
    using assms by (auto simp: web_build_dyn_def Let_def split: option.split_asm prod.split_asm)
  have r: "?r = length (page_src ps)" using arg_cong[OF e, of dataptr_rom] by simp
  have "web_build_dyn env mss WEB_DYN_PAGE_REPEAT (seg_upd env w ps ts) =
      Some ((seg_upd env w ps ts)\<lparr>dataptr := out, hcount := of_nat (length out),
        count_rom := of_nat (length (drop ?r (f_dat (hfile w))) - length src), dataptr_rom := ?r\<rparr>)"
    using b unfolding r by (simp add: web_build_dyn_def Let_def build_loop_seg)
  also have "\<dots> = Some (seg_upd env w ps ts)"
    unfolding e[symmetric] by simp
  finally show ?thesis .
qed

lemma seg_upd_transit:
  assumes "page_file env mss (ps @ ts1 @ ts2) w" and "hstate w = HTTP_END" and "reboot_pending w = 0"
    and "chunk_end env w (unat mss) (page_text env w ts1) ts2"
    and "web_build_dyn env mss st w = Some (seg_upd env w ps ts1)"
  shows "in_transit env mss ps ts1 ts2 (seg_upd env w ps ts1)"
proof -
  have v: "var_table env (seg_upd env w ps ts1) = var_table env w" by simp
  show ?thesis
    using assms(1-4) build_repeat[OF assms(5)]
    by (simp add: in_transit_def chunk_end_def toks_cong[OF v] page_file_cong[OF v])
qed

lemma transit_len:
  assumes "in_transit env mss ps ts1 ts2 w"
  shows "unat (hcount w) = length (page_text env w ts1)" "take (unat (hcount w)) (dataptr w) = page_text env w ts1"
    "unat (count_rom w) = length (page_src ts1)" "length (page_text env w ts1) \<le> unat mss"
proof -
  have l: "length (page_text env w ts1) \<le> unat mss" using assms by (simp add: in_transit_def chunk_end_def)
  have "unat mss < 2 ^ LENGTH(16)" by (rule unsigned_less)
  then show u: "unat (hcount w) = length (page_text env w ts1)"
    using assms l by (simp add: in_transit_def unat_u16)
  then show "take (unat (hcount w)) (dataptr w) = page_text env w ts1" using assms by (simp add: in_transit_def)
  have "length (page_src ts1) < 65536" using assms by (simp add: in_transit_def page_file_def)
  then show "unat (count_rom w) = length (page_src ts1)" using assms by (simp add: in_transit_def unat_u16)
  show "length (page_text env w ts1) \<le> unat mss" by (rule l)
qed

lemma rexmit_same:
  assumes "in_transit env mss ps ts1 ts2 w"
  shows "httpd_appcall env (rexmit_event mss) w = Some ([Uip_send (page_text env w ts1)], w)"
  using assms transit_len(2)[OF assms]
  by (simp add: httpd_appcall_def rexmit_event_def no_event_def on_newdata_def send_segment_def in_transit_def page_file_def)

text \<open>An acknowledgement brings the next segment, or the close when nothing is left to send.\<close>

lemma ack_next:
  assumes "in_transit env mss ps ts1 ts2 w"
  shows "\<exists>us1 us2 w1. ts2 = us1 @ us2 \<and> in_transit env mss (ps @ ts1) us1 us2 w1 \<and>
    var_table env w1 = var_table env w \<and>
    httpd_appcall env (ack_event mss (hcount w)) w =
      Some ((if page_text env w us1 = [] then [Uip_close] else []) @ [Uip_send (page_text env w us1)], w1)"
proof -
  let ?w = "w\<lparr>hcount := 0, dataptr := drop (unat (hcount w)) (dataptr w)\<rparr>"
  have t: "page_file env mss ((ps @ ts1) @ ts2) w" "hstate w = HTTP_END" "dataptr_rom w = length (page_src ps)"
      "reboot_pending w = 0" "is_dynamic (f_type (hfile w))"
    using assms by (simp_all add: in_transit_def page_file_def)
  have v: "var_table env ?w = var_table env w" by (simp add: var_table_def)
  have pf: "page_file env mss ((ps @ ts1) @ ts2) ?w" using t(1) page_file_cong[OF v] by simp
  have rom: "(case WEB_DYN_PAGE_CONTINUE of WEB_DYN_PAGE_CREATE \<Rightarrow> 0
      | WEB_DYN_PAGE_CONTINUE \<Rightarrow> dataptr_rom ?w + unat (count_rom ?w) | WEB_DYN_PAGE_REPEAT \<Rightarrow> dataptr_rom ?w) =
      length (page_src (ps @ ts1))"
    using t(3) transit_len(3)[OF assms] by simp
  obtain us1 us2 where u: "ts2 = us1 @ us2"
      "web_build_dyn env mss WEB_DYN_PAGE_CONTINUE ?w = Some (seg_upd env ?w (ps @ ts1) us1)"
      "chunk_end env ?w (unat mss) (page_text env ?w us1) us2"
    using build_from[OF pf rom] by blast
  define v where "v = seg_upd env ?w (ps @ ts1) us1"
  have it: "in_transit env mss (ps @ ts1) us1 us2 v" unfolding v_def
    by (rule seg_upd_transit[OF _ _ _ u(3,2)]) (use pf t(2,4) u(1) in simp_all)
  have vt: "var_table env v = var_table env w" using v by (simp add: v_def)
  have pt: "page_text env v us1 = page_text env w us1" by (rule fun_cong[OF toks_cong(2)[OF vt]])
  have l: "unat (hcount v) = length (page_text env w us1)" using transit_len(1)[OF it] pt by simp
  then have c: "hcount v = 0 \<longleftrightarrow> page_text env w us1 = []" by (metis length_0_conv unat_eq_zero)
  have d: "take (unat (hcount v)) (dataptr v) = page_text env w us1" using transit_len(2)[OF it] pt by simp
  have rp: "web_send_complete v = v" using t(4) by (simp add: web_send_complete_def v_def)
  have oa: "on_acked env (ack_event mss (hcount w)) w = Some (if hcount v = 0 then ([Uip_close], v) else ([], v))"
    using t(5) u(2) rp by (simp add: on_acked_def ack_event_def no_event_def Let_def v_def[symmetric])
  have "httpd_appcall env (ack_event mss (hcount w)) w =
      Some ((if page_text env w us1 = [] then [Uip_close] else []) @ [Uip_send (page_text env w us1)], v)"
    using t(2) c d oa by (simp add: httpd_appcall_def on_newdata_def send_segment_def ack_event_def no_event_def)
  with u(1) it vt show ?thesis by blast
qed

lemma transit_progress:
  assumes "in_transit env mss ps ts1 ts2 w" and "0 < mss" and "page_text env w ts1 = []"
  shows "ts2 = []"
proof (rule ccontr)
  assume n: "ts2 \<noteq> []"
  have c: "chunk_end env w (unat mss) [] ts2" and p: "page_file env mss (ps @ ts1 @ ts2) w"
    using assms(1,3) by (simp_all add: in_transit_def)
  obtain t us where t: "ts2 = t # us" using n by (cases ts2) auto
  have "tok_ok env w (unat mss) t" using p t by (simp add: page_file_def)
  moreover have "0 < unat mss" using assms(2) by (simp add: word_less_nat_alt)
  ultimately have "length (tok_text env w t) \<le> unat mss" by (cases t) (auto split: option.splits)
  with c t assms(2) show False by (simp add: chunk_end_def word_less_nat_alt)
qed

lemma served_rest:
  assumes "in_transit env mss ps ts1 ts2 w" and "0 < mss" and "length ts2 < k"
  shows "\<exists>xs w1. served env mss w xs \<and> transfer env mss k w = Some (map fst xs, w1) \<and>
    concat (map fst xs) = page_text env w ts2 \<and> (\<forall>s \<in> set (map fst xs). s \<noteq> [] \<and> length s \<le> unat mss)"
  using assms
proof (induction k arbitrary: ps ts1 ts2 w)
  case (Suc k)
  obtain us1 us2 w1 where a: "ts2 = us1 @ us2" "in_transit env mss (ps @ ts1) us1 us2 w1"
      "var_table env w1 = var_table env w"
      "httpd_appcall env (ack_event mss (hcount w)) w =
        Some ((if page_text env w us1 = [] then [Uip_close] else []) @ [Uip_send (page_text env w us1)], w1)"
    using ack_next[OF Suc.prems(1)] by blast
  have pt: "page_text env w1 = page_text env w" by (rule toks_cong(2)[OF a(3)])
  show ?case
  proof (cases "page_text env w us1 = []")
    case True
    then have "us2 = []" using transit_progress[OF a(2) Suc.prems(2)] pt by simp
    then show ?thesis using a(1,4) True by (intro exI[of _ "[]"]) simp
  next
    case False
    then have "us1 \<noteq> []" by auto
    then have "length us2 < k" using a(1) Suc.prems(3) by (cases us1) auto
    then obtain xs w2 where ih: "served env mss w1 xs" "transfer env mss k w1 = Some (map fst xs, w2)"
        "concat (map fst xs) = page_text env w us2" "\<forall>s \<in> set (map fst xs). s \<noteq> [] \<and> length s \<le> unat mss"
      using Suc.IH[OF a(2) Suc.prems(2)] pt by auto
    have "length (page_text env w us1) \<le> unat mss" using transit_len(4)[OF a(2)] pt by simp
    moreover have "httpd_appcall env (rexmit_event mss) w1 = Some ([Uip_send (page_text env w us1)], w1)"
      using rexmit_same[OF a(2)] pt by simp
    ultimately show ?thesis using a(1,4) ih False
      by (intro exI[of _ "(page_text env w us1, w1) # xs"]) simp
  qed
qed simp

lemma transfer_rest:
  assumes "in_transit env mss ps ts1 ts2 w" and "0 < mss" and "length ts2 < k"
  shows "\<exists>segs w1. transfer env mss k w = Some (segs, w1) \<and> concat segs = page_text env w ts2 \<and>
    (\<forall>s \<in> set segs. s \<noteq> [] \<and> length s \<le> unat mss)"
  using served_rest[OF assms] by metis

end
