(* ===== verification/Http_Request.thy ===== *)
theory Http_Request
  imports Http Web_Page
begin

text \<open>
  Requests as browsers send them, and what the parser makes of one that posts a form: the address, the
  length of the body and the body itself end up in the fields of the connection.
\<close>

section \<open>Requests\<close>

text \<open>
  \<open>like wild pat xs\<close>: somewhere in \<open>xs\<close> stands the text \<open>pat\<close>, in any case, with any character where the
  parser takes any.
\<close>

definition same_char :: "(u8 \<Rightarrow> bool) \<Rightarrow> u8 \<Rightarrow> u8 \<Rightarrow> bool" where
  "same_char wild p c \<longleftrightarrow> conv_to_upper_case c = conv_to_upper_case p \<or> wild (conv_to_upper_case p)"

definition like :: "(u8 \<Rightarrow> bool) \<Rightarrow> u8 list \<Rightarrow> u8 list \<Rightarrow> bool" where
  "like wild pat xs \<longleftrightarrow> (\<exists>a s b. xs = a @ s @ b \<and> list_all2 (same_char wild) pat s)"

definition no_wild :: "u8 \<Rightarrow> bool" where "no_wild c = False"
definition type_wild :: "u8 \<Rightarrow> bool" where "type_wild c \<longleftrightarrow> c = 0x3b \<or> c = 0x20"

text \<open>A header line that says nothing to the parser.\<close>

definition other_line :: "u8 list \<Rightarrow> bool" where
  "other_line l \<longleftrightarrow> l \<noteq> [] \<and> ISO_cr \<notin> set l \<and> ISO_nl \<notin> set l \<and>
     \<not> like no_wild content_length_text l \<and> \<not> like type_wild content_type_upload_text l"

definition crlf :: "u8 list" where "crlf = [ISO_cr, ISO_nl]"

definition header_lines :: "u8 list list \<Rightarrow> u8 list" where
  "header_lines ls = concat (map (\<lambda>l. l @ crlf) ls)"

definition length_line :: "nat \<Rightarrow> u8 list" where
  "length_line n = content_length_text @ dec_nat n"

definition post_request :: "u8 list \<Rightarrow> u8 list \<Rightarrow> u8 list list \<Rightarrow> u8 list list \<Rightarrow> u8 list \<Rightarrow> u8 list" where
  "post_request path version ls1 ls2 body =
     bytes ''POST '' @ path @ [ISO_space] @ version @ crlf @
     header_lines ls1 @ length_line (length body) @ crlf @ header_lines ls2 @ crlf @ body"

section \<open>The address and the version\<close>

lemma uri_bytes:
  assumes "hstate w = HTTP_URI" and "\<not> expect_iso_nl w" and "ISO_space \<notin> set u" and "ISO_cr \<notin> set u"
    and "unat (uri_len w) + length u \<le> 80" and "length (uri w) = 84"
  shows "http_bytes spi (u @ [ISO_space]) (j, w) =
    Some (j, w\<lparr>hstate := HTTP_VERSION, uri := buf_put (unat (uri_len w)) u (uri w),
               uri_len := uri_len w + of_nat (length u), prev_ch := ISO_space\<rparr>)"
  using assms
proof (induction u arbitrary: w)
  case Nil
  have "w\<lparr>hstate := HTTP_VERSION, uri := uri w, uri_len := uri_len w, prev_ch := ISO_space\<rparr> =
      w\<lparr>hstate := HTTP_VERSION, prev_ch := ISO_space\<rparr>" by (cases w) simp
  then show ?case using Nil by (simp add: http_char_def http_uri_step_def)
next
  case (Cons c u)
  let ?w = "w\<lparr>uri := (uri w)[unat (uri_len w) := c], uri_len := uri_len w + 1, prev_ch := c\<rparr>"
  have l: "unat (uri_len w + 1) = unat (uri_len w) + 1" using Cons.prems(5) by (intro unat_Suc_u8) simp
  have s: "http_char spi c (j, w) = Some (j, ?w)"
    using Cons.prems by (simp add: http_char_def http_uri_step_def MAX_URI_LEN_def)
  have "http_bytes spi (u @ [ISO_space]) (j, ?w) =
    Some (j, ?w\<lparr>hstate := HTTP_VERSION, uri := buf_put (unat (uri_len ?w)) u (uri ?w),
               uri_len := uri_len ?w + of_nat (length u), prev_ch := ISO_space\<rparr>)"
    by (rule Cons.IH) (use Cons.prems l in simp_all)
  then show ?case using s l by (simp add: add.assoc)
qed

lemma version_bytes:
  assumes "hstate w = HTTP_VERSION" and "\<not> expect_iso_nl w" and "ISO_nl \<notin> set v"
  shows "http_bytes spi (v @ crlf) (j, w) = Some (j, w\<lparr>hstate := HTTP_HEADER, prev_ch := ISO_nl\<rparr>)"
  using assms
proof (induction v arbitrary: w)
  case Nil
  then show ?case by (simp add: crlf_def http_char_def)
next
  case (Cons c v)
  have "http_char spi c (j, w) = Some (j, w\<lparr>prev_ch := c\<rparr>)"
    using Cons.prems by (simp add: http_char_def)
  then show ?case using Cons.IH[of "w\<lparr>prev_ch := c\<rparr>"] Cons.prems by simp
qed

section \<open>Matching in header lines\<close>

definition match_next :: "(u8 \<Rightarrow> bool) \<Rightarrow> u8 list \<Rightarrow> nat \<Rightarrow> u8 \<Rightarrow> nat" where
  "match_next wild pat m c = (if same_char wild (pat ! m) c then Suc m else 0)"

definition matched :: "(u8 \<Rightarrow> bool) \<Rightarrow> u8 list \<Rightarrow> nat \<Rightarrow> u8 list \<Rightarrow> bool" where
  "matched wild pat m xs \<longleftrightarrow> m \<le> length pat \<and> (\<exists>a s. xs = a @ s \<and> list_all2 (same_char wild) (take m pat) s)"

lemma matched_Nil [simp]: "matched wild pat 0 xs"
  by (auto simp: matched_def)

lemma matched_next:
  assumes "matched wild pat m xs" and "m < length pat"
  shows "matched wild pat (match_next wild pat m c) (xs @ [c])"
proof (cases "same_char wild (pat ! m) c")
  case True
  obtain a s where "xs = a @ s" "list_all2 (same_char wild) (take m pat) s"
    using assms(1) by (auto simp: matched_def)
  then have "xs @ [c] = a @ (s @ [c])" "list_all2 (same_char wild) (take (Suc m) pat) (s @ [c])"
    using True assms(2) by (auto simp: take_Suc_conv_app_nth list_all2_appendI)
  then show ?thesis using assms(2) True by (auto simp: matched_def match_next_def)
qed (simp add: match_next_def)

lemma matched_full:
  assumes "matched wild pat m xs" and "\<not> like wild pat (xs @ ys)"
  shows "m < length pat"
proof (rule ccontr)
  assume "\<not> m < length pat"
  then obtain a s where "xs = a @ s" "list_all2 (same_char wild) pat s"
    using assms(1) by (auto simp: matched_def)
  then have "xs @ ys = a @ s @ ys" "list_all2 (same_char wild) pat s" by simp_all
  with assms(2) show False unfolding like_def by blast
qed

section \<open>Header lines of a POST request\<close>

lemma upper_unat:
  "unat (conv_to_upper_case c) = (if 0x61 \<le> unat c \<and> unat c \<le> 0x7a then unat c - 0x20 else unat c)"
  by (auto simp: conv_to_upper_case_def word_le_nat_alt unat_sub)

lemma upper_idem [simp]: "conv_to_upper_case (conv_to_upper_case c) = conv_to_upper_case c"
  by (auto simp: word_unat_eq_iff upper_unat)

lemma upper_nl: "conv_to_upper_case c = ISO_nl \<longleftrightarrow> c = ISO_nl"
  by (auto simp: word_unat_eq_iff upper_unat)

abbreviation next_length :: "nat \<Rightarrow> u8 \<Rightarrow> nat" where
  "next_length \<equiv> match_next no_wild content_length_text"

abbreviation next_type :: "nat \<Rightarrow> u8 \<Rightarrow> nat" where
  "next_type \<equiv> match_next type_wild content_type_upload_text"

definition matching :: "nat \<Rightarrow> nat \<Rightarrow> u8 \<Rightarrow> 'a httpd_scheme \<Rightarrow> 'a httpd_scheme" where
  "matching m t c w = w\<lparr>content_len_match := of_nat m, content_type_match := of_nat t, prev_ch := c\<rparr>"

text \<open>Inside of the header of a POST request without a boundary, at the begin of a line.\<close>

definition in_header :: "'a httpd_scheme \<Rightarrow> bool" where
  "in_header w \<longleftrightarrow> hstate w = HTTP_HEADER \<and> \<not> expect_iso_nl w \<and> hmethod w = ISO_P \<and> boundary_len w = 0 \<and>
     content_len_match w = 0 \<and> content_type_match w = 0 \<and> prev_ch w = ISO_nl"

lemma matching_sel [simp]:
  "hstate (matching m t c w) = hstate w" "expect_iso_nl (matching m t c w) = expect_iso_nl w"
  "hmethod (matching m t c w) = hmethod w" "boundary_len (matching m t c w) = boundary_len w"
  "content_len_match (matching m t c w) = of_nat m" "content_type_match (matching m t c w) = of_nat t"
  "prev_ch (matching m t c w) = c" "body_len (matching m t c w) = body_len w"
  by (simp_all add: matching_def)

lemma header_char:
  assumes "in_header w" and "c \<noteq> ISO_cr" and "m < 16" and "t < 44" and "next_type t c < 44"
  shows "http_char spi c (j, matching m t p w) =
    Some (j, matching (next_length m c) (next_type t c) (conv_to_upper_case c) w)"
proof -
  have u: "unat (of_nat m :: u8) = m" "unat (of_nat t :: u8) = t" "unat (of_nat t + 1 :: u8) = Suc t"
    using assms(3,4) by (simp_all add: unat_of_nat unat_Suc_u8)
  let ?w = "matching m t p w"
  let ?c = "conv_to_upper_case c"
  have n: "(content_length_text @ [0]) ! m = content_length_text ! m"
      "(content_type_upload_text @ [0]) ! t = content_type_upload_text ! t"
    using assms(3,4) by (simp_all add: nth_append)
  have l: "match_length ?c ?w = Some (?w\<lparr>content_len_match := of_nat (next_length m c)\<rparr>)"
    using assms(3) by (simp add: match_length_def u n match_next_def same_char_def no_wild_def)
  have t: "match_upload ?c (?w\<lparr>content_len_match := k\<rparr>) =
      Some (?w\<lparr>content_len_match := k, content_type_match := of_nat (next_type t c)\<rparr>)" for k
  proof -
    have g: "arr_get (unat (content_type_match (?w\<lparr>content_len_match := k\<rparr>))) (content_type_upload_text @ [0]) =
        Some (content_type_upload_text ! t)"
      using assms(4) n(2) by (simp add: u)
    show ?thesis
    proof (cases "same_char type_wild (content_type_upload_text ! t) c")
      case True
      then have "Suc t < 44" using assms(5) by (simp add: match_next_def)
      then show ?thesis using True unfolding match_upload_def g
        by (simp add: u match_next_def same_char_def type_wild_def Let_def)
    next
      case False
      then show ?thesis unfolding match_upload_def g
        by (simp add: match_next_def same_char_def type_wild_def Let_def)
    qed
  qed
  show ?thesis
    using assms(1,2) assms(3,4) l t
    by (simp add: http_char_def http_header_step_def in_header_def u Let_def) (simp add: matching_def)
qed

lemma matched_len: "matched wild pat m xs \<Longrightarrow> m \<le> length pat"
  by (simp add: matched_def)

lemma header_bytes:
  assumes "in_header w" and "ISO_cr \<notin> set ys" and "ISO_nl \<notin> set ys"
    and "matched no_wild content_length_text m xs" and "matched type_wild content_type_upload_text t xs"
    and "\<not> like no_wild content_length_text (xs @ ys)" and "\<not> like type_wild content_type_upload_text (xs @ ys)"
  shows "\<exists>m1 t1 p1. http_bytes spi ys (j, matching m t p w) = Some (j, matching m1 t1 p1 w) \<and>
    m1 < 16 \<and> t1 < 44 \<and> (ys = [] \<and> p1 = p \<or> p1 \<noteq> ISO_nl)"
  using assms(2-)
proof (induction ys arbitrary: xs m t p)
  case Nil
  then show ?case using matched_full[of no_wild content_length_text m xs "[]"]
      matched_full[of type_wild content_type_upload_text t xs "[]"]
    by (intro exI[of _ m] exI[of _ t] exI[of _ p]) simp
next
  case (Cons c ys)
  have m: "m < 16" "t < 44"
    using matched_full[OF Cons.prems(3,5)] matched_full[OF Cons.prems(4,6)] by simp_all
  have mm: "matched no_wild content_length_text (next_length m c) (xs @ [c])"
      "matched type_wild content_type_upload_text (next_type t c) (xs @ [c])"
    using matched_next[OF Cons.prems(3)] matched_next[OF Cons.prems(4)] m by simp_all
  have nl: "\<not> like no_wild content_length_text ((xs @ [c]) @ ys)" "\<not> like type_wild content_type_upload_text ((xs @ [c]) @ ys)"
    using Cons.prems(5,6) by simp_all
  have "next_type t c < 44" using matched_full[OF mm(2) nl(2)] by simp
  then have s: "http_char spi c (j, matching m t p w) =
      Some (j, matching (next_length m c) (next_type t c) (conv_to_upper_case c) w)"
    using header_char[OF assms(1) _ m] Cons.prems(1) by simp
  have c: "conv_to_upper_case c \<noteq> ISO_nl" using Cons.prems(2) by (simp add: upper_nl)
  have ys: "ISO_cr \<notin> set ys" "ISO_nl \<notin> set ys" using Cons.prems(1,2) by simp_all
  obtain m1 t1 p1 where "http_bytes spi ys (j, matching (next_length m c) (next_type t c) (conv_to_upper_case c) w) =
      Some (j, matching m1 t1 p1 w)" "m1 < 16" "t1 < 44" "ys = [] \<and> p1 = conv_to_upper_case c \<or> p1 \<noteq> ISO_nl"
    using Cons.IH[OF ys mm nl, of "conv_to_upper_case c"] by blast
  then show ?case using s c by auto
qed

lemma line_end:
  assumes "in_header w" and "p \<noteq> ISO_nl"
  shows "http_bytes spi crlf (j, matching m t p w) = Some (j, w)"
proof -
  have "w\<lparr>content_len_match := 0, content_type_match := 0, prev_ch := ISO_nl, expect_iso_nl := False\<rparr> = w"
    using assms(1) by (cases w) (simp add: in_header_def)
  then show ?thesis
    using assms by (simp add: crlf_def http_char_def http_header_step_def in_header_def close_boundary_def)
      (simp add: matching_def)
qed

lemma matching_start: "in_header w \<Longrightarrow> matching 0 0 ISO_nl w = w"
  by (cases w) (simp add: in_header_def matching_def)

lemma other_line_bytes:
  assumes "in_header w" and "other_line l"
  shows "http_bytes spi (l @ crlf) (j, w) = Some (j, w)"
proof -
  obtain m t p where "http_bytes spi l (j, matching 0 0 ISO_nl w) = Some (j, matching m t p w)" "p \<noteq> ISO_nl"
    using header_bytes[OF assms(1), of l 0 "[]" 0 spi j ISO_nl] assms(2) by (auto simp: other_line_def)
  then show ?thesis using line_end[OF assms(1)] by (simp add: http_bytes_append matching_start[OF assms(1)])
qed

lemma header_lines_bytes:
  assumes "in_header w" and "list_all other_line ls"
  shows "http_bytes spi (header_lines ls) (j, w) = Some (j, w)"
  using assms(2)
proof (induction ls)
  case (Cons l ls)
  have "header_lines (l # ls) = (l @ crlf) @ header_lines ls" by (simp add: header_lines_def)
  then show ?case using other_line_bytes[OF assms(1), of l spi j] Cons
    by (simp only: http_bytes_append[of spi "l @ crlf"] list.pred_inject option.case simp_thms)
qed (simp add: header_lines_def)

section \<open>The length of the body\<close>

lemma next_type_le: "next_type t c \<le> Suc t"
  by (simp add: match_next_def)

lemma length_text_bytes:
  assumes "in_header w" and "k \<le> 16"
  shows "\<exists>t p. http_bytes spi (take k content_length_text) (j, w) = Some (j, matching k t p w) \<and> t \<le> k \<and>
    (k = 0 \<or> p \<noteq> ISO_nl)"
  using assms(2)
proof (induction k)
  case 0
  then show ?case using matching_start[OF assms(1)] by (metis http_bytes.simps(1) order_refl take_0)
next
  case (Suc k)
  obtain t p where h: "http_bytes spi (take k content_length_text) (j, w) = Some (j, matching k t p w)" "t \<le> k"
    using Suc by auto
  let ?c = "content_length_text ! k"
  have c: "?c \<notin> {ISO_cr, ISO_nl}"
  proof -
    have "?c \<in> set content_length_text" using Suc.prems by simp
    moreover have "list_all (\<lambda>c. c \<notin> {ISO_cr, ISO_nl}) content_length_text" by code_simp
    ultimately show ?thesis by (simp add: list_all_iff)
  qed
  have "next_type t ?c < 44" using next_type_le[of t ?c] h(2) Suc.prems by simp
  moreover have "next_length k ?c = Suc k" by (simp add: match_next_def same_char_def)
  ultimately have "http_char spi ?c (j, matching k t p w) =
      Some (j, matching (Suc k) (next_type t ?c) (conv_to_upper_case ?c) w)"
    using header_char[OF assms(1), of ?c k t spi j p] c Suc.prems h(2) by simp
  moreover have "take (Suc k) content_length_text = take k content_length_text @ [?c]"
    using Suc.prems by (simp add: take_Suc_conv_app_nth)
  moreover have "next_type t ?c \<le> Suc k" using next_type_le[of t ?c] h(2) by simp
  ultimately show ?case using h(1) c
    by (intro exI[of _ "next_type t ?c"] exI[of _ "conv_to_upper_case ?c"]) (simp add: http_bytes_append upper_nl)
qed

lemma digit_char:
  assumes "d < 10"
  shows "0x30 \<le> (of_nat d + 0x30 :: u8)" "(of_nat d + 0x30 :: u8) \<le> 0x39"
    "ucast ((of_nat d + 0x30 :: u8) - 0x30) = (of_nat d :: u32)" "(of_nat d + 0x30 :: u8) \<noteq> ISO_cr"
    "(of_nat d + 0x30 :: u8) \<noteq> ISO_nl"
proof -
  have u: "unat (of_nat d + 0x30 :: u8) = d + 48" using assms by (simp add: unat_word_ariths unat_of_nat)
  then show "0x30 \<le> (of_nat d + 0x30 :: u8)" "(of_nat d + 0x30 :: u8) \<le> 0x39" "(of_nat d + 0x30 :: u8) \<noteq> ISO_cr"
    "(of_nat d + 0x30 :: u8) \<noteq> ISO_nl"
    using assms by (simp_all add: word_le_nat_alt word_unat_eq_iff)
  show "ucast ((of_nat d + 0x30 :: u8) - 0x30) = (of_nat d :: u32)"
    using assms by (simp add: word_unat_eq_iff unsigned_ucast_eq take_bit_eq_mod unat_of_nat)
qed

lemma length_digit:
  assumes "in_header w" and "body_len w = of_nat n" and "10 * n + d \<le> 1000" and "d < 10"
  shows "http_char spi (of_nat d + 0x30) (j, matching 16 t p w) =
    Some (j, matching 16 t (of_nat d + 0x30) (w\<lparr>body_len := of_nat (10 * n + d)\<rparr>))"
proof -
  define c where "c = (of_nat d + 0x30 :: u8)"
  define k where "k = 10 * n + d"
  have e: "of_nat n * 10 + ucast (c - 0x30) = (of_nat k :: u32)"
    unfolding c_def k_def digit_char(3)[OF assms(4)] by (simp add: mult.commute)
  have c: "0x30 \<le> c" "c \<le> 0x39" "c \<noteq> ISO_cr" unfolding c_def using digit_char[OF assms(4)] by blast+
  have l: "k \<le> 1000" using assms(3) by (simp add: k_def)
  then have u: "unat (of_nat k :: u32) = k" by (simp add: unat_of_nat)
  have "http_char spi c (j, matching 16 t p w) = Some (j, matching 16 t c (w\<lparr>body_len := of_nat k\<rparr>))"
    using assms(1,2) c e u l
    by (simp add: http_char_def http_header_step_def in_header_def MAX_BODY_LEN_def Let_def)
      (simp add: matching_def)
  then show ?thesis by (simp only: c_def k_def)
qed

lemma length_digits:
  assumes "in_header w" and "body_len w = 0" and "n \<le> 1000"
  shows "\<exists>q. http_bytes spi (dec_nat n) (j, matching 16 t p w) =
    Some (j, matching 16 t q (w\<lparr>body_len := of_nat n\<rparr>)) \<and> q \<noteq> ISO_nl"
  using assms(3)
proof (induction n rule: dec_nat.induct)
  case (1 n)
  show ?case
  proof (cases "n < 10")
    case True
    then show ?thesis using length_digit[OF assms(1), of 0 n spi j t p] assms(2) digit_char(5)[OF True]
      by (intro exI[of _ "of_nat n + 0x30"]) (simp add: dec_nat.simps[of n])
  next
    case False
    obtain q where q: "http_bytes spi (dec_nat (n div 10)) (j, matching 16 t p w) =
        Some (j, matching 16 t q (w\<lparr>body_len := of_nat (n div 10)\<rparr>))"
      using "1.IH"[OF False] "1.prems" div_le_dividend[of n 10] by (meson le_trans)
    have h: "in_header (w\<lparr>body_len := of_nat (n div 10)\<rparr>)" using assms(1) by (simp add: in_header_def)
    have n: "10 * (n div 10) + n mod 10 = n" by simp
    have "http_char spi (of_nat (n mod 10) + 0x30) (j, matching 16 t q (w\<lparr>body_len := of_nat (n div 10)\<rparr>)) =
        Some (j, matching 16 t (of_nat (n mod 10) + 0x30) (w\<lparr>body_len := of_nat n\<rparr>))"
      using length_digit[OF h, of "n div 10" "n mod 10" spi j t q] "1.prems" unfolding n by simp
    then show ?thesis using q False digit_char(5)[of "n mod 10"]
      by (intro exI[of _ "of_nat (n mod 10) + 0x30"]) (simp add: dec_nat.simps[of n] http_bytes_append)
  qed
qed

lemma length_line_bytes:
  assumes "in_header w" and "body_len w = 0" and "n \<le> 1000"
  shows "http_bytes spi (length_line n @ crlf) (j, w) = Some (j, w\<lparr>body_len := of_nat n\<rparr>)"
proof -
  obtain t p where t: "http_bytes spi content_length_text (j, w) = Some (j, matching 16 t p w)"
    using length_text_bytes[OF assms(1), of 16 spi j] by auto
  obtain q where q: "http_bytes spi (dec_nat n) (j, matching 16 t p w) =
      Some (j, matching 16 t q (w\<lparr>body_len := of_nat n\<rparr>))" "q \<noteq> ISO_nl"
    using length_digits[OF assms] by blast
  have h: "in_header (w\<lparr>body_len := of_nat n\<rparr>)" using assms(1) by (simp add: in_header_def)
  show ?thesis using t q(1) line_end[OF h q(2), of spi j 16 t]
    by (simp add: length_line_def http_bytes_append)
qed

section \<open>The body\<close>

lemma body_bytes:
  assumes "hstate w = HTTP_BODY" and "\<not> expect_iso_nl w" and "ISO_cr \<notin> set ys" and "ys \<noteq> []"
    and "unat (body_len w) = unat (body_i w) + length ys" and "unat (body_len w) \<le> 1000"
    and "length (body_buf w) = 1004"
  shows "http_bytes spi ys (j, w) = Some (j, w\<lparr>hstate := HTTP_END,
    body_buf := buf_put (unat (body_i w)) (ys @ [0]) (body_buf w), body_i := body_i w + of_nat (length ys),
    prev_ch := last ys\<rparr>)"
  using assms
proof (induction ys arbitrary: w)
  case (Cons c ys)
  let ?w = "w\<lparr>body_buf := (body_buf w)[unat (body_i w) := c], body_i := body_i w + 1, prev_ch := c\<rparr>"
  have l: "unat (body_i w + 1) = unat (body_i w) + 1" using Cons.prems(5,6) by (intro unat_Suc_u16) simp
  show ?case
  proof (cases "ys = []")
    case True
    then show ?thesis using Cons.prems l by (simp add: http_char_def http_body_step_def)
  next
    case False
    then have "0 < length ys" by simp
    then have s: "http_char spi c (j, w) = Some (j, ?w)"
      using Cons.prems l by (simp add: http_char_def http_body_step_def)
    have "http_bytes spi ys (j, ?w) = Some (j, ?w\<lparr>hstate := HTTP_END,
        body_buf := buf_put (unat (body_i ?w)) (ys @ [0]) (body_buf ?w), body_i := body_i ?w + of_nat (length ys),
        prev_ch := last ys\<rparr>)"
      by (rule Cons.IH) (use Cons.prems l False in simp_all)
    then show ?thesis using s l False by (simp add: add.assoc)
  qed
qed simp

lemma http_bytes_seq: "http_bytes spi xs s = Some s1 \<Longrightarrow> http_bytes spi (xs @ ys) s = http_bytes spi ys s1"
  by (simp add: http_bytes_append)

section \<open>The request\<close>

text \<open>A request a browser can send: the address fits, the body has no line end.\<close>

definition request_ok :: "u8 list \<Rightarrow> u8 list \<Rightarrow> u8 list list \<Rightarrow> u8 list list \<Rightarrow> u8 list \<Rightarrow> bool" where
  "request_ok path version ls1 ls2 body \<longleftrightarrow>
     length path \<le> MAX_URI_LEN \<and> ISO_space \<notin> set path \<and> ISO_cr \<notin> set path \<and> ISO_nl \<notin> set version \<and>
     list_all other_line ls1 \<and> list_all other_line ls2 \<and>
     body \<noteq> [] \<and> length body \<le> MAX_BODY_LEN \<and> ISO_cr \<notin> set body"

text \<open>A connection that waits for a request (\<open>http_process_init\<close>).\<close>

definition fresh :: "'a httpd_scheme \<Rightarrow> bool" where
  "fresh w \<longleftrightarrow> http_inv w \<and> hstate w = HTTP_METHOD \<and> \<not> expect_iso_nl w \<and> boundary_len w = 0 \<and>
     body_len w = 0 \<and> body_i w = 0 \<and> uri_len w = 0 \<and> content_len_match w = 0 \<and> content_type_match w = 0 \<and>
     \<not> herror w"

definition parsed :: "u8 list \<Rightarrow> u8 list \<Rightarrow> 'a httpd_scheme \<Rightarrow> 'a httpd_scheme" where
  "parsed path body w =
     w\<lparr>hstate := HTTP_END, hmethod := ISO_P, uri := buf_put 0 path (uri w), uri_len := of_nat (length path),
       body_len := of_nat (length body), body_i := of_nat (length body),
       body_buf := buf_put 0 (body @ [0]) (body_buf w), prev_ch := last body\<rparr>"

lemma header_end:
  assumes "in_header w"
  shows "http_bytes spi crlf (j, w) = Some (j, w\<lparr>hstate := HTTP_BODY\<rparr>)"
proof -
  have "w\<lparr>hstate := HTTP_BODY, expect_iso_nl := False, prev_ch := ISO_nl\<rparr> = w\<lparr>hstate := HTTP_BODY\<rparr>"
    using assms by (cases w) (simp add: in_header_def)
  then show ?thesis using assms by (simp add: crlf_def http_char_def http_header_step_def in_header_def)
qed

lemma request_parsed:
  assumes "fresh w" and "request_ok path version ls1 ls2 body"
    and ev: "uip_appdata ev = post_request path version ls1 ls2 body @ junk"
      "unat (uip_len ev) = length (post_request path version ls1 ls2 body)"
  shows "http_process env ev w = Some (parsed path body w)"
proof -
  let ?spi = "spi_found env" and ?j = "j_junk env"
  let ?rest = "(path @ [ISO_space]) @ (version @ crlf) @ header_lines ls1 @ (length_line (length body) @ crlf) @
    header_lines ls2 @ crlf @ body"
  have req: "post_request path version ls1 ls2 body = bytes ''POST '' @ ?rest" by (simp add: post_request_def)
  have w: "http_inv w" "hstate w = HTTP_METHOD" "\<not> expect_iso_nl w" "boundary_len w = 0" "body_len w = 0"
      "body_i w = 0" "uri_len w = 0" "content_len_match w = 0" "content_type_match w = 0"
    using assms(1) by (simp_all add: fresh_def)
  have o: "length path \<le> 80" "ISO_space \<notin> set path" "ISO_cr \<notin> set path" "ISO_nl \<notin> set version"
      "list_all other_line ls1" "list_all other_line ls2" "body \<noteq> []" "length body \<le> 1000" "ISO_cr \<notin> set body"
    using assms(2) by (simp_all add: request_ok_def MAX_URI_LEN_def MAX_BODY_LEN_def)
  let ?w1 = "w\<lparr>hmethod := ISO_P, hstate := HTTP_URI, prev_ch := ISO_P\<rparr>"
  have ok: "segment_ok ev w" using ev w(3) by (simp add: segment_ok_def req method_len)
  have st: "http_start (uip_appdata ev) w = (5, ?w1)"
    using w(2) by (simp add: http_start_def ev(1) req method_texts)
  have dat: "drop 5 (take (unat (uip_len ev)) (uip_appdata ev)) = ?rest"
    by (simp add: ev req method_len)
  let ?w2 = "?w1\<lparr>hstate := HTTP_VERSION, uri := buf_put 0 path (uri w), uri_len := of_nat (length path), prev_ch := ISO_space\<rparr>"
  have s1: "http_bytes ?spi (path @ [ISO_space]) (?j, ?w1) = Some (?j, ?w2)"
    using uri_bytes[of ?w1 path ?spi ?j] w o by (simp add: http_inv_defs)
  let ?w3 = "?w2\<lparr>hstate := HTTP_HEADER, prev_ch := ISO_nl\<rparr>"
  have s2: "http_bytes ?spi (version @ crlf) (?j, ?w2) = Some (?j, ?w3)"
    using version_bytes[of ?w2 version ?spi ?j] w o by simp
  have h3: "in_header ?w3" "body_len ?w3 = 0" using w by (simp_all add: in_header_def)
  let ?w4 = "?w3\<lparr>body_len := of_nat (length body)\<rparr>"
  have s3: "http_bytes ?spi (header_lines ls1) (?j, ?w3) = Some (?j, ?w3)"
    by (rule header_lines_bytes[OF h3(1) o(5)])
  have s4: "http_bytes ?spi (length_line (length body) @ crlf) (?j, ?w3) = Some (?j, ?w4)"
    by (rule length_line_bytes[OF h3 o(8)])
  have h4: "in_header ?w4" using h3(1) by (simp add: in_header_def)
  have s5: "http_bytes ?spi (header_lines ls2) (?j, ?w4) = Some (?j, ?w4)"
    by (rule header_lines_bytes[OF h4 o(6)])
  have s6: "http_bytes ?spi crlf (?j, ?w4) = Some (?j, ?w4\<lparr>hstate := HTTP_BODY\<rparr>)"
    by (rule header_end[OF h4])
  have s7: "http_bytes ?spi body (?j, ?w4\<lparr>hstate := HTTP_BODY\<rparr>) = Some (?j, parsed path body w)"
    using body_bytes[of "?w4\<lparr>hstate := HTTP_BODY\<rparr>" body ?spi ?j] w o
    by (simp add: unat_of_nat http_inv_defs parsed_def)
  have "http_bytes ?spi ?rest (?j, ?w1) = Some (?j, parsed path body w)"
    by (simp only: http_bytes_seq[OF s1] http_bytes_seq[OF s2] http_bytes_seq[OF s3] http_bytes_seq[OF s4]
        http_bytes_seq[OF s5] http_bytes_seq[OF s6] s7)
  then show ?thesis using http_process_bytes[OF ok, of env] by (simp add: st dat del: append_assoc)
qed

end
