(* ===== verification/Web_Config.thy ===== *)
theory Web_Config
  imports Web_Serve Http_Request
begin

text \<open>
  The form of the DSL settings, from the browser to the configuration of the modem application:
  numbers survive printing and \<open>atoi\<close>, the handler finds every field of the form, and the request that
  posts the form ends with the new settings and the message that has them applied.
\<close>

section \<open>Numbers\<close>

lemma dec_nat_digits: "c \<in> set (dec_nat n) \<Longrightarrow> is_digit c \<and> c \<noteq> 0 \<and> \<not> is_space c \<and> c \<noteq> 0x2d \<and> c \<noteq> 0x2b"
proof (induction n rule: dec_nat.induct)
  case (1 n)
  have d: "is_digit c \<and> c \<noteq> 0 \<and> \<not> is_space c \<and> c \<noteq> 0x2d \<and> c \<noteq> 0x2b" if "c = of_nat k + 0x30" "k < 10" for k
  proof -
    have "unat c = k + 48" using that by (simp add: unat_word_ariths unat_of_nat)
    then show ?thesis using that(2) by (auto simp: is_digit_def is_space_def word_le_nat_alt word_unat_eq_iff)
  qed
  show ?case
  proof (cases "n < 10")
    case True
    then show ?thesis using 1(2) d by (simp add: dec_nat.simps[of n])
  next
    case False
    then show ?thesis using 1(2) 1(1)[OF False] d[of "n mod 10"] by (auto simp: dec_nat.simps[of n])
  qed
qed

lemma dec_nat_nonempty: "dec_nat n \<noteq> []"
  by (subst dec_nat.simps) simp

lemma digits_value_snoc: "digits_value (ds @ [d]) = digits_value ds * 10 + uint (d - 0x30)"
  by (simp add: digits_value_def)

lemma digits_value_dec: "digits_value (dec_nat n) = int n"
proof (induction n rule: dec_nat.induct)
  case (1 n)
  have u: "uint (of_nat k :: u8) = int k" if "k < 10" for k using that by (simp add: unsigned_of_nat take_bit_eq_mod)
  show ?case
  proof (cases "n < 10")
    case True
    then show ?thesis using u[of n] by (simp add: dec_nat.simps[of n] digits_value_def)
  next
    case False
    have "uint (of_nat (n mod 10) :: u8) = int (n mod 10)" by (rule u) simp
    then show ?thesis using False 1 by (simp add: dec_nat.simps[of n] digits_value_snoc zdiv_int zmod_int)
  qed
qed

lemma take_digits: "takeWhile is_digit (dec_nat n) = dec_nat n"
  using dec_nat_digits by (simp add: takeWhile_eq_all_conv)

lemma drop_spaces: "dropWhile is_space (dec_nat n) = dec_nat n"
  using dec_nat_digits[of "hd (dec_nat n)" n] dec_nat_nonempty[of n] by (cases "dec_nat n") auto

lemma first_digit: "deref_byte (dec_nat n) \<noteq> 0x2d" "deref_byte (dec_nat n) \<noteq> 0x2b"
  using dec_nat_digits[of "hd (dec_nat n)" n] dec_nat_nonempty[of n]
  by (cases "dec_nat n"; simp add: deref_byte_def)+

lemma parse_int_dec: "parse_int (dec i) = i"
  by (simp add: dec_def parse_int_def take_digits drop_spaces first_digit digits_value_dec is_space_def deref_byte_def Let_def)
    (simp add: first_digit[unfolded deref_byte_def] take_digits digits_value_dec)

lemma atoi_dec: "atoi (dec (sint v)) = v"
proof -
  have "- (2 ^ 31) \<le> sint v" "sint v < 2 ^ 31"
    using sint_greater_eq[of v] sint_less[of v] by simp_all
  then have "max (- (2 ^ 31)) (min (2 ^ 31 - 1) (sint v)) = sint v" by simp
  then show ?thesis by (simp add: atoi_def parse_int_dec)
qed

lemma length_dec_nat: "0 < k \<Longrightarrow> n < 10 ^ k \<Longrightarrow> length (dec_nat n) \<le> k"
proof (induction n arbitrary: k rule: dec_nat.induct)
  case (1 n)
  show ?case
  proof (cases "n < 10")
    case False
    then obtain k' where k: "k = Suc k'" "0 < k'" using "1.prems" by (cases k; cases "k - 1") auto
    then have "n div 10 < 10 ^ k'" using "1.prems"(2) by (simp add: less_mult_imp_div_less mult.commute)
    then show ?thesis using "1.IH"[OF False k(2)] False k(1) by (simp add: dec_nat.simps[of n])
  qed (use "1.prems" in \<open>simp add: dec_nat.simps[of n]\<close>)
qed

lemma length_dec_sint: "length (dec (sint (v :: u32))) \<le> 11"
proof -
  have "- (2 ^ 31) \<le> sint v" "sint v < 2 ^ 31"
    using sint_greater_eq[of v] sint_less[of v] by simp_all
  then have "nat (sint v) < 10 ^ 10" "nat (- sint v) < 10 ^ 10" by auto
  then show ?thesis using length_dec_nat[of 10 "nat (sint v)"] length_dec_nat[of 10 "nat (- sint v)"]
    by (simp add: dec_def)
qed

lemma dec_nonzero: "0 \<notin> set (dec i)"
  using dec_nat_digits by (auto simp: dec_def)

section \<open>Fields\<close>

definition suffix_free :: "(u8 list \<times> u8 list) list \<Rightarrow> bool" where
  "suffix_free fs \<longleftrightarrow> (\<forall>i < length fs. \<forall>j < i. \<not> suffix (fst (fs ! i)) (fst (fs ! j)))"

text \<open>The body of the last request is the form \<open>fs\<close>.\<close>

definition form_posted :: "(u8 list \<times> u8 list) list \<Rightarrow> 'h web \<Rightarrow> bool" where
  "form_posted fs w \<longleftrightarrow> list_all field_ok fs \<and> suffix_free fs \<and> length (enc_form fs) \<le> 1000 \<and>
     body_len w = of_nat (length (enc_form fs)) \<and> (\<exists>p. body_buf w = enc_form fs @ 0 # p) \<and> length (form_var w) = 40"

lemma c_str_append: "0 \<notin> set v \<Longrightarrow> c_str (v @ 0 # q) = v"
  by (auto simp: c_str_def takeWhile_append2 intro!: takeWhile_append2[THEN trans])

lemma find_form_var_field:
  assumes "form_posted fs w" and "(bytes name, v) \<in> set fs" and "length v < 40" and "0 \<notin> set v"
  shows "\<exists>f. find_form_var name w = (True, w\<lparr>form_var := f\<rparr>) \<and> length f = 40 \<and> c_str f = v"
proof -
  obtain p where p: "body_buf w = enc_form fs @ 0 # p" using assms(1) by (auto simp: form_posted_def)
  obtain i where i: "i < length fs" "fs ! i = (bytes name, v)" using assms(2) by (auto simp: in_set_conv_nth)
  have l: "unat (ucast (body_len w) :: u16) = length (enc_form fs)" "length (form_var w) = 40"
    using assms(1) by (simp_all add: form_posted_def unsigned_ucast_eq take_bit_eq_mod unat_of_nat)
  have "http_search_body (enc_form fs @ 0 # p) (length (enc_form fs)) (bytes name) 40 = Some v"
  proof (rule search_field[OF _ i])
    show "\<not> suffix (bytes name) (fst (fs ! j))" if "j < i" for j
      using assms(1) i that by (auto simp: form_posted_def suffix_free_def)
  qed (use assms in \<open>simp_all add: form_posted_def value_end_def deref_byte_def\<close>)
  then have f: "find_form_var name w = (True, w\<lparr>form_var := buf_put 0 (v @ [0]) (form_var w)\<rparr>)"
    by (simp add: find_form_var_def p l)
  have "buf_put 0 (v @ [0]) (form_var w) = v @ 0 # drop (Suc (length v)) (form_var w)"
    using assms(3) l(2) by (simp add: buf_put_0)
  moreover have "c_str (v @ 0 # q) = v" for q by (rule c_str_append[OF assms(4)])
  ultimately show ?thesis using f l(2) assms(3)
    by (intro exI[of _ "v @ 0 # drop (Suc (length v)) (form_var w)"]) simp
qed

section \<open>The settings\<close>

text \<open>The fields in the order of the page \<open>config.htm\<close>, as the comment of \<open>web_dslconfig_func\<close> shows them.\<close>

definition config_form :: "config \<Rightarrow> (u8 list \<times> u8 list) list" where
  "config_form c =
    (let num = (\<lambda>v. dec (sint (v :: u32))) in
     [(bytes ''dslService'', num (dslService c)), (bytes ''caplist_co'', num (caplist_co c)),
      (bytes ''caplist_rt'', num (caplist_rt c)), (bytes ''dslWires'', num (dslWires c)),
      (bytes ''dslStandard'', num (dslStandard c)), (bytes ''lineprobe'', num (lineprobe c)),
      (bytes ''extend'', num (cfg_extend c)),
      (bytes ''extend_rate_fix_value'', num (cfg_extend_rate_fix_value c)),
      (bytes ''minrate'', num (minrate c)), (bytes ''maxrate'', num (maxrate c)),
      (bytes ''dslmode'', num (dslmode c)), (bytes ''SUBMIT'', bytes ''Apply'')])"

definition config_names :: "u8 list list" where
  "config_names = map bytes [''dslService'', ''caplist_co'', ''caplist_rt'', ''dslWires'', ''dslStandard'',
     ''lineprobe'', ''extend'', ''extend_rate_fix_value'', ''minrate'', ''maxrate'', ''dslmode'', ''SUBMIT'']"

lemma config_form_names: "map fst (config_form c) = config_names"
  by (simp add: config_form_def config_names_def Let_def)

lemma config_names_ok:
  "list_all (\<lambda>n. n \<noteq> [] \<and> list_all plain n) config_names"
  "list_all (\<lambda>i. list_all (\<lambda>j. \<not> prefix (rev (config_names ! i)) (rev (config_names ! j))) [0..<i]) [0..<12]"
  by code_simp+

lemma config_form_ok: "list_all field_ok (config_form c)" "suffix_free (config_form c)"
proof -
  have l: "length (config_form c) = 12" by (simp add: config_form_def Let_def)
  have n: "fst (config_form c ! i) = config_names ! i" if "i < 12" for i
    using that l config_form_names[of c] by (metis nth_map)
  show "list_all field_ok (config_form c)"
    using config_names_ok(1) unfolding config_form_names[of c, symmetric] by (simp add: list_all_iff field_ok_def)
  show "suffix_free (config_form c)"
    using config_names_ok(2) n by (auto simp: suffix_free_def l list_all_iff suffix_to_prefix)
qed

text \<open>The handler sees the form and nothing but its buffer and the settings change.\<close>

definition configured :: "'h web \<Rightarrow> config \<Rightarrow> 'h web \<Rightarrow> bool" where
  "configured w0 c w \<longleftrightarrow> (\<exists>f. length f = 40 \<and> w = w0\<lparr>form_var := f, app := (app w0)\<lparr>g_config := c\<rparr>\<rparr>)"

lemma set_config_step:
  assumes "form_posted (config_form cfg) w0" and "configured w0 c w"
    and "(bytes name, dec (sint v)) \<in> set (config_form cfg)"
  shows "configured w0 (upd v c) (set_config name upd w)"
proof -
  obtain f where f: "length f = 40" "w = w0\<lparr>form_var := f, app := (app w0)\<lparr>g_config := c\<rparr>\<rparr>"
    using assms(2) by (auto simp: configured_def)
  have p: "form_posted (config_form cfg) w" using assms(1) f by (simp add: form_posted_def)
  have "length (dec (sint v)) < 40" using length_dec_sint[of v] by simp
  then obtain g where g: "find_form_var name w = (True, w\<lparr>form_var := g\<rparr>)" "length g = 40" "c_str g = dec (sint v)"
    using find_form_var_field[OF p assms(3) _ dec_nonzero] by blast
  show ?thesis
    unfolding configured_def set_config_def g(1)
    by (intro exI[of _ g] conjI g(2)) (simp add: f(2) g(3) atoi_dec)
qed

definition config_value :: "config \<Rightarrow> string \<Rightarrow> u32" where
  "config_value c name = the (map_of
    [(''dslService'', dslService c), (''caplist_co'', caplist_co c), (''caplist_rt'', caplist_rt c),
     (''dslWires'', dslWires c), (''dslStandard'', dslStandard c), (''lineprobe'', lineprobe c),
     (''extend'', cfg_extend c), (''extend_rate_fix_value'', cfg_extend_rate_fix_value c),
     (''maxrate'', maxrate c), (''minrate'', minrate c), (''dslmode'', dslmode c)] name)"

lemma set_config_steps:
  assumes "form_posted (config_form cfg) w0" and "configured w0 c w"
    and "\<forall>(name, upd) \<in> set fl. (bytes name, dec (sint (config_value cfg name))) \<in> set (config_form cfg)"
  shows "configured w0 (foldl (\<lambda>c (name, upd). upd (config_value cfg name) c) c fl)
    (foldl (\<lambda>w (name, upd). set_config name upd w) w fl)"
  using assms(2,3)
proof (induction fl arbitrary: c w)
  case (Cons f fl)
  obtain name upd where f: "f = (name, upd)" by fastforce
  have "configured w0 (upd (config_value cfg name) c) (set_config name upd w)"
    using set_config_step[OF assms(1) Cons.prems(1), of name _ upd] Cons.prems(2) by (simp add: f)
  then show ?case using Cons.IH Cons.prems(2) by (simp add: f)
qed simp

lemma config_all:
  "foldl (\<lambda>c (name, upd). upd (config_value cfg name) c) c config_fields = cfg"
  by (cases c; cases cfg) (simp add: config_fields_def config_value_def)

lemma set_configs_form:
  assumes "form_posted (config_form cfg) w"
  shows "\<exists>f. length f = 40 \<and> set_configs w = w\<lparr>form_var := f, app := (app w)\<lparr>g_config := cfg\<rparr>\<rparr>"
proof -
  have i: "configured w (g_config (app w)) w"
    using assms by (auto simp: configured_def form_posted_def intro!: exI[of _ "form_var w"])
  have "\<forall>(name, upd) \<in> set config_fields. (bytes name, dec (sint (config_value cfg name))) \<in> set (config_form cfg)"
    by (simp add: config_fields_def config_value_def config_form_def Let_def)
  from set_config_steps[OF assms i this] show ?thesis
    unfolding config_all set_configs_def[symmetric] configured_def .
qed

section \<open>The request\<close>

lemma fs_strcmp_str: "0 \<notin> set s \<Longrightarrow> 0 \<notin> set n \<Longrightarrow> fs_strcmp (s @ 0 # r) n = fs_strcmp s n"
proof (induction n arbitrary: s)
  case Nil
  then show ?case by (cases s) (simp_all add: deref_byte_def)
next
  case (Cons c n)
  show ?case
  proof (cases s)
    case Nil
    then show ?thesis using Cons.prems by (simp add: deref_byte_def)
  next
    case (Cons a s')
    then show ?thesis using Cons.IH[of s'] Cons.prems by (simp add: deref_byte_def)
  qed
qed

lemma config_found:
  "file_find (bytes ''config'') (file_dir P) = Some \<lparr>f_dat = config_htm P, f_len = int (length (config_htm P)), f_type = DYNAMIC\<rparr>"
  "\<not> fs_strcmp (bytes ''config'') (bytes ''status'')"
proof -
  have "list_all (\<lambda>n. \<not> fs_strcmp (bytes ''config'') (bytes n))
      [''index.htm'', ''400.htm'', ''404.htm'', ''501.htm'', ''503.htm'', ''left.htm'', ''top.htm'', ''bg.gif'',
       ''sys'', ''upload'', ''uploaddone'', ''status'']" "fs_strcmp (bytes ''config'') (bytes ''config'')"
    by code_simp+
  then show "file_find (bytes ''config'') (file_dir P) =
      Some \<lparr>f_dat = config_htm P, f_len = int (length (config_htm P)), f_type = DYNAMIC\<rparr>"
    "\<not> fs_strcmp (bytes ''config'') (bytes ''status'')"
    by (simp_all add: file_dir_def)
qed

lemma config_func: "fs_post_func (bytes ''config'' @ 0 # r) = Some web_dslconfig_func"
proof -
  have z: "0 \<notin> set (bytes ''config'')" by code_simp
  have "list_all (\<lambda>n. \<not> fs_strcmp (bytes ''config'') (bytes n) \<and> 0 \<notin> set (bytes n))
      [''pass'', ''led'', ''select'', ''text'', ''check'', ''radio'', ''file'']"
    "fs_strcmp (bytes ''config'') (bytes ''config'')" by code_simp+
  then show ?thesis by (simp add: fs_post_func_def func_dir_def fs_strcmp_str[OF z] z)
qed

text \<open>Posting the message leaves what pages show alone, and with it the page on its way.\<close>

lemma transit_app:
  assumes "in_transit env mss ps ts1 ts2 w" and "g_config a = g_config (app w)" and "g_lineStatus a = g_lineStatus (app w)"
  shows "in_transit env mss ps ts1 ts2 (w\<lparr>app := a\<rparr>)"
proof -
  let ?w = "w\<lparr>app := a\<rparr>"
  have v: "var_table env ?w = var_table env w" using assms(2,3) by (simp add: var_table_def)
  have g: "web_get_var env ?w d src = web_get_var env w d src" for d src
  proof -
    have e: "Vxy ?w = Vxy w" "g_totalpage ?w = g_totalpage w" "upload_file_length ?w = upload_file_length w" "app ?w = a"
      by simp_all
    show ?thesis unfolding web_get_var_def type_b_functions_def type_d_functions_def e assms(2,3) ..
  qed
  have b: "build_loop env ?w m l src d out = build_loop env w m l src d out" for m l src d out
    by (rule build_loop_cong) (rule g)
  have r: "web_build_dyn env mss WEB_DYN_PAGE_REPEAT w = Some w" using assms(1) by (simp add: in_transit_def)
  have "web_build_dyn env mss WEB_DYN_PAGE_REPEAT ?w =
      map_option (\<lambda>w. w\<lparr>app := a\<rparr>) (web_build_dyn env mss WEB_DYN_PAGE_REPEAT w)"
    by (simp add: web_build_dyn_def b Let_def split: option.split prod.split)
  then show ?thesis using assms(1) v
    by (simp add: in_transit_def r chunk_end_def toks_cong[OF v] page_file_cong[OF v])
qed

lemma sendmb_sel:
  "g_config (rt_sendmb e i s) = g_config s" "g_lineStatus (rt_sendmb e i s) = g_lineStatus s"
  "msg_id (gmsg (rt_sendmb e i s)) = i"
  by (simp_all add: rt_sendmb_def Let_def case_prod_beta)

text \<open>The page with the settings can be built when the settings are \<open>cfg\<close>.\<close>

definition config_page :: "'h web_env \<Rightarrow> u16 \<Rightarrow> config \<Rightarrow> tok list \<Rightarrow> 'h web \<Rightarrow> bool" where
  "config_page env mss cfg ts w \<longleftrightarrow> config_htm (pages env) = page_src ts \<and> length (page_src ts) < 65536 \<and>
     length (var_junk env) = 510 \<and>
     list_all (tok_ok env (w\<lparr>app := (app w)\<lparr>g_config := cfg\<rparr>\<rparr>) (unat mss)) ts"

lemma select_config:
  assumes "config_page env mss cfg ts w0" and "w = w0\<lparr>form_var := f, app := (app w0)\<lparr>g_config := cfg\<rparr>\<rparr>"
    and "web_logged_in w" and "hstate w = HTTP_END" and "reboot_pending w = 0"
  shows "\<exists>ts1 ts2 w1. ts = ts1 @ ts2 \<and> web_select_page env mss (bytes ''config'') w = Some w1 \<and>
    app w1 = app w \<and> in_transit env mss [] ts1 ts2 w1"
proof -
  let ?w = "w\<lparr>hfile := \<lparr>f_dat = config_htm (pages env), f_len = int (length (config_htm (pages env))), f_type = DYNAMIC\<rparr>\<rparr>"
  have v: "var_table env ?w = var_table env (w0\<lparr>app := (app w0)\<lparr>g_config := cfg\<rparr>\<rparr>)"
    by (simp add: assms(2) var_table_def)
  have pf: "page_file env mss ([] @ ts) ?w"
    using assms(1) unfolding page_file_def config_page_def toks_cong[OF v] by (simp add: is_dynamic_def)
  have z: "(case WEB_DYN_PAGE_CREATE of WEB_DYN_PAGE_CREATE \<Rightarrow> 0
      | WEB_DYN_PAGE_CONTINUE \<Rightarrow> dataptr_rom ?w + unat (count_rom ?w) | WEB_DYN_PAGE_REPEAT \<Rightarrow> dataptr_rom ?w) =
      length (page_src [])" by simp
  obtain ts1 ts2 where t: "ts = ts1 @ ts2" "web_build_dyn env mss WEB_DYN_PAGE_CREATE ?w = Some (seg_upd env ?w [] ts1)"
      "chunk_end env ?w (unat mss) (page_text env ?w ts1) ts2"
    using build_from[OF pf z] by blast
  have "web_select_page env mss (bytes ''config'') w = Some (seg_upd env ?w [] ts1)"
    using assms(3) t(2) by (simp add: web_select_page_def open_or_404_def fs_open_def config_found)
  moreover have "in_transit env mss [] ts1 ts2 (seg_upd env ?w [] ts1)"
    by (rule seg_upd_transit[OF _ _ _ t(3,2)]) (use pf t(1) assms(4,5) in simp_all)
  moreover have "app (seg_upd env ?w [] ts1) = app w" by simp
  ultimately show ?thesis using t(1) by blast
qed

lemma dslconfig_posted:
  assumes "form_posted (config_form cfg) w" and "config_page env mss cfg ts w" and "web_logged_in w"
    and "hstate w = HTTP_END" and "reboot_pending w = 0"
  shows "\<exists>ts1 ts2 w1. ts = ts1 @ ts2 \<and> web_dslconfig_func env mss w = Some w1 \<and>
    app w1 = rt_sendmb (senv_of env) 100 ((app w)\<lparr>g_config := cfg\<rparr>) \<and> in_transit env mss [] ts1 ts2 w1"
proof -
  obtain f where f: "set_configs w = w\<lparr>form_var := f, app := (app w)\<lparr>g_config := cfg\<rparr>\<rparr>"
    using set_configs_form[OF assms(1)] by blast
  obtain ts1 ts2 w1 where t: "ts = ts1 @ ts2" "web_select_page env mss (bytes ''config'') (set_configs w) = Some w1"
      "app w1 = app (set_configs w)" "in_transit env mss [] ts1 ts2 w1"
    using select_config[OF assms(2) f] assms(3-5) by (auto simp: f)
  have "in_transit env mss [] ts1 ts2 (w1\<lparr>app := rt_sendmb (senv_of env) 100 (app w1)\<rparr>)"
    by (rule transit_app[OF t(4)]) (simp_all add: sendmb_sel)
  moreover have "web_dslconfig_func env mss w = Some (w1\<lparr>app := rt_sendmb (senv_of env) 100 (app w1)\<rparr>)"
    using assms(3) t(2) by (simp add: web_dslconfig_func_def when_entered_def)
  moreover have "app (w1\<lparr>app := rt_sendmb (senv_of env) 100 (app w1)\<rparr>) =
      rt_sendmb (senv_of env) 100 ((app w)\<lparr>g_config := cfg\<rparr>)" using t(3) f by simp
  ultimately show ?thesis using t(1) by blast
qed

section \<open>From the browser to the settings\<close>

definition data_event :: "u16 \<Rightarrow> u8 list \<Rightarrow> nat \<Rightarrow> uip_event" where
  "data_event mss buf n = (no_event mss)\<lparr>uip_newdata := True, uip_appdata := buf, uip_len := of_nat n\<rparr>"

lemma enc_form_plain: "list_all field_ok fs \<Longrightarrow> ISO_cr \<notin> set (enc_form fs)"
proof (induction fs rule: enc_form.induct)
  case (2 f)
  then show ?case using enc_chars plain_chars
    by (auto simp: enc_field_def field_ok_def list_all_iff dest!: bspec)
next
  case (3 f g fs)
  have "ISO_cr \<notin> set (enc_field f)"
    using 3 enc_chars plain_chars by (auto simp: enc_field_def field_ok_def list_all_iff)
  with 3 show ?case by simp
qed simp

lemma handle_config:
  assumes "config_page env mss cfg ts w" and "web_logged_in w" and "reboot_pending w = 0" and "\<not> g_filedownload w"
    and "\<not> herror w" and "length (uri w) = 84" and "length (body_buf w) = 1004" and "length (form_var w) = 40"
    and "length (enc_form (config_form cfg)) \<le> 1000"
  shows "\<exists>ts1 ts2 w1. ts = ts1 @ ts2 \<and>
    handle_request env mss (parsed (bytes ''/config'') (enc_form (config_form cfg)) w) = Some w1 \<and>
    app w1 = rt_sendmb (senv_of env) 100 ((app w)\<lparr>g_config := cfg\<rparr>) \<and> in_transit env mss [] ts1 ts2 w1"
proof -
  let ?body = "enc_form (config_form cfg)"
  let ?p = "parsed (bytes ''/config'') ?body w"
  have path: "bytes ''/config'' = 0x2f # bytes ''config''" "length (bytes ''/config'') = 7" "length (bytes ''config'') = 6"
    by code_simp+
  define u where "u = (uri ?p)[7 := 0]"
  have u: "u = 0x2f # bytes ''config'' @ 0 # drop 8 (uri w)"
  proof -
    have "buf_put 0 (bytes ''/config'') (uri w) = bytes ''/config'' @ drop 7 (uri w)"
      using assms(6) path(2) by (simp add: buf_put_0)
    moreover have "drop 7 (uri w) = uri w ! 7 # drop 8 (uri w)"
      using Cons_nth_drop_Suc[of 7 "uri w"] assms(6) by simp
    ultimately show ?thesis using path by (simp add: u_def parsed_def list_update_append)
  qed
  let ?w = "?p\<lparr>uri := u\<rparr>"
  have "length ?body \<noteq> 0" by (simp add: config_form_def enc_form_Cons enc_field_def Let_def)
  then have b0: "body_len ?p \<noteq> 0"
    using assms(9) nat_dvd_not_less[of "length ?body" "2 ^ 32"] by (simp add: parsed_def word_of_nat_eq_0_iff)
  have "form_posted (config_form cfg) ?w"
    using config_form_ok assms(7,8,9) by (simp add: form_posted_def parsed_def buf_put_0)
  moreover have "config_page env mss cfg ts ?w"
  proof -
    have v: "var_table env (?w\<lparr>app := (app ?w)\<lparr>g_config := cfg\<rparr>\<rparr>) = var_table env (w\<lparr>app := (app w)\<lparr>g_config := cfg\<rparr>\<rparr>)"
      by (simp add: parsed_def var_table_def)
    show ?thesis using assms(1) unfolding config_page_def toks_cong[OF v] .
  qed
  ultimately obtain ts1 ts2 w1 where t: "ts = ts1 @ ts2" "web_dslconfig_func env mss ?w = Some w1"
      "app w1 = rt_sendmb (senv_of env) 100 ((app ?w)\<lparr>g_config := cfg\<rparr>)" "in_transit env mss [] ts1 ts2 w1"
    using dslconfig_posted[of cfg ?w env mss ts] assms(2,3) by (auto simp: parsed_def)
  have ul: "uri_len ?p = 7" using path(2) by (simp add: parsed_def)
  have sp: "finish_upload (spi_found env) ?p = Some ?p" using assms(4) by (simp add: finish_upload_def parsed_def)
  have sq: "split_query ?w = ?w" by (simp add: split_query_def parsed_def Let_def)
  have "answer_method env mss ?w = Some w1"
    using b0 t(2) by (simp add: answer_method_def parsed_def u config_func)
  then have "handle_request env mss ?p = Some w1"
    using sp ul assms(5,6) sq by (simp add: handle_request_def u_def) (simp add: parsed_def)
  moreover have "app ?w = app w" by (simp add: parsed_def)
  ultimately show ?thesis using t(1,3,4) by auto
qed

lemma config_request:
  assumes "fresh w" and "config_page env mss cfg ts w" and "web_logged_in w" and "reboot_pending w = 0"
    and "\<not> g_filedownload w" and "length (form_var w) = 40"
    and "ISO_nl \<notin> set version" and "list_all other_line ls1" and "list_all other_line ls2"
    and "length (enc_form (config_form cfg)) \<le> 1000"
    and req: "req = post_request (bytes ''/config'') version ls1 ls2 (enc_form (config_form cfg))" "length req < 65536"
  shows "\<exists>ts1 ts2 w1. ts = ts1 @ ts2 \<and>
    httpd_appcall env (data_event mss (req @ junk) (length req)) w =
      Some ([Uip_send (page_text env w1 ts1)], w1) \<and>
    app w1 = rt_sendmb (senv_of env) 100 ((app w)\<lparr>g_config := cfg\<rparr>) \<and> in_transit env mss [] ts1 ts2 w1"
proof -
  let ?body = "enc_form (config_form cfg)"
  let ?ev = "data_event mss (req @ junk) (length req)"
  have ne: "?body \<noteq> []" by (simp add: config_form_def enc_form_Cons enc_field_def Let_def)
  have pl: "length (bytes ''/config'') \<le> 80" "list_all (\<lambda>c. c \<noteq> ISO_space \<and> c \<noteq> ISO_cr) (bytes ''/config'')"
    by code_simp+
  have ok: "request_ok (bytes ''/config'') version ls1 ls2 ?body"
    using assms(7-10) ne pl enc_form_plain[OF config_form_ok(1)]
    by (auto simp: request_ok_def MAX_URI_LEN_def MAX_BODY_LEN_def list_all_iff)
  have ev: "uip_appdata ?ev = req @ junk" "unat (uip_len ?ev) = length req" "uip_mss ?ev = mss"
    using req(2) by (simp_all add: data_event_def no_event_def unat_u16)
  have hp: "http_process env ?ev w = Some (parsed (bytes ''/config'') ?body w)"
    by (rule request_parsed[OF assms(1) ok]) (simp_all add: ev req(1)[symmetric])
  have inv: "http_inv w" "\<not> herror w" using assms(1) by (simp_all add: fresh_def)
  obtain ts1 ts2 w1 where t: "ts = ts1 @ ts2"
      "handle_request env mss (parsed (bytes ''/config'') ?body w) = Some w1"
      "app w1 = rt_sendmb (senv_of env) 100 ((app w)\<lparr>g_config := cfg\<rparr>)" "in_transit env mss [] ts1 ts2 w1"
    using handle_config[OF assms(2-5) inv(2) _ _ assms(6,10)] inv(1) by (auto simp: http_inv_defs)
  have e: "hstate (parsed (bytes ''/config'') ?body w) = HTTP_END" by (simp add: parsed_def)
  have nd: "on_newdata env ?ev w = Some w1"
    using hp t(2) e ev(3) by (simp add: on_newdata_def) (simp add: data_event_def)
  have "hstate w1 = HTTP_END" using t(4) by (simp add: in_transit_def)
  then have "httpd_appcall env ?ev w = Some ([Uip_send (page_text env w1 ts1)], w1)"
    using nd transit_len(2)[OF t(4)]
    by (simp add: httpd_appcall_def send_segment_def) (simp add: data_event_def no_event_def)
  then show ?thesis using t(1,3,4) by blast
qed

end
