(* ===== verification/Web_Props.thy ===== *)
theory Web_Props
  imports Web_Config Shdsl_Props
begin

text \<open>
  The properties of the web server, each with an instance at a sample connection.
\<close>

section \<open>A sample\<close>

definition web_sample :: "(u32 \<Rightarrow> u8) web" where
  "web_sample = \<lparr>hstate = HTTP_METHOD, hfile = \<lparr>f_dat = [], f_len = 0, f_type = STATIC\<rparr>, hcount = 0,
     dataptr = [], count_rom = 0, dataptr_rom = 0, hmethod = 0, uri_len = 0, uri = replicate 84 0,
     body_i = 0, body_len = 0, boundary_len = 0, boundary_match = 0, prev_ch = 0, expect_iso_nl = False,
     content_len_match = 0, content_type_match = 0, content_type_appl_match = 0, filename_match = 0,
     herror = False, boundary_buf = replicate 80 0, body_buf = replicate 1004 0, file_buff = replicate 4096 0,
     g_name = replicate 30 0, g_filedownload = False, upload_file_length = 0, g_totalpage = 0, g_filetype = 0,
     upload_busy = False, web_upload_case = WEB_UPLOAD_IDLE, burns = [], form_var = replicate 40 0,
     submit_buf = replicate 15 0, Vxy = bytes ''beta v1.e'' @ [0], web_logged_in = True, reboot_pending = 0,
     reboot_execute = False, reboot_timer = 0, reboot_hs = None, hs_id = 0, app = app_sample\<rparr>"

definition web_pages_sample :: web_pages where
  "web_pages_sample = \<lparr>index_htm = [], left_htm = [], top_htm = [], bg_gif = [], sys_htm = [], upload_htm = [],
     uploaddone_htm = [], config_htm = bytes ''rate @D07'', default_css = [], manage_htm = [], status_htm = []\<rparr>"

definition web_env_sample :: "(u32 \<Rightarrow> u8) web_env" where
  "web_env_sample = \<lparr>senv_of = env0, pages = web_pages_sample, spi_found = True, ethaddr = replicate 6 0,
     hostaddr = (0, 0), netmask = (0, 0), draddr = (0, 0), build_stamp = [], var_junk = replicate 510 0, j_junk = 0\<rparr>"

lemma web_sample_ok: "fresh web_sample" "http_inv web_sample"
  by (simp_all add: web_sample_def fresh_def http_inv_defs)

lemma web_sample_sel: "reboot_pending web_sample = 0" "web_logged_in web_sample" "\<not> g_filedownload web_sample"
  "length (form_var web_sample) = 40"
  by (simp_all add: web_sample_def)

lemma sample_junk: "length (var_junk web_env_sample) = 510"
  by (simp add: web_env_sample_def)

text \<open>Ending an upload leaves the request alone; the address of the upload form has no handler.\<close>

lemma finish_upload_sel:
  assumes "finish_upload spi w = Some w1"
  shows "uri w1 = uri w" "uri_len w1 = uri_len w" "hmethod w1 = hmethod w" "body_len w1 = body_len w"
    "herror w1 = herror w" "upload_busy w1 = upload_busy w"
  using assms by (auto simp: finish_upload_def pad_page_def rt_burnapp_def Let_def split: if_splits option.splits)

lemma upload_path: "length (bytes ''/fileupload'') = 11" "bytes ''/fileupload'' = 0x2f # bytes ''fileupload''"
  by code_simp+

lemma upload_handler: "fs_post_func (bytes ''fileupload'' @ 0 # q) = None"
proof -
  have z: "0 \<notin> set (bytes ''fileupload'')" by code_simp
  have "list_all (\<lambda>n. \<not> fs_strcmp (bytes ''fileupload'') (bytes n) \<and> 0 \<notin> set (bytes n))
      [''pass'', ''led'', ''select'', ''text'', ''check'', ''radio'', ''file'', ''config'']" by code_simp
  then show ?thesis by (simp add: fs_post_func_def func_dir_def fs_strcmp_str[OF z])
qed

lemma status_404:
  "\<exists>w2. build_status_code env ''404'' w = Some w2 \<and> dataptr w2 = http_status_404 \<and> unat (hcount w2) = 36 \<and>
     burns w2 = burns w \<and> upload_busy w2 = upload_busy w"
proof -
  have "file_find (bytes ''404'') (file_dir P) = Some \<lparr>f_dat = http_status_404, f_len = 36, f_type = STATIC\<rparr>"
    "\<not> fs_strcmp (bytes ''404'') (bytes ''status'')" for P
  proof -
    have "\<not> fs_strcmp (bytes ''404'') (bytes ''index.htm'')" "\<not> fs_strcmp (bytes ''404'') (bytes ''400.htm'')"
      "fs_strcmp (bytes ''404'') (bytes ''404.htm'')" "length http_status_404 = 36"
      "\<not> fs_strcmp (bytes ''404'') (bytes ''status'')" by code_simp+
    then show "file_find (bytes ''404'') (file_dir P) = Some \<lparr>f_dat = http_status_404, f_len = 36, f_type = STATIC\<rparr>"
      "\<not> fs_strcmp (bytes ''404'') (bytes ''status'')" by (simp_all add: file_dir_def)
  qed
  then show ?thesis by (simp add: build_status_code_def fs_open_def send_file_def)
qed

section \<open>Forms\<close>

text \<open>
  C40: a form field survives the way from the browser to the handler that asks for it.  If a body
  holds the URL encoded form \<open>fs\<close>, ended by a zero byte or a carriage return, then searching it for the
  name of the \<open>i\<close>-th field gives the value of that field, byte for byte, for every value that fits the
  buffer of \<open>n\<close> bytes with its terminating zero, unless the name of an earlier field ends in the name
  looked for.
\<close>

theorem form_roundtrip:
  assumes "list_all field_ok fs" and "i < length fs" and "fs ! i = (name, v)"
    and "\<And>j. j < i \<Longrightarrow> \<not> suffix name (fst (fs ! j))"
    and "length (enc_form fs) \<le> l" and "value_end p"
    and "length v < n" and "2 \<le> n" and "n < 256"
  shows "http_search_body (enc_form fs @ p) l name n = Some v"
  by (rule search_field[OF assms])

theorem form_roundtrip_witness:
  "http_search_body (enc_form [(bytes ''rate'', bytes ''89''), (bytes ''text'', bytes ''a+b & c'')] @ [0]) 64
     (bytes ''text'') 40 = Some (bytes ''a+b & c'')"
  by (rule form_roundtrip[where i = 1]) (code_simp | simp add: suffix_def)+

text \<open>
  The text handler overruns its buffer.  A posted field \<open>text\<close> is copied into the version string, whose
  array has ten bytes: a text that fits with its zero byte becomes the version string, a longer one makes the
  handler write behind the array, although \<open>form_var\<close> holds up to 39 characters.
\<close>

theorem text_overruns:
  assumes "form_posted fs w" and "(bytes ''text'', v) \<in> set fs" and "length v < 40" and "0 \<notin> set v"
    and "web_logged_in w"
  shows "if length v < length (Vxy w)
    then \<exists>w1. web_text_func env mss w = web_select_page env mss (bytes ''postdemo'') w1 \<and> c_str (Vxy w1) = v
    else web_text_func env mss w = None"
proof -
  obtain f where f: "find_form_var ''text'' w = (True, w\<lparr>form_var := f\<rparr>)" "c_str f = v"
    using find_form_var_field[OF assms(1-4)] by blast
  have e: "buf_put 0 (v @ [0]) (Vxy w) = v @ 0 # drop (Suc (length v)) (Vxy w)" if "length v < length (Vxy w)"
    using that by (simp add: buf_put_0)
  have c: "c_str (v @ 0 # q) = v" for q by (rule c_str_append[OF assms(4)])
  show ?thesis
    using assms(5) e c
    by (auto simp: web_text_func_def when_entered_def f c_print_def upper_form_var_def)
qed

section \<open>Pages\<close>

text \<open>
  C36: a dynamic page reaches the browser with its variables filled in.  The first segment and those that follow, one
  for each acknowledgement, are together the page in which every variable stands for its text; none is longer than the
  maximal segment size, none is empty (unless the page is), and after the last the connection is closed.  Whichever
  segment has to be sent again, the first or a later one, and however often, the server sends that segment and goes
  on from it.  Every value must fit one segment.
\<close>

theorem page_served:
  assumes "page_file env mss ts w" and "0 < mss" and "hstate w = HTTP_END" and "reboot_pending w = 0"
  shows "\<exists>w1 xs w2. web_build_dyn env mss WEB_DYN_PAGE_CREATE w = Some w1 \<and>
    (let first = take (unat (hcount w1)) (dataptr w1)
     in httpd_appcall env (rexmit_event mss) w1 = Some ([Uip_send first], w1) \<and>
        served env mss w1 xs \<and> transfer env mss (Suc (length ts)) w1 = Some (map fst xs, w2) \<and>
        first @ concat (map fst xs) = page_text env w ts \<and>
        (page_text env w ts \<noteq> [] \<longrightarrow> first \<noteq> []) \<and> length first \<le> unat mss \<and>
        (\<forall>s \<in> set (map fst xs). s \<noteq> [] \<and> length s \<le> unat mss))"
proof -
  obtain ts1 ts2 where t: "ts = ts1 @ ts2" "web_build_dyn env mss WEB_DYN_PAGE_CREATE w = Some (seg_upd env w [] ts1)"
      "chunk_end env w (unat mss) (page_text env w ts1) ts2"
    using build_from[of env mss "[]" ts w WEB_DYN_PAGE_CREATE] assms(1) by auto
  define w1 where "w1 = seg_upd env w [] ts1"
  have it: "in_transit env mss [] ts1 ts2 w1" unfolding w1_def
    by (rule seg_upd_transit[OF _ assms(3,4) t(3,2)]) (use assms(1) t(1) in simp)
  have p: "page_text env w1 = page_text env w" by (rule toks_cong(2)) (simp add: w1_def)
  obtain xs w2 where s: "served env mss w1 xs" "transfer env mss (Suc (length ts)) w1 = Some (map fst xs, w2)"
      "concat (map fst xs) = page_text env w1 ts2" "\<forall>s \<in> set (map fst xs). s \<noteq> [] \<and> length s \<le> unat mss"
    using served_rest[OF it assms(2), of "Suc (length ts)"] t(1) by auto
  have "page_text env w ts1 = [] \<Longrightarrow> page_text env w ts = []"
    using transit_progress[OF it assms(2)] p t(1) by simp
  then show ?thesis
    using t(1,2) s p transit_len(2,4)[OF it] rexmit_same[OF it]
    by (intro exI[of _ w1] exI[of _ xs] exI[of _ w2]) (simp add: Let_def w1_def[symmetric])
qed

section \<open>The parser of requests\<close>

text \<open>
  C37: bounds of the request parser.  Let the counters of a connection be within their buffers, and let a
  segment arrive (the one that begins a request with at least the five bytes the look-ahead reads).
  Then the counters are within their buffers afterwards, and the only ways to leave an array are the three of
  \<open>http_fault\<close>, all in requests with a multipart body: a boundary of more than 76 characters at the end of a
  header line, a file name that is not inside of 30 characters, and the end mark of such a boundary.  Any
  other request is parsed without a fault, whatever its bytes.
\<close>

theorem parser_bounds:
  assumes "http_inv w" and "segment_ok ev w"
  shows "let (n, v) = http_start (uip_appdata ev) w; data = drop n (take (unat (uip_len ev)) (uip_appdata ev))
    in case http_process env ev w of
         Some w1 \<Rightarrow> http_inv w1
       | None \<Rightarrow> \<not> plain_request v \<and>
           (\<exists>bs c cs s. data = bs @ c # cs \<and> http_bytes (spi_found env) bs (j_junk env, v) = Some s \<and>
              http_inv (snd s) \<and> http_fault c s)"
proof -
  obtain n v where st: "http_start (uip_appdata ev) w = (n, v)" by fastforce
  define data where "data = drop n (take (unat (uip_len ev)) (uip_appdata ev))"
  have v: "http_inv v" using http_start_inv[OF assms(1), of "uip_appdata ev"] by (simp add: st)
  have e: "http_process env ev w = map_option snd (http_bytes (spi_found env) data (j_junk env, v))"
    using http_process_bytes[OF assms(2), of env] by (simp add: st data_def)
  have s: "http_inv (snd (j_junk env, v))" using v by simp
  have "case http_process env ev w of
         Some w1 \<Rightarrow> http_inv w1
       | None \<Rightarrow> \<not> plain_request v \<and>
           (\<exists>bs c cs s. data = bs @ c # cs \<and> http_bytes (spi_found env) bs (j_junk env, v) = Some s \<and>
              http_inv (snd s) \<and> http_fault c s)"
    using http_bytes_safe[OF s, where spi = "spi_found env" and bs = data]
      plain_request_bytes[OF v, where spi = "spi_found env" and bs = data and j = "j_junk env"]
    unfolding e by (cases "http_bytes (spi_found env) data (j_junk env, v)") auto
  then show ?thesis unfolding st Let_def prod.case data_def .
qed

text \<open>
  C35: an uploaded file is written as it was sent.  After the part header, the bytes of the file, a line end, the
  end mark \<open>B\<close> and a carriage return put the file page by page into the flash area of its type, the last page
  filled up with ones, followed for the application image by the block with its length; but only if the end
  mark, which is stored too before it is recognised, ends in the page the file ends in.  Otherwise the length
  of the rest gets negative and finishing the upload writes in front of the buffer.
\<close>

theorem upload_written:
  assumes "uploading base old B [] 0 w" and "\<not> sublist B (data @ [ISO_cr, ISO_nl])" and "ISO_nl \<notin> set B"
  shows "\<exists>w1. http_bytes True (data @ [ISO_cr, ISO_nl] @ B @ [ISO_cr]) (j, w) = Some (j, w1) \<and> hstate w1 = HTTP_END \<and>
    (case finish_upload True w1 of
       Some w2 \<Rightarrow> length data mod 4096 + length B + 2 < 4096 \<and>
         burns w2 = old @ file_pages base data @
           (if base = 0x100 then [(0x1ff, image_info (of_nat (length data)))] else [])
     | None \<Rightarrow> 4096 \<le> length data mod 4096 + length B + 2)"
proof -
  let ?tail = "[ISO_cr, ISO_nl] @ B"
  obtain w0 where w0: "http_bytes True (data @ ?tail) (j, w) = Some (j, w0)"
      "uploading base old B (data @ ?tail) (length B) w0"
    using uploading_part[OF assms] by blast
  then have st: "file_stored base old (data @ ?tail) w0" and l: "length ?tail < 4096"
    by (simp_all add: uploading_def MAX_BOUNDARY_LEN_def)
  let ?w = "w0\<lparr>hstate := HTTP_END, upload_file_length := upload_file_length w0 - of_nat (length ?tail), prev_ch := ISO_cr\<rparr>"
  have t: "length B + 2 = length ?tail" by simp
  have "http_bytes True (data @ ?tail @ [ISO_cr]) (j, w) = Some (j, ?w)"
    using w0(1) uploading_end[OF w0(2), unfolded t]
    by (simp only: http_bytes_append append_assoc[symmetric]) simp
  moreover have "case finish_upload True ?w of
       Some w2 \<Rightarrow> length data mod 4096 + length ?tail < 4096 \<and>
         burns w2 = old @ file_pages base data @
           (if base = 0x100 then [(0x1ff, image_info (of_nat (length data)))] else [])
     | None \<Rightarrow> 4096 \<le> length data mod 4096 + length ?tail"
  proof (cases "length data mod 4096 + length ?tail < 4096")
    case True
    then obtain w2 where "finish_upload True ?w = Some w2" "burns w2 = old @ file_pages base data @
        (if base = 0x100 then [(0x1ff, image_info (of_nat (length data)))] else [])"
      using finish_written[OF st True refl, of ISO_cr] by blast
    with True show ?thesis by (simp only: option.case simp_thms)
  next
    case False
    then have o: "4096 \<le> length data mod 4096 + length ?tail" by simp
    show ?thesis unfolding finish_faults[OF st o l refl] option.case by (rule o)
  qed
  moreover have "data @ [ISO_cr, ISO_nl] @ B @ [ISO_cr] = data @ ?tail @ [ISO_cr]"
    "length data mod 4096 + length B + 2 = length data mod 4096 + length ?tail" by simp_all
  moreover have "hstate ?w = HTTP_END" by simp
  ultimately show ?thesis by metis
qed

text \<open>
  A successful upload is answered as if it had failed.  The page with the upload form posts to
  \<open>/fileupload\<close>, the address \<open>web_upload_init\<close> looks for; the table of handlers has the name \<open>file\<close>.  So the
  file is written to the flash as the parser found it, the answer is the page for an unknown address, and the
  reservation made when the upload began is not given back.
\<close>

theorem upload_answered_404:
  assumes "finish_upload (spi_found env) w = Some w1" and "hmethod w = ISO_P" and "body_len w \<noteq> 0"
    and "uri w = bytes ''/fileupload'' @ r" and "uri_len w = 11" and "r \<noteq> []" and "\<not> herror w"
  shows "\<exists>w2. handle_request env mss w = Some w2 \<and> dataptr w2 = http_status_404 \<and> unat (hcount w2) = 36 \<and>
    burns w2 = burns w1 \<and> upload_busy w2 = upload_busy w"
proof -
  let ?u = "(uri w)[11 := 0]"
  have u: "?u = 0x2f # bytes ''fileupload'' @ 0 # tl r"
    using assms(4,6) upload_path(1,2) by (cases r) (simp_all add: list_update_append)
  then have n: "fs_post_func (drop 1 ?u) = (None :: ('a web_env \<Rightarrow> u16 \<Rightarrow> 'a web \<Rightarrow> 'a web option) option)"
    using upload_handler by simp
  have l: "11 < length (uri w)" using assms(4,6) upload_path(1) by (cases r) simp_all
  have "split_query (w1\<lparr>uri := ?u\<rparr>) = w1\<lparr>uri := ?u\<rparr>"
    using finish_upload_sel[OF assms(1)] assms(2) by (simp add: split_query_def Let_def)
  then have "handle_request env mss w = build_status_code env ''404'' (w1\<lparr>uri := ?u\<rparr>)"
    using finish_upload_sel[OF assms(1)] assms l n
    by (simp add: handle_request_def answer_method_def arr_set_def)
  then show ?thesis
    using status_404[of env "w1\<lparr>uri := ?u\<rparr>"] finish_upload_sel(6)[OF assms(1)] by auto
qed

section \<open>Settings\<close>

text \<open>
  C34: the settings a browser posts are the settings of the modem application.  Let a connection wait for a
  request and let the request that posts the form with the settings \<open>cfg\<close> arrive, with any version text and any
  further header lines.  Then \<open>httpd_appcall\<close> answers with the first segment of the settings page, the
  settings of the application are \<open>cfg\<close>, and message 100, on which the state machine thread applies them, is
  in the mailbox, at its end unless the mailbox was full.
\<close>

theorem config_posted:
  assumes "fresh w" and "config_page env mss cfg ts w" and "web_logged_in w" and "reboot_pending w = 0"
    and "\<not> g_filedownload w" and "length (form_var w) = 40"
    and "ISO_nl \<notin> set version" and "list_all other_line ls1" and "list_all other_line ls2"
    and "length (enc_form (config_form cfg)) \<le> MAX_BODY_LEN"
    and "req = post_request (bytes ''/config'') version ls1 ls2 (enc_form (config_form cfg))" and "length req < 65536"
  shows "\<exists>ts1 ts2 w1. ts = ts1 @ ts2 \<and>
    httpd_appcall env (data_event mss (req @ junk) (length req)) w =
      Some ([Uip_send (page_text env w1 ts1)], w1) \<and> in_transit env mss [] ts1 ts2 w1 \<and>
    g_config (app w1) = cfg \<and> msg_id (gmsg (app w1)) = 100 \<and>
    (mb_wf 32 (g_mb (app w)) \<longrightarrow> mb_contents (g_mb (app w1)) =
       mb_contents (g_mb (app w)) @ (if entry (g_mb (app w)) < 32 then [Gmsg] else []))"
proof -
  obtain ts1 ts2 w1 where t: "ts = ts1 @ ts2"
      "httpd_appcall env (data_event mss (req @ junk) (length req)) w = Some ([Uip_send (page_text env w1 ts1)], w1)"
      "app w1 = rt_sendmb (senv_of env) 100 ((app w)\<lparr>g_config := cfg\<rparr>)" "in_transit env mss [] ts1 ts2 w1"
    using config_request[OF assms(1-9) assms(10)[unfolded MAX_BODY_LEN_def] assms(11,12)] by blast
  have "mb_contents (g_mb (app w1)) =
      mb_contents (g_mb (app w)) @ (if entry (g_mb (app w)) < 32 then [Gmsg] else [])" if "mb_wf 32 (g_mb (app w))"
    using mb_send_cases[OF that, of "self (senv_of env)" Gmsg "kthreads (app w)"]
    by (auto simp: t(3) rt_sendmb_def Let_def case_prod_beta)
  then show ?thesis using t by (auto simp: sendmb_sel)
qed

section \<open>Instances\<close>

theorem text_overruns_witness:
  "web_text_func web_env_sample 1460 (web_sample\<lparr>body_len := 15, body_buf := enc_form [(bytes ''text'', bytes ''version123'')] @ [0]\<rparr>) = None"
proof -
  let ?w = "web_sample\<lparr>body_len := 15, body_buf := enc_form [(bytes ''text'', bytes ''version123'')] @ [0]\<rparr>"
  have f: "list_all field_ok [(bytes ''text'', bytes ''version123'')]"
    "length (enc_form [(bytes ''text'', bytes ''version123'')]) = 15"
    "length (bytes ''version123'') = 10" "0 \<notin> set (bytes ''version123'')" "length (bytes ''beta v1.e'') = 9" by code_simp+
  have "form_posted [(bytes ''text'', bytes ''version123'')] ?w"
    using f(1,2) by (auto simp: form_posted_def suffix_free_def web_sample_def)
  then show ?thesis
    using text_overruns[of "[(bytes ''text'', bytes ''version123'')]" ?w "bytes ''version123''" web_env_sample 1460] f(3-5)
    by (simp add: web_sample_def)
qed

theorem parser_bounds_witness:
  "\<exists>w1. http_process web_env_sample (data_event 1460 (bytes ''GET /status HTTP/1.1'' @ [0x0d, 0x0a]) 22) web_sample = Some w1 \<and>
     http_inv w1"
proof -
  let ?buf = "bytes ''GET /status HTTP/1.1'' @ [0x0d, 0x0a]"
  let ?ev = "data_event 1460 ?buf 22"
  have l: "length (bytes ''GET /status HTTP/1.1'') = 20" "take 4 (bytes ''GET /status HTTP/1.1'') = bytes ''GET ''"
    by code_simp+
  have ok: "segment_ok ?ev web_sample"
    by (simp add: segment_ok_def data_event_def no_event_def l web_sample_def)
  have st: "http_start (uip_appdata ?ev) web_sample =
      (4, web_sample\<lparr>hmethod := ISO_G, hstate := HTTP_URI, prev_ch := ISO_G\<rparr>)"
    by (simp add: http_start_def data_event_def no_event_def l) (simp add: web_sample_def)
  show ?thesis
    using parser_bounds[OF web_sample_ok(2) ok, of web_env_sample] unfolding st
    by (auto simp: plain_request_def Let_def split: option.splits)
qed

definition upload_sample :: "(u32 \<Rightarrow> u8) web" where
  "upload_sample = web_sample\<lparr>hstate := HTTP_UPLOAD_CONTENT, boundary_len := 3,
     boundary_buf := bytes ''--x--'' @ replicate 75 0, g_filedownload := True, g_filetype := 2\<rparr>"

theorem upload_written_witness:
  "\<exists>w1 w2. http_bytes True (bytes ''data'' @ [ISO_cr, ISO_nl] @ bytes ''--x--'' @ [ISO_cr]) (0, upload_sample) = Some (0, w1) \<and>
     finish_upload True w1 = Some w2 \<and> burns w2 = file_pages 0 (bytes ''data'')"
proof -
  have b: "bytes ''--x--'' = [0x2d, 0x2d, 0x78, 0x2d, 0x2d]" "bytes ''data'' = [0x64, 0x61, 0x74, 0x61]" by code_simp+
  have u: "uploading 0 [] (bytes ''--x--'') [] 0 upload_sample"
    by (simp add: uploading_def file_stored_def upload_sample_def web_sample_def burn_base_def full_pages_def b MAX_BOUNDARY_LEN_def)
  have s: "\<not> sublist (bytes ''--x--'') (bytes ''data'' @ [ISO_cr, ISO_nl])" "ISO_nl \<notin> set (bytes ''--x--'')"
    by (simp_all add: b sublist_Cons_right)
  show ?thesis
    using upload_written[OF u s, of 0] by (auto simp: b split: option.splits)
qed

theorem upload_answered_404_witness:
  "\<exists>w2. handle_request web_env_sample 1460 (upload_sample\<lparr>hmethod := ISO_P, body_len := 200, uri_len := 11,
      uri := bytes ''/fileupload'' @ replicate 73 0\<rparr>) = Some w2 \<and> dataptr w2 = http_status_404"
proof -
  let ?w = "upload_sample\<lparr>hmethod := ISO_P, body_len := 200, uri_len := 11, uri := bytes ''/fileupload'' @ replicate 73 0\<rparr>"
  obtain w1 where f: "finish_upload (spi_found web_env_sample) ?w = Some w1"
    by (simp add: finish_upload_def pad_page_def upload_sample_def web_sample_def Let_def)
  have "\<not> herror ?w" by (simp add: upload_sample_def web_sample_def)
  then show ?thesis
    using upload_answered_404[OF f _ _ _ _ _ _, of "replicate 73 0" 1460] by simp blast
qed

theorem page_served_witness:
  "\<exists>w1 xs. web_build_dyn web_env_sample 16 WEB_DYN_PAGE_CREATE
      (web_sample\<lparr>hstate := HTTP_END, hfile := \<lparr>f_dat = bytes ''rate @D07'', f_len = 9, f_type = DYNAMIC\<rparr>\<rparr>) = Some w1 \<and>
     served web_env_sample 16 w1 xs \<and>
     take (unat (hcount w1)) (dataptr w1) @ concat (map fst xs) = bytes ''rate '' @ dec (sint (maxrate (g_config app_sample)))"
proof -
  let ?w = "web_sample\<lparr>hstate := HTTP_END, hfile := \<lparr>f_dat = bytes ''rate @D07'', f_len = 9, f_type = DYNAMIC\<rparr>\<rparr>"
  let ?ts = "map Chr (bytes ''rate '') @ [Var ''D07'']"
  have b: "bytes ''rate @D07'' = bytes ''rate '' @ 0x40 # bytes ''D07''" "length (bytes ''rate @D07'') = 9"
    "length (bytes ''rate '') = 5" "list_all (\<lambda>c. c \<noteq> 0x40) (bytes ''rate '')"
    by code_simp+
  have v: "map_of (var_table web_env_sample (web_sample\<lparr>hstate := HTTP_END, hfile := f\<rparr>)) ''D07'' =
      Some (dec (sint (maxrate (g_config app_sample))))" for f
    by (simp add: var_table_def web_sample_def Let_def)
  have l: "length (dec (sint (maxrate (g_config app_sample)))) \<le> 11" by (rule length_dec_sint)
  have pf: "page_file web_env_sample 16 ?ts ?w"
    using b l dec_nonzero sample_junk by (simp add: page_file_def v is_dynamic_def list_all_iff)
  show ?thesis
    using page_served[OF pf] v b(3) by (auto simp: web_sample_sel Let_def)
qed

definition config_sample :: config where
  "config_sample = config0\<lparr>dslWires := 1, maxrate := 89, dslmode := 2\<rparr>"

lemma length_texts: "length content_length_text = 16" "length content_type_upload_text = 44"
  by code_simp+

lemma other_line_short: "l \<noteq> [] \<Longrightarrow> length l < 16 \<Longrightarrow> ISO_cr \<notin> set l \<Longrightarrow> ISO_nl \<notin> set l \<Longrightarrow> other_line l"
  using length_texts by (auto simp: other_line_def like_def dest!: list_all2_lengthD)

theorem config_posted_witness:
  "\<exists>acts w1. httpd_appcall web_env_sample (data_event 16
       (post_request (bytes ''/config'') (bytes ''HTTP/1.1'') [bytes ''Host: modem''] [] (enc_form (config_form config_sample)))
       (length (post_request (bytes ''/config'') (bytes ''HTTP/1.1'') [bytes ''Host: modem''] []
         (enc_form (config_form config_sample))))) web_sample = Some (acts, w1) \<and>
     g_config (app w1) = config_sample \<and> msg_id (gmsg (app w1)) = 100"
proof -
  let ?req = "post_request (bytes ''/config'') (bytes ''HTTP/1.1'') [bytes ''Host: modem''] [] (enc_form (config_form config_sample))"
  let ?ts = "map Chr (bytes ''rate '') @ [Var ''D07'']"
  let ?w = "web_sample\<lparr>app := (app web_sample)\<lparr>g_config := config_sample\<rparr>\<rparr>"
  have b: "bytes ''rate @D07'' = bytes ''rate '' @ 0x40 # bytes ''D07''" "length (bytes ''rate @D07'') = 9"
    "length (bytes ''rate '') = 5" "list_all (\<lambda>c. c \<noteq> 0x40) (bytes ''rate '')"
    by code_simp+
  have v: "map_of (var_table web_env_sample ?w) ''D07'' = Some (dec (sint (maxrate config_sample)))"
    by (simp add: var_table_def Let_def)
  have pg: "config_page web_env_sample 16 config_sample ?ts web_sample"
    using b dec_nonzero length_dec_sint[of "maxrate config_sample"] sample_junk
    by (simp add: config_page_def v list_all_iff) (simp add: web_env_sample_def web_pages_sample_def b)
  have c: "bytes ''Host: modem'' \<noteq> []" "length (bytes ''Host: modem'') < 16" "ISO_cr \<notin> set (bytes ''Host: modem'')"
    "ISO_nl \<notin> set (bytes ''Host: modem'')" "ISO_nl \<notin> set (bytes ''HTTP/1.1'')"
    by code_simp+
  then have h: "list_all other_line [bytes ''Host: modem'']" by (simp add: other_line_short)
  have l: "length (enc_form (config_form config_sample)) \<le> MAX_BODY_LEN" "length ?req < 1000"
    by code_simp+
  have r: "length ?req < 65536" using l(2) by (rule less_trans) simp
  show ?thesis
    using config_posted[OF web_sample_ok(1) pg _ _ _ _ c(5) h _ l(1) refl r, of "[]"]
    by (auto simp: web_sample_sel)
qed

end
