(* ===== verification/Web_Server.thy ===== *)
theory Web_Server
  imports Web_Post
begin

text \<open>
  Several connections on one server.  Each has its own \<open>struct httpd_state\<close> (\<open>uip_conn->appstate\<close>); the
  buffers for the body, the boundary, the file and its name, and everything about an upload, are global and shared.
\<close>

section \<open>Connections\<close>

record httpd_state =
  s_state :: http_state
  s_file :: fs_file
  s_count :: u16
  s_dataptr :: "u8 list"
  s_count_rom :: u16
  s_dataptr_rom :: nat
  s_method :: u8
  s_uri_len :: u8
  s_uri :: "u8 list"
  s_body_i :: u16
  s_body_len :: u32
  s_boundary_len :: u8
  s_boundary_match :: u8
  s_prev_ch :: u8
  s_expect_iso_nl :: bool
  s_content_len_match :: u8
  s_content_type_match :: u8
  s_content_type_appl_match :: u8
  s_filename_match :: u8
  s_error :: bool

definition load_hs :: "httpd_state \<Rightarrow> 'a httpd_scheme \<Rightarrow> 'a httpd_scheme" where
  "load_hs c w = w\<lparr>hstate := s_state c, hfile := s_file c, hcount := s_count c, dataptr := s_dataptr c,
     count_rom := s_count_rom c, dataptr_rom := s_dataptr_rom c, hmethod := s_method c, uri_len := s_uri_len c,
     uri := s_uri c, body_i := s_body_i c, body_len := s_body_len c, boundary_len := s_boundary_len c,
     boundary_match := s_boundary_match c, prev_ch := s_prev_ch c, expect_iso_nl := s_expect_iso_nl c,
     content_len_match := s_content_len_match c, content_type_match := s_content_type_match c,
     content_type_appl_match := s_content_type_appl_match c, filename_match := s_filename_match c,
     herror := s_error c\<rparr>"

definition save_hs :: "'a httpd_scheme \<Rightarrow> httpd_state" where
  "save_hs w = \<lparr>s_state = hstate w, s_file = hfile w, s_count = hcount w, s_dataptr = dataptr w,
     s_count_rom = count_rom w, s_dataptr_rom = dataptr_rom w, s_method = hmethod w, s_uri_len = uri_len w,
     s_uri = uri w, s_body_i = body_i w, s_body_len = body_len w, s_boundary_len = boundary_len w,
     s_boundary_match = boundary_match w, s_prev_ch = prev_ch w, s_expect_iso_nl = expect_iso_nl w,
     s_content_len_match = content_len_match w, s_content_type_match = content_type_match w,
     s_content_type_appl_match = content_type_appl_match w, s_filename_match = filename_match w,
     s_error = herror w\<rparr>"

lemma load_save [simp]: "load_hs (save_hs w) w = w"
  by (cases w) (simp add: load_hs_def save_hs_def)

lemma save_load [simp]: "save_hs (load_hs c w) = c"
  by (cases c) (simp add: load_hs_def save_hs_def)

record 'h server =
  conns :: "nat \<Rightarrow> httpd_state"
  globals :: "'h web"

text \<open>The IP stack calls the server for the connection \<open>i\<close>: \<open>hs\<close> points to its state.\<close>

definition current :: "'h server \<Rightarrow> nat \<Rightarrow> 'h web" where
  "current s i = (load_hs (conns s i) (globals s))\<lparr>hs_id := i\<rparr>"

definition serve ::
  "'h web_env \<Rightarrow> nat \<Rightarrow> uip_event \<Rightarrow> 'h server \<Rightarrow> (uip_action list \<times> 'h server) option" where
  "serve env i ev s =
     map_option (\<lambda>(acts, w). (acts, \<lparr>conns = (conns s)(i := save_hs w), globals = w\<rparr>))
       (httpd_appcall env ev (current s i))"

section \<open>The invariant\<close>

definition conn_wf :: "httpd_state \<Rightarrow> bool" where
  "conn_wf c \<longleftrightarrow> length (s_uri c) = MAX_URI_LEN + 4 \<and> unat (s_uri_len c) \<le> MAX_URI_LEN \<and>
     unat (s_body_i c) \<le> unat (s_body_len c) \<and> unat (s_body_len c) \<le> MAX_BODY_LEN \<and>
     unat (s_boundary_len c) \<le> MAX_BOUNDARY_LEN \<and> unat (s_content_len_match c) \<le> 16 \<and>
     unat (s_content_type_match c) \<le> 44 \<and> unat (s_filename_match c) \<le> 9 \<and>
     (s_state c = HTTP_METHOD \<longrightarrow> \<not> s_expect_iso_nl c)"

definition shared_wf :: "'h web \<Rightarrow> bool" where
  "shared_wf w \<longleftrightarrow> length (boundary_buf w) = MAX_BOUNDARY_LEN \<and> length (body_buf w) = MAX_BODY_LEN + 4 \<and>
     length (file_buff w) = 4096 \<and> length (g_name w) = 30 \<and> length (form_var w) = 40 \<and>
     length (submit_buf w) = 15 \<and> length (Vxy w) = 10 \<and>
     (g_filedownload w \<longrightarrow> unat (upload_file_length w) < 4096)"

definition server_wf :: "'h server \<Rightarrow> bool" where
  "server_wf s \<longleftrightarrow> shared_wf (globals s) \<and> (\<forall>i. conn_wf (conns s i))"

text \<open>
  What a call works on: the connection loaded into the globals.  \<open>at_rest\<close> is what holds between two
  calls, \<open>in_call\<close> what holds while the parser or a handler runs.
\<close>

definition in_call :: "'h web \<Rightarrow> bool" where
  "in_call w \<longleftrightarrow> http_inv w \<and> length (form_var w) = 40 \<and> length (submit_buf w) = 15 \<and> length (Vxy w) = 10 \<and>
     (hstate w = HTTP_METHOD \<longrightarrow> \<not> expect_iso_nl w)"

definition at_rest :: "'h web \<Rightarrow> bool" where
  "at_rest w \<longleftrightarrow> in_call w \<and> (g_filedownload w \<longrightarrow> unat (upload_file_length w) < 4096)"

lemma at_rest_load: "server_wf s \<Longrightarrow> at_rest (current s i)"
  by (simp add: current_def server_wf_def at_rest_def in_call_def shared_wf_def conn_wf_def load_hs_def http_inv_defs)

lemma at_rest_save: "at_rest w \<Longrightarrow> shared_wf w \<and> conn_wf (save_hs w)"
  by (simp add: at_rest_def in_call_def shared_wf_def conn_wf_def save_hs_def http_inv_defs)

section \<open>Pages\<close>

text \<open>What only pages and handlers change does not matter.\<close>

lemma in_call_upd [simp]:
  "in_call (w\<lparr>hfile := f\<rparr>) = in_call w" "in_call (w\<lparr>dataptr := d\<rparr>) = in_call w"
  "in_call (w\<lparr>hcount := n\<rparr>) = in_call w" "in_call (w\<lparr>count_rom := n\<rparr>) = in_call w"
  "in_call (w\<lparr>dataptr_rom := r\<rparr>) = in_call w" "in_call (w\<lparr>app := a\<rparr>) = in_call w"
  "in_call (w\<lparr>web_logged_in := b\<rparr>) = in_call w" "in_call (w\<lparr>reboot_execute := b\<rparr>) = in_call w"
  "in_call (w\<lparr>reboot_timer := t\<rparr>) = in_call w" "in_call (w\<lparr>upload_busy := b\<rparr>) = in_call w"
  "in_call (w\<lparr>burns := bs\<rparr>) = in_call w"
  by (simp_all add: in_call_def http_inv_defs)

lemma in_call_form [simp]: "length f = 40 \<Longrightarrow> length (form_var w) = 40 \<Longrightarrow> in_call (w\<lparr>form_var := f\<rparr>) = in_call w"
  by (simp add: in_call_def http_inv_defs)

text \<open>\<open>kept w w1\<close>: the upload variables are as before, and so is \<open>in_call\<close>.\<close>

definition kept :: "'h web \<Rightarrow> 'h web \<Rightarrow> bool" where
  "kept w w1 \<longleftrightarrow> g_filedownload w1 = g_filedownload w \<and> upload_file_length w1 = upload_file_length w \<and>
     burns w1 = burns w \<and> (in_call w \<longrightarrow> in_call w1)"

lemma kept_refl [simp]: "kept w w"
  by (simp add: kept_def)

lemma kept_trans: "kept w w1 \<Longrightarrow> kept w1 w2 \<Longrightarrow> kept w w2"
  by (simp add: kept_def)

lemma kept_upd [simp]:
  "kept w (w1\<lparr>hfile := f\<rparr>) = kept w w1" "kept w (w1\<lparr>dataptr := d\<rparr>) = kept w w1"
  "kept w (w1\<lparr>hcount := n\<rparr>) = kept w w1" "kept w (w1\<lparr>count_rom := n\<rparr>) = kept w w1"
  "kept w (w1\<lparr>dataptr_rom := r\<rparr>) = kept w w1" "kept w (w1\<lparr>app := a\<rparr>) = kept w w1"
  "kept w (w1\<lparr>web_logged_in := b\<rparr>) = kept w w1" "kept w (w1\<lparr>reboot_execute := b\<rparr>) = kept w w1"
  "kept w (w1\<lparr>reboot_timer := t\<rparr>) = kept w w1" "kept w (w1\<lparr>upload_busy := b\<rparr>) = kept w w1"
  "kept (w\<lparr>hcount := n\<rparr>) w1 = kept w w1" "kept (w\<lparr>dataptr := d\<rparr>) w1 = kept w w1"
  by (simp_all add: kept_def)

lemma fs_open_kept: "fs_open env n w = Some (b, w1) \<Longrightarrow> kept w w1"
  by (auto simp: fs_open_def split: option.splits if_splits)

lemma build_kept: "web_build_dyn env mss st w = Some w1 \<Longrightarrow> kept w w1"
  by (auto simp: web_build_dyn_def Let_def split: option.splits)

lemma send_file_kept [simp]: "kept w (send_file w1) = kept w w1"
  by (simp add: send_file_def)

lemma open_or_404_kept: "open_or_404 env n w = Some w1 \<Longrightarrow> kept w w1"
  by (auto simp: open_or_404_def split: option.splits prod.splits bool.splits
      dest: fs_open_kept intro: kept_trans)

lemma select_page_kept: "web_select_page env mss n w = Some w1 \<Longrightarrow> kept w w1"
  by (auto simp: web_select_page_def split: option.splits if_splits dest!: open_or_404_kept
      intro: kept_trans dest: build_kept)

lemma send_complete_kept [simp]: "kept w (web_send_complete w1) = kept w w1"
  by (simp add: web_send_complete_def)

lemma status_code_kept: "build_status_code env n w = Some w1 \<Longrightarrow> kept w w1"
  by (auto simp: build_status_code_def dest: fs_open_kept)

section \<open>Handlers\<close>

lemma kept_form: "length f = length (form_var w) \<Longrightarrow> kept w (w\<lparr>form_var := f\<rparr>)"
  by (auto simp: kept_def in_call_def http_inv_defs)

lemma form_var_kept: "find_form_var n w = (b, w1) \<Longrightarrow> kept w w1"
  by (auto simp: find_form_var_def split: option.splits intro!: kept_form)

lemma length_upper [simp]: "length (str_conv_to_upper_case xs) = length xs"
  by (induction xs rule: str_conv_to_upper_case.induct) auto

lemma upper_kept [simp]: "kept w (upper_form_var w)"
  by (simp add: upper_form_var_def kept_form)

lemma upper_keeps: "kept w w1 \<Longrightarrow> kept w (upper_form_var w1)"
  by (rule kept_trans[OF _ upper_kept])

lemma set_config_kept: "kept w (set_config n u w)"
  by (auto simp: set_config_def split: prod.split bool.split dest: form_var_kept)

lemma set_configs_kept: "kept w (set_configs w)"
proof -
  have "kept w (foldl (\<lambda>w (name, upd). set_config name upd w) v fs)" if "kept w v" for fs and v :: "'a web"
    using that
  proof (induction fs arbitrary: v)
    case (Cons f fs)
    then show ?case using kept_trans[OF Cons.prems set_config_kept] by (cases f) simp
  qed simp
  then show ?thesis by (simp add: set_configs_def)
qed

lemmas handler_kept = select_page_kept form_var_kept upper_keeps

lemma text_func_kept: "web_text_func env mss w = Some w1 \<Longrightarrow> kept w w1"
proof (cases "web_logged_in w")
  case True
  obtain b v where f: "find_form_var ''text'' w = (b, v)" by fastforce
  have k: "kept w v" by (rule form_var_kept[OF f])
  assume h: "web_text_func env mss w = Some w1"
  show ?thesis
  proof (cases b)
    case False
    then show ?thesis using h True f k by (auto simp: web_text_func_def when_entered_def dest: select_page_kept intro: kept_trans)
  next
    case True': True
    then obtain x where x: "c_print (c_str (form_var v)) (Vxy v) = Some x"
        "web_select_page env mss (bytes ''postdemo'') (upper_form_var (v\<lparr>Vxy := x\<rparr>)) = Some w1"
      using h True f by (auto simp: web_text_func_def when_entered_def split: option.splits)
    have "length x = length (Vxy v)" using x(1) by (auto simp: c_print_def split: if_splits)
    then have "kept v (v\<lparr>Vxy := x\<rparr>)" by (auto simp: kept_def in_call_def http_inv_defs)
    then show ?thesis using k select_page_kept[OF x(2)] upper_kept by (blast intro: kept_trans)
  qed
qed (auto simp: web_text_func_def when_entered_def dest: select_page_kept)

lemma password_func_kept: "web_password_func env mss w = Some w1 \<Longrightarrow> kept w w1"
proof -
  obtain b v where f: "find_form_var ''password'' w = (b, v)" by fastforce
  have k: "kept w v" by (rule form_var_kept[OF f])
  have "kept w ((v\<lparr>form_var := (form_var v)[n := c]\<rparr>)\<lparr>web_logged_in := True\<rparr>)" for n c
    unfolding kept_upd by (rule kept_trans[OF k kept_form]) simp
  then show "web_password_func env mss w = Some w1 \<Longrightarrow> kept w w1"
    using k by (auto simp: web_password_func_def f password_ok_def Let_def dest!: select_page_kept
        split: bool.splits option.splits intro: kept_trans simp del: kept_upd)
qed

lemma entered_kept:
  assumes "\<And>w1. f w = Some w1 \<Longrightarrow> kept w w1" and "when_entered env mss f w = Some w1"
  shows "kept w w1"
  using assms by (auto simp: when_entered_def dest: select_page_kept split: if_splits)

lemma find_kept: "kept w (snd (find_form_var n w))"
  using form_var_kept[of n w] by (cases "find_form_var n w") simp

lemma led_func_kept: "web_led_func env mss w = Some w1 \<Longrightarrow> kept w w1"
  unfolding web_led_func_def
  by (rule entered_kept) (auto split: prod.splits if_splits dest!: select_page_kept form_var_kept
      intro: kept_trans upper_keeps)

lemma select_func_kept: "web_select_func env mss w = Some w1 \<Longrightarrow> kept w w1"
  unfolding web_select_func_def
proof (rule entered_kept)
  fix w1
  obtain b v where f: "find_form_var ''led'' w = (b, v)" by fastforce
  have "kept w (if b then upper_form_var v else v)"
    using form_var_kept[OF f] upper_keeps[OF form_var_kept[OF f]] by simp
  moreover assume "(case find_form_var ''led'' w of (found, w1) \<Rightarrow>
      let w2 = if found then upper_form_var w1 else w1
      in web_select_page env mss (bytes ''postdemo'') (snd (find_form_var ''dslmode'' w2))) = Some w1"
  ultimately show "kept w w1"
    unfolding f prod.case Let_def by (meson kept_trans find_kept select_page_kept)
qed

lemma plain_funcs_kept:
  "web_check_func env mss w = Some w1 \<Longrightarrow> kept w w1" "web_radio_func env mss w = Some w1 \<Longrightarrow> kept w w1"
  unfolding web_check_func_def web_radio_func_def
  by (rule entered_kept, erule select_page_kept[THEN kept_trans[OF find_kept]], assumption)+

lemma config_func_kept: "web_dslconfig_func env mss w = Some w1 \<Longrightarrow> kept w w1"
  unfolding web_dslconfig_func_def
  by (rule entered_kept) (auto dest!: select_page_kept intro: kept_trans set_configs_kept)

lemma upload_done_kept: "web_upload_func_done env mss w = Some w1 \<Longrightarrow> kept w w1"
  by (auto simp: web_upload_func_done_def release_updown_load_def dest!: select_page_kept split: if_splits)

lemma post_func_kept: "fs_post_func n = Some f \<Longrightarrow> f env mss w = Some w1 \<Longrightarrow> kept w w1"
  by (auto simp: fs_post_func_def func_dir_def split: if_splits
      dest: text_func_kept password_func_kept led_func_kept select_func_kept plain_funcs_kept config_func_kept
        upload_done_kept)

section \<open>Requests\<close>

lemma split_query_kept: "kept w (split_query w)"
proof -
  define j where "j = length (takeWhile (\<lambda>c. c \<noteq> 0x3f) (take (unat (uri_len w)) (uri w)))"
  define q where "q = drop (Suc j) (take (unat (uri_len w)) (uri w))"
  have s: "split_query w = (if hmethod w = ISO_G \<and> j < unat (uri_len w)
      then w\<lparr>uri := (uri w)[j := 0], hmethod := ISO_P, body_buf := buf_put 0 (q @ [0]) (body_buf w),
             body_i := of_nat (length q), body_len := of_nat (length q)\<rparr> else w)"
    by (simp add: split_query_def Let_def j_def q_def)
  have "in_call (split_query w)" if "in_call w"
  proof -
    have "length q \<le> 80" using that by (auto simp: in_call_def http_inv_defs q_def)
    then have "unat (of_nat (length q) :: u16) = length q" "unat (of_nat (length q) :: u32) = length q"
      "length q \<le> 1000" by (simp_all add: unat_of_nat)
    then show ?thesis using that unfolding s by (simp add: in_call_def http_inv_defs)
  qed
  then show ?thesis by (simp add: kept_def s)
qed

lemma answer_kept: "answer_method env mss w = Some w1 \<Longrightarrow> kept w w1"
  by (auto simp: answer_method_def split: if_splits option.splits
      dest: select_page_kept status_code_kept post_func_kept)

text \<open>Ending an upload leaves the buffers as long as they are, and no upload under way.\<close>

lemma burn_in_call [simp]:
  "in_call (rt_burnapp spi b p t w) = in_call w" "g_filedownload (rt_burnapp spi b p t w) = g_filedownload w"
  by (simp_all add: rt_burnapp_def split: option.split)

lemma length_image_info: "length (image_info n) = 4096"
  by (simp add: image_info_def)

lemma in_call_buff: "length b = 4096 \<Longrightarrow> in_call w \<Longrightarrow> in_call (w\<lparr>file_buff := b\<rparr>)"
  by (simp add: in_call_def http_inv_defs)

lemma in_call_off: "in_call w \<Longrightarrow> in_call (w\<lparr>g_filedownload := False\<rparr>)"
  by (simp add: in_call_def http_inv_defs)

lemma in_call_length: "in_call w \<Longrightarrow> length (file_buff w) = 4096"
  by (simp add: in_call_def http_inv_defs)

lemma pad_in_call: "pad_page w = Some w1 \<Longrightarrow> in_call w \<Longrightarrow> in_call w1 \<and> g_filedownload w1 = g_filedownload w"
  by (auto simp: pad_page_def Let_def in_call_length intro!: in_call_buff split: if_splits)

lemma finish_in_call:
  assumes "finish_upload spi w = Some w1" and "in_call w"
  shows "in_call w1 \<and> \<not> g_filedownload w1"
proof (cases "g_filedownload w")
  case True
  let ?w = "w\<lparr>g_filedownload := False\<rparr>"
  obtain v where v: "in_call v" "\<not> g_filedownload v"
      "w1 = (if g_filetype v = 1
             then let info = image_info (g_totalpage v * 4096 + upload_file_length v)
                  in rt_burnapp spi info 0 5 (v\<lparr>file_buff := info\<rparr>) else v)"
  proof (cases "upload_file_length w = 0")
    case True
    then show ?thesis using that[of ?w] assms(1) \<open>g_filedownload w\<close> in_call_off[OF assms(2)]
      by (simp add: finish_upload_def)
  next
    case False
    then obtain p where p: "pad_page ?w = Some p"
      using assms(1) True by (cases "pad_page ?w") (auto simp: finish_upload_def)
    show ?thesis
      using that[of "rt_burnapp spi (file_buff p) (g_totalpage p) (g_filetype p) p"] pad_in_call[OF p in_call_off[OF assms(2)]]
        assms(1) True False p by (simp add: finish_upload_def)
  qed
  then show ?thesis by (auto simp: Let_def length_image_info intro!: in_call_buff)
qed (use assms in \<open>auto simp: finish_upload_def\<close>)

lemma handle_kept:
  assumes "handle_request env mss w = Some w1"
  shows "\<exists>v. finish_upload (spi_found env) w = Some v \<and> kept v w1"
proof -
  obtain v where v: "finish_upload (spi_found env) w = Some v"
    using assms by (auto simp: handle_request_def split: option.splits)
  have u: "kept v (split_query (v\<lparr>uri := (uri v)[n := c]\<rparr>))" for n c
    by (rule kept_trans[OF _ split_query_kept]) (simp add: kept_def in_call_def http_inv_defs)
  have "kept v w1"
  proof (cases "uri_len v = 0 \<or> herror v")
    case True
    then show ?thesis using assms v by (auto simp: handle_request_def dest: status_code_kept)
  next
    case False
    then have "answer_method env mss (split_query (v\<lparr>uri := (uri v)[unat (uri_len v) := 0]\<rparr>)) = Some w1"
      using assms v by (auto simp: handle_request_def arr_set_def split: if_splits)
    then show ?thesis by (rule kept_trans[OF u answer_kept])
  qed
  with v show ?thesis by blast
qed

lemma handle_in_call:
  assumes "handle_request env mss w = Some w1" and "in_call w"
  shows "at_rest w1"
  using handle_kept[OF assms(1)] finish_in_call[OF _ assms(2)] by (auto simp: at_rest_def kept_def)

lemma steps_more:
  "http_uri_step c w = Some w1 \<Longrightarrow> httpd.more w1 = httpd.more w"
  "http_body_step c w = Some w1 \<Longrightarrow> httpd.more w1 = httpd.more w"
  "http_boundary_step c w = Some w1 \<Longrightarrow> httpd.more w1 = httpd.more w"
  by (auto simp: http_uri_step_def http_body_step_def http_boundary_step_def arr_set_def arr_get_def
      split: if_split_asm option.split_asm)

lemma match_more:
  "match_length c w = Some w1 \<Longrightarrow> httpd.more w1 = httpd.more w"
  "match_upload c w = Some w1 \<Longrightarrow> httpd.more w1 = httpd.more w"
  "close_boundary w = Some w1 \<Longrightarrow> httpd.more w1 = httpd.more w"
  "httpd.more (match_appl c w) = httpd.more w"
  "match_filename c j w = Some (j1, w1) \<Longrightarrow> httpd.more w1 = httpd.more w"
  by (clarsimp simp: http_steps split: if_split_asm option.split_asm)+

lemma header_more: "http_header_step c w = Some (c1, w1) \<Longrightarrow> httpd.more w1 = httpd.more w"
  unfolding http_header_step_def Let_def
  by (clarsimp split: if_split_asm option.split_asm) (auto dest!: match_more(1-3) simp: arr_set_def split: if_splits)

lemma burn_more [simp]: "httpd.more (rt_burnapp spi b p t w) = httpd.more w"
  by (simp add: rt_burnapp_def split: option.split)

lemma upload_file_more [simp]: "httpd.more (upload_file w) = httpd.more w"
  by (simp add: upload_file_def web_upload_init_def reserve_updown_load_def Let_def)

lemma multi_more: "http_multi_step c j w = Some (j1, w1) \<Longrightarrow> httpd.more w1 = httpd.more w"
  by (auto simp: http_multi_step_def match_more(4) split: option.splits if_splits dest!: match_more(5))

lemma store_more: "upload_store spi c w = Some w1 \<Longrightarrow> httpd.more w1 = httpd.more w"
  by (auto simp: upload_store_def arr_set_def Let_def split: if_splits option.splits)

lemma upload_more: "http_upload_step spi c w = Some w1 \<Longrightarrow> httpd.more w1 = httpd.more w"
  by (auto simp: http_upload_step_def split: if_splits option.splits dest!: store_more)

lemma char_more: "http_char spi c s = Some s1 \<Longrightarrow> httpd.more (snd s1) = httpd.more (snd s)"
  by (cases s) (auto simp: http_char_def split: if_splits http_state.splits
      dest!: steps_more header_more multi_more upload_more)

lemma bytes_more: "http_bytes spi bs s = Some s1 \<Longrightarrow> httpd.more (snd s1) = httpd.more (snd s)"
  by (induction bs arbitrary: s) (auto split: option.splits dest: char_more)

lemma bytes_state:
  "http_bytes spi bs s = Some s1 \<Longrightarrow> hstate (snd s) \<noteq> HTTP_METHOD \<Longrightarrow> hstate (snd s1) \<noteq> HTTP_METHOD"
proof (induction bs arbitrary: s)
  case (Cons c bs)
  then obtain s2 where s2: "http_char spi c s = Some s2" "http_bytes spi bs s2 = Some s1"
    by (auto split: option.splits)
  then have "hstate (snd s2) \<noteq> HTTP_METHOD"
    using http_char_state[of spi c "fst s" "snd s" "fst s2" "snd s2"] Cons.prems(2) by auto
  with Cons.IH s2(2) show ?case by blast
qed simp

lemma more_fields:
  assumes "httpd.more w1 = httpd.more (w :: 'h web)"
  shows "form_var w1 = form_var w" "submit_buf w1 = submit_buf w" "Vxy w1 = Vxy w"
  using assms by (cases w; cases w1; simp)+

section \<open>One call\<close>

text \<open>A segment of data, as the parser takes it.\<close>

definition event_ok :: "uip_event \<Rightarrow> 'a httpd_scheme \<Rightarrow> bool" where
  "event_ok ev w \<longleftrightarrow> (uip_newdata ev \<longrightarrow> unat (uip_len ev) \<le> length (uip_appdata ev) \<and>
     (hstate w = HTTP_METHOD \<longrightarrow> 5 \<le> unat (uip_len ev)))"

lemma process_in_call:
  assumes "http_process env ev w = Some w1" and "at_rest w" and "event_ok ev w" and "uip_newdata ev"
  shows "in_call w1 \<and> (hstate w1 \<noteq> HTTP_END \<longrightarrow> at_rest w1)"
proof -
  obtain n v where st: "http_start (uip_appdata ev) w = (n, v)" by fastforce
  have w: "in_call w" "http_inv w" using assms(2) by (simp_all add: at_rest_def in_call_def)
  have ok: "segment_ok ev w" using assms(3,4) w by (auto simp: event_ok_def segment_ok_def in_call_def)
  have v: "http_inv v" "httpd.more v = httpd.more w" "hstate v \<noteq> HTTP_METHOD"
    using http_start_inv[OF w(2), of "uip_appdata ev"] st by (auto simp: http_start_def split: if_splits)
  obtain s where s: "http_bytes (spi_found env) (drop n (take (unat (uip_len ev)) (uip_appdata ev))) (j_junk env, v) = Some s"
      "w1 = snd s"
    using assms(1) http_process_bytes[OF ok, of env] st by auto
  have i: "http_inv w1"
    using http_bytes_safe[of "(j_junk env, v)", where spi = "spi_found env" and
        bs = "drop n (take (unat (uip_len ev)) (uip_appdata ev))"] v(1) by (simp add: s)
  have h: "hstate w1 \<noteq> HTTP_METHOD" using bytes_state[OF s(1)] v(3) s(2) by simp
  have "httpd.more w1 = httpd.more w" using bytes_more[OF s(1)] v(2) s(2) by simp
  then have "in_call w1" using more_fields[of w1 w] w(1) i h by (simp add: in_call_def)
  then show ?thesis by (auto simp: at_rest_def in_call_def http_inv_def)
qed

lemma newdata_at_rest:
  assumes "on_newdata env ev w = Some w1" and "at_rest w" and "event_ok ev w"
  shows "at_rest w1"
proof (cases "uip_newdata ev")
  case True
  then obtain v where v: "http_process env ev w = Some v"
      "(if hstate v = HTTP_END then handle_request env (uip_mss ev) v else Some v) = Some w1"
    using assms(1) by (auto simp: on_newdata_def split: option.splits)
  note p = process_in_call[OF v(1) assms(2,3) True]
  show ?thesis
  proof (cases "hstate v = HTTP_END")
    case True
    with v(2) p handle_in_call[of env "uip_mss ev" v w1] show ?thesis by simp
  qed (use v(2) p in simp)
qed (use assms in \<open>simp add: on_newdata_def\<close>)

lemma at_rest_kept: "at_rest w \<Longrightarrow> kept w w1 \<Longrightarrow> at_rest w1"
  by (simp add: at_rest_def kept_def)

lemma acked_kept: "on_acked env ev w = Some (acts, w1) \<Longrightarrow> kept w w1"
  by (auto simp: on_acked_def Let_def split: if_splits option.splits
      dest!: build_kept intro: kept_trans)

lemma segment_kept: "send_segment env ev w = Some (acts, w1) \<Longrightarrow> kept w w1"
  by (auto simp: send_segment_def split: if_splits option.splits dest: acked_kept build_kept)

lemma init_at_rest: "at_rest w \<Longrightarrow> at_rest (http_process_init w)"
  by (simp add: at_rest_def in_call_def http_inv_defs http_process_init_def)

lemma appcall_at_rest:
  assumes "httpd_appcall env ev w = Some (acts, w1)" and "at_rest w" and "event_ok ev w"
  shows "at_rest w1"
proof (cases "uip_connected ev \<or> uip_poll ev")
  case True
  then show ?thesis using assms(1,2) init_at_rest[OF assms(2)] at_rest_kept[OF assms(2)]
    by (auto simp: httpd_appcall_def split: if_splits)
next
  case False
  then obtain v where v: "on_newdata env ev w = Some v"
    using assms(1) by (auto simp: httpd_appcall_def split: option.splits)
  have r: "at_rest v" by (rule newdata_at_rest[OF v assms(2,3)])
  then show ?thesis
    using assms(1) False v init_at_rest[of "web_send_complete v"] at_rest_kept[OF r, of "web_send_complete v"]
      at_rest_kept[OF r segment_kept]
    by (auto simp: httpd_appcall_def split: if_splits)
qed

section \<open>The server\<close>

text \<open>
  What the server can get to from the start, where everything but the version text is zero: connections
  are served in any order, with any surroundings, and the other threads change the application in between.
\<close>

definition conn0 :: httpd_state where
  "conn0 = \<lparr>s_state = HTTP_METHOD, s_file = \<lparr>f_dat = [], f_len = 0, f_type = STATIC\<rparr>, s_count = 0, s_dataptr = [],
     s_count_rom = 0, s_dataptr_rom = 0, s_method = 0, s_uri_len = 0, s_uri = replicate 84 0, s_body_i = 0,
     s_body_len = 0, s_boundary_len = 0, s_boundary_match = 0, s_prev_ch = 0, s_expect_iso_nl = False,
     s_content_len_match = 0, s_content_type_match = 0, s_content_type_appl_match = 0, s_filename_match = 0,
     s_error = False\<rparr>"

inductive server_reach :: "'h server \<Rightarrow> bool" where
  start: "shared_wf w \<Longrightarrow> \<not> g_filedownload w \<Longrightarrow> server_reach \<lparr>conns = \<lambda>_. conn0, globals = w\<rparr>"
| serve: "server_reach s \<Longrightarrow> event_ok ev (current s i) \<Longrightarrow> serve env i ev s = Some (acts, s1) \<Longrightarrow>
    server_reach s1"
| others: "server_reach s \<Longrightarrow> server_reach (s\<lparr>globals := (globals s)\<lparr>app := a\<rparr>\<rparr>)"

lemma serve_wf:
  assumes "server_wf s" and "event_ok ev (current s i)" and "serve env i ev s = Some (acts, s1)"
  shows "server_wf s1"
proof -
  let ?w = "current s i"
  obtain w where w: "httpd_appcall env ev ?w = Some (acts, w)" "s1 = \<lparr>conns = (conns s)(i := save_hs w), globals = w\<rparr>"
    using assms(3) by (auto simp: serve_def)
  have "at_rest w" by (rule appcall_at_rest[OF w(1) at_rest_load[OF assms(1)] assms(2)])
  then show ?thesis using at_rest_save[of w] assms(1) w(2) by (simp add: server_wf_def)
qed

lemma server_reach_wf: "server_reach s \<Longrightarrow> server_wf s"
proof (induction rule: server_reach.induct)
  case (start w)
  then show ?case by (simp add: server_wf_def conn_wf_def conn0_def MAX_URI_LEN_def)
next
  case (serve s ev i env acts s1)
  then show ?case using serve_wf by blast
next
  case (others s a)
  then show ?case by (simp add: server_wf_def shared_wf_def)
qed

section \<open>Two requests at a time\<close>

text \<open>A request without body does not touch an upload, but its end ends the upload.\<close>

lemma header_stored:
  assumes "http_header_step c w = Some (c1, w1)" and "hmethod w \<noteq> ISO_P"
  shows "file_stored base old xs w1 = file_stored base old xs w"
  using assms by (auto simp: http_header_step_def file_stored_def split: if_splits)

lemma plain_stored:
  assumes "plain_request w" and "http_char spi c (j, w) = Some (j1, w1)"
  shows "file_stored base old xs w1 = file_stored base old xs w"
proof -
  have u: "http_uri_step c w = Some v \<Longrightarrow> file_stored base old xs v = file_stored base old xs w" for v
    by (auto simp: http_uri_step_def arr_set_def file_stored_def split: if_splits)
  have s: "file_stored base old xs (v\<lparr>hstate := st\<rparr>) = file_stored base old xs v"
    "file_stored base old xs (v\<lparr>herror := e\<rparr>) = file_stored base old xs v"
    "file_stored base old xs (v\<lparr>expect_iso_nl := e\<rparr>) = file_stored base old xs v" for v :: "'a httpd_scheme" and st e
    by (simp_all add: file_stored_def)
  show ?thesis using assms u header_stored[of c w]
    by (auto simp: http_char_def plain_request_def s split: if_splits)
qed

lemma plain_stored_bytes:
  assumes "plain_request w" and "http_bytes spi bs (j, w) = Some s"
  shows "file_stored base old xs (snd s) = file_stored base old xs w"
  using assms
proof (induction bs arbitrary: j w)
  case (Cons c bs)
  then obtain j1 w1 where s: "http_char spi c (j, w) = Some (j1, w1)" "http_bytes spi bs (j1, w1) = Some s"
    by (auto split: option.splits)
  have "plain_request w1" using plain_request_char[OF Cons.prems(1) s(1)] by simp
  then show ?case using Cons.IH[OF _ s(2)] plain_stored[OF Cons.prems(1) s(1)] by simp
qed auto

lemma finish_stored:
  assumes "file_stored base old xs w" and "finish_upload True w = Some w2"
  shows "burns w2 = old @ file_pages base xs @ (if base = 0x100 then [(0x1ff, image_info (of_nat (length xs)))] else [])"
proof -
  let ?w = "w\<lparr>hstate := HTTP_END, upload_file_length := upload_file_length w - of_nat (length ([] :: u8 list)), prev_ch := 0\<rparr>"
  have "file_stored base old (xs @ []) w" using assms(1) by simp
  from finish_written[OF this _ refl, of 0] obtain v where v: "finish_upload True ?w = Some v"
      "burns v = old @ file_pages base xs @ (if base = 0x100 then [(0x1ff, image_info (of_nat (length xs)))] else [])"
    by auto
  have "map_option burns (finish_upload True (w\<lparr>hstate := HTTP_END, prev_ch := 0\<rparr>)) = map_option burns (finish_upload True w)"
    by (auto simp: finish_upload_def pad_page_def rt_burnapp_def Let_def split: option.splits)
  then show ?thesis using v assms(2) by simp
qed

text \<open>Without an upload under way the bytes that are still to come are thrown away.\<close>

lemma appcall_burns:
  assumes "httpd_appcall env ev w = Some (acts, w1)" and "uip_newdata ev" and "\<not> uip_connected ev" and "\<not> uip_poll ev"
    and "http_process env ev w = Some v" and "hstate v = HTTP_END"
  shows "\<exists>u. finish_upload (spi_found env) v = Some u \<and> burns w1 = burns u \<and> g_filedownload w1 = g_filedownload u"
proof -
  obtain x where x: "handle_request env (uip_mss ev) v = Some x"
      "(if uip_closed ev then Some ([], http_process_init (web_send_complete x))
        else if hstate x = HTTP_END then send_segment env ev x else Some ([], x)) = Some (acts, w1)"
    using assms by (auto simp: httpd_appcall_def on_newdata_def split: option.splits)
  obtain u where u: "finish_upload (spi_found env) v = Some u" "kept u x" using handle_kept[OF x(1)] by blast
  have "burns w1 = burns x \<and> g_filedownload w1 = g_filedownload x"
    using x(2) segment_kept[of env ev x acts w1]
    by (auto simp: http_process_init_def web_send_complete_def kept_def split: if_splits)
  then show ?thesis using u by (auto simp: kept_def)
qed

lemma dropped_char:
  assumes "\<not> g_filedownload w" and "hstate w = HTTP_UPLOAD_CONTENT \<or> hstate w = HTTP_END"
    and "http_char spi c (j, w) = Some (j1, w1)"
  shows "burns w1 = burns w \<and> \<not> g_filedownload w1 \<and> (hstate w1 = HTTP_UPLOAD_CONTENT \<or> hstate w1 = HTTP_END)"
  using assms by (auto simp: http_char_def http_upload_step_def upload_store_def split: if_splits option.splits)

lemma dropped_bytes:
  assumes "\<not> g_filedownload w" and "hstate w = HTTP_UPLOAD_CONTENT \<or> hstate w = HTTP_END"
    and "http_bytes spi bs (j, w) = Some s"
  shows "burns (snd s) = burns w \<and> \<not> g_filedownload (snd s)"
  using assms
proof (induction bs arbitrary: j w)
  case (Cons c bs)
  then obtain j1 w1 where s: "http_char spi c (j, w) = Some (j1, w1)" "http_bytes spi bs (j1, w1) = Some s"
    by (auto split: option.splits)
  show ?case using dropped_char[OF Cons.prems(1,2) s(1)] Cons.IH[OF _ _ s(2)] by simp
qed auto

end
