(* ===== verification/Web_Two.thy ===== *)
theory Web_Two
  imports Web_Props Web_Server
begin

text \<open>
  Properties of the server with several connections.
\<close>

text \<open>
  C38: the state of the server is well formed whatever the browsers send.  Connections are served in any order,
  each call with any flags, data and surroundings, and other threads change the settings in between; a
  segment that begins a request has at least the five bytes the parser looks at.  Then the buffers keep their
  sizes, every connection's counters are within them, and an upload under way is at a place inside of the page
  buffer, although all connections write to the same one.
\<close>

theorem server_well_formed:
  assumes "server_reach s"
  shows "server_wf s"
  using assms by (rule server_reach_wf)

text \<open>
  C39: uploading a file is not safe from other requests.  While one connection uploads a file, let another
  one send a GET request.  When the request is complete the server ends the upload: the page that has begun is
  filled up and written, with the block of the length so far if it is the application image.  What the
  first connection still sends of its file is thrown away.
\<close>

theorem upload_ended_by_other:
  assumes "file_stored base old xs (globals s)" and "s_state (conns s i) = HTTP_UPLOAD_CONTENT" and "i \<noteq> j"
    and "server_wf s" and "event_ok ev (current s j)" and "uip_newdata ev" and "\<not> uip_connected ev" and "\<not> uip_poll ev"
    and "plain_request (snd (http_start (uip_appdata ev) (current s j)))" and "spi_found env"
    and "http_process env ev (current s j) = Some w" and "hstate w = HTTP_END"
    and "serve env j ev s = Some (acts, s1)"
  shows "burns (globals s1) = old @ file_pages base xs @
      (if base = 0x100 then [(0x1ff, image_info (of_nat (length xs)))] else []) \<and>
    (\<forall>bs k r. http_bytes True bs (k, current s1 i) = Some r \<longrightarrow> burns (snd r) = burns (globals s1))"
proof -
  obtain n v where st: "http_start (uip_appdata ev) (current s j) = (n, v)" by fastforce
  have seg: "segment_ok ev (current s j)"
    using assms(5,6) at_rest_load[OF assms(4), of j] by (auto simp: event_ok_def segment_ok_def at_rest_def in_call_def)
  obtain s' where s': "http_bytes (spi_found env) (drop n (take (unat (uip_len ev)) (uip_appdata ev))) (j_junk env, v) = Some s'"
      "w = snd s'"
    using assms(11) http_process_bytes[OF seg, of env] st by auto
  have "file_stored base old xs v = file_stored base old xs (globals s)"
    using st by (auto simp: http_start_def current_def load_hs_def file_stored_def split: if_splits)
  then have w: "file_stored base old xs w"
    using plain_stored_bytes[OF _ s'(1)] assms(1,9) st s'(2) by simp
  obtain w1 where w1: "httpd_appcall env ev (current s j) = Some (acts, w1)"
      "s1 = \<lparr>conns = (conns s)(j := save_hs w1), globals = w1\<rparr>"
    using assms(13) by (auto simp: serve_def)
  obtain u where u: "finish_upload True w = Some u" "burns w1 = burns u" "g_filedownload w1 = g_filedownload u"
    using appcall_burns[OF w1(1) assms(6-8,11,12)] assms(10) by auto
  have b: "burns (globals s1) = old @ file_pages base xs @
      (if base = 0x100 then [(0x1ff, image_info (of_nat (length xs)))] else [])"
    using finish_stored[OF w u(1)] u(2) w1(2) by simp
  have off: "\<not> g_filedownload u"
    using u(1) by (auto simp: finish_upload_def pad_page_def rt_burnapp_def Let_def split: if_splits option.splits)
  have "burns (snd r) = burns (globals s1)" if "http_bytes True bs (k, current s1 i) = Some r" for bs k r
    using dropped_bytes[OF _ _ that] off u(3) assms(2,3) w1(2)
    by (simp add: current_def load_hs_def)
  with b show ?thesis by blast
qed

text \<open>Instances: a browser connects; a file is uploaded on connection 0 while connection 1 asks for a page.\<close>

lemma web_sample_shared: "shared_wf web_sample" "\<not> g_filedownload web_sample"
  by (simp_all add: shared_wf_def web_sample_def MAX_BODY_LEN_def MAX_BOUNDARY_LEN_def) code_simp

theorem server_well_formed_witness:
  "\<exists>s1. serve web_env_sample 3 ((no_event 1460)\<lparr>uip_connected := True\<rparr>) \<lparr>conns = \<lambda>_. conn0, globals = web_sample\<rparr> =
     Some ([], s1) \<and> server_wf s1"
proof -
  let ?s = "\<lparr>conns = \<lambda>_. conn0, globals = web_sample\<rparr>" and ?ev = "(no_event 1460)\<lparr>uip_connected := True\<rparr>"
  obtain s1 where s1: "serve web_env_sample 3 ?ev ?s = Some ([], s1)"
    by (simp add: serve_def httpd_appcall_def no_event_def)
  have "server_reach s1"
    by (rule server_reach.serve[OF server_reach.start[OF web_sample_shared] _ s1]) (simp add: event_ok_def no_event_def)
  then show ?thesis using server_well_formed[of s1] s1 by simp
qed

definition busy_sample :: "(u32 \<Rightarrow> u8) server" where
  "busy_sample = (let w = upload_sample\<lparr>upload_file_length := 1, file_buff := 7 # replicate 4095 0\<rparr>
     in \<lparr>conns = (\<lambda>_. conn0)(0 := save_hs w), globals = w\<rparr>)"

lemma index_page:
  assumes "index_htm (pages env) = []"
  shows "\<exists>w1. web_select_page env mss (bytes ''index'') w = Some w1"
proof -
  have "fs_strcmp (bytes ''index'') (bytes ''index.htm'')" "\<not> fs_strcmp (bytes ''index'') (bytes ''status'')"
    by code_simp+
  then show ?thesis
    using assms by (simp add: web_select_page_def open_or_404_def fs_open_def file_dir_def web_build_dyn_def
        build_loop.simps Let_def)
qed

theorem upload_ended_by_other_witness:
  "\<exists>acts s1. serve web_env_sample 1 (data_event 1460 (bytes ''GET /'' @ [ISO_cr]) 6) busy_sample = Some (acts, s1) \<and>
     burns (globals s1) = file_pages 0 [7]"
proof -
  let ?ev = "data_event 1460 (bytes ''GET /'' @ [ISO_cr]) 6"
  let ?w = "current busy_sample 1"
  have d: "bytes ''GET /'' = bytes ''GET '' @ [0x2f]" "length (bytes ''GET '') = 4" by code_simp+
  have g: "file_stored 0 [] [7] (globals busy_sample)"
    by (simp add: file_stored_def busy_sample_def upload_sample_def web_sample_def burn_base_def full_pages_def Let_def)
  have "length (bytes ''--x--'') = 5" by code_simp
  then have wf: "server_wf busy_sample"
    using web_sample_shared(1)
    by (simp add: server_wf_def busy_sample_def shared_wf_def conn_wf_def conn0_def upload_sample_def save_hs_def
        web_sample_def MAX_URI_LEN_def MAX_BOUNDARY_LEN_def Let_def)
  have ok: "event_ok ?ev ?w" by (simp add: event_ok_def data_event_def no_event_def d)
  define v where "v = ?w\<lparr>hmethod := ISO_G, hstate := HTTP_URI, prev_ch := ISO_G\<rparr>"
  have st: "http_start (uip_appdata ?ev) ?w = (4, v)"
    by (simp add: http_start_def data_event_def no_event_def d v_def) (simp add: current_def busy_sample_def load_hs_def conn0_def Let_def)
  have seg: "segment_ok ?ev ?w"
    using ok by (simp add: segment_ok_def event_ok_def data_event_def no_event_def)
      (simp add: current_def busy_sample_def load_hs_def conn0_def Let_def)
  have u: "hstate v = HTTP_URI" "\<not> expect_iso_nl v" "uri_len v = 0" "length (uri v) = 84" "hmethod v = ISO_G" "\<not> herror v"
    by (simp_all add: v_def current_def busy_sample_def load_hs_def conn0_def Let_def)
  obtain w where w: "http_process web_env_sample ?ev ?w = Some w" "hstate w = HTTP_END" "hmethod w = ISO_G"
      "uri_len w = 1" "uri w ! 0 = 0x2f" "length (uri w) = 84" "\<not> herror w" "g_filedownload w = g_filedownload v"
      "upload_file_length w = upload_file_length v" "file_buff w = file_buff v"
    using http_process_bytes[OF seg, of web_env_sample] unfolding st
    by (simp add: data_event_def no_event_def d) (simp add: http_char_def http_uri_step_def u MAX_URI_LEN_def)
  obtain f where f: "finish_upload (spi_found web_env_sample) w = Some f"
    using w(8-10) by (auto simp: finish_upload_def pad_page_def Let_def v_def current_def busy_sample_def load_hs_def)
  have "take 1 ((uri w)[1 := 0]) = [0x2f]" using w(5,6) by (cases "uri w") simp_all
  then have sp: "split_query (f\<lparr>uri := (uri w)[1 := 0]\<rparr>) = f\<lparr>uri := (uri w)[1 := 0]\<rparr>"
    using finish_upload_sel[OF f] w(4) by (simp add: split_query_def Let_def)
  obtain w2 where w2: "handle_request web_env_sample 1460 w = Some w2"
    using f sp finish_upload_sel[OF f] w(3-7) index_page[of web_env_sample 1460 "f\<lparr>uri := (uri w)[1 := 0]\<rparr>"]
    by (auto simp: handle_request_def answer_method_def arr_set_def web_env_sample_def web_pages_sample_def)
  have "\<exists>acts w3. httpd_appcall web_env_sample ?ev ?w = Some (acts, w3)"
    using w(1,2) w2
    by (cases "hstate w2 = HTTP_END") (simp_all add: httpd_appcall_def on_newdata_def send_segment_def data_event_def no_event_def)
  then obtain acts s1 where s1: "serve web_env_sample 1 ?ev busy_sample = Some (acts, s1)"
    by (auto simp: serve_def)
  have "plain_request (snd (http_start (uip_appdata ?ev) ?w))" using st u by (simp add: plain_request_def)
  then have "burns (globals s1) = file_pages 0 [7]"
    using upload_ended_by_other[OF g _ _ wf ok _ _ _ _ _ w(1,2) s1, of 0]
    by (auto simp: data_event_def no_event_def busy_sample_def upload_sample_def save_hs_def web_env_sample_def Let_def)
  with s1 show ?thesis by blast
qed

end
