(* ===== verification/Spec2Isabelle.thy ===== *)
theory Spec2Isabelle
  imports Shdsl_Props Kern_Objects Kern_Thread Kern_Pool Kern_Dataq Kserv_Str Kserv_Fmt Ring_Buffer Web_Two
begin

text \<open>
  A model of the firmware of an SHDSL bridge: an STM32F107 board that runs the RT-Thread kernel, drives a
  PEF24628E modem chip and is configured through a small web server.

  \<^bold>\<open>The parts.\<close>
  The chip is reached through a parallel bus (\<open>Mpi_Bus\<close>).  The driver (\<open>Pef_*\<close>) moves messages
  between the chip and its FIFO, in an interrupt and by polling, through the MPI mailbox or as serial frames, and
  loads the firmware of the chip.  The modem application (\<open>Shdsl*\<close>) builds the messages, sends them under a mutex and waits for the
  acknowledge, and runs a polling thread and a thread that handles what the chip reports; the polling thread hands
  messages over through a mailbox of the kernel.  The web server (\<open>Http*\<close>, \<open>Web_*\<close>) is called by the IP stack with the segments of any
  number of connections; it changes the configuration of the application and writes uploaded firmware to flash.
  The kernel (\<open>Kern*\<close>) provides threads, timers, IPC objects and the heap, and services for memory and strings (\<open>Kserv_*\<close>).

  \<^bold>\<open>Theories and sources\<close> (under \<open>src/\<close>).
  \<^item> \<open>Prelude\<close>: machine integers, byte buffers, lemma collections.  \<open>Queue_Iface\<close>: the locale of a
    bounded queue, interpreted on the receive FIFO (\<open>Pef_Rx\<close>), the mailbox (\<open>Kern_Mailbox\<close>) and the byte ring (\<open>Ring_Buffer\<close>).
  \<^item> \<open>Mpi_Bus\<close>, \<open>Pef_Dev\<close>, \<open>Pef_Sci\<close>, \<open>Pef_Rx\<close>, \<open>Pef_Init\<close>, \<open>Pef_Tx\<close>, \<open>Pef_Download\<close>:
    \<open>utility/shdsl/src/drv_pef24628e_common.c\<close> with its headers.  \<open>Pef_Drv\<close>: the device interface
    \<open>components/drivers/shdsl/pef24628_drv.c\<close>.  \<open>Pef_Tx_Log\<close>: what a transmission puts on the bus.
    \<open>Pef_Marks\<close>: which calls leave an array, and when.  \<open>Pef_Reach\<close>: all states of a device.  \<open>Sample\<close>: chips and devices for the witnesses.
  \<^item> \<open>Idc_Msg\<close>, \<open>Shdsl\<close>, \<open>Shdsl_Init\<close>, \<open>Shdsl_App\<close>: \<open>utility/shdsl/src/rt_shdsl.c\<close>, \<open>configmanage.c\<close> and
    \<open>idc_onlinemessages.h\<close>.  \<open>Shdsl_Props\<close>: the properties.
  \<^item> \<open>Web_Form\<close> (\<open>utility/webserver/miscfun.c\<close> and the search of \<open>httpd.c\<close>), \<open>Web_State\<close> (\<open>httpd.h\<close>), \<open>Web_Page\<close>
    (\<open>fs.c\<close>, \<open>webvar.c\<close>, \<open>webhnd.c\<close>), \<open>Http\<close> (the parser of \<open>httpd.c\<close>, uploads), \<open>Web_Post\<close> (\<open>webpost.c\<close>,
    \<open>httpd_appcall\<close>), \<open>Web_Serve\<close> (a page on its way), \<open>Http_Request\<close> and \<open>Web_Config\<close> (requests as browsers send
    them), \<open>Web_Server\<close> (all connections).  \<open>Web_Props\<close>, \<open>Web_Two\<close>: the properties.
  \<^item> \<open>Kern\<close>, \<open>Kern_Sem\<close>, \<open>Kern_Mutex\<close>, \<open>Kern_Event\<close>, \<open>Kern_Mailbox\<close>, \<open>Kern_Mq\<close>, \<open>Kern_Objects\<close>:
    \<open>src/ipc.c\<close>.  \<open>Kern_Timer\<close>: \<open>src/timer.c\<close>.
    \<open>Kern_Sched\<close>: \<open>src/scheduler.c\<close>, \<open>src/thread.c\<close>, \<open>src/idle.c\<close>, \<open>src/clock.c\<close> and \<open>__rt_ffs\<close> of \<open>src/kservice.c\<close>;
    \<open>Kern_Ready\<close> and \<open>Kern_Life\<close>: its invariant in all states; \<open>Kern_Thread\<close>: its properties, and that it implements the
    threads of \<open>Kern\<close>.
    \<open>Kern_Mem\<close>: \<open>src/mem.c\<close>.  \<open>Kern_Pool\<close>: \<open>src/mempool.c\<close>.
    \<open>Kern_Dataq\<close>: \<open>components/drivers/src/dataqueue.c\<close>, \<open>completion.c\<close>.
    \<open>Kserv_Mem\<close>, \<open>Kserv_Str\<close>, \<open>Kserv_Fmt\<close>: the memory functions, the string functions and the formatted output of
    \<open>src/kservice.c\<close>.
    \<open>Ring_Buffer\<close>: \<open>components/drivers/src/ringbuffer.c\<close>.

  \<^bold>\<open>How the code is modelled.\<close>
  A struct is a record, a C array a list of fixed length, an integer a word of its width, or a number where a proved
  bound excludes the wrap.  A function of the code is a function from state to state; where it can fail to
  return, or leaves an array, its result is an option: the loop that wakes all waiters of an object, for instance, never
  ends on a thread that is not suspended, and the invariants of the objects show that it meets none.  In the driver
  accesses outside an array leave a mark, \<open>oob\<close> for stores and \<open>overread\<close> for reads of the receive FIFO, and
  such a read takes its bytes from \<open>beyond\<close>, which stands for the memory behind the FIFO and may change at any time.  The chip is an arbitrary bus: a state of its own and a
  function for each access.  A call that can block is cut at its scheduling point into a part that returns or blocks and
  a part that runs when the thread is resumed.  The message queue is cut into its critical sections, and
  threads take these steps in any order; the other objects keep interrupts disabled for a whole part.
  Each IPC object is modelled with the threads and without the other objects; the states of a mutex also have a step
  that gives a thread outside of it another priority, while its owner and its waiters keep theirs (\<open>Kern_Mutex\<close>).
  The web server's state is that of one connection with what all connections share; \<open>Web_Server\<close> switches
  connections as the IP stack does.

  \<^bold>\<open>What the lemmas show.\<close>
  \<open>*_wf\<close>, \<open>*_inv\<close>, \<open>*_safe\<close>: an operation keeps the invariant of its component.  \<open>*_sel\<close>, \<open>*_kept\<close>: which
  parts of the state it leaves alone.  \<open>*_reach_*\<close>: the invariant holds in every state the component
  can reach.  \<open>*_queue\<close>, \<open>*_refines\<close>: the operation does to the abstract state (a list of messages, the
  list of blocks of the heap) what the specification says.  \<open>*_returns\<close>: loops end.

  \<^bold>\<open>Bounds and fuel.\<close>
  Waiting for the serial interface is bounded by the code itself, by a counter of 5000000 reads.  \<open>poll_loop\<close> has
  the 99 turns of the code, one \<open>poll_turn\<close> each.  \<open>transfer k\<close> follows \<open>k\<close> acknowledgements; one more than the page has
  tokens is enough, because every segment is non-empty.  \<open>http_loop\<close> ends by a measure, and so does the
  sending of a serial frame.  \<open>dl_blocks\<close>, \<open>mq_drain\<close>, the searches of the heap and \<open>timer_check_loop\<close> are partial
  functions that are proved to return.

  \<^bold>\<open>Parameters.\<close>
  The chip and the flash, the result of each memory allocation, the IP stack (flags, segment size,
  received bytes), the texts of the pages, and the time that passes while a thread sleeps are arguments.

  \<^bold>\<open>Not modelled.\<close>
  The HDLC interface and the monitor protocol of the serial interface, which this configuration compiles out;
  the initialisation of the board and its peripherals, which is register I/O of the vendor library; the IP
  stack, the shell and the file system, which are third-party components; log output and assertions; the names and lists
  of kernel objects; the console and the assertion handler of \<open>src/kservice.c\<close>; loadable modules and the device layer of the kernel, of which the program uses the calls
  into the modem driver only; the generated constants of the message and page files that no modelled function reads.
\<close>

section \<open>Properties of the modem driver\<close>

text \<open>
  C1: memory safety of the driver.  In every state the driver can reach, from the zeroed
  device structure through initialisation, interrupts, polls, reads, writes and
  firmware downloads, with any behaviour of the chip, every FIFO block lies at its own
  132 bytes and holds at most 132, the pointers stay on blocks, and no store has left
  the FIFO memory or the transmit buffer.  Messages of 129 to 132 bytes written in bridge mode are left
  out of these states: they overrun the transmit buffer (C6).  Reads of the FIFO memory: the serial interrupt and
  the read call stay inside; the interrupt handler reads outside exactly when its receive part finds bytes to fetch
  after the firmware was downloaded, while the write block is the last one and holds more than 128 bytes that were not
  read yet, because it looks for the header of the new message behind them.
\<close>

theorem driver_memory_safe:
  fixes b :: "'h bus" and d :: "'h dev"
  assumes "drv_reach b d"
  defines "s \<equiv> REG_GET b MPI_EINT_EN (snd (REG_GET b MPI_EINT d))"
  defines "ista \<equiv> fst (REG_GET b MPI_EINT d) AND fst s"
  defines "e \<equiv> (if ista AND MPI_MPINT_INTSCI \<noteq> 0 then Pef24628e_Sci_IntHandler b (snd s) else snd s)"
  shows "dev_wf d \<and>
    overread (Pef24628e_Sci_IntHandler b d) = overread d \<and>
    (\<forall>n. overread (snd (snd (pef24628_read b n d))) = overread d) \<and>
    (overread (Pef24628e_IntHandler b d) \<longleftrightarrow> overread d \<or>
       uc_reg d \<noteq> 0 \<and> ista AND MPI_MPINT_INTIDC \<noteq> 0 \<and> fst (REG_GET b MPI_EFSTAT e) AND 0x3F \<noteq> 0 \<and>
       bFwDownloaded e \<and> wrI e = 19 \<and> 128 < nBytes (wr_blk e))"
proof -
  note wf = drv_reach_wf[OF assms(1)]
  show ?thesis unfolding e_def ista_def s_def
    by (intro conjI allI wf Sci_IntHandler_overread[OF wf] read_overread[OF wf] IntHandler_overread[OF wf])
qed

lemma driver_memory_safe_witness:
  "dev_wf (Pef24628e_IntHandler ram_bus
     (snd (drv_dev_init ram_bus \<lparr>irq_vector_init = 0, reg_offset = Bank1_PEF_C, sci_clock = 4\<rparr>
        (Some (replicate 132 0)) (snd (Pef24628e_Set_If PEF24628E_IF_MPI (dev_reset chip0))))))"
  by (rule driver_memory_safe[THEN conjunct1], rule drv_reach.interrupt, rule drv_reach.init) (simp_all add: Bank1_PEF_C_def)

text \<open>
  C2: the receive FIFO delivers messages in the order they came in.  Any run of MPI
  receptions and reads from an empty FIFO that never has more than 19 messages waiting
  hands out, in order and byte for byte, a prefix of what was received, and the rest is
  what is still in the FIFO.
\<close>

theorem rx_fifo_order:
  assumes "rx_inv d" and "rx_contents d = []" and "fits (\<lambda>bs. length bs \<le> 132) 19 ops 0"
  shows "stored ops = fst (qrun (mpi_rx_commit b) rx_empty (rx_fetch b) ops d) @
           rx_contents (snd (qrun (mpi_rx_commit b) rx_empty (rx_fetch b) ops d))"
  using assms by (rule rxq.run_prefix)

lemma rx_fifo_order_witness:
  "stored [Store [1, 2], Store [3], Fetch, Store [4, 5, 6], Fetch] =
     fst (qrun (mpi_rx_commit ram_bus) rx_empty (rx_fetch ram_bus)
            [Store [1, 2], Store [3], Fetch, Store [4, 5, 6], Fetch] (dev_sample chip0)) @
     rx_contents (snd (qrun (mpi_rx_commit ram_bus) rx_empty (rx_fetch ram_bus)
            [Store [1, 2], Store [3], Fetch, Store [4, 5, 6], Fetch] (dev_sample chip0)))"
  by (rule rx_fifo_order) (simp_all add: dev_sample_rx)

text \<open>
  C3: a message sent through the MPI mailbox goes out whole or not at all.  Whatever the
  chip does, a call that reports the length of the message has written exactly its
  bytes to the ingress register, in order, followed by the send command; any other
  result is 0, and then not a single register was written.
\<close>

theorem mpi_send_all_or_nothing:
  fixes b :: "'h bus" and d :: "('h \<times> (u32 \<times> u8) list) dev"
  assumes "bInit d" and "ActiveIf d = PEF24628E_IF_MPI" and "\<not> bSendIdcViaSciBridge d"
    and "uc_reg d = Bank1_PEF_C" and "length (TxBuf d) = 132" and "0 < length bs" and "length bs \<le> 132"
  defines "r \<equiv> Pef24628e_Send_IDC_Msg (logged b) bs d"
  shows "(fst r = int (length bs) \<and> wlog (snd r) = wlog d @ mpi_msg_writes bs) \<or>
         (fst r = 0 \<and> wlog (snd r) = wlog d)"
proof -
  have "buf_get 0 (length bs) (TxBuf (tx_put 0 bs d)) = bs"
    using assms(5,7) by (simp add: tx_put_def buf_get_put_same)
  moreover have "uc_reg (tx_put 0 bs d) = Bank1_PEF_C" "wlog (tx_put 0 bs d) = wlog d"
      "ActiveIf (tx_put 0 bs d) = 1"
    using assms(2,4) by (simp_all add: tx_put_def)
  ultimately show ?thesis
    using assms(1,3,6,7) idc_send_mpi_log [of "tx_put 0 bs d" "length bs" b 0]
    by (auto simp: r_def Pef24628e_Send_IDC_Msg_def Let_def case_prod_beta)
qed

lemma mpi_send_all_or_nothing_witness:
  "let r = Pef24628e_Send_IDC_Msg (logged ram_bus) [0x21, 0x22, 0xFF, 0x07] (dev_sample (chip0, []))
   in (fst r = 4 \<and> wlog (snd r) = mpi_msg_writes [0x21, 0x22, 0xFF, 0x07]) \<or> (fst r = 0 \<and> wlog (snd r) = [])"
  using mpi_send_all_or_nothing [of "dev_sample (chip0, [])" "[0x21, 0x22, 0xFF, 0x07]" ram_bus]
  by (simp add: Let_def wlog_def)

text \<open>
  C4: a frame over the serial interface.  Whenever the transmission reports success, the
  writes on the bus are those of the specification: the bytes of the frame in order, in
  pieces of 64, every piece but the last marked as to be continued, the last one marked
  as the end of the frame, and the transmit interrupt acknowledged after each.
\<close>

theorem sci_frame_on_the_bus:
  assumes "uc_reg d = Bank1_PEF_C" and "0 < TxnBytes d" and "TxnSent d + TxnBytes d \<le> length (TxBuf d)"
    and "fst (sci_tx_frame (logged b) d)"
  shows "wlog (snd (sci_tx_frame (logged b) d)) =
      wlog d @ sci_frame_writes (buf_get (TxnSent d) (TxnBytes d) (TxBuf d)) \<and>
    written (reg_addr SCI_INGRESS) (sci_frame_writes (buf_get (TxnSent d) (TxnBytes d) (TxBuf d))) =
      buf_get (TxnSent d) (TxnBytes d) (TxBuf d)"
  using sci_tx_frame_log [OF assms] sci_frame_bytes by blast

text \<open>A chip that is always ready to take the next piece.\<close>

definition ready_bus :: "unit bus" where
  "ready_bus = \<lparr>bus_rd = \<lambda>a h. (0x20, h), bus_wr = \<lambda>a v h. h\<rparr>"

lemma poll_reg_ready:
  "0 < n \<Longrightarrow> p (fst (REG_GET b r d)) \<Longrightarrow> poll_reg b r p n d = (n, snd (REG_GET b r d))"
  by (simp add: poll_reg.simps case_prod_beta)

lemma REG_GET_ready: "fst (REG_GET (logged ready_bus) r d) = 0x20"
  by (simp add: REG_GET_def MPI_ReadReg_def logged_def ready_bus_def case_prod_beta)

lemma sci_frame_ready: "fst (sci_tx_frame (logged ready_bus) d)"
proof (induction "logged ready_bus" d rule: sci_tx_frame.induct)
  case (1 d)
  show ?case
    by (subst sci_tx_frame.simps)
       (use 1 in \<open>simp add: Let_def case_prod_beta poll_reg_ready REG_GET_ready SCI_TX_POLL_MAX_def sci_bits\<close>)
qed

lemma sci_frame_on_the_bus_witness:
  "let d = (dev_sample ((), []))\<lparr>TxnBytes := 100, TxnSent := 0\<rparr>
   in wlog (snd (sci_tx_frame (logged ready_bus) d)) = sci_frame_writes (replicate 100 0)"
  using sci_frame_on_the_bus [of "(dev_sample ((), []))\<lparr>TxnBytes := 100, TxnSent := 0\<rparr>" ready_bus]
  by (simp add: Let_def sci_frame_ready buf_get_def wlog_def)

text \<open>
  The receive interrupt appends at most one message.  It takes four times the word
  count of the status register, but at most 132, bytes from the egress register and
  appends them to the queue as one message; with a count of 0 the queue stays as it is.
\<close>

theorem rx_interrupt_appends:
  fixes b :: "'h bus" and d :: "'h dev"
  assumes "rx_inv d" and "pend_count d < 19"
  defines "s \<equiv> REG_GET b MPI_EFSTAT d"
  defines "n \<equiv> min 132 (4 * unat (fst s AND 0x3F))"
  shows "rx_contents (Pef24628e_Mpi_RxInt b d) =
      rx_contents d @ (if n = 0 then [] else [fst (REG_GET_n b MPI_EGRESS n (snd s))]) \<and>
    rx_inv (Pef24628e_Mpi_RxInt b d)"
  using Mpi_RxInt_queue [OF assms(1,2), of b] unfolding s_def n_def by blast

lemma rx_interrupt_appends_witness:
  "rx_contents (Pef24628e_Mpi_RxInt ram_bus (dev_sample (chip0(reg_addr MPI_EFSTAT := 2)))) =
     [replicate 8 0]"
proof -
  let ?d = "dev_sample (chip0(reg_addr MPI_EFSTAT := 2))"
  have s: "REG_GET ram_bus MPI_EFSTAT ?d = (2, ?d)"
    by (simp add: REG_GET_def MPI_ReadReg_def ram_bus_def mpi_addr_base del: reg_off.simps flip: reg_addr_def)
  have n: "fst (REG_GET_n ram_bus MPI_EGRESS 8 ?d) = replicate 8 0"
    by (simp add: REG_GET_n_def rd_n_ram mpi_addr_base reg_addr_inj chip0_def
        del: reg_off.simps flip: reg_addr_def)
  show ?thesis
    using rx_interrupt_appends [OF dev_sample_rx(1), of "chip0(reg_addr MPI_EFSTAT := 2)" ram_bus]
    by (simp add: dev_sample_rx pend_count_def s n)
qed

text \<open>
  A receive FIFO that was once full cannot be emptied by reading.  After any number of
  reads up to 20 the full flag is still set, so the poll goes on to report a message;
  after the 20th read every block is empty and the read pointer is back where it was.
\<close>

theorem full_fifo_stays_full:
  fixes b :: "'h bus"
  assumes "dev_wf d" and "bInit d" and "bRxFifoFull d" and "n \<le> 20"
  defines "e \<equiv> ((\<lambda>d. snd (rx_fetch b d)) ^^ n) d"
  shows "bRxFifoFull e \<and> \<not> rx_empty e \<and> rdI e = (rdI d + n) mod 20 \<and>
    (n = 20 \<longrightarrow> (\<forall>i < 20. nBytes (RxFifo e ! ((rdI d + i) mod 20)) = 0))"
  using full_drain [OF assms(1-4), of b] unfolding e_def by (auto simp: rx_empty_def)

lemma full_fifo_stays_full_witness:
  "bRxFifoFull (((\<lambda>d. snd (rx_fetch ram_bus d)) ^^ 20) ((dev_sample chip0)\<lparr>bRxFifoFull := True\<rparr>))"
  using full_fifo_stays_full [of "(dev_sample chip0)\<lparr>bRxFifoFull := True\<rparr>" 20 ram_bus] by simp

text \<open>
  Initialisation from the zeroed structure succeeds whenever memory for the transmit
  buffer is there and the register base is not null; it leaves a well-formed device with an
  empty receive queue.
\<close>

theorem init_establishes:
  fixes b :: "'h bus" and h :: 'h
  assumes "length buf = 132" and "reg_offset cfg \<noteq> 0"
  defines "r \<equiv> Pef24628e_MPI_Init b cfg (Some buf) (dev_reset h)"
  shows "fst r \<and> dev_wf (snd r) \<and> rx_inv (snd r) \<and> rx_contents (snd r) = []"
  using MPI_Init_wf [OF dev_reset_shape(1) [of h] assms(1,2), of b]
    MPI_Init_rx_inv [OF dev_reset_shape(1) [of h] assms(1,2), of b] dev_reset_shape(2) [of _ h]
  unfolding r_def by blast

lemma init_establishes_witness:
  "fst (Pef24628e_MPI_Init ram_bus \<lparr>irq_vector_init = 0, reg_offset = Bank1_PEF_C, sci_clock = 4\<rparr>
      (Some (replicate 132 0)) (dev_reset chip0))"
  using init_establishes [of "replicate 132 0"
      "\<lparr>irq_vector_init = 0, reg_offset = Bank1_PEF_C, sci_clock = 4\<rparr>" ram_bus chip0]
  by (simp add: Bank1_PEF_C_def)

text \<open>
  The block loop of the firmware download.  For a bound that leaves room for one more
  step in 32 bits the loop ends, and it sends exactly the planned blocks: addresses from
  the start in steps, image offsets in steps of 56, as many as it takes to reach the
  bound, stopping at the first block that is not acknowledged.
\<close>

theorem download_loop_is_plan:
  assumes "0 < unat stp" and "unat bound + unat stp \<le> 2 ^ 32" and "adr \<le> bound"
  shows "dl_blocks s fw bound stp adr off d =
    Some (dl_send s fw (dl_plan ((unat bound - unat adr + unat stp - 1) div unat stp) stp adr off) d)"
  using assms by (rule dl_blocks_returns)

lemma download_loop_is_plan_witness:
  "dl_blocks (\<lambda>a bs d. (True, d)) (\<lambda>off n. replicate n 0) 36864 14 0 0 (dev_sample chip0) =
     Some (dl_send (\<lambda>a bs d. (True, d)) (\<lambda>off n. replicate n 0) (dl_plan 2634 14 0 0) (dev_sample chip0))"
  using download_loop_is_plan [of 14 36864 0 "\<lambda>a bs d. (True, d)" "\<lambda>off n. replicate n 0" 0
      "dev_sample chip0"] by simp

text \<open>
  C5: the DSL firmware download always returns, whatever the chip answers and whatever
  the flash holds, and keeps the device well formed.
\<close>

theorem dsl_download_returns:
  assumes "\<forall>off n. length (fw off n) = n"
  shows "\<exists>ok e. Pef24628e_DSL_Download b fw d = Some (ok, e) \<and> (dev_wf d \<longrightarrow> dev_wf e)"
  using step_okD [OF step_ok_DSL, of fw b d] assms by auto

lemma dsl_download_returns_witness:
  "\<exists>ok e. Pef24628e_DSL_Download ram_bus (\<lambda>off n. replicate n 0) (dev_sample chip0) = Some (ok, e) \<and>
     (dev_wf (dev_sample chip0) \<longrightarrow> dev_wf e)"
  using dsl_download_returns [of "\<lambda>off n. replicate n 0" ram_bus "dev_sample chip0"] by simp

text \<open>
  The IDC firmware download returns for every image of at most 2 GiB whose boot part
  is not longer than the image; in particular none of its loops, whose bounds come
  from the image trailer, runs away.
\<close>

theorem idc_download_returns:
  assumes "\<forall>off n. length (fw off n) = n" and "unat nLength \<le> 2 ^ 31"
    and "boot_size (idc_read_info fw nLength) \<le> nLength"
  shows "\<exists>ok e. Pef24628e_IDC_Download b fw rxbuf nLength d = Some (ok, e) \<and> (dev_wf d \<longrightarrow> dev_wf e)"
  using step_okD [OF step_ok_IDC, of fw nLength b rxbuf d] assms by auto

lemma idc_download_returns_witness:
  "\<exists>ok e. Pef24628e_IDC_Download ram_bus (\<lambda>off n. replicate n 0) 0x20000000 180308 (dev_sample chip0) =
     Some (ok, e) \<and> (dev_wf (dev_sample chip0) \<longrightarrow> dev_wf e)"
  using idc_download_returns [of "\<lambda>off n. replicate n 0" 180308 ram_bus "0x20000000" "dev_sample chip0"]
  by (simp add: idc_read_info_def Let_def GET_UINT32_FROM_IMAGE_def get_le32_def)

text \<open>
  Of the control commands only firmware download, interface selection, device
  initialisation and polling can be reached through the byte-sized command argument; every
  other command is answered with an error and has no effect, so the register, version
  and AUX commands of the interface are unreachable.
\<close>

theorem control_commands_reachable:
  assumes "cmd \<notin> {13, 16, 18, 19}"
  shows "pef24628_control b flash rxbuf mem cmd a d = Some (RT_ERROR, a, d)"
  using assms by (rule control_dead)

lemma control_commands_reachable_witness:
  "pef24628_control ram_bus (\<lambda>off n. replicate n 0) 0 None 14
     \<lparr>a_if = 0, a_addr = 0, a_value = 0, a_core = Other_Core, a_size = 0,
      a_cfg = \<lparr>irq_vector_init = 0, reg_offset = 0, sci_clock = 4\<rparr>\<rparr> (dev_sample chip0) =
   Some (RT_ERROR,
     \<lparr>a_if = 0, a_addr = 0, a_value = 0, a_core = Other_Core, a_size = 0,
      a_cfg = \<lparr>irq_vector_init = 0, reg_offset = 0, sci_clock = 4\<rparr>\<rparr>, dev_sample chip0)"
  by (rule control_commands_reachable) simp



text \<open>
  Over the bridge the send call reports success for every message it accepts, whether
  or not the chip acknowledged one of the attempts.
\<close>

theorem bridge_send_reports_success:
  assumes "bInit d" and "ActiveIf d = PEF24628E_IF_MPI" and "bSendIdcViaSciBridge d"
    and "0 < length bs" and "length bs \<le> 132"
  shows "fst (Pef24628e_Send_IDC_Msg b bs d) = int (length bs)"
  using assms by (simp add: Pef24628e_Send_IDC_Msg_def Let_def tx_put_def)

lemma bridge_send_reports_success_witness:
  "fst (Pef24628e_Send_IDC_Msg ram_bus [1, 2, 3, 4] ((dev_sample chip0)\<lparr>bSendIdcViaSciBridge := True\<rparr>)) = 4"
  using bridge_send_reports_success [of "(dev_sample chip0)\<lparr>bSendIdcViaSciBridge := True\<rparr>" "[1, 2, 3, 4]" ram_bus]
  by simp

text \<open>
  Of the types of a frame of the transport protocol the notification type never
  occurs: the code masks the second header byte before it takes the bit that tells
  notifications from acknowledges.
\<close>

lemma tp_notification_unreachable:
  "PEF24628E_TP_GET_HEADER h0 (h1 AND NOT 0x0F) \<noteq> PEF24628E_TP_NFC_MSG"
  using tp_header_no_nfc [of h0 h1] by (auto simp: tp_codes)

end
